(* ===== verification/Prelude.thy ===== *)
theory Prelude imports Main "HOL-Library.Multiset" begin

text \<open>
  What the components share: reachability of a transition system, the two contracts of
  transition systems (an inductive invariant; a rank that every step decreases), the
  contract of a pool of numbered resources that is kept in a FIFO queue, and lemmas on
  lists that the standard library lacks.
\<close>

section \<open>Lists\<close>

lemma set_tl_subset: "set (tl xs) \<subseteq> set xs"
  by (cases xs) auto

lemma in_set_tlD [dest]: "x \<in> set (tl xs) \<Longrightarrow> x \<in> set xs"
  using set_tl_subset by fast

lemma distinct_hd_notin_tl: "distinct xs \<Longrightarrow> xs \<noteq> [] \<Longrightarrow> hd xs \<notin> set (tl xs)"
  by (cases xs) auto

lemma nth_update_cases:
  "i < length xs \<Longrightarrow> xs[i := v] ! j = (if i = j then v else xs ! j)"
  by simp

text \<open>\<open>ys\<close> is \<open>xs\<close> with elements added at its end.\<close>

definition prefix_of :: "'a list \<Rightarrow> 'a list \<Rightarrow> bool" where
  "prefix_of xs ys \<longleftrightarrow> (\<exists>zs. ys = xs @ zs)"

lemma prefix_of_refl [simp]: "prefix_of xs xs"
  by (simp add: prefix_of_def)

lemma prefix_of_append [simp]: "prefix_of xs (xs @ ys)"
  by (simp add: prefix_of_def)

section \<open>Transition systems\<close>

text \<open>
  The states an execution can visit: those that satisfy the initial predicate and those
  one step away from a visited state.
\<close>

inductive reach :: "('s \<Rightarrow> bool) \<Rightarrow> ('s \<Rightarrow> 's \<Rightarrow> bool) \<Rightarrow> 's \<Rightarrow> bool"
  for init :: "'s \<Rightarrow> bool" and step :: "'s \<Rightarrow> 's \<Rightarrow> bool" where
  reach_init: "init s \<Longrightarrow> reach init step s"
| reach_step: "reach init step s \<Longrightarrow> step s t \<Longrightarrow> reach init step t"

text \<open>Executions with their length: \<open>steps_in step n s t\<close> holds when \<open>n\<close> steps lead from \<open>s\<close> to \<open>t\<close>.\<close>

inductive steps_in :: "('s \<Rightarrow> 's \<Rightarrow> bool) \<Rightarrow> nat \<Rightarrow> 's \<Rightarrow> 's \<Rightarrow> bool"
  for step :: "'s \<Rightarrow> 's \<Rightarrow> bool" where
  steps_none: "steps_in step 0 s s"
| steps_more: "step s t \<Longrightarrow> steps_in step n t u \<Longrightarrow> steps_in step (Suc n) s u"

text \<open>The contract of an inductive invariant, and what every client gets from it.\<close>

locale invariant_system =
  fixes init :: "'s \<Rightarrow> bool"
    and step :: "'s \<Rightarrow> 's \<Rightarrow> bool"
    and inv :: "'s \<Rightarrow> bool"
  assumes inv_init: "init s \<Longrightarrow> inv s"
    and inv_step: "inv s \<Longrightarrow> step s t \<Longrightarrow> inv t"
begin

lemma inv_reach: "reach init step s \<Longrightarrow> inv s"
  by (induction rule: reach.induct) (auto intro: inv_init inv_step)

lemma inv_steps: "steps_in step n s t \<Longrightarrow> inv s \<Longrightarrow> inv t"
  by (induction rule: steps_in.induct) (auto intro: inv_step)

end

text \<open>
  A system whose steps decrease a rank and that is never stuck before a final state: every
  execution is bounded by the rank of its first state, and can be driven to a final state.
\<close>

locale ranked_system = invariant_system init step inv
  for init :: "'s \<Rightarrow> bool" and step :: "'s \<Rightarrow> 's \<Rightarrow> bool" and inv :: "'s \<Rightarrow> bool" +
  fixes rank :: "'s \<Rightarrow> nat"
    and final :: "'s \<Rightarrow> bool"
  assumes rank_step: "inv s \<Longrightarrow> step s t \<Longrightarrow> rank t < rank s"
    and progress: "inv s \<Longrightarrow> \<not> final s \<Longrightarrow> \<exists>t. step s t"
begin

lemma steps_bounded: "steps_in step n s t \<Longrightarrow> inv s \<Longrightarrow> n + rank t \<le> rank s"
proof (induction rule: steps_in.induct)
  case (steps_none s)
  show ?case by simp
next
  case (steps_more s t n u)
  from steps_more.hyps(1) steps_more.prems have "inv t" and "rank t < rank s"
    by (auto intro: inv_step rank_step)
  with steps_more.IH show ?case by simp
qed

lemma final_reachable: "inv s \<Longrightarrow> \<exists>n t. steps_in step n s t \<and> final t"
proof (induction "rank s" arbitrary: s rule: less_induct)
  case less
  show ?case
  proof (cases "final s")
    case True
    then show ?thesis by (blast intro: steps_in.steps_none)
  next
    case False
    with less.prems obtain u where u: "step s u" using progress by blast
    with less.prems have "inv u" "rank u < rank s" by (auto intro: inv_step rank_step)
    with less.hyps obtain n t where "steps_in step n u t" "final t" by blast
    with u show ?thesis by (blast intro: steps_in.steps_more)
  qed
qed

end

section \<open>Pools of numbered resources\<close>

text \<open>
  The free disk blocks of the file server, the free physical pages and the free swap blocks
  of the pager are all a \<open>std::queue\<close> of numbers: taken at the front, returned at the back.
  The contract says what a client may rely on, in terms of the multiset of free numbers.
\<close>

locale resource_pool =
  fixes is_empty :: "'p \<Rightarrow> bool"
    and front :: "'p \<Rightarrow> 'r"
    and pop :: "'p \<Rightarrow> 'p"
    and push :: "'r \<Rightarrow> 'p \<Rightarrow> 'p"
    and contents :: "'p \<Rightarrow> 'r multiset"
  assumes contents_empty: "is_empty p \<longleftrightarrow> contents p = {#}"
    and contents_take: "\<not> is_empty p \<Longrightarrow> add_mset (front p) (contents (pop p)) = contents p"
    and contents_push: "contents (push r p) = add_mset r (contents p)"
begin

lemma front_in: "\<not> is_empty p \<Longrightarrow> front p \<in># contents p"
  using contents_take [of p] by (metis union_single_eq_member)

lemma take_give: "\<not> is_empty p \<Longrightarrow> contents (push (front p) (pop p)) = contents p"
  by (simp add: contents_push contents_take)

lemma pop_subset: "\<not> is_empty p \<Longrightarrow> contents (pop p) \<subseteq># contents p"
  using contents_take [of p] by (metis subset_mset.order_refl mset_subset_eq_add_right
      add_mset_add_single mset_subset_eq_add_left)

lemma push_not_empty: "\<not> is_empty (push r p)"
  by (simp add: contents_empty contents_push)

end

text \<open>The code's pools: lists, the front first.\<close>

definition qpush :: "'r \<Rightarrow> 'r list \<Rightarrow> 'r list" where
  "qpush r q = q @ [r]"

lemma qpush_simps [simp]:
  "set (qpush r q) = insert r (set q)" "mset (qpush r q) = add_mset r (mset q)"
  "qpush r q \<noteq> []" "length (qpush r q) = Suc (length q)"
  "distinct (qpush r q) \<longleftrightarrow> distinct q \<and> r \<notin> set q"
  by (auto simp: qpush_def)

interpretation fifo: resource_pool "\<lambda>q. q = []" hd tl qpush mset
  by unfold_locales (auto simp: neq_Nil_conv)

end
