(* ===== verification/Thread_Lib.thy ===== *)
theory Thread_Lib imports Prelude begin

text \<open>
  Project2/thread_lib.cpp, mutex.cpp and cv.cpp: the state of the user-level thread library
  (TCBs, ready queue, mutexes, condition variables) and its operations. A call runs with
  interrupts disabled, so it is one transition. A call that blocks saves where the thread
  stopped (\<open>resume\<close>, standing for the saved \<open>ucontext_t\<close>) and hands the CPU to the front of
  the ready queue, whose own interrupted library call then runs to its end; the new state is
  the one in which that thread is back in user code.
\<close>

section \<open>Data\<close>

type_synonym tid = nat
type_synonym mid = nat
type_synonym cid = nat

text \<open>
  The point at which a saved context continues: \<open>starter\<close> for a new thread, else the
  \<open>swapcontext\<close> of the call it is in. \<open>In_wait\<close> is the first \<open>swap_helper()\<close> of \<open>cv::wait\<close>,
  \<open>In_relock\<close> the second one.
\<close>

datatype resume = Start | In_yield | In_join | In_lock mid | In_wait mid | In_relock mid

record tcb =
  ucontext :: resume
  join_queue :: "tid list"

record mutex =
  status :: bool
  occupy_thread :: "tid option"
  mutex_queue :: "tid list"

record cv =
  cv_queue :: "tid list"

text \<open>
  TCBs, mutexes and condition variables are allocated in order and named by their position;
  a \<open>shared_ptr<TCB>\<close> or \<open>weak_ptr<TCB>\<close> is such a position (\<open>None\<close>: the null pointer).
\<close>

record tlib =
  running_thread :: "tid option"
  ready_queue :: "tid list"
  previous_thread :: "tid option"
  tcbs :: "tcb list"
  mutexes :: "mutex list"
  cvs :: "cv list"
  interrupts :: bool

datatype lib_error = Bad_alloc | Unlock_unobtained | Wait_unobtained

text \<open>The state a call leaves and the exception it throws, if it throws one.\<close>

type_synonym lib_result = "tlib \<times> lib_error option"

definition new_tcb :: tcb where
  "new_tcb = \<lparr>ucontext = Start, join_queue = []\<rparr>"

definition new_mutex :: mutex where
  "new_mutex = \<lparr>status = False, occupy_thread = None, mutex_queue = []\<rparr>"

definition new_cv :: cv where
  "new_cv = \<lparr>cv_queue = []\<rparr>"

definition upd_tcb :: "tid \<Rightarrow> (tcb \<Rightarrow> tcb) \<Rightarrow> tlib \<Rightarrow> tlib" where
  "upd_tcb t f s = s\<lparr>tcbs := (tcbs s)[t := f (tcbs s ! t)]\<rparr>"

definition upd_mutex :: "mid \<Rightarrow> (mutex \<Rightarrow> mutex) \<Rightarrow> tlib \<Rightarrow> tlib" where
  "upd_mutex m f s = s\<lparr>mutexes := (mutexes s)[m := f (mutexes s ! m)]\<rparr>"

definition upd_cv :: "cid \<Rightarrow> (cv \<Rightarrow> cv) \<Rightarrow> tlib \<Rightarrow> tlib" where
  "upd_cv c f s = s\<lparr>cvs := (cvs s)[c := f (cvs s ! c)]\<rparr>"

definition interrupt_disable :: "tlib \<Rightarrow> tlib" where
  "interrupt_disable s = s\<lparr>interrupts := False\<rparr>"

definition interrupt_enable :: "tlib \<Rightarrow> tlib" where
  "interrupt_enable s = s\<lparr>interrupts := True\<rparr>"

definition push_ready :: "tid \<Rightarrow> tlib \<Rightarrow> tlib" where
  "push_ready t s = s\<lparr>ready_queue := qpush t (ready_queue s)\<rparr>"

text \<open>The loops that move a whole queue to the ready queue, one thread at a time.\<close>

fun drain :: "tid list \<Rightarrow> tlib \<Rightarrow> tlib" where
  "drain [] s = s"
| "drain (t # ts) s = drain ts (push_ready t s)"

lemma drain_eq: "drain ts s = s\<lparr>ready_queue := ready_queue s @ ts\<rparr>"
  by (induction ts arbitrary: s) (simp_all add: push_ready_def qpush_def)

abbreviation push_waiter :: "tid \<Rightarrow> mutex \<Rightarrow> mutex" where
  "push_waiter t x \<equiv> x\<lparr>mutex_queue := qpush t (mutex_queue x)\<rparr>"

text \<open>What the updates leave alone, and what they write.\<close>

lemma upd_tcb_fields [simp]:
  "running_thread (upd_tcb t f s) = running_thread s" "ready_queue (upd_tcb t f s) = ready_queue s"
  "previous_thread (upd_tcb t f s) = previous_thread s" "mutexes (upd_tcb t f s) = mutexes s"
  "cvs (upd_tcb t f s) = cvs s" "interrupts (upd_tcb t f s) = interrupts s"
  "length (tcbs (upd_tcb t f s)) = length (tcbs s)"
  "tcbs (upd_tcb t f s) ! u = (if u = t \<and> t < length (tcbs s) then f (tcbs s ! u) else tcbs s ! u)"
  by (auto simp: upd_tcb_def nth_list_update list_update_beyond)

lemma upd_mutex_fields [simp]:
  "running_thread (upd_mutex m f s) = running_thread s" "ready_queue (upd_mutex m f s) = ready_queue s"
  "previous_thread (upd_mutex m f s) = previous_thread s" "tcbs (upd_mutex m f s) = tcbs s"
  "cvs (upd_mutex m f s) = cvs s" "interrupts (upd_mutex m f s) = interrupts s"
  "length (mutexes (upd_mutex m f s)) = length (mutexes s)"
  "mutexes (upd_mutex m f s) ! k
     = (if k = m \<and> m < length (mutexes s) then f (mutexes s ! k) else mutexes s ! k)"
  by (auto simp: upd_mutex_def nth_list_update list_update_beyond)

lemma upd_cv_fields [simp]:
  "running_thread (upd_cv c f s) = running_thread s" "ready_queue (upd_cv c f s) = ready_queue s"
  "previous_thread (upd_cv c f s) = previous_thread s" "tcbs (upd_cv c f s) = tcbs s"
  "mutexes (upd_cv c f s) = mutexes s" "interrupts (upd_cv c f s) = interrupts s"
  "length (cvs (upd_cv c f s)) = length (cvs s)"
  "cvs (upd_cv c f s) ! k = (if k = c \<and> c < length (cvs s) then f (cvs s ! k) else cvs s ! k)"
  by (auto simp: upd_cv_def nth_list_update list_update_beyond)

lemma push_ready_fields [simp]:
  "running_thread (push_ready t s) = running_thread s" "ready_queue (push_ready t s) = qpush t (ready_queue s)"
  "previous_thread (push_ready t s) = previous_thread s" "tcbs (push_ready t s) = tcbs s"
  "mutexes (push_ready t s) = mutexes s" "cvs (push_ready t s) = cvs s"
  "interrupts (push_ready t s) = interrupts s"
  by (simp_all add: push_ready_def)

lemma interrupt_fields [simp]:
  "running_thread (interrupt_disable s) = running_thread s" "running_thread (interrupt_enable s) = running_thread s"
  "ready_queue (interrupt_disable s) = ready_queue s" "ready_queue (interrupt_enable s) = ready_queue s"
  "previous_thread (interrupt_disable s) = previous_thread s" "previous_thread (interrupt_enable s) = previous_thread s"
  "tcbs (interrupt_disable s) = tcbs s" "tcbs (interrupt_enable s) = tcbs s"
  "mutexes (interrupt_disable s) = mutexes s" "mutexes (interrupt_enable s) = mutexes s"
  "cvs (interrupt_disable s) = cvs s" "cvs (interrupt_enable s) = cvs s"
  "\<not> interrupts (interrupt_disable s)" "interrupts (interrupt_enable s)"
  by (simp_all add: interrupt_disable_def interrupt_enable_def)

section \<open>Context switches\<close>

text \<open>
  Back in \<open>cpu::cpu\<close> after its \<open>swapcontext\<close>: the loop ends when the ready queue is empty, the
  pointers are reset and the CPU is suspended with interrupts enabled.
\<close>

definition host_return :: "tlib \<Rightarrow> tlib" where
  "host_return s = interrupt_enable (s\<lparr>running_thread := None, previous_thread := None\<rparr>)"

text \<open>
  The front of the ready queue runs. Every resumption resets \<open>previous_thread\<close> first
  (\<open>starter\<close>, the end of \<open>swap_helper\<close>). A thread that was waiting on a condition variable then
  takes the mutex if it is free, and otherwise queues for it and switches again.
\<close>

function swap_in :: "tlib \<Rightarrow> tlib" where
  "swap_in s = (case ready_queue s of
      [] \<Rightarrow> host_return s
    | t # ts \<Rightarrow>
        (let s1 = s\<lparr>running_thread := Some t, ready_queue := ts, previous_thread := None\<rparr> in
         case ucontext (tcbs s ! t) of
           In_wait m \<Rightarrow>
             if \<not> status (mutexes s ! m)
             then interrupt_enable (upd_mutex m (\<lambda>x. x\<lparr>occupy_thread := Some t, status := True\<rparr>) s1)
             else swap_in (upd_tcb t (\<lambda>x. x\<lparr>ucontext := In_relock m\<rparr>) (upd_mutex m (push_waiter t) s1))
         | _ \<Rightarrow> interrupt_enable s1))"
  by pat_completeness auto
termination
  by (relation "measure (\<lambda>s. length (ready_queue s))") (auto simp: upd_tcb_def upd_mutex_def)

declare swap_in.simps [simp del]

text \<open>\<open>swap_helper()\<close>, called where the running thread's context continues at \<open>r\<close>.\<close>

definition swap_helper :: "resume \<Rightarrow> tlib \<Rightarrow> tlib" where
  "swap_helper r s = (case running_thread s of
      None \<Rightarrow> s
    | Some t \<Rightarrow> swap_in (upd_tcb t (\<lambda>x. x\<lparr>ucontext := r\<rparr>) s))"

section \<open>Threads\<close>

text \<open>
  The shared pointers to TCBs: those of the globals, of every queue, and of the queues inside
  TCBs. A weak pointer has expired when no shared pointer is left.
\<close>

definition tcb_refs :: "tlib \<Rightarrow> tid list" where
  "tcb_refs s = (case running_thread s of None \<Rightarrow> [] | Some t \<Rightarrow> [t])
     @ (case previous_thread s of None \<Rightarrow> [] | Some t \<Rightarrow> [t])
     @ ready_queue s @ concat (map mutex_queue (mutexes s))
     @ concat (map cv_queue (cvs s)) @ concat (map join_queue (tcbs s))"

definition expired :: "tlib \<Rightarrow> tid option \<Rightarrow> bool" where
  "expired s w = (case w of None \<Rightarrow> True | Some t \<Rightarrow> t \<notin> set (tcb_refs s))"

text \<open>
  \<open>make_shared<TCB>\<close>, \<open>makecontext\<close> and the push to the ready queue; \<open>alloc_ok\<close> says whether the
  allocations succeed.
\<close>

definition create_tcb :: "tlib \<Rightarrow> tlib" where
  "create_tcb s = push_ready (length (tcbs s)) (s\<lparr>tcbs := tcbs s @ [new_tcb]\<rparr>)"

definition thread_ctor :: "bool \<Rightarrow> tlib \<Rightarrow> lib_result" where
  "thread_ctor alloc_ok s =
     (let s1 = interrupt_disable s in
      if alloc_ok then (interrupt_enable (create_tcb s1), None)
      else (interrupt_enable s1, Some Bad_alloc))"

text \<open>The boot of a CPU: the parent's TCB, then the loop of \<open>cpu::cpu\<close> takes it.\<close>

definition boot_state :: tlib where
  "boot_state = \<lparr>running_thread = None, ready_queue = [], previous_thread = None,
     tcbs = [], mutexes = [], cvs = [], interrupts = False\<rparr>"

definition cpu_ctor :: "bool \<Rightarrow> tlib \<Rightarrow> lib_result" where
  "cpu_ctor alloc_ok s =
     (if alloc_ok then (swap_in (create_tcb s), None)
      else (interrupt_enable s, Some Bad_alloc))"

definition yield :: "tlib \<Rightarrow> lib_result" where
  "yield s = (case running_thread s of None \<Rightarrow> (s, None) | Some t \<Rightarrow>
     let s1 = interrupt_disable s in
     if ready_queue s1 \<noteq> [] then (swap_helper In_yield (push_ready t s1), None)
     else (interrupt_enable s1, None))"

definition join :: "tid \<Rightarrow> tlib \<Rightarrow> lib_result" where
  "join u s = (case running_thread s of None \<Rightarrow> (s, None) | Some t \<Rightarrow>
     let s1 = interrupt_disable s in
     if \<not> expired s1 (Some u)
     then (swap_helper In_join (upd_tcb u (\<lambda>x. x\<lparr>join_queue := qpush t (join_queue x)\<rparr>) s1), None)
     else (interrupt_enable s1, None))"

text \<open>What \<open>starter\<close> does once the thread's function has returned.\<close>

definition starter_exit :: "tlib \<Rightarrow> lib_result" where
  "starter_exit s = (case running_thread s of None \<Rightarrow> (s, None) | Some t \<Rightarrow>
     let s1 = interrupt_disable s;
         s2 = upd_tcb t (\<lambda>x. x\<lparr>join_queue := []\<rparr>) (drain (join_queue (tcbs s1 ! t)) s1) in
     if ready_queue s2 \<noteq> []
     then (swap_in (s2\<lparr>previous_thread := Some t, running_thread := None\<rparr>), None)
     else (host_return s2, None))"

section \<open>Mutexes\<close>

definition mutex_lock :: "mid \<Rightarrow> tlib \<Rightarrow> lib_result" where
  "mutex_lock m s = (case running_thread s of None \<Rightarrow> (s, None) | Some t \<Rightarrow>
     let s1 = interrupt_disable s in
     if status (mutexes s1 ! m)
     then (swap_helper (In_lock m) (upd_mutex m (push_waiter t) s1), None)
     else (interrupt_enable (upd_mutex m (\<lambda>x. x\<lparr>status := True, occupy_thread := Some t\<rparr>) s1), None))"

definition check_ownership :: "mid \<Rightarrow> tlib \<Rightarrow> bool" where
  "check_ownership m s \<longleftrightarrow> (let x = mutexes s ! m in
     \<not> expired s (occupy_thread x) \<and> status x \<and> occupy_thread x = running_thread s)"

text \<open>Release by the owner: the first waiter, if any, becomes the owner and is made ready.\<close>

definition hand_over :: "mid \<Rightarrow> tlib \<Rightarrow> tlib" where
  "hand_over m s = (case mutex_queue (mutexes s ! m) of
      [] \<Rightarrow> upd_mutex m (\<lambda>x. x\<lparr>status := False\<rparr>) s
    | u # us \<Rightarrow> push_ready u
        (upd_mutex m (\<lambda>x. x\<lparr>status := True, occupy_thread := Some u, mutex_queue := us\<rparr>) s))"

definition mutex_unlock :: "mid \<Rightarrow> tlib \<Rightarrow> lib_result" where
  "mutex_unlock m s =
     (let s1 = interrupt_disable s in
      if check_ownership m s1 then (interrupt_enable (hand_over m s1), None)
      else (interrupt_enable s1, Some Unlock_unobtained))"

section \<open>Condition variables\<close>

definition cv_wait :: "cid \<Rightarrow> mid \<Rightarrow> tlib \<Rightarrow> lib_result" where
  "cv_wait c m s = (case running_thread s of None \<Rightarrow> (s, None) | Some t \<Rightarrow>
     let s1 = interrupt_disable s in
     if \<not> check_ownership m s1 then (interrupt_enable s1, Some Wait_unobtained)
     else (swap_helper (In_wait m)
             (hand_over m (upd_cv c (\<lambda>x. x\<lparr>cv_queue := qpush t (cv_queue x)\<rparr>) s1)), None))"

definition cv_signal :: "cid \<Rightarrow> tlib \<Rightarrow> lib_result" where
  "cv_signal c s =
     (let s1 = interrupt_disable s in
      case cv_queue (cvs s1 ! c) of
        [] \<Rightarrow> (interrupt_enable s1, None)
      | u # us \<Rightarrow> (interrupt_enable (push_ready u (upd_cv c (\<lambda>x. x\<lparr>cv_queue := us\<rparr>) s1)), None))"

definition cv_broadcast :: "cid \<Rightarrow> tlib \<Rightarrow> lib_result" where
  "cv_broadcast c s =
     (let s1 = interrupt_disable s in
      (interrupt_enable (upd_cv c (\<lambda>x. x\<lparr>cv_queue := []\<rparr>) (drain (cv_queue (cvs s1 ! c)) s1)), None))"

section \<open>Client programs\<close>

text \<open>
  What user code can do next. \<open>Yield\<close> is also the timer interrupt, whose handler is
  \<open>thread::yield\<close>; \<open>Exit\<close> is the return of the thread's function.
\<close>

datatype call = Create bool | Yield | Join tid | Exit
  | Lock mid | Unlock mid | Wait cid mid | Signal cid | Broadcast cid | New_mutex | New_cv

fun exec_call :: "call \<Rightarrow> tlib \<Rightarrow> lib_result" where
  "exec_call (Create ok) s = thread_ctor ok s"
| "exec_call Yield s = yield s"
| "exec_call (Join u) s = join u s"
| "exec_call Exit s = starter_exit s"
| "exec_call (Lock m) s = mutex_lock m s"
| "exec_call (Unlock m) s = mutex_unlock m s"
| "exec_call (Wait c m) s = cv_wait c m s"
| "exec_call (Signal c) s = cv_signal c s"
| "exec_call (Broadcast c) s = cv_broadcast c s"
| "exec_call New_mutex s = (s\<lparr>mutexes := mutexes s @ [new_mutex]\<rparr>, None)"
| "exec_call New_cv s = (s\<lparr>cvs := cvs s @ [new_cv]\<rparr>, None)"

text \<open>The objects a call names exist.\<close>

fun call_ok :: "call \<Rightarrow> tlib \<Rightarrow> bool" where
  "call_ok (Join u) s \<longleftrightarrow> u < length (tcbs s)"
| "call_ok (Lock m) s \<longleftrightarrow> m < length (mutexes s)"
| "call_ok (Unlock m) s \<longleftrightarrow> m < length (mutexes s)"
| "call_ok (Wait c m) s \<longleftrightarrow> c < length (cvs s) \<and> m < length (mutexes s)"
| "call_ok (Signal c) s \<longleftrightarrow> c < length (cvs s)"
| "call_ok (Broadcast c) s \<longleftrightarrow> c < length (cvs s)"
| "call_ok _ s \<longleftrightarrow> True"

text \<open>The library with any client program: the running thread makes any call on existing objects.\<close>

inductive lib_step :: "tlib \<Rightarrow> tlib \<Rightarrow> bool" where
  lib_stepI: "running_thread s \<noteq> None \<Longrightarrow> call_ok c s \<Longrightarrow> fst (exec_call c s) = s' \<Longrightarrow> lib_step s s'"

text \<open>
  The program's global mutexes and condition variables exist before the boot; \<open>nm\<close> and \<open>nc\<close> are
  their numbers.
\<close>

definition booted :: "nat \<Rightarrow> nat \<Rightarrow> tlib" where
  "booted nm nc = fst (cpu_ctor True
     (boot_state\<lparr>mutexes := replicate nm new_mutex, cvs := replicate nc new_cv\<rparr>))"

definition lib_init :: "tlib \<Rightarrow> bool" where
  "lib_init s \<longleftrightarrow> (\<exists>nm nc. s = booted nm nc)"

end
