(* ===== verification/Thread_Inv.thy ===== *)
theory Thread_Inv imports Thread_Lib begin

text \<open>
  The invariant of the thread library: every parked thread waits in exactly one queue, once,
  and its saved context fits the queue; a mutex with waiters is held; a thread made ready from
  a mutex's queue already owns the mutex. Each operation keeps it, so it holds in every state
  any client program can reach.
\<close>

section \<open>Where a thread is parked\<close>

datatype place = Ready | On_mutex mid | On_cv cid | On_join tid

fun queue_at :: "tlib \<Rightarrow> place \<Rightarrow> tid list" where
  "queue_at s Ready = ready_queue s"
| "queue_at s (On_mutex m) = (if m < length (mutexes s) then mutex_queue (mutexes s ! m) else [])"
| "queue_at s (On_cv c) = (if c < length (cvs s) then cv_queue (cvs s ! c) else [])"
| "queue_at s (On_join u) = (if u < length (tcbs s) then join_queue (tcbs s ! u) else [])"

definition disciplined :: "(place \<Rightarrow> tid list) \<Rightarrow> bool" where
  "disciplined Q \<longleftrightarrow> (\<forall>p. distinct (Q p)) \<and>
     (\<forall>p q t. t \<in> set (Q p) \<longrightarrow> t \<in> set (Q q) \<longrightarrow> p = q)"

definition absent :: "(place \<Rightarrow> tid list) \<Rightarrow> tid \<Rightarrow> bool" where
  "absent Q t \<longleftrightarrow> (\<forall>p. t \<notin> set (Q p))"

lemma disciplined_push:
  "disciplined Q \<Longrightarrow> absent Q t \<Longrightarrow> disciplined (Q(p := qpush t (Q p)))"
  unfolding disciplined_def absent_def by (auto split: if_splits)

lemma disciplined_pop:
  "disciplined Q \<Longrightarrow> Q p = t # ts \<Longrightarrow> disciplined (Q(p := ts))"
  unfolding disciplined_def by (smt (verit) distinct.simps(2) fun_upd_apply list.set_intros(2))

lemma absent_pop:
  "disciplined Q \<Longrightarrow> Q p = t # ts \<Longrightarrow> absent (Q(p := ts)) t"
  unfolding disciplined_def absent_def
  by (smt (verit) distinct.simps(2) fun_upd_apply list.set_intros(1))

lemma disciplined_drain:
  "disciplined Q \<Longrightarrow> p \<noteq> q \<Longrightarrow> disciplined (Q(p := Q p @ Q q, q := []))"
  unfolding disciplined_def by (auto split: if_splits)

lemma absent_push: "absent (Q(p := qpush t (Q p))) u \<longleftrightarrow> absent Q u \<and> u \<noteq> t"
  unfolding absent_def by auto

lemma absent_shrink: "absent Q u \<Longrightarrow> set xs \<subseteq> set (Q p) \<Longrightarrow> absent (Q(p := xs)) u"
  unfolding absent_def by auto

lemma absent_drain: "absent Q u \<Longrightarrow> absent (Q(p := Q p @ Q q, q := [])) u"
  unfolding absent_def by auto

section \<open>How the updates move threads\<close>

lemma queue_at_globals [simp]:
  "queue_at (s\<lparr>running_thread := r\<rparr>) = queue_at s"
  "queue_at (s\<lparr>previous_thread := r\<rparr>) = queue_at s"
  "queue_at (s\<lparr>interrupts := b\<rparr>) = queue_at s"
  "queue_at (interrupt_disable s) = queue_at s"
  "queue_at (interrupt_enable s) = queue_at s"
  by (rule ext, case_tac x, simp_all add: interrupt_disable_def interrupt_enable_def)+

lemma queue_at_ready [simp]: "queue_at (s\<lparr>ready_queue := q\<rparr>) = (queue_at s)(Ready := q)"
  by (rule ext, case_tac x) simp_all

lemma queue_at_push_ready [simp]:
  "queue_at (push_ready t s) = (queue_at s)(Ready := qpush t (ready_queue s))"
  by (simp add: push_ready_def)

lemma queue_at_upd_mutex [simp]:
  "m < length (mutexes s) \<Longrightarrow>
   queue_at (upd_mutex m f s) = (queue_at s)(On_mutex m := mutex_queue (f (mutexes s ! m)))"
  by (rule ext, case_tac x) (simp_all add: upd_mutex_def)

lemma queue_at_upd_cv [simp]:
  "c < length (cvs s) \<Longrightarrow>
   queue_at (upd_cv c f s) = (queue_at s)(On_cv c := cv_queue (f (cvs s ! c)))"
  by (rule ext, case_tac x) (simp_all add: upd_cv_def)

lemma queue_at_upd_tcb [simp]:
  "u < length (tcbs s) \<Longrightarrow>
   queue_at (upd_tcb u f s) = (queue_at s)(On_join u := join_queue (f (tcbs s ! u)))"
  by (rule ext, case_tac x) (simp_all add: upd_tcb_def)

text \<open>An update that leaves the queue alone leaves the whole placement alone.\<close>

lemma queue_at_same [simp]:
  "u < length (tcbs s) \<Longrightarrow> (queue_at s)(On_join u := join_queue (tcbs s ! u)) = queue_at s"
  "m < length (mutexes s) \<Longrightarrow> (queue_at s)(On_mutex m := mutex_queue (mutexes s ! m)) = queue_at s"
  "c < length (cvs s) \<Longrightarrow> (queue_at s)(On_cv c := cv_queue (cvs s ! c)) = queue_at s"
  "u < length (tcbs s) \<Longrightarrow>
   (queue_at s)(Ready := q, On_join u := join_queue (tcbs s ! u)) = (queue_at s)(Ready := q)"
  "m < length (mutexes s) \<Longrightarrow>
   (queue_at s)(Ready := q, On_mutex m := mutex_queue (mutexes s ! m)) = (queue_at s)(Ready := q)"
  by (auto intro!: fun_upd_idem)

lemma queue_at_new [simp]:
  "queue_at (s\<lparr>tcbs := tcbs s @ [new_tcb]\<rparr>) = queue_at s"
  "queue_at (s\<lparr>mutexes := mutexes s @ [new_mutex]\<rparr>) = queue_at s"
  "queue_at (s\<lparr>cvs := cvs s @ [new_cv]\<rparr>) = queue_at s"
  by (rule ext, case_tac x, simp_all add: new_tcb_def new_mutex_def new_cv_def nth_append)+

section \<open>The invariant\<close>

fun parked_ok :: "tlib \<Rightarrow> place \<Rightarrow> tid \<Rightarrow> bool" where
  "parked_ok s Ready t \<longleftrightarrow> (case ucontext (tcbs s ! t) of
      In_lock m \<Rightarrow> m < length (mutexes s) \<and> status (mutexes s ! m) \<and> occupy_thread (mutexes s ! m) = Some t
    | In_relock m \<Rightarrow> m < length (mutexes s) \<and> status (mutexes s ! m) \<and> occupy_thread (mutexes s ! m) = Some t
    | In_wait m \<Rightarrow> m < length (mutexes s)
    | _ \<Rightarrow> True)"
| "parked_ok s (On_mutex m) t \<longleftrightarrow> ucontext (tcbs s ! t) \<in> {In_lock m, In_relock m}"
| "parked_ok s (On_cv c) t \<longleftrightarrow> (\<exists>m < length (mutexes s). ucontext (tcbs s ! t) = In_wait m)"
| "parked_ok s (On_join u) t \<longleftrightarrow> ucontext (tcbs s ! t) = In_join"

definition mutex_ok :: "mutex \<Rightarrow> bool" where
  "mutex_ok x \<longleftrightarrow> (status x \<longrightarrow> occupy_thread x \<noteq> None) \<and> (\<not> status x \<longrightarrow> mutex_queue x = [])"

text \<open>What holds when the CPU is about to be handed over: nothing is said of the running thread.\<close>

definition switch_inv :: "tlib \<Rightarrow> bool" where
  "switch_inv s \<longleftrightarrow> disciplined (queue_at s) \<and>
     (\<forall>p t. t \<in> set (queue_at s p) \<longrightarrow> t < length (tcbs s) \<and> parked_ok s p t) \<and>
     (\<forall>m < length (mutexes s). mutex_ok (mutexes s ! m))"

text \<open>What holds when user code runs, or the CPU is suspended.\<close>

definition lib_inv :: "tlib \<Rightarrow> bool" where
  "lib_inv s \<longleftrightarrow> switch_inv s \<and> previous_thread s = None \<and> interrupts s \<and>
     (\<forall>t. running_thread s = Some t \<longrightarrow> t < length (tcbs s) \<and> absent (queue_at s) t)"

lemma switch_invI:
  assumes "disciplined (queue_at s)"
    and "\<And>p t. t \<in> set (queue_at s p) \<Longrightarrow> t < length (tcbs s)"
    and "\<And>p t. t \<in> set (queue_at s p) \<Longrightarrow> parked_ok s p t"
    and "\<And>m. m < length (mutexes s) \<Longrightarrow> mutex_ok (mutexes s ! m)"
  shows "switch_inv s"
  using assms by (auto simp: switch_inv_def)

lemma switch_invD:
  assumes "switch_inv s"
  shows "disciplined (queue_at s)"
    and "t \<in> set (queue_at s p) \<Longrightarrow> t < length (tcbs s)"
    and "t \<in> set (queue_at s p) \<Longrightarrow> parked_ok s p t"
    and "m < length (mutexes s) \<Longrightarrow> mutex_ok (mutexes s ! m)"
  using assms by (auto simp: switch_inv_def)

text \<open>The invariant reads neither the running thread nor the interrupt flag.\<close>

lemma parked_ok_globals [simp]:
  "parked_ok (s\<lparr>running_thread := r\<rparr>) p t = parked_ok s p t"
  "parked_ok (s\<lparr>previous_thread := r\<rparr>) p t = parked_ok s p t"
  "parked_ok (s\<lparr>interrupts := b\<rparr>) p t = parked_ok s p t"
  "parked_ok (s\<lparr>ready_queue := q\<rparr>) p t = parked_ok s p t"
  by (cases p; simp split: resume.splits)+

lemma switch_inv_globals [simp]:
  "switch_inv (s\<lparr>running_thread := r\<rparr>) = switch_inv s"
  "switch_inv (s\<lparr>previous_thread := r\<rparr>) = switch_inv s"
  "switch_inv (s\<lparr>interrupts := b\<rparr>) = switch_inv s"
  by (simp_all add: switch_inv_def)

lemma switch_inv_interrupts [simp]:
  "switch_inv (interrupt_disable s) = switch_inv s"
  "switch_inv (interrupt_enable s) = switch_inv s"
  by (simp_all add: interrupt_disable_def interrupt_enable_def)

section \<open>The primitive moves keep the invariant\<close>

lemma parked_ok_cong:
  assumes "mutexes s' = mutexes s" and "ucontext (tcbs s' ! t) = ucontext (tcbs s ! t)"
  shows "parked_ok s' p t = parked_ok s p t"
  using assms by (cases p) (auto split: resume.splits)

lemma save_ctx_inv:
  assumes "switch_inv s" "absent (queue_at s) t" "t < length (tcbs s)"
  shows "switch_inv (upd_tcb t (\<lambda>x. x\<lparr>ucontext := r\<rparr>) s)"
proof (rule switch_invI)
  note D = switch_invD [OF assms(1)]
  let ?s = "upd_tcb t (\<lambda>x. x\<lparr>ucontext := r\<rparr>) s"
  have q: "queue_at ?s = queue_at s" using assms(3) by simp
  show "disciplined (queue_at ?s)" using D(1) q by simp
  fix p u assume u: "u \<in> set (queue_at ?s p)"
  with D(2) q show "u < length (tcbs ?s)" by simp
  from u assms(2) q have "u \<noteq> t" by (auto simp: absent_def)
  then have "parked_ok ?s p u = parked_ok s p u"
    by (intro parked_ok_cong) auto
  with D(3) u q show "parked_ok ?s p u" by simp
next
  fix m assume "m < length (mutexes (upd_tcb t (\<lambda>x. x\<lparr>ucontext := r\<rparr>) s))"
  with switch_invD(4) [OF assms(1)] show "mutex_ok (mutexes (upd_tcb t (\<lambda>x. x\<lparr>ucontext := r\<rparr>) s) ! m)"
    by simp
qed

text \<open>
  A thread that is parked nowhere joins the queue of a place its saved context fits; the update
  leaves contexts and the mutexes' holders alone.
\<close>

lemma park_inv:
  assumes "switch_inv s" "absent (queue_at s) t" "t < length (tcbs s)" "parked_ok s p t"
    and q: "queue_at s' = (queue_at s)(p := qpush t (queue_at s p))"
    and ctx: "length (tcbs s') = length (tcbs s)" "\<And>u. ucontext (tcbs s' ! u) = ucontext (tcbs s ! u)"
    and mx: "length (mutexes s') = length (mutexes s)"
      "\<And>m. status (mutexes s' ! m) = status (mutexes s ! m)"
      "\<And>m. occupy_thread (mutexes s' ! m) = occupy_thread (mutexes s ! m)"
      "\<And>m. m < length (mutexes s) \<Longrightarrow> mutex_ok (mutexes s' ! m)"
  shows "switch_inv s'"
proof (rule switch_invI)
  note D = switch_invD [OF assms(1)]
  have same: "parked_ok s' p' u = parked_ok s p' u" for p' u
    by (cases p') (auto simp: ctx mx split: resume.splits)
  show "disciplined (queue_at s')"
    using disciplined_push [OF D(1) assms(2)] q by simp
  fix p' u assume u: "u \<in> set (queue_at s' p')"
  then have "u \<in> set (queue_at s p') \<or> p' = p \<and> u = t"
    using q by (auto split: if_splits)
  then show "u < length (tcbs s')" "parked_ok s' p' u"
    using D(2,3) assms(3,4) same ctx(1) by auto
next
  fix m assume "m < length (mutexes s')"
  with mx show "mutex_ok (mutexes s' ! m)" by simp
qed

lemma push_ready_inv:
  "switch_inv s \<Longrightarrow> absent (queue_at s) t \<Longrightarrow> t < length (tcbs s) \<Longrightarrow> parked_ok s Ready t
   \<Longrightarrow> switch_inv (push_ready t s)"
  by (rule park_inv [where p = Ready]) (auto simp: switch_inv_def)

lemma push_mutex_inv:
  "switch_inv s \<Longrightarrow> absent (queue_at s) t \<Longrightarrow> t < length (tcbs s) \<Longrightarrow> m < length (mutexes s)
   \<Longrightarrow> status (mutexes s ! m) \<Longrightarrow> ucontext (tcbs s ! t) \<in> {In_lock m, In_relock m}
   \<Longrightarrow> switch_inv (upd_mutex m (push_waiter t) s)"
  by (rule park_inv [where p = "On_mutex m"])
     (auto simp: switch_inv_def mutex_ok_def)

lemma push_cv_inv:
  "switch_inv s \<Longrightarrow> absent (queue_at s) t \<Longrightarrow> t < length (tcbs s) \<Longrightarrow> c < length (cvs s)
   \<Longrightarrow> m < length (mutexes s) \<Longrightarrow> ucontext (tcbs s ! t) = In_wait m
   \<Longrightarrow> switch_inv (upd_cv c (\<lambda>x. x\<lparr>cv_queue := qpush t (cv_queue x)\<rparr>) s)"
  by (rule park_inv [where p = "On_cv c"]) (auto simp: switch_inv_def)

lemma push_join_inv:
  "switch_inv s \<Longrightarrow> absent (queue_at s) t \<Longrightarrow> t < length (tcbs s) \<Longrightarrow> u < length (tcbs s)
   \<Longrightarrow> ucontext (tcbs s ! t) = In_join
   \<Longrightarrow> switch_inv (upd_tcb u (\<lambda>x. x\<lparr>join_queue := qpush t (join_queue x)\<rparr>) s)"
  by (rule park_inv [where p = "On_join u"])
     (auto simp: switch_inv_def)

text \<open>The front of the ready queue is taken out.\<close>

lemma pop_ready_inv:
  assumes "switch_inv s" "ready_queue s = t # ts"
  shows "switch_inv (s\<lparr>ready_queue := ts\<rparr>)" "absent (queue_at (s\<lparr>ready_queue := ts\<rparr>)) t"
    "t < length (tcbs s)" "parked_ok s Ready t"
proof -
  note D = switch_invD [OF assms(1)]
  have q: "queue_at s Ready = t # ts" using assms(2) by simp
  then have t: "t \<in> set (queue_at s Ready)" by simp
  show "t < length (tcbs s)" "parked_ok s Ready t" using D(2,3) [OF t] by blast+
  show "absent (queue_at (s\<lparr>ready_queue := ts\<rparr>)) t"
    using absent_pop [OF D(1) q] by simp
  show "switch_inv (s\<lparr>ready_queue := ts\<rparr>)"
  proof (rule switch_invI)
    show "disciplined (queue_at (s\<lparr>ready_queue := ts\<rparr>))"
      using disciplined_pop [OF D(1) q] by simp
    fix p u assume "u \<in> set (queue_at (s\<lparr>ready_queue := ts\<rparr>) p)"
    then have u: "u \<in> set (queue_at s p)" using assms(2) by (auto split: if_splits)
    show "u < length (tcbs (s\<lparr>ready_queue := ts\<rparr>))" using D(2) [OF u] by simp
    show "parked_ok (s\<lparr>ready_queue := ts\<rparr>) p u" using D(3) [OF u] by simp
  qed (use D(4) in simp)
qed

text \<open>A free mutex is taken: no thread made ready from its queue exists then.\<close>

lemma take_free_inv:
  assumes "switch_inv s" "m < length (mutexes s)" "\<not> status (mutexes s ! m)"
  shows "switch_inv (upd_mutex m (\<lambda>x. x\<lparr>occupy_thread := Some t, status := True\<rparr>) s)"
    (is "switch_inv ?s")
proof (rule switch_invI)
  note D = switch_invD [OF assms(1)]
  have q: "queue_at ?s = queue_at s" using assms(2) by simp
  show "disciplined (queue_at ?s)" using D(1) q by simp
  fix p u assume "u \<in> set (queue_at ?s p)"
  then have u: "u \<in> set (queue_at s p)" using q by simp
  show "u < length (tcbs ?s)" using D(2) [OF u] by simp
  show "parked_ok ?s p u" using D(3) [OF u] assms(2,3)
    by (cases p) (auto split: resume.splits)
next
  fix k assume "k < length (mutexes ?s)"
  with switch_invD(4) [OF assms(1), of k] show "mutex_ok (mutexes ?s ! k)"
    by (auto simp: mutex_ok_def)
qed

text \<open>
  The holder hands the mutex over: the threads already made ready from this mutex would own it,
  and the holder is not among them.
\<close>

lemma hand_over_inv:
  assumes "switch_inv s" "m < length (mutexes s)"
    and "occupy_thread (mutexes s ! m) = Some r" "r \<notin> set (ready_queue s)"
  shows "switch_inv (hand_over m s)"
proof (cases "mutex_queue (mutexes s ! m)")
  note D = switch_invD [OF assms(1)]
  have ready: "u \<noteq> r" "ucontext (tcbs s ! u) \<noteq> In_lock m" "ucontext (tcbs s ! u) \<noteq> In_relock m"
    if "u \<in> set (queue_at s Ready)" for u
    using D(3) [OF that] that assms(3,4) by (auto split: resume.splits)
  case Nil
  then have h: "hand_over m s = upd_mutex m (\<lambda>x. x\<lparr>status := False\<rparr>) s" (is "_ = ?s")
    by (simp add: hand_over_def)
  have q: "queue_at ?s = queue_at s" using assms(2) by simp
  have "switch_inv ?s"
  proof (rule switch_invI)
    show "disciplined (queue_at ?s)" using D(1) q by simp
    fix p u assume "u \<in> set (queue_at ?s p)"
    then have u: "u \<in> set (queue_at s p)" using q by simp
    show "u < length (tcbs ?s)" using D(2) [OF u] by simp
    show "parked_ok ?s p u" using D(3) [OF u] ready u
      by (cases p) (auto split: resume.splits)
  next
    fix k assume "k < length (mutexes ?s)"
    with D(4) [of k] Nil show "mutex_ok (mutexes ?s ! k)" by (auto simp: mutex_ok_def)
  qed
  with h show ?thesis by simp
next
  note D = switch_invD [OF assms(1)]
  have ready: "u \<noteq> r" "ucontext (tcbs s ! u) \<noteq> In_lock m" "ucontext (tcbs s ! u) \<noteq> In_relock m"
    if "u \<in> set (queue_at s Ready)" for u
    using D(3) [OF that] that assms(3,4) by (auto split: resume.splits)
  case (Cons w ws)
  let ?s = "upd_mutex m (\<lambda>x. x\<lparr>status := True, occupy_thread := Some w, mutex_queue := ws\<rparr>) s"
  have h: "hand_over m s = push_ready w ?s" using Cons by (simp add: hand_over_def)
  have qm: "queue_at s (On_mutex m) = w # ws" using Cons assms(2) by simp
  then have w: "w \<in> set (queue_at s (On_mutex m))" by simp
  have q: "queue_at ?s = (queue_at s)(On_mutex m := ws)" using assms(2) by simp
  have "switch_inv ?s"
  proof (rule switch_invI)
    show "disciplined (queue_at ?s)" using disciplined_pop [OF D(1) qm] q by simp
    fix p u assume "u \<in> set (queue_at ?s p)"
    then have u: "u \<in> set (queue_at s p)" using q qm by (auto split: if_splits)
    show "u < length (tcbs ?s)" using D(2) [OF u] by simp
    show "parked_ok ?s p u" using D(3) [OF u] ready u
      by (cases p) (auto split: resume.splits)
  next
    fix k assume "k < length (mutexes ?s)"
    with D(4) [of k] show "mutex_ok (mutexes ?s ! k)" by (auto simp: mutex_ok_def)
  qed
  moreover have "absent (queue_at ?s) w" using absent_pop [OF D(1) qm] q by simp
  moreover have "w < length (tcbs ?s)" using D(2) [OF w] by simp
  moreover have "parked_ok ?s Ready w" using D(3) [OF w] assms(2) by auto
  ultimately show ?thesis unfolding h by (rule push_ready_inv)
qed

section \<open>Induction along the hand-over of the CPU\<close>

text \<open>
  The state in which the ready queue's front \<open>t\<close> has the CPU, and the one in which it has queued
  again for the mutex \<open>m\<close> of its \<open>wait\<close>.
\<close>

definition cpu_to :: "tid \<Rightarrow> tid list \<Rightarrow> tlib \<Rightarrow> tlib" where
  "cpu_to t ts s = s\<lparr>running_thread := Some t, ready_queue := ts, previous_thread := None\<rparr>"

definition requeued :: "mid \<Rightarrow> tid \<Rightarrow> tlib \<Rightarrow> tlib" where
  "requeued m t s = upd_mutex m (push_waiter t) (upd_tcb t (\<lambda>x. x\<lparr>ucontext := In_relock m\<rparr>) s)"

lemma cpu_to_fields [simp]:
  "running_thread (cpu_to t ts s) = Some t" "ready_queue (cpu_to t ts s) = ts"
  "previous_thread (cpu_to t ts s) = None" "tcbs (cpu_to t ts s) = tcbs s"
  "mutexes (cpu_to t ts s) = mutexes s" "cvs (cpu_to t ts s) = cvs s"
  by (simp_all add: cpu_to_def)

lemma queue_at_cpu_to [simp]: "queue_at (cpu_to t ts s) = (queue_at s)(Ready := ts)"
  by (rule ext, case_tac x) (simp_all add: cpu_to_def)

lemma cpu_to_inv:
  assumes "switch_inv s" "ready_queue s = t # ts"
  shows "switch_inv (cpu_to t ts s)" "absent (queue_at (cpu_to t ts s)) t"
    "t < length (tcbs s)" "parked_ok s Ready t"
proof -
  have e: "cpu_to t ts s = s\<lparr>ready_queue := ts\<rparr>\<lparr>running_thread := Some t\<rparr>\<lparr>previous_thread := None\<rparr>"
    by (simp add: cpu_to_def)
  note P = pop_ready_inv [OF assms]
  show "switch_inv (cpu_to t ts s)" "absent (queue_at (cpu_to t ts s)) t"
    unfolding e switch_inv_globals queue_at_globals using P by simp_all
  show "t < length (tcbs s)" "parked_ok s Ready t" using P by simp_all
qed

lemma save_ctx_commute:
  "upd_tcb t f (push_ready u s) = push_ready u (upd_tcb t f s)"
  "upd_tcb t f (upd_mutex m g s) = upd_mutex m g (upd_tcb t f s)"
  "upd_tcb t f (upd_cv c h s) = upd_cv c h (upd_tcb t f s)"
  by (simp_all add: upd_tcb_def upd_mutex_def upd_cv_def push_ready_def)

lemma swap_in_unfold:
  "swap_in s = (case ready_queue s of [] \<Rightarrow> host_return s | t # ts \<Rightarrow>
     (case ucontext (tcbs s ! t) of
        In_wait m \<Rightarrow>
          if \<not> status (mutexes s ! m)
          then interrupt_enable
            (upd_mutex m (\<lambda>x. x\<lparr>occupy_thread := Some t, status := True\<rparr>) (cpu_to t ts s))
          else swap_in (requeued m t (cpu_to t ts s))
      | _ \<Rightarrow> interrupt_enable (cpu_to t ts s)))"
  by (subst swap_in.simps)
     (simp add: cpu_to_def requeued_def save_ctx_commute Let_def split: list.splits resume.splits)

text \<open>
  Four things can happen when the CPU is handed over: it is suspended, a thread returns to user
  code, a waiter takes its mutex and returns, or a waiter queues for its mutex and the CPU is
  handed over again.
\<close>

lemma swap_in_induct [consumes 1, case_names suspend run take again]:
  assumes "switch_inv s"
    and suspend: "\<And>s. switch_inv s \<Longrightarrow> ready_queue s = [] \<Longrightarrow> swap_in s = host_return s \<Longrightarrow> P s"
    and run: "\<And>s t ts. switch_inv s \<Longrightarrow> ready_queue s = t # ts \<Longrightarrow>
      \<forall>m. ucontext (tcbs s ! t) \<noteq> In_wait m \<Longrightarrow> swap_in s = interrupt_enable (cpu_to t ts s) \<Longrightarrow> P s"
    and take: "\<And>s t ts m. switch_inv s \<Longrightarrow> ready_queue s = t # ts \<Longrightarrow>
      ucontext (tcbs s ! t) = In_wait m \<Longrightarrow> m < length (mutexes s) \<Longrightarrow> \<not> status (mutexes s ! m) \<Longrightarrow>
      swap_in s = interrupt_enable
        (upd_mutex m (\<lambda>x. x\<lparr>occupy_thread := Some t, status := True\<rparr>) (cpu_to t ts s)) \<Longrightarrow> P s"
    and again: "\<And>s t ts m. switch_inv s \<Longrightarrow> ready_queue s = t # ts \<Longrightarrow>
      ucontext (tcbs s ! t) = In_wait m \<Longrightarrow> m < length (mutexes s) \<Longrightarrow> status (mutexes s ! m) \<Longrightarrow>
      switch_inv (requeued m t (cpu_to t ts s)) \<Longrightarrow>
      swap_in s = swap_in (requeued m t (cpu_to t ts s)) \<Longrightarrow>
      P (requeued m t (cpu_to t ts s)) \<Longrightarrow> P s"
  shows "P s"
  using assms(1)
proof (induction "length (ready_queue s)" arbitrary: s rule: less_induct)
  case less
  note un = swap_in_unfold [of s]
  show ?case
  proof (cases "ready_queue s")
    case Nil
    with less.prems un show ?thesis by (intro suspend) simp_all
  next
    case (Cons t ts)
    note C = cpu_to_inv [OF less.prems Cons]
    show ?thesis
    proof (cases "\<exists>m. ucontext (tcbs s ! t) = In_wait m")
      case False
      with less.prems Cons un show ?thesis by (intro run) (auto split: resume.splits)
    next
      case True
      then obtain m where m: "ucontext (tcbs s ! t) = In_wait m" by blast
      with C(4) have len: "m < length (mutexes s)" by simp
      show ?thesis
      proof (cases "status (mutexes s ! m)")
        case False
        with less.prems Cons m len un show ?thesis by (intro take) simp_all
      next
        case True
        let ?s2 = "upd_tcb t (\<lambda>x. x\<lparr>ucontext := In_relock m\<rparr>) (cpu_to t ts s)"
        let ?s3 = "requeued m t (cpu_to t ts s)"
        have "switch_inv ?s2" by (rule save_ctx_inv) (use C in simp_all)
        then have "switch_inv ?s3" unfolding requeued_def
          by (rule push_mutex_inv) (use C len True in simp_all)
        moreover have "P ?s3"
          by (rule less.hyps) (use calculation Cons in \<open>simp_all add: requeued_def\<close>)
        moreover have "swap_in s = swap_in ?s3" using Cons m True un by simp
        ultimately show ?thesis using again [OF less.prems Cons m len True] by blast
      qed
    qed
  qed
qed

lemma swap_in_inv: "switch_inv s \<Longrightarrow> lib_inv (swap_in s)"
proof (induction s rule: swap_in_induct)
  case (suspend s)
  then show ?case by (simp add: host_return_def lib_inv_def)
next
  case (run s t ts)
  with cpu_to_inv [OF run(1,2)] show ?case by (simp add: lib_inv_def)
next
  case (take s t ts m)
  have "switch_inv (upd_mutex m (\<lambda>x. x\<lparr>occupy_thread := Some t, status := True\<rparr>) (cpu_to t ts s))"
    by (rule take_free_inv) (use cpu_to_inv [OF take(1,2)] take in simp_all)
  with cpu_to_inv [OF take(1,2)] take show ?case by (simp add: lib_inv_def)
qed simp

section \<open>Every call keeps the invariant\<close>

lemma save_ctx_hand_over: "upd_tcb t f (hand_over m s) = hand_over m (upd_tcb t f s)"
  by (cases "mutex_queue (mutexes s ! m)") (simp_all add: hand_over_def save_ctx_commute)

lemma save_ctx_join:
  "t < length (tcbs s) \<Longrightarrow> u < length (tcbs s) \<Longrightarrow>
   upd_tcb t (\<lambda>x. x\<lparr>ucontext := r\<rparr>) (upd_tcb u (\<lambda>x. x\<lparr>join_queue := qpush w (join_queue x)\<rparr>) s)
   = upd_tcb u (\<lambda>x. x\<lparr>join_queue := qpush w (join_queue x)\<rparr>) (upd_tcb t (\<lambda>x. x\<lparr>ucontext := r\<rparr>) s)"
  by (cases "t = u"; cases "tcbs s ! u") (simp_all add: upd_tcb_def list_update_swap nth_list_update)

text \<open>The running thread of a good state, its context saved at \<open>r\<close>.\<close>

lemma running_saved:
  assumes "lib_inv s" "running_thread s = Some t"
    and s1_def: "s1 = upd_tcb t (\<lambda>x. x\<lparr>ucontext := r\<rparr>) (interrupt_disable s)"
  shows "switch_inv s1" "absent (queue_at s1) t" "t < length (tcbs s1)" "t < length (tcbs s)"
    "ucontext (tcbs s1 ! t) = r" "mutexes s1 = mutexes s" "cvs s1 = cvs s"
    "ready_queue s1 = ready_queue s" "length (tcbs s1) = length (tcbs s)"
proof -
  have *: "switch_inv (interrupt_disable s)" "absent (queue_at (interrupt_disable s)) t"
    "t < length (tcbs (interrupt_disable s))"
    using assms(1,2) by (auto simp: lib_inv_def)
  from save_ctx_inv [OF this] show "switch_inv s1" by (simp add: s1_def)
  show "absent (queue_at s1) t" "t < length (tcbs s1)" "t < length (tcbs s)"
    "ucontext (tcbs s1 ! t) = r" "mutexes s1 = mutexes s" "cvs s1 = cvs s"
    "ready_queue s1 = ready_queue s" "length (tcbs s1) = length (tcbs s)"
    using * by (simp_all add: s1_def)
qed

lemma lib_inv_idle: "lib_inv s \<Longrightarrow> lib_inv (interrupt_enable (interrupt_disable s))"
  by (auto simp: lib_inv_def)

lemma yield_inv:
  assumes "lib_inv s" shows "lib_inv (fst (yield s))"
proof (cases "running_thread s")
  case None
  with assms show ?thesis by (simp add: yield_def)
next
  case (Some t)
  note R = running_saved [OF assms Some, where r = In_yield, OF refl]
  have "switch_inv (push_ready t (upd_tcb t (\<lambda>x. x\<lparr>ucontext := In_yield\<rparr>) (interrupt_disable s)))"
    by (rule push_ready_inv) (use R in simp_all)
  then show ?thesis using Some assms
    by (simp add: yield_def swap_helper_def Let_def save_ctx_commute swap_in_inv lib_inv_idle)
qed

lemma join_inv:
  assumes "lib_inv s" "u < length (tcbs s)" shows "lib_inv (fst (join u s))"
proof (cases "running_thread s")
  case None
  with assms show ?thesis by (simp add: join_def)
next
  case (Some t)
  note R = running_saved [OF assms(1) Some, where r = In_join, OF refl]
  have "switch_inv (upd_tcb u (\<lambda>x. x\<lparr>join_queue := qpush t (join_queue x)\<rparr>)
      (upd_tcb t (\<lambda>x. x\<lparr>ucontext := In_join\<rparr>) (interrupt_disable s)))"
    by (rule push_join_inv) (use R assms(2) in simp_all)
  then show ?thesis using Some assms R(4)
    by (simp add: join_def swap_helper_def Let_def save_ctx_join swap_in_inv lib_inv_idle)
qed

lemma mutex_lock_inv:
  assumes "lib_inv s" "m < length (mutexes s)" shows "lib_inv (fst (mutex_lock m s))"
proof (cases "running_thread s")
  case None
  with assms show ?thesis by (simp add: mutex_lock_def)
next
  case (Some t)
  note R = running_saved [OF assms(1) Some, where r = "In_lock m", OF refl]
  show ?thesis
  proof (cases "status (mutexes s ! m)")
    case True
    have "switch_inv (upd_mutex m (push_waiter t)
        (upd_tcb t (\<lambda>x. x\<lparr>ucontext := In_lock m\<rparr>) (interrupt_disable s)))"
      by (rule push_mutex_inv) (use R assms(2) True in simp_all)
    then show ?thesis using Some True
      by (simp add: mutex_lock_def swap_helper_def Let_def save_ctx_commute swap_in_inv)
  next
    case False
    have "switch_inv (interrupt_disable s)" using assms(1) by (simp add: lib_inv_def)
    from take_free_inv [OF this, of m t] False assms(2)
    have "switch_inv (upd_mutex m (\<lambda>x. x\<lparr>occupy_thread := Some t, status := True\<rparr>) (interrupt_disable s))"
      by simp
    moreover have "(\<lambda>x. x\<lparr>status := True, occupy_thread := Some t\<rparr>)
        = (\<lambda>x :: mutex. x\<lparr>occupy_thread := Some t, status := True\<rparr>)" by auto
    ultimately show ?thesis using assms Some False
      by (simp add: mutex_lock_def Let_def lib_inv_def)
  qed
qed

lemma check_ownershipD:
  "check_ownership m s \<Longrightarrow> running_thread s = Some t \<Longrightarrow> occupy_thread (mutexes s ! m) = Some t"
  by (simp add: check_ownership_def Let_def)

lemma hand_over_running:
  "running_thread (hand_over m s) = running_thread s" "previous_thread (hand_over m s) = previous_thread s"
  "tcbs (hand_over m s) = tcbs s" "cvs (hand_over m s) = cvs s"
  "length (mutexes (hand_over m s)) = length (mutexes s)"
  by (cases "mutex_queue (mutexes s ! m)"; simp add: hand_over_def)+

lemma hand_over_absent:
  assumes "absent (queue_at s) t" "m < length (mutexes s)"
  shows "absent (queue_at (hand_over m s)) t"
proof (cases "mutex_queue (mutexes s ! m)")
  case Nil
  with assms show ?thesis by (simp add: hand_over_def absent_def)
next
  case (Cons w ws)
  have "\<And>u. u \<in> set (mutex_queue (mutexes s ! m)) \<Longrightarrow> u \<noteq> t"
    using assms unfolding absent_def by (metis queue_at.simps(2))
  moreover have "t \<notin> set (ready_queue s)" using assms(1) unfolding absent_def by (metis queue_at.simps(1))
  ultimately show ?thesis using assms Cons by (auto simp: hand_over_def absent_def)
qed

lemma mutex_unlock_inv:
  assumes "lib_inv s" "m < length (mutexes s)" shows "lib_inv (fst (mutex_unlock m s))"
proof (cases "check_ownership m (interrupt_disable s)")
  case False
  with assms show ?thesis by (simp add: mutex_unlock_def Let_def lib_inv_idle)
next
  case True
  let ?s = "interrupt_disable s"
  from True obtain t where t: "running_thread s = Some t"
    by (cases "running_thread s") (auto simp: check_ownership_def expired_def Let_def)
  have own: "occupy_thread (mutexes ?s ! m) = Some t" using check_ownershipD [OF True] t by simp
  have a: "absent (queue_at ?s) t" "switch_inv ?s" "t < length (tcbs s)" "previous_thread s = None"
    using assms(1) t by (auto simp: lib_inv_def)
  then have "t \<notin> set (ready_queue ?s)" unfolding absent_def by (metis queue_at.simps(1))
  with hand_over_inv [OF a(2) _ own] assms(2) have "switch_inv (hand_over m ?s)" by simp
  with a t True show ?thesis
    by (simp add: mutex_unlock_def Let_def lib_inv_def hand_over_running hand_over_absent assms(2))
qed

lemma cv_wait_inv:
  assumes "lib_inv s" "c < length (cvs s)" "m < length (mutexes s)"
  shows "lib_inv (fst (cv_wait c m s))"
proof (cases "running_thread s")
  case None
  with assms show ?thesis by (simp add: cv_wait_def)
next
  case (Some t)
  let ?s0 = "interrupt_disable s"
  show ?thesis
  proof (cases "check_ownership m ?s0")
    case False
    with Some assms show ?thesis by (simp add: cv_wait_def Let_def lib_inv_idle)
  next
    case True
    note R = running_saved [OF assms(1) Some, where r = "In_wait m", OF refl]
    let ?s1 = "upd_tcb t (\<lambda>x. x\<lparr>ucontext := In_wait m\<rparr>) ?s0"
    let ?s2 = "upd_cv c (\<lambda>x. x\<lparr>cv_queue := qpush t (cv_queue x)\<rparr>) ?s1"
    have own: "occupy_thread (mutexes s ! m) = Some t" using check_ownershipD [OF True, of t] Some by simp
    have "switch_inv ?s2" by (rule push_cv_inv [where m = m]) (use R assms in simp_all)
    moreover have "t \<notin> set (ready_queue s)"
      using assms(1) Some unfolding lib_inv_def absent_def by (metis queue_at.simps(1))
    ultimately have "switch_inv (hand_over m ?s2)"
      using hand_over_inv [of ?s2 m t] own assms(3) by simp
    with Some True show ?thesis
      by (simp add: cv_wait_def Let_def swap_helper_def hand_over_running save_ctx_hand_over
          save_ctx_commute swap_in_inv)
  qed
qed

text \<open>A whole queue is made ready, or its front is.\<close>

lemma move_all_inv:
  assumes "switch_inv s" "q \<noteq> Ready"
    and ok: "\<And>u. u \<in> set (queue_at s q) \<Longrightarrow> parked_ok s Ready u"
    and q: "queue_at s' = (queue_at s)(Ready := ready_queue s @ queue_at s q, q := [])"
    and ctx: "length (tcbs s') = length (tcbs s)" "\<And>u. ucontext (tcbs s' ! u) = ucontext (tcbs s ! u)"
    and mx: "mutexes s' = mutexes s"
  shows "switch_inv s'"
proof (rule switch_invI)
  note D = switch_invD [OF assms(1)]
  have same: "parked_ok s' p' u = parked_ok s p' u" for p' u
    by (rule parked_ok_cong) (simp_all add: ctx mx)
  show "disciplined (queue_at s')"
    using disciplined_drain [OF D(1), of Ready q] assms(2) q by simp
  fix p u assume "u \<in> set (queue_at s' p)"
  then have "u \<in> set (queue_at s p) \<or> p = Ready \<and> u \<in> set (queue_at s q)"
    using q assms(2) by (auto split: if_splits)
  then show "u < length (tcbs s')" "parked_ok s' p u"
    using D(2,3) ok same ctx(1) by auto
next
  fix m assume "m < length (mutexes s')"
  with mx switch_invD(4) [OF assms(1)] show "mutex_ok (mutexes s' ! m)" by simp
qed

lemma wake_inv:
  assumes "switch_inv s" "c < length (cvs s)" "cv_queue (cvs s ! c) = u # us"
  shows "switch_inv (push_ready u (upd_cv c (\<lambda>x. x\<lparr>cv_queue := us\<rparr>) s))"
proof (rule push_ready_inv)
  let ?s = "upd_cv c (\<lambda>x. x\<lparr>cv_queue := us\<rparr>) s"
  note D = switch_invD [OF assms(1)]
  have qc: "queue_at s (On_cv c) = u # us" using assms by simp
  then have u: "u \<in> set (queue_at s (On_cv c))" by simp
  have q: "queue_at ?s = (queue_at s)(On_cv c := us)" using assms(2) by simp
  have same: "parked_ok ?s p v = parked_ok s p v" for p v by (rule parked_ok_cong) simp_all
  show "switch_inv ?s"
  proof (rule switch_invI)
    show "disciplined (queue_at ?s)" using disciplined_pop [OF D(1) qc] q by simp
    fix p v assume "v \<in> set (queue_at ?s p)"
    then have v: "v \<in> set (queue_at s p)" using q qc by (auto split: if_splits)
    show "v < length (tcbs ?s)" "parked_ok ?s p v" using D(2,3) [OF v] same by simp_all
  qed (use D(4) in simp)
  show "absent (queue_at ?s) u" using absent_pop [OF D(1) qc] q by simp
  show "u < length (tcbs ?s)" using D(2) [OF u] by simp
  show "parked_ok ?s Ready u" using D(3) [OF u] same by auto
qed

lemma create_tcb_inv:
  assumes D: "switch_inv s"
  shows "switch_inv (create_tcb s)"
    and "absent (queue_at s) t \<Longrightarrow> t < length (tcbs s) \<Longrightarrow>
      absent (queue_at (create_tcb s)) t \<and> t < length (tcbs (create_tcb s))"
proof -
  let ?n = "length (tcbs s)" and ?s1 = "s\<lparr>tcbs := tcbs s @ [new_tcb]\<rparr>"
  have q: "queue_at ?s1 = queue_at s" by simp
  have "switch_inv ?s1"
  proof (rule switch_invI)
    show "disciplined (queue_at ?s1)" using switch_invD(1) [OF D] q by simp
    fix p u assume "u \<in> set (queue_at ?s1 p)"
    then have "u \<in> set (queue_at s p)" using q by simp
    note * = switch_invD(2,3) [OF D this]
    then show "u < length (tcbs ?s1)" by simp
    have "parked_ok ?s1 p u = parked_ok s p u"
      by (rule parked_ok_cong) (use * in \<open>simp_all add: nth_append\<close>)
    with * show "parked_ok ?s1 p u" by simp
  qed (use switch_invD(4) [OF D] in simp)
  moreover have "absent (queue_at ?s1) ?n"
    using switch_invD(2) [OF D] q unfolding absent_def by fastforce
  moreover have "parked_ok ?s1 Ready ?n" by (simp add: new_tcb_def)
  ultimately show "switch_inv (create_tcb s)"
    unfolding create_tcb_def by (intro push_ready_inv) simp_all
  assume "absent (queue_at s) t" "t < ?n"
  then show "absent (queue_at (create_tcb s)) t \<and> t < length (tcbs (create_tcb s))"
    using absent_push [of "queue_at s" Ready ?n t] by (simp add: create_tcb_def)
qed

lemma create_tcb_fields [simp]:
  "running_thread (create_tcb s) = running_thread s" "previous_thread (create_tcb s) = previous_thread s"
  by (simp_all add: create_tcb_def)

lemma thread_ctor_inv:
  assumes "lib_inv s" shows "lib_inv (fst (thread_ctor ok s))"
proof -
  have D: "switch_inv (interrupt_disable s)" using assms by (simp add: lib_inv_def)
  from create_tcb_inv [OF D] assms show ?thesis
    by (auto simp: thread_ctor_def Let_def lib_inv_def)
qed

lemma starter_exit_inv:
  assumes "lib_inv s" shows "lib_inv (fst (starter_exit s))"
proof (cases "running_thread s")
  case None
  with assms show ?thesis by (simp add: starter_exit_def)
next
  case (Some t)
  let ?s0 = "interrupt_disable s"
  let ?s2 = "upd_tcb t (\<lambda>x. x\<lparr>join_queue := []\<rparr>) (drain (join_queue (tcbs s ! t)) ?s0)"
  have *: "switch_inv ?s0" "t < length (tcbs s)" using assms Some by (auto simp: lib_inv_def)
  have "switch_inv ?s2"
    by (rule move_all_inv [OF *(1), of "On_join t"])
       (use switch_invD(3) [OF *(1), of _ "On_join t"] *(2) in \<open>auto simp: drain_eq\<close>)
  then have "lib_inv (host_return ?s2)"
    and "switch_inv (?s2\<lparr>previous_thread := Some t\<rparr>\<lparr>running_thread := None\<rparr>)"
    by (simp_all add: lib_inv_def host_return_def)
  then show ?thesis using Some by (simp add: starter_exit_def Let_def swap_in_inv)
qed

lemma cv_signal_inv:
  assumes "lib_inv s" "c < length (cvs s)" shows "lib_inv (fst (cv_signal c s))"
proof (cases "cv_queue (cvs s ! c)")
  case Nil
  with assms show ?thesis by (simp add: cv_signal_def lib_inv_idle)
next
  case (Cons u us)
  let ?s0 = "interrupt_disable s"
  have q: "queue_at s (On_cv c) = u # us" using assms(2) Cons by simp
  have "switch_inv (push_ready u (upd_cv c (\<lambda>x. x\<lparr>cv_queue := us\<rparr>) ?s0))"
    by (rule wake_inv) (use assms Cons in \<open>simp_all add: lib_inv_def\<close>)
  moreover have "absent ((queue_at s)(On_cv c := us, Ready := qpush u (ready_queue s))) t"
    if "running_thread s = Some t" for t
  proof -
    have t: "absent (queue_at s) t" using assms(1) that by (simp add: lib_inv_def)
    then have "t \<notin> set (queue_at s (On_cv c))" "t \<notin> set (queue_at s Ready)" unfolding absent_def by blast+
    with t q show ?thesis by (auto simp: absent_def simp del: queue_at.simps(3))
  qed
  ultimately show ?thesis using assms Cons by (simp add: cv_signal_def Let_def lib_inv_def)
qed

lemma cv_broadcast_inv:
  assumes "lib_inv s" "c < length (cvs s)" shows "lib_inv (fst (cv_broadcast c s))"
proof -
  let ?s0 = "interrupt_disable s"
  let ?s2 = "upd_cv c (\<lambda>x. x\<lparr>cv_queue := []\<rparr>) (drain (cv_queue (cvs s ! c)) ?s0)"
  have D: "switch_inv ?s0" using assms(1) by (simp add: lib_inv_def)
  have ok: "parked_ok ?s0 Ready u" if "u \<in> set (queue_at ?s0 (On_cv c))" for u
    using switch_invD(3) [OF D that] by auto
  have "switch_inv ?s2"
    by (rule move_all_inv [OF D, of "On_cv c"])
       (use ok assms(2) in \<open>simp_all add: drain_eq del: parked_ok.simps\<close>)
  moreover have "absent (queue_at ?s2) t" if "running_thread s = Some t" for t
    using absent_drain [of "queue_at s" t Ready "On_cv c"] assms that
    by (simp add: lib_inv_def drain_eq)
  ultimately show ?thesis using assms
    by (simp add: cv_broadcast_def Let_def lib_inv_def) (simp add: drain_eq)
qed

lemma new_objects_inv:
  assumes "lib_inv s"
  shows "lib_inv (s\<lparr>mutexes := mutexes s @ [new_mutex]\<rparr>)" "lib_inv (s\<lparr>cvs := cvs s @ [new_cv]\<rparr>)"
proof -
  let ?s = "s\<lparr>mutexes := mutexes s @ [new_mutex]\<rparr>"
  have D: "switch_inv s" using assms by (simp add: lib_inv_def)
  have "switch_inv ?s"
  proof (rule switch_invI)
    show "disciplined (queue_at ?s)" using switch_invD(1) [OF D] by simp
    fix p u assume "u \<in> set (queue_at ?s p)"
    then have u: "u \<in> set (queue_at s p)" by simp
    show "u < length (tcbs ?s)" using switch_invD(2) [OF D u] by simp
    show "parked_ok ?s p u" using switch_invD(3) [OF D u]
      by (cases p) (auto simp: nth_append split: resume.splits)
  next
    fix m assume "m < length (mutexes ?s)"
    with switch_invD(4) [OF D, of m] show "mutex_ok (mutexes ?s ! m)"
      by (auto simp: nth_append mutex_ok_def new_mutex_def)
  qed
  with assms show "lib_inv ?s" by (simp add: lib_inv_def)
  have "switch_inv (s\<lparr>cvs := cvs s @ [new_cv]\<rparr>)"
    using D parked_ok_cong [of "s\<lparr>cvs := cvs s @ [new_cv]\<rparr>" s] by (simp add: switch_inv_def)
  with assms show "lib_inv (s\<lparr>cvs := cvs s @ [new_cv]\<rparr>)" by (simp add: lib_inv_def)
qed

lemma exec_call_inv:
  assumes "lib_inv s" "call_ok c s" shows "lib_inv (fst (exec_call c s))"
  using assms
  by (cases c) (auto intro: thread_ctor_inv yield_inv join_inv starter_exit_inv mutex_lock_inv
      mutex_unlock_inv cv_wait_inv cv_signal_inv cv_broadcast_inv new_objects_inv)

lemma booted_inv: "lib_inv (booted nm nc)"
proof -
  let ?s = "boot_state\<lparr>mutexes := replicate nm new_mutex, cvs := replicate nc new_cv\<rparr>"
  have q: "queue_at ?s = (\<lambda>_. [])"
  proof (rule ext)
    fix p show "queue_at ?s p = []"
      by (cases p) (simp_all add: boot_state_def new_mutex_def new_cv_def)
  qed
  have "switch_inv ?s"
    by (rule switch_invI; (simp only: q)?) (simp_all add: disciplined_def mutex_ok_def new_mutex_def)
  then show ?thesis by (simp add: booted_def cpu_ctor_def swap_in_inv create_tcb_inv)
qed

interpretation lib: invariant_system lib_init lib_step lib_inv
  by unfold_locales (auto simp: lib_init_def booted_inv elim!: lib_step.cases intro: exec_call_inv)

end
