(* ===== verification/Thread_Props.thy ===== *)
theory Thread_Props imports Thread_Inv begin

text \<open>
  What the thread library guarantees to every client program: no thread is lost or doubled,
  \<open>lock\<close> excludes, waiting is first-come first-served, a ready thread is reached, \<open>join\<close> waits
  for live threads only, and misuse of a mutex throws without effect.
\<close>

section \<open>Live threads\<close>

definition parked :: "tlib \<Rightarrow> tid set" where
  "parked s = (\<Union>p. set (queue_at s p))"

definition live :: "tlib \<Rightarrow> tid set" where
  "live s = {t. running_thread s = Some t} \<union> parked s"

lemma absent_parked: "absent (queue_at s) t \<longleftrightarrow> t \<notin> parked s"
  by (auto simp: absent_def parked_def)

lemma parked_same [simp]:
  "parked (s\<lparr>running_thread := r\<rparr>) = parked s" "parked (s\<lparr>previous_thread := r\<rparr>) = parked s"
  "parked (interrupt_disable s) = parked s" "parked (interrupt_enable s) = parked s"
  by (simp_all add: parked_def)

lemma parkedI: "t \<in> set (queue_at s p) \<Longrightarrow> t \<in> parked s"
  by (auto simp: parked_def)

lemma union_queues_upd:
  "(\<Union>r. set ((Q(p := xs)) r)) = set xs \<union> (\<Union>r \<in> - {p}. set (Q r))"
  by (auto split: if_splits)

lemma union_queues_split: "(\<Union>r. set (Q r)) = set (Q p) \<union> (\<Union>r \<in> - {p}. set (Q r))"
  by auto

lemma union_queues_pop: "Q p = t # ts \<Longrightarrow> insert t (\<Union>r. set ((Q(p := ts)) r)) = (\<Union>r. set (Q r))"
  unfolding union_queues_upd by (subst union_queues_split [of Q p]) simp

lemma union_queues_push: "(\<Union>r. set ((Q(p := qpush t (Q p))) r)) = insert t (\<Union>r. set (Q r))"
  unfolding union_queues_upd by (subst union_queues_split [of Q p]) simp

lemma union_queues_drain:
  assumes "p \<noteq> q" shows "(\<Union>r. set ((Q(p := Q p @ Q q, q := [])) r)) = (\<Union>r. set (Q r))"
proof (intro equalityI subsetI)
  fix x assume "x \<in> (\<Union>r. set ((Q(p := Q p @ Q q, q := [])) r))"
  then show "x \<in> (\<Union>r. set (Q r))" by (auto split: if_splits)
next
  fix x assume "x \<in> (\<Union>r. set (Q r))"
  then obtain r where "x \<in> set (Q r)" by blast
  then show "x \<in> (\<Union>r. set ((Q(p := Q p @ Q q, q := [])) r))"
    using assms by (cases "r = p \<or> r = q") (auto intro!: UN_I [of p] intro: UN_I [of r])
qed

lemma parked_cpu_to: "ready_queue s = t # ts \<Longrightarrow> insert t (parked (cpu_to t ts s)) = parked s"
  unfolding parked_def using union_queues_pop [of "queue_at s" Ready t ts] by simp

lemma parked_push_ready: "parked (push_ready t s) = insert t (parked s)"
  unfolding parked_def using union_queues_push [of "queue_at s" Ready t] by simp

lemma parked_push_mutex:
  "m < length (mutexes s) \<Longrightarrow> parked (upd_mutex m (push_waiter t) s) = insert t (parked s)"
  unfolding parked_def using union_queues_push [of "queue_at s" "On_mutex m" t] by simp

lemma parked_push_cv:
  "c < length (cvs s) \<Longrightarrow>
   parked (upd_cv c (\<lambda>x. x\<lparr>cv_queue := qpush t (cv_queue x)\<rparr>) s) = insert t (parked s)"
  unfolding parked_def using union_queues_push [of "queue_at s" "On_cv c" t] by simp

lemma parked_push_join:
  "u < length (tcbs s) \<Longrightarrow>
   parked (upd_tcb u (\<lambda>x. x\<lparr>join_queue := qpush t (join_queue x)\<rparr>) s) = insert t (parked s)"
  unfolding parked_def using union_queues_push [of "queue_at s" "On_join u" t] by simp

lemma parked_save_ctx [simp]:
  "parked (upd_tcb t (\<lambda>x. x\<lparr>ucontext := r\<rparr>) s) = parked s"
proof (cases "t < length (tcbs s)")
  case True
  then show ?thesis by (simp add: parked_def)
next
  case False
  then show ?thesis by (simp add: upd_tcb_def list_update_beyond)
qed

lemma parked_take [simp]:
  "parked (upd_mutex m (\<lambda>x. x\<lparr>occupy_thread := w, status := b\<rparr>) s) = parked s"
  "parked (upd_mutex m (\<lambda>x. x\<lparr>status := b, occupy_thread := w\<rparr>) s) = parked s"
  by (cases "m < length (mutexes s)"; simp add: parked_def; simp add: upd_mutex_def list_update_beyond)+

lemma parked_hand_over:
  assumes "m < length (mutexes s)" shows "parked (hand_over m s) = parked s"
proof (cases "mutex_queue (mutexes s ! m)")
  case Nil
  have "queue_at (upd_mutex m (\<lambda>x. x\<lparr>status := False\<rparr>) s) = queue_at s" using assms by simp
  with Nil show ?thesis by (simp add: hand_over_def parked_def)
next
  case (Cons w ws)
  let ?s = "upd_mutex m (\<lambda>x. x\<lparr>status := True, occupy_thread := Some w, mutex_queue := ws\<rparr>) s"
  have "insert w (parked ?s) = parked s"
    unfolding parked_def using union_queues_pop [of "queue_at s" "On_mutex m" w ws] Cons assms by simp
  with Cons show ?thesis by (simp add: hand_over_def parked_push_ready)
qed

lemma parked_requeued: "m < length (mutexes s) \<Longrightarrow> parked (requeued m t s) = insert t (parked s)"
  by (simp add: requeued_def parked_push_mutex)

lemma live_swap_in: "switch_inv s \<Longrightarrow> live (swap_in s) = parked s"
proof (induction s rule: swap_in_induct)
  case (suspend s)
  then show ?case by (simp add: host_return_def live_def)
next
  case (run s t ts)
  with parked_cpu_to [OF run(2)] show ?case by (auto simp: live_def)
next
  case (take s t ts m)
  with parked_cpu_to [OF take(2)] show ?case by (auto simp: live_def)
next
  case (again s t ts m)
  with parked_cpu_to [OF again(2)] show ?case by (simp add: parked_requeued)
qed

lemma set_concat_queues:
  "t \<in> set (concat (map mutex_queue (mutexes s))) \<longleftrightarrow> (\<exists>m. t \<in> set (queue_at s (On_mutex m)))"
  "t \<in> set (concat (map cv_queue (cvs s))) \<longleftrightarrow> (\<exists>c. t \<in> set (queue_at s (On_cv c)))"
  "t \<in> set (concat (map join_queue (tcbs s))) \<longleftrightarrow> (\<exists>u. t \<in> set (queue_at s (On_join u)))"
  by (auto simp: in_set_conv_nth split: if_splits) (metis nth_mem)+

text \<open>
  \<open>weak_ptr::expired\<close> decides liveness: a TCB's last shared pointer goes when its thread ends.
\<close>

lemma expired_iff_not_live:
  assumes "previous_thread s = None" shows "expired s (Some t) \<longleftrightarrow> t \<notin> live s"
proof -
  have "t \<in> set (tcb_refs s) \<longleftrightarrow> running_thread s = Some t \<or> t \<in> set (queue_at s Ready)
      \<or> (\<exists>m. t \<in> set (queue_at s (On_mutex m))) \<or> (\<exists>c. t \<in> set (queue_at s (On_cv c)))
      \<or> (\<exists>u. t \<in> set (queue_at s (On_join u)))"
    unfolding set_concat_queues [symmetric] using assms
    by (auto simp: tcb_refs_def split: option.splits)
  also have "\<dots> \<longleftrightarrow> t \<in> live s"
    unfolding live_def parked_def by (auto simp del: queue_at.simps) (metis place.exhaust)
  finally show ?thesis by (simp add: expired_def)
qed

text \<open>Effect of each call on the set of live threads.\<close>

fun live_after :: "call \<Rightarrow> tlib \<Rightarrow> tid set" where
  "live_after (Create ok) s = (if ok then insert (length (tcbs s)) (live s) else live s)"
| "live_after Exit s = live s - {t. running_thread s = Some t}"
| "live_after _ s = live s"

lemma live_swap_helper:
  assumes "switch_inv (upd_tcb t (\<lambda>x. x\<lparr>ucontext := r\<rparr>) s)" "running_thread s = Some t"
  shows "live (swap_helper r s) = parked s"
  using assms live_swap_in [OF assms(1)] by (simp add: swap_helper_def)

lemma live_running: "running_thread s = Some t \<Longrightarrow> live s = insert t (parked s)"
  by (auto simp: live_def)

lemma live_idle [simp]: "live (interrupt_enable (interrupt_disable s)) = live s"
  by (simp add: live_def)

lemma live_yield:
  assumes "lib_inv s" "running_thread s = Some t" shows "live (fst (yield s)) = live s"
proof -
  note R = running_saved [OF assms, where r = In_yield, OF refl]
  have "switch_inv (push_ready t (upd_tcb t (\<lambda>x. x\<lparr>ucontext := In_yield\<rparr>) (interrupt_disable s)))"
    by (rule push_ready_inv) (use R in simp_all)
  then have "live (swap_helper In_yield (push_ready t (interrupt_disable s))) = insert t (parked s)"
    using live_swap_helper [of t In_yield "push_ready t (interrupt_disable s)"] assms(2)
    by (simp add: save_ctx_commute parked_push_ready)
  with assms show ?thesis by (simp add: yield_def Let_def live_running)
qed

lemma live_join:
  assumes "lib_inv s" "running_thread s = Some t" "u < length (tcbs s)"
  shows "live (fst (join u s)) = live s"
proof -
  note R = running_saved [OF assms(1,2), where r = In_join, OF refl]
  let ?f = "\<lambda>x. x\<lparr>join_queue := qpush t (join_queue x)\<rparr>"
  have "switch_inv (upd_tcb u ?f (upd_tcb t (\<lambda>x. x\<lparr>ucontext := In_join\<rparr>) (interrupt_disable s)))"
    by (rule push_join_inv) (use R assms(3) in simp_all)
  then have "live (swap_helper In_join (upd_tcb u ?f (interrupt_disable s))) = insert t (parked s)"
    using live_swap_helper [of t In_join "upd_tcb u ?f (interrupt_disable s)"] assms(2,3) R(4)
    by (simp add: save_ctx_join parked_push_join)
  with assms show ?thesis by (simp add: join_def Let_def live_running)
qed

lemma live_lock:
  assumes "lib_inv s" "running_thread s = Some t" "m < length (mutexes s)"
  shows "live (fst (mutex_lock m s)) = live s"
proof (cases "status (mutexes s ! m)")
  case False
  with assms(2) show ?thesis by (simp add: mutex_lock_def Let_def live_def)
next
  case True
  note R = running_saved [OF assms(1,2), where r = "In_lock m", OF refl]
  have "switch_inv (upd_mutex m (push_waiter t)
      (upd_tcb t (\<lambda>x. x\<lparr>ucontext := In_lock m\<rparr>) (interrupt_disable s)))"
    by (rule push_mutex_inv) (use R assms(3) True in simp_all)
  then have "live (swap_helper (In_lock m) (upd_mutex m (push_waiter t) (interrupt_disable s)))
      = insert t (parked s)"
    using live_swap_helper [of t "In_lock m" "upd_mutex m (push_waiter t) (interrupt_disable s)"] assms(2,3)
    by (simp add: save_ctx_commute parked_push_mutex)
  with assms True show ?thesis by (simp add: mutex_lock_def Let_def live_running)
qed

lemma live_unlock:
  "m < length (mutexes s) \<Longrightarrow> live (fst (mutex_unlock m s)) = live s"
  by (simp add: mutex_unlock_def Let_def live_def hand_over_running parked_hand_over)

lemma live_wait:
  assumes "lib_inv s" "running_thread s = Some t" "c < length (cvs s)" "m < length (mutexes s)"
  shows "live (fst (cv_wait c m s)) = live s"
proof (cases "check_ownership m (interrupt_disable s)")
  case False
  with assms(2) show ?thesis by (simp add: cv_wait_def Let_def)
next
  case True
  let ?s0 = "interrupt_disable s"
  note R = running_saved [OF assms(1,2), where r = "In_wait m", OF refl]
  let ?f = "\<lambda>x. x\<lparr>cv_queue := qpush t (cv_queue x)\<rparr>"
  let ?s1 = "upd_tcb t (\<lambda>x. x\<lparr>ucontext := In_wait m\<rparr>) ?s0"
  have own: "occupy_thread (mutexes s ! m) = Some t" using check_ownershipD [OF True, of t] assms(2) by simp
  have "switch_inv (upd_cv c ?f ?s1)" by (rule push_cv_inv [where m = m]) (use R assms in simp_all)
  moreover have "t \<notin> set (ready_queue s)"
    using assms(1,2) unfolding lib_inv_def absent_def by (metis queue_at.simps(1))
  ultimately have "switch_inv (hand_over m (upd_cv c ?f ?s1))"
    using hand_over_inv [of "upd_cv c ?f ?s1" m t] own assms(4) by simp
  then have "live (swap_helper (In_wait m) (hand_over m (upd_cv c ?f ?s0))) = insert t (parked s)"
    using live_swap_helper [of t "In_wait m" "hand_over m (upd_cv c ?f ?s0)"] assms
    by (simp add: save_ctx_hand_over save_ctx_commute hand_over_running parked_hand_over parked_push_cv)
  with assms True show ?thesis by (simp add: cv_wait_def Let_def live_running)
qed

lemma live_signal: "c < length (cvs s) \<Longrightarrow> live (fst (cv_signal c s)) = live s"
proof (cases "cv_queue (cvs s ! c)")
  case (Cons u us)
  assume c: "c < length (cvs s)"
  have "insert u (parked (upd_cv c (\<lambda>x. x\<lparr>cv_queue := us\<rparr>) (interrupt_disable s))) = parked s"
    unfolding parked_def using union_queues_pop [of "queue_at s" "On_cv c" u us] Cons c by simp
  with Cons show ?thesis by (simp add: cv_signal_def live_def parked_push_ready)
qed (simp add: cv_signal_def live_def)

lemma parked_drain_cv:
  "c < length (cvs s) \<Longrightarrow>
   parked (upd_cv c (\<lambda>x. x\<lparr>cv_queue := []\<rparr>) (drain (cv_queue (cvs s ! c)) s)) = parked s"
  unfolding parked_def using union_queues_drain [of Ready "On_cv c" "queue_at s"]
  by (simp add: drain_eq)

lemma parked_drain_join:
  "t < length (tcbs s) \<Longrightarrow>
   parked (upd_tcb t (\<lambda>x. x\<lparr>join_queue := []\<rparr>) (drain (join_queue (tcbs s ! t)) s)) = parked s"
  unfolding parked_def using union_queues_drain [of Ready "On_join t" "queue_at s"]
  by (simp add: drain_eq)

lemma live_broadcast: "c < length (cvs s) \<Longrightarrow> live (fst (cv_broadcast c s)) = live s"
  using parked_drain_cv [of c "interrupt_disable s"]
  by (simp add: cv_broadcast_def live_def) (simp add: drain_eq)

lemma live_exit:
  assumes "lib_inv s" "running_thread s = Some t"
  shows "live (fst (starter_exit s)) = live s - {t}"
proof -
  let ?s0 = "interrupt_disable s"
  let ?s2 = "upd_tcb t (\<lambda>x. x\<lparr>join_queue := []\<rparr>) (drain (join_queue (tcbs s ! t)) ?s0)"
  have t: "switch_inv ?s0" "t < length (tcbs s)" "t \<notin> parked s"
    using assms by (auto simp: lib_inv_def absent_parked)
  have pk: "parked ?s2 = parked s" using parked_drain_join [of t ?s0] t(2) by simp
  have "switch_inv ?s2"
    by (rule move_all_inv [OF t(1), of "On_join t"])
       (use switch_invD(3) [OF t(1), of _ "On_join t"] t(2) in \<open>auto simp: drain_eq\<close>)
  then have "switch_inv (?s2\<lparr>previous_thread := Some t\<rparr>\<lparr>running_thread := None\<rparr>)" by simp
  from live_swap_in [OF this] have "live (swap_in (?s2\<lparr>previous_thread := Some t, running_thread := None\<rparr>)) = parked s"
    using pk by simp
  moreover have "live (host_return ?s2) = parked s"
    using pk by (simp add: host_return_def live_def)
  moreover have "live s - {t} = parked s" using t(3) assms(2) by (auto simp: live_def)
  ultimately show ?thesis using assms(2) by (simp add: starter_exit_def Let_def)
qed

lemma parked_create: "parked (create_tcb s) = insert (length (tcbs s)) (parked s)"
  unfolding create_tcb_def parked_push_ready by (simp add: parked_def)

lemma live_exec:
  assumes "lib_inv s" "running_thread s = Some t" "call_ok c s"
  shows "live (fst (exec_call c s)) = live_after c s"
  using assms
proof (cases c)
  case (Create ok)
  then show ?thesis using assms
    by (simp add: thread_ctor_def Let_def live_def parked_create)
next
  case New_mutex
  then show ?thesis by (simp add: live_def parked_def)
next
  case New_cv
  then show ?thesis by (simp add: live_def parked_def)
qed (auto simp: live_yield live_join live_lock live_unlock live_wait live_signal live_broadcast live_exit)

section \<open>Critical sections\<close>

text \<open>Switching never takes a mutex from its holder.\<close>

lemma swap_in_holder:
  "switch_inv s \<Longrightarrow> status (mutexes s ! m) \<Longrightarrow> m < length (mutexes s) \<Longrightarrow>
   status (mutexes (swap_in s) ! m) \<and> occupy_thread (mutexes (swap_in s) ! m) = occupy_thread (mutexes s ! m)"
proof (induction s rule: swap_in_induct)
  case (again s t ts k)
  then show ?case by (auto simp: requeued_def)
qed (auto simp: host_return_def)

text \<open>The thread that gets the CPU back inside \<open>lock\<close> or \<open>wait\<close> holds the mutex.\<close>

fun acquiring :: "resume \<Rightarrow> mid option" where
  "acquiring (In_lock m) = Some m"
| "acquiring (In_wait m) = Some m"
| "acquiring (In_relock m) = Some m"
| "acquiring _ = None"

lemma swap_in_acquired:
  "switch_inv s \<Longrightarrow> running_thread (swap_in s) = Some t \<Longrightarrow>
   acquiring (ucontext (tcbs (swap_in s) ! t)) = Some m \<Longrightarrow>
   m < length (mutexes (swap_in s)) \<and> status (mutexes (swap_in s) ! m)
   \<and> occupy_thread (mutexes (swap_in s) ! m) = Some t"
proof (induction s rule: swap_in_induct)
  case (run s w ts)
  with cpu_to_inv(4) [OF run(1,2)] show ?case by (auto split: resume.splits)
qed (auto simp: host_return_def)

text \<open>
  Which \<open>lock\<close> and \<open>wait\<close> calls return, and which critical sections end, in a step. A blocked
  caller cannot be the thread that runs next, so a call that leaves the running thread alone
  has returned to it.
\<close>

definition acquired :: "call \<Rightarrow> tlib \<Rightarrow> tlib \<Rightarrow> (tid \<times> mid) set" where
  "acquired c s s' = (case running_thread s' of None \<Rightarrow> {} | Some u \<Rightarrow>
     if running_thread s' \<noteq> running_thread s
     then {(u, m) | m. acquiring (ucontext (tcbs s' ! u)) = Some m}
     else {(u, m) | m. c = Lock m})"

definition released :: "call \<Rightarrow> tlib \<Rightarrow> (tid \<times> mid) set" where
  "released c s = {(t, m). running_thread s = Some t \<and> check_ownership m s \<and>
     (c = Unlock m \<or> (\<exists>k. c = Wait k m))}"

text \<open>The library, with the set of (thread, mutex) pairs that are inside a critical section.\<close>

inductive cs_step :: "tlib \<times> (tid \<times> mid) set \<Rightarrow> tlib \<times> (tid \<times> mid) set \<Rightarrow> bool" where
  cs_stepI: "running_thread s \<noteq> None \<Longrightarrow> call_ok c s \<Longrightarrow> s' = fst (exec_call c s)
    \<Longrightarrow> cs_step (s, H) (s', H - released c s \<union> acquired c s s')"

definition cs_init :: "tlib \<times> (tid \<times> mid) set \<Rightarrow> bool" where
  "cs_init x \<longleftrightarrow> lib_init (fst x) \<and> snd x = {}"

definition holds_lock :: "tlib \<Rightarrow> tid \<times> mid \<Rightarrow> bool" where
  "holds_lock s = (\<lambda>(t, m). m < length (mutexes s) \<and> status (mutexes s ! m)
     \<and> occupy_thread (mutexes s ! m) = Some t)"

definition cs_inv :: "tlib \<times> (tid \<times> mid) set \<Rightarrow> bool" where
  "cs_inv x \<longleftrightarrow> lib_inv (fst x) \<and> (\<forall>p \<in> snd x. holds_lock (fst x) p)"

section \<open>Calls that switch\<close>

text \<open>
  The state in which a call of the running thread \<open>t\<close> hands the CPU over, if it does: the caller
  is parked (or gone) and its context is saved.
\<close>

definition saved :: "tid \<Rightarrow> resume \<Rightarrow> tlib \<Rightarrow> tlib" where
  "saved t r s = upd_tcb t (\<lambda>x. x\<lparr>ucontext := r\<rparr>) (interrupt_disable s)"

fun before_switch :: "tid \<Rightarrow> call \<Rightarrow> tlib \<Rightarrow> tlib option" where
  "before_switch t Yield s = (if ready_queue s = [] then None else Some (push_ready t (saved t In_yield s)))"
| "before_switch t (Join u) s = (if expired (interrupt_disable s) (Some u) then None else
     Some (upd_tcb u (\<lambda>x. x\<lparr>join_queue := qpush t (join_queue x)\<rparr>) (saved t In_join s)))"
| "before_switch t (Lock m) s = (if \<not> status (mutexes s ! m) then None else
     Some (upd_mutex m (push_waiter t) (saved t (In_lock m) s)))"
| "before_switch t (Wait c m) s = (if \<not> check_ownership m (interrupt_disable s) then None else
     Some (hand_over m (upd_cv c (\<lambda>x. x\<lparr>cv_queue := qpush t (cv_queue x)\<rparr>) (saved t (In_wait m) s))))"
| "before_switch t Exit s = Some (upd_tcb t (\<lambda>x. x\<lparr>join_queue := []\<rparr>)
     (drain (join_queue (tcbs s ! t)) (interrupt_disable s)))"
| "before_switch t _ s = None"

lemma swap_in_forgets:
  "swap_in (s\<lparr>previous_thread := p, running_thread := r\<rparr>) = swap_in s"
  by (simp add: swap_in.simps [of s] swap_in.simps [of "s\<lparr>previous_thread := p, running_thread := r\<rparr>"]
      host_return_def cong: list.case_cong resume.case_cong)

lemma exec_switch:
  assumes "lib_inv s" "running_thread s = Some t" "call_ok c s" "before_switch t c s = Some s0"
  shows "fst (exec_call c s) = swap_in s0" "switch_inv s0"
proof -
  note R = running_saved [OF assms(1,2) saved_def]
  have t: "t < length (tcbs s)" "t \<notin> set (ready_queue s)" "switch_inv (interrupt_disable s)"
    using assms(1,2) by (auto simp: lib_inv_def absent_def dest: spec [of _ Ready])
  have "fst (exec_call c s) = swap_in s0 \<and> switch_inv s0"
  proof (cases c)
    case Yield
    have "switch_inv (push_ready t (saved t In_yield s))" by (rule push_ready_inv) (use R in simp_all)
    with Yield assms(2,4) show ?thesis
      by (auto simp: yield_def Let_def swap_helper_def saved_def save_ctx_commute split: if_splits)
  next
    case (Join u)
    have "switch_inv (upd_tcb u (\<lambda>x. x\<lparr>join_queue := qpush t (join_queue x)\<rparr>) (saved t In_join s))"
      by (rule push_join_inv) (use R assms(3) Join in simp_all)
    with Join assms(2-4) t show ?thesis
      by (auto simp: join_def Let_def swap_helper_def saved_def save_ctx_join split: if_splits)
  next
    case (Lock m)
    then have b: "status (mutexes s ! m)" using assms(4) by (auto split: if_splits)
    have "switch_inv (upd_mutex m (push_waiter t) (saved t (In_lock m) s))"
      by (rule push_mutex_inv) (use R assms(3) Lock b in simp_all)
    with Lock assms(2-4) show ?thesis
      by (auto simp: mutex_lock_def Let_def swap_helper_def saved_def save_ctx_commute split: if_splits)
  next
    case (Wait k m)
    then have b: "check_ownership m (interrupt_disable s)" using assms(4) by (auto split: if_splits)
    then have own: "occupy_thread (mutexes s ! m) = Some t" using check_ownershipD [OF b, of t] assms(2) by simp
    let ?s2 = "upd_cv k (\<lambda>x. x\<lparr>cv_queue := qpush t (cv_queue x)\<rparr>) (saved t (In_wait m) s)"
    have "switch_inv ?s2" by (rule push_cv_inv [where m = m]) (use R assms(3) Wait in simp_all)
    then have "switch_inv (hand_over m ?s2)"
      using hand_over_inv [of ?s2 m t] own assms(3) Wait t(2) R by simp
    with Wait assms(2-4) show ?thesis
      by (auto simp: cv_wait_def Let_def swap_helper_def saved_def save_ctx_commute
          save_ctx_hand_over hand_over_running split: if_splits)
  next
    case Exit
    let ?s2 = "upd_tcb t (\<lambda>x. x\<lparr>join_queue := []\<rparr>) (drain (join_queue (tcbs s ! t)) (interrupt_disable s))"
    have "switch_inv ?s2"
      by (rule move_all_inv [OF t(3), of "On_join t"])
         (use switch_invD(3) [OF t(3), of _ "On_join t"] t(1) in \<open>auto simp: drain_eq\<close>)
    moreover have "ready_queue ?s2 = [] \<Longrightarrow> swap_in ?s2 = host_return ?s2"
      by (subst swap_in.simps) simp
    ultimately show ?thesis using Exit assms(2,4)
      by (auto simp: starter_exit_def Let_def swap_in_forgets)
  qed (use assms(4) in simp_all)
  then show "fst (exec_call c s) = swap_in s0" "switch_inv s0" by blast+
qed

lemma exec_no_switch:
  assumes "running_thread s = Some t" "before_switch t c s = None"
  shows "running_thread (fst (exec_call c s)) = Some t"
  using assms
  by (cases c) (auto simp: yield_def join_def mutex_lock_def cv_wait_def mutex_unlock_def cv_signal_def
      cv_broadcast_def thread_ctor_def Let_def hand_over_running drain_eq split: if_splits list.splits)

text \<open>Handing the CPU over takes threads from the front of the ready queue and adds none.\<close>

definition served :: "nat \<Rightarrow> tlib \<Rightarrow> tlib \<Rightarrow> bool" where
  "served k s s' \<longleftrightarrow> k \<le> length (ready_queue s) \<and> ready_queue s' = drop k (ready_queue s) \<and>
     (ready_queue s \<noteq> [] \<longrightarrow> 0 < k) \<and>
     (\<forall>u. running_thread s' = Some u \<longrightarrow> 0 < k \<and> u = ready_queue s ! (k - 1)) \<and>
     (running_thread s' = None \<longrightarrow> k = length (ready_queue s)) \<and>
     length (mutexes s') = length (mutexes s) \<and>
     (\<forall>m < length (mutexes s). prefix_of (mutex_queue (mutexes s ! m)) (mutex_queue (mutexes s' ! m))) \<and>
     (\<forall>i < k. running_thread s' = Some (ready_queue s ! i) \<or>
        (\<exists>m < length (mutexes s). ready_queue s ! i \<in> set (mutex_queue (mutexes s' ! m))))"

lemma swap_in_served: "switch_inv s \<Longrightarrow> \<exists>k. served k s (swap_in s)"
proof (induction s rule: swap_in_induct)
  case (suspend s)
  then show ?case by (auto simp: host_return_def served_def intro!: exI [of _ 0])
next
  case (run s t ts)
  then show ?case by (auto simp: served_def intro!: exI [of _ 1])
next
  case (take s t ts m)
  then show ?case by (auto simp: served_def intro!: exI [of _ 1])
next
  case (again s t ts m)
  let ?r = "requeued m t (cpu_to t ts s)"
  have f: "ready_queue ?r = ts" "length (mutexes ?r) = length (mutexes s)"
    "mutex_queue (mutexes ?r ! m) = mutex_queue (mutexes s ! m) @ [t]"
    "\<And>i. i \<noteq> m \<Longrightarrow> mutexes ?r ! i = mutexes s ! i"
    using again.hyps(4) by (simp_all add: requeued_def qpush_def)
  from again.IH obtain k where K: "served k ?r (swap_in ?r)" by blast
  have pre: "prefix_of (mutex_queue (mutexes s ! i)) (mutex_queue (mutexes (swap_in ?r) ! i))"
    if "i < length (mutexes s)" for i
    using K that f by (cases "i = m") (auto simp: served_def prefix_of_def)
  have t: "t \<in> set (mutex_queue (mutexes (swap_in ?r) ! m))"
    using K f(2,3) again.hyps(4) by (auto simp: served_def prefix_of_def)
  have "served (Suc k) s (swap_in ?r)"
    using K pre t again.hyps(2,4) f(1,2)
    by (auto simp: served_def nth_Cons split: nat.splits)
  then show ?case unfolding again.hyps(7) by blast
qed

section \<open>Critical sections stay exclusive\<close>

lemma check_ownership_interrupts [simp]:
  "check_ownership m (interrupt_disable s) = check_ownership m s"
  by (simp add: check_ownership_def expired_def tcb_refs_def Let_def split: option.splits)

lemma saved_fields [simp]:
  "ready_queue (saved t r s) = ready_queue s" "mutexes (saved t r s) = mutexes s"
  "cvs (saved t r s) = cvs s" "running_thread (saved t r s) = running_thread s"
  "length (tcbs (saved t r s)) = length (tcbs s)"
  by (simp_all add: saved_def)

lemma hand_over_other:
  "k \<noteq> m \<Longrightarrow> mutexes (hand_over m s) ! k = mutexes s ! k"
  by (cases "mutex_queue (mutexes s ! m)") (simp_all add: hand_over_def)

lemma holds_before_switch:
  assumes "running_thread s = Some t" "before_switch t c s = Some s0"
    and "holds_lock s p" "p \<notin> released c s"
  shows "holds_lock s0 p"
proof (cases c)
  case (Wait k m)
  obtain u n where p: "p = (u, n)" by (cases p)
  from Wait assms(2) have own: "check_ownership m s" by (auto split: if_splits)
  with assms(1) have "occupy_thread (mutexes s ! m) = Some t" by (blast dest: check_ownershipD)
  with own Wait assms p have "n \<noteq> m" by (auto simp: holds_lock_def released_def)
  with Wait assms(2,3) p show ?thesis
    by (auto simp: holds_lock_def hand_over_other hand_over_running split: if_splits)
qed (use assms in \<open>auto simp: holds_lock_def drain_eq split: if_splits\<close>)

lemma holds_no_switch:
  assumes "running_thread s = Some t" "before_switch t c s = None"
    and "holds_lock s p" "p \<notin> released c s"
  shows "holds_lock (fst (exec_call c s)) p"
proof (cases c)
  case (Unlock m)
  obtain u n where p: "p = (u, n)" by (cases p)
  show ?thesis
  proof (cases "check_ownership m s")
    case True
    with assms(1) have "occupy_thread (mutexes s ! m) = Some t" by (blast dest: check_ownershipD)
    with True Unlock assms p have "n \<noteq> m" by (auto simp: holds_lock_def released_def)
    with Unlock True assms(3) p show ?thesis
      by (simp add: mutex_unlock_def holds_lock_def hand_over_other hand_over_running)
  next
    case False
    with Unlock assms(3) show ?thesis by (simp add: mutex_unlock_def holds_lock_def)
  qed
qed (use assms in \<open>auto simp: holds_lock_def thread_ctor_def create_tcb_def yield_def join_def
      mutex_lock_def cv_wait_def cv_signal_def cv_broadcast_def drain_eq nth_append Let_def
      split: if_splits list.splits\<close>)

lemma lock_no_switch:
  "running_thread s = Some t \<Longrightarrow> before_switch t (Lock m) s = None \<Longrightarrow> m < length (mutexes s) \<Longrightarrow>
   holds_lock (fst (exec_call (Lock m) s)) (t, m)"
  by (auto simp: mutex_lock_def Let_def holds_lock_def split: if_splits)

text \<open>A caller that blocks in \<open>lock\<close> is not ready, so it is not the one that runs next.\<close>

lemma lock_switch_other:
  assumes "lib_inv s" "running_thread s = Some t" "call_ok (Lock m) s"
    and "before_switch t (Lock m) s = Some s0"
  shows "running_thread (fst (exec_call (Lock m) s)) \<noteq> Some t"
proof
  note E = exec_switch [OF assms]
  from swap_in_served [OF E(2)] obtain k where k: "served k s0 (swap_in s0)" by blast
  assume "running_thread (fst (exec_call (Lock m) s)) = Some t"
  then have "running_thread (swap_in s0) = Some t" using E(1) by simp
  with k have "0 < k \<and> t = ready_queue s0 ! (k - 1) \<and> k \<le> length (ready_queue s0)"
    unfolding served_def by blast
  then have "t \<in> set (ready_queue s0)" by (metis One_nat_def Suc_le_lessD Suc_pred' nth_mem)
  then have "t \<in> set (ready_queue s)" using assms(4) by (auto split: if_splits)
  with assms(1,2) show False by (auto simp: lib_inv_def absent_def dest: spec [of _ Ready])
qed

lemma cs_step_inv:
  assumes "cs_inv x" "cs_step x y" shows "cs_inv y"
  using assms(2,1)
proof (cases rule: cs_step.cases)
  case (cs_stepI s c s' H)
  then obtain t where t: "running_thread s = Some t" by blast
  have I: "lib_inv s" and H: "\<And>p. p \<in> H \<Longrightarrow> holds_lock s p"
    using assms(1) cs_stepI(1) by (auto simp: cs_inv_def)
  have I': "lib_inv s'" using exec_call_inv [OF I cs_stepI(4)] cs_stepI(5) by simp
  have "holds_lock s' p" if p: "p \<in> H - released c s \<union> acquired c s s'" for p
  proof (cases "before_switch t c s")
    case None
    then have run: "running_thread s' = running_thread s"
      using exec_no_switch [OF t None] cs_stepI(5) t by simp
    from p show ?thesis
    proof
      assume "p \<in> H - released c s"
      then show ?thesis using holds_no_switch [OF t None] H cs_stepI(5) by auto
    next
      assume "p \<in> acquired c s s'"
      then obtain m where "c = Lock m" "p = (t, m)" using run t by (auto simp: acquired_def)
      then show ?thesis using lock_no_switch [of s t m] t None cs_stepI(4,5) by simp
    qed
  next
    case (Some s0)
    note E = exec_switch [OF I t cs_stepI(4) Some]
    from p show ?thesis
    proof
      assume "p \<in> H - released c s"
      then have "holds_lock s0 p" using holds_before_switch [OF t Some] H by blast
      moreover have "length (mutexes (swap_in s0)) = length (mutexes s0)"
        using swap_in_served [OF E(2)] by (auto simp: served_def)
      ultimately show ?thesis using swap_in_holder [OF E(2)] E(1) cs_stepI(5)
        by (cases p) (simp add: holds_lock_def)
    next
      assume a: "p \<in> acquired c s s'"
      then obtain u where u: "running_thread s' = Some u" by (auto simp: acquired_def split: option.splits)
      have "running_thread s' \<noteq> running_thread s"
        using a u t lock_switch_other [OF I t] cs_stepI(4,5) Some
        by (auto simp: acquired_def split: if_splits)
      with a u obtain m where "p = (u, m)" "acquiring (ucontext (tcbs s' ! u)) = Some m"
        by (auto simp: acquired_def)
      then show ?thesis using swap_in_acquired [OF E(2)] u E(1) cs_stepI(5) by (simp add: holds_lock_def)
    qed
  qed
  with I' cs_stepI(2) show ?thesis by (auto simp: cs_inv_def)
qed

interpretation cs: invariant_system cs_init cs_step cs_inv
proof unfold_locales
  show "cs_init x \<Longrightarrow> cs_inv x" for x by (auto simp: cs_init_def cs_inv_def lib_init_def booted_inv)
  show "cs_inv x \<Longrightarrow> cs_step x y \<Longrightarrow> cs_inv y" for x y by (rule cs_step_inv)
qed

section \<open>Joins\<close>

text \<open>Every thread parked in \<open>join\<close> waits for a live thread.\<close>

definition join_inv_all :: "tlib \<Rightarrow> bool" where
  "join_inv_all s \<longleftrightarrow> lib_inv s \<and> (\<forall>u t. t \<in> set (queue_at s (On_join u)) \<longrightarrow> u \<in> live s)"

lemma join_queue_swap_in:
  "switch_inv s \<Longrightarrow> queue_at (swap_in s) (On_join u) = queue_at s (On_join u)"
proof (induction s rule: swap_in_induct)
  case (again s t ts m)
  then show ?case by (simp add: requeued_def)
qed (auto simp: host_return_def simp del: queue_at.simps)

lemma join_queue_hand_over: "queue_at (hand_over m s) (On_join u) = queue_at s (On_join u)"
  by (cases "mutex_queue (mutexes s ! m)") (simp_all add: hand_over_def)

lemma join_queue_saved: "queue_at (saved t r s) (On_join u) = queue_at s (On_join u)"
  by (simp add: saved_def)

text \<open>A call enlarges only the queue of the live thread it joins, and empties the caller's at its end.\<close>

lemma join_queue_step:
  assumes "lib_inv s" "running_thread s = Some t" "call_ok c s"
  shows "set (queue_at (fst (exec_call c s)) (On_join u)) \<subseteq>
    (if c = Exit \<and> u = t then {}
     else if c = Join u \<and> u \<in> live s then insert t (set (queue_at s (On_join u)))
     else set (queue_at s (On_join u)))"
proof (cases "before_switch t c s")
  case None
  then have "queue_at (fst (exec_call c s)) (On_join u) = queue_at s (On_join u)"
    using assms(2) by (cases c) (auto simp: yield_def join_def mutex_lock_def cv_wait_def mutex_unlock_def
        cv_signal_def cv_broadcast_def thread_ctor_def create_tcb_def Let_def drain_eq
        hand_over_running nth_append new_tcb_def split: if_splits list.splits)
  with None show ?thesis by auto
next
  case (Some s0)
  have prev: "previous_thread (interrupt_disable s) = None" using assms(1) by (simp add: lib_inv_def)
  have live0: "live (interrupt_disable s) = live s" by (simp add: live_def)
  have "set (queue_at s0 (On_join u)) \<subseteq> (if c = Exit \<and> u = t then {}
     else if c = Join u \<and> u \<in> live s then insert t (set (queue_at s (On_join u)))
     else set (queue_at s (On_join u)))"
  proof (cases c)
    case (Join w)
    then have "w \<in> live s" "w < length (tcbs s)"
      using Some assms(3) expired_iff_not_live [OF prev, of w] live0 by (auto split: if_splits)
    with Join Some show ?thesis by (auto simp: saved_def split: if_splits)
  qed (use Some assms(1,2) in \<open>auto simp: hand_over_running saved_def drain_eq lib_inv_def
      split: if_splits\<close>)
  moreover have "queue_at (fst (exec_call c s)) (On_join u) = queue_at s0 (On_join u)"
    using exec_switch [OF assms Some] join_queue_swap_in by simp
  ultimately show ?thesis by simp
qed

lemma join_inv_all_step:
  assumes "join_inv_all s" "lib_step s s'" shows "join_inv_all s'"
  using assms(2)
proof (cases rule: lib_step.cases)
  case (lib_stepI c)
  then obtain t where t: "running_thread s = Some t" by blast
  have I: "lib_inv s" using assms(1) by (simp add: join_inv_all_def)
  have L: "live s' = live_after c s" using live_exec [OF I t lib_stepI(2)] lib_stepI(3) by simp
  have "u \<in> live s'" if w: "w \<in> set (queue_at s' (On_join u))" for u w
  proof -
    have sub: "set (queue_at s' (On_join u)) \<subseteq>
      (if c = Exit \<and> u = t then {}
       else if c = Join u \<and> u \<in> live s then insert t (set (queue_at s (On_join u)))
       else set (queue_at s (On_join u)))"
      using join_queue_step [OF I t lib_stepI(2), of u] unfolding lib_stepI(3) .
    with w have "u \<in> live s" "\<not> (c = Exit \<and> u = t)"
      using assms(1) unfolding join_inv_all_def by (auto simp del: queue_at.simps split: if_splits)
    with L t show ?thesis by (cases c) auto
  qed
  with exec_call_inv [OF I lib_stepI(2)] lib_stepI(3) show ?thesis by (auto simp: join_inv_all_def)
qed

lemma booted_join_inv: "join_inv_all (booted nm nc)"
proof -
  let ?s = "create_tcb (boot_state\<lparr>mutexes := replicate nm new_mutex, cvs := replicate nc new_cv\<rparr>)"
  have "queue_at (booted nm nc) (On_join u) = []" for u
    by (simp add: booted_def cpu_ctor_def create_tcb_def boot_state_def qpush_def push_ready_def
        swap_in.simps new_tcb_def)
  then show ?thesis using booted_inv by (simp add: join_inv_all_def del: queue_at.simps)
qed

interpretation joins: invariant_system lib_init lib_step join_inv_all
proof unfold_locales
  show "lib_init s \<Longrightarrow> join_inv_all s" for s by (auto simp: lib_init_def booted_join_inv)
  show "join_inv_all s \<Longrightarrow> lib_step s t \<Longrightarrow> join_inv_all t" for s t by (rule join_inv_all_step)
qed

section \<open>Concrete runs\<close>

text \<open>Runs of given calls, for the witnesses.\<close>

fun run_calls :: "call list \<Rightarrow> tlib \<Rightarrow> tlib" where
  "run_calls [] s = s"
| "run_calls (c # cs) s = run_calls cs (fst (exec_call c s))"

fun runnable :: "call list \<Rightarrow> tlib \<Rightarrow> bool" where
  "runnable [] s = True"
| "runnable (c # cs) s = (running_thread s \<noteq> None \<and> call_ok c s \<and> runnable cs (fst (exec_call c s)))"

lemma reach_run_calls:
  "reach lib_init lib_step s \<Longrightarrow> runnable cs s \<Longrightarrow> reach lib_init lib_step (run_calls cs s)"
proof (induction cs arbitrary: s)
  case (Cons c cs)
  then have "lib_step s (fst (exec_call c s))" by (auto intro: lib_stepI)
  with Cons.prems(1) have "reach lib_init lib_step (fst (exec_call c s))" by (rule reach_step)
  with Cons show ?case by simp
qed simp

lemma lib_init_booted: "lib_init (booted nm nc)"
  unfolding lib_init_def by blast

lemma reach_booted: "runnable cs (booted nm nc) \<Longrightarrow> reach lib_init lib_step (run_calls cs (booted nm nc))"
  by (rule reach_run_calls [OF reach.reach_init]) (rule lib_init_booted)

text \<open>The same runs with their critical sections.\<close>

fun run_cs :: "call list \<Rightarrow> tlib \<times> (tid \<times> mid) set \<Rightarrow> tlib \<times> (tid \<times> mid) set" where
  "run_cs [] x = x"
| "run_cs (c # cs) x = run_cs cs (let s' = fst (exec_call c (fst x)) in
     (s', snd x - released c (fst x) \<union> acquired c (fst x) s'))"

lemma reach_run_cs:
  "reach cs_init cs_step x \<Longrightarrow> runnable cs (fst x) \<Longrightarrow> reach cs_init cs_step (run_cs cs x)"
proof (induction cs arbitrary: x)
  case (Cons c cs)
  let ?s = "fst (exec_call c (fst x))"
  have "cs_step x (?s, snd x - released c (fst x) \<union> acquired c (fst x) ?s)"
    using Cons.prems(2) cs_stepI [of "fst x" c ?s "snd x"] by simp
  with Cons.prems(1) have "reach cs_init cs_step (?s, snd x - released c (fst x) \<union> acquired c (fst x) ?s)"
    by (rule reach_step)
  with Cons show ?case by (simp add: Let_def)
qed simp

lemma reach_booted_cs:
  "runnable cs (booted nm nc) \<Longrightarrow> reach cs_init cs_step (run_cs cs (booted nm nc, {}))"
  by (rule reach_run_cs [OF reach.reach_init]) (simp_all add: cs_init_def lib_init_booted)

section \<open>Order of service\<close>

text \<open>How the queues look when the CPU is handed over, against the state before the call.\<close>

lemma before_switch_queues:
  assumes "running_thread s = Some t" "before_switch t c s = Some s0" "call_ok c s"
  shows "prefix_of (ready_queue s) (ready_queue s0) \<and> length (mutexes s0) = length (mutexes s) \<and>
    (\<forall>m < length (mutexes s). \<exists>k \<le> 1. prefix_of (drop k (mutex_queue (mutexes s ! m))) (mutex_queue (mutexes s0 ! m)))"
proof (cases c)
  case (Wait k m)
  let ?s1 = "upd_cv k (\<lambda>x. x\<lparr>cv_queue := qpush t (cv_queue x)\<rparr>) (saved t (In_wait m) s)"
  have m: "m < length (mutexes s)" and s0: "s0 = hand_over m ?s1"
    using Wait assms by (auto split: if_splits)
  show ?thesis
  proof (cases "mutex_queue (mutexes s ! m)")
    case Nil
    then show ?thesis unfolding s0 by (auto simp: hand_over_def intro: exI [of _ 0])
  next
    case (Cons u us)
    have "\<exists>j \<le> 1. prefix_of (drop j (mutex_queue (mutexes s ! i))) (mutex_queue (mutexes s0 ! i))"
      if "i < length (mutexes s)" for i
      using Cons m that s0 by (cases "i = m") (auto simp: hand_over_def intro: exI [of _ 0] exI [of _ 1])
    with Cons m show ?thesis unfolding s0 by (simp add: hand_over_def qpush_def)
  qed
qed (use assms in \<open>auto simp: qpush_def drain_eq intro!: exI [of _ 0] split: if_splits\<close>)

text \<open>A ready thread that is not coming back from a condition variable runs or stays ready.\<close>

lemma swap_in_ready:
  "switch_inv s \<Longrightarrow> u \<in> set (ready_queue s) \<Longrightarrow> \<forall>m. ucontext (tcbs s ! u) \<noteq> In_wait m \<Longrightarrow>
   running_thread (swap_in s) = Some u \<or> u \<in> set (ready_queue (swap_in s))"
proof (induction s rule: swap_in_induct)
  case (again s t ts m)
  then have "u \<noteq> t" "u \<in> set ts" by auto
  with again.prems(2) again.IH show ?case unfolding again.hyps(7) by (simp add: requeued_def)
qed (auto simp: host_return_def)

text \<open>The first waiter of a mutex that is released owns it and is ready.\<close>

lemma hand_over_served:
  assumes "mutex_queue (mutexes s ! m) = u # us" "m < length (mutexes s)"
  shows "mutex_queue (mutexes (hand_over m s) ! m) = us" "holds_lock (hand_over m s) (u, m)"
    "ready_queue (hand_over m s) = ready_queue s @ [u]" "tcbs (hand_over m s) = tcbs s"
  using assms by (simp_all add: hand_over_def holds_lock_def qpush_def)

lemma queue_before_switch:
  assumes "running_thread s = Some t" "before_switch t c s = Some s0" "call_ok c s" "m < length (mutexes s)"
    and "(t, m) \<notin> released c s \<or> mutex_queue (mutexes s ! m) = []"
  shows "prefix_of (mutex_queue (mutexes s ! m)) (mutex_queue (mutexes s0 ! m))"
proof (cases c)
  case (Wait k n)
  let ?s1 = "upd_cv k (\<lambda>x. x\<lparr>cv_queue := qpush t (cv_queue x)\<rparr>) (saved t (In_wait n) s)"
  have s0: "s0 = hand_over n ?s1" "check_ownership n s" using Wait assms(2) by (auto split: if_splits)
  show ?thesis
  proof (cases "n = m")
    case True
    then have "mutex_queue (mutexes s ! m) = []" using assms(1,5) Wait s0(2) by (auto simp: released_def)
    then show ?thesis by (simp add: prefix_of_def)
  next
    case False
    then show ?thesis unfolding s0(1) by (simp add: hand_over_other)
  qed
qed (use assms in \<open>auto simp: qpush_def drain_eq prefix_of_def split: if_splits\<close>)

lemma queue_no_switch:
  assumes "running_thread s = Some t" "before_switch t c s = None" "m < length (mutexes s)"
    and "(t, m) \<notin> released c s \<or> mutex_queue (mutexes s ! m) = []"
  shows "prefix_of (mutex_queue (mutexes s ! m)) (mutex_queue (mutexes (fst (exec_call c s)) ! m))"
proof (cases c)
  case (Unlock n)
  show ?thesis
  proof (cases "check_ownership n s \<and> m = n")
    case True
    then have "mutex_queue (mutexes s ! m) = []" using assms(1,4) Unlock by (auto simp: released_def)
    then show ?thesis by (simp add: prefix_of_def)
  next
    case False
    then show ?thesis using Unlock by (auto simp: mutex_unlock_def Let_def hand_over_other)
  qed
qed (use assms in \<open>auto simp: thread_ctor_def create_tcb_def yield_def join_def
      mutex_lock_def cv_wait_def cv_signal_def cv_broadcast_def drain_eq nth_append Let_def
      split: if_splits list.splits\<close>)

lemma prefix_of_trans: "prefix_of xs ys \<Longrightarrow> prefix_of ys zs \<Longrightarrow> prefix_of xs zs"
  by (auto simp: prefix_of_def)

lemma parked_somewhere:
  "t \<in> parked s \<Longrightarrow> ready_queue s = [] \<Longrightarrow>
   (\<exists>m. t \<in> set (queue_at s (On_mutex m))) \<or> (\<exists>c. t \<in> set (queue_at s (On_cv c)))
   \<or> (\<exists>u. t \<in> set (queue_at s (On_join u)))"
proof -
  assume a: "t \<in> parked s" "ready_queue s = []"
  then obtain p where p: "t \<in> set (queue_at s p)" unfolding parked_def by blast
  show ?thesis
  proof (cases p)
    case Ready
    with p a(2) show ?thesis by simp
  qed (use p in blast)+
qed

lemma suspended_ready:
  assumes "reach lib_init lib_step s" "running_thread s = None" shows "ready_queue s = []"
  using assms
proof (cases rule: reach.cases)
  case reach_init
  then show ?thesis using assms(2)
    by (auto simp: lib_init_def booted_def cpu_ctor_def create_tcb_def boot_state_def push_ready_def
        qpush_def swap_in.simps new_tcb_def)
next
  case (reach_step s1)
  from reach_step(2) obtain c t where c: "running_thread s1 = Some t" "call_ok c s1" "s = fst (exec_call c s1)"
    by (auto elim: lib_step.cases)
  have I: "lib_inv s1" by (rule lib.inv_reach [OF reach_step(1)])
  from c assms(2) obtain s0 where s0: "before_switch t c s1 = Some s0"
    using exec_no_switch [OF c(1), of c] by (cases "before_switch t c s1") auto
  note E = exec_switch [OF I c(1,2) s0]
  from swap_in_served [OF E(2)] obtain k where "served k s0 s" using E(1) c(3) by auto
  with assms(2) show ?thesis by (auto simp: served_def)
qed

section \<open>The properties\<close>

text \<open>C2. Under any client program every live thread is in one place only: the running thread is in
  no queue, any other is in one queue of the library, and no queue holds a thread twice.\<close>

theorem thread_in_one_place:
  assumes "reach lib_init lib_step s" and "t \<in> live s"
  shows "(running_thread s = Some t \<and> (\<forall>p. t \<notin> set (queue_at s p)))
    \<or> (running_thread s \<noteq> Some t \<and> (\<exists>!p. t \<in> set (queue_at s p)) \<and> (\<forall>p. distinct (queue_at s p)))"
proof -
  have I: "lib_inv s" by (rule lib.inv_reach [OF assms(1)])
  then have D: "disciplined (queue_at s)" by (simp add: lib_inv_def switch_inv_def)
  show ?thesis
  proof (cases "running_thread s = Some t")
    case True
    with I show ?thesis by (auto simp: lib_inv_def absent_def)
  next
    case False
    with assms(2) obtain p where "t \<in> set (queue_at s p)" by (auto simp: live_def parked_def)
    with D False show ?thesis unfolding disciplined_def by blast
  qed
qed

theorem thread_in_one_place_witness:
  "1 \<in> live (run_calls [Create True] (booted 1 1)) \<and>
   (\<exists>!p. 1 \<in> set (queue_at (run_calls [Create True] (booted 1 1)) p))"
proof -
  let ?s = "run_calls [Create True] (booted 1 1)"
  have r: "reach lib_init lib_step ?s" by (rule reach_booted) code_simp
  have q: "1 \<in> set (queue_at ?s Ready)" "running_thread ?s \<noteq> Some 1" by code_simp+
  then have l: "1 \<in> live ?s" unfolding live_def parked_def by blast
  from thread_in_one_place [OF r l] q l show ?thesis by blast
qed

text \<open>No call loses or revives a thread: the live threads after a call are those before it, with
  the created thread added, and without the caller when its function has returned.\<close>

theorem live_threads_conserved:
  assumes "reach lib_init lib_step s" and "running_thread s = Some t" and "call_ok c s"
  shows "live (fst (exec_call c s)) =
    (case c of Create ok \<Rightarrow> (if ok then insert (length (tcbs s)) (live s) else live s)
     | Exit \<Rightarrow> live s - {t} | _ \<Rightarrow> live s)"
  using live_exec [OF lib.inv_reach [OF assms(1)] assms(2,3)] assms(2)
  by (auto split: call.splits)

theorem live_threads_conserved_witness:
  "live (fst (exec_call Exit (run_calls [Create True] (booted 1 1))))
   = live (run_calls [Create True] (booted 1 1)) - {0}"
proof -
  let ?s = "run_calls [Create True] (booted 1 1)"
  have r: "reach lib_init lib_step ?s" by (rule reach_booted) code_simp
  have t: "running_thread ?s = Some 0" by code_simp
  show ?thesis using live_threads_conserved [OF r t, of Exit] by simp
qed

text \<open>C1. Mutual exclusion: two threads that have both returned from \<open>lock\<close> (or \<open>wait\<close>) on a mutex
  and have not released it since are the same thread.\<close>

theorem mutual_exclusion:
  assumes "reach cs_init cs_step (s, H)" and "(t, m) \<in> H" and "(u, m) \<in> H"
  shows "t = u"
proof -
  have "holds_lock s (t, m)" "holds_lock s (u, m)"
    using cs.inv_reach [OF assms(1)] assms(2,3) by (auto simp: cs_inv_def)
  then show ?thesis by (simp add: holds_lock_def)
qed

text \<open>Thread 0 locks, thread 1 blocks on the lock, thread 0 unlocks, and thread 1 returns from \<open>lock\<close>.\<close>

abbreviation handover_calls :: "call list" where
  "handover_calls \<equiv> [Create True, Lock 0, Yield, Lock 0, Unlock 0, Yield]"

lemma handover_run: "runnable handover_calls (booted 1 1)"
  by code_simp

lemma handover_cs: "(1, 0) \<in> snd (run_cs handover_calls (booted 1 1, {}))"
proof -
  let ?s5 = "run_calls [Create True, Lock 0, Yield, Lock 0, Unlock 0] (booted 1 1)"
  have "(1, 0) \<in> acquired Yield ?s5 (fst (exec_call Yield ?s5))"
  proof -
    have "running_thread ?s5 = Some 0" "running_thread (fst (exec_call Yield ?s5)) = Some 1"
      "acquiring (ucontext (tcbs (fst (exec_call Yield ?s5)) ! 1)) = Some 0" by code_simp+
    then show ?thesis by (simp add: acquired_def)
  qed
  then show ?thesis by (simp add: Let_def)
qed

theorem mutual_exclusion_witness:
  "{t. (t, 0) \<in> snd (run_cs handover_calls (booted 1 1, {}))} = {1}"
proof -
  have r: "reach cs_init cs_step (run_cs handover_calls (booted 1 1, {}))"
    by (rule reach_booted_cs) (rule handover_run)
  then have "reach cs_init cs_step
      (fst (run_cs handover_calls (booted 1 1, {})), snd (run_cs handover_calls (booted 1 1, {})))"
    by (simp del: run_cs.simps)
  from mutual_exclusion [OF this _ handover_cs] handover_cs show ?thesis by blast
qed

text \<open>A thread that has returned from \<open>lock\<close> or \<open>wait\<close> and runs can release the mutex: neither
  \<open>unlock\<close> nor \<open>wait\<close> throws.\<close>

lemma holder_may_release:
  assumes "reach cs_init cs_step (s, H)" and "(t, m) \<in> H" and "running_thread s = Some t"
  shows "snd (mutex_unlock m s) = None \<and> snd (cv_wait c m s) = None"
proof -
  have "holds_lock s (t, m)" using cs.inv_reach [OF assms(1)] assms(2) by (auto simp: cs_inv_def)
  then have "check_ownership m s" using assms(3)
    by (simp add: check_ownership_def holds_lock_def expired_def tcb_refs_def)
  then show ?thesis using assms(3) by (simp_all add: mutex_unlock_def cv_wait_def Let_def)
qed

lemma holder_may_release_witness:
  "snd (mutex_unlock 0 (fst (run_cs handover_calls (booted 1 1, {})))) = None"
proof -
  let ?x = "run_cs handover_calls (booted 1 1, {})"
  have "reach cs_init cs_step ?x" by (rule reach_booted_cs) (rule handover_run)
  then have r: "reach cs_init cs_step (fst ?x, snd ?x)" by (simp del: run_cs.simps)
  have "running_thread (run_calls handover_calls (booted 1 1)) = Some 1" by code_simp
  then have "running_thread (fst ?x) = Some 1" by (simp add: Let_def)
  from holder_may_release [OF r handover_cs this] show ?thesis by blast
qed

text \<open>C6. Releasing a mutex one does not hold throws, in \<open>unlock\<close> and in \<open>wait\<close>, and leaves the
  library exactly as it was; holding is being the recorded owner of a locked mutex.\<close>

theorem misuse_throws:
  assumes "reach lib_init lib_step s" and "running_thread s = Some t"
    and "\<not> (status (mutexes s ! m) \<and> occupy_thread (mutexes s ! m) = Some t)"
  shows "mutex_unlock m s = (s, Some Unlock_unobtained) \<and> cv_wait c m s = (s, Some Wait_unobtained)"
proof -
  have "\<not> check_ownership m s" using assms(2,3) by (auto simp: check_ownership_def Let_def)
  moreover have "interrupts s" using lib.inv_reach [OF assms(1)] by (simp add: lib_inv_def)
  then have "interrupt_enable (interrupt_disable s) = s"
    by (simp add: interrupt_enable_def interrupt_disable_def)
  ultimately show ?thesis using assms(2) by (simp add: mutex_unlock_def cv_wait_def Let_def)
qed

theorem misuse_throws_witness:
  "snd (mutex_unlock 0 (run_calls [Create True, Lock 0, Yield] (booted 1 1))) = Some Unlock_unobtained"
proof -
  let ?s = "run_calls [Create True, Lock 0, Yield] (booted 1 1)"
  have r: "reach lib_init lib_step ?s" by (rule reach_booted) code_simp
  have "running_thread ?s = Some 1" "\<not> (status (mutexes ?s ! 0) \<and> occupy_thread (mutexes ?s ! 0) = Some 1)"
    by code_simp+
  from misuse_throws [OF r this] show ?thesis by simp
qed

text \<open>C5. A mutex serves its waiters in order. When the running thread gives it up, by \<open>unlock\<close> or by \<open>wait\<close>, and threads wait
  for it, the first of them leaves the queue, is from then on its owner, and runs or is ready to run. Otherwise nobody leaves the queue. Threads join it
  at its end only.\<close>

theorem mutex_fifo:
  assumes "reach lib_init lib_step s" and "running_thread s = Some t" and "call_ok c s"
    and "m < length (mutexes s)"
  defines "q \<equiv> mutex_queue (mutexes s ! m)" and "s' \<equiv> fst (exec_call c s)"
  shows "if (c = Unlock m \<or> (\<exists>k. c = Wait k m)) \<and> check_ownership m s \<and> q \<noteq> []
    then (\<exists>new. mutex_queue (mutexes s' ! m) = tl q @ new) \<and>
      status (mutexes s' ! m) \<and> occupy_thread (mutexes s' ! m) = Some (hd q) \<and>
      (running_thread s' = Some (hd q) \<or> hd q \<in> set (ready_queue s'))
    else \<exists>new. mutex_queue (mutexes s' ! m) = q @ new"
proof -
  note I = lib.inv_reach [OF assms(1)]
  have queue: "\<exists>new. mutex_queue (mutexes s' ! m) = q @ new" if "(t, m) \<notin> released c s \<or> q = []"
  proof (cases "before_switch t c s")
    case None
    from queue_no_switch [OF assms(2) None assms(4) that [unfolded q_def]] show ?thesis by (simp add: prefix_of_def q_def s'_def)
  next
    case (Some s0)
    note E = exec_switch [OF I assms(2,3) Some]
    from swap_in_served [OF E(2)] obtain j where "served j s0 (swap_in s0)" by blast
    with before_switch_queues [OF assms(2) Some assms(3)] assms(4)
    have "prefix_of (mutex_queue (mutexes s0 ! m)) (mutex_queue (mutexes (swap_in s0) ! m))" by (simp add: served_def)
    from prefix_of_trans [OF queue_before_switch [OF assms(2) Some assms(3,4) that [unfolded q_def]] this] show ?thesis
      by (simp add: prefix_of_def q_def s'_def E(1))
  qed
  have handed: "(\<exists>new. mutex_queue (mutexes s' ! m) = us @ new) \<and> holds_lock s' (u, m) \<and>
      (running_thread s' = Some u \<or> u \<in> set (ready_queue s'))"
    if own: "check_ownership m s" and q: "q = u # us" and c: "c = Unlock m \<or> (\<exists>k. c = Wait k m)" for u us
    using c
  proof
    assume "c = Unlock m"
    then have "s' = interrupt_enable (hand_over m (interrupt_disable s))" using own by (simp add: s'_def mutex_unlock_def)
    with hand_over_served [of "interrupt_disable s" m u us] q assms(4) show ?thesis by (simp add: q_def holds_lock_def)
  next
    assume "\<exists>k. c = Wait k m"
    then obtain k where c: "c = Wait k m" ..
    let ?s1 = "upd_cv k (\<lambda>x. x\<lparr>cv_queue := qpush t (cv_queue x)\<rparr>) (saved t (In_wait m) s)"
    let ?s0 = "hand_over m ?s1"
    have b: "before_switch t c s = Some ?s0" using c own by simp
    note E = exec_switch [OF I assms(2,3) b]
    have "mutex_queue (mutexes ?s1 ! m) = u # us" "m < length (mutexes ?s1)" using q assms(4) by (simp_all add: q_def)
    note H = hand_over_served [OF this]
    have u: "u \<in> set (queue_at s (On_mutex m))" using q assms(4) by (simp add: q_def)
    then have "ucontext (tcbs s ! u) \<in> {In_lock m, In_relock m}"
      using I switch_invD(3) [of s u "On_mutex m"] by (simp add: lib_inv_def)
    moreover have "u \<noteq> t" using I assms(2) u unfolding lib_inv_def absent_def by blast
    ultimately have "\<forall>n. ucontext (tcbs ?s0 ! u) \<noteq> In_wait n" unfolding H(4) by (auto simp: saved_def)
    then have r: "running_thread s' = Some u \<or> u \<in> set (ready_queue s')"
      unfolding s'_def E(1) by (intro swap_in_ready [OF E(2)]) (simp add: H(3))
    from swap_in_served [OF E(2)] obtain j where j: "served j ?s0 (swap_in ?s0)" by blast
    have m: "m < length (mutexes ?s0)" using H(2) by (simp add: holds_lock_def)
    with j have "prefix_of us (mutex_queue (mutexes s' ! m))" unfolding s'_def E(1) H(1) [symmetric] by (simp add: served_def)
    moreover have "holds_lock s' (u, m)"
      using swap_in_holder [OF E(2), of m] H(2) j unfolding s'_def E(1) by (simp add: holds_lock_def served_def)
    ultimately show ?thesis using r by (simp add: prefix_of_def)
  qed
  show ?thesis
  proof (cases "(c = Unlock m \<or> (\<exists>k. c = Wait k m)) \<and> check_ownership m s \<and> q \<noteq> []")
    case True
    then show ?thesis using handed [of "hd q" "tl q"] by (simp add: holds_lock_def)
  next
    case False
    then have "(t, m) \<notin> released c s \<or> q = []" by (auto simp: released_def)
    from queue [OF this] False show ?thesis by auto
  qed
qed

theorem mutex_fifo_witness:
  "mutex_queue (mutexes (fst (exec_call (Unlock 0)
     (run_calls [Create True, Create True, Lock 0, Yield, Lock 0, Lock 0] (booted 1 1)))) ! 0) = [2] \<and>
   1 \<in> set (ready_queue (fst (exec_call (Unlock 0)
     (run_calls [Create True, Create True, Lock 0, Yield, Lock 0, Lock 0] (booted 1 1)))))"
proof -
  let ?s = "run_calls [Create True, Create True, Lock 0, Yield, Lock 0, Lock 0] (booted 1 1)"
  have r: "reach lib_init lib_step ?s" by (rule reach_booted) code_simp
  have q: "running_thread ?s = Some 0" "call_ok (Unlock 0) ?s" "0 < length (mutexes ?s)"
    "mutex_queue (mutexes ?s ! 0) = [1, 2]" "check_ownership 0 ?s" by code_simp+
  have "running_thread (fst (exec_call (Unlock 0) ?s)) = Some 0"
    "length (mutex_queue (mutexes (fst (exec_call (Unlock 0) ?s)) ! 0)) = 1" by code_simp+
  with mutex_fifo [OF r q(1-3)] q(4,5) show ?thesis by (auto simp del: run_calls.simps exec_call.simps)
qed

text \<open>C4. No ready thread starves: whenever the running thread hands the CPU over, a thread at position
  \<open>i\<close> of the ready queue runs, or has moved ahead of position \<open>i\<close>, or (being back from a condition
  variable) queues for its mutex.\<close>

theorem ready_thread_advances:
  assumes "reach lib_init lib_step s" and "running_thread s = Some t" and "call_ok c s"
    and "running_thread (fst (exec_call c s)) \<noteq> Some t" and "i < length (ready_queue s)"
  defines "u \<equiv> ready_queue s ! i" and "s' \<equiv> fst (exec_call c s)"
  shows "running_thread s' = Some u \<or> (\<exists>j < i. j < length (ready_queue s') \<and> ready_queue s' ! j = u)
    \<or> (\<exists>m. u \<in> set (mutex_queue (mutexes s' ! m)))"
proof -
  from exec_no_switch [OF assms(2), of c] assms(4) obtain s0 where s0: "before_switch t c s = Some s0"
    by (cases "before_switch t c s") auto
  note E = exec_switch [OF lib.inv_reach [OF assms(1)] assms(2,3) s0]
  from before_switch_queues [OF assms(2) s0 assms(3)] obtain zs where z: "ready_queue s0 = ready_queue s @ zs"
    by (auto simp: prefix_of_def)
  from swap_in_served [OF E(2)] obtain k where k: "served k s0 s'" unfolding s'_def E(1) by blast
  have u: "ready_queue s0 ! i = u" "i < length (ready_queue s0)"
    using z assms(5) by (simp_all add: u_def nth_append)
  show ?thesis
  proof (cases "i < k")
    case True
    with k u show ?thesis unfolding served_def by blast
  next
    case False
    have "0 < k" "ready_queue s' = drop k (ready_queue s0)" using k u(2) by (auto simp: served_def)
    with False u have "i - k < i" "i - k < length (ready_queue s')" "ready_queue s' ! (i - k) = u" by auto
    then show ?thesis by blast
  qed
qed

theorem ready_thread_advances_witness:
  "running_thread (fst (exec_call Yield (run_calls [Create True] (booted 1 1)))) = Some 1
   \<or> (\<exists>m. 1 \<in> set (mutex_queue (mutexes (fst (exec_call Yield
       (run_calls [Create True] (booted 1 1)))) ! m)))"
proof -
  let ?s = "run_calls [Create True] (booted 1 1)"
  have r: "reach lib_init lib_step ?s" by (rule reach_booted) code_simp
  have q: "running_thread ?s = Some 0" "running_thread (fst (exec_call Yield ?s)) \<noteq> Some 0"
    "0 < length (ready_queue ?s)" "ready_queue ?s ! 0 = 1" by code_simp+
  from ready_thread_advances [OF r q(1) _ q(2,3)] show ?thesis unfolding q(4) by auto
qed

text \<open>C3. The CPU is suspended only when no thread can run: nobody is ready, and every live thread
  waits for a mutex, a condition variable or another thread.\<close>

theorem suspended_only_when_stuck:
  assumes "reach lib_init lib_step s" and "running_thread s = None"
  shows "ready_queue s = [] \<and> (\<forall>t \<in> live s. (\<exists>m. t \<in> set (queue_at s (On_mutex m)))
    \<or> (\<exists>c. t \<in> set (queue_at s (On_cv c))) \<or> (\<exists>u. t \<in> set (queue_at s (On_join u))))"
proof -
  have r: "ready_queue s = []" by (rule suspended_ready [OF assms])
  then show ?thesis using assms(2) parked_somewhere [OF _ r] by (auto simp: live_def)
qed

theorem suspended_only_when_stuck_witness:
  "ready_queue (run_calls [Lock 0, Lock 0] (booted 1 1)) = []"
proof -
  let ?s = "run_calls [Lock 0, Lock 0] (booted 1 1)"
  have r: "reach lib_init lib_step ?s" by (rule reach_booted) code_simp
  have "running_thread ?s = None" by code_simp
  from suspended_only_when_stuck [OF r this] show ?thesis by blast
qed

text \<open>\<open>join\<close> waits exactly for live threads: it returns at once, with no effect, when the thread has
  ended, and a thread parked in a join always waits for one that has not.\<close>

theorem join_waits_for_live:
  assumes "reach lib_init lib_step s" and "running_thread s = Some t" and "u < length (tcbs s)"
  shows "(u \<notin> live s \<longrightarrow> join u s = (s, None)) \<and> (u \<in> live s \<longrightarrow> running_thread (fst (join u s)) \<noteq> Some t)
    \<and> (\<forall>v. queue_at s (On_join v) \<noteq> [] \<longrightarrow> v \<in> live s)"
proof -
  have J: "join_inv_all s" by (rule joins.inv_reach [OF assms(1)])
  then have I: "lib_inv s" by (simp add: join_inv_all_def)
  have prev: "previous_thread (interrupt_disable s) = None" and int: "interrupts s"
    using I by (simp_all add: lib_inv_def)
  have e: "expired (interrupt_disable s) (Some u) \<longleftrightarrow> u \<notin> live s"
    using expired_iff_not_live [OF prev, of u] by (simp add: live_def)
  have "interrupt_enable (interrupt_disable s) = s" using int
    by (simp add: interrupt_enable_def interrupt_disable_def)
  with e assms(2) have ended: "u \<notin> live s \<longrightarrow> join u s = (s, None)" by (simp add: join_def Let_def)
  have blocks: "running_thread (fst (join u s)) \<noteq> Some t" if "u \<in> live s"
  proof
    let ?s0 = "upd_tcb u (\<lambda>x. x\<lparr>join_queue := qpush t (join_queue x)\<rparr>) (saved t In_join s)"
    have b: "before_switch t (Join u) s = Some ?s0" using e that by simp
    have "call_ok (Join u) s" using assms(3) by simp
    note E = exec_switch [OF I assms(2) this b]
    from swap_in_served [OF E(2)] obtain k where k: "served k ?s0 (swap_in ?s0)" by blast
    assume "running_thread (fst (join u s)) = Some t"
    with E(1) have "running_thread (swap_in ?s0) = Some t" by simp
    with k have "0 < k \<and> k \<le> length (ready_queue s) \<and> t = ready_queue s ! (k - 1)"
      by (simp add: served_def)
    then have "k - 1 < length (ready_queue s)" "t = ready_queue s ! (k - 1)" by linarith+
    then have "t \<in> set (queue_at s Ready)" by simp
    with I assms(2) show False unfolding lib_inv_def absent_def by blast
  qed
  have "v \<in> live s" if "queue_at s (On_join v) \<noteq> []" for v
  proof -
    from that have "hd (queue_at s (On_join v)) \<in> set (queue_at s (On_join v))" by (rule hd_in_set)
    with J show ?thesis unfolding join_inv_all_def by blast
  qed
  with ended blocks show ?thesis by blast
qed

theorem join_waits_for_live_witness:
  "join 1 (run_calls [Create True, Yield, Exit] (booted 1 1)) = (run_calls [Create True, Yield, Exit] (booted 1 1), None)"
proof -
  let ?s = "run_calls [Create True, Yield, Exit] (booted 1 1)"
  have r: "reach lib_init lib_step ?s" by (rule reach_booted) code_simp
  have q: "running_thread ?s = Some 0" "1 < length (tcbs ?s)" "expired ?s (Some 1)"
    "previous_thread ?s = None" by code_simp+
  have "1 \<notin> live ?s" using q(3) expired_iff_not_live [OF q(4), of 1] by simp
  with join_waits_for_live [OF r q(1,2)] show ?thesis by blast
qed

end
