(* ===== verification/Thread_Programs.thy ===== *)
theory Thread_Programs imports Thread_Props begin

text \<open>
  Client programs of the thread library, as those of Project2/app.cpp and Project2/test*.cpp: functions made
  of output, counters, loops, calls of the library and calls of each other, run by the threads of the
  library's model. A state has the library's state, a call stack for each thread, and what has been
  printed. Without timer interrupts a program has one run; with them it has one for each choice of the statements before
  which an interrupt comes.
\<close>

section \<open>Statements\<close>

text \<open>
  The global counters that the programs use, the thread objects of a function and the global
  pointers to thread objects. A counter stays far from the bounds of \<open>int\<close>.
\<close>

datatype counter = G | Hg | Counter | Print_num | Print_done | Loop_done

datatype thread_var = T1 | T2 | T3 | T4 | P1 | P2

datatype thread_ptr = Ptr0 | Ptr3 | Ptr4 | Ptr5 | Ptr6

text \<open>
  What \<open>cout\<close> is given: text, the function's argument, its variable \<open>i\<close>, a counter. \<open>Borrowed t s\<close> is the pointer
  \<open>c_str()\<close> of a string object of the function that thread \<open>t\<close> was made with.
\<close>

datatype token = Text string | Num int | Borrowed tid string

datatype item = Lit string | Arg | I | Val counter

datatype cond = I_less int | Less counter int | Equals counter int

text \<open>
  \<open>Try\<close> is a call in a \<open>try\<close> block whose handler prints \<open>e.what()\<close>; \<open>New_thread\<close> defines a local
  thread object; \<open>Call\<close> is the call of another function in the same thread.
\<close>

datatype stmt = Do call | Try call | Print "item list" | Set_i int | Inc_i | Inc counter | Assign counter int
  | While cond "stmt list" | Call "stmt list" token | New_thread thread_var "stmt list" token
  | Join_var thread_var | Join_ptr thread_ptr | Point thread_ptr thread_var | Exit_program

text \<open>\<open>for (i = 0; i < n; i++, step)\<close>\<close>

definition for_loop :: "int \<Rightarrow> stmt list \<Rightarrow> stmt list \<Rightarrow> stmt list" where
  "for_loop n step body = [Set_i 0, While (I_less n) (body @ Inc_i # step)]"

section \<open>States\<close>

record frame =
  arg :: token
  index :: int
  objects :: "(thread_var \<times> tid) list"
  code :: "stmt list"

record program_state =
  lib :: tlib
  stacks :: "frame list list"
  counters :: "counter \<Rightarrow> int"
  pointers :: "thread_ptr \<Rightarrow> tid option"
  destroyed :: "tid list"
  ended :: "tid list"
  printed :: "token list list"

text \<open>
  A thread object is known by the thread it made. A run ends when the CPU is suspended, with \<open>exit\<close>, with an
  exception that nothing catches, or with an access to an object whose lifetime is over. \<open>ended\<close> are the threads that have
  left \<open>starter\<close>.
\<close>

datatype outcome = Runs program_state | Suspended program_state | Exited program_state
  | Uncaught lib_error program_state | Undefined program_state

definition new_frame :: "stmt list \<Rightarrow> token \<Rightarrow> frame" where
  "new_frame c a = \<lparr>arg = a, index = 0, objects = [], code = c\<rparr>"

fun item_token :: "frame \<Rightarrow> program_state \<Rightarrow> item \<Rightarrow> token" where
  "item_token f m (Lit s) = Text s"
| "item_token f m Arg = arg f"
| "item_token f m I = Num (index f)"
| "item_token f m (Val c) = Num (counters m c)"

text \<open>The object of a borrowed string is gone when the function that owns it has returned.\<close>

fun dangling :: "program_state \<Rightarrow> token \<Rightarrow> bool" where
  "dangling m (Borrowed t s) \<longleftrightarrow> stacks m ! t = []"
| "dangling m _ \<longleftrightarrow> False"

fun cond_holds :: "frame \<Rightarrow> program_state \<Rightarrow> cond \<Rightarrow> bool" where
  "cond_holds f m (I_less n) \<longleftrightarrow> index f < n"
| "cond_holds f m (Less c n) \<longleftrightarrow> counters m c < n"
| "cond_holds f m (Equals c n) \<longleftrightarrow> counters m c = n"

fun what :: "lib_error \<Rightarrow> string" where
  "what Unlock_unobtained = ''An error occurred: try to unlock an unobtained lock.''"
| "what Wait_unobtained = ''An error occurred: try to wait on an unobtained lock.''"
| "what Bad_alloc = ''std::bad_alloc''"

definition set_stack :: "tid \<Rightarrow> frame list \<Rightarrow> program_state \<Rightarrow> program_state" where
  "set_stack t fs m = m\<lparr>stacks := (stacks m)[t := fs]\<rparr>"

section \<open>Steps\<close>

text \<open>A call of the library, by a thread whose stack is already the one it returns to.\<close>

definition lib_call :: "call \<Rightarrow> program_state \<Rightarrow> outcome" where
  "lib_call c m = (if \<not> call_ok c (lib m) then Undefined m else
     case exec_call c (lib m) of (s, None) \<Rightarrow> Runs (m\<lparr>lib := s\<rparr>) | (s, Some e) \<Rightarrow> Uncaught e (m\<lparr>lib := s\<rparr>))"

definition print_line :: "token list \<Rightarrow> program_state \<Rightarrow> program_state" where
  "print_line ts m = m\<lparr>printed := printed m @ [ts]\<rparr>"

definition catch :: "outcome \<Rightarrow> outcome" where
  "catch r = (case r of Uncaught e m \<Rightarrow> Runs (print_line [Text (what e)] m) | _ \<Rightarrow> r)"

text \<open>The constructor of \<open>thread\<close>, whose allocations succeed: the new thread will run \<open>c\<close> on its own stack.\<close>

definition new_thread :: "tid \<Rightarrow> frame list \<Rightarrow> frame \<Rightarrow> thread_var \<Rightarrow> stmt list \<Rightarrow> token \<Rightarrow> program_state \<Rightarrow> outcome" where
  "new_thread t fs f x c a m =
     (let u = length (tcbs (lib m));
          m1 = set_stack t (f\<lparr>objects := (x, u) # objects f\<rparr> # fs) m
      in lib_call (Create True) (m1\<lparr>stacks := stacks m1 @ [[new_frame c a]]\<rparr>))"

text \<open>Thread \<open>t\<close> is about to execute the statement; \<open>f\<close> is its frame with the code after the statement.\<close>

fun exec_stmt :: "tid \<Rightarrow> frame list \<Rightarrow> frame \<Rightarrow> stmt \<Rightarrow> program_state \<Rightarrow> outcome" where
  "exec_stmt t fs f (Do c) m = lib_call c (set_stack t (f # fs) m)"
| "exec_stmt t fs f (Try c) m = catch (lib_call c (set_stack t (f # fs) m))"
| "exec_stmt t fs f (Print items) m = (let ts = map (item_token f m) items in
     if list_ex (dangling m) ts then Undefined m else Runs (print_line ts (set_stack t (f # fs) m)))"
| "exec_stmt t fs f (Set_i n) m = Runs (set_stack t (f\<lparr>index := n\<rparr> # fs) m)"
| "exec_stmt t fs f Inc_i m = Runs (set_stack t (f\<lparr>index := index f + 1\<rparr> # fs) m)"
| "exec_stmt t fs f (Inc c) m = Runs ((set_stack t (f # fs) m)\<lparr>counters := (counters m)(c := counters m c + 1)\<rparr>)"
| "exec_stmt t fs f (Assign c n) m = Runs ((set_stack t (f # fs) m)\<lparr>counters := (counters m)(c := n)\<rparr>)"
| "exec_stmt t fs f (While b body) m =
     Runs (set_stack t ((if cond_holds f m b then f\<lparr>code := body @ While b body # code f\<rparr> else f) # fs) m)"
| "exec_stmt t fs f (Call c a) m = Runs (set_stack t (new_frame c a # f # fs) m)"
| "exec_stmt t fs f (New_thread x c a) m = new_thread t fs f x c a m"
| "exec_stmt t fs f (Join_var x) m = (case map_of (objects f) x of
     None \<Rightarrow> Undefined m | Some u \<Rightarrow> lib_call (Join u) (set_stack t (f # fs) m))"
| "exec_stmt t fs f (Join_ptr p) m = (case pointers m p of
     None \<Rightarrow> Undefined m
   | Some u \<Rightarrow> if u \<in> set (destroyed m) then Undefined m else lib_call (Join u) (set_stack t (f # fs) m))"
| "exec_stmt t fs f (Point p x) m = (case map_of (objects f) x of
     None \<Rightarrow> Undefined m | Some u \<Rightarrow> Runs ((set_stack t (f # fs) m)\<lparr>pointers := (pointers m)(p := Some u)\<rparr>))"
| "exec_stmt t fs f Exit_program m = Exited m"

text \<open>A function that returns destroys its thread objects; the return of the first one ends the thread.\<close>

definition program_step :: "program_state \<Rightarrow> outcome" where
  "program_step m = (case running_thread (lib m) of
      None \<Rightarrow> Suspended m
    | Some t \<Rightarrow> (case stacks m ! t of
        [] \<Rightarrow> lib_call Exit (m\<lparr>ended := t # ended m\<rparr>)
      | f # fs \<Rightarrow> (case code f of
          [] \<Rightarrow> Runs ((set_stack t fs m)\<lparr>destroyed := map snd (objects f) @ destroyed m\<rparr>)
        | st # rest \<Rightarrow> exec_stmt t fs (f\<lparr>code := rest\<rparr>) st m)))"

text \<open>A run of at most \<open>n\<close> steps.\<close>

fun run_program :: "nat \<Rightarrow> program_state \<Rightarrow> outcome" where
  "run_program 0 m = Runs m"
| "run_program (Suc n) m = (case program_step m of Runs m' \<Rightarrow> run_program n m' | r \<Rightarrow> r)"

text \<open>
  Timer interrupts. The handler is \<open>thread::yield\<close>, run by the running thread between two of its statements; within the library
  interrupts are disabled, and a suspended CPU ignores them. A schedule says of each step
  whether it is an interrupt.
\<close>

definition preempt :: "program_state \<Rightarrow> outcome" where
  "preempt m = (case running_thread (lib m) of None \<Rightarrow> Suspended m | Some t \<Rightarrow> lib_call Yield m)"

fun run_schedule :: "bool list \<Rightarrow> program_state \<Rightarrow> outcome" where
  "run_schedule [] m = Runs m"
| "run_schedule (b # bs) m = (case (if b then preempt m else program_step m) of Runs m' \<Rightarrow> run_schedule bs m' | r \<Rightarrow> r)"

lemma run_program_schedule: "run_program n m = run_schedule (replicate n False) m"
  by (induction n arbitrary: m) (simp_all split: outcome.split)

text \<open>\<open>cpu::boot(1, parent, a, false, false, 0)\<close> in a program with \<open>nm\<close> mutexes and \<open>nc\<close> condition variables.\<close>

definition boot_program :: "nat \<Rightarrow> nat \<Rightarrow> stmt list \<Rightarrow> token \<Rightarrow> program_state" where
  "boot_program nm nc parent a = \<lparr>lib = booted nm nc, stacks = [[new_frame parent a]], counters = (\<lambda>_. 0),
     pointers = (\<lambda>_. None), destroyed = [], ended = [], printed = []\<rparr>"

end
