(* ===== verification/Thread_Tests.thy ===== *)
theory Thread_Tests imports Thread_Programs begin

text \<open>
  The test programs of Project2, function by function. All boot one CPU, app.cpp and test15.cpp with timer interrupts. Mutexes and condition
  variables are numbered as the program declares them: \<open>mutex1\<close> is 0, \<open>mutex2\<close> is 1, \<open>cv1\<close> is 0.
\<close>

definition colon_tab :: string where "colon_tab = '':'' @ [CHR 0x09]"
definition tab :: string where "tab = [CHR 0x09]"

text \<open>The lines that most of the programs print.\<close>

definition called :: "item list" where "called = [Lit ''loop called with id '', Arg]"
definition counts :: "item list" where "counts = [Arg, Lit colon_tab, I, Lit tab, Val G]"
definition counts_hg :: "item list" where "counts_hg = counts @ [Lit '' hg:'', Val Hg]"
definition g_line :: "item list" where "g_line = [Arg, Lit tab, Val G]"
definition parent_called :: "stmt list" where
  "parent_called = [Do (Lock 0), Print [Lit ''parent called with arg '', Arg], Do (Unlock 0)]"

lemmas print_items = colon_tab_def tab_def called_def counts_def counts_hg_def g_line_def parent_called_def for_loop_def

section \<open>test1.cpp\<close>

definition test1_loop :: "stmt list" where
  "test1_loop = [Do (Lock 0), Print called] @ for_loop 5 [Inc G] [Print counts, Do (Unlock 0), Do Yield, Do (Lock 0)] @ [Print counts, Do (Unlock 0)]"

definition test1_parent :: "stmt list" where
  "test1_parent = parent_called @ [New_thread T1 test1_loop (Text ''child thread''), New_thread T2 test1_loop (Text ''child thread''), Join_var T1, Join_var T2,
     Print [Lit ''hh2''], Call test1_loop (Text ''parent thread'')]"

definition test1 :: program_state where
  "test1 = boot_program 1 0 test1_parent (Num 100)"

lemmas test1_code = test1_def test1_loop_def test1_parent_def

section \<open>test2.cpp\<close>

definition test2_loop :: "stmt list" where
  "test2_loop = [Do (Lock 0), Print called] @ for_loop 5 [Inc G] [Print counts, Do (Unlock 0), Do Yield, Do (Lock 0)] @ [Print counts, Do (Unlock 0)]"

definition test2_parent :: "stmt list" where
  "test2_parent = [Print [Lit ''hhh0''], New_thread T1 test2_loop (Text ''child thread''), Print [Lit ''hhh1''], Join_var T1, Print [Lit ''hhh''],
     Call test2_loop (Text ''parent thread''), Do (Lock 1)]"

definition test2 :: program_state where
  "test2 = boot_program 2 1 test2_parent (Num 100)"

lemmas test2_code = test2_def test2_loop_def test2_parent_def

section \<open>test3.cpp\<close>

definition test3_loop1 :: "stmt list" where
  "test3_loop1 = [Do (Lock 0), Print called, Inc G, Print g_line, Inc G, Do (Wait 0 0), Do Yield, Print g_line, Do (Unlock 0)]"

definition test3_loop2 :: "stmt list" where
  "test3_loop2 = [Do (Lock 0), Print called, Do (Wait 0 0), Inc G, Print g_line, Do Yield, Inc G, Print g_line, Do Yield,
     Inc G, Print g_line, Do (Unlock 0)]"

definition test3_loop3 :: "stmt list" where
  "test3_loop3 = [Do (Lock 0), Print called, Inc G, Print g_line, Do (Broadcast 0), Inc G, Print g_line, Do (Unlock 0)]"

definition test3_parent :: "stmt list" where
  "test3_parent = parent_called @ [New_thread T1 test3_loop1 (Text ''child thread1''), New_thread T2 test3_loop2 (Text ''child thread2''), New_thread T3 test3_loop3 (Text ''child thread3''),
     Print [Lit ''hh2'']]"

definition test3 :: program_state where
  "test3 = boot_program 1 1 test3_parent (Num 100)"

lemmas test3_code = test3_def test3_loop1_def test3_loop2_def test3_loop3_def test3_parent_def

section \<open>test4.cpp\<close>

definition test4_loop :: "stmt list" where
  "test4_loop = [Print called, Join_ptr Ptr4, Print [Lit ''loop1 called with id '', Arg]]"

definition test4_loop1 :: "stmt list" where
  "test4_loop1 = [Print called, Join_ptr Ptr5, Print [Lit ''loop1 called with id '', Arg]]"

definition test4_loop2 :: "stmt list" where
  "test4_loop2 = [Print called, Join_ptr Ptr6, Print [Lit ''loop1 called with id '', Arg]]"

definition test4_loop3 :: "stmt list" where
  "test4_loop3 = [Do Yield, Print called, Do Yield, Print called, Do Yield, Print called]"

definition test4_parent :: "stmt list" where
  "test4_parent = parent_called @ [New_thread T1 test4_loop1 (Text ''child thread1''), New_thread T2 test4_loop2 (Text ''child thread2''), New_thread T3 test4_loop3 (Text ''child thread3''),
     Point Ptr4 T1, Point Ptr5 T2, Point Ptr6 T3, Print [Lit ''loop called with id hh1''], Do Yield,
     Print [Lit ''loop called with id hh''], Call test4_loop (Text ''parent thread''), Print [Lit ''parent called with arg '', Arg]]"

definition test4 :: program_state where
  "test4 = boot_program 1 1 test4_parent (Num 100)"

lemmas test4_code = test4_def test4_loop_def test4_loop1_def test4_loop2_def test4_loop3_def test4_parent_def

section \<open>test5.cpp\<close>

definition test5_loop :: "stmt list" where
  "test5_loop = [Do (Lock 0), Print [Lit ''loop0 called with id '', Arg], Join_ptr Ptr0] @ for_loop 5 [Inc G] [Print counts, Do (Unlock 0), Do Yield, Do (Lock 0)] @ [Print counts, Do (Unlock 0)]"

definition test5_loop1 :: "stmt list" where
  "test5_loop1 = [Do (Lock 0), Print called] @ for_loop 5 [Inc G] [Print counts, Do (Unlock 0), Do Yield, Do (Lock 0)] @ [Print counts, Do (Unlock 0)]"

definition test5_parent :: "stmt list" where
  "test5_parent = [Do (Lock 0), Print [Lit ''parent called with arg '', Arg], New_thread T1 test5_loop1 (Text ''child thread1''), Point Ptr0 T1, Do (Unlock 0),
     New_thread T2 test5_loop (Text ''child thread2''), New_thread T3 test5_loop (Text ''child thread3''), Join_var T2, Join_var T3, Print [Lit ''hh2''],
     Call test5_loop (Text ''parent thread'')]"

definition test5 :: program_state where
  "test5 = boot_program 1 0 test5_parent (Num 100)"

lemmas test5_code = test5_def test5_loop_def test5_loop1_def test5_parent_def

section \<open>test6.cpp\<close>

definition test6_loop1 :: "stmt list" where
  "test6_loop1 = [Do (Lock 0), Print [Lit ''loop1 called with id '', Arg], Join_ptr Ptr4] @ for_loop 5 [Inc G] [Print counts, Do (Unlock 0), Do Yield, Do (Lock 0)] @ [Print counts, Do (Unlock 0)]"

definition test6_loop2 :: "stmt list" where
  "test6_loop2 = [Do (Lock 0), Print [Lit ''loop2 called with id '', Arg], Join_ptr Ptr3] @ for_loop 5 [Inc G] [Print counts, Do (Unlock 0), Do Yield, Do (Lock 0)] @ [Print counts, Do (Unlock 0)]"

definition test6_parent :: "stmt list" where
  "test6_parent = [Do (Lock 0), Print [Lit ''parent called with arg '', Arg], New_thread T1 test6_loop1 (Text ''child thread1''), Point Ptr3 T1,
     New_thread T2 test6_loop2 (Text ''child thread2''), Point Ptr4 T2, Do (Unlock 0), Print [Lit ''hh2'']]"

definition test6 :: program_state where
  "test6 = boot_program 1 0 test6_parent (Num 100)"

lemmas test6_code = test6_def test6_loop1_def test6_loop2_def test6_parent_def

section \<open>test7.cpp\<close>

definition test7_loop :: "stmt list" where
  "test7_loop = [Do (Lock 0), Print called] @ for_loop 5 [Inc G] [Print counts, Do (Unlock 0), Do Yield, Do (Lock 0)] @ [Print counts, Do (Unlock 0)]"

definition test7_parent :: "stmt list" where
  "test7_parent = parent_called @ [New_thread T1 test7_loop (Text ''child thread1''), New_thread T2 test7_loop (Text ''child thread2''), Join_var T1,
     Call test7_loop (Text ''parent thread''), Join_var T1]"

definition test7 :: program_state where
  "test7 = boot_program 1 1 test7_parent (Num 100)"

lemmas test7_code = test7_def test7_loop_def test7_parent_def

section \<open>test8.cpp\<close>

definition test8_loop1 :: "stmt list" where
  "test8_loop1 = [Do (Lock 0), Print called, Do (Wait 0 0), Print called] @ for_loop 5 [Inc G] [Print counts, Do (Unlock 0), Do Yield, Do (Lock 0)] @ [Print counts, Do (Unlock 0)]"

definition test8_loop2 :: "stmt list" where
  "test8_loop2 = [Do (Lock 1), Print called, Do (Wait 0 1), Print called] @ for_loop 5 [Inc G] [Print counts, Do (Unlock 1), Do Yield, Do (Lock 1)] @ [Print counts, Do (Unlock 1)]"

definition test8_parent :: "stmt list" where
  "test8_parent = parent_called @ [New_thread T1 test8_loop1 (Text ''child thread1''), New_thread T2 test8_loop2 (Text ''child thread2''), Do Yield, Do (Broadcast 0)]"

definition test8 :: program_state where
  "test8 = boot_program 2 1 test8_parent (Num 100)"

lemmas test8_code = test8_def test8_loop1_def test8_loop2_def test8_parent_def

section \<open>test9.cpp\<close>

definition test9_loop :: "stmt list" where
  "test9_loop = [Do (Lock 0), Print called] @ for_loop 5 [Inc G] [While (Less Hg 3) [Do (Wait 0 0)], Print counts_hg, Inc Hg, Do (Signal 0)] @
     [Print counts, Do (Unlock 0)]"

definition test9_loop1 :: "stmt list" where
  "test9_loop1 = [Do (Lock 0), Print called] @ for_loop 5 [Inc G] [Print counts_hg, Inc Hg, Do (Unlock 0), Do Yield, Do (Lock 0), Do (Signal 0)] @
     [Print counts, Do (Unlock 0)]"

definition test9_parent :: "stmt list" where
  "test9_parent = parent_called @ [New_thread T1 test9_loop (Text ''child thread1''), New_thread T2 test9_loop (Text ''child thread2''), Call test9_loop1 (Text ''parent thread'')]"

definition test9 :: program_state where
  "test9 = boot_program 1 1 test9_parent (Num 100)"

lemmas test9_code = test9_def test9_loop_def test9_loop1_def test9_parent_def

section \<open>test10.cpp\<close>

definition test10_loop :: "stmt list" where
  "test10_loop = [Do (Lock 1), Print called] @ for_loop 5 [Inc G] [Print counts, Do Yield, Do (Wait 0 1), Assign Print_num 0,
     Do (Unlock 1), Do (Lock 1)] @ [Print counts, Do (Unlock 1)]"

definition test10_print1 :: "stmt list" where
  "test10_print1 = for_loop 3 [] [Do (Lock 0), Print [Lit ''EECS''], Inc Print_num, Do Yield, Do (Unlock 0)]"

definition test10_print2 :: "stmt list" where
  "test10_print2 = for_loop 3 [] [Do (Lock 1), Print [Lit ''482''], Inc Print_num, Do (Unlock 1)] @ [Do (Signal 0)]"

definition test10_parent :: "stmt list" where
  "test10_parent = parent_called @ [New_thread P1 test10_loop (Text ''child thread''), New_thread P2 test10_print2 (Text []), Call test10_print1 (Text [])]"

definition test10 :: program_state where
  "test10 = boot_program 2 1 test10_parent (Num 100)"

lemmas test10_code = test10_def test10_loop_def test10_print1_def test10_print2_def test10_parent_def

section \<open>test11.cpp\<close>

definition test11_loop1 :: "stmt list" where
  "test11_loop1 = [Do (Lock 0), Print [Lit ''loop1 called with id '', Arg], Do (Wait 0 0), Join_ptr Ptr4] @ for_loop 5 [Inc G] [Print counts, Do (Unlock 0), Do Yield, Do (Lock 0)] @ [Print counts, Do (Unlock 0)]"

definition test11_loop2 :: "stmt list" where
  "test11_loop2 = [Do (Lock 0), Do (Signal 0), Print [Lit ''loop2 called with id '', Arg], Do Yield] @ for_loop 5 [Inc G] [Print counts, Do (Unlock 0), Do Yield, Do (Lock 0)] @ [Print counts, Do (Unlock 0)]"

definition test11_parent :: "stmt list" where
  "test11_parent = [Do (Lock 0), Print [Lit ''parent called with arg '', Arg], New_thread T1 test11_loop1 (Text ''child thread1''), Point Ptr3 T1,
     New_thread T2 test11_loop2 (Text ''child thread2''), Point Ptr4 T2, Do (Unlock 0), Print [Lit ''hh2''], Join_ptr Ptr3, Print [Lit ''hh3'']]"

definition test11 :: program_state where
  "test11 = boot_program 1 1 test11_parent (Num 100)"

lemmas test11_code = test11_def test11_loop1_def test11_loop2_def test11_parent_def

section \<open>test12.cpp\<close>

definition test12_loop :: "stmt list" where
  "test12_loop = [Do (Lock 0), Print called] @ for_loop 5 [Inc G] [While (Equals Print_done 0) [Do (Wait 0 0)], Assign Print_done 0,
     Print counts, Do (Unlock 0), Do (Lock 0)] @ [Print counts, Inc Loop_done, Do (Unlock 0), Print [Arg, Lit '' loop done.'']]"

definition test12_print :: "stmt list" where
  "test12_print = [While (Less Loop_done 2) [Do (Lock 0), Print [Lit ''EECS482''], Assign Print_done 1, Do (Unlock 0), Do (Broadcast 0),
     Do Yield], Print [Lit ''Print done.'']]"

definition test12_caller2 :: "stmt list" where
  "test12_caller2 = [New_thread T3 test12_print (Text [])]"

definition test12_caller1 :: "stmt list" where
  "test12_caller1 = [New_thread T2 test12_print (Text []), Call test12_caller2 (Text []), New_thread T1 test12_loop (Text ''child thread'')]"

definition test12_parent :: "stmt list" where
  "test12_parent = parent_called @ [Call test12_caller1 (Text []), Call test12_loop (Text ''parent thread''), Print [Lit ''Parent done.'']]"

definition test12 :: program_state where
  "test12 = boot_program 1 2 test12_parent (Num 100)"

lemmas test12_code = test12_def test12_loop_def test12_print_def test12_caller2_def test12_caller1_def test12_parent_def

section \<open>test13.cpp\<close>

definition test13_parent :: "stmt list" where
  "test13_parent = [Try (Wait 0 0), Exit_program]"

definition test13 :: program_state where
  "test13 = boot_program 1 1 test13_parent (Num 100)"

lemmas test13_code = test13_def test13_parent_def

section \<open>test14.cpp\<close>

definition test14_parent :: "stmt list" where
  "test14_parent = [Try (Unlock 0)]"

definition test14 :: program_state where
  "test14 = boot_program 1 1 test14_parent (Num 100)"

lemmas test14_code = test14_def test14_parent_def

section \<open>test16.cpp\<close>

definition test16_loop :: "stmt list" where
  "test16_loop = [Do (Lock 0), Print called] @ for_loop 5 [Inc G] [Print counts, Do (Unlock 0), Do Yield, Do (Lock 0)] @ [Print counts, Do (Unlock 0)]"

definition test16_loop1 :: "stmt list" where
  "test16_loop1 = [Inc G, Do (Lock 0), Print (called @ [Val G]), Do Yield, Inc G, Print (called @ [Val G]), Do (Unlock 0)]"

definition test16_loop2 :: "stmt list" where
  "test16_loop2 = [Inc G, Do (Lock 0), Print (called @ [Val G]), Do (Wait 0 0), Inc G, Print (called @ [Val G]), Do (Unlock 0)]"

definition test16_loop3 :: "stmt list" where
  "test16_loop3 = [Inc G, Do (Lock 0), Print (called @ [Val G]), Do (Broadcast 0), Inc G, Print (called @ [Val G]), Do Yield, Inc G, Print (called @ [Val G]), Do (Unlock 0)]"

definition test16_parent :: "stmt list" where
  "test16_parent = parent_called @ [New_thread T1 test16_loop1 (Text ''child thread1''), New_thread T2 test16_loop2 (Text ''child thread2''), New_thread T3 test16_loop3 (Text ''child thread3''),
     Do Yield, Do Yield, Do Yield, Call test16_loop (Text ''parent thread'')]"

definition test16 :: program_state where
  "test16 = boot_program 1 1 test16_parent (Num 100)"

lemmas test16_code = test16_def test16_loop_def test16_loop1_def test16_loop2_def test16_loop3_def test16_parent_def

section \<open>test17.cpp\<close>

definition test17_loop :: "stmt list" where
  "test17_loop = [Set_i 0, Do (Lock 0), Inc G, Print called, Inc G, Print called, Do (Wait 0 0), Inc G, Print counts, Do (Signal 0), Inc G,
     Print counts, Do (Unlock 0)]"

definition test17_parent :: "stmt list" where
  "test17_parent = parent_called @ [New_thread T1 test17_loop (Text ''child thread1''), New_thread T2 test17_loop (Text ''child thread2''), Do Yield, Do (Signal 0), Do (Lock 0),
     Do (Wait 0 0), Do (Unlock 0), Inc G, Print [Lit (''p'' @ colon_tab), Val G], Do (Broadcast 0), Call test17_loop (Text ''parent thread'')]"

definition test17 :: program_state where
  "test17 = boot_program 1 1 test17_parent (Num 100)"

lemmas test17_code = test17_def test17_loop_def test17_parent_def

section \<open>test18.cpp\<close>

definition test18_loop :: "stmt list" where
  "test18_loop = [Do (Lock 0), Do (Lock 1), Print called, Do (Broadcast 0)] @ for_loop 5 [Inc G] [Print counts, Do (Unlock 1), Inc G, Do Yield,
     Do (Lock 1), Do (Unlock 0), Inc G, Do Yield, Do (Lock 0)] @ [Print counts, Do (Lock 1), Do (Unlock 0)]"

definition test18_loop1 :: "stmt list" where
  "test18_loop1 = [Do (Lock 0), Print called, While (Equals G 0) [Do (Wait 0 0)]] @
     for_loop 3 [Inc G] [Print counts, Do (Unlock 0), Do Yield, Do (Lock 0)] @ [Print counts, Do (Unlock 0)]"

definition test18_loop2 :: "stmt list" where
  "test18_loop2 = [Do (Lock 1), Print called, While (Equals G 0) [Do (Wait 0 1)]] @
     for_loop 3 [Inc G] [Print counts, Do (Unlock 1), Do Yield, Do (Lock 1)] @ [Print counts, Do (Unlock 1)]"

definition test18_parent :: "stmt list" where
  "test18_parent = [New_thread T1 test18_loop1 (Text ''child thread1''), New_thread T2 test18_loop2 (Text ''child thread2''), Call test18_loop (Text ''parent thread'')]"

definition test18 :: program_state where
  "test18 = boot_program 2 1 test18_parent (Num 100)"

lemmas test18_code = test18_def test18_loop_def test18_loop1_def test18_loop2_def test18_parent_def

section \<open>test19.cpp\<close>

text \<open>The threads get \<open>c_str()\<close> of the parent's strings. The loop that makes five threads is unrolled.\<close>

definition test19_loop :: "stmt list" where
  "test19_loop = [Do (Lock 0), Print called] @ for_loop 5 [Inc G] [While (Less Hg 3) [Do (Wait 0 0)], Print counts_hg, Inc Hg, Do (Signal 0)] @
     [Print counts, Do (Unlock 0)]"

definition test19_loop1 :: "stmt list" where
  "test19_loop1 = [Do (Lock 0), Print called] @ for_loop 5 [Inc G] [Print counts_hg, Inc Hg, Do (Unlock 0), Do Yield, Do (Lock 0), Do (Signal 0)] @
     [Print counts, Do (Unlock 0)]"

definition test19_parent :: "stmt list" where
  "test19_parent = parent_called @
     map (\<lambda>name. New_thread T1 test19_loop (Borrowed 0 name)) [''child thread0'', ''child thread1'', ''child thread2'', ''child thread3'', ''child thread4''] @
     [New_thread T2 test19_loop (Text ''child thread2''), Call test19_loop1 (Text ''parent thread'')]"

definition test19 :: program_state where
  "test19 = boot_program 1 1 test19_parent (Num 100)"

lemmas test19_code = test19_def test19_loop_def test19_loop1_def test19_parent_def

section \<open>test20.cpp\<close>

definition test20_loop :: "stmt list" where
  "test20_loop = [Set_i 0, Do (Lock 0), Inc G, Print called, Do (Signal 0), Inc G, Print called, Do (Wait 0 0), Inc G, Print counts,
     Do (Signal 0), Inc G, Print counts, Do (Unlock 0)]"

definition test20_parent :: "stmt list" where
  "test20_parent = parent_called @ [New_thread T1 test20_loop (Text ''child thread1''), New_thread T2 test20_loop (Text ''child thread2''), Do (Lock 0), Do (Wait 0 0),
     Do (Unlock 0), Inc G, Print [Lit (''p'' @ colon_tab), Val G], Do (Signal 0), Call test20_loop (Text ''parent thread'')]"

definition test20 :: program_state where
  "test20 = boot_program 1 1 test20_parent (Num 100)"

lemmas test20_code = test20_def test20_loop_def test20_parent_def

section \<open>test21.cpp\<close>

definition test21_loop1 :: "stmt list" where
  "test21_loop1 = [Do (Lock 0), Print [Lit ''loop1 called with id '', Arg], Do (Unlock 0), Join_ptr Ptr4, Do (Lock 0)] @ for_loop 5 [Inc G] [Print counts, Do (Unlock 0), Do Yield, Do (Lock 0)] @ [Print counts, Do (Unlock 0)]"

definition test21_loop2 :: "stmt list" where
  "test21_loop2 = [Do (Lock 0), Print [Lit ''loop2 called with id '', Arg], Do Yield] @ for_loop 5 [Inc G] [Print counts, Do (Unlock 0), Do Yield, Do (Lock 0)] @ [Print counts, Do (Unlock 0)]"

definition test21_parent :: "stmt list" where
  "test21_parent = [Do (Lock 0), Print [Lit ''parent called with arg '', Arg], New_thread T1 test21_loop1 (Text ''child thread1''), Point Ptr3 T1,
     New_thread T2 test21_loop2 (Text ''child thread2''), Point Ptr4 T2, Do (Unlock 0), Print [Lit ''hh2''], Join_ptr Ptr3, Print [Lit ''hh3'']]"

definition test21 :: program_state where
  "test21 = boot_program 1 0 test21_parent (Num 100)"

lemmas test21_code = test21_def test21_loop1_def test21_loop2_def test21_parent_def

section \<open>app.cpp\<close>

definition app_loop1 :: "stmt list" where
  "app_loop1 = [Do (Lock 0), Print called] @ for_loop 5 [Inc G] [Print counts, Do (Unlock 0), Do Yield, Do (Lock 0)] @ [Print counts, Do (Unlock 0)]"

definition app_loop :: "stmt list" where
  "app_loop = [Do (Lock 0), Print called, New_thread T1 app_loop1 (Text ''child thread1'')] @
     for_loop 2 [Inc G] [Print counts, Do (Unlock 0), Join_var T1, Print [Lit ''11''], Do Yield, Print [Lit ''22''], Do (Lock 0)] @
     [Print counts, Do (Unlock 0)]"

definition app_parent :: "stmt list" where
  "app_parent = parent_called @ [New_thread T1 app_loop (Text ''child thread0''), Join_var T1, Print [Lit ''hh2''], Call app_loop (Text ''parent thread'')]"

definition app :: program_state where
  "app = boot_program 1 0 app_parent (Num 100)"

lemmas app_code = app_def app_loop_def app_loop1_def app_parent_def

section \<open>test15.cpp\<close>

definition test15_child :: "stmt list" where
  "test15_child = [Print [Lit ''child called''], Do (Unlock 0), Print [Lit ''child successfully unlock without lock'']]"

definition test15_ready :: "stmt list" where
  "test15_ready = [Print [Lit ''ready called''], Do (Lock 0), Print [Arg, Lit ''ready lock without unlock '', Val Counter]]"

definition test15_parent :: "stmt list" where
  "test15_parent = [Print [Lit ''parent called''], New_thread T1 test15_ready (Text ''ready''), Join_var T1,
     New_thread T2 test15_child (Borrowed 0 ''thread 0''), Print [Lit ''parent finish'', Val Counter]]"

definition test15 :: program_state where
  "test15 = boot_program 1 1 test15_parent (Num 0)"

lemmas test15_code = test15_def test15_child_def test15_ready_def test15_parent_def

end
