(* ===== verification/Thread_Runs.thy ===== *)
theory Thread_Runs imports Thread_Tests begin

text \<open>
  What runs of client programs show: they are runs of the library, a thread is alive exactly while one of
  its functions has not returned, and how the test programs end. A check of a program's text shows that it never misuses a mutex, and nearly all
  test programs pass it.
\<close>

section \<open>Programs run on the library\<close>

lemma length_drain [simp]: "length (tcbs (drain ts s)) = length (tcbs s)"
  by (simp add: drain_eq)

lemma length_swap_in [simp]: "length (tcbs (swap_in s)) = length (tcbs s)"
proof (induction s rule: swap_in.induct)
  case (1 s)
  then show ?case
    by (subst swap_in.simps) (simp add: host_return_def Let_def split: list.split resume.split)
qed

lemma length_swap_helper [simp]: "length (tcbs (swap_helper r s)) = length (tcbs s)"
  by (simp add: swap_helper_def split: option.split)

lemma length_hand_over [simp]: "length (tcbs (hand_over m s)) = length (tcbs s)"
  by (simp add: hand_over_def split: list.split)

lemma length_tcbs:
  "length (tcbs (fst (exec_call c s))) = (if c = Create True then Suc (length (tcbs s)) else length (tcbs s))"
  by (cases c) (auto simp: thread_ctor_def create_tcb_def yield_def join_def starter_exit_def mutex_lock_def mutex_unlock_def
      cv_wait_def cv_signal_def cv_broadcast_def host_return_def Let_def split: option.split list.split)

text \<open>The threads that are alive: those that have not ended, and only a thread without functions to run has.\<close>

definition alive :: "program_state \<Rightarrow> tid set" where
  "alive m = {t. t < length (stacks m) \<and> t \<notin> set (ended m)}"

definition program_ok :: "program_state \<Rightarrow> bool" where
  "program_ok m \<longleftrightarrow> reach lib_init lib_step (lib m) \<and> length (stacks m) = length (tcbs (lib m)) \<and> live (lib m) = alive m \<and>
     (\<forall>t \<in> set (ended m). t < length (stacks m) \<and> stacks m ! t = [])"

fun state_of :: "outcome \<Rightarrow> program_state" where
  "state_of (Runs m) = m"
| "state_of (Suspended m) = m"
| "state_of (Exited m) = m"
| "state_of (Uncaught e m) = m"
| "state_of (Undefined m) = m"

lemma program_ok_running:
  assumes "program_ok m" "running_thread (lib m) = Some t"
  shows "lib_inv (lib m)" "t < length (stacks m)" "t \<notin> set (ended m)"
proof -
  show "lib_inv (lib m)" "t < length (stacks m)"
    using lib.inv_reach [of "lib m"] assms by (auto simp: program_ok_def lib_inv_def)
  have "t \<in> live (lib m)" using assms(2) by (simp add: live_def)
  then show "t \<notin> set (ended m)" using assms(1) by (simp add: program_ok_def alive_def)
qed

lemma program_ok_fields [simp]:
  "program_ok (m\<lparr>counters := c\<rparr>) = program_ok m" "program_ok (m\<lparr>pointers := p\<rparr>) = program_ok m"
  "program_ok (m\<lparr>destroyed := d\<rparr>) = program_ok m" "program_ok (print_line ts m) = program_ok m"
  by (simp_all add: program_ok_def alive_def print_line_def)

text \<open>The running thread may rearrange its own stack.\<close>

lemma set_stack_fields [simp]:
  "lib (set_stack t fs m) = lib m" "length (stacks (set_stack t fs m)) = length (stacks m)" "ended (set_stack t fs m) = ended m"
  by (simp_all add: set_stack_def)

lemma program_ok_stack: "program_ok m \<Longrightarrow> running_thread (lib m) = Some t \<Longrightarrow> program_ok (set_stack t fs m)"
  using program_ok_running(3) [of m t] by (auto simp: program_ok_def alive_def set_stack_def) (metis nth_list_update_neq)

lemma lib_call_state: "lib (state_of (lib_call c m)) = (if call_ok c (lib m) then fst (exec_call c (lib m)) else lib m)"
  "stacks (state_of (lib_call c m)) = stacks m" "ended (state_of (lib_call c m)) = ended m"
  by (auto simp: lib_call_def split: prod.split option.split)

lemma lib_call_live:
  assumes ok: "program_ok m" and t: "running_thread (lib m) = Some t" and c: "\<forall>b. c \<noteq> Create b" "call_ok c (lib m)"
  shows "reach lib_init lib_step (fst (exec_call c (lib m)))" "length (tcbs (fst (exec_call c (lib m)))) = length (stacks m)"
    "live (fst (exec_call c (lib m))) = (if c = Exit then alive m - {t} else alive m)"
proof -
  let ?s = "fst (exec_call c (lib m))"
  have "lib_step (lib m) ?s" using t c(2) by (intro lib_stepI) simp_all
  with ok show "reach lib_init lib_step ?s" by (auto simp: program_ok_def intro: reach_step)
  show "length (tcbs ?s) = length (stacks m)" using ok c(1) by (simp add: length_tcbs program_ok_def)
  have "live ?s = live_after c (lib m)" by (rule live_exec [OF program_ok_running(1) [OF ok t] t c(2)])
  also have "\<dots> = (if c = Exit then live (lib m) - {t} else live (lib m))" using c(1) t by (cases c) auto
  finally show "live ?s = (if c = Exit then alive m - {t} else alive m)" using ok by (simp add: program_ok_def)
qed

lemma lib_call_ok:
  assumes ok: "program_ok m" and t: "running_thread (lib m) = Some t" and c: "\<forall>b. c \<noteq> Create b" "c \<noteq> Exit"
  shows "program_ok (state_of (lib_call c m))"
proof (cases "call_ok c (lib m)")
  case False
  then have "state_of (lib_call c m) = m" by (simp add: lib_call_def)
  with ok show ?thesis by simp
next
  case True
  note l = lib_call_live [OF ok t c(1) True]
  have "alive (state_of (lib_call c m)) = alive m" by (simp add: alive_def lib_call_state)
  with l c(2) True ok show ?thesis by (auto simp: program_ok_def lib_call_state)
qed

text \<open>The end of a thread.\<close>

lemma exit_ok:
  assumes ok: "program_ok m" and t: "running_thread (lib m) = Some t" and st: "stacks m ! t = []"
  shows "program_ok (state_of (lib_call Exit (m\<lparr>ended := t # ended m\<rparr>)))"
proof -
  let ?m = "m\<lparr>ended := t # ended m\<rparr>"
  have e: "call_ok Exit (lib m)" by simp
  have l: "reach lib_init lib_step (fst (exec_call Exit (lib m)))"
    "length (tcbs (fst (exec_call Exit (lib m)))) = length (stacks m)" "live (fst (exec_call Exit (lib m))) = alive m - {t}"
    using lib_call_live [OF ok t _ e] by simp_all
  have "alive (state_of (lib_call Exit ?m)) = alive m - {t}" by (auto simp: alive_def lib_call_state)
  with l ok st program_ok_running(2) [OF ok t] show ?thesis by (auto simp: program_ok_def lib_call_state)
qed

lemma lib_call_framed:
  assumes "program_ok m" "running_thread (lib m) = Some t" "\<forall>b. c \<noteq> Create b" "c \<noteq> Exit"
  shows "program_ok (state_of (lib_call c (set_stack t (f # fs) m)))"
  using assms by (intro lib_call_ok [of _ t]) (simp_all add: program_ok_stack)

lemma new_thread_ok:
  assumes ok: "program_ok m" and t: "running_thread (lib m) = Some t"
  shows "program_ok (state_of (new_thread t fs f x c a m))"
proof -
  let ?u = "length (tcbs (lib m))" and ?s = "fst (exec_call (Create True) (lib m))"
  let ?m = "state_of (new_thread t fs f x c a m)"
  let ?st = "(stacks m)[t := f\<lparr>objects := (x, ?u) # objects f\<rparr> # fs] @ [[new_frame c a]]"
  have l: "lib ?m = ?s" "stacks ?m = ?st" by (simp_all add: new_thread_def Let_def lib_call_state set_stack_def)
  have "lib_step (lib m) ?s" using t by (intro lib_stepI [of _ "Create True"]) simp_all
  with ok have r: "reach lib_init lib_step ?s" by (auto simp: program_ok_def intro: reach_step)
  have "live ?s = insert ?u (live (lib m))" using live_exec [OF program_ok_running(1) [OF ok t] t, of "Create True"] by simp
  moreover have lv: "live (lib m) = alive m" and u: "?u = length (stacks m)" using ok by (simp_all add: program_ok_def)
  note len = program_ok_running(2,3) [OF ok t]
  have e: "\<forall>v \<in> set (ended m). v < length (stacks m) \<and> stacks m ! v = []" using ok unfolding program_ok_def by blast
  have le: "ended ?m = ended m" by (simp add: new_thread_def Let_def lib_call_state)
  have "alive ?m = insert (length (stacks m)) (alive m)" using e by (auto simp: alive_def l le)
  ultimately have "live ?s = alive ?m" unfolding lv u by simp
  moreover have "length ?st = length (tcbs ?s)" using ok length_tcbs [of "Create True" "lib m"] by (simp add: program_ok_def)
  moreover have "\<forall>v \<in> set (ended m). v < length ?st \<and> ?st ! v = []" using e len by (auto simp: nth_append nth_list_update)
  ultimately show ?thesis using r unfolding program_ok_def l le by simp
qed

text \<open>The statements of the language use the library through the calls it offers to a running thread.\<close>

fun plain_call :: "call \<Rightarrow> bool" where
  "plain_call (Create b) = False"
| "plain_call Exit = False"
| "plain_call _ = True"

fun plain_stmt :: "stmt \<Rightarrow> bool" where
  "plain_stmt (Do c) = plain_call c"
| "plain_stmt (Try c) = plain_call c"
| "plain_stmt (While b body) = list_all plain_stmt body"
| "plain_stmt (Call c a) = list_all plain_stmt c"
| "plain_stmt (New_thread x c a) = list_all plain_stmt c"
| "plain_stmt _ = True"

definition plain :: "program_state \<Rightarrow> bool" where
  "plain m \<longleftrightarrow> (\<forall>fs \<in> set (stacks m). \<forall>f \<in> set fs. list_all plain_stmt (code f))"

lemma catch_ok: "program_ok (state_of r) \<Longrightarrow> program_ok (state_of (catch r))"
  by (cases r) (simp_all add: catch_def)

lemma exec_stmt_ok:
  assumes ok: "program_ok m" and t: "running_thread (lib m) = Some t" and p: "plain_stmt st"
  shows "program_ok (state_of (exec_stmt t fs f st m))"
proof -
  have call: "program_ok (state_of (lib_call c (set_stack t (f # fs) m)))" if "plain_call c" for c
    using lib_call_framed [OF ok t, of c] that by (cases c) simp_all
  have "program_ok (state_of (lib_call (Join u) (set_stack t (f # fs) m)))" for u by (rule call) simp
  then show ?thesis using ok t p
    by (cases st) (auto simp: program_ok_stack new_thread_ok call catch_ok Let_def split: option.split)
qed

lemma preempt_ok: "program_ok m \<Longrightarrow> program_ok (state_of (preempt m))"
  using lib_call_ok [of m _ Yield] by (simp add: preempt_def split: option.split)

lemma program_step_ok:
  assumes ok: "program_ok m" and p: "plain m"
  shows "program_ok (state_of (program_step m))"
proof (cases "running_thread (lib m)")
  case None
  with ok show ?thesis by (simp add: program_step_def)
next
  case t: (Some t)
  note len = program_ok_running(2) [OF ok t]
  show ?thesis
  proof (cases "stacks m ! t")
    case Nil
    then show ?thesis using exit_ok [OF ok t] by (simp add: program_step_def t)
  next
    case (Cons f fs)
    have "stacks m ! t \<in> set (stacks m)" using len by (rule nth_mem)
    with p Cons have c: "list_all plain_stmt (code f)" by (auto simp: plain_def)
    show ?thesis
    proof (cases "code f")
      case Nil
      with Cons t ok show ?thesis by (simp add: program_step_def program_ok_stack)
    next
      case st: (Cons st rest)
      with c have "plain_stmt st" by simp
      from exec_stmt_ok [OF ok t this] show ?thesis by (simp add: program_step_def t Cons st)
    qed
  qed
qed

lemma plain_set_stack: "plain m \<Longrightarrow> \<forall>f \<in> set fs. list_all plain_stmt (code f) \<Longrightarrow> plain (set_stack t fs m)"
  using set_update_subset_insert [of "stacks m" t fs] by (fastforce simp: plain_def set_stack_def)

lemma plain_fields [simp]:
  "plain (m\<lparr>counters := c\<rparr>) = plain m" "plain (m\<lparr>pointers := p\<rparr>) = plain m" "plain (m\<lparr>destroyed := d\<rparr>) = plain m"
  "plain (m\<lparr>lib := s\<rparr>) = plain m" "plain (m\<lparr>ended := e\<rparr>) = plain m" "plain (print_line ts m) = plain m"
  by (simp_all add: plain_def print_line_def)

lemma plain_lib_call: "plain m \<Longrightarrow> plain (state_of (lib_call c m))"
  by (simp add: plain_def lib_call_state)

lemma plain_catch: "plain (state_of r) \<Longrightarrow> plain (state_of (catch r))"
  by (cases r) (simp_all add: catch_def)

lemma plain_exec:
  assumes m: "plain m" and fs: "\<forall>f \<in> set fs. list_all plain_stmt (code f)" and f: "list_all plain_stmt (code f)" and st: "plain_stmt st"
  shows "plain (state_of (exec_stmt t fs f st m))"
proof -
  have s: "plain (set_stack t (f' # fs) m)" if "list_all plain_stmt (code f')" for f'
    using m fs that by (intro plain_set_stack) auto
  have "plain (state_of (new_thread t fs f x c a m))" if "list_all plain_stmt c" for x c a
  proof -
    let ?m = "set_stack t (f\<lparr>objects := (x, length (tcbs (lib m))) # objects f\<rparr> # fs) m"
    have "plain ?m" by (rule s) (use f in simp)
    then have "plain (?m\<lparr>stacks := stacks ?m @ [[new_frame c a]]\<rparr>)" using that by (auto simp: plain_def new_frame_def)
    then show ?thesis by (simp add: new_thread_def plain_lib_call Let_def)
  qed
  moreover have "plain (set_stack t (new_frame c a # f # fs) m)" if "list_all plain_stmt c" for c a
    using m fs f that by (intro plain_set_stack) (auto simp: new_frame_def)
  ultimately show ?thesis using m f st s
    by (cases st) (auto simp: plain_lib_call plain_catch Let_def split: option.split)
qed

lemma plain_step: "plain m \<Longrightarrow> program_ok m \<Longrightarrow> plain (state_of (program_step m))"
proof (cases "running_thread (lib m)")
  case t: (Some t)
  assume m: "plain m" and ok: "program_ok m"
  have "stacks m ! t \<in> set (stacks m)" using program_ok_running(2) [OF ok t] by (rule nth_mem)
  with m have c: "\<forall>f \<in> set (stacks m ! t). list_all plain_stmt (code f)" by (simp add: plain_def)
  show ?thesis
  proof (cases "stacks m ! t")
    case Nil
    with m show ?thesis by (simp add: program_step_def t plain_lib_call)
  next
    case (Cons f fs)
    with c have cf: "list_all plain_stmt (code f)" "\<forall>f \<in> set fs. list_all plain_stmt (code f)" by simp_all
    then show ?thesis using m Cons t
      by (cases "code f") (simp_all add: program_step_def plain_set_stack plain_exec)
  qed
qed (simp add: program_step_def)

lemma plain_preempt: "plain m \<Longrightarrow> plain (state_of (preempt m))"
  by (simp add: preempt_def plain_lib_call split: option.split)

lemma schedule_ok: "program_ok m \<Longrightarrow> plain m \<Longrightarrow> program_ok (state_of (run_schedule bs m))"
proof (induction bs arbitrary: m)
  case (Cons b bs)
  let ?r = "if b then preempt m else program_step m"
  have "program_ok (state_of ?r)" "plain (state_of ?r)"
    using program_step_ok [OF Cons.prems] plain_step [OF Cons.prems(2,1)] preempt_ok [OF Cons.prems(1)] plain_preempt [OF Cons.prems(2)]
    by simp_all
  then show ?case using Cons.IH by (cases ?r) simp_all
qed simp

lemma boot_program_ok: "program_ok (boot_program nm nc parent a)"
proof -
  have "tcbs (booted nm nc) = [new_tcb]" "running_thread (booted nm nc) = Some 0"
    by (simp_all add: booted_def cpu_ctor_def create_tcb_def boot_state_def swap_in.simps [of "push_ready _ _"] new_tcb_def qpush_def Let_def)
  moreover have "live (booted nm nc) = {0}"
  proof -
    have "queue_at (booted nm nc) p = []" for p
      by (cases p) (simp_all add: booted_def cpu_ctor_def create_tcb_def boot_state_def swap_in.simps [of "push_ready _ _"]
        new_tcb_def new_mutex_def new_cv_def qpush_def Let_def)
    then show ?thesis using calculation by (auto simp: live_def parked_def)
  qed
  ultimately show ?thesis
    by (auto simp: program_ok_def boot_program_def alive_def intro: reach_init lib_init_booted)
qed

lemma boot_plain: "list_all plain_stmt parent \<Longrightarrow> plain (boot_program nm nc parent a)"
  by (simp add: plain_def boot_program_def new_frame_def)

text \<open>C39. A client program drives the library as any client may, wherever the timer interrupts it: in every run, of any program,
  on any number of mutexes and condition variables, with interrupts before any of its statements, the state of the library is one that
  its calls lead to, so that what is proved of all clients holds of it; the live threads of the library are those that
  have not ended, and those that have ended have run all their functions to the end.\<close>

theorem program_is_client:
  assumes "list_all plain_stmt parent" "m = state_of (run_schedule bs (boot_program nm nc parent a))"
  shows "reach lib_init lib_step (lib m) \<and> live (lib m) = {t. t < length (stacks m) \<and> t \<notin> set (ended m)} \<and>
    (\<forall>t \<in> set (ended m). stacks m ! t = [])"
  using schedule_ok [OF boot_program_ok boot_plain [OF assms(1)], of bs] unfolding assms(2) program_ok_def alive_def by blast

theorem program_is_client_witness:
  "reach lib_init lib_step (lib (state_of (run_schedule (concat (replicate 100 [True, False, False])) test12)))"
proof -
  have "list_all plain_stmt test12_parent" by code_simp
  from program_is_client [OF this refl, of _ 1 2 "Num 100"] show ?thesis by (simp add: test12_def)
qed

section \<open>Programs that keep track of their mutexes\<close>

text \<open>
  A check of a program's text, function by function: which mutexes a thread holds after a statement, given those it holds before, and \<open>None\<close>
  when it may release or wait with one that it does not hold. A loop must come back to the mutexes it started with.
\<close>

fun call_locks :: "call \<Rightarrow> mid set \<Rightarrow> mid set option" where
  "call_locks (Lock k) L = Some (insert k L)"
| "call_locks (Unlock k) L = (if k \<in> L then Some (L - {k}) else None)"
| "call_locks (Wait c k) L = (if k \<in> L then Some L else None)"
| "call_locks c L = Some L"

function (sequential) stmt_locks :: "stmt \<Rightarrow> mid set \<Rightarrow> mid set option"
  and code_locks :: "stmt list \<Rightarrow> mid set \<Rightarrow> mid set option" where
  "stmt_locks (Do c) L = call_locks c L"
| "stmt_locks (Try c) L = call_locks c L"
| "stmt_locks (While b body) L = (if code_locks body L = Some L then Some L else None)"
| "stmt_locks (Call c a) L = code_locks c L"
| "stmt_locks (New_thread x c a) L = (if code_locks c {} = None then None else Some L)"
| "stmt_locks st L = Some L"
| "code_locks [] L = Some L"
| "code_locks (st # c) L = Option.bind (stmt_locks st L) (code_locks c)"
  by pat_completeness auto
termination by (relation "measure (case_sum (\<lambda>(st, L). size st) (\<lambda>(c, L). size_list size c))") auto

lemma code_locks_append: "code_locks (xs @ ys) L = Option.bind (code_locks xs L) (code_locks ys)"
  by (induction xs arbitrary: L) (auto split: bind_splits)

text \<open>What a thread holds, with what it will hold once it is back from the call it is in.\<close>

definition pending :: "tlib \<Rightarrow> tid \<Rightarrow> mid set" where
  "pending s t = {k. acquiring (ucontext (tcbs s ! t)) = Some k}"

definition holding :: "(tid \<times> mid) set \<Rightarrow> tlib \<Rightarrow> tid \<Rightarrow> mid set" where
  "holding H s t = {k. (t, k) \<in> H} \<union> (if running_thread s = Some t then {} else pending s t)"

definition held_ok :: "tlib \<Rightarrow> (tid \<times> mid) set \<Rightarrow> bool" where
  "held_ok s H \<longleftrightarrow> cs_inv (s, H) \<and> (\<forall>p \<in> H. fst p < length (tcbs s))"

lemma acquiring_swap_in:
  "switch_inv s \<Longrightarrow> acquiring (ucontext (tcbs (swap_in s) ! u)) = acquiring (ucontext (tcbs s ! u))"
proof (induction s rule: swap_in_induct)
  case (again s t ts m)
  then show ?case by (auto simp: requeued_def)
qed (auto simp: host_return_def)

text \<open>The contexts of the other threads stay; that of a caller that is switched away says what it waits for.\<close>

lemma ucontext_hand_over [simp]: "tcbs (hand_over m s) = tcbs s"
  by (simp add: hand_over_def upd_mutex_def push_ready_def split: list.split)

lemma context_before_switch:
  assumes "before_switch t c s = Some s0" "u < length (tcbs s)"
  shows "ucontext (tcbs s0 ! u) = (if u = t \<and> c \<noteq> Exit
     then (case c of Lock m \<Rightarrow> In_lock m | Wait k m \<Rightarrow> In_wait m | Join w \<Rightarrow> In_join | _ \<Rightarrow> In_yield) else ucontext (tcbs s ! u))"
  using assms by (cases c) (auto simp: saved_def drain_eq split: if_splits)

lemma context_no_switch:
  assumes "running_thread s = Some t" "before_switch t c s = None" "u < length (tcbs s)"
  shows "ucontext (tcbs (fst (exec_call c s)) ! u) = ucontext (tcbs s ! u)"
  using assms by (cases c) (auto simp: yield_def join_def mutex_lock_def cv_wait_def mutex_unlock_def cv_signal_def
      cv_broadcast_def thread_ctor_def create_tcb_def nth_append Let_def drain_eq split: if_splits list.splits)

lemma pending_other:
  assumes "lib_inv s" "running_thread s = Some t" "call_ok c s" "u < length (tcbs s)" "u \<noteq> t"
  shows "pending (fst (exec_call c s)) u = pending s u"
proof (cases "before_switch t c s")
  case None
  from context_no_switch [OF assms(2) None assms(4)] show ?thesis by (simp add: pending_def)
next
  case (Some s0)
  note E = exec_switch [OF assms(1-3) Some]
  show ?thesis using acquiring_swap_in [OF E(2)] context_before_switch [OF Some assms(4)] assms(5) by (simp add: pending_def E(1))
qed

text \<open>What a call does to what the threads hold.\<close>

definition held_after :: "call \<Rightarrow> tlib \<Rightarrow> (tid \<times> mid) set \<Rightarrow> (tid \<times> mid) set" where
  "held_after c s H = H - released c s \<union> acquired c s (fst (exec_call c s))"

lemma held_other:
  assumes "lib_inv s" "running_thread s = Some t" "call_ok c s" "u < length (tcbs s)" "u \<noteq> t"
  shows "holding (held_after c s H) (fst (exec_call c s)) u = holding H s u"
  using assms(2,5) pending_other [OF assms]
  by (auto simp: holding_def held_after_def released_def acquired_def pending_def split: option.splits if_splits)

lemma waits_elsewhere:
  assumes "lib_inv s" "running_thread s = Some t" "call_ok (Wait k m) s" "check_ownership m s"
  shows "running_thread (fst (exec_call (Wait k m) s)) \<noteq> Some t"
proof
  let ?s1 = "upd_cv k (\<lambda>x. x\<lparr>cv_queue := qpush t (cv_queue x)\<rparr>) (saved t (In_wait m) s)"
  have b: "before_switch t (Wait k m) s = Some (hand_over m ?s1)" using assms(4) by simp
  note E = exec_switch [OF assms(1-3) b]
  assume "running_thread (fst (exec_call (Wait k m) s)) = Some t"
  then have r: "running_thread (swap_in (hand_over m ?s1)) = Some t" by (simp only: E(1))
  obtain j where "served j (hand_over m ?s1) (swap_in (hand_over m ?s1))" using swap_in_served [OF E(2)] by blast
  with r have "0 < j \<and> t = ready_queue (hand_over m ?s1) ! (j - 1) \<and> j \<le> length (ready_queue (hand_over m ?s1))"
    unfolding served_def by blast
  then have "t \<in> set (ready_queue (hand_over m ?s1))" by (metis One_nat_def Suc_le_lessD Suc_pred' nth_mem)
  moreover have a: "t \<notin> set (queue_at s p)" for p using assms(1,2) unfolding lib_inv_def absent_def by blast
  have "t \<notin> set (ready_queue s)" "t \<notin> set (mutex_queue (mutexes s ! m))" using a [of Ready] a [of "On_mutex m"] assms(3) by simp_all
  ultimately show False using assms(3) by (auto simp: hand_over_def qpush_def split: list.splits)
qed

lemma held_own:
  assumes I: "lib_inv s" and t: "running_thread s = Some t" "call_ok c s" and c: "c \<noteq> Exit" "call_locks c (holding H s t) = Some L"
    and own: "\<And>m. m \<in> holding H s t \<Longrightarrow> check_ownership m s"
  shows "holding (held_after c s H) (fst (exec_call c s)) t = L"
proof (cases "running_thread (fst (exec_call c s)) = Some t")
  case True
  have "\<not> (\<exists>k m. c = Wait k m)"
  proof
    assume "\<exists>k m. c = Wait k m"
    then obtain k m where w: "c = Wait k m" by blast
    with c(2) own have "check_ownership m s" by (auto split: if_splits)
    with waits_elsewhere [OF I t(1), of k m] t(2) w True show False by simp
  qed
  with True t(1) c own show ?thesis
    by (cases c) (auto simp: holding_def held_after_def released_def acquired_def split: if_splits)
next
  case False
  then obtain s0 where s0: "before_switch t c s = Some s0" using exec_no_switch [OF t(1), of c] by (cases "before_switch t c s") auto
  note E = exec_switch [OF I t s0]
  have "t < length (tcbs s)" using I t(1) by (simp add: lib_inv_def)
  from context_before_switch [OF s0 this] c(1)
  have p: "pending (fst (exec_call c s)) t = {k. acquiring (case c of Lock m \<Rightarrow> In_lock m | Wait k m \<Rightarrow> In_wait m | Join w \<Rightarrow> In_join | _ \<Rightarrow> In_yield) = Some k}"
    by (simp add: pending_def E(1) acquiring_swap_in [OF E(2)])
  show ?thesis using False t(1) c(2) p s0
    by (cases c) (auto simp: holding_def held_after_def released_def acquired_def split: if_splits option.splits)
qed

lemma held_ok_step:
  assumes ok: "held_ok s H" and t: "running_thread s = Some t" "call_ok c s"
  shows "held_ok (fst (exec_call c s)) (held_after c s H)"
proof -
  let ?s = "fst (exec_call c s)"
  have I: "cs_inv (s, H)" using ok by (simp add: held_ok_def)
  have "cs_step (s, H) (?s, held_after c s H)" unfolding held_after_def by (rule cs_stepI) (use t in simp_all)
  from cs_step_inv [OF I this] have I': "cs_inv (?s, held_after c s H)" .
  moreover have "fst p < length (tcbs ?s)" if p: "p \<in> held_after c s H" for p
  proof (cases "p \<in> H")
    case True
    with ok show ?thesis by (fastforce simp: held_ok_def length_tcbs)
  next
    case False
    with p have "p \<in> acquired c s ?s" by (simp add: held_after_def)
    then have "running_thread ?s = Some (fst p)" by (auto simp: acquired_def split: option.splits if_splits)
    with I' show ?thesis by (simp add: cs_inv_def lib_inv_def)
  qed
  ultimately show ?thesis by (simp add: held_ok_def)
qed

lemma holder_owns:
  assumes "held_ok s H" "running_thread s = Some t" "k \<in> holding H s t"
  shows "check_ownership k s"
proof -
  have "holds_lock s (t, k)" using assms by (auto simp: held_ok_def cs_inv_def holding_def)
  then show ?thesis using assms(2) by (simp add: check_ownership_def holds_lock_def expired_def tcb_refs_def)
qed

lemma no_exception:
  assumes "call_locks c L \<noteq> None" "\<And>k. k \<in> L \<Longrightarrow> check_ownership k s" "plain_call c \<or> c = Create True \<or> c = Exit"
  shows "snd (exec_call c s) = None"
  using assms by (cases c) (auto simp: thread_ctor_def yield_def join_def starter_exit_def mutex_lock_def mutex_unlock_def
      cv_wait_def cv_signal_def cv_broadcast_def Let_def split: option.split list.split if_splits)

text \<open>What every thread still has to execute passes the check, from what it holds.\<close>

definition to_do :: "program_state \<Rightarrow> tid \<Rightarrow> stmt list" where
  "to_do m t = concat (map code (stacks m ! t))"

definition locks_ok :: "program_state \<Rightarrow> (tid \<times> mid) set \<Rightarrow> bool" where
  "locks_ok m H \<longleftrightarrow> held_ok (lib m) H \<and> (\<forall>t < length (stacks m). code_locks (to_do m t) (holding H (lib m) t) \<noteq> None)"

definition no_misuse :: "outcome \<Rightarrow> bool" where
  "no_misuse r \<longleftrightarrow> (case r of Runs m \<Rightarrow> \<exists>H. locks_ok m H | Uncaught e m \<Rightarrow> False | _ \<Rightarrow> True)"

lemma lib_call_safe:
  assumes ok: "program_ok m" and t: "running_thread (lib m) = Some t" and H: "held_ok (lib m) H"
    and c: "plain_call c" "call_locks c (holding H (lib m) t) = Some L" "code_locks (to_do m t) L \<noteq> None"
    and others: "\<And>u. u < length (stacks m) \<Longrightarrow> u \<noteq> t \<Longrightarrow> code_locks (to_do m u) (holding H (lib m) u) \<noteq> None"
  shows "no_misuse (lib_call c m)"
proof (cases "call_ok c (lib m)")
  case False
  then show ?thesis by (simp add: lib_call_def no_misuse_def)
next
  case True
  let ?s = "fst (exec_call c (lib m))" and ?H = "held_after c (lib m) H"
  note I = program_ok_running(1) [OF ok t]
  have len: "length (stacks m) = length (tcbs (lib m))" using ok by (simp add: program_ok_def)
  have ne: "c \<noteq> Exit" "\<forall>b. c \<noteq> Create b" using c(1) by auto
  have ex: "snd (exec_call c (lib m)) = None" using no_exception [of c "holding H (lib m) t" "lib m"] holder_owns [OF H t] c(1,2) by simp
  have own: "holding ?H ?s t = L" by (rule held_own [OF I t True ne(1) c(2)]) (rule holder_owns [OF H t])
  have "code_locks (to_do m u) (holding ?H ?s u) \<noteq> None" if u: "u < length (stacks m)" for u
    using held_other [OF I t True, of u H] others [OF u] u own c(3) len by (cases "u = t") simp_all
  then have "locks_ok (m\<lparr>lib := ?s\<rparr>) ?H" using held_ok_step [OF H t True] by (simp add: locks_ok_def to_do_def)
  then show ?thesis using ex True by (auto simp: lib_call_def no_misuse_def split: prod.split option.split)
qed

lemma no_misuse_catch: "no_misuse r \<Longrightarrow> no_misuse (catch r)"
  by (auto simp: no_misuse_def catch_def split: outcome.splits)

lemma locks_ok_fields [simp]:
  "locks_ok (m\<lparr>counters := c\<rparr>) H = locks_ok m H" "locks_ok (m\<lparr>pointers := p\<rparr>) H = locks_ok m H"
  "locks_ok (m\<lparr>destroyed := d\<rparr>) H = locks_ok m H" "locks_ok (print_line ts m) H = locks_ok m H"
  by (simp_all add: locks_ok_def to_do_def print_line_def)

lemma to_do_set_stack:
  "t < length (stacks m) \<Longrightarrow> to_do (set_stack t fs m) t = concat (map code fs)"
  "u \<noteq> t \<Longrightarrow> to_do (set_stack t fs m) u = to_do m u"
  by (simp_all add: to_do_def set_stack_def)

text \<open>The running thread goes on with other code.\<close>

lemma locks_ok_set_stack:
  assumes "locks_ok m H" "t < length (stacks m)" "code_locks (concat (map code fs)) (holding H (lib m) t) \<noteq> None"
  shows "locks_ok (set_stack t fs m) H"
  unfolding locks_ok_def
proof (intro conjI allI impI)
  fix u assume "u < length (stacks (set_stack t fs m))"
  then show "code_locks (to_do (set_stack t fs m) u) (holding H (lib (set_stack t fs m)) u) \<noteq> None"
    using assms by (cases "u = t") (simp_all add: locks_ok_def to_do_set_stack)
qed (use assms(1) in \<open>simp add: locks_ok_def\<close>)

lemma new_thread_safe:
  assumes ok: "program_ok m" and t: "running_thread (lib m) = Some t" and lo: "locks_ok m H"
    and c: "code_locks c {} \<noteq> None" "code_locks (code f @ concat (map code fs)) (holding H (lib m) t) \<noteq> None"
  shows "no_misuse (new_thread t fs f x c a m)"
proof -
  let ?u = "length (tcbs (lib m))" and ?s = "fst (exec_call (Create True) (lib m))" and ?H = "held_after (Create True) (lib m) H"
  let ?m1 = "set_stack t (f\<lparr>objects := (x, ?u) # objects f\<rparr> # fs) m"
  let ?m2 = "?m1\<lparr>stacks := stacks ?m1 @ [[new_frame c a]]\<rparr>"
  note I = program_ok_running(1,2) [OF ok t]
  have H: "held_ok (lib m) H" using lo by (simp add: locks_ok_def)
  have len: "length (stacks m) = ?u" using ok by (simp add: program_ok_def)
  have m1: "locks_ok ?m1 H" by (rule locks_ok_set_stack [OF lo I(2)]) (use c(2) in simp)
  have run: "running_thread ?s = Some t" using t by (simp add: thread_ctor_def create_tcb_def)
  have new: "holding ?H ?s ?u = {}"
  proof -
    have "(?u, k) \<notin> ?H" for k
      using H run t by (auto simp: held_ok_def held_after_def acquired_def split: if_splits)
    moreover have "tcbs ?s = tcbs (lib m) @ [new_tcb]" by (simp add: thread_ctor_def create_tcb_def Let_def)
    then have "pending ?s ?u = {}" by (simp add: pending_def new_tcb_def nth_append)
    ultimately show ?thesis by (simp add: holding_def)
  qed
  have old: "holding ?H ?s v = holding H (lib m) v" if "v < length (stacks m)" for v
  proof (cases "v = t")
    case True
    have "holding ?H ?s t = holding H (lib m) t"
      by (rule held_own [OF I(1) t, of "Create True"]) (use holder_owns [OF H t] in simp_all)
    with True show ?thesis by simp
  next
    case False
    then show ?thesis using held_other [OF I(1) t, of "Create True" v H] that len by simp
  qed
  have "code_locks (to_do ?m2 v) (holding ?H ?s v) \<noteq> None" if v: "v < length (stacks ?m2)" for v
  proof (cases "v = ?u")
    case True
    then have "to_do ?m2 v = c" using len by (simp add: to_do_def new_frame_def nth_append)
    with True new c(1) show ?thesis by simp
  next
    case False
    then have l: "v < length (stacks ?m1)" using v len by simp
    then have "to_do ?m2 v = to_do ?m1 v" by (simp add: to_do_def nth_append)
    with m1 l old [of v] show ?thesis by (simp add: locks_ok_def)
  qed
  then have "locks_ok (?m2\<lparr>lib := ?s\<rparr>) ?H" using held_ok_step [OF H t, of "Create True"] by (simp add: locks_ok_def to_do_def)
  then show ?thesis by (auto simp: new_thread_def lib_call_def no_misuse_def thread_ctor_def Let_def)
qed

lemma exec_stmt_safe:
  assumes ok: "program_ok m" and t: "running_thread (lib m) = Some t" and lo: "locks_ok m H" and p: "plain_stmt st"
    and st: "stmt_locks st (holding H (lib m) t) = Some L" "code_locks (code f @ concat (map code fs)) L \<noteq> None"
  shows "no_misuse (exec_stmt t fs f st m)"
proof -
  note I = program_ok_running(1,2) [OF ok t]
  have H: "held_ok (lib m) H" using lo by (simp add: locks_ok_def)
  have go: "locks_ok (set_stack t fs' m) H" if "code_locks (concat (map code fs')) (holding H (lib m) t) \<noteq> None" for fs'
    by (rule locks_ok_set_stack [OF lo I(2) that])
  have call: "no_misuse (lib_call c (set_stack t (f # fs) m))"
    if "plain_call c" "call_locks c (holding H (lib m) t) = Some L" for c
  proof (rule lib_call_safe [where t = t and H = H and L = L])
    show "program_ok (set_stack t (f # fs) m)" by (rule program_ok_stack [OF ok t])
    show "code_locks (to_do (set_stack t (f # fs) m) t) L \<noteq> None" using st(2) I(2) by (simp add: to_do_set_stack)
    show "code_locks (to_do (set_stack t (f # fs) m) u) (holding H (lib (set_stack t (f # fs) m)) u) \<noteq> None"
      if "u < length (stacks (set_stack t (f # fs) m))" "u \<noteq> t" for u
      using lo that by (simp add: locks_ok_def to_do_set_stack)
  qed (use t H that in simp_all)
  have stay: "locks_ok (set_stack t (f' # fs) m) H" if "code f' = code f" "L = holding H (lib m) t" for f'
    by (rule go) (use st(2) that in simp)
  show ?thesis
  proof (cases st)
    case (Do c)
    then show ?thesis using call p st(1) by simp
  next
    case (Try c)
    then show ?thesis using call p st(1) by (simp add: no_misuse_catch)
  next
    case (Print items)
    then show ?thesis using stay [of f] st(1) by (auto simp: no_misuse_def Let_def)
  next
    case (While b body)
    then have b: "code_locks body (holding H (lib m) t) = Some L" "L = holding H (lib m) t" using st(1) by (auto split: if_splits)
    have "code_locks (body @ While b body # code f @ concat (map code fs)) (holding H (lib m) t) \<noteq> None"
      using b st(2) by (simp add: code_locks_append)
    then show ?thesis using go [of "f\<lparr>code := body @ While b body # code f\<rparr> # fs"] stay [of f] b(2) by (auto simp: While no_misuse_def)
  next
    case (Call c a)
    have "code_locks (c @ code f @ concat (map code fs)) (holding H (lib m) t) \<noteq> None"
      using st by (simp add: Call code_locks_append)
    then show ?thesis using go [of "new_frame c a # f # fs"] by (auto simp: Call no_misuse_def new_frame_def)
  next
    case (New_thread x c a)
    then show ?thesis using new_thread_safe [OF ok t lo, of c f fs x a] st by (auto split: if_splits)
  next
    case (Join_var x)
    then show ?thesis using call [of "Join _"] st(1) by (auto simp: no_misuse_def split: option.split)
  next
    case (Join_ptr q)
    then show ?thesis using call [of "Join _"] st(1) by (auto simp: no_misuse_def split: option.split)
  next
    case (Point q x)
    then show ?thesis using stay [of f] st(1) by (auto simp: no_misuse_def split: option.split)
  qed (use st(1) stay in \<open>auto simp: no_misuse_def intro: exI [of _ H]\<close>)
qed

lemma preempt_safe:
  assumes ok: "program_ok m" and lo: "locks_ok m H"
  shows "no_misuse (preempt m)"
proof (cases "running_thread (lib m)")
  case None
  then show ?thesis by (simp add: preempt_def no_misuse_def)
next
  case (Some t)
  have "no_misuse (lib_call Yield m)"
    by (rule lib_call_safe [OF ok Some, where H = H and L = "holding H (lib m) t"])
      (use lo program_ok_running(2) [OF ok Some] in \<open>simp_all add: locks_ok_def\<close>)
  then show ?thesis by (simp add: preempt_def Some)
qed

lemma exit_safe:
  assumes ok: "program_ok m" and t: "running_thread (lib m) = Some t" and lo: "locks_ok m H" and st: "stacks m ! t = []"
  shows "no_misuse (lib_call Exit (m\<lparr>ended := t # ended m\<rparr>))"
proof -
  let ?s = "fst (exec_call Exit (lib m))" and ?H = "held_after Exit (lib m) H"
  have H: "held_ok (lib m) H" using lo by (simp add: locks_ok_def)
  have len: "length (stacks m) = length (tcbs (lib m))" using ok by (simp add: program_ok_def)
  have "code_locks (to_do m u) (holding ?H ?s u) \<noteq> None" if u: "u < length (stacks m)" for u
  proof (cases "u = t")
    case True
    then show ?thesis using st by (simp add: to_do_def)
  next
    case False
    then show ?thesis using held_other [OF program_ok_running(1) [OF ok t] t, of Exit u H] u len lo by (simp add: locks_ok_def)
  qed
  then have l: "locks_ok (m\<lparr>ended := t # ended m, lib := ?s\<rparr>) ?H" using held_ok_step [OF H t, of Exit] by (simp add: locks_ok_def to_do_def)
  have "snd (starter_exit (lib m)) = None" using no_exception [of Exit "{}" "lib m"] by simp
  with l show ?thesis by (auto simp: lib_call_def no_misuse_def split: prod.split option.split)
qed

lemma program_step_safe:
  assumes ok: "program_ok m" and p: "plain m" and lo: "locks_ok m H"
  shows "no_misuse (program_step m)"
proof (cases "running_thread (lib m)")
  case None
  then show ?thesis by (simp add: program_step_def no_misuse_def)
next
  case t: (Some t)
  note len = program_ok_running(2) [OF ok t]
  have td: "code_locks (to_do m t) (holding H (lib m) t) \<noteq> None" using lo len by (simp add: locks_ok_def)
  show ?thesis
  proof (cases "stacks m ! t")
    case Nil
    then show ?thesis using exit_safe [OF ok t lo] by (simp add: program_step_def t)
  next
    case (Cons f fs)
    have "f \<in> set (stacks m ! t)" using Cons by simp
    moreover have "stacks m ! t \<in> set (stacks m)" using len by (rule nth_mem)
    ultimately have c: "list_all plain_stmt (code f)" using p by (auto simp: plain_def)
    show ?thesis
    proof (cases "code f")
      case Nil
      then have "locks_ok (set_stack t fs m) H" using td Cons by (intro locks_ok_set_stack [OF lo len]) (simp add: to_do_def)
      then show ?thesis using Cons Nil t by (auto simp: program_step_def no_misuse_def)
    next
      case st: (Cons st rest)
      with td Cons obtain L where L: "stmt_locks st (holding H (lib m) t) = Some L" "code_locks (rest @ concat (map code fs)) L \<noteq> None"
        by (cases "stmt_locks st (holding H (lib m) t)") (auto simp: to_do_def)
      have "plain_stmt st" using c st by simp
      from exec_stmt_safe [OF ok t lo this L(1), of "f\<lparr>code := rest\<rparr>" fs] L(2) show ?thesis by (simp add: program_step_def t Cons st)
    qed
  qed
qed

lemma schedule_safe: "program_ok m \<Longrightarrow> plain m \<Longrightarrow> locks_ok m H \<Longrightarrow> no_misuse (run_schedule bs m)"
proof (induction bs arbitrary: m H)
  case Nil
  then show ?case by (auto simp: no_misuse_def)
next
  case (Cons b bs)
  let ?r = "if b then preempt m else program_step m"
  have safe: "no_misuse ?r" using preempt_safe [OF Cons.prems(1,3)] program_step_safe [OF Cons.prems] by simp
  have "program_ok (state_of ?r)" "plain (state_of ?r)"
    using program_step_ok [OF Cons.prems(1,2)] plain_step [OF Cons.prems(2,1)] preempt_ok [OF Cons.prems(1)] plain_preempt [OF Cons.prems(2)]
    by simp_all
  with safe Cons.IH show ?case by (cases ?r) (auto simp: no_misuse_def)
qed

lemma boot_locks_ok:
  assumes "code_locks parent {} \<noteq> None" shows "locks_ok (boot_program nm nc parent a) {}"
proof -
  have "running_thread (booted nm nc) = Some 0"
    by (simp add: booted_def cpu_ctor_def create_tcb_def boot_state_def swap_in.simps [of "push_ready _ _"] new_tcb_def qpush_def Let_def)
  then show ?thesis using assms booted_inv
    by (simp add: locks_ok_def boot_program_def held_ok_def cs_inv_def to_do_def new_frame_def holding_def)
qed

section \<open>How the test programs end\<close>

text \<open>
  The threads that are left when the CPU is suspended, with the final value of \<open>g\<close> and the number of lines printed.
\<close>

datatype ending = Ends "tid list" int nat | Calls_exit nat | Throws lib_error nat | Dangling nat | Goes_on

fun verdict :: "outcome \<Rightarrow> ending" where
  "verdict (Runs m) = Goes_on"
| "verdict (Suspended m) = Ends (filter (\<lambda>t. stacks m ! t \<noteq> []) [0..<length (stacks m)]) (counters m G) (length (printed m))"
| "verdict (Exited m) = Calls_exit (length (printed m))"
| "verdict (Uncaught e m) = Throws e (length (printed m))"
| "verdict (Undefined m) = Dangling (length (printed m))"

lemma endings_1:
  "verdict (run_program 400 test1) = Ends [] 15 23"
  "verdict (run_program 400 test2) = Ends [] 10 17"
  "verdict (run_program 400 test3) = Ends [] 7 12"
  by code_simp+

lemma endings_2:
  "verdict (run_program 400 test4) = Ends [] 0 13"
  "verdict (run_program 400 test5) = Ends [0, 1, 2, 3] 0 4"
  "verdict (run_program 400 test6) = Dangling 3"
  by code_simp+

lemma endings_3:
  "verdict (run_program 400 test7) = Ends [] 15 22"
  "verdict (run_program 400 test8) = Ends [] 10 17"
  "verdict (run_program 400 test9) = Ends [] 15 22"
  by code_simp+

lemma endings_4:
  "verdict (run_program 400 test10) = Ends [1] 1 10"
  "verdict (run_program 400 test11) = Ends [0, 1, 2] 0 5"
  "verdict (run_program 400 test12) = Ends [] 10 40"
  by code_simp+

lemma endings_5:
  "verdict (run_program 400 test13) = Calls_exit 1"
  "verdict (run_program 400 test14) = Ends [] 0 1"
  "verdict (run_program 400 test16) = Ends [] 12 15"
  "verdict (run_program 400 test17) = Ends [0] 11 12"
  by code_simp+

lemma endings_6:
  "verdict (run_program 400 test18) = Ends [0] 21 17"
  "verdict (run_program 400 test19) = Ends [] 35 50"
  by code_simp+

lemma endings_7:
  "verdict (run_program 400 test20) = Ends [] 13 14"
  "verdict (run_program 400 test21) = Ends [] 10 17"
  by code_simp+

lemmas endings = endings_1 endings_2 endings_3 endings_4 endings_5 endings_6 endings_7

text \<open>An interrupt before every so many statements; the two programs that are booted with the timer.\<close>

definition every :: "nat \<Rightarrow> nat \<Rightarrow> bool list" where
  "every k n = concat (replicate n (True # replicate k False))"

lemma app_ending_1: "verdict (run_schedule (every 1 200) app) = Ends [] 14 32"
  by code_simp

lemma app_ending_2: "verdict (run_schedule (every 2 200) app) = Ends [] 14 32"
  by code_simp

lemma app_ending_3: "verdict (run_schedule (every 3 200) app) = Ends [] 14 32"
  by code_simp

lemma app_ending_5: "verdict (run_schedule (every 5 200) app) = Ends [] 14 32"
  by code_simp

lemma test15_endings:
  "verdict (run_schedule (every 1 20) test15) = Throws Unlock_unobtained 5"
  "verdict (run_schedule (every 2 20) test15) = Throws Unlock_unobtained 5"
  "verdict (run_schedule (every 3 20) test15) = Throws Unlock_unobtained 4"
  "verdict (run_schedule (every 5 20) test15) = Throws Unlock_unobtained 5"
  by code_simp+

lemmas timer_endings = app_ending_1 app_ending_2 app_ending_3 app_ending_5 test15_endings

text \<open>How the test programs end, each within 400 steps: with every thread at its end in most of them, the exception's
  message printed in tests 13 and 14; with threads left for ever in test 5 (a thread waits for another while it holds
  the mutex the other needs), 10 and 17 (nobody signals the last waiter), 11 (as in 5) and 18 (the
  parent locks a mutex it holds); and in test 6 with a call through a pointer to a thread object that is gone. In test 19 the strings that
  the threads borrow outlive them. The programs with timer interrupts end in the same way for interrupts before every first,
  second, third and fifth statement: app with every thread at its end and the same counter and number of lines, test 15 with the
  exception that its last thread causes.\<close>

theorem test_endings:
  "map (\<lambda>m. verdict (run_program 400 m))
     [test1, test2, test3, test4, test5, test6, test7, test8, test9, test10, test11, test12, test13, test14, test16, test17, test18, test19, test20, test21] =
   [Ends [] 15 23, Ends [] 10 17, Ends [] 7 12, Ends [] 0 13, Ends [0, 1, 2, 3] 0 4, Dangling 3,
    Ends [] 15 22, Ends [] 10 17, Ends [] 15 22, Ends [1] 1 10, Ends [0, 1, 2] 0 5, Ends [] 10 40,
    Calls_exit 1, Ends [] 0 1, Ends [] 12 15, Ends [0] 11 12, Ends [0] 21 17, Ends [] 35 50, Ends [] 13 14,
    Ends [] 10 17] \<and>
   map (\<lambda>k. verdict (run_schedule (every k 200) app)) [1, 2, 3, 5] = [Ends [] 14 32, Ends [] 14 32, Ends [] 14 32, Ends [] 14 32] \<and>
   map (\<lambda>k. verdict (run_schedule (every k 20) test15)) [1, 2, 3, 5] =
     [Throws Unlock_unobtained 5, Throws Unlock_unobtained 5, Throws Unlock_unobtained 4, Throws Unlock_unobtained 5]"
  by (simp only: list.map endings timer_endings simp_thms)

section \<open>The test programs under any interrupts\<close>

text \<open>All test programs but 13, 14 and 15, which misuse a mutex on purpose.\<close>

definition checked_tests :: "program_state list" where
  "checked_tests = [test1, test2, test3, test4, test5, test6, test7, test8, test9, test10, test11, test12, test16, test17, test18,
     test19, test20, test21, app]"

definition checked :: "stmt list \<Rightarrow> bool" where
  "checked parent \<longleftrightarrow> list_all plain_stmt parent \<and> code_locks parent {} \<noteq> None"

lemma checked_safe:
  assumes "checked parent"
  shows "no_misuse (run_schedule bs (boot_program nm nc parent a))" "program_ok (state_of (run_schedule bs (boot_program nm nc parent a)))"
proof -
  have c: "list_all plain_stmt parent" "code_locks parent {} \<noteq> None" using assms by (simp_all add: checked_def)
  show "no_misuse (run_schedule bs (boot_program nm nc parent a))"
    by (rule schedule_safe [OF boot_program_ok boot_plain [OF c(1)] boot_locks_ok [OF c(2)]])
  show "program_ok (state_of (run_schedule bs (boot_program nm nc parent a)))"
    by (rule schedule_ok [OF boot_program_ok boot_plain [OF c(1)]])
qed

lemma checked_parents:
  "checked test1_parent" "checked test2_parent" "checked test3_parent" "checked test4_parent" "checked test5_parent"
  "checked test6_parent" "checked test7_parent" "checked test8_parent" "checked test9_parent" "checked test10_parent"
  "checked test11_parent" "checked test12_parent" "checked test16_parent" "checked test17_parent" "checked test18_parent"
  "checked test19_parent" "checked test20_parent" "checked test21_parent" "checked app_parent"
  by code_simp+

lemma checked_test:
  assumes "prog \<in> set checked_tests"
  obtains nm nc parent a where "prog = boot_program nm nc parent a" "checked parent"
  using assms checked_parents unfolding checked_tests_def test1_def test2_def test3_def test4_def test5_def test6_def test7_def test8_def
    test9_def test10_def test11_def test12_def test16_def test17_def test18_def test19_def test20_def test21_def app_def
  by (simp only: list.set insert_iff empty_iff) blast

lemma suspended_run: "run_schedule bs m = Suspended m' \<Longrightarrow> running_thread (lib m') = None"
proof (induction bs arbitrary: m)
  case (Cons b bs)
  have c: "lib_call c y \<noteq> Suspended z" "catch (lib_call c y) \<noteq> Suspended z" for c y z
    by (auto simp: lib_call_def catch_def split: prod.splits option.splits outcome.splits)
  have e: "exec_stmt t fs f st y \<noteq> Suspended z" for t fs f st y z
    by (cases st) (auto simp: c new_thread_def Let_def split: option.splits)
  have stop: "running_thread (lib x) = None" if "(if b then preempt m else program_step m) = Suspended x" for x
    using that by (auto simp: preempt_def program_step_def c e split: if_splits option.splits list.splits)
  show ?case using Cons.prems Cons.IH stop
    by (cases "if b then preempt m else program_step m") (simp_all del: if_split)
qed simp

text \<open>C40. Wherever timer interrupts come, and however many, no test program of Project2 other than 13, 14 and 15 ever releases a mutex, or waits
  with one, that the thread does not hold, and so none ends with an exception; and when the CPU is suspended, every thread of the program
  has ended, or waits in \<open>lock\<close>, in \<open>wait\<close>, or in \<open>join\<close> for a thread that has not ended: none is lost. The first part is
  a check of the programs' text (\<open>code_locks\<close>), proved sound for every program in this language.\<close>

theorem tests_under_interrupts:
  assumes "prog \<in> set checked_tests"
  shows "(\<forall>bs e m. run_schedule bs prog \<noteq> Uncaught e m) \<and>
    (\<forall>bs m. run_schedule bs prog = Suspended m \<longrightarrow> (\<forall>t < length (stacks m). t \<in> set (ended m) \<or>
       (\<exists>k. t \<in> set (queue_at (lib m) (On_mutex k))) \<or> (\<exists>c. t \<in> set (queue_at (lib m) (On_cv c))) \<or>
       (\<exists>u. t \<in> set (queue_at (lib m) (On_join u)) \<and> u < length (stacks m) \<and> u \<notin> set (ended m))))"
proof -
  obtain nm nc parent a where p: "prog = boot_program nm nc parent a" "checked parent" using checked_test [OF assms] .
  note safe = checked_safe [OF p(2), of _ nm nc a, folded p(1)]
  have "run_schedule bs prog \<noteq> Uncaught e m" for bs e m using safe(1) [of bs] by (auto simp: no_misuse_def)
  moreover have "t \<in> set (ended m) \<or> (\<exists>k. t \<in> set (queue_at (lib m) (On_mutex k))) \<or> (\<exists>c. t \<in> set (queue_at (lib m) (On_cv c))) \<or>
      (\<exists>u. t \<in> set (queue_at (lib m) (On_join u)) \<and> u < length (stacks m) \<and> u \<notin> set (ended m))"
    if s: "run_schedule bs prog = Suspended m" and t: "t < length (stacks m)" for bs m t
  proof (cases "t \<in> set (ended m)")
    case False
    have ok: "program_ok m" using safe(2) [of bs] s by simp
    then have r: "reach lib_init lib_step (lib m)" and l: "live (lib m) = alive m" by (simp_all add: program_ok_def)
    have n: "running_thread (lib m) = None" by (rule suspended_run [OF s])
    have "t \<in> parked (lib m)" using False t l n by (auto simp: alive_def live_def)
    from parked_somewhere [OF this suspended_ready [OF r n]] joins.inv_reach [OF r] show ?thesis
      unfolding join_inv_all_def l by (auto simp: alive_def simp del: queue_at.simps)
  qed blast
  ultimately show ?thesis by blast
qed

theorem tests_under_interrupts_witness:
  "\<exists>m. run_schedule (replicate 400 False) test5 = Suspended m \<and> length (stacks m) = 4 \<and> ended m = [] \<and>
     (\<forall>t < 4. (\<exists>k. t \<in> set (queue_at (lib m) (On_mutex k))) \<or> (\<exists>c. t \<in> set (queue_at (lib m) (On_cv c))) \<or>
        (\<exists>u. t \<in> set (queue_at (lib m) (On_join u))))"
proof -
  have "case run_program 400 test5 of Suspended m \<Rightarrow> length (stacks m) = 4 \<and> ended m = [] | _ \<Rightarrow> False" by code_simp
  then obtain m where m: "run_schedule (replicate 400 False) test5 = Suspended m" "length (stacks m) = 4" "ended m = []"
    by (auto simp: run_program_schedule split: outcome.splits)
  have t5: "test5 \<in> set checked_tests" by (simp add: checked_tests_def)
  have "\<forall>t < length (stacks m). t \<in> set (ended m) \<or>
       (\<exists>k. t \<in> set (queue_at (lib m) (On_mutex k))) \<or> (\<exists>c. t \<in> set (queue_at (lib m) (On_cv c))) \<or>
       (\<exists>u. t \<in> set (queue_at (lib m) (On_join u)) \<and> u < length (stacks m) \<and> u \<notin> set (ended m))"
    using tests_under_interrupts [OF t5] m(1) by blast
  then show ?thesis using m by (intro exI [of _ m]) (simp del: queue_at.simps, blast)
qed

end
