(* ===== verification/Text_Input.thy ===== *)
theory Text_Input imports Prelude begin

text \<open>
  The parts of the C and C++ library with which the programs read text: character classes, decimal
  numbers, \<open>operator>>\<close> and \<open>getline\<close> on a string stream, C strings in byte arrays.
\<close>

section \<open>Characters and numbers\<close>

definition is_space :: "char \<Rightarrow> bool" where
  "is_space c \<longleftrightarrow> c \<in> {CHR '' '', CHR 0x09, CHR 0x0A, CHR 0x0B, CHR 0x0C, CHR 0x0D}"

definition is_digit :: "char \<Rightarrow> bool" where
  "is_digit c \<longleftrightarrow> (of_char c :: nat) \<ge> 48 \<and> (of_char c :: nat) \<le> 57"

definition digit_val :: "char \<Rightarrow> nat" where
  "digit_val c = of_char c - 48"

definition digits_val :: "string \<Rightarrow> nat" where
  "digits_val ds = foldl (\<lambda>v c. 10 * v + digit_val c) 0 ds"

section \<open>String streams\<close>

text \<open>
  \<open>stream >> word\<close>: blanks are skipped and the longest run of other characters is taken; the stream
  fails when there is none. The second component is what the stream still holds.
\<close>

definition next_word :: "string \<Rightarrow> (string \<times> string) option" where
  "next_word str = (let rest = dropWhile is_space str;
        w = takeWhile (\<lambda>c. \<not> is_space c) rest in
     if w = [] then None else Some (w, dropWhile (\<lambda>c. \<not> is_space c) rest))"

text \<open>
  \<open>getline(stream, line, delim)\<close>: fails at the end of the stream; the delimiter is taken out and dropped.
\<close>

definition getline :: "char \<Rightarrow> string \<Rightarrow> (string \<times> string) option" where
  "getline delim str = (if str = [] then None
     else Some (takeWhile (\<lambda>c. c \<noteq> delim) str, drop 1 (dropWhile (\<lambda>c. c \<noteq> delim) str)))"

lemma getline_shorter: "getline delim str = Some (line, rest) \<Longrightarrow> length rest < length str"
proof -
  assume "getline delim str = Some (line, rest)"
  then have ne: "str \<noteq> []" and r: "rest = drop 1 (dropWhile (\<lambda>c. c \<noteq> delim) str)"
    by (auto simp: getline_def split: if_splits)
  have "length (dropWhile (\<lambda>c. c \<noteq> delim) str) \<le> length str" by (rule length_dropWhile_le)
  with ne r show ?thesis by (cases str) (auto simp: le_diff_conv)
qed

section \<open>C strings in byte arrays\<close>

abbreviation nul :: char where "nul \<equiv> CHR 0x00"

text \<open>The string that starts at the front of an array, and \<open>strcpy\<close> to it.\<close>

definition c_string :: "string \<Rightarrow> string" where
  "c_string bytes = takeWhile (\<lambda>c. c \<noteq> nul) bytes"

definition strcpy :: "string \<Rightarrow> string \<Rightarrow> string" where
  "strcpy dst src = src @ nul # drop (Suc (length src)) dst"

lemma c_string_strcpy [simp]: "nul \<notin> set src \<Longrightarrow> c_string (strcpy dst src) = src"
  by (auto simp: c_string_def strcpy_def takeWhile_append)

lemma length_strcpy [simp]: "length src < length dst \<Longrightarrow> length (strcpy dst src) = length dst"
  by (simp add: strcpy_def)

text \<open>The decimal digits of a number, as \<open>operator<<\<close> writes it.\<close>

fun show_nat :: "nat \<Rightarrow> string" where
  "show_nat n = (if n < 10 then [char_of (48 + n)] else show_nat (n div 10) @ [char_of (48 + n mod 10)])"

declare show_nat.simps [simp del]

lemma digit_char:
  assumes "n < (10::nat)"
  shows "is_digit (char_of (48 + n))" "digit_val (char_of (48 + n)) = n" "\<not> is_space (char_of (48 + n))"
    "char_of (48 + n) \<noteq> CHR ''-''" "char_of (48 + n) \<noteq> CHR ''+''"
proof -
  have o: "(of_char (char_of (48 + n)) :: nat) = 48 + n" using assms by simp
  then show "is_digit (char_of (48 + n))" "digit_val (char_of (48 + n)) = n"
    using assms by (simp_all add: is_digit_def digit_val_def)
  have ne: "char_of (48 + n) \<noteq> c" if "(of_char c :: nat) < 48" for c using o that by auto
  show "char_of (48 + n) \<noteq> CHR ''-''" "char_of (48 + n) \<noteq> CHR ''+''" by (rule ne; simp)+
  show "\<not> is_space (char_of (48 + n))" unfolding is_space_def using ne by auto
qed

lemma show_nat_digits: "\<forall>c \<in> set (show_nat n). is_digit c \<and> \<not> is_space c \<and> c \<noteq> CHR ''-'' \<and> c \<noteq> CHR ''+''"
proof (induction n rule: show_nat.induct)
  case (1 n)
  show ?case using 1 digit_char [of n] digit_char [of "n mod 10"]
    by (cases "n < 10") (auto simp: show_nat.simps [of n])
qed

lemma show_nat_not_nil: "show_nat n \<noteq> []"
  by (subst show_nat.simps) simp

lemma digits_val_show: "digits_val (show_nat n) = n"
proof (induction n rule: show_nat.induct)
  case (1 n)
  show ?case
  proof (cases "n < 10")
    case True
    then show ?thesis using digit_char(2) [of n] by (simp add: show_nat.simps [of n] digits_val_def)
  next
    case False
    then have "digits_val (show_nat (n div 10)) = n div 10" by (rule 1)
    with False digit_char(2) [of "n mod 10"] show ?thesis
      by (simp add: show_nat.simps [of n] digits_val_def)
  qed
qed

lemma length_show_nat: "length (show_nat n) = (if n < 10 then 1 else Suc (length (show_nat (n div 10))))"
  by (subst show_nat.simps) simp

text \<open>At most three digits.\<close>

lemma short_number: "length (show_nat n) \<le> 3 \<longleftrightarrow> n < 1000"
proof -
  have "0 < length (show_nat k)" for k using show_nat_not_nil [of k] by simp
  then show ?thesis using div_less_dividend
    by (subst length_show_nat, subst length_show_nat, subst length_show_nat, subst length_show_nat) (auto simp: div_mult2_eq [symmetric])
qed

end
