(* ===== verification/Disk_Scheduler.thy ===== *)
theory Disk_Scheduler imports Text_Input begin

text \<open>
  Project1/scheduler.cpp: the disk scheduler. Requester threads put the tracks of their files
  into a bounded queue, one outstanding request each; a server thread serves the request nearest
  to the head whenever the queue is as full as it can get. Every access to the shared variables
  is made with \<open>mutex1\<close> held, so the code between taking the mutex (in \<open>lock\<close>, or on the way out
  of \<open>wait\<close>) and giving it up (in \<open>unlock\<close>, or on the way into \<open>wait\<close>) is one step; any thread that
  can take the mutex may be the next to do so.
\<close>

section \<open>Data\<close>

text \<open>
  A requester or the server is about to take the mutex and test its guard, waits on its
  condition variable, or has left its loop.
\<close>

datatype pc = Ready_to_lock | Waiting | Finished

datatype print = Print_request nat nat | Print_service nat nat

record sched =
  cur_track :: int
  max_disk_queue :: nat
  requester_num :: nat
  disk_queue :: "(nat \<times> nat) list"
  disk_queue_full :: bool
  requester_done :: "int list"
  tracks :: "nat list list"
  requester_pc :: "pc list"
  server_pc :: pc
  printed :: "print list"

text \<open>Conversion of an \<open>unsigned int\<close> to \<open>int\<close>.\<close>

definition int_of_uint :: "nat \<Rightarrow> int" where
  "int_of_uint n = (if n < 2 ^ 31 then int n else int n - 2 ^ 32)"

section \<open>Reading the request files\<close>

text \<open>
  \<open>std::stoul\<close>: blanks, a sign, then the longest run of digits; \<open>None\<close> is an exception (no digits,
  or a value above the range of \<open>unsigned long\<close>). A minus sign negates in the unsigned type.
\<close>

definition stoul :: "string \<Rightarrow> nat option" where
  "stoul str =
     (let s1 = dropWhile is_space str;
          neg = (s1 \<noteq> [] \<and> hd s1 = CHR ''-'');
          s2 = (if s1 \<noteq> [] \<and> (hd s1 = CHR ''-'' \<or> hd s1 = CHR ''+'') then tl s1 else s1);
          ds = takeWhile is_digit s2;
          v = digits_val ds
      in if ds = [] \<or> v \<ge> 2 ^ 64 then None
         else Some (if neg \<and> v \<noteq> 0 then 2 ^ 64 - v else v))"

text \<open>The loop over the lines of a file; the cast keeps the low 32 bits.\<close>

fun read_tracks :: "string list \<Rightarrow> nat list option" where
  "read_tracks [] = Some []"
| "read_tracks (line # ls) = (case stoul line of None \<Rightarrow> None
     | Some v \<Rightarrow> map_option (\<lambda>ts. v mod 2 ^ 32 # ts) (read_tracks ls))"

fun read_files :: "string list list \<Rightarrow> nat list list option" where
  "read_files [] = Some []"
| "read_files (f # fs) = (case read_tracks f of None \<Rightarrow> None
     | Some ts \<Rightarrow> map_option (\<lambda>tss. ts # tss) (read_files fs))"

text \<open>
  \<open>main\<close> and \<open>schedule\<close>: one requester per file, every \<open>requester_done\<close> 1. A requester without
  requests never enters its loop.
\<close>

definition start :: "nat \<Rightarrow> nat list list \<Rightarrow> sched" where
  "start maxq tss = \<lparr>cur_track = 0, max_disk_queue = maxq, requester_num = length tss,
     disk_queue = [], disk_queue_full = False, requester_done = replicate (length tss) 1,
     tracks = tss, requester_pc = map (\<lambda>ts. if ts = [] then Finished else Ready_to_lock) tss,
     server_pc = Ready_to_lock, printed = []\<rparr>"

definition sched_main :: "nat \<Rightarrow> string list list \<Rightarrow> sched option" where
  "sched_main maxq files = map_option (start maxq) (read_files files)"

section \<open>The server\<close>

text \<open>The search loop over the queue, with its loop variables \<open>i\<close>, \<open>target_index\<close> and \<open>diff\<close>. The distance is that of
  mathematical integers. In the code it is an \<open>int\<close>, so that this is what it computes as long as the two tracks are less than \<open>2 ^ 31\<close> apart;
  beyond that the subtraction overflows, which C++ leaves undefined.\<close>

fun nearest :: "int \<Rightarrow> (nat \<times> nat) list \<Rightarrow> nat \<Rightarrow> nat \<Rightarrow> int \<Rightarrow> nat" where
  "nearest cur [] i target_index diff = target_index"
| "nearest cur ((r, track) # q) i target_index diff =
     (let tmp = int_of_uint track in
      if \<bar>cur - tmp\<bar> < diff then nearest cur q (Suc i) i \<bar>cur - tmp\<bar>
      else nearest cur q (Suc i) target_index diff)"

definition target_index :: "sched \<Rightarrow> nat" where
  "target_index s = nearest (cur_track s) (disk_queue s) 0 0 1000"

definition erase_at :: "nat \<Rightarrow> 'a list \<Rightarrow> 'a list" where
  "erase_at k xs = take k xs @ drop (Suc k) xs"

definition wake :: "pc \<Rightarrow> pc" where
  "wake p = (if p = Waiting then Ready_to_lock else p)"

text \<open>
  The server's critical section after its guard, and the test after it; \<open>None\<close> is an access past
  the end of the queue.
\<close>

definition serve :: "sched \<Rightarrow> sched option" where
  "serve s = (let k = target_index s in
     if k \<ge> length (disk_queue s) then None else
     let (req, track) = disk_queue s ! k;
         q = erase_at k (disk_queue s);
         num = (if requester_done s ! req = -1 then requester_num s - 1 else requester_num s)
     in Some (s\<lparr>cur_track := int_of_uint track, disk_queue := q,
          printed := printed s @ [Print_service req track],
          requester_num := num,
          disk_queue_full := (length q = min num (max_disk_queue s)),
          requester_done := (requester_done s)[req := 1],
          requester_pc := map wake (requester_pc s),
          server_pc := (if num = 0 then Finished else Ready_to_lock)\<rparr>))"

section \<open>The requesters\<close>

definition may_request :: "nat \<Rightarrow> sched \<Rightarrow> bool" where
  "may_request i s \<longleftrightarrow> \<not> (disk_queue_full s \<or> requester_done s ! i = 0)"

definition request :: "nat \<Rightarrow> sched \<Rightarrow> sched" where
  "request i s = (let track = hd (tracks s ! i); rest = tl (tracks s ! i);
         q = disk_queue s @ [(i, track)]
     in s\<lparr>disk_queue := q, tracks := (tracks s)[i := rest],
          printed := printed s @ [Print_request i track],
          disk_queue_full := (if length q = min (requester_num s) (max_disk_queue s) then True
                              else disk_queue_full s),
          requester_done := (requester_done s)[i := (if rest = [] then -1 else 0)],
          server_pc := wake (server_pc s),
          requester_pc := (requester_pc s)[i := (if rest = [] then Finished else Ready_to_lock)]\<rparr>)"

section \<open>The program\<close>

inductive sched_step :: "sched \<Rightarrow> sched \<Rightarrow> bool" where
  requester_waits: "i < length (requester_pc s) \<Longrightarrow> requester_pc s ! i = Ready_to_lock \<Longrightarrow>
    \<not> may_request i s \<Longrightarrow> sched_step s (s\<lparr>requester_pc := (requester_pc s)[i := Waiting]\<rparr>)"
| requester_requests: "i < length (requester_pc s) \<Longrightarrow> requester_pc s ! i = Ready_to_lock \<Longrightarrow>
    may_request i s \<Longrightarrow> sched_step s (request i s)"
| server_waits: "server_pc s = Ready_to_lock \<Longrightarrow> \<not> disk_queue_full s \<Longrightarrow>
    sched_step s (s\<lparr>server_pc := Waiting\<rparr>)"
| server_serves: "server_pc s = Ready_to_lock \<Longrightarrow> disk_queue_full s \<Longrightarrow> serve s = Some s' \<Longrightarrow>
    sched_step s s'"

text \<open>Both \<open>join\<close> loops of \<open>schedule\<close> have returned.\<close>

definition all_finished :: "sched \<Rightarrow> bool" where
  "all_finished s \<longleftrightarrow> server_pc s = Finished \<and> (\<forall>p \<in> set (requester_pc s). p = Finished)"

end
