(* ===== verification/Disk_Inv.thy ===== *)
theory Disk_Inv imports Disk_Scheduler begin

text \<open>
  The invariant of the disk scheduler, for runs in which the queue has room for a request: each requester has at most one
  request queued, the queue is marked full exactly when it is as long as the code lets it get, nobody waits without a reason, and the
  printed history accounts for every request. A requester with an empty file is counted in \<open>requester_num\<close> for ever. A rank
  bounds every run.
\<close>

section \<open>The search for the nearest request\<close>

lemma nearest_bound: "nearest cur q i k d = k \<or> nearest cur q i k d < i + length q"
proof (induction q arbitrary: i k d)
  case (Cons p q)
  obtain r t where p: "p = (r, t)" by (cases p)
  show ?case
    using Cons.IH [of "Suc i" i "\<bar>cur - int_of_uint t\<bar>"] Cons.IH [of "Suc i" k d]
    by (auto simp: p Let_def)
qed simp

abbreviation dist_to :: "int \<Rightarrow> nat \<times> nat \<Rightarrow> int" where
  "dist_to cur p \<equiv> \<bar>cur - int_of_uint (snd p)\<bar>"

text \<open>
  What the loop has found after the part \<open>done\<close> of the queue, \<open>i\<close> long: the first of the nearest
  entries, or nothing nearer than \<open>diff\<close>.
\<close>

definition best_of :: "int \<Rightarrow> (nat \<times> nat) list \<Rightarrow> nat \<Rightarrow> int \<Rightarrow> bool" where
  "best_of cur q k d \<longleftrightarrow> k < length q \<and> d = dist_to cur (q ! k) \<and>
     (\<forall>j < length q. d \<le> dist_to cur (q ! j)) \<and> (\<forall>j < k. d < dist_to cur (q ! j))"

lemma nearest_best:
  assumes "(pre = [] \<and> d = D \<and> (\<forall>p \<in> set q. dist_to cur p < D)) \<or> best_of cur pre k d"
    and "pre @ q \<noteq> []"
  shows "best_of cur (pre @ q) (nearest cur q (length pre) k d)
     (dist_to cur ((pre @ q) ! nearest cur q (length pre) k d))"
  using assms
proof (induction q arbitrary: pre k d)
  case Nil
  then show ?case by (auto simp: best_of_def)
next
  case (Cons p q)
  obtain r track where p: "p = (r, track)" by (cases p)
  let ?x = "\<bar>cur - int_of_uint track\<bar>"
  show ?case
  proof (cases "?x < d")
    case True
    have "best_of cur (pre @ [p]) (length pre) ?x"
      using True Cons.prems(1) by (auto simp: best_of_def p nth_append less_Suc_eq)
    from Cons.IH [OF disjI2 [OF this]] True show ?thesis by (simp add: p)
  next
    case False
    with Cons.prems(1) have b: "best_of cur pre k d" by (auto simp: p)
    have "best_of cur (pre @ [p]) k d"
      using b False by (auto simp: best_of_def p nth_append less_Suc_eq)
    from Cons.IH [OF disjI2 [OF this]] False show ?thesis by (simp add: p)
  qed
qed

lemma target_index_bound: "disk_queue s \<noteq> [] \<Longrightarrow> target_index s < length (disk_queue s)"
  using nearest_bound [of "cur_track s" "disk_queue s" 0 0 1000] by (auto simp: target_index_def)

section \<open>History\<close>

fun requests_of :: "nat \<Rightarrow> print list \<Rightarrow> nat list" where
  "requests_of i [] = []"
| "requests_of i (Print_request r t # ps) = (if r = i then t # requests_of i ps else requests_of i ps)"
| "requests_of i (Print_service r t # ps) = requests_of i ps"

fun services_of :: "nat \<Rightarrow> print list \<Rightarrow> nat list" where
  "services_of i [] = []"
| "services_of i (Print_service r t # ps) = (if r = i then t # services_of i ps else services_of i ps)"
| "services_of i (Print_request r t # ps) = services_of i ps"

lemma requests_of_append [simp]: "requests_of i (xs @ ys) = requests_of i xs @ requests_of i ys"
  by (induction xs rule: requests_of.induct) auto

lemma services_of_append [simp]: "services_of i (xs @ ys) = services_of i xs @ services_of i ys"
  by (induction xs rule: services_of.induct) auto

definition queued_of :: "nat \<Rightarrow> (nat \<times> nat) list \<Rightarrow> nat list" where
  "queued_of i q = map snd (filter (\<lambda>p. fst p = i) q)"

lemma queued_of_append [simp]: "queued_of i (xs @ ys) = queued_of i xs @ queued_of i ys"
  by (simp add: queued_of_def)

lemma queued_of_simps [simp]:
  "queued_of i [] = []"
  "queued_of i (p # q) = (if fst p = i then snd p # queued_of i q else queued_of i q)"
  by (simp_all add: queued_of_def)

lemma queued_of_notin: "i \<notin> fst ` set q \<Longrightarrow> queued_of i q = []"
  by (force simp: queued_of_def filter_empty_conv)

section \<open>The invariant\<close>

definition active :: "sched \<Rightarrow> nat set" where
  "active s = {i. i < length (tracks s) \<and> (tracks s ! i \<noteq> [] \<or> requester_done s ! i = -1)}"

definition empty_files :: "nat list list \<Rightarrow> nat" where
  "empty_files tss = length (filter (\<lambda>ts. ts = []) tss)"

lemma empty_files_none: "empty_files tss = 0 \<longleftrightarrow> [] \<notin> set tss"
  by (auto simp: empty_files_def filter_empty_conv)

lemma nonempty_files: "card {i. i < length tss \<and> tss ! i \<noteq> []} + empty_files tss = length tss"
  using sum_length_filter_compl [of "\<lambda>ts. ts = []" tss] by (simp add: empty_files_def length_filter_conv_card)

definition requester_ok :: "nat list list \<Rightarrow> sched \<Rightarrow> nat \<Rightarrow> bool" where
  "requester_ok tss s i \<longleftrightarrow>
     requester_done s ! i \<in> {1, 0, -1} \<and>
     (requester_done s ! i \<noteq> 1 \<longleftrightarrow> i \<in> fst ` set (disk_queue s)) \<and>
     (requester_done s ! i = 0 \<longrightarrow> tracks s ! i \<noteq> []) \<and>
     (requester_done s ! i = -1 \<longrightarrow> tracks s ! i = []) \<and>
     (requester_pc s ! i = Finished \<longleftrightarrow> tracks s ! i = []) \<and>
     (requester_pc s ! i = Waiting \<longrightarrow> \<not> may_request i s) \<and>
     requests_of i (printed s) @ tracks s ! i = tss ! i \<and>
     services_of i (printed s) @ queued_of i (disk_queue s) = requests_of i (printed s)"

definition sched_inv :: "nat \<Rightarrow> nat list list \<Rightarrow> sched \<Rightarrow> bool" where
  "sched_inv maxq tss s \<longleftrightarrow>
     length (requester_done s) = length tss \<and> length (tracks s) = length tss \<and>
     length (requester_pc s) = length tss \<and> max_disk_queue s = maxq \<and> 0 < maxq \<and>
     distinct (map fst (disk_queue s)) \<and> fst ` set (disk_queue s) \<subseteq> {..<length tss} \<and>
     requester_num s = card (active s) + empty_files tss \<and>
     length (disk_queue s) \<le> min (requester_num s) maxq \<and>
     (disk_queue_full s \<longleftrightarrow> length (disk_queue s) = min (requester_num s) maxq) \<and>
     (server_pc s = Waiting \<longrightarrow> \<not> disk_queue_full s) \<and>
     (server_pc s = Finished \<longleftrightarrow> requester_num s = 0) \<and>
     (\<forall>i < length tss. requester_ok tss s i)"

definition sched_init :: "nat \<Rightarrow> nat list list \<Rightarrow> sched \<Rightarrow> bool" where
  "sched_init maxq tss s \<longleftrightarrow> 0 < maxq \<and> tss \<noteq> [] \<and> s = start maxq tss"

lemma start_inv:
  assumes "sched_init maxq tss s" shows "sched_inv maxq tss s"
proof -
  have "active (start maxq tss) = {i. i < length tss \<and> tss ! i \<noteq> []}"
    by (auto simp: active_def start_def)
  with nonempty_files [of tss] show ?thesis using assms
    by (auto simp: sched_inv_def sched_init_def requester_ok_def start_def may_request_def queued_of_def)
qed

lemma request_inv:
  assumes I: "sched_inv maxq tss s" and i: "i < length tss" "requester_pc s ! i = Ready_to_lock"
    and ok: "may_request i s"
  shows "sched_inv maxq tss (request i s)"
proof -
  have L: "length (requester_done s) = length tss" "length (tracks s) = length tss"
    "length (requester_pc s) = length tss" using I by (simp_all add: sched_inv_def)
  have R: "requester_ok tss s j" if "j < length tss" for j using I that by (simp add: sched_inv_def)
  have tr: "tracks s ! i \<noteq> []" using R [OF i(1)] i(2) by (auto simp: requester_ok_def)
  then obtain t ts where t: "tracks s ! i = t # ts" by (cases "tracks s ! i") auto
  have d: "requester_done s ! i = 1" and nq: "i \<notin> fst ` set (disk_queue s)"
    using R [OF i(1)] ok tr by (auto simp: requester_ok_def may_request_def)
  have nf: "\<not> disk_queue_full s" using ok by (simp add: may_request_def)
  let ?s = "request i s"
  have act: "active ?s = active s"
    using i(1) L tr d by (auto simp: active_def request_def Let_def nth_list_update)
  have pre: "i \<notin> set (map fst (disk_queue s))" using nq by simp
  have num: "requester_num ?s = requester_num s" "max_disk_queue ?s = max_disk_queue s"
    by (simp_all add: request_def Let_def)
  have q: "disk_queue ?s = disk_queue s @ [(i, t)]" by (simp add: request_def Let_def t)
  have full: "disk_queue_full ?s \<longleftrightarrow> length (disk_queue ?s) = min (requester_num s) maxq"
    using I nf by (auto simp: request_def Let_def sched_inv_def)
  have size: "Suc (length (disk_queue s)) \<le> min (requester_num s) maxq"
    using I nf by (auto simp: sched_inv_def)
  have "requester_ok tss ?s j" if j: "j < length tss" for j
  proof (cases "j = i")
    case True
    then show ?thesis using R [OF i(1)] i(1) L t nq
      by (auto simp: requester_ok_def request_def Let_def queued_of_notin may_request_def)
  next
    case False
    then show ?thesis using R [OF j] j L
      by (auto simp: requester_ok_def request_def Let_def may_request_def)
  qed
  moreover have "server_pc ?s = (if server_pc s = Waiting then Ready_to_lock else server_pc s)"
    by (simp add: request_def Let_def wake_def)
  ultimately show ?thesis
    using I size full pre act num q L i(1)
    by (auto simp: sched_inv_def request_def Let_def)
qed

text \<open>The queue around the entry that is served.\<close>

lemma serve_split:
  assumes "disk_queue s \<noteq> []"
  obtains xs req track ys where "disk_queue s = xs @ (req, track) # ys"
    "disk_queue s ! target_index s = (req, track)"
    "erase_at (target_index s) (disk_queue s) = xs @ ys" "target_index s < length (disk_queue s)"
proof -
  let ?k = "target_index s" and ?q = "disk_queue s"
  have k: "?k < length ?q" using assms by (rule target_index_bound)
  obtain req track where e: "?q ! ?k = (req, track)" by (cases "?q ! ?k")
  have "?q = take ?k ?q @ (req, track) # drop (Suc ?k) ?q"
    using id_take_nth_drop [OF k] e by simp
  with e k show ?thesis by (intro that [of "take ?k ?q" req track "drop (Suc ?k) ?q"])
    (simp_all add: erase_at_def)
qed

lemma serve_defined: "disk_queue s \<noteq> [] \<Longrightarrow> serve s \<noteq> None"
  using target_index_bound [of s] by (auto simp: serve_def Let_def split: prod.splits)

lemma serve_inv:
  assumes I: "sched_inv maxq tss s" and full: "disk_queue_full s" and live: "server_pc s = Ready_to_lock"
    and S: "serve s = Some s'"
  shows "sched_inv maxq tss s'"
proof -
  have L: "length (requester_done s) = length tss" "length (tracks s) = length tss"
    "length (requester_pc s) = length tss" using I by (simp_all add: sched_inv_def)
  have R: "requester_ok tss s j" if "j < length tss" for j using I that by (simp add: sched_inv_def)
  have num: "requester_num s \<noteq> 0" "0 < maxq" "requester_num s = card (active s) + empty_files tss"
    using I live by (auto simp: sched_inv_def)
  then have ne: "disk_queue s \<noteq> []" using I full by (auto simp: sched_inv_def)
  from ne obtain xs req track ys where q: "disk_queue s = xs @ (req, track) # ys"
    and nth: "disk_queue s ! target_index s = (req, track)"
    and er: "erase_at (target_index s) (disk_queue s) = xs @ ys"
    and k: "target_index s < length (disk_queue s)" by (rule serve_split)
  have dist: "distinct (map fst (disk_queue s))" and sub: "fst ` set (disk_queue s) \<subseteq> {..<length tss}"
    using I by (simp_all add: sched_inv_def)
  have req: "req < length tss" using sub q by auto
  have notin: "req \<notin> fst ` set xs" "req \<notin> fst ` set ys" using dist q by auto
  define last where "last \<longleftrightarrow> requester_done s ! req = -1"
  let ?num = "if last then requester_num s - 1 else requester_num s"
  have d: "last \<longleftrightarrow> tracks s ! req = []" "requester_done s ! req \<noteq> 1"
    using R [OF req] q by (auto simp: requester_ok_def last_def)
  have s': "s' = s\<lparr>cur_track := int_of_uint track, disk_queue := xs @ ys,
      printed := printed s @ [Print_service req track], requester_num := ?num,
      disk_queue_full := (length (xs @ ys) = min ?num (max_disk_queue s)),
      requester_done := (requester_done s)[req := 1], requester_pc := map wake (requester_pc s),
      server_pc := (if ?num = 0 then Finished else Ready_to_lock)\<rparr>"
    using S k by (simp add: serve_def Let_def nth er last_def)
  have act: "active s' = (if last then active s - {req} else active s)"
    using req L d by (auto simp: active_def s' nth_list_update last_def)
  have mem: "last \<Longrightarrow> req \<in> active s" using req L by (simp add: active_def last_def)
  have "finite (active s)" by (simp add: active_def)
  moreover have "requester_num s' = ?num" unfolding s' by simp
  moreover have "0 < card (active s)" if last using mem [OF that] \<open>finite (active s)\<close> by (auto simp: card_gt_0_iff)
  ultimately have card: "requester_num s' = card (active s') + empty_files tss"
    using num(3) mem act by (cases last) (simp_all add: card_Diff_singleton)
  have size: "length (disk_queue s) = min (requester_num s) maxq" using I full by (simp add: sched_inv_def)
  have ok: "requester_ok tss s' j" if j: "j < length tss" for j
  proof (cases "j = req")
    case True
    then show ?thesis using R [OF req] req L q notin
      by (auto simp: requester_ok_def s' wake_def queued_of_notin may_request_def)
  next
    case False
    then show ?thesis using R [OF j] j L q
      by (auto simp: requester_ok_def s' wake_def may_request_def split: if_splits)
  qed
  have size': "length (disk_queue s') \<le> min (requester_num s') maxq"
    using size q num(1) by (auto simp: s')
  show ?thesis unfolding sched_inv_def
  proof (intro conjI)
    show "\<forall>i < length tss. requester_ok tss s' i" using ok by blast
    show "requester_num s' = card (active s') + empty_files tss" by (rule card)
    show "length (disk_queue s') \<le> min (requester_num s') maxq" by (rule size')
  qed (use I q L sub dist in \<open>auto simp: s' sched_inv_def\<close>)
qed

lemma active_pcs [simp]:
  "active (s\<lparr>requester_pc := p\<rparr>) = active s" "active (s\<lparr>server_pc := w\<rparr>) = active s"
  by (simp_all add: active_def)

lemma requester_waits_inv:
  assumes I: "sched_inv maxq tss s" and i: "i < length (requester_pc s)" "requester_pc s ! i = Ready_to_lock"
    and no: "\<not> may_request i s"
  shows "sched_inv maxq tss (s\<lparr>requester_pc := (requester_pc s)[i := Waiting]\<rparr>)"
proof -
  let ?s = "s\<lparr>requester_pc := (requester_pc s)[i := Waiting]\<rparr>"
  have "requester_ok tss ?s j" if "j < length tss" for j
  proof -
    have "requester_ok tss s j" using I that by (simp add: sched_inv_def)
    then show ?thesis using i no
      by (cases "j = i") (auto simp: requester_ok_def may_request_def)
  qed
  then show ?thesis using I by (auto simp: sched_inv_def)
qed

lemma server_waits_inv:
  assumes I: "sched_inv maxq tss s" and "server_pc s = Ready_to_lock" "\<not> disk_queue_full s"
  shows "sched_inv maxq tss (s\<lparr>server_pc := Waiting\<rparr>)"
proof -
  have "requester_ok tss (s\<lparr>server_pc := Waiting\<rparr>) j = requester_ok tss s j" for j
    by (simp add: requester_ok_def may_request_def)
  then show ?thesis using assms by (auto simp: sched_inv_def)
qed

lemma sched_step_inv:
  assumes "sched_inv maxq tss s" "sched_step s s'" shows "sched_inv maxq tss s'"
  using assms(2)
proof (cases rule: sched_step.cases)
  case (requester_waits i)
  show ?thesis unfolding requester_waits(1)
    by (rule requester_waits_inv [OF assms(1) requester_waits(2-4)])
next
  case (requester_requests i)
  then have "i < length tss" using assms(1) by (simp add: sched_inv_def)
  then show ?thesis unfolding requester_requests(1)
    by (rule request_inv [OF assms(1) _ requester_requests(3,4)])
next
  case server_waits
  show ?thesis unfolding server_waits(1)
    by (rule server_waits_inv [OF assms(1) server_waits(2,3)])
next
  case server_serves
  show ?thesis by (rule serve_inv [OF assms(1) server_serves(2,1,3)])
qed

section \<open>Progress and rank\<close>

lemma queued_active:
  assumes "sched_inv maxq tss s"
  shows "fst ` set (disk_queue s) \<subseteq> active s" "card (fst ` set (disk_queue s)) = length (disk_queue s)"
    "length (disk_queue s) \<le> card (active s)"
proof -
  show sub: "fst ` set (disk_queue s) \<subseteq> active s"
  proof
    fix i assume i: "i \<in> fst ` set (disk_queue s)"
    with assms have "i < length tss" by (auto simp: sched_inv_def)
    with assms i show "i \<in> active s" by (auto simp: sched_inv_def requester_ok_def active_def)
  qed
  show c: "card (fst ` set (disk_queue s)) = length (disk_queue s)"
    using assms distinct_card [of "map fst (disk_queue s)"] by (simp add: sched_inv_def)
  show "length (disk_queue s) \<le> card (active s)" using card_mono [OF _ sub] c by (simp add: active_def)
qed

text \<open>The server waits for a queue that cannot get as long as it asks for, every requester with work being in it already.\<close>

definition hung :: "nat list list \<Rightarrow> sched \<Rightarrow> bool" where
  "hung tss s \<longleftrightarrow> [] \<in> set tss \<and> server_pc s = Waiting \<and> \<not> disk_queue_full s \<and> active s = fst ` set (disk_queue s)"

text \<open>
  While requests are left some thread can move, or there is an empty file: if the server waits, the queue is not full, and
  then one of the requesters with work is not in the queue and may request.
\<close>

lemma sched_progress:
  assumes I: "sched_inv maxq tss s" and "\<not> (all_finished s \<or> hung tss s)" shows "\<exists>s'. sched_step s s'"
proof (cases "server_pc s = Ready_to_lock")
  case True
  show ?thesis
  proof (cases "disk_queue_full s")
    case full: True
    have "disk_queue s \<noteq> []" using I True full by (auto simp: sched_inv_def)
    then obtain s' where "serve s = Some s'" using serve_defined by blast
    with True full show ?thesis by (blast intro: server_serves)
  next
    case False
    with True show ?thesis by (blast intro: server_waits)
  qed
next
  case notready: False
  have L: "length (tracks s) = length tss" "length (requester_pc s) = length tss"
    using I by (simp_all add: sched_inv_def)
  have R: "requester_ok tss s j" if "j < length tss" for j using I that by (simp add: sched_inv_def)
  have num: "requester_num s \<noteq> 0"
  proof
    assume z: "requester_num s = 0"
    then have "server_pc s = Finished" "active s = {}" using I by (auto simp: sched_inv_def active_def)
    moreover have "requester_pc s ! j = Finished" if "j < length tss" for j
      using R [OF that] \<open>active s = {}\<close> that L by (auto simp: active_def requester_ok_def)
    ultimately show False using assms(2) L by (auto simp: all_finished_def in_set_conv_nth)
  qed
  then have "server_pc s = Waiting" using notready I by (cases "server_pc s") (auto simp: sched_inv_def)
  then have nf: "\<not> disk_queue_full s" using I unfolding sched_inv_def by blast
  note Q = queued_active [OF I]
  obtain i where i: "i \<in> active s" "i \<notin> fst ` set (disk_queue s)"
  proof (rule ccontr)
    assume "\<not> thesis"
    then have e: "active s = fst ` set (disk_queue s)" using Q(1) that by blast
    then have "requester_num s = length (disk_queue s) + empty_files tss" using I Q(2) by (simp add: sched_inv_def)
    moreover have "length (disk_queue s) < requester_num s" using I nf by (auto simp: sched_inv_def)
    ultimately have "[] \<in> set tss" using empty_files_none [of tss] by auto
    with e nf \<open>server_pc s = Waiting\<close> assms(2) show False by (simp add: hung_def)
  qed
  then have il: "i < length tss" using L by (simp add: active_def)
  from R [OF il] i have "requester_done s ! i = 1" "tracks s ! i \<noteq> []"
    by (auto simp: requester_ok_def active_def)
  with R [OF il] nf have "requester_pc s ! i = Ready_to_lock" "may_request i s"
    by (cases "requester_pc s ! i"; auto simp: requester_ok_def may_request_def)+
  with il L have "sched_step s (request i s)" by (intro requester_requests) simp_all
  then show ?thesis ..
qed

definition work :: "sched \<Rightarrow> nat" where
  "work s = 2 * sum_list (map length (tracks s)) + length (disk_queue s)"

definition ready_count :: "sched \<Rightarrow> nat" where
  "ready_count s = length (filter (\<lambda>p. p = Ready_to_lock) (requester_pc s))
     + (if server_pc s = Ready_to_lock then 1 else 0)"

definition sched_rank :: "sched \<Rightarrow> nat" where
  "sched_rank s = work s * (length (requester_pc s) + 2) + ready_count s"

lemma ready_count_bound: "ready_count s \<le> length (requester_pc s) + 1"
  using length_filter_le [of "\<lambda>p. p = Ready_to_lock" "requester_pc s"]
  by (auto simp: ready_count_def intro: le_SucI)

lemma rank_by_work:
  assumes "work s' < work s" "length (requester_pc s') = length (requester_pc s)"
  shows "sched_rank s' < sched_rank s"
proof -
  let ?n = "length (requester_pc s) + 2"
  have "work s' * ?n + ?n \<le> work s * ?n" using assms(1)
    by (metis Suc_leI add.commute mult_Suc mult_le_mono1)
  then show ?thesis using ready_count_bound [of s'] assms(2) by (simp add: sched_rank_def)
qed

lemma filter_update_less:
  "i < length xs \<Longrightarrow> P (xs ! i) \<Longrightarrow> \<not> P y \<Longrightarrow> length (filter P (xs[i := y])) < length (filter P xs)"
proof (induction xs arbitrary: i)
  case (Cons x xs)
  then show ?case by (cases i) auto
qed simp

lemma sum_list_update_tl:
  "i < length xss \<Longrightarrow> xss ! i \<noteq> [] \<Longrightarrow>
   Suc (sum_list (map length (xss[i := tl (xss ! i)]))) = sum_list (map length xss)"
proof (induction xss arbitrary: i)
  case (Cons xs xss)
  then show ?case by (cases i; cases xs) auto
qed simp

lemma sched_rank_step:
  assumes I: "sched_inv maxq tss s" and "sched_step s s'" shows "sched_rank s' < sched_rank s"
  using assms(2)
proof (cases rule: sched_step.cases)
  case (requester_waits i)
  then show ?thesis using filter_update_less [of i "requester_pc s" "\<lambda>p. p = Ready_to_lock" Waiting]
    by (simp add: sched_rank_def work_def ready_count_def)
next
  case (requester_requests i)
  have "tracks s ! i \<noteq> []" "i < length (tracks s)"
    using I requester_requests by (auto simp: sched_inv_def requester_ok_def)
  from sum_list_update_tl [OF this(2,1)] show ?thesis
    unfolding requester_requests(1) by (intro rank_by_work) (simp_all add: request_def Let_def work_def)
next
  case server_waits
  then show ?thesis by (simp add: sched_rank_def work_def ready_count_def)
next
  case server_serves
  then have "disk_queue s \<noteq> []" using I by (auto simp: sched_inv_def)
  then obtain xs r t ys where q: "disk_queue s = xs @ (r, t) # ys"
    "erase_at (target_index s) (disk_queue s) = xs @ ys" by (rule serve_split)
  have "disk_queue s' = xs @ ys" "tracks s' = tracks s" "length (requester_pc s') = length (requester_pc s)"
    using server_serves(3) q(2) by (auto simp: serve_def Let_def split: prod.splits if_splits)
  with q(1) show ?thesis by (intro rank_by_work) (simp_all add: work_def)
qed

interpretation disk: ranked_system "sched_init maxq tss" sched_step "sched_inv maxq tss" sched_rank "\<lambda>s. all_finished s \<or> hung tss s"
proof unfold_locales
  show "sched_init maxq tss s \<Longrightarrow> sched_inv maxq tss s" for s by (rule start_inv)
  show "sched_inv maxq tss s \<Longrightarrow> sched_step s s' \<Longrightarrow> sched_inv maxq tss s'" for s s' by (rule sched_step_inv)
  show "sched_inv maxq tss s \<Longrightarrow> sched_step s s' \<Longrightarrow> sched_rank s' < sched_rank s" for s s'
    by (rule sched_rank_step)
  show "sched_inv maxq tss s \<Longrightarrow> \<not> (all_finished s \<or> hung tss s) \<Longrightarrow> \<exists>s'. sched_step s s'" for s by (rule sched_progress)
qed

end
