(* ===== verification/Disk_Props.thy ===== *)
theory Disk_Props imports Disk_Inv begin

text \<open>
  What the disk scheduler does: every run ends, with every request served once and in order; the
  queue is only served when it cannot grow, and the nearest request is taken. Empty request files
  break it, as the last theorem shows.
\<close>

section \<open>Reading decimal files\<close>

lemma stoul_show: "n < 2 ^ 64 \<Longrightarrow> stoul (show_nat n) = Some n"
proof -
  assume n: "n < 2 ^ 64"
  obtain c cs where s: "show_nat n = c # cs" using show_nat_not_nil by (cases "show_nat n") auto
  have c: "\<not> is_space c" "c \<noteq> CHR ''-''" "c \<noteq> CHR ''+''" using show_nat_digits [of n] s by auto
  have d: "takeWhile is_digit (show_nat n) = show_nat n" using show_nat_digits [of n] by simp
  have "dropWhile is_space (show_nat n) = show_nat n" using s c(1) by simp
  with c d n digits_val_show [of n] show ?thesis by (simp add: stoul_def s Let_def)
qed

section \<open>The properties\<close>

text \<open>A request file with one decimal track number per line, each in the range of \<open>unsigned int\<close>,
  is read as exactly these tracks.\<close>

lemma read_tracks_decimal:
  assumes "\<forall>t \<in> set ts. t < 2 ^ 32"
  shows "read_tracks (map show_nat ts) = Some ts"
  using assms by (induction ts) (auto simp: stoul_show)

lemma read_tracks_decimal_witness: "read_tracks (map show_nat [53, 785]) = Some [53, 785]"
  by (rule read_tracks_decimal) simp

text \<open>C8. The threads do not run for ever: from a start with a requester and room in the queue, whatever is in the files, no
  run is longer than a bound computed from the number of requests and of requesters.\<close>

theorem scheduler_terminates:
  assumes "0 < maxq" and "tss \<noteq> []"
    and "steps_in sched_step n (start maxq tss) s"
  shows "n \<le> 2 * sum_list (map length tss) * (length tss + 2) + length tss + 1"
proof -
  have init: "sched_init maxq tss (start maxq tss)" using assms(1,2) by (simp add: sched_init_def)
  then have "n + sched_rank s \<le> sched_rank (start maxq tss)"
    using assms(3) by (intro disk.steps_bounded disk.inv_init)
  also have "\<dots> \<le> 2 * sum_list (map length tss) * (length tss + 2) + length tss + 1"
    using ready_count_bound [of "start maxq tss"] by (simp add: sched_rank_def work_def start_def)
  finally show ?thesis by simp
qed

theorem scheduler_terminates_witness:
  "\<exists>s. steps_in sched_step 1 (start 1 [[7]]) s \<and> (1::nat) \<le> 2 * 1 * (1 + 2) + 1 + 1"
proof -
  have "sched_step (start 1 [[7]]) (request 0 (start 1 [[7]]))"
    by (rule requester_requests) (simp_all add: start_def may_request_def)
  then have s: "steps_in sched_step 1 (start 1 [[7]]) (request 0 (start 1 [[7]]))"
    by (metis One_nat_def steps_in.intros)
  from scheduler_terminates [OF _ _ s] s show ?thesis by auto
qed

text \<open>C7. No deadlock and no lost request, when no request file is empty, there is a requester, and the queue has room: a run that cannot go
  on has finished, and then every request of every file was put in the queue once and served once, in the order of its file.\<close>

theorem scheduler_serves_everything:
  assumes "0 < maxq" and "tss \<noteq> []" and "[] \<notin> set tss"
    and "reach (sched_init maxq tss) sched_step s" and "\<nexists>s'. sched_step s s'" and "i < length tss"
  shows "all_finished s \<and> requests_of i (printed s) = tss ! i \<and> services_of i (printed s) = tss ! i"
proof -
  have I: "sched_inv maxq tss s" by (rule disk.inv_reach [OF assms(4)])
  have "\<not> hung tss s" using assms(3) by (simp add: hung_def)
  with assms(5) I have fin: "all_finished s" using disk.progress by blast
  have ok: "requester_ok tss s i" using I assms(6) by (simp add: sched_inv_def)
  have "requester_pc s ! i = Finished" using fin I assms(6) by (simp add: all_finished_def sched_inv_def)
  then have tr: "tracks s ! i = []" using ok by (simp add: requester_ok_def)
  have "active s = {}" using fin I by (auto simp: all_finished_def sched_inv_def active_def)
  with tr I assms(6) have "requester_done s ! i \<noteq> -1" "requester_done s ! i \<noteq> 0"
    using ok by (auto simp: active_def sched_inv_def requester_ok_def)
  then have "i \<notin> fst ` set (disk_queue s)" using ok by (auto simp: requester_ok_def)
  with ok tr fin show ?thesis by (simp add: requester_ok_def queued_of_notin)
qed

text \<open>The run of one requester with one request.\<close>

lemma one_request_run:
  defines "s1 \<equiv> request 0 (start 1 [[7]])"
  shows "\<exists>s2. serve s1 = Some s2 \<and> reach (sched_init 1 [[7]]) sched_step s2 \<and> (\<nexists>s3. sched_step s2 s3)"
proof -
  have init: "reach (sched_init 1 [[7]]) sched_step (start 1 [[7]])"
    by (rule reach.reach_init) (simp add: sched_init_def)
  have st: "sched_step (start 1 [[7]]) s1" unfolding s1_def
    by (rule requester_requests) (simp_all add: start_def may_request_def)
  have s1: "s1 = (start 1 [[7]])\<lparr>disk_queue := [(0, 7)], disk_queue_full := True, requester_done := [-1],
      tracks := [[]], requester_pc := [Finished], printed := [Print_request 0 7]\<rparr>"
    by (simp add: s1_def request_def start_def wake_def)
  obtain s2 where s2: "serve s1 = Some s2"
    using serve_defined [of s1] by (auto simp: s1)
  have s2': "requester_pc s2 = [Finished]" "server_pc s2 = Finished"
    using s2 by (auto simp: s1 serve_def start_def target_index_def Let_def int_of_uint_def wake_def)
  have "sched_step s1 s2" by (rule server_serves) (simp_all add: s1 start_def s2 [unfolded s1 start_def, simplified])
  with st init have "reach (sched_init 1 [[7]]) sched_step s2" by (blast intro: reach_step)
  moreover have "\<not> sched_step s2 s3" for s3 using s2' by (auto elim!: sched_step.cases)
  ultimately show ?thesis using s2 by blast
qed

theorem scheduler_serves_everything_witness:
  "\<exists>s :: sched. all_finished s \<and> services_of 0 (printed s) = [7]"
proof -
  from one_request_run obtain s where "reach (sched_init 1 [[7]]) sched_step s" "\<nexists>s'. sched_step s s'"
    by blast
  from scheduler_serves_everything [OF _ _ _ this, of 0] show ?thesis by auto
qed

text \<open>C10. The queue is bounded: it never holds more than \<open>max_disk_queue\<close> requests nor more than one per
  requester that still has work, and no requester has two requests in it.\<close>

theorem disk_queue_bounded:
  assumes "reach (sched_init maxq tss) sched_step s"
  shows "distinct (map fst (disk_queue s)) \<and> length (disk_queue s) \<le> maxq \<and>
     length (disk_queue s) \<le> card {i. i < length tss \<and> (tracks s ! i \<noteq> [] \<or> requester_done s ! i = -1)}"
proof -
  have I: "sched_inv maxq tss s" by (rule disk.inv_reach [OF assms])
  then have "active s = {i. i < length tss \<and> (tracks s ! i \<noteq> [] \<or> requester_done s ! i = -1)}"
    by (simp add: sched_inv_def active_def)
  with queued_active(3) [OF I] I show ?thesis by (simp add: sched_inv_def)
qed

lemma one_request_queued:
  "reach (sched_init 1 [[7]]) sched_step (request 0 (start 1 [[7]]))"
proof (rule reach.reach_step)
  show "reach (sched_init 1 [[7]]) sched_step (start 1 [[7]])"
    by (rule reach.reach_init) (simp add: sched_init_def)
  show "sched_step (start 1 [[7]]) (request 0 (start 1 [[7]]))"
    by (rule requester_requests) (simp_all add: start_def may_request_def)
qed

theorem disk_queue_bounded_witness:
  "length (disk_queue (request 0 (start 1 [[7]]))) \<le> 1 \<and> disk_queue (request 0 (start 1 [[7]])) = [(0, 7)]"
  using disk_queue_bounded [OF one_request_queued] by (simp add: request_def start_def)

text \<open>C9. The server serves only when the queue is as full as it can get (one request of every requester
  that still has work, or \<open>max_disk_queue\<close> requests), and it takes the first of the queued requests at
  the smallest distance from the head, if all are closer than the 1000 tracks the loop starts from.\<close>

theorem nearest_request_served:
  assumes "reach (sched_init maxq tss) sched_step s" and "sched_step s s'"
    and "printed s' = printed s @ [Print_service req track]"
    and "\<forall>p \<in> set (disk_queue s). \<bar>cur_track s - int_of_uint (snd p)\<bar> < 1000"
  shows "length (disk_queue s) = min (card (active s)) maxq \<and> cur_track s' = int_of_uint track \<and>
    (\<exists>k < length (disk_queue s). disk_queue s ! k = (req, track) \<and>
       disk_queue s' = take k (disk_queue s) @ drop (Suc k) (disk_queue s) \<and>
       (\<forall>j < length (disk_queue s). dist_to (cur_track s) (req, track) \<le> dist_to (cur_track s) (disk_queue s ! j)) \<and>
       (\<forall>j < k. dist_to (cur_track s) (req, track) < dist_to (cur_track s) (disk_queue s ! j)))"
  using assms(2)
proof (cases rule: sched_step.cases)
  case server_serves
  have I: "sched_inv maxq tss s" by (rule disk.inv_reach [OF assms(1)])
  then have ne: "disk_queue s \<noteq> []" using server_serves by (auto simp: sched_inv_def)
  have "length (disk_queue s) = min (card (active s) + empty_files tss) maxq" using I server_serves(2) by (simp add: sched_inv_def)
  then have len: "length (disk_queue s) = min (card (active s)) maxq" using queued_active(3) [OF I] by linarith
  have k: "target_index s < length (disk_queue s)" by (rule target_index_bound [OF ne])
  have e: "disk_queue s ! target_index s = (req, track)" "cur_track s' = int_of_uint track"
    "disk_queue s' = erase_at (target_index s) (disk_queue s)"
    using server_serves(3) k assms(3) by (auto simp: serve_def Let_def split: prod.splits)
  have "best_of (cur_track s) (disk_queue s) (target_index s) (dist_to (cur_track s) (req, track))"
    using nearest_best [of "[]" 1000 1000 "disk_queue s" "cur_track s" 0] ne assms(4) e(1)
    by (simp add: target_index_def)
  with k e len show ?thesis by (auto simp: best_of_def erase_at_def intro!: exI [of _ "target_index s"])
qed (use assms(3) in \<open>simp_all add: request_def Let_def\<close>)

theorem nearest_request_served_witness:
  "\<exists>s :: sched. cur_track s = 7 \<and> printed s = [Print_request 0 7, Print_service 0 7]"
proof -
  let ?s = "request 0 (start 1 [[7]])"
  obtain s where s: "serve ?s = Some s" using serve_defined [of ?s] by (auto simp: request_def start_def)
  have "sched_step ?s s"
    by (rule server_serves [OF _ _ s]) (simp_all add: request_def start_def wake_def)
  moreover have p: "printed s = printed ?s @ [Print_service 0 7]"
    using s by (auto simp: serve_def Let_def target_index_def request_def start_def split: if_splits)
  ultimately have "cur_track s = int_of_uint 7"
    using nearest_request_served [OF one_request_queued, of s 0 7]
    by (simp add: request_def start_def int_of_uint_def)
  with p have "cur_track s = 7 \<and> printed s = [Print_request 0 7, Print_service 0 7]"
    by (simp add: request_def start_def int_of_uint_def)
  then show ?thesis by blast
qed

text \<open>With an empty file the queue is served only while \<open>max_disk_queue\<close> requests are in it.\<close>

lemma empty_file_keeps:
  assumes "[] \<in> set tss" "reach (sched_init maxq tss) sched_step s"
  shows "min (length tss - empty_files tss) (maxq - 1) \<le> card (active s)"
  using assms(2)
proof (induction rule: reach.induct)
  case (reach_init s)
  then have "active s = {i. i < length tss \<and> tss ! i \<noteq> []}" by (auto simp: sched_init_def active_def start_def)
  then show ?case using nonempty_files [of tss] by simp
next
  case (reach_step s s')
  have I: "sched_inv maxq tss s" by (rule disk.inv_reach [OF reach_step(1)])
  have fin: "finite (active s)" by (simp add: active_def)
  show ?case using reach_step(2)
  proof (cases rule: sched_step.cases)
    case (requester_requests i)
    have "i < length (tracks s)" "tracks s ! i \<noteq> []" using I requester_requests by (auto simp: sched_inv_def requester_ok_def)
    then have "active s \<subseteq> active s'" using requester_requests I
      by (auto simp: active_def request_def Let_def nth_list_update sched_inv_def)
    then have "card (active s) \<le> card (active s')" by (rule card_mono [rotated]) (simp add: active_def)
    then show ?thesis using reach_step(3) by linarith
  next
    case server_serves
    have I': "sched_inv maxq tss s'" by (rule sched_step_inv [OF I reach_step(2)])
    have "0 < empty_files tss" using assms(1) empty_files_none [of tss] by simp
    moreover have "length (disk_queue s) = min (card (active s) + empty_files tss) maxq"
      using I server_serves(2) by (simp add: sched_inv_def)
    ultimately have "maxq \<le> card (active s)" using queued_active(3) [OF I] by linarith
    moreover have "requester_num s \<le> requester_num s' + 1"
      using server_serves(3) by (auto simp: serve_def Let_def split: prod.splits if_splits)
    then have "card (active s) \<le> card (active s') + 1" using I I' by (simp add: sched_inv_def)
    ultimately show ?thesis by linarith
  qed (use reach_step(3) in simp_all)
qed

text \<open>C11. With an empty file among them the scheduler always hangs. A requester without requests is counted in \<open>requester_num\<close> and
  never served: whatever the other files and the order of the threads, when the run cannot go on (which comes, as all runs are bounded) the
  server waits for a longer queue and the program does not end. Then the queue holds a request of as many requesters as the smaller of
  the number of the other files and of \<open>max_disk_queue - 1\<close>, and these are not served; every other file has been served.\<close>

theorem empty_file_hangs:
  assumes "[] \<in> set tss" "reach (sched_init maxq tss) sched_step s" "\<nexists>s'. sched_step s s'"
  shows "server_pc s = Waiting \<and> \<not> all_finished s \<and>
    length (disk_queue s) = min (length (filter (\<lambda>ts. ts \<noteq> []) tss)) (maxq - 1) \<and>
    (\<forall>i < length tss. services_of i (printed s) @ queued_of i (disk_queue s) @ tracks s ! i = tss ! i \<and>
       (i \<notin> fst ` set (disk_queue s) \<longrightarrow> services_of i (printed s) = tss ! i))"
proof -
  have I: "sched_inv maxq tss s" by (rule disk.inv_reach [OF assms(2)])
  have E: "0 < empty_files tss" using assms(1) empty_files_none [of tss] by simp
  then have "requester_num s \<noteq> 0" using I by (simp add: sched_inv_def)
  then have "server_pc s \<noteq> Finished" using I by (simp add: sched_inv_def)
  then have "\<not> all_finished s" by (simp add: all_finished_def)
  with assms(3) I have h: "hung tss s" using disk.progress by blast
  note Q = queued_active [OF I]
  have len: "length (disk_queue s) = card (active s)" using h Q(2) by (simp add: hung_def)
  have "length (disk_queue s) < min (card (active s) + empty_files tss) maxq" using I h by (auto simp: sched_inv_def hung_def)
  then have "card (active s) \<le> maxq - 1" using len by linarith
  moreover have "card (active s) \<le> length tss - empty_files tss"
  proof -
    have "active s \<subseteq> {i. i < length tss \<and> tss ! i \<noteq> []}"
    proof
      fix i assume i: "i \<in> active s"
      then have "i < length tss" "i \<in> fst ` set (disk_queue s)" using I h by (auto simp: sched_inv_def hung_def active_def)
      moreover from this have "requester_ok tss s i" using I by (simp add: sched_inv_def)
      then have "queued_of i (disk_queue s) \<noteq> [] \<longrightarrow> tss ! i \<noteq> []" by (auto simp: requester_ok_def)
      moreover have "queued_of i (disk_queue s) \<noteq> []" using calculation(2) by (auto simp: queued_of_def filter_empty_conv)
      ultimately show "i \<in> {i. i < length tss \<and> tss ! i \<noteq> []}" by simp
    qed
    then have "card (active s) \<le> card {i. i < length tss \<and> tss ! i \<noteq> []}" by (rule card_mono [rotated]) simp
    then show ?thesis using nonempty_files [of tss] by linarith
  qed
  moreover have "length (filter (\<lambda>ts. ts \<noteq> []) tss) = length tss - empty_files tss"
    using nonempty_files [of tss] by (simp add: length_filter_conv_card)
  ultimately have "length (disk_queue s) = min (length (filter (\<lambda>ts. ts \<noteq> []) tss)) (maxq - 1)"
    using empty_file_keeps [OF assms(1,2)] len by simp
  moreover have "services_of i (printed s) @ queued_of i (disk_queue s) @ tracks s ! i = tss ! i \<and>
       (i \<notin> fst ` set (disk_queue s) \<longrightarrow> services_of i (printed s) = tss ! i)" if i: "i < length tss" for i
  proof -
    have ok: "requester_ok tss s i" using I i by (simp add: sched_inv_def)
    then have all: "services_of i (printed s) @ queued_of i (disk_queue s) @ tracks s ! i = tss ! i"
      unfolding requester_ok_def append_assoc [symmetric] by simp
    have "tracks s ! i = []" if "i \<notin> fst ` set (disk_queue s)"
      using that h i I by (auto simp: hung_def active_def sched_inv_def)
    with all queued_of_notin [of i "disk_queue s"] show ?thesis by auto
  qed
  ultimately show ?thesis using h \<open>\<not> all_finished s\<close> by (simp add: hung_def)
qed

theorem empty_file_hangs_witness:
  "\<exists>s. reach (sched_init 2 [[], [5]]) sched_step s \<and> server_pc s = Waiting \<and> length (disk_queue s) = 1 \<and>
     services_of 1 (printed s) = []"
proof -
  let ?s0 = "start 2 [[], [5]]"
  let ?s1 = "request 1 ?s0"
  let ?s2 = "?s1\<lparr>server_pc := Waiting\<rparr>"
  have "reach (sched_init 2 [[], [5]]) sched_step ?s0" by (rule reach.reach_init) (simp add: sched_init_def)
  moreover have "sched_step ?s0 ?s1" by (rule requester_requests) (simp_all add: start_def may_request_def)
  moreover have "sched_step ?s1 ?s2" by (rule server_waits) (simp_all add: request_def start_def wake_def)
  ultimately have r: "reach (sched_init 2 [[], [5]]) sched_step ?s2" by (blast intro: reach_step)
  have "\<not> sched_step ?s2 t" for t
    by (rule notI, erule sched_step.cases) (auto simp: request_def start_def nth_Cons' split: if_splits)
  then have "\<nexists>t. sched_step ?s2 t" by blast
  from empty_file_hangs [OF _ r this] r show ?thesis
    by (intro exI [of _ ?s2]) (simp add: request_def start_def)
qed

end
