(* ===== verification/FS_Layout.thy ===== *)
theory FS_Layout imports Text_Input begin

text \<open>
  Project4/fs_param.h and fs_server.h: the parameters of the file system and its two on-disk
  structures, with their layout in the 512 bytes of a disk block (fields in order, no padding,
  integers of 32 bits with the low byte first), so that reading a block into a structure and
  writing it back are functions on byte lists.
\<close>

section \<open>Parameters\<close>

definition FS_BLOCKSIZE :: nat where "FS_BLOCKSIZE = 512"
definition FS_MAXFILEBLOCKS :: nat where "FS_MAXFILEBLOCKS = 124"
definition FS_MAXFILENAME :: nat where "FS_MAXFILENAME = 59"
definition FS_MAXPATHNAME :: nat where "FS_MAXPATHNAME = 128"
definition FS_MAXUSERNAME :: nat where "FS_MAXUSERNAME = 10"
definition FS_DISKSIZE :: nat where "FS_DISKSIZE = 4096"

text \<open>\<open>sizeof(fs_direntry)\<close> is the name and its null terminator, and four bytes.\<close>

definition FS_DIRENTRIES :: nat where "FS_DIRENTRIES = FS_BLOCKSIZE div (FS_MAXFILENAME + 1 + 4)"

lemmas fs_params [simp] = FS_BLOCKSIZE_def FS_MAXFILEBLOCKS_def FS_MAXFILENAME_def
  FS_MAXPATHNAME_def FS_MAXUSERNAME_def FS_DISKSIZE_def

lemma FS_DIRENTRIES_8 [simp]: "FS_DIRENTRIES = 8"
  by (simp add: FS_DIRENTRIES_def)

section \<open>Structures\<close>

record fs_direntry =
  dname :: string
  inode_block :: nat

record fs_inode =
  itype :: char
  owner :: string
  isize :: nat
  blocks :: "nat list"

section \<open>Layout\<close>

fun le_bytes :: "nat \<Rightarrow> nat \<Rightarrow> string" where
  "le_bytes 0 n = []"
| "le_bytes (Suc k) n = char_of (n mod 256) # le_bytes k (n div 256)"

fun le_value :: "string \<Rightarrow> nat" where
  "le_value [] = 0"
| "le_value (c # cs) = of_char c + 256 * le_value cs"

definition u32_bytes :: "nat \<Rightarrow> string" where
  "u32_bytes n = le_bytes 4 n"

definition bytes_u32 :: "string \<Rightarrow> nat" where
  "bytes_u32 bs = le_value bs"

text \<open>The consecutive groups of \<open>k\<close> bytes: the elements of an array.\<close>

fun chunks :: "nat \<Rightarrow> nat \<Rightarrow> string \<Rightarrow> string list" where
  "chunks k 0 bs = []"
| "chunks k (Suc n) bs = take k bs # chunks k n (drop k bs)"

definition encode_inode :: "fs_inode \<Rightarrow> string" where
  "encode_inode i = itype i # owner i @ u32_bytes (isize i) @ concat (map u32_bytes (blocks i))"

definition decode_inode :: "string \<Rightarrow> fs_inode" where
  "decode_inode bs = \<lparr>itype = bs ! 0, owner = take (FS_MAXUSERNAME + 1) (drop 1 bs),
     isize = bytes_u32 (take 4 (drop 12 bs)),
     blocks = map bytes_u32 (chunks 4 FS_MAXFILEBLOCKS (drop 16 bs))\<rparr>"

definition encode_entry :: "fs_direntry \<Rightarrow> string" where
  "encode_entry e = dname e @ u32_bytes (inode_block e)"

definition decode_entry :: "string \<Rightarrow> fs_direntry" where
  "decode_entry bs = \<lparr>dname = take (FS_MAXFILENAME + 1) bs,
     inode_block = bytes_u32 (drop (FS_MAXFILENAME + 1) bs)\<rparr>"

definition encode_entries :: "fs_direntry list \<Rightarrow> string" where
  "encode_entries es = concat (map encode_entry es)"

definition decode_entries :: "string \<Rightarrow> fs_direntry list" where
  "decode_entries bs = map decode_entry (chunks 64 FS_DIRENTRIES bs)"

text \<open>Every value of the C structures: arrays have their declared length, integers 32 bits.\<close>

definition inode_sized :: "fs_inode \<Rightarrow> bool" where
  "inode_sized i \<longleftrightarrow> length (owner i) = FS_MAXUSERNAME + 1 \<and> isize i < 2 ^ 32 \<and>
     length (blocks i) = FS_MAXFILEBLOCKS \<and> (\<forall>b \<in> set (blocks i). b < 2 ^ 32)"

definition entry_sized :: "fs_direntry \<Rightarrow> bool" where
  "entry_sized e \<longleftrightarrow> length (dname e) = FS_MAXFILENAME + 1 \<and> inode_block e < 2 ^ 32"

definition entries_sized :: "fs_direntry list \<Rightarrow> bool" where
  "entries_sized es \<longleftrightarrow> length es = FS_DIRENTRIES \<and> (\<forall>e \<in> set es. entry_sized e)"

section \<open>Integers\<close>

lemma length_le_bytes [simp]: "length (le_bytes k n) = k"
  by (induction k arbitrary: n) auto

lemma le_value_le_bytes: "n < 256 ^ k \<Longrightarrow> le_value (le_bytes k n) = n"
proof (induction k arbitrary: n)
  case (Suc k)
  then have "n div 256 < 256 ^ k" by (simp add: less_mult_imp_div_less mult.commute)
  with Suc.IH show ?case by simp
qed simp

lemma le_value_bound: "le_value bs < 256 ^ length bs"
proof (induction bs)
  case (Cons c cs)
  have c: "(of_char c :: nat) < 256" by simp
  have carry: "x + 256 * v < 256 * p" if "x < 256" "v < p" for x v p :: nat using that by linarith
  from carry [OF c Cons] show ?case by simp
qed simp

lemma le_bytes_le_value: "le_bytes (length bs) (le_value bs) = bs"
proof (induction bs)
  case (Cons c cs)
  have c: "(of_char c :: nat) < 256" by simp
  then have "(of_char c + 256 * le_value cs) div 256 = le_value cs" by simp
  moreover have "char_of ((of_char c + 256 * le_value cs) mod 256) = c" using c by simp
  ultimately show ?case using Cons by simp
qed simp

lemma length_u32_bytes [simp]: "length (u32_bytes n) = 4"
  by (simp add: u32_bytes_def)

lemma bytes_u32_bound: "length bs = 4 \<Longrightarrow> bytes_u32 bs < 2 ^ 32"
  using le_value_bound [of bs] by (simp add: bytes_u32_def)

lemma bytes_u32_bytes [simp]: "n < 2 ^ 32 \<Longrightarrow> bytes_u32 (u32_bytes n) = n"
  by (simp add: u32_bytes_def bytes_u32_def le_value_le_bytes)

lemma u32_bytes_u32 [simp]: "length bs = 4 \<Longrightarrow> u32_bytes (bytes_u32 bs) = bs"
  using le_bytes_le_value [of bs] by (simp add: u32_bytes_def bytes_u32_def)

section \<open>Arrays\<close>

lemma length_chunks [simp]: "length (chunks k n bs) = n"
  by (induction n arbitrary: bs) auto

lemma chunks_concat: "\<forall>x \<in> set xs. length x = k \<Longrightarrow> chunks k (length xs) (concat xs) = xs"
  by (induction xs) auto

lemma concat_chunks: "length bs = n * k \<Longrightarrow> concat (chunks k n bs) = bs"
  by (induction n arbitrary: bs) auto

lemma chunks_length: "length bs = n * k \<Longrightarrow> x \<in> set (chunks k n bs) \<Longrightarrow> length x = k"
proof (induction n arbitrary: bs)
  case (Suc n)
  then show ?case using Suc.IH [of "drop k bs"] by auto
qed simp

declare chunks.simps [simp del]

lemma map_chunks_id:
  assumes "length bs = n * k" and "\<And>x. length x = k \<Longrightarrow> f x = x"
  shows "map f (chunks k n bs) = chunks k n bs"
  using chunks_length [OF assms(1)] assms(2) by (intro map_idI) blast

lemma chunks_encoded:
  "\<forall>x \<in> set xs. length (f x) = k \<Longrightarrow> length xs = n \<Longrightarrow> chunks k n (concat (map f xs)) = map f xs"
  using chunks_concat [of "map f xs" k] by auto

section \<open>Round trips\<close>

lemma length_encode_inode [simp]: "inode_sized i \<Longrightarrow> length (encode_inode i) = FS_BLOCKSIZE"
proof -
  have "length (concat (map u32_bytes xs)) = 4 * length xs" for xs by (induction xs) auto
  then show "inode_sized i \<Longrightarrow> length (encode_inode i) = FS_BLOCKSIZE"
    by (simp add: inode_sized_def encode_inode_def)
qed

lemma decode_encode_inode [simp]:
  assumes "inode_sized i" shows "decode_inode (encode_inode i) = i"
proof -
  have "map bytes_u32 (map u32_bytes (blocks i)) = blocks i"
    using assms by (auto simp: inode_sized_def intro!: map_idI)
  moreover have "chunks 4 124 (concat (map u32_bytes (blocks i))) = map u32_bytes (blocks i)"
    using assms by (intro chunks_encoded) (auto simp: inode_sized_def)
  ultimately show ?thesis using assms
    by (simp add: decode_inode_def encode_inode_def inode_sized_def)
qed

lemma decode_inode_sized [simp]:
  assumes "length bs = FS_BLOCKSIZE" shows "inode_sized (decode_inode bs)"
proof -
  have l: "length bs = 512" using assms by simp
  then have "\<forall>x \<in> set (chunks 4 124 (drop 16 bs)). bytes_u32 x < 2 ^ 32"
    by (intro ballI bytes_u32_bound chunks_length [of "drop 16 bs" 124 4]) simp_all
  moreover have "bytes_u32 (take 4 (drop 12 bs)) < 2 ^ 32" using l by (intro bytes_u32_bound) simp
  ultimately show ?thesis using l by (simp add: decode_inode_def inode_sized_def)
qed

lemma inode_parts: "take 1 bs @ take 11 (drop 1 bs) @ take 4 (drop 12 bs) @ drop 16 bs = bs"
proof -
  have "take 4 (drop 12 bs) @ drop 16 bs = drop 12 bs"
    using append_take_drop_id [of 4 "drop 12 bs"] by simp
  moreover have "take 11 (drop 1 bs) @ drop 12 bs = drop 1 bs"
    using append_take_drop_id [of 11 "drop 1 bs"] by simp
  ultimately show ?thesis by simp
qed

lemma encode_decode_inode [simp]:
  assumes "length bs = FS_BLOCKSIZE" shows "encode_inode (decode_inode bs) = bs"
proof -
  have l: "length bs = 512" using assms by simp
  have "map (u32_bytes \<circ> bytes_u32) (chunks 4 124 (drop 16 bs)) = chunks 4 124 (drop 16 bs)"
    using l by (intro map_chunks_id) simp_all
  moreover have "concat (chunks 4 124 (drop 16 bs)) = drop 16 bs"
    using l by (intro concat_chunks) simp
  ultimately have "encode_inode (decode_inode bs) = bs ! 0 # take 11 (drop 1 bs) @ take 4 (drop 12 bs) @ drop 16 bs"
    using l by (simp add: encode_inode_def decode_inode_def)
  also have "\<dots> = take 1 bs @ take 11 (drop 1 bs) @ take 4 (drop 12 bs) @ drop 16 bs"
    using l by (cases bs) auto
  also have "\<dots> = bs"
    by (rule inode_parts)
  finally show ?thesis .
qed

lemma length_encode_entry [simp]: "entry_sized e \<Longrightarrow> length (encode_entry e) = 64"
  by (simp add: encode_entry_def entry_sized_def)

lemma decode_encode_entry [simp]: "entry_sized e \<Longrightarrow> decode_entry (encode_entry e) = e"
  by (simp add: decode_entry_def encode_entry_def entry_sized_def)

lemma decode_entry_sized: "length bs = 64 \<Longrightarrow> entry_sized (decode_entry bs)"
  by (simp add: decode_entry_def entry_sized_def bytes_u32_bound [simplified])

lemma encode_decode_entry: "length bs = 64 \<Longrightarrow> encode_entry (decode_entry bs) = bs"
  by (simp add: decode_entry_def encode_entry_def)

lemma length_encode_entries [simp]: "entries_sized es \<Longrightarrow> length (encode_entries es) = FS_BLOCKSIZE"
proof -
  have "\<forall>e \<in> set es. entry_sized e \<Longrightarrow> length (concat (map encode_entry es)) = 64 * length es" for es
    by (induction es) auto
  then show "entries_sized es \<Longrightarrow> length (encode_entries es) = FS_BLOCKSIZE"
    by (simp add: entries_sized_def encode_entries_def)
qed

lemma decode_encode_entries [simp]:
  assumes "entries_sized es" shows "decode_entries (encode_entries es) = es"
proof -
  have "chunks 64 8 (concat (map encode_entry es)) = map encode_entry es"
    using assms by (intro chunks_encoded) (auto simp: entries_sized_def)
  moreover have "map (decode_entry \<circ> encode_entry) es = es"
    using assms by (intro map_idI) (auto simp: entries_sized_def)
  ultimately show ?thesis by (simp add: decode_entries_def encode_entries_def)
qed

lemma decode_entries_sized [simp]:
  assumes "length bs = FS_BLOCKSIZE" shows "entries_sized (decode_entries bs)"
  using assms chunks_length [of bs 8 64 for bs]
  by (auto simp: decode_entries_def entries_sized_def intro!: decode_entry_sized)

lemma encode_decode_entries [simp]:
  assumes "length bs = FS_BLOCKSIZE" shows "encode_entries (decode_entries bs) = bs"
proof -
  have "map (encode_entry \<circ> decode_entry) (chunks 64 8 bs) = chunks 64 8 bs"
    using assms by (intro map_chunks_id) (simp_all add: encode_decode_entry)
  then show ?thesis using assms by (simp add: encode_entries_def decode_entries_def concat_chunks)
qed

end
