(* ===== verification/FS_Server.thy ===== *)
theory FS_Server imports FS_Layout "HOL-Library.Monad_Syntax" begin

text \<open>
  Project4/file_server.cpp: the file server. The state is the disk, the queue of free blocks, a trace
  of what each operation does with locks and disk blocks, and the responses given to
  \<open>send_response\<close>. The disk is not part of the repository: \<open>readblock\<close> and \<open>writeblock\<close> are
  parameters, \<open>None\<close> when they assert. An operation returns \<open>None\<close> when the server process dies: a
  failed assertion, an access outside an array, an exception that nothing catches.
\<close>

section \<open>State\<close>

record 'd disk_io =
  readblock :: "'d \<Rightarrow> nat \<Rightarrow> string option"
  writeblock :: "'d \<Rightarrow> nat \<Rightarrow> string \<Rightarrow> 'd option"

text \<open>
  What the trace records: \<open>disk_locks[b]\<close> taken and released, shared or exclusive; the
  \<open>free_block_lock\<close>; accesses to the disk and to the queue of free blocks; the end of the connection.
\<close>

datatype event = Lock_shared nat | Unlock_shared nat | Lock nat | Unlock nat
  | Lock_free | Unlock_free | Read nat | Write nat | Pop | Push | Close

record 'd server =
  fs_disk :: 'd
  free_blocks :: "nat list"
  trace :: "event list"
  responses :: "string list"

text \<open>What the local variables hold that the code does not initialise, and the bytes after a string.\<close>

record junk =
  junk_inode :: fs_inode
  junk_entries :: "fs_direntry list"
  junk_heap :: string
  junk_buf :: char

record target_inode =
  t_inode_block :: nat
  valid :: bool
  first_empty_block :: nat
  first_empty_entry_index :: nat
  parent_inode_block :: nat

definition default_target :: target_inode where
  "default_target = \<lparr>t_inode_block = 0, valid = False, first_empty_block = FS_MAXFILEBLOCKS + 1,
     first_empty_entry_index = 0, parent_inode_block = 0\<rparr>"

definition max_header_len :: nat where
  "max_header_len = 13 + FS_MAXUSERNAME + FS_MAXPATHNAME + 3 + 3"

section \<open>Locks, disk and free blocks\<close>

definition log_event :: "event \<Rightarrow> 'd server \<Rightarrow> 'd server" where
  "log_event e s = s\<lparr>trace := trace s @ [e]\<rparr>"

text \<open>\<open>disk_locks[b]\<close> is an access to a vector of \<open>FS_DISKSIZE\<close> locks.\<close>

definition on_lock :: "(nat \<Rightarrow> event) \<Rightarrow> nat \<Rightarrow> 'd server \<Rightarrow> 'd server option" where
  "on_lock e b s = (if b < FS_DISKSIZE then Some (log_event (e b) s) else None)"

abbreviation "lock_shared \<equiv> on_lock Lock_shared"
abbreviation "unlock_shared \<equiv> on_lock Unlock_shared"
abbreviation "lock_exclusive \<equiv> on_lock Lock"
abbreviation "unlock_exclusive \<equiv> on_lock Unlock"

definition read_block :: "'d disk_io \<Rightarrow> nat \<Rightarrow> 'd server \<Rightarrow> (string \<times> 'd server) option" where
  "read_block io b s = do { bytes \<leftarrow> readblock io (fs_disk s) b; Some (bytes, log_event (Read b) s) }"

definition write_block :: "'d disk_io \<Rightarrow> nat \<Rightarrow> string \<Rightarrow> 'd server \<Rightarrow> 'd server option" where
  "write_block io b bytes s = do {
     d \<leftarrow> writeblock io (fs_disk s) b bytes;
     Some (log_event (Write b) (s\<lparr>fs_disk := d\<rparr>)) }"

definition pop_free :: "'d server \<Rightarrow> 'd server" where
  "pop_free s = log_event Pop (s\<lparr>free_blocks := tl (free_blocks s)\<rparr>)"

definition push_free :: "nat \<Rightarrow> 'd server \<Rightarrow> 'd server" where
  "push_free b s = log_event Push (s\<lparr>free_blocks := qpush b (free_blocks s)\<rparr>)"

definition lock_free :: "'d server \<Rightarrow> 'd server" where "lock_free = log_event Lock_free"
definition unlock_free :: "'d server \<Rightarrow> 'd server" where "unlock_free = log_event Unlock_free"

definition return_empty_block :: "nat \<Rightarrow> 'd server \<Rightarrow> 'd server" where
  "return_empty_block b s = unlock_free (push_free b (lock_free s))"

definition reply :: "string \<Rightarrow> 'd server \<Rightarrow> 'd server" where
  "reply message s = s\<lparr>responses := responses s @ [message]\<rparr>"

section \<open>Paths\<close>

function parse_names :: "string \<Rightarrow> string list option" where
  "parse_names stream = (case getline CHR ''/'' stream of
      None \<Rightarrow> Some []
    | Some (tmp, rest) \<Rightarrow>
        if length tmp > FS_MAXFILENAME \<or> length tmp = 0 then None
        else map_option ((#) tmp) (parse_names rest))"
  by pat_completeness auto
termination by (relation "measure length") (auto dest: getline_shorter)

declare parse_names.simps [simp del]

text \<open>A path name is not empty: it has been read with \<open>>>\<close>.\<close>

definition path_parser :: "string \<Rightarrow> string list option" where
  "path_parser pathname =
     (if pathname ! 0 \<noteq> CHR ''/'' \<or> last pathname = CHR ''/'' then None
      else case getline CHR ''/'' pathname of
          None \<Rightarrow> Some []
        | Some (_, rest) \<Rightarrow> parse_names rest)"

section \<open>Directories\<close>

text \<open>The accesses of the loop over the blocks of an inode; \<open>None\<close> is the one past the array.\<close>

definition block_list :: "fs_inode \<Rightarrow> nat option list" where
  "block_list inode = map Some (take (isize inode) (blocks inode))
     @ (if isize inode > length (blocks inode) then [None] else [])"

text \<open>
  The inner loop of \<open>check_existance\<close>, from entry \<open>j\<close> on: whether it has returned, the result and the
  caller's copy of the entries. \<open>i\<close> and \<open>block\<close> are the position and the number of the block.
  A name without a null byte, which the server never writes, ends here at the end of its field.
\<close>

fun scan_entries :: "string \<Rightarrow> nat \<Rightarrow> nat \<Rightarrow> fs_direntry list \<Rightarrow> nat \<Rightarrow> fs_direntry list \<Rightarrow> target_inode
    \<Rightarrow> fs_direntry list option \<Rightarrow> bool \<times> target_inode \<times> fs_direntry list option" where
  "scan_entries name i block entries j [] result out = (False, result, out)"
| "scan_entries name i block entries j (entry # rest) result out =
     (if inode_block entry \<noteq> 0 \<and> c_string (dname entry) = name then
        (True, result\<lparr>t_inode_block := inode_block entry, valid := True,
           first_empty_block := i, first_empty_entry_index := j\<rparr>,
         if out \<noteq> None then Some entries else None)
      else if out \<noteq> None \<and> inode_block entry = 0 \<and> first_empty_block result = FS_MAXFILEBLOCKS + 1 then
        scan_entries name i block entries (Suc j) rest
          (result\<lparr>first_empty_block := block, first_empty_entry_index := j\<rparr>) (Some entries)
      else scan_entries name i block entries (Suc j) rest result out)"

fun check_blocks :: "'d disk_io \<Rightarrow> string \<Rightarrow> nat \<Rightarrow> nat option list \<Rightarrow> target_inode \<Rightarrow> fs_direntry list option
    \<Rightarrow> 'd server \<Rightarrow> (target_inode \<times> fs_direntry list option \<times> 'd server) option" where
  "check_blocks io name i [] result out s = Some (result, out, s)"
| "check_blocks io name i (None # bs) result out s = None"
| "check_blocks io name i (Some block # bs) result out s = do {
     (bytes, s) \<leftarrow> read_block io block s;
     let entries = decode_entries bytes;
     let (found, result, out) = scan_entries name i block entries 0 entries result out;
     if found then Some (result, out, s) else check_blocks io name (Suc i) bs result out s }"

definition check_existance :: "'d disk_io \<Rightarrow> target_inode \<Rightarrow> fs_inode \<Rightarrow> string \<Rightarrow> fs_direntry list option
    \<Rightarrow> 'd server \<Rightarrow> (target_inode \<times> fs_direntry list option \<times> 'd server) option" where
  "check_existance io result inode name out s =
     check_blocks io name 0 (block_list inode) (result\<lparr>valid := False\<rparr>) out s"

fun traverse_loop :: "'d disk_io \<Rightarrow> string \<Rightarrow> string list \<Rightarrow> target_inode \<Rightarrow> fs_inode \<Rightarrow> nat
    \<Rightarrow> 'd server \<Rightarrow> (target_inode \<times> 'd server) option" where
  "traverse_loop io username [] result inode dir_block s = Some (result, s)"
| "traverse_loop io username (name # names) result inode dir_block s = do {
     (result, _, s) \<leftarrow> check_existance io result inode name None s;
     if \<not> valid result \<or> names = [] then Some (result, s)
     else do {
       s \<leftarrow> lock_shared (t_inode_block result) s;
       s \<leftarrow> unlock_shared dir_block s;
       (bytes, s) \<leftarrow> read_block io (t_inode_block result) s;
       let inode = decode_inode bytes;
       let dir_block = t_inode_block result;
       let result = result\<lparr>parent_inode_block := dir_block\<rparr>;
       if c_string (owner inode) \<noteq> username \<or> itype inode \<noteq> CHR ''d''
       then Some (result\<lparr>valid := False\<rparr>, s)
       else traverse_loop io username names result inode dir_block s } }"

definition traverse_dir :: "'d disk_io \<Rightarrow> string \<Rightarrow> string list \<Rightarrow> 'd server \<Rightarrow> (target_inode \<times> 'd server) option" where
  "traverse_dir io username path_names s =
     (let result = default_target\<lparr>valid := True\<rparr> in
      if path_names = [] then Some (result, s)
      else do {
        s \<leftarrow> lock_shared 0 s;
        (bytes, s) \<leftarrow> read_block io 0 s;
        traverse_loop io username path_names result (decode_inode bytes) 0 s })"

text \<open>Every handler takes the lock of the inode it has found and lets go of the parent's.\<close>

definition move_lock :: "(nat \<Rightarrow> event) \<Rightarrow> target_inode \<Rightarrow> 'd server \<Rightarrow> 'd server option" where
  "move_lock e t s = do {
     s \<leftarrow> on_lock e (t_inode_block t) s;
     if t_inode_block t \<noteq> 0 then unlock_shared (parent_inode_block t) s else Some s }"

text \<open>A directory the user may change: his own, or one without owner (the root).\<close>

definition may_change :: "string \<Rightarrow> fs_inode \<Rightarrow> bool" where
  "may_change username inode \<longleftrightarrow>
     (c_string (owner inode) = username \<or> c_string (owner inode) = []) \<and> itype inode = CHR ''d''"

section \<open>FS_CREATE\<close>

text \<open>
  The block of the new entry: the one found, or (when there is none) a free block added to the
  directory. The result says whether there was room, the directory's inode and the block.
\<close>

definition room_in_dir :: "nat \<Rightarrow> target_inode \<Rightarrow> fs_inode \<Rightarrow> 'd server
    \<Rightarrow> ((fs_inode \<times> nat \<times> bool) option) \<times> 'd server" where
  "room_in_dir new_inode_block info parent_inode s =
     (let s = lock_free s in
      if first_empty_block info = FS_MAXFILEBLOCKS + 1 then
        if free_blocks s = [] \<or> (isize parent_inode + 1) mod 2 ^ 32 > FS_MAXFILEBLOCKS
        then (None, unlock_free (push_free new_inode_block s))
        else
          let dir_block = hd (free_blocks s);
              parent_inode = parent_inode\<lparr>blocks := (blocks parent_inode)[isize parent_inode := dir_block],
                isize := isize parent_inode + 1\<rparr>
          in (Some (parent_inode, dir_block, True), unlock_free (pop_free s))
      else (Some (parent_inode, first_empty_block info, False), unlock_free s))"

definition new_inode :: "junk \<Rightarrow> string \<Rightarrow> string \<Rightarrow> fs_inode" where
  "new_inode mem type username = (junk_inode mem)\<lparr>itype := type ! 0,
     owner := strcpy (owner (junk_inode mem)) username, isize := 0\<rparr>"

definition new_entries :: "bool \<Rightarrow> nat \<Rightarrow> string \<Rightarrow> nat \<Rightarrow> fs_direntry list \<Rightarrow> fs_direntry list" where
  "new_entries change_parent new_entry name new_inode_block entries =
     (let entries = (if change_parent then map (\<lambda>e. e\<lparr>inode_block := 0\<rparr>) entries else entries) in
      entries[new_entry := \<lparr>dname = strcpy (dname (entries ! new_entry)) name, inode_block = new_inode_block\<rparr>])"

text \<open>With the directory locked, up to the end of the lock's scope; the Boolean: the entry was made.\<close>

definition create_in_dir :: "'d disk_io \<Rightarrow> junk \<Rightarrow> string \<Rightarrow> string \<Rightarrow> string \<Rightarrow> nat \<Rightarrow> nat \<Rightarrow> 'd server
    \<Rightarrow> (bool \<times> 'd server) option" where
  "create_in_dir io mem type username name new_inode_block dir s = do {
     (bytes, s) \<leftarrow> read_block io dir s;
     let parent_inode = decode_inode bytes;
     if \<not> may_change username parent_inode then Some (False, return_empty_block new_inode_block s)
     else do {
       (info, entries, s) \<leftarrow> check_existance io default_target parent_inode name (Some (junk_entries mem)) s;
       if valid info then Some (False, return_empty_block new_inode_block s)
       else (case room_in_dir new_inode_block info parent_inode s of
           (None, s) \<Rightarrow> Some (False, s)
         | (Some (parent_inode, dir_block, change_parent), s) \<Rightarrow> do {
             let entries = new_entries change_parent (first_empty_entry_index info) name new_inode_block (the entries);
             s \<leftarrow> write_block io new_inode_block (encode_inode (new_inode mem type username)) s;
             s \<leftarrow> write_block io dir_block (encode_entries entries) s;
             s \<leftarrow> (if change_parent then write_block io dir (encode_inode parent_inode) s else Some s);
             Some (True, s) }) } }"

definition handle_create :: "'d disk_io \<Rightarrow> junk \<Rightarrow> string \<Rightarrow> string \<Rightarrow> string \<Rightarrow> 'd server \<Rightarrow> 'd server option" where
  "handle_create io mem req username pathname s = (case next_word req of
      None \<Rightarrow> Some s
    | Some (type, _) \<Rightarrow>
        if type \<noteq> ''f'' \<and> type \<noteq> ''d'' then Some s
        else (case path_parser pathname of
            None \<Rightarrow> Some s
          | Some path_names \<Rightarrow>
              let s = lock_free s in
              if free_blocks s = [] then Some (unlock_free s)
              else do {
                let new_inode_block = hd (free_blocks s);
                let s = unlock_free (pop_free s);
                (t, s) \<leftarrow> traverse_dir io username (butlast path_names) s;
                if \<not> valid t then do {
                  s \<leftarrow> unlock_shared (parent_inode_block t) s;
                  Some (return_empty_block new_inode_block s) }
                else do {
                  s \<leftarrow> move_lock Lock t s;
                  (made, s) \<leftarrow> create_in_dir io mem type username (last path_names) new_inode_block (t_inode_block t) s;
                  s \<leftarrow> unlock_exclusive (t_inode_block t) s;
                  Some (if made then reply (''FS_CREATE '' @ username @ '' '' @ pathname @ '' '' @ type @ [nul]) s
                        else s) } }))"

section \<open>FS_DELETE\<close>

text \<open>The loop that closes the gap in the array of blocks.\<close>

definition close_gap :: "nat \<Rightarrow> nat \<Rightarrow> nat list \<Rightarrow> nat list" where
  "close_gap i n bs = foldl (\<lambda>bs i. bs[i := bs ! Suc i]) bs [i..<n - 1]"

text \<open>The entry is cleared; a block of entries left empty is taken out of the directory.\<close>

definition remove_entry :: "'d disk_io \<Rightarrow> nat \<Rightarrow> fs_inode \<Rightarrow> nat \<Rightarrow> fs_direntry list \<Rightarrow> nat \<Rightarrow> 'd server
    \<Rightarrow> 'd server option" where
  "remove_entry io dir parent_inode i parent_entries j s =
     (let entries = parent_entries[j := (parent_entries ! j)\<lparr>inode_block := 0\<rparr>];
          curr_block = blocks parent_inode ! i
      in if \<forall>e \<in> set entries. inode_block e = 0 then do {
           s \<leftarrow> write_block io dir (encode_inode (parent_inode\<lparr>blocks := close_gap i (isize parent_inode) (blocks parent_inode),
                   isize := isize parent_inode - 1\<rparr>)) s;
           Some (unlock_free (push_free curr_block (lock_free s))) }
         else write_block io curr_block (encode_entries entries) s)"

text \<open>With the directory locked: the inode that was deleted and its block.\<close>

definition delete_in_dir :: "'d disk_io \<Rightarrow> junk \<Rightarrow> string \<Rightarrow> string \<Rightarrow> nat \<Rightarrow> 'd server
    \<Rightarrow> ((fs_inode \<times> nat) option \<times> 'd server) option" where
  "delete_in_dir io mem username name dir s = do {
     (bytes, s) \<leftarrow> read_block io dir s;
     let parent_inode = decode_inode bytes;
     if \<not> may_change username parent_inode then Some (None, s)
     else do {
       (info, entries, s) \<leftarrow> check_existance io default_target parent_inode name (Some (junk_entries mem)) s;
       if \<not> valid info then Some (None, s)
       else do {
         s \<leftarrow> lock_exclusive (t_inode_block info) s;
         (bytes, s) \<leftarrow> read_block io (t_inode_block info) s;
         let file_inode = decode_inode bytes;
         if c_string (owner file_inode) \<noteq> username \<or> (itype file_inode = CHR ''d'' \<and> isize file_inode > 0)
         then do { s \<leftarrow> unlock_exclusive (t_inode_block info) s; Some (None, s) }
         else do {
           let j = first_empty_entry_index info;
           let parent_entry_inode_block = inode_block (the entries ! j);
           s \<leftarrow> remove_entry io dir parent_inode (first_empty_block info) (the entries) j s;
           s \<leftarrow> unlock_exclusive (t_inode_block info) s;
           Some (Some (file_inode, parent_entry_inode_block), s) } } } }"

text \<open>The blocks of the deleted inode, in the order of its array; \<open>None\<close> is an access past the array.\<close>

fun push_all :: "nat option list \<Rightarrow> 'd server \<Rightarrow> 'd server option" where
  "push_all [] s = Some s"
| "push_all (None # bs) s = None"
| "push_all (Some b # bs) s = push_all bs (push_free b s)"

definition handle_delete :: "'d disk_io \<Rightarrow> junk \<Rightarrow> string \<Rightarrow> string \<Rightarrow> 'd server \<Rightarrow> 'd server option" where
  "handle_delete io mem username pathname s = (case path_parser pathname of
      None \<Rightarrow> Some s
    | Some path_names \<Rightarrow> do {
        (t, s) \<leftarrow> traverse_dir io username (butlast path_names) s;
        if \<not> valid t then unlock_shared (parent_inode_block t) s
        else do {
          s \<leftarrow> move_lock Lock t s;
          (deleted, s) \<leftarrow> delete_in_dir io mem username (last path_names) (t_inode_block t) s;
          s \<leftarrow> unlock_exclusive (t_inode_block t) s;
          (case deleted of
              None \<Rightarrow> Some s
            | Some (file_inode, block) \<Rightarrow> do {
                s \<leftarrow> push_all (block_list file_inode) (lock_free s);
                let s = unlock_free (push_free block s);
                Some (reply (''FS_DELETE '' @ username @ '' '' @ pathname @ [nul]) s) }) } })"

section \<open>FS_READBLOCK\<close>

definition isblock :: "string \<Rightarrow> bool" where
  "isblock str \<longleftrightarrow> \<not> length str > 3 \<and> (\<forall>c \<in> set str. is_digit c)"

text \<open>With the file locked: the data read.\<close>

definition read_file :: "'d disk_io \<Rightarrow> string \<Rightarrow> nat \<Rightarrow> nat \<Rightarrow> 'd server \<Rightarrow> (string option \<times> 'd server) option" where
  "read_file io username block_id file s = do {
     (bytes, s) \<leftarrow> read_block io file s;
     let file_inode = decode_inode bytes;
     if c_string (owner file_inode) \<noteq> username \<or> itype file_inode \<noteq> CHR ''f'' \<or> block_id \<ge> isize file_inode
     then Some (None, s)
     else do {
       (data, s) \<leftarrow> read_block io (blocks file_inode ! block_id) s;
       Some (Some data, s) } }"

definition handle_readblock :: "'d disk_io \<Rightarrow> string \<Rightarrow> string \<Rightarrow> string \<Rightarrow> 'd server \<Rightarrow> 'd server option" where
  "handle_readblock io req username pathname s = (case next_word req of
      None \<Rightarrow> Some s
    | Some (block_str, _) \<Rightarrow>
        if \<not> isblock block_str then Some s
        else let block_id = digits_val block_str in
        if block_id \<ge> FS_MAXFILEBLOCKS then Some s
        else (case path_parser pathname of
            None \<Rightarrow> Some s
          | Some path_names \<Rightarrow> do {
              (t, s) \<leftarrow> traverse_dir io username path_names s;
              if \<not> valid t then unlock_shared (parent_inode_block t) s
              else do {
                s \<leftarrow> move_lock Lock_shared t s;
                (data, s) \<leftarrow> read_file io username block_id (t_inode_block t) s;
                s \<leftarrow> unlock_shared (t_inode_block t) s;
                Some (case data of None \<Rightarrow> s
                  | Some data \<Rightarrow> reply (''FS_READBLOCK '' @ username @ '' '' @ pathname @ '' '' @ block_str @ [nul]
                                        @ data) s) } }))"

section \<open>Connections\<close>

text \<open>
  What a connection still delivers: bytes, or (\<open>None\<close>) an error; at the end of the list the peer has
  closed. One \<open>recv\<close> returns at most what it is asked for; an empty result is the end.
\<close>

type_synonym socket = "string option list"

fun recv :: "nat \<Rightarrow> socket \<Rightarrow> string option \<times> socket" where
  "recv n [] = (Some [], [])"
| "recv n (None # sock) = (None, sock)"
| "recv n (Some bytes # sock) = (Some (take n bytes), if length bytes \<le> n then sock else Some (drop n bytes) # sock)"

lemma recv_length: "recv n sock = (Some bytes, sock') \<Longrightarrow> length bytes \<le> n"
  by (cases "(n, sock)" rule: recv.cases) auto

section \<open>FS_WRITEBLOCK\<close>

text \<open>
  The loop that receives the data. An error is appended as a string of length \<open>size_t(-1)\<close> before it is
  tested, and \<open>append\<close> throws.
\<close>

function recv_data :: "string \<Rightarrow> nat \<Rightarrow> socket \<Rightarrow> string option" where
  "recv_data data recvd sock = (case recv (FS_BLOCKSIZE - recvd) sock of
      (None, _) \<Rightarrow> None
    | (Some bytes, sock) \<Rightarrow>
        let data = data @ bytes; recvd = recvd + length bytes in
        if recvd \<ge> FS_BLOCKSIZE \<or> bytes = [] then Some data
        else recv_data data recvd sock)"
  by pat_completeness auto
termination
  by (relation "measure (\<lambda>(_, recvd, _). FS_BLOCKSIZE - recvd)") (auto intro!: diff_less_mono2)

declare recv_data.simps [simp del]

text \<open>The 512 bytes at \<open>data.c_str()\<close>: the data, its terminator and what follows in memory.\<close>

definition block_at :: "junk \<Rightarrow> string \<Rightarrow> string" where
  "block_at mem data = take FS_BLOCKSIZE (data @ nul # junk_heap mem)"

text \<open>With the file locked; the Boolean: the block was written.\<close>

definition write_file :: "'d disk_io \<Rightarrow> junk \<Rightarrow> string \<Rightarrow> nat \<Rightarrow> string \<Rightarrow> nat \<Rightarrow> 'd server
    \<Rightarrow> (bool \<times> 'd server) option" where
  "write_file io mem username block_id data file s = do {
     (bytes, s) \<leftarrow> read_block io file s;
     let file_inode = decode_inode bytes;
     if c_string (owner file_inode) \<noteq> username \<or> itype file_inode \<noteq> CHR ''f'' \<or> block_id > isize file_inode
     then Some (False, s)
     else if block_id = isize file_inode then
       let s = lock_free s in
       if free_blocks s = [] \<or> isize file_inode = FS_MAXFILEBLOCKS then Some (False, unlock_free s)
       else do {
         let new_data_block = hd (free_blocks s);
         let s = unlock_free (pop_free s);
         let file_inode = file_inode\<lparr>blocks := (blocks file_inode)[isize file_inode := new_data_block],
               isize := isize file_inode + 1\<rparr>;
         s \<leftarrow> write_block io (blocks file_inode ! block_id) (block_at mem data) s;
         s \<leftarrow> write_block io file (encode_inode file_inode) s;
         Some (True, s) }
     else do {
       s \<leftarrow> write_block io (blocks file_inode ! block_id) (block_at mem data) s;
       Some (True, s) } }"

definition handle_writeblock :: "'d disk_io \<Rightarrow> junk \<Rightarrow> string \<Rightarrow> string \<Rightarrow> string \<Rightarrow> socket \<Rightarrow> 'd server
    \<Rightarrow> 'd server option" where
  "handle_writeblock io mem req username pathname sock s = (case next_word req of
      None \<Rightarrow> Some s
    | Some (block_str, _) \<Rightarrow>
        if \<not> isblock block_str then Some s
        else let block_id = digits_val block_str in
        if block_id \<ge> FS_MAXFILEBLOCKS then Some s
        else do {
          data \<leftarrow> recv_data [] 0 sock;
          (case path_parser pathname of
              None \<Rightarrow> Some s
            | Some path_names \<Rightarrow> do {
                (t, s) \<leftarrow> traverse_dir io username path_names s;
                if \<not> valid t then unlock_shared (parent_inode_block t) s
                else do {
                  s \<leftarrow> move_lock Lock t s;
                  (written, s) \<leftarrow> write_file io mem username block_id data (t_inode_block t) s;
                  s \<leftarrow> unlock_exclusive (t_inode_block t) s;
                  Some (if written
                        then reply (''FS_WRITEBLOCK '' @ username @ '' '' @ pathname @ '' '' @ block_str @ [nul]) s
                        else s) } }) })"

section \<open>Requests\<close>

text \<open>The number of blanks in a header, by repeated \<open>find\<close>.\<close>

function find_space :: "string \<Rightarrow> nat" where
  "find_space hdr = (case dropWhile (\<lambda>c. c \<noteq> CHR '' '') hdr of [] \<Rightarrow> 0 | _ # rest \<Rightarrow> Suc (find_space rest))"
  by pat_completeness auto
termination
  by (relation "measure length") (auto, metis length_Cons length_dropWhile_le less_eq_Suc_le)

declare find_space.simps [simp del]

definition check_request_type :: "string \<Rightarrow> string \<Rightarrow> nat" where
  "check_request_type request_type req_header =
     (if request_type = ''FS_READBLOCK'' then (if find_space req_header \<noteq> 3 then 0 else 1)
      else if request_type = ''FS_WRITEBLOCK'' then (if find_space req_header \<noteq> 3 then 0 else 2)
      else if request_type = ''FS_CREATE'' then (if find_space req_header \<noteq> 3 then 0 else 3)
      else if request_type = ''FS_DELETE'' then (if find_space req_header \<noteq> 2 then 0 else 4)
      else 0)"

text \<open>
  The header, byte by byte up to a null byte. \<open>Inl True\<close>: the connection is closed (too long, or the
  peer has closed); \<open>Inl False\<close>: a failed \<open>recv\<close> is appended, which throws. \<open>buf\<close> is the last byte.
\<close>

function recv_header :: "string \<Rightarrow> nat \<Rightarrow> char \<Rightarrow> socket \<Rightarrow> bool + (string \<times> socket)" where
  "recv_header hdr recvd buf sock = (case recv 1 sock of
      (None, sock) \<Rightarrow> if buf = nul then Inr (hdr, sock) else Inl False
    | (Some bytes, sock) \<Rightarrow>
        let buf = (if bytes = [] then buf else hd bytes) in
        if buf = nul then Inr (hdr, sock)
        else let hdr = hdr @ bytes; recvd = recvd + length bytes in
          if recvd > max_header_len \<or> bytes = [] then Inl True
          else recv_header hdr recvd buf sock)"
  by pat_completeness auto
termination
  by (relation "measure (\<lambda>(_, recvd, _, _). Suc max_header_len - recvd)") (auto intro!: diff_less_mono2)

declare recv_header.simps [simp del]

definition close_connection :: "'d server \<Rightarrow> 'd server" where
  "close_connection = log_event Close"

definition dispatch :: "'d disk_io \<Rightarrow> junk \<Rightarrow> string \<Rightarrow> socket \<Rightarrow> 'd server \<Rightarrow> 'd server option" where
  "dispatch io mem hdr sock s = (case next_word hdr of None \<Rightarrow> Some s
     | Some (request_type, req) \<Rightarrow> (case next_word req of None \<Rightarrow> Some s
     | Some (username, req) \<Rightarrow> (case next_word req of None \<Rightarrow> Some s
     | Some (pathname, req) \<Rightarrow>
         if length username > FS_MAXUSERNAME \<or> length pathname > FS_MAXPATHNAME then Some s
         else let n = check_request_type request_type hdr in
           if n = 1 then handle_readblock io req username pathname s
           else if n = 2 then handle_writeblock io mem req username pathname sock s
           else if n = 3 then handle_create io mem req username pathname s
           else if n = 4 then handle_delete io mem username pathname s
           else Some s)))"

definition handle_requests :: "'d disk_io \<Rightarrow> junk \<Rightarrow> socket \<Rightarrow> 'd server \<Rightarrow> 'd server option" where
  "handle_requests io mem sock s = (case recv_header [] 0 (junk_buf mem) sock of
      Inl closed \<Rightarrow> if closed then Some (close_connection s) else None
    | Inr (hdr, sock) \<Rightarrow> map_option close_connection (dispatch io mem hdr sock s))"

section \<open>Responses\<close>

text \<open>
  The loop of \<open>send_response\<close> against the results of successive calls of \<open>send\<close> (-1 is an error): the
  bytes sent, or \<open>None\<close> while the loop has not ended or when it leaves the message.
\<close>

fun send_response :: "string \<Rightarrow> int \<Rightarrow> int list \<Rightarrow> string \<Rightarrow> string option" where
  "send_response message sent [] wire = None"
| "send_response message sent (n # ns) wire =
     (if sent < 0 then None
      else let wire = wire @ take (nat n) (drop (nat sent) message); sent = sent + n in
        if sent < int (length message) then send_response message sent ns wire else Some wire)"

section \<open>Start\<close>

text \<open>
  The traversal of the initial file system. The entries of a directory block, first to last: their
  inodes are read, the blocks of files are taken out of \<open>all_blocks\<close>, those of directories are queued.
\<close>

fun init_entries :: "'d disk_io \<Rightarrow> 'd \<Rightarrow> fs_direntry list \<Rightarrow> nat list \<Rightarrow> nat list \<Rightarrow> (nat list \<times> nat list) option" where
  "init_entries io d [] used dir_inodes = Some (used, dir_inodes)"
| "init_entries io d (entry # entries) used dir_inodes =
     (if inode_block entry = 0 then init_entries io d entries used dir_inodes
      else do {
        bytes \<leftarrow> readblock io d (inode_block entry);
        let inode = decode_inode bytes;
        let used = inode_block entry # used;
        if itype inode = CHR ''f'' then
          (if isize inode > length (blocks inode) then None
           else init_entries io d entries (take (isize inode) (blocks inode) @ used) dir_inodes)
        else if itype inode = CHR ''d'' then
          (if isize inode > length (blocks inode) then None
           else init_entries io d entries used (dir_inodes @ take (isize inode) (blocks inode)))
        else init_entries io d entries used dir_inodes })"

partial_function (option) init_loop :: "'d disk_io \<Rightarrow> 'd \<Rightarrow> nat list \<Rightarrow> nat list \<Rightarrow> nat list option" where
  "init_loop io d used dir_inodes = (case dir_inodes of
      [] \<Rightarrow> Some used
    | dir_block # dir_inodes \<Rightarrow> do {
        bytes \<leftarrow> readblock io d dir_block;
        r \<leftarrow> init_entries io d (decode_entries bytes) (dir_block # used) dir_inodes;
        init_loop io d (fst r) (snd r) })"

declare init_loop.simps [code]

definition init_free_blocks :: "'d disk_io \<Rightarrow> 'd \<Rightarrow> nat list option" where
  "init_free_blocks io d = do {
     bytes \<leftarrow> readblock io d 0;
     let inode = decode_inode bytes;
     if isize inode > length (blocks inode) then None
     else do {
       used \<leftarrow> init_loop io d [] (take (isize inode) (blocks inode));
       Some (filter (\<lambda>b. b \<notin> set used) [1..<FS_DISKSIZE]) } }"

definition init_server :: "'d disk_io \<Rightarrow> 'd \<Rightarrow> 'd server option" where
  "init_server io d = map_option (\<lambda>free. \<lparr>fs_disk = d, free_blocks = free, trace = [], responses = []\<rparr>)
     (init_free_blocks io d)"

text \<open>\<open>main\<close>: the connections that \<open>accept\<close> returns, one after the other.\<close>

fun serve_all :: "'d disk_io \<Rightarrow> junk \<Rightarrow> socket list \<Rightarrow> 'd server \<Rightarrow> 'd server option" where
  "serve_all io mem [] s = Some s"
| "serve_all io mem (sock # socks) s = do { s \<leftarrow> handle_requests io mem sock s; serve_all io mem socks s }"

section \<open>The ways through an operation\<close>

lemma create_in_dir_cases:
  assumes "create_in_dir io mem type username name b dir s = Some (made, s')"
  obtains (refused) bytes s1 where "read_block io dir s = Some (bytes, s1)"
      "\<not> may_change username (decode_inode bytes)" "\<not> made" "s' = return_empty_block b s1"
  | (present) bytes s1 info out s2 where "read_block io dir s = Some (bytes, s1)"
      "may_change username (decode_inode bytes)"
      "check_existance io default_target (decode_inode bytes) name (Some (junk_entries mem)) s1 = Some (info, out, s2)"
      "valid info" "\<not> made" "s' = return_empty_block b s2"
  | (no_room) bytes s1 info out s2 where "read_block io dir s = Some (bytes, s1)"
      "may_change username (decode_inode bytes)"
      "check_existance io default_target (decode_inode bytes) name (Some (junk_entries mem)) s1 = Some (info, out, s2)"
      "\<not> valid info" "room_in_dir b info (decode_inode bytes) s2 = (None, s')" "\<not> made"
  | (entered) bytes s1 info out s2 inode dir_block change s3 s4 s5 where "read_block io dir s = Some (bytes, s1)"
      "may_change username (decode_inode bytes)"
      "check_existance io default_target (decode_inode bytes) name (Some (junk_entries mem)) s1 = Some (info, out, s2)"
      "\<not> valid info" "room_in_dir b info (decode_inode bytes) s2 = (Some (inode, dir_block, change), s3)"
      "write_block io b (encode_inode (new_inode mem type username)) s3 = Some s4"
      "write_block io dir_block (encode_entries (new_entries change (first_empty_entry_index info) name b (the out))) s4 = Some s5"
      "(if change then write_block io dir (encode_inode inode) s5 else Some s5) = Some s'" "made"
proof -
  note d = assms [unfolded create_in_dir_def Let_def]
  from d obtain bytes s1 where rd: "read_block io dir s = Some (bytes, s1)" by (auto simp: Option.bind_eq_Some_conv)
  show ?thesis
  proof (cases "may_change username (decode_inode bytes)")
    case False
    with d rd show ?thesis by (intro refused) auto
  next
    case True
    with d rd obtain info out s2 where
      ce: "check_existance io default_target (decode_inode bytes) name (Some (junk_entries mem)) s1 = Some (info, out, s2)"
      by (auto simp: Option.bind_eq_Some_conv)
    show ?thesis
    proof (cases "valid info")
      case v: True
      with d rd True ce show ?thesis by (intro present [OF rd True ce v]) simp_all
    next
      case v: False
      obtain r s3 where rm: "room_in_dir b info (decode_inode bytes) s2 = (r, s3)" by fastforce
      show ?thesis
      proof (cases r)
        case None
        with d rd True ce v rm show ?thesis by (intro no_room [OF rd True ce v]) simp_all
      next
        case (Some p)
        obtain inode dir_block change where p: "p = (inode, dir_block, change)" by (cases p) auto
        from d rd True ce v rm Some p obtain s4 s5 where
          "write_block io b (encode_inode (new_inode mem type username)) s3 = Some s4"
          "write_block io dir_block (encode_entries (new_entries change (first_empty_entry_index info) name b (the out))) s4
            = Some s5"
          "(if change then write_block io dir (encode_inode inode) s5 else Some s5) = Some s'" "made"
          by (auto simp: Option.bind_eq_Some_conv)
        with rm Some p show ?thesis by (intro entered [OF rd True ce v]) simp_all
      qed
    qed
  qed
qed

lemma remove_entry_cases:
  assumes "remove_entry io dir inode i entries j s = Some s'"
  obtains (emptied) s1 where "\<forall>e \<in> set (entries[j := (entries ! j)\<lparr>inode_block := 0\<rparr>]). inode_block e = 0"
      "write_block io dir (encode_inode (inode\<lparr>blocks := close_gap i (isize inode) (blocks inode),
         isize := isize inode - 1\<rparr>)) s = Some s1"
      "s' = return_empty_block (blocks inode ! i) s1"
  | (cleared) "\<not> (\<forall>e \<in> set (entries[j := (entries ! j)\<lparr>inode_block := 0\<rparr>]). inode_block e = 0)"
      "write_block io (blocks inode ! i) (encode_entries (entries[j := (entries ! j)\<lparr>inode_block := 0\<rparr>])) s = Some s'"
proof (cases "\<forall>e \<in> set (entries[j := (entries ! j)\<lparr>inode_block := 0\<rparr>]). inode_block e = 0")
  case True
  with assms obtain s1 where "write_block io dir (encode_inode (inode\<lparr>blocks := close_gap i (isize inode) (blocks inode),
         isize := isize inode - 1\<rparr>)) s = Some s1" "s' = return_empty_block (blocks inode ! i) s1"
    by (auto simp: remove_entry_def Let_def Option.bind_eq_Some_conv return_empty_block_def)
  with True show ?thesis by (rule emptied)
next
  case False
  then show ?thesis
    by (rule cleared) (use assms False in \<open>simp only: remove_entry_def Let_def if_False simp_thms\<close>)
qed

lemma delete_in_dir_cases:
  assumes "delete_in_dir io mem username name dir s = Some (deleted, s')"
  obtains (refused) bytes s1 where "read_block io dir s = Some (bytes, s1)"
      "\<not> may_change username (decode_inode bytes)" "deleted = None" "s' = s1"
  | (absent) bytes s1 info out where "read_block io dir s = Some (bytes, s1)"
      "may_change username (decode_inode bytes)"
      "check_existance io default_target (decode_inode bytes) name (Some (junk_entries mem)) s1 = Some (info, out, s')"
      "\<not> valid info" "deleted = None"
  | (kept) bytes s1 info out s2 s3 bytes2 s4 where "read_block io dir s = Some (bytes, s1)"
      "may_change username (decode_inode bytes)"
      "check_existance io default_target (decode_inode bytes) name (Some (junk_entries mem)) s1 = Some (info, out, s2)"
      "valid info" "lock_exclusive (t_inode_block info) s2 = Some s3"
      "read_block io (t_inode_block info) s3 = Some (bytes2, s4)"
      "c_string (owner (decode_inode bytes2)) \<noteq> username
         \<or> (itype (decode_inode bytes2) = CHR ''d'' \<and> isize (decode_inode bytes2) > 0)"
      "unlock_exclusive (t_inode_block info) s4 = Some s'" "deleted = None"
  | (removed) bytes s1 info out s2 s3 bytes2 s4 s5 where "read_block io dir s = Some (bytes, s1)"
      "may_change username (decode_inode bytes)"
      "check_existance io default_target (decode_inode bytes) name (Some (junk_entries mem)) s1 = Some (info, out, s2)"
      "valid info" "lock_exclusive (t_inode_block info) s2 = Some s3"
      "read_block io (t_inode_block info) s3 = Some (bytes2, s4)"
      "c_string (owner (decode_inode bytes2)) = username
         \<and> \<not> (itype (decode_inode bytes2) = CHR ''d'' \<and> isize (decode_inode bytes2) > 0)"
      "remove_entry io dir (decode_inode bytes) (first_empty_block info) (the out) (first_empty_entry_index info) s4 = Some s5"
      "unlock_exclusive (t_inode_block info) s5 = Some s'"
      "deleted = Some (decode_inode bytes2, inode_block (the out ! first_empty_entry_index info))"
proof -
  note d = assms [unfolded delete_in_dir_def Let_def]
  from d obtain bytes s1 where rd: "read_block io dir s = Some (bytes, s1)" by (auto simp: Option.bind_eq_Some_conv)
  show ?thesis
  proof (cases "may_change username (decode_inode bytes)")
    case False
    with d rd show ?thesis by (intro refused) simp_all
  next
    case True
    with d rd obtain info out s2 where
      ce: "check_existance io default_target (decode_inode bytes) name (Some (junk_entries mem)) s1 = Some (info, out, s2)"
      by (auto simp: Option.bind_eq_Some_conv)
    show ?thesis
    proof (cases "valid info")
      case v: False
      with d rd True ce have "s' = s2" "deleted = None" by simp_all
      with ce v show ?thesis by (intro absent [OF rd True]) simp_all
    next
      case v: True
      with d rd True ce obtain s3 bytes2 s4 where lk: "lock_exclusive (t_inode_block info) s2 = Some s3"
        "read_block io (t_inode_block info) s3 = Some (bytes2, s4)" by (auto simp: Option.bind_eq_Some_conv)
      show ?thesis
      proof (cases "c_string (owner (decode_inode bytes2)) \<noteq> username
         \<or> (itype (decode_inode bytes2) = CHR ''d'' \<and> isize (decode_inode bytes2) > 0)")
        case c: True
        with d rd True ce v lk have "unlock_exclusive (t_inode_block info) s4 = Some s'" "deleted = None"
          by (simp_all add: Option.bind_eq_Some_conv)
        with c show ?thesis by (intro kept [OF rd True ce v lk]) simp_all
      next
        case c: False
        with d rd True ce v lk obtain s5 where
          "remove_entry io dir (decode_inode bytes) (first_empty_block info) (the out) (first_empty_entry_index info) s4
             = Some s5"
          "unlock_exclusive (t_inode_block info) s5 = Some s'"
          "deleted = Some (decode_inode bytes2, inode_block (the out ! first_empty_entry_index info))"
          by (auto simp: Option.bind_eq_Some_conv simp del: One_nat_def)
        with c show ?thesis by (intro removed [OF rd True ce v lk]) simp_all
      qed
    qed
  qed
qed

lemma write_file_cases:
  assumes "write_file io mem username block_id data file s = Some (written, s')"
  obtains (refused) bytes s1 where "read_block io file s = Some (bytes, s1)"
      "c_string (owner (decode_inode bytes)) \<noteq> username \<or> itype (decode_inode bytes) \<noteq> CHR ''f''
         \<or> block_id > isize (decode_inode bytes)" "\<not> written" "s' = s1"
  | (no_room) bytes s1 where "read_block io file s = Some (bytes, s1)"
      "c_string (owner (decode_inode bytes)) = username \<and> itype (decode_inode bytes) = CHR ''f''
         \<and> block_id = isize (decode_inode bytes)"
      "free_blocks s1 = [] \<or> isize (decode_inode bytes) = FS_MAXFILEBLOCKS"
      "\<not> written" "s' = unlock_free (lock_free s1)"
  | (extended) bytes s1 s2 where "read_block io file s = Some (bytes, s1)"
      "c_string (owner (decode_inode bytes)) = username \<and> itype (decode_inode bytes) = CHR ''f''
         \<and> block_id = isize (decode_inode bytes)"
      "free_blocks s1 \<noteq> [] \<and> isize (decode_inode bytes) \<noteq> FS_MAXFILEBLOCKS"
      "write_block io ((blocks (decode_inode bytes))[isize (decode_inode bytes) := hd (free_blocks s1)] ! block_id)
         (block_at mem data) (unlock_free (pop_free (lock_free s1))) = Some s2"
      "write_block io file (encode_inode ((decode_inode bytes)\<lparr>blocks :=
         (blocks (decode_inode bytes))[isize (decode_inode bytes) := hd (free_blocks s1)],
         isize := isize (decode_inode bytes) + 1\<rparr>)) s2 = Some s'" "written"
  | (overwritten) bytes s1 where "read_block io file s = Some (bytes, s1)"
      "c_string (owner (decode_inode bytes)) = username \<and> itype (decode_inode bytes) = CHR ''f''
         \<and> block_id < isize (decode_inode bytes)"
      "write_block io (blocks (decode_inode bytes) ! block_id) (block_at mem data) s1 = Some s'" "written"
proof -
  have f: "free_blocks (lock_free s) = free_blocks s" for s :: "'a server" by (simp add: lock_free_def log_event_def)
  note d = assms [unfolded write_file_def Let_def f]
  from d obtain bytes s1 where rd: "read_block io file s = Some (bytes, s1)" by (auto simp: Option.bind_eq_Some_conv)
  let ?i = "decode_inode bytes"
  show ?thesis
  proof (cases "c_string (owner ?i) \<noteq> username \<or> itype ?i \<noteq> CHR ''f'' \<or> block_id > isize ?i")
    case True
    with d rd have "\<not> written" "s' = s1" by simp_all
    with rd True show ?thesis by (intro refused)
  next
    case ok: False
    show ?thesis
    proof (cases "block_id = isize ?i")
      case True
      show ?thesis
      proof (cases "free_blocks s1 = [] \<or> isize ?i = FS_MAXFILEBLOCKS")
        case full: True
        with d rd ok True have "\<not> written" "s' = unlock_free (lock_free s1)" by simp_all
        with rd ok True full show ?thesis by (intro no_room [OF rd]) simp_all
      next
        case room: False
        with d rd ok True obtain s2 where
          "write_block io ((blocks ?i)[isize ?i := hd (free_blocks s1)] ! block_id)
             (block_at mem data) (unlock_free (pop_free (lock_free s1))) = Some s2"
          "write_block io file (encode_inode (?i\<lparr>blocks := (blocks ?i)[isize ?i := hd (free_blocks s1)],
             isize := isize ?i + 1\<rparr>)) s2 = Some s'" "written"
          by (auto simp: Option.bind_eq_Some_conv)
        with ok True room show ?thesis by (intro extended [OF rd]) simp_all
      qed
    next
      case False
      with d rd ok have "write_block io (blocks ?i ! block_id) (block_at mem data) s1 = Some s'" "written"
        by (auto simp: Option.bind_eq_Some_conv)
      with ok False show ?thesis by (intro overwritten [OF rd]) simp_all
    qed
  qed
qed

lemma handle_create_cases:
  assumes "handle_create io mem req username pathname s = Some s'"
  obtains (ignored) "s' = s"
  | (full) "free_blocks s = []" "s' = unlock_free (lock_free s)"
  | (no_dir) type req' names t s1 s2 where "next_word req = Some (type, req')"
      "path_parser pathname = Some names" "free_blocks s \<noteq> []"
      "traverse_dir io username (butlast names) (unlock_free (pop_free (lock_free s))) = Some (t, s1)"
      "\<not> valid t" "unlock_shared (parent_inode_block t) s1 = Some s2"
      "s' = return_empty_block (hd (free_blocks s)) s2"
  | (in_dir) type req' names t s1 s2 made s3 s4 where "next_word req = Some (type, req')"
      "path_parser pathname = Some names" "free_blocks s \<noteq> [] \<and> type \<in> {''f'', ''d''}"
      "traverse_dir io username (butlast names) (unlock_free (pop_free (lock_free s))) = Some (t, s1)"
      "valid t" "move_lock Lock t s1 = Some s2"
      "create_in_dir io mem type username (last names) (hd (free_blocks s)) (t_inode_block t) s2 = Some (made, s3)"
      "unlock_exclusive (t_inode_block t) s3 = Some s4"
      "s' = (if made then reply (''FS_CREATE '' @ username @ '' '' @ pathname @ '' '' @ type @ [nul]) s4 else s4)"
proof -
  have f: "free_blocks (lock_free s) = free_blocks s" by (simp add: lock_free_def log_event_def)
  note d = assms [unfolded handle_create_def Let_def f]
  consider "s' = s" | "free_blocks s = []" "s' = unlock_free (lock_free s)"
    | type req' names where "next_word req = Some (type, req')" "type \<in> {''f'', ''d''}"
      "path_parser pathname = Some names" "free_blocks s \<noteq> []"
  proof (cases "next_word req")
    case None
    with d that(1) show ?thesis by simp
  next
    case (Some p)
    obtain type req' where p: "p = (type, req')" by (cases p)
    show ?thesis
    proof (cases "type \<in> {''f'', ''d''} \<and> path_parser pathname \<noteq> None \<and> free_blocks s \<noteq> []")
      case True
      then obtain names where "path_parser pathname = Some names" by auto
      with True Some p that(3) show ?thesis by blast
    next
      case False
      have "\<not> (type \<noteq> ''f'' \<and> type \<noteq> ''d'') \<Longrightarrow> type \<in> {''f'', ''d''}" by blast
      with d Some p False show ?thesis
        by (cases "type \<noteq> ''f'' \<and> type \<noteq> ''d''"; cases "path_parser pathname")
          (simp_all only: option.case prod.case if_True if_False option.distinct option.inject simp_thms
            that(1,2) split: if_splits)
    qed
  qed
  then show ?thesis
  proof cases
    case (3 type req' names)
    with d obtain t s1 where tr:
      "traverse_dir io username (butlast names) (unlock_free (pop_free (lock_free s))) = Some (t, s1)"
      by (auto simp: Option.bind_eq_Some_conv)
    show ?thesis
    proof (cases "valid t")
      case True
      from d 3 tr True obtain s2 made s3 s4 where
        "move_lock Lock t s1 = Some s2"
        "create_in_dir io mem type username (last names) (hd (free_blocks s)) (t_inode_block t) s2 = Some (made, s3)"
        "unlock_exclusive (t_inode_block t) s3 = Some s4"
        "s' = (if made then reply (''FS_CREATE '' @ username @ '' '' @ pathname @ '' '' @ type @ [nul]) s4 else s4)"
        by (auto simp: Option.bind_eq_Some_conv)
      with 3 tr True show ?thesis by (intro in_dir) auto
    next
      case False
      from d 3 tr False obtain s2 where "unlock_shared (parent_inode_block t) s1 = Some s2"
        "s' = return_empty_block (hd (free_blocks s)) s2" by (auto simp: Option.bind_eq_Some_conv)
      with 3 tr False show ?thesis by (intro no_dir) auto
    qed
  qed (use ignored full in auto)
qed

lemma handle_delete_cases:
  assumes "handle_delete io mem username pathname s = Some s'"
  obtains (ignored) "s' = s"
  | (no_dir) names t s1 where "path_parser pathname = Some names"
      "traverse_dir io username (butlast names) s = Some (t, s1)"
      "\<not> valid t" "unlock_shared (parent_inode_block t) s1 = Some s'"
  | (no_entry) names t s1 s2 s3 where "path_parser pathname = Some names"
      "traverse_dir io username (butlast names) s = Some (t, s1)"
      "valid t" "move_lock Lock t s1 = Some s2"
      "delete_in_dir io mem username (last names) (t_inode_block t) s2 = Some (None, s3)"
      "unlock_exclusive (t_inode_block t) s3 = Some s'"
  | (deleted) names t s1 s2 inode block s3 s4 s5 where "path_parser pathname = Some names"
      "traverse_dir io username (butlast names) s = Some (t, s1)"
      "valid t" "move_lock Lock t s1 = Some s2"
      "delete_in_dir io mem username (last names) (t_inode_block t) s2 = Some (Some (inode, block), s3)"
      "unlock_exclusive (t_inode_block t) s3 = Some s4"
      "push_all (block_list inode) (lock_free s4) = Some s5"
      "s' = reply (''FS_DELETE '' @ username @ '' '' @ pathname @ [nul]) (unlock_free (push_free block s5))"
proof (cases "path_parser pathname")
  case None
  with assms show ?thesis by (intro ignored) (simp add: handle_delete_def)
next
  case (Some names)
  note d = assms [unfolded handle_delete_def Some Let_def, simplified]
  from d obtain t s1 where tr: "traverse_dir io username (butlast names) s = Some (t, s1)"
    by (auto simp: Option.bind_eq_Some_conv)
  show ?thesis
  proof (cases "valid t")
    case True
    with d tr obtain s2 r s3 s4 where st: "move_lock Lock t s1 = Some s2"
      "delete_in_dir io mem username (last names) (t_inode_block t) s2 = Some (r, s3)"
      "unlock_exclusive (t_inode_block t) s3 = Some s4"
      by (auto simp: Option.bind_eq_Some_conv)
    show ?thesis
    proof (cases r)
      case None
      with d tr True st have "s' = s4" by simp
      with Some tr True st None show ?thesis by (auto intro: no_entry)
    next
      case r: (Some p)
      obtain inode block where p: "p = (inode, block)" by (cases p)
      from d tr True st r p obtain s5 where "push_all (block_list inode) (lock_free s4) = Some s5"
        "s' = reply (''FS_DELETE '' @ username @ '' '' @ pathname @ [nul]) (unlock_free (push_free block s5))"
        by (auto simp: Option.bind_eq_Some_conv)
      with Some tr True st r p show ?thesis by (intro deleted) auto
    qed
  next
    case False
    with d tr Some show ?thesis by (intro no_dir) auto
  qed
qed

lemma handle_readblock_cases:
  assumes "handle_readblock io req username pathname s = Some s'"
  obtains (ignored) "s' = s"
  | (no_file) block_str req' names t s1 where "next_word req = Some (block_str, req')"
      "isblock block_str" "digits_val block_str < FS_MAXFILEBLOCKS" "path_parser pathname = Some names"
      "traverse_dir io username names s = Some (t, s1)"
      "\<not> valid t" "unlock_shared (parent_inode_block t) s1 = Some s'"
  | (in_file) block_str req' names t s1 s2 data s3 s4 where "next_word req = Some (block_str, req')"
      "isblock block_str" "digits_val block_str < FS_MAXFILEBLOCKS" "path_parser pathname = Some names"
      "traverse_dir io username names s = Some (t, s1)"
      "valid t" "move_lock Lock_shared t s1 = Some s2"
      "read_file io username (digits_val block_str) (t_inode_block t) s2 = Some (data, s3)"
      "unlock_shared (t_inode_block t) s3 = Some s4"
      "s' = (case data of None \<Rightarrow> s4 | Some data \<Rightarrow>
         reply (''FS_READBLOCK '' @ username @ '' '' @ pathname @ '' '' @ block_str @ [nul] @ data) s4)"
proof -
  note d = assms [unfolded handle_readblock_def Let_def]
  consider "s' = s" | block_str req' names where "next_word req = Some (block_str, req')"
      "isblock block_str" "digits_val block_str < FS_MAXFILEBLOCKS" "path_parser pathname = Some names"
    using d by (auto split: option.splits if_splits)
  then show ?thesis
  proof cases
    case (2 block_str req' names)
    with d obtain t s1 where tr: "traverse_dir io username names s = Some (t, s1)"
      by (auto simp: Option.bind_eq_Some_conv)
    show ?thesis
    proof (cases "valid t")
      case True
      from d 2 tr True obtain s2 data s3 s4 where "move_lock Lock_shared t s1 = Some s2"
        "read_file io username (digits_val block_str) (t_inode_block t) s2 = Some (data, s3)"
        "unlock_shared (t_inode_block t) s3 = Some s4"
        "s' = (case data of None \<Rightarrow> s4 | Some data \<Rightarrow>
         reply (''FS_READBLOCK '' @ username @ '' '' @ pathname @ '' '' @ block_str @ [nul] @ data) s4)"
        by (auto simp: Option.bind_eq_Some_conv)
      with 2 tr True show ?thesis by (intro in_file) auto
    next
      case False
      from d 2 tr False have "unlock_shared (parent_inode_block t) s1 = Some s'" by simp
      with 2 tr False show ?thesis by (intro no_file) auto
    qed
  qed (use ignored in auto)
qed

lemma handle_writeblock_cases:
  assumes "handle_writeblock io mem req username pathname sock s = Some s'"
  obtains (ignored) "s' = s"
  | (no_file) block_str req' data names t s1 where "next_word req = Some (block_str, req')"
      "isblock block_str" "digits_val block_str < FS_MAXFILEBLOCKS" "recv_data [] 0 sock = Some data"
      "path_parser pathname = Some names" "traverse_dir io username names s = Some (t, s1)"
      "\<not> valid t" "unlock_shared (parent_inode_block t) s1 = Some s'"
  | (in_file) block_str req' data names t s1 s2 written s3 s4 where "next_word req = Some (block_str, req')"
      "isblock block_str" "digits_val block_str < FS_MAXFILEBLOCKS" "recv_data [] 0 sock = Some data"
      "path_parser pathname = Some names" "traverse_dir io username names s = Some (t, s1)"
      "valid t" "move_lock Lock t s1 = Some s2"
      "write_file io mem username (digits_val block_str) data (t_inode_block t) s2 = Some (written, s3)"
      "unlock_exclusive (t_inode_block t) s3 = Some s4"
      "s' = (if written then
         reply (''FS_WRITEBLOCK '' @ username @ '' '' @ pathname @ '' '' @ block_str @ [nul]) s4 else s4)"
proof -
  note d = assms [unfolded handle_writeblock_def Let_def]
  consider "s' = s" | block_str req' data names where "next_word req = Some (block_str, req')"
      "isblock block_str" "digits_val block_str < FS_MAXFILEBLOCKS" "recv_data [] 0 sock = Some data"
      "path_parser pathname = Some names"
    using d by (auto simp: Option.bind_eq_Some_conv split: option.splits if_splits)
  then show ?thesis
  proof cases
    case (2 block_str req' data names)
    with d obtain t s1 where tr: "traverse_dir io username names s = Some (t, s1)"
      by (auto simp: Option.bind_eq_Some_conv)
    show ?thesis
    proof (cases "valid t")
      case True
      from d 2 tr True obtain s2 written s3 s4 where "move_lock Lock t s1 = Some s2"
        "write_file io mem username (digits_val block_str) data (t_inode_block t) s2 = Some (written, s3)"
        "unlock_exclusive (t_inode_block t) s3 = Some s4"
        "s' = (if written then
         reply (''FS_WRITEBLOCK '' @ username @ '' '' @ pathname @ '' '' @ block_str @ [nul]) s4 else s4)"
        by (auto simp: Option.bind_eq_Some_conv)
      with 2 tr True show ?thesis by (intro in_file) auto
    next
      case False
      from d 2 tr False have "unlock_shared (parent_inode_block t) s1 = Some s'" by simp
      with 2 tr False show ?thesis by (intro no_file) auto
    qed
  qed (use ignored in auto)
qed

end
