(* ===== verification/FS_Text.thy ===== *)
theory FS_Text imports FS_Server begin

text \<open>
  The text the file server reads and writes: path names, the blanks of a header, headers and data
  received in pieces, and responses sent in pieces.
\<close>

section \<open>Path names\<close>

definition valid_name :: "string \<Rightarrow> bool" where
  "valid_name n \<longleftrightarrow> n \<noteq> [] \<and> length n \<le> FS_MAXFILENAME \<and> CHR ''/'' \<notin> set n"

definition show_path :: "string list \<Rightarrow> string" where
  "show_path names = concat (map ((#) CHR ''/'') names)"

lemma show_path_simps [simp]: "show_path [] = []" "show_path (n # ns) = CHR ''/'' # n @ show_path ns"
  "show_path (xs @ ys) = show_path xs @ show_path ys"
  by (simp_all add: show_path_def)

lemma show_path_front: "show_path ns = [] \<or> (\<exists>r. show_path ns = CHR ''/'' # r)"
  by (cases ns) auto

lemma getline_word:
  "CHR ''/'' \<notin> set n \<Longrightarrow> n \<noteq> [] \<Longrightarrow> getline CHR ''/'' (n @ show_path ns) = Some (n, drop 1 (show_path ns))"
proof -
  assume n: "CHR ''/'' \<notin> set n" "n \<noteq> []"
  then have all: "\<forall>c \<in> set n. c \<noteq> CHR ''/''" by auto
  from show_path_front [of ns] show ?thesis
  proof
    assume e: "show_path ns = []"
    have w: "dropWhile (\<lambda>c. c \<noteq> CHR ''/'') n = []" "takeWhile (\<lambda>c. c \<noteq> CHR ''/'') n = n"
      using all by auto
    show ?thesis unfolding getline_def e append_Nil2 w using n(2) by simp
  next
    assume "\<exists>r. show_path ns = CHR ''/'' # r"
    then obtain r where "show_path ns = CHR ''/'' # r" by blast
    with n(2) all show ?thesis by (simp add: getline_def)
  qed
qed

lemma parse_shown:
  "\<forall>n \<in> set names. valid_name n \<Longrightarrow> parse_names (drop 1 (show_path names)) = Some names"
proof (induction names)
  case Nil
  then show ?case by (simp add: parse_names.simps getline_def)
next
  case (Cons n ns)
  then have "valid_name n" by simp
  then have n: "CHR ''/'' \<notin> set n" "n \<noteq> []" "\<not> length n > FS_MAXFILENAME" "length n \<noteq> 0"
    by (auto simp: valid_name_def)
  have "parse_names (n @ show_path ns) = Some (n # ns)"
    using getline_word [OF n(1,2)] n(3,4) Cons by (subst parse_names.simps) simp
  then show ?case by simp
qed

lemma getline_split:
  assumes "getline CHR ''/'' str = Some (tmp, rest)"
  shows "CHR ''/'' \<notin> set tmp" and "str = tmp \<and> rest = [] \<or> str = tmp @ CHR ''/'' # rest"
proof -
  have t: "tmp = takeWhile (\<lambda>c. c \<noteq> CHR ''/'') str" and r: "rest = drop 1 (dropWhile (\<lambda>c. c \<noteq> CHR ''/'') str)"
    using assms by (auto simp: getline_def split: if_splits)
  show "CHR ''/'' \<notin> set tmp" unfolding t by (auto dest: set_takeWhileD)
  have s: "str = tmp @ dropWhile (\<lambda>c. c \<noteq> CHR ''/'') str" unfolding t by simp
  show "str = tmp \<and> rest = [] \<or> str = tmp @ CHR ''/'' # rest"
  proof (cases "dropWhile (\<lambda>c. c \<noteq> CHR ''/'') str")
    case Nil
    have "rest = []" using r Nil by simp
    moreover have "str = tmp" using s Nil by simp
    ultimately show ?thesis by simp
  next
    case (Cons c cs)
    then have "c = CHR ''/''" using hd_dropWhile [of "\<lambda>c. c \<noteq> CHR ''/''" str] by auto
    with Cons s r show ?thesis by simp
  qed
qed

lemma parse_names_sound:
  "parse_names str = Some names \<Longrightarrow> (\<forall>n \<in> set names. valid_name n) \<and>
     (if names = [] then str = []
      else CHR ''/'' # str = show_path names \<or> CHR ''/'' # str = show_path names @ [CHR ''/''])"
proof (induction str arbitrary: names rule: parse_names.induct)
  case (1 str)
  show ?case
  proof (cases "getline CHR ''/'' str")
    case None
    then show ?thesis using "1.prems" by (simp add: parse_names.simps [of str] getline_def split: if_splits)
  next
    case (Some p)
    obtain tmp rest where p: "p = (tmp, rest)" by (cases p)
    from "1.prems" Some p have ok: "\<not> (length tmp > FS_MAXFILENAME \<or> length tmp = 0)"
      and r: "map_option ((#) tmp) (parse_names rest) = Some names"
      by (auto simp: parse_names.simps [of str] split: if_splits)
    from r obtain ns where ns: "parse_names rest = Some ns" "names = tmp # ns" by auto
    note ih = "1.IH" [OF Some p [symmetric] ok ns(1)]
    note sp = getline_split [OF Some [unfolded p]]
    have "valid_name tmp" using ok sp(1) by (simp add: valid_name_def)
    then show ?thesis using ih sp(2) ns(2) by (cases ns) (auto simp: valid_name_def split: if_splits)
  qed
qed

text \<open>The parser accepts exactly the printed lists of valid names, and gives the list back.\<close>

lemma path_parser_iff:
  assumes "pathname \<noteq> []"
  shows "path_parser pathname = Some names \<longleftrightarrow>
    names \<noteq> [] \<and> (\<forall>n \<in> set names. valid_name n) \<and> pathname = show_path names"
proof
  assume p: "path_parser pathname = Some names"
  from assms obtain c rest where pn: "pathname = c # rest" by (cases pathname) auto
  with p have c: "c = CHR ''/''" and l: "last pathname \<noteq> CHR ''/''"
    by (auto simp: path_parser_def split: if_splits)
  then have "parse_names rest = Some names" using p pn by (simp add: path_parser_def getline_def)
  note sound = parse_names_sound [OF this]
  have "pathname \<noteq> show_path names @ [CHR ''/'']" using l by auto
  with sound pn c show
    "names \<noteq> [] \<and> (\<forall>n \<in> set names. valid_name n) \<and> pathname = show_path names"
    by (auto split: if_splits)
next
  assume n: "names \<noteq> [] \<and> (\<forall>n \<in> set names. valid_name n) \<and> pathname = show_path names"
  then obtain ns n1 where names: "names = ns @ [n1]" by (cases names rule: rev_cases) auto
  with n have n1: "n1 \<noteq> []" "CHR ''/'' \<notin> set n1" by (auto simp: valid_name_def)
  have "last n1 \<noteq> CHR ''/''" using last_in_set [OF n1(1)] n1(2) by metis
  then have l: "last pathname = last n1" "last n1 \<noteq> CHR ''/''"
    using n names n1 by auto
  obtain m ms where "names = m # ms" using n by (cases names) auto
  then have f: "pathname = CHR ''/'' # drop 1 (show_path names)" using n by simp
  show "path_parser pathname = Some names" using n l parse_shown [of names]
    by (subst f, subst (asm) f) (simp add: path_parser_def getline_def f [symmetric])
qed

section \<open>Blanks\<close>

lemma find_space_count: "find_space hdr = length (filter ((=) CHR '' '') hdr)"
proof (induction hdr rule: find_space.induct)
  case (1 hdr)
  let ?P = "\<lambda>c. c \<noteq> CHR '' ''"
  have s: "hdr = takeWhile ?P hdr @ dropWhile ?P hdr" by simp
  have t: "filter ((=) CHR '' '') (takeWhile ?P hdr) = []"
    by (auto simp: filter_empty_conv dest: set_takeWhileD)
  show ?case
  proof (cases "dropWhile ?P hdr")
    case Nil
    then show ?thesis using s t by (metis append_Nil2 find_space.simps list.simps(4) list.size(3))
  next
    case (Cons c rest)
    have "c = CHR '' ''" using Cons hd_dropWhile [of ?P hdr] by auto
    moreover have "filter ((=) CHR '' '') hdr = filter ((=) CHR '' '') (c # rest)"
      using arg_cong [OF s, of "filter ((=) CHR '' '')"] t Cons by simp
    moreover have "find_space hdr = Suc (find_space rest)" using Cons by (subst find_space.simps) simp
    ultimately show ?thesis using "1.IH" [OF Cons] by simp
  qed
qed

section \<open>Headers\<close>

definition word :: "string \<Rightarrow> bool" where
  "word w \<longleftrightarrow> w \<noteq> [] \<and> (\<forall>c \<in> set w. \<not> is_space c)"

lemma blank_is_space [simp]: "is_space CHR '' ''"
  by (simp add: is_space_def)

lemma next_word_last: "word w \<Longrightarrow> next_word (CHR '' '' # w) = Some (w, [])" "word w \<Longrightarrow> next_word w = Some (w, [])"
  by (cases w; auto simp: next_word_def word_def Let_def)+

lemma next_word_more:
  "word w \<Longrightarrow> next_word (CHR '' '' # w @ CHR '' '' # r) = Some (w, CHR '' '' # r)"
  "word w \<Longrightarrow> next_word (w @ CHR '' '' # r) = Some (w, CHR '' '' # r)"
  by (cases w; auto simp: next_word_def word_def Let_def takeWhile_append2 dropWhile_append2)+

lemma word_blanks: "word w \<Longrightarrow> filter ((=) CHR '' '') w = []"
  by (force simp: word_def filter_empty_conv)

text \<open>A header of four words, or of three: which handler it goes to.\<close>

lemma dispatch_four:
  assumes "word ty" "word user" "word path" "word arg"
    and "length user \<le> FS_MAXUSERNAME" "length path \<le> FS_MAXPATHNAME"
  shows "dispatch io mem (ty @ CHR '' '' # user @ CHR '' '' # path @ CHR '' '' # arg) sock s =
    (if ty = ''FS_READBLOCK'' then handle_readblock io (CHR '' '' # arg) user path s
     else if ty = ''FS_WRITEBLOCK'' then handle_writeblock io mem (CHR '' '' # arg) user path sock s
     else if ty = ''FS_CREATE'' then handle_create io mem (CHR '' '' # arg) user path s
     else Some s)"
  using assms
  by (simp add: dispatch_def next_word_more check_request_type_def find_space_count word_blanks)

lemma dispatch_three:
  assumes "word user" "word path" "length user \<le> FS_MAXUSERNAME" "length path \<le> FS_MAXPATHNAME"
  shows "dispatch io mem (''FS_DELETE'' @ CHR '' '' # user @ CHR '' '' # path) sock s =
    handle_delete io mem user path s"
proof -
  have "word ''FS_DELETE''" by (simp add: word_def is_space_def)
  note w = next_word_more(2) [OF this, of "user @ CHR '' '' # path"]
  show ?thesis using assms
    by (simp add: dispatch_def w [simplified] next_word_more next_word_last check_request_type_def
        find_space_count word_blanks)
qed

section \<open>Receiving\<close>

text \<open>A connection that delivers \<open>bytes\<close>, in any pieces, and then is closed by the peer.\<close>

definition delivers :: "socket \<Rightarrow> string \<Rightarrow> bool" where
  "delivers sock bytes \<longleftrightarrow> (\<exists>ps. sock = map Some ps \<and> [] \<notin> set ps \<and> concat ps = bytes)"

lemma delivers_recv:
  assumes "delivers sock bytes" and "0 < n" and "bytes \<noteq> []"
  obtains x sock' rest where "recv n sock = (Some x, sock')" "x \<noteq> []" "length x \<le> n" "bytes = x @ rest"
    "delivers sock' rest"
proof -
  obtain ps where ps: "sock = map Some ps" "[] \<notin> set ps" "concat ps = bytes"
    using assms(1) by (auto simp: delivers_def)
  with assms(3) obtain p qs where q: "ps = p # qs" by (cases ps) auto
  show ?thesis
  proof (cases "length p \<le> n")
    case True
    have "delivers (map Some qs) (concat qs)" using ps(2) q by (auto simp: delivers_def)
    then show ?thesis using True ps q by (intro that [of p "map Some qs" "concat qs"]) auto
  next
    case False
    have "delivers (map Some (drop n p # qs)) (drop n p @ concat qs)"
      unfolding delivers_def using ps(2) q False by (intro exI [of _ "drop n p # qs"]) auto
    then show ?thesis using False ps q assms(2)
      by (intro that [of "take n p" "map Some (drop n p # qs)" "drop n p @ concat qs"]) auto
  qed
qed

text \<open>However the bytes arrive, the header is received up to its null byte and the rest is left.\<close>

lemma recv_header_delivered:
  assumes "delivers sock (h @ nul # rest)" and "nul \<notin> set h" and "recvd + length h \<le> max_header_len"
  shows "\<exists>sock'. recv_header hdr recvd buf sock = Inr (hdr @ h, sock') \<and> delivers sock' rest"
  using assms
proof (induction h arbitrary: hdr recvd buf sock)
  case Nil
  from Nil.prems(1) obtain x sock' r where x: "recv 1 sock = (Some x, sock')" "x \<noteq> []" "length x \<le> 1"
    "[] @ nul # rest = x @ r" "delivers sock' r"
    by (rule delivers_recv) auto
  then have "x = [nul]" "r = rest" by (cases x; simp)+
  with x show ?case by (subst recv_header.simps) simp
next
  case (Cons c h)
  from Cons.prems(1) obtain x sock' r where x: "recv 1 sock = (Some x, sock')" "x \<noteq> []" "length x \<le> 1"
    "(c # h) @ nul # rest = x @ r" "delivers sock' r"
    by (rule delivers_recv) auto
  then have xc: "x = [c]" "r = h @ nul # rest" by (cases x; simp)+
  with x Cons.prems Cons.IH [of sock' "recvd + 1" "hdr @ [c]" c] show ?case
    by (subst recv_header.simps) auto
qed

text \<open>The data of a write: the first 512 bytes, or all there is when the peer sends fewer.\<close>

lemma recv_data_delivered:
  "delivers sock bytes \<Longrightarrow> recvd < FS_BLOCKSIZE \<Longrightarrow>
   recv_data data recvd sock = Some (data @ take (FS_BLOCKSIZE - recvd) bytes)"
proof (induction data recvd sock arbitrary: bytes rule: recv_data.induct)
  case (1 data recvd sock)
  show ?case
  proof (cases "bytes = []")
    case True
    then have "sock = []" using "1.prems"(1) by (auto simp: delivers_def) (metis list.set_intros(1) list.exhaust)
    with True "1.prems"(2) show ?thesis by (subst recv_data.simps) simp
  next
    case False
    with "1.prems" obtain x sock' r where x: "recv (FS_BLOCKSIZE - recvd) sock = (Some x, sock')" "x \<noteq> []"
      "length x \<le> FS_BLOCKSIZE - recvd" "bytes = x @ r" "delivers sock' r"
      using delivers_recv [of sock bytes "FS_BLOCKSIZE - recvd"] by auto
    show ?thesis
    proof (cases "recvd + length x \<ge> FS_BLOCKSIZE")
      case True
      with x show ?thesis by (subst recv_data.simps) simp
    next
      case c: False
      have "recv_data (data @ x) (recvd + length x) sock'
          = Some ((data @ x) @ take (FS_BLOCKSIZE - (recvd + length x)) r)"
        using c x by (intro "1.IH" [OF x(1) [symmetric] refl refl refl]) auto
      with x c show ?thesis by (subst recv_data.simps) simp
    qed
  qed
qed

section \<open>Sending\<close>

text \<open>
  Calls of \<open>send\<close> that each take some of the rest, as the documentation says they do without error,
  until everything is taken.
\<close>

fun sends_all :: "nat \<Rightarrow> int list \<Rightarrow> bool" where
  "sends_all left [] \<longleftrightarrow> False"
| "sends_all left (n # ns) \<longleftrightarrow> 0 < n \<and> n \<le> int left \<and> (n = int left \<or> sends_all (left - nat n) ns)"

lemma send_response_loop:
  "sends_all (length message - sent) ns \<Longrightarrow> sent < length message \<Longrightarrow>
   send_response message (int sent) ns wire = Some (wire @ drop sent message)"
proof (induction ns arbitrary: sent wire)
  case (Cons n ns)
  obtain k where k: "n = int k" using Cons.prems(1) by (auto intro: that [of "nat n"])
  show ?case
  proof (cases "k = length message - sent")
    case True
    with Cons.prems k show ?thesis by simp
  next
    case False
    then have "sends_all (length message - (sent + k)) ns" "sent + k < length message"
      using Cons.prems k by (auto simp: diff_diff_left)
    from Cons.IH [OF this, of "wire @ take k (drop sent message)"] this k
    show ?thesis by (simp add: take_drop append_take_drop_id drop_drop) (metis append_take_drop_id add.commute drop_drop take_drop)
  qed
qed simp

end
