(* ===== verification/FS_View.thy ===== *)
theory FS_View imports FS_Text begin

text \<open>
  The file system as its users see it: a map from paths to files and directories, read off the blocks
  of the disk; and when a disk is well formed. How the map changes when one directory changes by one
  name is proved here, for the operations to use.
\<close>

section \<open>Reading the disk\<close>

type_synonym contents = "nat \<Rightarrow> string"

definition inode_at :: "contents \<Rightarrow> nat \<Rightarrow> fs_inode" where
  "inode_at c i = decode_inode (c i)"

definition entries_at :: "contents \<Rightarrow> nat \<Rightarrow> fs_direntry list" where
  "entries_at c b = decode_entries (c b)"

definition kind :: "contents \<Rightarrow> nat \<Rightarrow> char" where
  "kind c i = itype (inode_at c i)"

definition owner_of :: "contents \<Rightarrow> nat \<Rightarrow> string" where
  "owner_of c i = c_string (owner (inode_at c i))"

definition iblocks :: "contents \<Rightarrow> nat \<Rightarrow> nat list" where
  "iblocks c i = take (isize (inode_at c i)) (blocks (inode_at c i))"

definition live :: "fs_direntry \<Rightarrow> bool" where
  "live e \<longleftrightarrow> inode_block e \<noteq> 0"

definition link :: "fs_direntry \<Rightarrow> string \<times> nat" where
  "link e = (c_string (dname e), inode_block e)"

text \<open>The names in a directory, with the inodes they stand for; a file has none.\<close>

definition links_of :: "fs_direntry list \<Rightarrow> (string \<times> nat) list" where
  "links_of es = map link (filter live es)"

definition links :: "contents \<Rightarrow> nat \<Rightarrow> (string \<times> nat) list" where
  "links c i = (if kind c i = CHR ''d'' then links_of (concat (map (entries_at c) (iblocks c i))) else [])"

lemma links_of_append [simp]: "links_of (xs @ ys) = links_of xs @ links_of ys"
  by (simp add: links_of_def)

lemma links_of_simps [simp]: "links_of [] = []"
  "links_of (e # es) = (if live e then link e # links_of es else links_of es)"
  by (simp_all add: links_of_def)

lemma zero_not_linked: "(n, 0) \<notin> set (links c i)"
  by (auto simp: links_def links_of_def link_def live_def)

section \<open>Paths\<close>

fun resolve :: "contents \<Rightarrow> nat \<Rightarrow> string list \<Rightarrow> nat option" where
  "resolve c i [] = Some i"
| "resolve c i (n # ns) = (case map_of (links c i) n of None \<Rightarrow> None | Some j \<Rightarrow> resolve c j ns)"

lemma resolve_append:
  "resolve c i (p @ q) = (case resolve c i p of None \<Rightarrow> None | Some j \<Rightarrow> resolve c j q)"
  by (induction p arbitrary: i) (auto split: option.splits)

lemma resolve_snoc:
  "resolve c i (p @ [n]) = (case resolve c i p of None \<Rightarrow> None | Some j \<Rightarrow> map_of (links c j) n)"
  by (auto simp: resolve_append split: option.splits)

definition inodes :: "contents \<Rightarrow> nat set" where
  "inodes c = {i. \<exists>p. resolve c 0 p = Some i}"

lemma root_in_inodes [simp]: "0 \<in> inodes c"
  by (auto simp: inodes_def intro: exI [of _ "[]"])

lemma resolve_in_inodes: "resolve c 0 p = Some i \<Longrightarrow> i \<in> inodes c"
  by (auto simp: inodes_def)

lemma linked_in_inodes: "i \<in> inodes c \<Longrightarrow> map_of (links c i) n = Some j \<Longrightarrow> j \<in> inodes c"
proof -
  assume "i \<in> inodes c" "map_of (links c i) n = Some j"
  then obtain p where "resolve c 0 p = Some i" by (auto simp: inodes_def)
  with \<open>map_of (links c i) n = Some j\<close> have "resolve c 0 (p @ [n]) = Some j" by (simp add: resolve_snoc)
  then show ?thesis by (rule resolve_in_inodes)
qed

section \<open>What the users see\<close>

datatype node = File string "string list" | Directory string

definition node_of :: "contents \<Rightarrow> nat \<Rightarrow> node" where
  "node_of c i = (if kind c i = CHR ''d'' then Directory (owner_of c i)
     else File (owner_of c i) (map c (iblocks c i)))"

definition view :: "contents \<Rightarrow> string list \<Rightarrow> node option" where
  "view c p = map_option (node_of c) (resolve c 0 p)"

section \<open>Well-formed disks\<close>

text \<open>
  The blocks in use: every inode that a path reaches, and the blocks of its array; and the inodes that
  directories link to.
\<close>

definition usage :: "contents \<Rightarrow> nat multiset" where
  "usage c = (\<Sum>i \<in> inodes c. add_mset i (mset (iblocks c i)))"

definition linked :: "contents \<Rightarrow> nat multiset" where
  "linked c = (\<Sum>i \<in> inodes c. mset (map snd (links c i)))"

text \<open>No block of a directory is without a name.\<close>

definition packed :: "contents \<Rightarrow> nat \<Rightarrow> bool" where
  "packed c i \<longleftrightarrow> (kind c i = CHR ''d'' \<longrightarrow> (\<forall>b \<in> set (iblocks c i). links_of (entries_at c b) \<noteq> []))"

text \<open>
  The root is a directory; inodes have a type the code knows and a size in bounds; every block of the
  disk is in use once or free once, and not both; a directory has no name twice and no block without a name;
  every inode but the root is linked once.
\<close>

definition fs_wf :: "contents \<Rightarrow> nat list \<Rightarrow> bool" where
  "fs_wf c free \<longleftrightarrow> kind c 0 = CHR ''d'' \<and>
     (\<forall>i \<in> inodes c. kind c i \<in> {CHR ''f'', CHR ''d''} \<and> isize (inode_at c i) \<le> FS_MAXFILEBLOCKS \<and>
        distinct (map fst (links c i)) \<and> packed c i) \<and>
     finite (inodes c) \<and> usage c + mset free = mset_set {..<FS_DISKSIZE} \<and>
     linked c = mset_set (inodes c - {0}) \<and>
     (\<forall>b < FS_DISKSIZE. length (c b) = FS_BLOCKSIZE)"

lemma length_blocks [simp]: "length (c i) = FS_BLOCKSIZE \<Longrightarrow> length (blocks (inode_at c i)) = FS_MAXFILEBLOCKS"
  using decode_inode_sized [of "c i"] by (simp add: inode_at_def inode_sized_def)

text \<open>An element of a sum of multisets, and what two elements of a set without repetition are.\<close>

lemma sum_mset_split:
  "finite A \<Longrightarrow> i \<in> A \<Longrightarrow> (\<Sum>x \<in> A. f x) = f i + (\<Sum>x \<in> A - {i}. f x)" for f :: "'i \<Rightarrow> 'x multiset"
  by (rule sum.remove)

lemma sum_mset_split2:
  fixes f :: "'i \<Rightarrow> 'x multiset"
  assumes "finite A" "i \<in> A" "j \<in> A" "i \<noteq> j"
  shows "(\<Sum>x \<in> A. f x) = f i + f j + (\<Sum>x \<in> A - {i} - {j}. f x)"
  using assms sum_mset_split [of A i f] sum_mset_split [of "A - {i}" j f] by (simp add: add.assoc)

lemma mset_set_count_sum: "X + Y = mset_set A \<Longrightarrow> count X x + count Y x \<le> 1"
  using count_mset_set' [of A x] by (metis count_union le_refl zero_le_one)

lemma mset_set_parts:
  assumes "X + Y = mset_set A"
  shows "x \<in># X \<Longrightarrow> x \<notin># Y" "x \<in># X \<Longrightarrow> finite A \<Longrightarrow> x \<in> A"
proof -
  have c: "count X x + count Y x \<le> 1" by (rule mset_set_count_sum [OF assms])
  show "x \<notin># Y" if "x \<in># X"
  proof -
    have "0 < count X x" using that by simp
    with c have "count Y x = 0" by linarith
    then show ?thesis by (simp add: not_in_iff)
  qed
  show "x \<in># X \<Longrightarrow> finite A \<Longrightarrow> x \<in> A"
    using arg_cong [OF assms, of set_mset] by auto
qed

lemma mset_set_distinct: "mset xs + Y = mset_set A \<Longrightarrow> distinct xs"
proof -
  assume a: "mset xs + Y = mset_set A"
  have "count (mset xs) x = (if x \<in> set xs then 1 else 0)" for x
  proof (cases "x \<in> set xs")
    case True
    then have "0 < count (mset xs) x" by simp
    with mset_set_count_sum [OF a, of x] have "count (mset xs) x = 1" by linarith
    with True show ?thesis by simp
  qed (simp add: count_mset_0_iff)
  then show ?thesis by (simp add: distinct_count_atmost_1)
qed

lemma wf_usage: "fs_wf c free \<Longrightarrow> usage c + mset free = mset_set {..<FS_DISKSIZE}"
  by (simp add: fs_wf_def)

lemma wf_finite: "fs_wf c free \<Longrightarrow> finite (inodes c)"
  by (simp add: fs_wf_def)

lemma in_usage: "fs_wf c free \<Longrightarrow> i \<in> inodes c \<Longrightarrow> x = i \<or> x \<in> set (iblocks c i) \<Longrightarrow> x \<in># usage c"
  unfolding usage_def by (subst sum_mset_split [of _ i]) (auto simp: fs_wf_def)

lemma wf_bound: "fs_wf c free \<Longrightarrow> x \<in># usage c \<Longrightarrow> x < FS_DISKSIZE"
  using mset_set_parts(2) [OF wf_usage, of c free x] by simp

lemma wf_free_bound: "fs_wf c free \<Longrightarrow> x \<in> set free \<Longrightarrow> x < FS_DISKSIZE"
  using mset_set_parts(2) [of "mset free" "usage c" "{..<FS_DISKSIZE}" x] wf_usage [of c free]
  by (simp add: add.commute)

lemma wf_not_free: "fs_wf c free \<Longrightarrow> x \<in># usage c \<Longrightarrow> x \<notin> set free"
  using mset_set_parts(1) [OF wf_usage, of c free x] by simp

lemma wf_distinct_free: "fs_wf c free \<Longrightarrow> distinct free"
  using mset_set_distinct [of free "usage c" "{..<FS_DISKSIZE}"] wf_usage [of c free] by (simp add: add.commute)

lemma wf_inode_bound: "fs_wf c free \<Longrightarrow> i \<in> inodes c \<Longrightarrow> i < FS_DISKSIZE"
  using wf_bound in_usage by blast

lemma wf_block_bound: "fs_wf c free \<Longrightarrow> i \<in> inodes c \<Longrightarrow> b \<in> set (iblocks c i) \<Longrightarrow> b < FS_DISKSIZE"
  using wf_bound in_usage by blast

text \<open>What belongs to one inode belongs to no other.\<close>

lemma wf_apart:
  assumes wf: "fs_wf c free" and i: "i \<in> inodes c" and j: "j \<in> inodes c" and ne: "i \<noteq> j"
  shows "set (i # iblocks c i) \<inter> set (j # iblocks c j) = {}"
proof -
  let ?f = "\<lambda>i. add_mset i (mset (iblocks c i))"
  have "usage c = ?f i + ?f j + (\<Sum>x \<in> inodes c - {i} - {j}. ?f x)"
    unfolding usage_def by (rule sum_mset_split2 [OF wf_finite [OF wf] i j ne])
  then have "?f i + (?f j + (\<Sum>x \<in> inodes c - {i} - {j}. ?f x) + mset free) = mset_set {..<FS_DISKSIZE}"
    using wf_usage [OF wf] by (simp add: add.assoc)
  from mset_set_parts(1) [OF this] show ?thesis by auto
qed

lemma wf_own:
  assumes wf: "fs_wf c free" and i: "i \<in> inodes c" shows "distinct (i # iblocks c i)"
proof -
  have "mset (i # iblocks c i) + ((\<Sum>x \<in> inodes c - {i}. add_mset x (mset (iblocks c x))) + mset free)
      = mset_set {..<FS_DISKSIZE}"
    using wf_usage [OF wf] sum_mset_split [OF wf_finite [OF wf] i, of "\<lambda>i. add_mset i (mset (iblocks c i))"]
    by (simp add: usage_def add.assoc)
  then show ?thesis by (rule mset_set_distinct)
qed

lemma wf_not_block: "fs_wf c free \<Longrightarrow> i \<in> inodes c \<Longrightarrow> j \<in> inodes c \<Longrightarrow> i \<notin> set (iblocks c j)"
  using wf_apart [of c free i j] wf_own [of c free j] by (cases "i = j") auto

lemma wf_length: "fs_wf c free \<Longrightarrow> b < FS_DISKSIZE \<Longrightarrow> length (c b) = FS_BLOCKSIZE"
  by (simp add: fs_wf_def)

lemma wf_isize: "fs_wf c free \<Longrightarrow> i \<in> inodes c \<Longrightarrow> isize (inode_at c i) \<le> FS_MAXFILEBLOCKS"
  by (simp add: fs_wf_def)

lemma wf_block_list:
  assumes "fs_wf c free" "i \<in> inodes c" shows "block_list (inode_at c i) = map Some (iblocks c i)"
  using wf_isize [OF assms] length_blocks [of c i, OF wf_length [OF assms(1) wf_inode_bound [OF assms]]]
  by (simp add: block_list_def iblocks_def)

lemma wf_length_iblocks:
  assumes "fs_wf c free" "i \<in> inodes c" shows "length (iblocks c i) = isize (inode_at c i)"
  using wf_isize [OF assms] length_blocks [of c i, OF wf_length [OF assms(1) wf_inode_bound [OF assms]]]
  by (simp add: iblocks_def)

lemma wf_root: "fs_wf c free \<Longrightarrow> kind c 0 = CHR ''d''"
  by (simp add: fs_wf_def)

lemma wf_kind: "fs_wf c free \<Longrightarrow> i \<in> inodes c \<Longrightarrow> kind c i \<in> {CHR ''f'', CHR ''d''}"
  by (simp add: fs_wf_def)

lemma wf_linked: "fs_wf c free \<Longrightarrow> linked c = mset_set (inodes c - {0})"
  by (simp add: fs_wf_def)

lemma fs_wfI:
  assumes "kind c 0 = CHR ''d''" "\<And>i. i \<in> inodes c \<Longrightarrow> kind c i \<in> {CHR ''f'', CHR ''d''}"
    and "\<And>i. i \<in> inodes c \<Longrightarrow> isize (inode_at c i) \<le> FS_MAXFILEBLOCKS"
    and "\<And>i. i \<in> inodes c \<Longrightarrow> distinct (map fst (links c i))" and "finite (inodes c)"
    and "usage c + mset free = mset_set {..<FS_DISKSIZE}" and "linked c = mset_set (inodes c - {0})"
    and "\<forall>b < FS_DISKSIZE. length (c b) = FS_BLOCKSIZE" "\<And>i. i \<in> inodes c \<Longrightarrow> packed c i"
  shows "fs_wf c free"
  unfolding fs_wf_def using assms by blast

lemma wf_names: "fs_wf c free \<Longrightarrow> i \<in> inodes c \<Longrightarrow> distinct (map fst (links c i))"
  by (simp add: fs_wf_def)

lemma wf_packed: "fs_wf c free \<Longrightarrow> i \<in> inodes c \<Longrightarrow> packed c i"
  by (simp add: fs_wf_def)

lemma wf_children_apart:
  assumes wf: "fs_wf c free" and i: "i \<in> inodes c" and j: "j \<in> inodes c" and ne: "i \<noteq> j"
  shows "snd ` set (links c i) \<inter> snd ` set (links c j) = {}"
proof -
  let ?f = "\<lambda>i. mset (map snd (links c i))"
  have "linked c = ?f i + ?f j + (\<Sum>x \<in> inodes c - {i} - {j}. ?f x)"
    unfolding linked_def by (rule sum_mset_split2 [OF wf_finite [OF wf] i j ne])
  then have "?f i + (?f j + (\<Sum>x \<in> inodes c - {i} - {j}. ?f x)) = mset_set (inodes c - {0})"
    using wf by (simp add: fs_wf_def add.assoc)
  note parts = mset_set_parts(1) [OF this]
  show ?thesis
  proof (intro equalityI subsetI)
    fix x assume "x \<in> snd ` set (links c i) \<inter> snd ` set (links c j)"
    with parts [of x] show "x \<in> {}" by simp
  qed simp
qed

lemma wf_children_distinct:
  assumes wf: "fs_wf c free" and i: "i \<in> inodes c" shows "distinct (map snd (links c i))"
proof -
  have "mset (map snd (links c i)) + (\<Sum>x \<in> inodes c - {i}. mset (map snd (links c x))) = mset_set (inodes c - {0})"
    using wf sum_mset_split [OF wf_finite [OF wf] i, of "\<lambda>i. mset (map snd (links c i))"]
    by (simp add: fs_wf_def linked_def)
  then show ?thesis by (rule mset_set_distinct)
qed

lemma wf_link: "fs_wf c free \<Longrightarrow> i \<in> inodes c \<Longrightarrow> map_of (links c i) n = Some j \<longleftrightarrow> (n, j) \<in> set (links c i)"
  by (simp add: wf_names)

lemma wf_links_dir: "(n, j) \<in> set (links c i) \<Longrightarrow> kind c i = CHR ''d''"
  by (auto simp: links_def split: if_splits)

text \<open>An inode is reached by one path only.\<close>

lemma path_unique:
  assumes wf: "fs_wf c free"
  shows "resolve c 0 p = Some i \<Longrightarrow> resolve c 0 q = Some i \<Longrightarrow> p = q"
proof (induction p arbitrary: q i rule: rev_induct)
  case Nil
  show ?case
  proof (cases q rule: rev_cases)
    case (snoc q' m)
    with Nil obtain k where "map_of (links c k) m = Some 0" by (auto simp: resolve_snoc split: option.splits)
    then show ?thesis using zero_not_linked [of m c k] by (auto dest: map_of_SomeD)
  qed simp
next
  case (snoc n p)
  then obtain k where k: "resolve c 0 p = Some k" "(n, i) \<in> set (links c k)"
    by (auto simp: resolve_snoc split: option.splits dest: map_of_SomeD)
  show ?case
  proof (cases q rule: rev_cases)
    case Nil
    with snoc.prems(2) k(2) zero_not_linked show ?thesis by auto
  next
    case (snoc q' m)
    with snoc.prems obtain l where l: "resolve c 0 q' = Some l" "(m, i) \<in> set (links c l)"
      by (auto simp: resolve_snoc split: option.splits dest: map_of_SomeD)
    have "k = l"
    proof (rule ccontr)
      assume "k \<noteq> l"
      then have "snd ` set (links c k) \<inter> snd ` set (links c l) = {}"
        by (rule wf_children_apart [OF wf resolve_in_inodes [OF k(1)] resolve_in_inodes [OF l(1)]])
      with k(2) l(2) show False by force
    qed
    moreover have "distinct (map snd (links c k))"
      by (rule wf_children_distinct [OF wf resolve_in_inodes [OF k(1)]])
    ultimately have "n = m" using k(2) l(2) by (auto simp: distinct_map dest!: inj_onD [of snd _ "(n, i)" "(m, i)"])
    with snoc.IH [OF k(1)] l(1) \<open>k = l\<close> snoc show ?thesis by simp
  qed
qed

section \<open>Adding and removing a name\<close>

text \<open>How paths resolve when the directory \<open>dir\<close>, at the path \<open>p\<close>, gets the new name \<open>n\<close>.\<close>

lemma resolve_added:
  assumes wf: "fs_wf c free" and dir: "resolve c 0 p = Some dir"
    and absent: "map_of (links c dir) n = None" and fresh: "new \<notin> inodes c"
    and ldir: "map_of (links c' dir) = (map_of (links c dir))(n \<mapsto> new)"
    and lnew: "links c' new = []"
    and other: "\<And>i. i \<in> inodes c \<Longrightarrow> i \<noteq> dir \<Longrightarrow> links c' i = links c i"
  shows "resolve c' 0 q = (if q = p @ [n] then Some new else resolve c 0 q)"
proof (induction q rule: rev_induct)
  case (snoc m q)
  show ?case
  proof (cases "q = p @ [n]")
    case True
    then have "resolve c' 0 q = Some new" "resolve c 0 q = None"
      using snoc dir absent by (simp_all add: resolve_snoc [of c])
    then have "resolve c' 0 (q @ [m]) = None" "resolve c 0 (q @ [m]) = None" using lnew by (simp_all add: resolve_snoc)
    with True show ?thesis by simp
  next
    case q: False
    show ?thesis
    proof (cases "resolve c 0 q")
      case None
      then have "resolve c' 0 q = None" using snoc q by simp
      then have r: "resolve c' 0 (q @ [m]) = None" "resolve c 0 (q @ [m]) = None" using None by (simp_all add: resolve_snoc)
      have "q \<noteq> p" using None dir by auto
      with r show ?thesis by simp
    next
      case (Some i)
      have e: "i = dir \<longleftrightarrow> q = p" using path_unique [OF wf Some, of p] dir Some by auto
      have r: "resolve c' 0 (q @ [m]) = map_of (links c' i) m" "resolve c 0 (q @ [m]) = map_of (links c i) m"
        using snoc Some q by (simp_all add: resolve_snoc)
      show ?thesis
      proof (cases "i = dir")
        case True
        with e r ldir show ?thesis by simp
      next
        case False
        with e r other [OF resolve_in_inodes [OF Some] False] show ?thesis by simp
      qed
    qed
  qed
qed simp

lemma inodes_added:
  assumes "\<And>q. resolve c' 0 q = (if q = p @ [n] then Some new else resolve c 0 q)"
    and "resolve c 0 (p @ [n]) = None"
  shows "inodes c' = insert new (inodes c)"
proof (intro equalityI subsetI)
  fix x assume "x \<in> inodes c'"
  then obtain q where "resolve c' 0 q = Some x" by (auto simp: inodes_def)
  then show "x \<in> insert new (inodes c)" using assms(1) [of q] by (auto simp: inodes_def split: if_splits)
next
  fix x assume "x \<in> insert new (inodes c)"
  moreover have "new \<in> inodes c'" using assms(1) [of "p @ [n]"] by (auto simp: inodes_def)
  moreover have "x \<in> inodes c'" if "resolve c 0 q = Some x" for q
    using assms(1) [of q] assms(2) that by (intro resolve_in_inodes [of c' q]) auto
  ultimately show "x \<in> inodes c'" by (auto simp: inodes_def)
qed

text \<open>When it loses the name \<open>n\<close> of \<open>old\<close>, a file or an empty directory.\<close>

lemma resolve_removed:
  assumes wf: "fs_wf c free" and dir: "resolve c 0 p = Some dir"
    and present: "map_of (links c dir) n = Some old" and leaf: "links c old = []"
    and ldir: "map_of (links c' dir) = (map_of (links c dir))(n := None)"
    and other: "\<And>i. i \<in> inodes c \<Longrightarrow> i \<noteq> dir \<Longrightarrow> i \<noteq> old \<Longrightarrow> links c' i = links c i"
  shows "resolve c' 0 q = (if q = p @ [n] then None else resolve c 0 q)"
proof (induction q rule: rev_induct)
  case (snoc m q)
  have old: "resolve c 0 (p @ [n]) = Some old" using dir present by (simp add: resolve_snoc)
  show ?case
  proof (cases "q = p @ [n]")
    case True
    then have "resolve c' 0 q = None" "resolve c 0 q = Some old" using snoc old by simp_all
    then have "resolve c' 0 (q @ [m]) = None" "resolve c 0 (q @ [m]) = None" using leaf by (simp_all add: resolve_snoc)
    with True show ?thesis by simp
  next
    case q: False
    show ?thesis
    proof (cases "resolve c 0 q")
      case None
      then have "resolve c' 0 q = None" using snoc q by simp
      then have r: "resolve c' 0 (q @ [m]) = None" "resolve c 0 (q @ [m]) = None" using None by (simp_all add: resolve_snoc)
      have "q \<noteq> p" using None dir by auto
      with r show ?thesis by simp
    next
      case (Some i)
      have e: "i = dir \<longleftrightarrow> q = p" using path_unique [OF wf Some, of p] dir Some by auto
      have n: "i \<noteq> old" using path_unique [OF wf Some, of "p @ [n]"] old q by auto
      have r: "resolve c' 0 (q @ [m]) = map_of (links c' i) m" "resolve c 0 (q @ [m]) = map_of (links c i) m"
        using snoc Some q by (simp_all add: resolve_snoc)
      show ?thesis
      proof (cases "i = dir")
        case True
        with e r ldir show ?thesis by simp
      next
        case False
        with e r other [OF resolve_in_inodes [OF Some] False n] show ?thesis by simp
      qed
    qed
  qed
qed simp

lemma inodes_removed:
  assumes wf: "fs_wf c free" and r: "\<And>q. resolve c' 0 q = (if q = p @ [n] then None else resolve c 0 q)"
    and old: "resolve c 0 (p @ [n]) = Some old"
  shows "inodes c' = inodes c - {old}"
proof (intro equalityI subsetI)
  fix x assume "x \<in> inodes c'"
  then obtain q where q: "resolve c' 0 q = Some x" by (auto simp: inodes_def)
  then have "resolve c 0 q = Some x" "q \<noteq> p @ [n]" using r [of q] by (auto split: if_splits)
  then show "x \<in> inodes c - {old}" using path_unique [OF wf _ old, of q] by (auto simp: inodes_def)
next
  fix x assume "x \<in> inodes c - {old}"
  then obtain q where q: "resolve c 0 q = Some x" "x \<noteq> old" by (auto simp: inodes_def)
  with old have "q \<noteq> p @ [n]" by auto
  with q show "x \<in> inodes c'" using r [of q] by (auto simp: inodes_def)
qed

text \<open>When all inodes keep their names.\<close>

lemma resolve_same:
  assumes "\<And>i. i \<in> inodes c \<Longrightarrow> links c' i = links c i"
  shows "resolve c' 0 q = resolve c 0 q"
proof (induction q rule: rev_induct)
  case (snoc m q)
  then show ?case using assms resolve_in_inodes [of c q] by (auto simp: resolve_snoc split: option.splits)
qed simp

lemma inodes_same: "(\<And>i. i \<in> inodes c \<Longrightarrow> links c' i = links c i) \<Longrightarrow> inodes c' = inodes c"
  using resolve_same [of c c'] by (auto simp: inodes_def)

end
