(* ===== verification/FS_Ops.thy ===== *)
theory FS_Ops imports FS_View begin

text \<open>
  What the operations of the file server do on a well-formed disk, given the documented behaviour of
  the disk: each runs to its end (no failed assertion, no access outside an array), and its effect is
  stated on the contents of the disk and the free blocks.
\<close>

section \<open>The disk\<close>

text \<open>
  fs_server.h: \<open>disk_readblock\<close> copies a block, \<open>disk_writeblock\<close> replaces one; they fail only for a
  block that does not exist.
\<close>

definition disk_laws :: "'d disk_io \<Rightarrow> ('d \<Rightarrow> bool) \<Rightarrow> bool" where
  "disk_laws io good \<longleftrightarrow>
     (\<forall>d b. good d \<longrightarrow> b < FS_DISKSIZE \<longrightarrow> (\<exists>x. readblock io d b = Some x \<and> length x = FS_BLOCKSIZE)) \<and>
     (\<forall>d b x. good d \<longrightarrow> b < FS_DISKSIZE \<longrightarrow> length x = FS_BLOCKSIZE \<longrightarrow>
        (\<exists>d'. writeblock io d b x = Some d' \<and> good d' \<and>
           (\<forall>b' < FS_DISKSIZE. readblock io d' b' = (if b' = b then Some x else readblock io d b'))))"

definition contents_of :: "'d disk_io \<Rightarrow> 'd \<Rightarrow> contents" where
  "contents_of io d b = (if b < FS_DISKSIZE then the (readblock io d b) else [])"

text \<open>The server's state, less the trace.\<close>

definition stands :: "'d disk_io \<Rightarrow> ('d \<Rightarrow> bool) \<Rightarrow> 'd server \<Rightarrow> contents \<Rightarrow> nat list \<Rightarrow> string list \<Rightarrow> bool" where
  "stands io good s c free rs \<longleftrightarrow> good (fs_disk s) \<and> contents_of io (fs_disk s) = c \<and>
     free_blocks s = free \<and> responses s = rs"

lemma stands_log [simp]: "stands io good (log_event e s) c free rs \<longleftrightarrow> stands io good s c free rs"
  by (simp add: stands_def log_event_def)

lemma stands_free: "stands io good s c free rs \<Longrightarrow> free_blocks s = free"
  by (simp add: stands_def)

lemma read_stands:
  assumes "disk_laws io good" "stands io good s c free rs" "b < FS_DISKSIZE"
  shows "read_block io b s = Some (c b, log_event (Read b) s)"
proof -
  obtain x where "readblock io (fs_disk s) b = Some x"
    using assms by (force simp: disk_laws_def stands_def)
  then show ?thesis using assms by (auto simp: read_block_def stands_def contents_of_def)
qed

lemma write_stands:
  assumes "disk_laws io good" "stands io good s c free rs" "b < FS_DISKSIZE" "length x = FS_BLOCKSIZE"
  shows "\<exists>s'. write_block io b x s = Some s' \<and> stands io good s' (c(b := x)) free rs"
proof -
  obtain d where d: "writeblock io (fs_disk s) b x = Some d" "good d"
    "\<forall>b' < FS_DISKSIZE. readblock io d b' = (if b' = b then Some x else readblock io (fs_disk s) b')"
    using assms by (force simp: disk_laws_def stands_def)
  have "contents_of io d = (contents_of io (fs_disk s))(b := x)"
    using d(3) assms(3) by (auto simp: contents_of_def)
  then show ?thesis using assms(2) d by (simp add: write_block_def stands_def log_event_def)
qed

lemma lock_stands: "b < FS_DISKSIZE \<Longrightarrow> on_lock e b s = Some (log_event (e b) s)"
  by (simp add: on_lock_def)

lemma free_stands [simp]:
  "stands io good (lock_free s) c free rs \<longleftrightarrow> stands io good s c free rs"
  "stands io good (unlock_free s) c free rs \<longleftrightarrow> stands io good s c free rs"
  by (simp_all add: lock_free_def unlock_free_def)

lemma pop_stands: "stands io good s c free rs \<Longrightarrow> stands io good (pop_free s) c (tl free) rs"
  by (simp add: stands_def pop_free_def log_event_def)

lemma push_stands: "stands io good s c free rs \<Longrightarrow> stands io good (push_free b s) c (qpush b free) rs"
  by (simp add: stands_def push_free_def log_event_def)

lemma return_stands: "stands io good s c free rs \<Longrightarrow> stands io good (return_empty_block b s) c (qpush b free) rs"
  by (simp add: return_empty_block_def push_stands)

lemma reply_stands: "stands io good s c free rs \<Longrightarrow> stands io good (reply m s) c free (rs @ [m])"
  by (simp add: stands_def reply_def)

lemma entries_at_sized [simp]: "length (c b) = FS_BLOCKSIZE \<Longrightarrow> entries_sized (entries_at c b)"
  by (simp add: entries_at_def)

section \<open>Looking for a name\<close>

lemma scan_lookup:
  "scan_entries name i b es j l r None = (found, r', out') \<Longrightarrow> out' = None \<and>
   parent_inode_block r' = parent_inode_block r \<and>
   (if found then valid r' \<and> (name, t_inode_block r') \<in> set (links_of l)
    else r' = r \<and> name \<notin> fst ` set (links_of l))"
proof (induction l arbitrary: j)
  case (Cons e l)
  show ?case
  proof (cases "inode_block e \<noteq> 0 \<and> c_string (dname e) = name")
    case True
    then show ?thesis using Cons.prems by (auto simp: live_def link_def)
  next
    case False
    then have "scan_entries name i b es (Suc j) l r None = (found, r', out')" using Cons.prems by auto
    from Cons.IH [OF this] False show ?thesis by (auto simp: live_def link_def)
  qed
qed simp

lemma check_blocks_lookup:
  assumes laws: "disk_laws io good"
  shows "stands io good s c free rs \<Longrightarrow> \<forall>b \<in> set bs. b < FS_DISKSIZE \<Longrightarrow> \<not> valid r \<Longrightarrow>
    \<exists>r' s'. check_blocks io name i (map Some bs) r None s = Some (r', None, s') \<and> stands io good s' c free rs \<and>
      parent_inode_block r' = parent_inode_block r \<and>
      (if valid r' then (name, t_inode_block r') \<in> set (links_of (concat (map (entries_at c) bs)))
       else name \<notin> fst ` set (links_of (concat (map (entries_at c) bs))))"
proof (induction bs arbitrary: i r s)
  case (Cons b bs)
  obtain found r1 out1 where sc:
    "scan_entries name i b (entries_at c b) 0 (entries_at c b) r None = (found, r1, out1)"
    by (cases "scan_entries name i b (entries_at c b) 0 (entries_at c b) r None") auto
  note sl = scan_lookup [OF sc]
  have rd: "read_block io b s = Some (c b, log_event (Read b) s)"
    using Cons.prems(2) by (intro read_stands [OF laws Cons.prems(1)]) simp
  show ?case
  proof (cases found)
    case True
    then show ?thesis using rd sc sl Cons.prems by (auto simp: entries_at_def [symmetric])
  next
    case False
    then have "\<exists>r' s'. check_blocks io name (Suc i) (map Some bs) r None (log_event (Read b) s) = Some (r', None, s') \<and>
      stands io good s' c free rs \<and> parent_inode_block r' = parent_inode_block r \<and>
      (if valid r' then (name, t_inode_block r') \<in> set (links_of (concat (map (entries_at c) bs)))
       else name \<notin> fst ` set (links_of (concat (map (entries_at c) bs))))"
      using Cons.prems by (intro Cons.IH) auto
    then show ?thesis using rd sc sl False by (auto simp: entries_at_def [symmetric] image_Un split: if_splits)
  qed
qed simp

lemma check_existance_lookup:
  assumes laws: "disk_laws io good" and wf: "fs_wf c free'" and i: "i \<in> inodes c" "kind c i = CHR ''d''"
    and st: "stands io good s c free rs"
  shows "\<exists>r' s'. check_existance io r (inode_at c i) name None s = Some (r', None, s') \<and>
    stands io good s' c free rs \<and> parent_inode_block r' = parent_inode_block r \<and>
    map_of (links c i) name = (if valid r' then Some (t_inode_block r') else None)"
proof -
  have "\<forall>b \<in> set (iblocks c i). b < FS_DISKSIZE" using wf_block_bound [OF wf i(1)] by blast
  from check_blocks_lookup [OF laws st this, of "r\<lparr>valid := False\<rparr>" name 0] obtain r' s' where
    "check_blocks io name 0 (map Some (iblocks c i)) (r\<lparr>valid := False\<rparr>) None s = Some (r', None, s')"
    "stands io good s' c free rs" "parent_inode_block r' = parent_inode_block r"
    and v: "if valid r' then (name, t_inode_block r') \<in> set (links c i) else name \<notin> fst ` set (links c i)"
    using i(2) by (auto simp: links_def)
  moreover have "map_of (links c i) name = (if valid r' then Some (t_inode_block r') else None)"
    using v wf_link [OF wf i(1)] by (auto simp: map_of_eq_None_iff)
  ultimately show ?thesis by (auto simp: check_existance_def wf_block_list [OF wf i(1)])
qed

section \<open>The way to a directory or file\<close>

text \<open>
  The inode at a path, when every directory on the way, the root and the last one apart, is the user's.
\<close>

fun walk :: "contents \<Rightarrow> string \<Rightarrow> nat \<Rightarrow> string list \<Rightarrow> nat option" where
  "walk c user i [] = Some i"
| "walk c user i (n # ns) = (case map_of (links c i) n of None \<Rightarrow> None
     | Some j \<Rightarrow> if ns = [] then Some j
         else if owner_of c j = user \<and> kind c j = CHR ''d'' then walk c user j ns else None)"

lemma traverse_loop_walk:
  assumes laws: "disk_laws io good" and wf: "fs_wf c free'"
  shows "stands io good s c free rs \<Longrightarrow> i \<in> inodes c \<Longrightarrow> kind c i = CHR ''d'' \<Longrightarrow> names \<noteq> [] \<Longrightarrow>
    parent_inode_block r = i \<Longrightarrow>
    \<exists>t s'. traverse_loop io user names r (inode_at c i) i s = Some (t, s') \<and> stands io good s' c free rs \<and>
      parent_inode_block t < FS_DISKSIZE \<and>
      walk c user i names = (if valid t then Some (t_inode_block t) else None)"
proof (induction names arbitrary: r i s)
  case (Cons name names)
  from check_existance_lookup [OF laws wf Cons.prems(2,3,1), of r name] obtain r1 s1 where
    ce: "check_existance io r (inode_at c i) name None s = Some (r1, None, s1)" "stands io good s1 c free rs"
      "parent_inode_block r1 = i" "map_of (links c i) name = (if valid r1 then Some (t_inode_block r1) else None)"
    using Cons.prems(5) by auto
  have ib: "i < FS_DISKSIZE" by (rule wf_inode_bound [OF wf Cons.prems(2)])
  show ?case
  proof (cases "\<not> valid r1 \<or> names = []")
    case True
    with ce ib show ?thesis by auto
  next
    case False
    let ?j = "t_inode_block r1"
    let ?r = "r1\<lparr>parent_inode_block := ?j\<rparr>"
    let ?s = "log_event (Unlock_shared i) (log_event (Lock_shared ?j) s1)"
    let ?t = "log_event (Read ?j) ?s"
    have j: "?j \<in> inodes c" using linked_in_inodes [OF Cons.prems(2)] ce(4) False by auto
    then have jb: "?j < FS_DISKSIZE" by (rule wf_inode_bound [OF wf])
    have rd: "read_block io ?j ?s = Some (c ?j, ?t)" using ce(2) jb by (intro read_stands [OF laws]) auto
    have step: "traverse_loop io user (name # names) r (inode_at c i) i s =
      (if owner_of c ?j \<noteq> user \<or> kind c ?j \<noteq> CHR ''d'' then Some (?r\<lparr>valid := False\<rparr>, ?t)
       else traverse_loop io user names ?r (inode_at c ?j) ?j ?t)"
      using ce(1) False rd
      by (simp add: Let_def owner_of_def kind_def inode_at_def lock_stands [OF jb] lock_stands [OF ib])
    show ?thesis
    proof (cases "owner_of c ?j \<noteq> user \<or> kind c ?j \<noteq> CHR ''d''")
      case True
      with step ce False jb show ?thesis by auto
    next
      case ok: False
      have "\<exists>t s'. traverse_loop io user names ?r (inode_at c ?j) ?j ?t = Some (t, s') \<and> stands io good s' c free rs \<and>
        parent_inode_block t < FS_DISKSIZE \<and> walk c user ?j names = (if valid t then Some (t_inode_block t) else None)"
        using ok ce(2) False by (intro Cons.IH [OF _ j]) auto
      with step ok ce(4) False show ?thesis by auto
    qed
  qed
qed simp

lemma traverse_dir_walk:
  assumes laws: "disk_laws io good" and wf: "fs_wf c free'" and st: "stands io good s c free rs"
  shows "\<exists>t s'. traverse_dir io user names s = Some (t, s') \<and> stands io good s' c free rs \<and>
    parent_inode_block t < FS_DISKSIZE \<and> walk c user 0 names = (if valid t then Some (t_inode_block t) else None)"
proof (cases "names = []")
  case True
  with st show ?thesis by (auto simp: traverse_dir_def default_target_def)
next
  case False
  let ?s = "log_event (Read 0) (log_event (Lock_shared 0) s)"
  have "kind c 0 = CHR ''d''" using wf by (simp add: fs_wf_def)
  then obtain t s' where "traverse_loop io user names (default_target\<lparr>valid := True\<rparr>) (inode_at c 0) 0 ?s = Some (t, s')"
    "stands io good s' c free rs" "parent_inode_block t < FS_DISKSIZE"
    "walk c user 0 names = (if valid t then Some (t_inode_block t) else None)"
    using traverse_loop_walk [OF laws wf _ root_in_inodes _ False, of ?s free rs "default_target\<lparr>valid := True\<rparr>" user] st
    by (auto simp: default_target_def)
  moreover have "read_block io 0 (log_event (Lock_shared 0) s) = Some (c 0, ?s)"
    using st by (intro read_stands [OF laws]) auto
  ultimately show ?thesis using False
    by (simp add: traverse_dir_def Let_def lock_stands inode_at_def)
qed

lemma walk_resolve: "walk c user i names = Some j \<Longrightarrow> resolve c i names = Some j"
  by (induction names arbitrary: i) (auto split: option.splits if_splits)

lemma walk_inode: "walk c user 0 names = Some j \<Longrightarrow> j \<in> inodes c"
  by (rule resolve_in_inodes [OF walk_resolve])

lemma move_lock_stands:
  assumes "stands io good s c free rs" "t_inode_block t < FS_DISKSIZE" "parent_inode_block t < FS_DISKSIZE"
  shows "\<exists>s'. move_lock e t s = Some s' \<and> stands io good s' c free rs"
  using assms by (auto simp: move_lock_def lock_stands)

section \<open>Looking for a name and for room\<close>

lemma scan_room:
  "scan_entries name i b es j l r (Some o1) = (found, r', out') \<Longrightarrow> l = drop j es \<Longrightarrow>
   (if found then \<exists>k < length es. live (es ! k) \<and> link (es ! k) = (name, t_inode_block r') \<and> valid r' \<and>
        first_empty_block r' = i \<and> first_empty_entry_index r' = k \<and> out' = Some es
    else name \<notin> fst ` set (links_of l) \<and> valid r' = valid r \<and>
      ((first_empty_block r' = first_empty_block r \<and> first_empty_entry_index r' = first_empty_entry_index r \<and> out' = Some o1)
       \<or> (\<exists>k < length es. \<not> live (es ! k) \<and> first_empty_block r' = b \<and> first_empty_entry_index r' = k \<and> out' = Some es)))"
proof (induction l arbitrary: j r o1)
  case (Cons e l)
  have j: "j < length es" "es ! j = e" "l = drop (Suc j) es"
    using Cons.prems(2) by (metis drop_eq_Nil linorder_not_le list.distinct(1), metis nth_via_drop,
        metis drop_Suc list.sel(3) tl_drop)
  show ?case
  proof (cases "inode_block e \<noteq> 0 \<and> c_string (dname e) = name")
    case True
    then show ?thesis using Cons.prems(1) j by (auto simp: live_def link_def intro!: exI [of _ j])
  next
    case nm: False
    show ?thesis
    proof (cases "inode_block e = 0 \<and> first_empty_block r = FS_MAXFILEBLOCKS + 1")
      case True
      then have "scan_entries name i b es (Suc j) l (r\<lparr>first_empty_block := b, first_empty_entry_index := j\<rparr>) (Some es)
          = (found, r', out')" using Cons.prems(1) nm by auto
      from Cons.IH [OF this j(3)] True j show ?thesis by (auto simp: live_def split: if_splits)
    next
      case False
      then have "scan_entries name i b es (Suc j) l r (Some o1) = (found, r', out')" using Cons.prems(1) nm by auto
      from Cons.IH [OF this j(3)] nm show ?thesis by (auto simp: live_def link_def split: if_splits)
    qed
  qed
qed simp

text \<open>While the name has not been found: what the result and the copy of the entries say.\<close>

definition room :: "contents \<Rightarrow> nat list \<Rightarrow> target_inode \<Rightarrow> fs_direntry list \<Rightarrow> bool" where
  "room c bs r es \<longleftrightarrow> \<not> valid r \<and> entries_sized es \<and> first_empty_entry_index r < FS_DIRENTRIES \<and>
     (first_empty_block r \<noteq> FS_MAXFILEBLOCKS + 1 \<longrightarrow> first_empty_block r \<in> set bs \<and>
        es = entries_at c (first_empty_block r) \<and> \<not> live (es ! first_empty_entry_index r))"

definition hit :: "contents \<Rightarrow> nat list \<Rightarrow> string \<Rightarrow> target_inode \<Rightarrow> fs_direntry list \<Rightarrow> bool" where
  "hit c bs name r es \<longleftrightarrow> valid r \<and> first_empty_block r < length bs \<and> es = entries_at c (bs ! first_empty_block r) \<and>
     first_empty_entry_index r < FS_DIRENTRIES \<and> live (es ! first_empty_entry_index r) \<and>
     link (es ! first_empty_entry_index r) = (name, t_inode_block r)"

lemma check_blocks_room:
  assumes laws: "disk_laws io good" and len: "\<forall>b < FS_DISKSIZE. length (c b) = FS_BLOCKSIZE"
  shows "stands io good s c free rs \<Longrightarrow> \<forall>b \<in> set bs. b < FS_DISKSIZE \<Longrightarrow> room c (pre @ bs) r es \<Longrightarrow>
    \<exists>r' es' s'. check_blocks io name (length pre) (map Some bs) r (Some es) s = Some (r', Some es', s') \<and>
      stands io good s' c free rs \<and>
      (hit c (pre @ bs) name r' es' \<or>
       room c (pre @ bs) r' es' \<and> name \<notin> fst ` set (links_of (concat (map (entries_at c) bs))))"
proof (induction bs arbitrary: pre r es s)
  case (Cons b bs)
  let ?es = "entries_at c b"
  obtain found r1 out1 where sc: "scan_entries name (length pre) b ?es 0 ?es r (Some es) = (found, r1, out1)"
    by (cases "scan_entries name (length pre) b ?es 0 ?es r (Some es)") auto
  note sr = scan_room [OF sc]
  have sz: "entries_sized ?es" using len Cons.prems(2) by simp
  then have l8: "length ?es = 8" by (simp add: entries_sized_def)
  have rd: "read_block io b s = Some (c b, log_event (Read b) s)"
    using Cons.prems(2) by (intro read_stands [OF laws Cons.prems(1)]) simp
  show ?case
  proof (cases found)
    case True
    then have "hit c (pre @ b # bs) name r1 ?es" using sr l8 by (auto simp: hit_def)
    moreover have "out1 = Some ?es" using sr True by auto
    ultimately show ?thesis using rd sc True Cons.prems(1) by (auto simp: entries_at_def [symmetric])
  next
    case False
    then have nm: "name \<notin> fst ` set (links_of ?es)" using sr by auto
    have "\<exists>es1. out1 = Some es1 \<and> room c ((pre @ [b]) @ bs) r1 es1"
      using sr False Cons.prems(3) sz l8 by (auto simp: room_def)
    then obtain es1 where es1: "out1 = Some es1" "room c ((pre @ [b]) @ bs) r1 es1" by blast
    have "\<exists>r' es' s'. check_blocks io name (length (pre @ [b])) (map Some bs) r1 (Some es1) (log_event (Read b) s)
        = Some (r', Some es', s') \<and> stands io good s' c free rs \<and>
      (hit c ((pre @ [b]) @ bs) name r' es' \<or>
       room c ((pre @ [b]) @ bs) r' es' \<and> name \<notin> fst ` set (links_of (concat (map (entries_at c) bs))))"
      using Cons.prems es1 by (intro Cons.IH) auto
    then show ?thesis using rd sc False es1(1) nm by (auto simp: entries_at_def [symmetric] image_Un)
  qed
qed auto

lemma check_existance_room:
  assumes laws: "disk_laws io good" and wf: "fs_wf c free'" and i: "i \<in> inodes c" "kind c i = CHR ''d''"
    and st: "stands io good s c free rs" and es: "entries_sized es"
  shows "\<exists>r' es' s'. check_existance io default_target (inode_at c i) name (Some es) s = Some (r', Some es', s') \<and>
    stands io good s' c free rs \<and>
    (hit c (iblocks c i) name r' es' \<and> map_of (links c i) name = Some (t_inode_block r') \<or>
     room c (iblocks c i) r' es' \<and> map_of (links c i) name = None)"
proof -
  have b: "\<forall>b \<in> set (iblocks c i). b < FS_DISKSIZE" using wf_block_bound [OF wf i(1)] by blast
  have len: "\<forall>b < FS_DISKSIZE. length (c b) = FS_BLOCKSIZE" using wf by (simp add: fs_wf_def)
  have "room c ([] @ iblocks c i) (default_target\<lparr>valid := False\<rparr>) es" using es by (simp add: room_def default_target_def)
  from check_blocks_room [OF laws len st b this, of name] obtain r' es' s' where
    ch: "check_blocks io name 0 (map Some (iblocks c i)) (default_target\<lparr>valid := False\<rparr>) (Some es) s = Some (r', Some es', s')"
    "stands io good s' c free rs" and
    d: "hit c (iblocks c i) name r' es' \<or> room c (iblocks c i) r' es' \<and> name \<notin> fst ` set (links c i)"
    using i(2) by (auto simp: links_def)
  have "map_of (links c i) name = Some (t_inode_block r')" if h: "hit c (iblocks c i) name r' es'"
  proof -
    let ?b = "iblocks c i ! first_empty_block r'"
    have mem: "?b \<in> set (iblocks c i)" using h by (simp add: hit_def)
    then have "length (entries_at c ?b) = 8" using len b entries_at_sized [of c ?b] by (auto simp: entries_sized_def)
    then have "es' ! first_empty_entry_index r' \<in> set (entries_at c ?b)" using h by (simp add: hit_def)
    then have "(name, t_inode_block r') \<in> set (links c i)"
      using h mem i(2) by (auto simp: hit_def links_def links_of_def intro!: rev_image_eqI)
    then show ?thesis using wf_link [OF wf i(1)] by simp
  qed
  then show ?thesis using ch d
    by (auto simp: check_existance_def wf_block_list [OF wf i(1)] map_of_eq_None_iff)
qed

end
