(* ===== verification/FS_Change.thy ===== *)
theory FS_Change imports FS_Ops begin

text \<open>
  The changes the operations make to a well-formed disk: a file's block replaced, a file one block
  longer, a name added to a directory, a name removed. Each keeps the disk well formed and changes
  the users' view at one path.
\<close>

section \<open>What a change leaves alone\<close>

definition same_inode :: "contents \<Rightarrow> contents \<Rightarrow> nat \<Rightarrow> bool" where
  "same_inode c c' i \<longleftrightarrow> c' i = c i \<and> (\<forall>b \<in> set (iblocks c i). c' b = c b)"

lemma same_inode_facts:
  assumes "same_inode c c' i"
  shows "inode_at c' i = inode_at c i" "kind c' i = kind c i" "iblocks c' i = iblocks c i"
    "links c' i = links c i" "node_of c' i = node_of c i" "owner_of c' i = owner_of c i"
    "packed c' i = packed c i"
proof -
  show i: "inode_at c' i = inode_at c i" using assms by (simp add: same_inode_def inode_at_def)
  then show k: "kind c' i = kind c i" and b: "iblocks c' i = iblocks c i" and o: "owner_of c' i = owner_of c i"
    by (simp_all add: kind_def iblocks_def owner_of_def)
  have e: "map (entries_at c') (iblocks c i) = map (entries_at c) (iblocks c i)"
    using assms by (simp add: same_inode_def entries_at_def)
  have d: "map c' (iblocks c i) = map c (iblocks c i)" using assms by (simp add: same_inode_def)
  show "links c' i = links c i" by (simp add: links_def k b e)
  show "node_of c' i = node_of c i" by (simp add: node_of_def k b o d)
  show "packed c' i = packed c i" using assms by (simp add: packed_def k b same_inode_def entries_at_def)
qed

lemma same_by_apart:
  assumes wf: "fs_wf c free" and i: "i \<in> inodes c" and j: "j \<in> inodes c" and "i \<noteq> j"
    and "\<And>b. b \<notin> set (i # iblocks c i) \<Longrightarrow> b \<notin> set free \<Longrightarrow> c' b = c b"
  shows "same_inode c c' j"
proof -
  have "set (i # iblocks c i) \<inter> set (j # iblocks c j) = {}" by (rule wf_apart [OF wf i j \<open>i \<noteq> j\<close>])
  moreover have "set (j # iblocks c j) \<inter> set free = {}"
    using wf_not_free [OF wf in_usage [OF wf j]] by auto
  ultimately have "c' b = c b" if "b \<in> set (j # iblocks c j)" for b using that by (intro assms(5)) blast+
  then show ?thesis by (simp add: same_inode_def)
qed

text \<open>Paths that go on leading where they led.\<close>

definition paths_kept :: "string list \<Rightarrow> contents \<Rightarrow> contents \<Rightarrow> bool" where
  "paths_kept p c c' \<longleftrightarrow> (\<forall>q. q \<noteq> p \<longrightarrow> resolve c' 0 q = resolve c 0 q)"

definition all_paths_kept :: "contents \<Rightarrow> contents \<Rightarrow> bool" where
  "all_paths_kept c c' \<longleftrightarrow> (\<forall>q. resolve c' 0 q = resolve c 0 q)"

lemma all_paths_kept_refl [simp]: "all_paths_kept c c"
  by (simp add: all_paths_kept_def)

section \<open>Maps from lists without repeated names\<close>

lemma distinct_by_mset: "mset xs = mset ys \<Longrightarrow> distinct ys \<Longrightarrow> distinct xs"
  using mset_eq_imp_distinct_iff by blast

lemma map_of_same_set:
  assumes "distinct (map fst xs)" "distinct (map fst ys)" "set xs = set ys"
  shows "map_of xs = map_of ys"
proof
  fix k
  show "map_of xs k = map_of ys k"
  proof (cases "map_of xs k")
    case None
    with assms(3) show ?thesis by (metis map_of_eq_None_iff)
  next
    case (Some v)
    then have "(k, v) \<in> set ys" using assms(3) map_of_SomeD by metis
    with Some assms(2) show ?thesis by simp
  qed
qed

lemma map_of_added:
  assumes d: "distinct (map fst xs)" and m: "mset ys = add_mset (n, v) (mset xs)" and n: "map_of xs n = None"
  shows "distinct (map fst ys)" "map_of ys = (map_of xs)(n \<mapsto> v)"
proof -
  have "mset (map fst ys) = mset (map fst ((n, v) # xs))" using m by simp
  moreover have d2: "distinct (map fst ((n, v) # xs))" using d n by (simp add: map_of_eq_None_iff)
  ultimately show d1: "distinct (map fst ys)" by (rule distinct_by_mset)
  have "set ys = set ((n, v) # xs)" using arg_cong [OF m, of set_mset] by simp
  from map_of_same_set [OF d1 d2 this] show "map_of ys = (map_of xs)(n \<mapsto> v)" by simp
qed

lemma map_of_removed:
  assumes d: "distinct (map fst xs)" and m: "mset xs = add_mset (n, v) (mset ys)"
  shows "distinct (map fst ys)" "map_of ys = (map_of xs)(n := None)"
proof -
  have "mset (map fst ((n, v) # ys)) = mset (map fst xs)" using m by simp
  then have d2: "distinct (map fst ((n, v) # ys))" using d by (rule distinct_by_mset)
  then show d1: "distinct (map fst ys)" by simp
  have none: "map_of ys n = None" using d2 by (auto simp: map_of_eq_None_iff)
  have "map_of xs = (map_of ys)(n \<mapsto> v)" by (rule map_of_added(2) [OF d1 m none])
  then show "map_of ys = (map_of xs)(n := None)" using none by (simp add: fun_upd_idem)
qed

section \<open>A name is added\<close>

lemma wf_added:
  assumes wf: "fs_wf c free" and p: "resolve c 0 p = Some dir" and absent: "map_of (links c dir) n = None"
    and ld: "mset (links c' dir) = add_mset (n, new) (mset (links c dir))"
    and new: "links c' new = []" "iblocks c' new = []" "kind c' new \<in> {CHR ''f'', CHR ''d''}" "isize (inode_at c' new) = 0"
    and others: "\<And>i. i \<in> inodes c \<Longrightarrow> i \<noteq> dir \<Longrightarrow> same_inode c c' i"
    and k0: "kind c dir = CHR ''d''"
    and kd: "kind c' dir = CHR ''d''" "owner_of c' dir = owner_of c dir" "isize (inode_at c' dir) \<le> FS_MAXFILEBLOCKS"
    and bd: "mset (iblocks c' dir) = mset (iblocks c dir) + extra"
    and fr: "mset free = add_mset new (extra + mset free')"
    and len: "\<forall>b < FS_DISKSIZE. length (c' b) = FS_BLOCKSIZE" and pk: "packed c' dir"
  shows "fs_wf c' free'" "view c' = (view c)(p @ [n] \<mapsto> node_of c' new)"
    "resolve c 0 (p @ [n]) = None" "paths_kept (p @ [n]) c c'"
proof -
  have dir: "dir \<in> inodes c" by (rule resolve_in_inodes [OF p])
  have "new \<in> set free" using arg_cong [OF fr, of set_mset] by simp
  then have fresh: "new \<notin> inodes c" using wf_not_free [OF wf in_usage [OF wf]] by blast
  note mo = map_of_added [OF wf_names [OF wf dir] ld absent]
  have oth: "links c' i = links c i" if "i \<in> inodes c" "i \<noteq> dir" for i
    by (rule same_inode_facts(4) [OF others [OF that]])
  have res: "resolve c' 0 q = (if q = p @ [n] then Some new else resolve c 0 q)" for q
    by (rule resolve_added [OF wf p absent fresh mo(2) new(1) oth])
  show none: "resolve c 0 (p @ [n]) = None" using p absent by (simp add: resolve_snoc)
  show "paths_kept (p @ [n]) c c'" using res by (simp add: paths_kept_def)
  have ino: "inodes c' = insert new (inodes c)" by (rule inodes_added [OF res none])
  let ?J = "inodes c - {dir}"
  have fin: "finite (inodes c)" by (rule wf_finite [OF wf])
  have I: "inodes c = insert dir ?J" using dir by auto
  have sumJ: "(\<Sum>i \<in> ?J. add_mset i (mset (iblocks c' i))) = (\<Sum>i \<in> ?J. add_mset i (mset (iblocks c i)))"
    by (intro sum.cong) (auto simp: same_inode_facts(3) [OF others])
  have "usage c' + mset free' = usage c + mset free"
  proof -
    have "usage c' = {#new#} + (add_mset dir (mset (iblocks c' dir)) + (\<Sum>i \<in> ?J. add_mset i (mset (iblocks c' i))))"
      unfolding usage_def ino using fin fresh new(2) dir by (simp add: sum.remove [OF fin dir])
    moreover have "usage c = add_mset dir (mset (iblocks c dir)) + (\<Sum>i \<in> ?J. add_mset i (mset (iblocks c i)))"
      unfolding usage_def by (rule sum.remove [OF fin dir])
    ultimately show ?thesis using sumJ bd fr by (simp add: ac_simps)
  qed
  moreover have "linked c' = mset_set (inodes c' - {0})"
  proof -
    have lJ: "(\<Sum>i \<in> ?J. mset (map snd (links c' i))) = (\<Sum>i \<in> ?J. mset (map snd (links c i)))"
      by (intro sum.cong) (auto simp: oth)
    have "mset (map snd (links c' dir)) = add_mset new (mset (map snd (links c dir)))"
      using arg_cong [OF ld, of "image_mset snd"] by simp
    then have "linked c' = add_mset new (linked c)"
      unfolding linked_def ino using fin fresh new(1) dir lJ by (simp add: sum.remove [OF fin dir])
    also have "linked c = mset_set (inodes c - {0})" by (rule wf_linked [OF wf])
    also have "add_mset new (mset_set (inodes c - {0})) = mset_set (insert new (inodes c - {0}))"
      using fin fresh by simp
    also have "insert new (inodes c - {0}) = inodes c' - {0}"
      using fresh root_in_inodes [of c] by (auto simp: ino)
    finally show ?thesis .
  qed
  moreover have "kind c' i \<in> {CHR ''f'', CHR ''d''}" "isize (inode_at c' i) \<le> FS_MAXFILEBLOCKS"
    "distinct (map fst (links c' i))" "packed c' i" if i: "i \<in> inodes c'" for i
  proof -
    consider "i = new" | "i = dir" | "i \<in> inodes c" "i \<noteq> dir" using i ino by auto
    note cs = this
    have o: "kind c' i = kind c i" "inode_at c' i = inode_at c i" "links c' i = links c i"
      if "i \<in> inodes c" "i \<noteq> dir" using same_inode_facts [OF others [OF that]] by blast+
    from cs show "kind c' i \<in> {CHR ''f'', CHR ''d''}"
      by cases (use new(3) kd(1) o(1) wf_kind [OF wf] in auto)
    from cs show "isize (inode_at c' i) \<le> FS_MAXFILEBLOCKS"
      by cases (use new(4) kd(3) o(2) wf_isize [OF wf] in auto)
    from cs show "distinct (map fst (links c' i))"
      by cases (use new(1) mo(1) o(3) wf_names [OF wf] in auto)
    from cs show "packed c' i"
      by cases (use new(2) pk same_inode_facts(7) [OF others] wf_packed [OF wf] in \<open>auto simp: packed_def\<close>)
  qed
  moreover have "kind c' 0 = CHR ''d''"
  proof (cases "dir = 0")
    case True
    with kd(1) show ?thesis by simp
  next
    case False
    then have "same_inode c c' 0" by (intro others) auto
    from same_inode_facts(2) [OF this] show ?thesis using wf_root [OF wf] by simp
  qed
  moreover have "usage c' + mset free' = mset_set {..<FS_DISKSIZE}"
    using \<open>usage c' + mset free' = usage c + mset free\<close> wf_usage [OF wf] by (simp only:)
  moreover have "finite (inodes c')" using fin by (simp add: ino)
  ultimately show "fs_wf c' free'" using len by (intro fs_wfI) blast+
  have nodes: "node_of c' i = node_of c i" if "i \<in> inodes c" for i
  proof (cases "i = dir")
    case True
    with k0 kd show ?thesis by (simp add: node_of_def)
  next
    case False
    then show ?thesis by (rule same_inode_facts(5) [OF others [OF that]])
  qed
  show "view c' = (view c)(p @ [n] \<mapsto> node_of c' new)"
  proof (rule ext)
    fix q show "view c' q = ((view c)(p @ [n] \<mapsto> node_of c' new)) q"
      using res [of q] nodes resolve_in_inodes [of c q] by (cases "resolve c 0 q") (auto simp: view_def)
  qed
qed

section \<open>A name is removed\<close>

lemma wf_removed:
  assumes wf: "fs_wf c free" and p: "resolve c 0 p = Some dir" and present: "map_of (links c dir) n = Some old"
    and leaf: "links c old = []"
    and ld: "mset (links c dir) = add_mset (n, old) (mset (links c' dir))"
    and others: "\<And>i. i \<in> inodes c \<Longrightarrow> i \<noteq> dir \<Longrightarrow> i \<noteq> old \<Longrightarrow> same_inode c c' i"
    and kd: "kind c' dir = CHR ''d''" "owner_of c' dir = owner_of c dir" "isize (inode_at c' dir) \<le> FS_MAXFILEBLOCKS"
    and bd: "mset (iblocks c dir) = mset (iblocks c' dir) + extra"
    and fr: "mset free' = mset free + extra + add_mset old (mset (iblocks c old))"
    and len: "\<forall>b < FS_DISKSIZE. length (c' b) = FS_BLOCKSIZE" and pk: "packed c' dir"
  shows "fs_wf c' free'" "view c' = (view c)(p @ [n] := None)" "paths_kept (p @ [n]) c c'"
proof -
  have dir: "dir \<in> inodes c" by (rule resolve_in_inodes [OF p])
  have k0: "kind c dir = CHR ''d''" using present by (intro wf_links_dir [of n old]) (rule map_of_SomeD)
  have ro: "resolve c 0 (p @ [n]) = Some old" using p present by (simp add: resolve_snoc)
  have old: "old \<in> inodes c" by (rule resolve_in_inodes [OF ro])
  have ne: "old \<noteq> dir" using path_unique [OF wf ro, of p] p by auto
  have n0: "old \<noteq> 0"
  proof
    assume "old = 0"
    with map_of_SomeD [OF present] zero_not_linked [of n c dir] show False by simp
  qed
  note mo = map_of_removed [OF wf_names [OF wf dir] ld]
  have oth: "links c' i = links c i" if "i \<in> inodes c" "i \<noteq> dir" "i \<noteq> old" for i
    by (rule same_inode_facts(4) [OF others [OF that]])
  have res: "resolve c' 0 q = (if q = p @ [n] then None else resolve c 0 q)" for q
    by (rule resolve_removed [OF wf p present leaf mo(2) oth])
  then show "paths_kept (p @ [n]) c c'" by (simp add: paths_kept_def)
  have ino: "inodes c' = inodes c - {old}" by (rule inodes_removed [OF wf res ro])
  let ?J = "inodes c - {dir} - {old}"
  have fin: "finite (inodes c)" by (rule wf_finite [OF wf])
  have I': "inodes c' = insert dir ?J" and dJ: "dir \<notin> ?J" and fJ: "finite ?J" using ino dir ne fin by auto
  have "usage c' + mset free' = usage c + mset free"
  proof -
    have J: "(\<Sum>i \<in> ?J. add_mset i (mset (iblocks c' i))) = (\<Sum>i \<in> ?J. add_mset i (mset (iblocks c i)))"
      by (intro sum.cong) (auto simp: same_inode_facts(3) [OF others])
    have "usage c' = add_mset dir (mset (iblocks c' dir)) + (\<Sum>i \<in> ?J. add_mset i (mset (iblocks c' i)))"
      unfolding usage_def I' using fJ dJ by simp
    moreover have "usage c = add_mset dir (mset (iblocks c dir)) + add_mset old (mset (iblocks c old))
        + (\<Sum>i \<in> ?J. add_mset i (mset (iblocks c i)))"
      unfolding usage_def by (rule sum_mset_split2 [OF fin dir old ne [symmetric]])
    ultimately show ?thesis using J bd fr by (simp add: ac_simps)
  qed
  then have us: "usage c' + mset free' = mset_set {..<FS_DISKSIZE}" using wf_usage [OF wf] by (simp only:)
  have lk: "linked c' = mset_set (inodes c' - {0})"
  proof -
    have J: "(\<Sum>i \<in> ?J. mset (map snd (links c' i))) = (\<Sum>i \<in> ?J. mset (map snd (links c i)))"
      by (intro sum.cong) (auto simp: oth)
    have d: "mset (map snd (links c dir)) = add_mset old (mset (map snd (links c' dir)))"
      using arg_cong [OF ld, of "image_mset snd"] by simp
    have "linked c = mset (map snd (links c dir)) + mset (map snd (links c old)) + (\<Sum>i \<in> ?J. mset (map snd (links c i)))"
      unfolding linked_def by (rule sum_mset_split2 [OF fin dir old ne [symmetric]])
    moreover have "linked c' = mset (map snd (links c' dir)) + (\<Sum>i \<in> ?J. mset (map snd (links c' i)))"
      unfolding linked_def I' using fJ dJ by simp
    ultimately have "linked c = add_mset old (linked c')" using J d leaf by simp
    moreover have "linked c = mset_set (inodes c - {0})" by (rule wf_linked [OF wf])
    moreover have "mset_set (inodes c - {0}) = add_mset old (mset_set (inodes c - {0} - {old}))"
      using fin old n0 by (intro mset_set.remove) auto
    ultimately have "linked c' = mset_set (inodes c - {0} - {old})" by simp
    also have "inodes c - {0} - {old} = inodes c' - {0}" using ino by blast
    finally show ?thesis .
  qed
  have cases: "kind c' i \<in> {CHR ''f'', CHR ''d''}" "isize (inode_at c' i) \<le> FS_MAXFILEBLOCKS"
    "distinct (map fst (links c' i))" "packed c' i" if i: "i \<in> inodes c'" for i
  proof -
    have cs: "i = dir \<or> i \<in> inodes c \<and> i \<noteq> dir \<and> i \<noteq> old" using i ino by auto
    have o: "kind c' i = kind c i" "inode_at c' i = inode_at c i" "links c' i = links c i"
      if "i \<in> inodes c" "i \<noteq> dir" "i \<noteq> old" using same_inode_facts [OF others [OF that]] by blast+
    from cs show "kind c' i \<in> {CHR ''f'', CHR ''d''}" using kd(1) o(1) wf_kind [OF wf, of i] by auto
    from cs show "isize (inode_at c' i) \<le> FS_MAXFILEBLOCKS" using kd(3) o(2) wf_isize [OF wf] by auto
    from cs show "distinct (map fst (links c' i))" using mo(1) o(3) wf_names [OF wf] by auto
    from cs show "packed c' i" using pk same_inode_facts(7) [OF others] wf_packed [OF wf] by auto
  qed
  have k': "kind c' 0 = CHR ''d''"
  proof (cases "dir = 0")
    case True
    with kd(1) show ?thesis by simp
  next
    case False
    then have "same_inode c c' 0" using n0 by (intro others) auto
    from same_inode_facts(2) [OF this] show ?thesis using wf_root [OF wf] by simp
  qed
  have "finite (inodes c')" using fin by (simp add: ino)
  with us lk cases k' len show "fs_wf c' free'" by (intro fs_wfI) blast+
  have nodes: "node_of c' i = node_of c i" if "i \<in> inodes c" "i \<noteq> old" for i
  proof (cases "i = dir")
    case True
    with k0 kd show ?thesis by (simp add: node_of_def)
  next
    case False
    then show ?thesis by (rule same_inode_facts(5) [OF others [OF that(1) _ that(2)]])
  qed
  show "view c' = (view c)(p @ [n] := None)"
  proof (rule ext)
    fix q
    have "i \<noteq> old" if "resolve c 0 q = Some i" "q \<noteq> p @ [n]" for i
      using path_unique [OF wf that(1), of "p @ [n]"] ro that(2) by auto
    then show "view c' q = ((view c)(p @ [n] := None)) q"
      using res [of q] nodes resolve_in_inodes [of c q] by (cases "resolve c 0 q") (auto simp: view_def)
  qed
qed

section \<open>A file changes\<close>

text \<open>The file \<open>f\<close>, at the path \<open>p\<close>, gets other data; \<open>extra\<close> are the blocks it takes from the free ones.\<close>

lemma wf_file_changed:
  assumes wf: "fs_wf c free" and p: "resolve c 0 p = Some f" and kf: "kind c f = CHR ''f''" "kind c' f = CHR ''f''"
    and others: "\<And>i. i \<in> inodes c \<Longrightarrow> i \<noteq> f \<Longrightarrow> same_inode c c' i"
    and sz: "isize (inode_at c' f) \<le> FS_MAXFILEBLOCKS"
    and bf: "mset (iblocks c' f) = mset (iblocks c f) + extra" and fr: "mset free = extra + mset free'"
    and len: "\<forall>b < FS_DISKSIZE. length (c' b) = FS_BLOCKSIZE"
  shows "fs_wf c' free'" "view c' = (view c)(p \<mapsto> node_of c' f)" "all_paths_kept c c'"
proof -
  have f: "f \<in> inodes c" by (rule resolve_in_inodes [OF p])
  have lf: "links c' f = links c f" using kf by (simp add: links_def)
  have lk: "links c' i = links c i" if "i \<in> inodes c" for i
    using lf same_inode_facts(4) [OF others [OF that]] by (cases "i = f") auto
  have res: "resolve c' 0 q = resolve c 0 q" for q by (rule resolve_same [OF lk])
  then show "all_paths_kept c c'" by (simp add: all_paths_kept_def)
  have ino: "inodes c' = inodes c" by (rule inodes_same [OF lk])
  let ?J = "inodes c - {f}"
  have fin: "finite (inodes c)" by (rule wf_finite [OF wf])
  have "usage c' + mset free' = usage c + mset free"
  proof -
    have J: "(\<Sum>i \<in> ?J. add_mset i (mset (iblocks c' i))) = (\<Sum>i \<in> ?J. add_mset i (mset (iblocks c i)))"
      by (intro sum.cong) (auto simp: same_inode_facts(3) [OF others])
    have "usage c' = add_mset f (mset (iblocks c' f)) + (\<Sum>i \<in> ?J. add_mset i (mset (iblocks c' i)))"
      unfolding usage_def ino by (rule sum_mset_split [OF fin f])
    moreover have "usage c = add_mset f (mset (iblocks c f)) + (\<Sum>i \<in> ?J. add_mset i (mset (iblocks c i)))"
      unfolding usage_def by (rule sum_mset_split [OF fin f])
    ultimately show ?thesis using J bf fr by (simp add: ac_simps)
  qed
  then have us: "usage c' + mset free' = mset_set {..<FS_DISKSIZE}" using wf_usage [OF wf] by (simp only:)
  have "linked c' = linked c" unfolding linked_def ino by (intro sum.cong) (auto simp: lk)
  then have ln: "linked c' = mset_set (inodes c' - {0})" using wf_linked [OF wf] by (simp add: ino)
  have cases: "kind c' i \<in> {CHR ''f'', CHR ''d''}" "isize (inode_at c' i) \<le> FS_MAXFILEBLOCKS"
    "distinct (map fst (links c' i))" "packed c' i" if i: "i \<in> inodes c'" for i
  proof -
    have i: "i \<in> inodes c" using i ino by simp
    have o: "kind c' i = kind c i" "inode_at c' i = inode_at c i" if "i \<noteq> f"
      using same_inode_facts [OF others [OF i that]] by blast+
    show "kind c' i \<in> {CHR ''f'', CHR ''d''}" using kf o(1) wf_kind [OF wf i] by (cases "i = f") auto
    show "isize (inode_at c' i) \<le> FS_MAXFILEBLOCKS" using sz o(2) wf_isize [OF wf i] by (cases "i = f") auto
    show "distinct (map fst (links c' i))" using lk [OF i] wf_names [OF wf i] by simp
    show "packed c' i" using kf(2) same_inode_facts(7) [OF others [OF i]] wf_packed [OF wf i] by (cases "i = f") (auto simp: packed_def)
  qed
  have f0: "f \<noteq> 0"
  proof
    assume "f = 0"
    with kf(1) wf_root [OF wf] show False by simp
  qed
  then have "same_inode c c' 0" by (intro others) auto
  from same_inode_facts(2) [OF this] have "kind c' 0 = CHR ''d''" using wf_root [OF wf] by simp
  moreover have "finite (inodes c')" using fin by (simp add: ino)
  ultimately show "fs_wf c' free'" using us ln cases len by (intro fs_wfI) blast+
  show "view c' = (view c)(p \<mapsto> node_of c' f)"
  proof (rule ext)
    fix q
    have "i = f \<longleftrightarrow> q = p" if "resolve c 0 q = Some i" for i
      using path_unique [OF wf that, of p] p that by auto
    moreover have "node_of c' i = node_of c i" if "resolve c 0 q = Some i" "i \<noteq> f" for i
      by (rule same_inode_facts(5) [OF others [OF resolve_in_inodes [OF that(1)] that(2)]])
    ultimately show "view c' q = ((view c)(p \<mapsto> node_of c' f)) q"
      using res [of q] p by (cases "resolve c 0 q") (auto simp: view_def)
  qed
qed

end
