(* ===== verification/FS_Create.thy ===== *)
theory FS_Create imports FS_Change begin

text \<open>
  FS_CREATE on a well-formed disk: with the directory locked, either nothing changes but the order of the
  free blocks, or the new file or directory appears at its path, and nowhere else.
\<close>

section \<open>Entries of a directory\<close>

lemma links_of_update:
  assumes "j < length es"
  shows "mset (links_of (es[j := x])) + (if live (es ! j) then {#link (es ! j)#} else {#})
    = mset (links_of es) + (if live x then {#link x#} else {#})"
proof -
  have "es = take j es @ es ! j # drop (Suc j) es" by (rule id_take_nth_drop [OF assms])
  then have "mset (links_of es) = mset (links_of (take j es @ es ! j # drop (Suc j) es))" by simp
  then show ?thesis using upd_conv_take_nth_drop [OF assms, of x] by (simp add: ac_simps)
qed

text \<open>The names of a directory, one block apart from the rest.\<close>

lemma links_of_block:
  "distinct bs \<Longrightarrow> b \<in> set bs \<Longrightarrow> mset (links_of (concat (map f bs)))
    = mset (links_of (f b)) + mset (links_of (concat (map f (remove1 b bs))))"
proof (induction bs)
  case (Cons a bs)
  then show ?case by (cases "a = b") (auto simp: ac_simps)
qed simp

lemma links_block_changed:
  assumes d: "kind c i = CHR ''d''" "kind c' i = CHR ''d''" and b: "distinct (iblocks c i)" "b \<in> set (iblocks c i)"
    and ib: "iblocks c' i = iblocks c i"
    and same: "\<And>x. x \<in> set (iblocks c i) \<Longrightarrow> x \<noteq> b \<Longrightarrow> c' x = c x"
    and u: "mset (links_of (entries_at c' b)) + M = mset (links_of (entries_at c b)) + N"
  shows "mset (links c' i) + M = mset (links c i) + N"
proof -
  let ?R = "mset (links_of (concat (map (entries_at c) (remove1 b (iblocks c i)))))"
  have e: "map (entries_at c') (remove1 b (iblocks c i)) = map (entries_at c) (remove1 b (iblocks c i))"
    using b same by (auto simp: entries_at_def)
  have l': "mset (links c' i) = mset (links_of (entries_at c' b)) + ?R"
    using links_of_block [OF b, of "entries_at c'"] unfolding e by (simp add: links_def d ib)
  have l: "mset (links c i) = mset (links_of (entries_at c b)) + ?R"
    using links_of_block [OF b, of "entries_at c"] d by (simp add: links_def)
  have "mset (links c' i) + M = (mset (links_of (entries_at c' b)) + M) + ?R" by (simp add: l' ac_simps)
  also have "\<dots> = (mset (links_of (entries_at c b)) + N) + ?R" by (simp add: u)
  also have "\<dots> = mset (links c i) + N" by (simp add: l ac_simps)
  finally show ?thesis .
qed

lemma inode_at_written [simp]: "inode_sized x \<Longrightarrow> inode_at (c(i := encode_inode x)) i = x"
  by (simp add: inode_at_def)

lemma entries_at_written [simp]: "entries_sized x \<Longrightarrow> entries_at (c(b := encode_entries x)) b = x"
  by (simp add: entries_at_def)

lemma wf_inode_sized: "fs_wf c free \<Longrightarrow> i \<in> inodes c \<Longrightarrow> inode_sized (inode_at c i)"
  using wf_length [of c free i] wf_inode_bound [of c free i] by (simp add: inode_at_def)

lemma wf_free_perm: "fs_wf c free \<Longrightarrow> mset free' = mset free \<Longrightarrow> fs_wf c free'"
  unfolding fs_wf_def by simp

section \<open>What is in memory\<close>

text \<open>The sizes of the uninitialised arrays.\<close>

definition mem_ok :: "junk \<Rightarrow> bool" where
  "mem_ok mem \<longleftrightarrow> inode_sized (junk_inode mem) \<and> entries_sized (junk_entries mem) \<and> FS_BLOCKSIZE \<le> length (junk_heap mem)"

definition user_ok :: "string \<Rightarrow> bool" where
  "user_ok u \<longleftrightarrow> length u \<le> FS_MAXUSERNAME \<and> nul \<notin> set u"

definition name_ok :: "string \<Rightarrow> bool" where
  "name_ok n \<longleftrightarrow> length n \<le> FS_MAXFILENAME \<and> nul \<notin> set n"

definition new_node :: "string \<Rightarrow> string \<Rightarrow> node" where
  "new_node type user = (if type = ''d'' then Directory user else File user [])"

lemma new_inode_facts:
  assumes "mem_ok mem" "user_ok user" "type \<in> {''f'', ''d''}"
  shows "inode_sized (new_inode mem type user)" "c_string (owner (new_inode mem type user)) = user"
    "isize (new_inode mem type user) = 0" "itype (new_inode mem type user) \<in> {CHR ''f'', CHR ''d''}"
    "itype (new_inode mem type user) = CHR ''d'' \<longleftrightarrow> type = ''d''"
  using assms by (auto simp: new_inode_def mem_ok_def inode_sized_def user_ok_def)

lemma new_entry_sized:
  assumes "entries_sized es" "j < FS_DIRENTRIES" "name_ok name" "b < FS_DISKSIZE"
  shows "entries_sized (new_entries change j name b es)"
proof -
  have "entry_sized (es ! j)" using assms by (simp add: entries_sized_def)
  then show ?thesis using assms
    by (auto simp: new_entries_def entries_sized_def entry_sized_def name_ok_def Let_def dest!: set_update_subset_insert [THEN subsetD])
qed

lemma links_of_dead: "\<forall>e \<in> set es. \<not> live e \<Longrightarrow> links_of es = []"
  by (simp add: links_of_def filter_empty_conv)

lemma new_entry_links:
  assumes "entries_sized es" "j < FS_DIRENTRIES" "name_ok name" "b \<noteq> 0"
  shows "\<not> change \<Longrightarrow> \<not> live (es ! j) \<Longrightarrow>
      mset (links_of (new_entries change j name b es)) = add_mset (name, b) (mset (links_of es))"
    "change \<Longrightarrow> mset (links_of (new_entries change j name b es)) = {#(name, b)#}"
proof -
  have l: "length es = 8" and j: "j < 8" using assms by (auto simp: entries_sized_def)
  have k: "live \<lparr>dname = strcpy d name, inode_block = b\<rparr>" "link \<lparr>dname = strcpy d name, inode_block = b\<rparr> = (name, b)" for d
    using assms(3,4) by (simp_all add: live_def link_def name_ok_def)
  show "mset (links_of (new_entries change j name b es)) = add_mset (name, b) (mset (links_of es))"
    if "\<not> change" "\<not> live (es ! j)"
    using links_of_update [of j es "\<lparr>dname = strcpy (dname (es ! j)) name, inode_block = b\<rparr>"] that l j k
    by (simp add: new_entries_def)
  let ?zs = "map (\<lambda>e. e\<lparr>inode_block := 0\<rparr>) es"
  have z: "links_of ?zs = []" by (rule links_of_dead) (auto simp: live_def)
  have zj: "\<not> live (?zs ! j)" using l j by (simp add: live_def)
  show "mset (links_of (new_entries change j name b es)) = {#(name, b)#}" if change
    using links_of_update [of j ?zs "\<lparr>dname = strcpy (dname (?zs ! j)) name, inode_block = b\<rparr>"] that l j k z zj
    by (simp add: new_entries_def)
qed

section \<open>The two changes of the disk\<close>

lemma create_in_block:
  assumes wf: "fs_wf c (new # free)" and p: "resolve c 0 p = Some dir" and k: "kind c dir = CHR ''d''"
    and absent: "map_of (links c dir) name = None" and blk: "blk \<in> set (iblocks c dir)"
    and es: "es = entries_at c blk" and j: "j < FS_DIRENTRIES" "\<not> live (es ! j)"
    and ok: "mem_ok mem" "user_ok user" "type \<in> {''f'', ''d''}" "name_ok name"
  defines "c' \<equiv> c(new := encode_inode (new_inode mem type user), blk := encode_entries (new_entries False j name new es))"
  shows "fs_wf c' free" "view c' = (view c)(p @ [name] \<mapsto> new_node type user)" "paths_kept (p @ [name]) c c'"
proof -
  have dir: "dir \<in> inodes c" by (rule resolve_in_inodes [OF p])
  have nfree: "x \<notin> set (new # free)" if "x \<in># usage c" for x by (rule wf_not_free [OF wf that])
  have bu: "blk \<in># usage c" "dir \<in># usage c" "0 \<in># usage c"
    using in_usage [OF wf dir] in_usage [OF wf root_in_inodes] blk by blast+
  have ne: "new \<noteq> blk" "new \<noteq> dir" "new \<noteq> 0"
    using nfree [OF bu(1)] nfree [OF bu(2)] nfree [OF bu(3)] by auto
  have bd: "blk \<noteq> dir" using wf_own [OF wf dir] blk by auto
  have nb: "new < FS_DISKSIZE" using wf_free_bound [OF wf] by simp
  have bb: "blk < FS_DISKSIZE" by (rule wf_block_bound [OF wf dir blk])
  have esz: "entries_sized es" unfolding es by (rule entries_at_sized [of c blk, OF wf_length [OF wf bb]])
  note nsz = new_entry_sized [OF esz j(1) ok(4) nb, of False]
  note ni = new_inode_facts [OF ok(1-3)]
  have len: "\<forall>b < FS_DISKSIZE. length (c' b) = FS_BLOCKSIZE"
    unfolding c'_def using wf_length [OF wf] ni(1) nsz length_encode_inode length_encode_entries by auto
  have in_new: "inode_at c' new = new_inode mem type user" unfolding c'_def using ne ni(1) by (simp add: inode_at_def)
  have in_dir: "inode_at c' dir = inode_at c dir" unfolding c'_def using ne bd by (simp add: inode_at_def)
  have ibn: "iblocks c' new = []" by (simp add: iblocks_def in_new ni(3))
  have ibd: "iblocks c' dir = iblocks c dir" by (simp add: iblocks_def in_dir)
  have kd: "kind c' dir = CHR ''d''" using k in_dir by (simp add: kind_def)
  have ent: "entries_at c' blk = new_entries False j name new es" unfolding c'_def using nsz by simp
  have upd: "mset (links_of (entries_at c' blk)) + {#} = mset (links_of (entries_at c blk)) + {#(name, new)#}"
    using new_entry_links(1) [OF esz j(1) ok(4) ne(3), of False] j(2) by (simp add: ent es)
  have "mset (links c' dir) + {#} = mset (links c dir) + {#(name, new)#}"
  proof (rule links_block_changed [OF k kd _ blk ibd _ upd])
    show "distinct (iblocks c dir)" using wf_own [OF wf dir] by simp
    show "c' x = c x" if "x \<in> set (iblocks c dir)" "x \<noteq> blk" for x
      using nfree [OF in_usage [OF wf dir], of x] that unfolding c'_def by auto
  qed
  then have ld: "mset (links c' dir) = add_mset (name, new) (mset (links c dir))" by simp
  have oth: "same_inode c c' i" if "i \<in> inodes c" "i \<noteq> dir" for i
    by (rule same_by_apart [OF wf dir that(1)]) (use that(2) blk in \<open>auto simp: c'_def\<close>)
  have nn: "node_of c' new = new_node type user"
    using ni in_new ibn by (auto simp: node_of_def kind_def owner_of_def new_node_def)
  have a: "links c' new = []" by (simp add: links_def ibn)
  have b: "kind c' new \<in> {CHR ''f'', CHR ''d''}" "isize (inode_at c' new) = 0" using ni in_new by (simp_all add: kind_def)
  have o: "owner_of c' dir = owner_of c dir" "isize (inode_at c' dir) \<le> FS_MAXFILEBLOCKS"
    using in_dir wf_isize [OF wf dir] by (simp_all add: owner_of_def)
  have "mset (links_of (entries_at c' blk)) \<noteq> {#}" using upd by simp
  then have "links_of (entries_at c' blk) \<noteq> []" by auto
  moreover have "entries_at c' b = entries_at c b" if "b \<in> set (iblocks c dir)" "b \<noteq> blk" for b
    using nfree [OF in_usage [OF wf dir], of b] that unfolding c'_def by (auto simp: entries_at_def)
  ultimately have pk: "packed c' dir" using wf_packed [OF wf dir] k unfolding packed_def ibd by metis
  have "fs_wf c' free \<and> view c' = (view c)(p @ [name] \<mapsto> node_of c' new) \<and> paths_kept (p @ [name]) c c'"
    by (intro conjI; rule wf_added [OF wf p absent ld a ibn b oth k kd o _ _ len pk, of "{#}"]) (simp_all add: ibd)
  then show "fs_wf c' free" "view c' = (view c)(p @ [name] \<mapsto> new_node type user)" "paths_kept (p @ [name]) c c'"
    unfolding nn by blast+
qed

lemma create_in_new_block:
  assumes wf: "fs_wf c (new # db # free)" and p: "resolve c 0 p = Some dir" and k: "kind c dir = CHR ''d''"
    and absent: "map_of (links c dir) name = None" and room: "isize (inode_at c dir) < FS_MAXFILEBLOCKS"
    and es: "entries_sized es" and j: "j < FS_DIRENTRIES"
    and ok: "mem_ok mem" "user_ok user" "type \<in> {''f'', ''d''}" "name_ok name"
  defines "i' \<equiv> (inode_at c dir)\<lparr>blocks := (blocks (inode_at c dir))[isize (inode_at c dir) := db],
      isize := isize (inode_at c dir) + 1\<rparr>"
  defines "c' \<equiv> c(new := encode_inode (new_inode mem type user), db := encode_entries (new_entries True j name new es),
      dir := encode_inode i')"
  shows "fs_wf c' free" "view c' = (view c)(p @ [name] \<mapsto> new_node type user)" "paths_kept (p @ [name]) c c'"
proof -
  have dir: "dir \<in> inodes c" by (rule resolve_in_inodes [OF p])
  have nfree: "x \<notin> set (new # db # free)" if "x \<in># usage c" for x by (rule wf_not_free [OF wf that])
  have du: "dir \<in># usage c" "0 \<in># usage c"
    using in_usage [OF wf dir] in_usage [OF wf root_in_inodes] by blast+
  have dist: "new \<noteq> db" using wf_distinct_free [OF wf] by auto
  have ne: "new \<noteq> dir" "db \<noteq> dir" "new \<noteq> 0" using nfree [OF du(1)] nfree [OF du(2)] by auto
  have nb: "new < FS_DISKSIZE" and dbb: "db < FS_DISKSIZE" using wf_free_bound [OF wf] by simp_all
  note nsz = new_entry_sized [OF es j ok(4) nb, of True]
  note ni = new_inode_facts [OF ok(1-3)]
  have isz: "inode_sized (inode_at c dir)" by (rule wf_inode_sized [OF wf dir])
  then have i': "inode_sized i'" using dbb room
    by (auto simp: inode_sized_def i'_def dest: set_update_subset_insert [THEN subsetD])
  have len: "\<forall>b < FS_DISKSIZE. length (c' b) = FS_BLOCKSIZE"
    unfolding c'_def using wf_length [OF wf] ni(1) nsz i' length_encode_inode length_encode_entries by auto
  have in_new: "inode_at c' new = new_inode mem type user"
    unfolding c'_def using ne dist ni(1) by (simp add: inode_at_def)
  have in_dir: "inode_at c' dir = i'" unfolding c'_def using i' by (simp add: inode_at_def)
  have ibn: "iblocks c' new = []" by (simp add: iblocks_def in_new ni(3))
  have ibd: "iblocks c' dir = iblocks c dir @ [db]"
    using isz room by (simp add: iblocks_def in_dir i'_def inode_sized_def take_Suc_conv_app_nth)
  have kd: "kind c' dir = CHR ''d''" using k in_dir by (simp add: kind_def i'_def)
  have same: "c' x = c x" if "x \<in> set (iblocks c dir)" for x
    using nfree [OF in_usage [OF wf dir], of x] wf_own [OF wf dir] that unfolding c'_def by auto
  have ent: "entries_at c' db = new_entries True j name new es"
    unfolding c'_def using nsz ne by (simp add: entries_at_def)
  have e: "map (entries_at c') (iblocks c dir) = map (entries_at c) (iblocks c dir)"
    using same by (simp add: entries_at_def)
  have "links c' dir = links_of (concat (map (entries_at c) (iblocks c dir))) @ links_of (entries_at c' db)"
    unfolding links_def ibd map_append e by (simp add: kd)
  then have ld: "mset (links c' dir) = add_mset (name, new) (mset (links c dir))"
    using new_entry_links(2) [OF es j ok(4) ne(3), of True] by (simp add: links_def k ent)
  have oth: "same_inode c c' i" if "i \<in> inodes c" "i \<noteq> dir" for i
    by (rule same_by_apart [OF wf dir that(1)]) (use that(2) in \<open>auto simp: c'_def\<close>)
  have nn: "node_of c' new = new_node type user"
    using ni in_new ibn by (auto simp: node_of_def kind_def owner_of_def new_node_def)
  have a: "links c' new = []" by (simp add: links_def ibn)
  have b: "kind c' new \<in> {CHR ''f'', CHR ''d''}" "isize (inode_at c' new) = 0" using ni in_new by (simp_all add: kind_def)
  have o: "owner_of c' dir = owner_of c dir" "isize (inode_at c' dir) \<le> FS_MAXFILEBLOCKS"
    using in_dir room by (simp_all add: owner_of_def i'_def)
  have "mset (links_of (entries_at c' db)) \<noteq> {#}"
    using new_entry_links(2) [OF es j ok(4) ne(3), of True] by (simp add: ent)
  then have pk: "packed c' dir" using wf_packed [OF wf dir] k same by (auto simp: packed_def ibd entries_at_def)
  have "fs_wf c' free \<and> view c' = (view c)(p @ [name] \<mapsto> node_of c' new) \<and> paths_kept (p @ [name]) c c'"
    by (intro conjI; rule wf_added [OF wf p absent ld a ibn b oth k kd o _ _ len pk, of "{#db#}"]) (simp_all add: ibd)
  then show "fs_wf c' free" "view c' = (view c)(p @ [name] \<mapsto> new_node type user)" "paths_kept (p @ [name]) c c'"
    unfolding nn by blast+
qed

section \<open>The operation\<close>

text \<open>Besides the free blocks, others may be reserved by requests under way.\<close>

lemma may_change_iff: "may_change user (inode_at c i) \<longleftrightarrow>
    (owner_of c i = user \<or> owner_of c i = []) \<and> kind c i = CHR ''d''"
  by (simp add: may_change_def owner_of_def kind_def)

lemma room_in_dir_spec:
  assumes st: "stands io good s c free rs" and sz: "isize inode \<le> FS_MAXFILEBLOCKS"
  shows "\<exists>r s'. room_in_dir new info inode s = (r, s') \<and>
    (if first_empty_block info = FS_MAXFILEBLOCKS + 1 then
       if free = [] \<or> isize inode = FS_MAXFILEBLOCKS then r = None \<and> stands io good s' c (free @ [new]) rs
       else stands io good s' c (tl free) rs \<and> r = Some (inode\<lparr>blocks := (blocks inode)[isize inode := hd free],
                isize := isize inode + 1\<rparr>, hd free, True)
     else r = Some (inode, first_empty_block info, False) \<and> stands io good s' c free rs)"
proof -
  have f: "free_blocks (lock_free s) = free" using st by (simp add: stands_def lock_free_def log_event_def)
  have l: "stands io good (lock_free s) c free rs" using st by simp
  show ?thesis using push_stands [OF l, of new] pop_stands [OF l] sz
    by (auto simp: room_in_dir_def Let_def f st qpush_def)
qed

lemma create_in_dir_spec:
  assumes laws: "disk_laws io good" and wf: "fs_wf c (new # free @ others)" and st: "stands io good s c free rs"
    and p: "resolve c 0 p = Some dir"
    and ok: "mem_ok mem" "user_ok user" "type \<in> {''f'', ''d''}" "name_ok name"
  shows "\<exists>made s' c' free'. create_in_dir io mem type user name new dir s = Some (made, s') \<and>
    stands io good s' c' free' rs \<and>
    (if made then fs_wf c' (free' @ others) \<and> view c' = (view c)(p @ [name] \<mapsto> new_node type user) \<and>
        paths_kept (p @ [name]) c c' \<and>
        may_change user (inode_at c dir) \<and> map_of (links c dir) name = None
     else c' = c \<and> mset free' = add_mset new (mset free)) \<and>
    (may_change user (inode_at c dir) \<and> map_of (links c dir) name = None \<and> free \<noteq> [] \<and>
       isize (inode_at c dir) < FS_MAXFILEBLOCKS \<longrightarrow> made)"
proof -
  have dir: "dir \<in> inodes c" by (rule resolve_in_inodes [OF p])
  have db: "dir < FS_DISKSIZE" by (rule wf_inode_bound [OF wf dir])
  let ?s1 = "log_event (Read dir) s"
  have rd: "read_block io dir s = Some (c dir, ?s1)" by (rule read_stands [OF laws st db])
  have ret: "stands io good (return_empty_block new t) c (free @ [new]) rs" if "stands io good t c free rs" for t
    using return_stands [OF that, of new] by (simp add: qpush_def)
  show ?thesis
  proof (cases "may_change user (inode_at c dir)")
    case False
    then have "create_in_dir io mem type user name new dir s = Some (False, return_empty_block new ?s1)"
      using rd by (simp add: create_in_dir_def inode_at_def)
    with False ret [of ?s1] st show ?thesis by (intro exI [of _ False] exI conjI) auto
  next
    case may: True
    then have k: "kind c dir = CHR ''d''" by (simp add: may_change_iff)
    have "entries_sized (junk_entries mem)" using ok(1) by (simp add: mem_ok_def)
    from check_existance_room [OF laws wf dir k, of ?s1 free rs, OF _ this, of name] st obtain info es s2 where
      ce: "check_existance io default_target (inode_at c dir) name (Some (junk_entries mem)) ?s1 = Some (info, Some es, s2)"
        "stands io good s2 c free rs"
      and r: "hit c (iblocks c dir) name info es \<and> map_of (links c dir) name = Some (t_inode_block info) \<or>
        room c (iblocks c dir) info es \<and> map_of (links c dir) name = None" by auto
    show ?thesis
    proof (cases "valid info")
      case True
      then have "create_in_dir io mem type user name new dir s = Some (False, return_empty_block new s2)"
        using rd may ce(1) by (simp add: create_in_dir_def inode_at_def)
      moreover have "map_of (links c dir) name \<noteq> None" using r True by (auto simp: room_def)
      ultimately show ?thesis using ret [OF ce(2)] by (intro exI [of _ False] exI conjI) auto
    next
      case nv: False
      then have rm: "room c (iblocks c dir) info es" "map_of (links c dir) name = None" using r by (auto simp: hit_def)
      let ?i = "inode_at c dir"
      have step: "create_in_dir io mem type user name new dir s = (case room_in_dir new info ?i s2 of
           (None, s) \<Rightarrow> Some (False, s)
         | (Some (parent_inode, dir_block, change_parent), s) \<Rightarrow> do {
             let entries = new_entries change_parent (first_empty_entry_index info) name new (the (Some es));
             s \<leftarrow> write_block io new (encode_inode (new_inode mem type user)) s;
             s \<leftarrow> write_block io dir_block (encode_entries entries) s;
             s \<leftarrow> (if change_parent then write_block io dir (encode_inode parent_inode) s else Some s);
             Some (True, s) })"
        using rd may ce(1) nv by (simp add: create_in_dir_def inode_at_def)
      obtain rr s3 where rd3: "room_in_dir new info ?i s2 = (rr, s3)"
        and sp: "if first_empty_block info = FS_MAXFILEBLOCKS + 1 then
         if free = [] \<or> isize ?i = FS_MAXFILEBLOCKS then rr = None \<and> stands io good s3 c (free @ [new]) rs
         else stands io good s3 c (tl free) rs \<and> rr = Some (?i\<lparr>blocks := (blocks ?i)[isize ?i := hd free],
                isize := isize ?i + 1\<rparr>, hd free, True)
         else rr = Some (?i, first_empty_block info, False) \<and> stands io good s3 c free rs"
        using room_in_dir_spec [OF ce(2) wf_isize [OF wf dir], of new info] by blast
      have nb: "new < FS_DISKSIZE" using wf_free_bound [OF wf] by simp
      note ni = new_inode_facts [OF ok(1-3)]
      have j: "first_empty_entry_index info < FS_DIRENTRIES" and esz: "entries_sized es"
        using rm(1) by (auto simp: room_def)
      have nsz: "entries_sized (new_entries ch (first_empty_entry_index info) name new es)" for ch
        by (rule new_entry_sized [OF esz j ok(4) nb])
      show ?thesis
      proof (cases "first_empty_block info = FS_MAXFILEBLOCKS + 1")
        case f: True
        show ?thesis
        proof (cases "free = [] \<or> isize ?i = FS_MAXFILEBLOCKS")
          case True
          then have "create_in_dir io mem type user name new dir s = Some (False, s3)" "stands io good s3 c (free @ [new]) rs"
            using step rd3 sp f by simp_all
          with True show ?thesis by (intro exI [of _ False] exI conjI) auto
        next
          case False
          then obtain b free1 where fr: "free = b # free1" by (cases free) auto
          let ?i' = "?i\<lparr>blocks := (blocks ?i)[isize ?i := b], isize := isize ?i + 1\<rparr>"
          have s3: "stands io good s3 c free1 rs" and rr: "rr = Some (?i', b, True)" using sp f False fr by auto
          have lt: "isize ?i < FS_MAXFILEBLOCKS" using False wf_isize [OF wf dir] by auto
          have bb: "b < FS_DISKSIZE" using wf_free_bound [OF wf] fr by simp
          have isz: "inode_sized ?i'" using wf_inode_sized [OF wf dir] bb lt
            by (auto simp: inode_sized_def dest: set_update_subset_insert [THEN subsetD])
          obtain s4 where s4: "write_block io new (encode_inode (new_inode mem type user)) s3 = Some s4"
            "stands io good s4 (c(new := encode_inode (new_inode mem type user))) free1 rs"
            using write_stands [OF laws s3 nb length_encode_inode [OF ni(1)]] by blast
          obtain s5 where s5: "write_block io b (encode_entries (new_entries True (first_empty_entry_index info) name new es)) s4 = Some s5"
            "stands io good s5 (c(new := encode_inode (new_inode mem type user),
               b := encode_entries (new_entries True (first_empty_entry_index info) name new es))) free1 rs"
            using write_stands [OF laws s4(2) bb length_encode_entries [OF nsz]] by blast
          obtain s6 where s6: "write_block io dir (encode_inode ?i') s5 = Some s6"
            "stands io good s6 (c(new := encode_inode (new_inode mem type user),
               b := encode_entries (new_entries True (first_empty_entry_index info) name new es),
               dir := encode_inode ?i')) free1 rs"
            using write_stands [OF laws s5(2) db length_encode_inode [OF isz]] by blast
          have "create_in_dir io mem type user name new dir s = Some (True, s6)"
            using step rd3 rr s4(1) s5(1) s6(1) by simp
          then show ?thesis
            using s6(2) create_in_new_block [OF wf [unfolded fr append_Cons] p k rm(2) lt esz j ok] may rm(2)
            by (intro exI [of _ True] exI conjI) auto
        qed
      next
        case f: False
        let ?b = "first_empty_block info"
        have s3: "stands io good s3 c free rs" and rr: "rr = Some (?i, ?b, False)" using sp f by auto
        have b: "?b \<in> set (iblocks c dir)" "es = entries_at c ?b" "\<not> live (es ! first_empty_entry_index info)"
          using rm(1) f by (auto simp: room_def)
        have bb: "?b < FS_DISKSIZE" by (rule wf_block_bound [OF wf dir b(1)])
        obtain s4 where s4: "write_block io new (encode_inode (new_inode mem type user)) s3 = Some s4"
          "stands io good s4 (c(new := encode_inode (new_inode mem type user))) free rs"
          using write_stands [OF laws s3 nb length_encode_inode [OF ni(1)]] by blast
        obtain s5 where s5: "write_block io ?b (encode_entries (new_entries False (first_empty_entry_index info) name new es)) s4 = Some s5"
          "stands io good s5 (c(new := encode_inode (new_inode mem type user),
             ?b := encode_entries (new_entries False (first_empty_entry_index info) name new es))) free rs"
          using write_stands [OF laws s4(2) bb length_encode_entries [OF nsz]] by blast
        have "create_in_dir io mem type user name new dir s = Some (True, s5)"
          using step rd3 rr s4(1) s5(1) by simp
        then show ?thesis
          using s5(2) create_in_block [OF wf p k rm(2) b(1,2) j b(3) ok] may rm(2)
          by (intro exI [of _ True] exI conjI) auto
      qed
    qed
  qed
qed

end
