(* ===== verification/FS_Delete.thy ===== *)
theory FS_Delete imports FS_Create begin

text \<open>
  FS_DELETE on a well-formed disk: with the directory locked, either nothing changes, or the file or
  empty directory disappears from its path, nothing else does, and its blocks are free again.
\<close>

section \<open>Closing the gap\<close>

lemma close_gap_loop:
  "k \<le> m \<Longrightarrow> m < length bs \<Longrightarrow> length (foldl (\<lambda>bs i. bs[i := bs ! Suc i]) bs [k..<m]) = length bs \<and>
   (\<forall>x < length bs. foldl (\<lambda>bs i. bs[i := bs ! Suc i]) bs [k..<m] ! x = (if k \<le> x \<and> x < m then bs ! Suc x else bs ! x))"
proof (induction m)
  case (Suc m)
  show ?case
  proof (cases "k = Suc m")
    case False
    then show ?thesis using Suc by (auto simp: nth_list_update less_Suc_eq)
  qed auto
qed simp

lemma close_gap_facts:
  assumes "k < n" "n \<le> length bs"
  shows "length (close_gap k n bs) = length bs"
    "take (n - 1) (close_gap k n bs) = take k bs @ drop (Suc k) (take n bs)"
    "set (close_gap k n bs) \<subseteq> set bs"
proof -
  have m: "k \<le> n - 1" "n - 1 < length bs" using assms by auto
  note cg = close_gap_loop [OF m]
  have l: "length (close_gap k n bs) = length bs" using cg by (simp add: close_gap_def)
  have x: "close_gap k n bs ! i = (if k \<le> i \<and> i < n - 1 then bs ! Suc i else bs ! i)" if "i < length bs" for i
    using cg that by (simp add: close_gap_def)
  show "length (close_gap k n bs) = length bs" by (rule l)
  show "take (n - 1) (close_gap k n bs) = take k bs @ drop (Suc k) (take n bs)"
  proof (rule nth_equalityI)
    show "length (take (n - 1) (close_gap k n bs)) = length (take k bs @ drop (Suc k) (take n bs))"
      using assms m by (simp add: l)
  next
    fix i assume "i < length (take (n - 1) (close_gap k n bs))"
    then have i: "i < n - 1" using m by (simp add: l)
    then show "take (n - 1) (close_gap k n bs) ! i = (take k bs @ drop (Suc k) (take n bs)) ! i"
      using assms m x [of i] by (cases "i < k") (auto simp: nth_append)
  qed
  show "set (close_gap k n bs) \<subseteq> set bs"
  proof
    fix y assume "y \<in> set (close_gap k n bs)"
    then obtain i where i: "i < length bs" "y = close_gap k n bs ! i" by (auto simp: in_set_conv_nth l)
    show "y \<in> set bs" using i x [OF i(1)] m(2) by (cases "k \<le> i \<and> i < n - 1") auto
  qed
qed

section \<open>The two changes of the disk\<close>

lemma cleared_entry:
  assumes "entries_sized es" "j < FS_DIRENTRIES" "live (es ! j)" "link (es ! j) = (name, old)"
  defines "es' \<equiv> es[j := (es ! j)\<lparr>inode_block := 0\<rparr>]"
  shows "entries_sized es'" "mset (links_of es) = add_mset (name, old) (mset (links_of es'))"
proof -
  have l: "j < length es" using assms by (simp add: entries_sized_def)
  show "entries_sized es'" using assms(1) l
    by (auto simp: entries_sized_def entry_sized_def es'_def dest!: set_update_subset_insert [THEN subsetD])
  have "\<not> live ((es ! j)\<lparr>inode_block := 0\<rparr>)" by (simp add: live_def)
  then show "mset (links_of es) = add_mset (name, old) (mset (links_of es'))"
    using links_of_update [OF l, of "(es ! j)\<lparr>inode_block := 0\<rparr>"] assms(3,4) by (simp add: es'_def)
qed

lemma delete_in_block:
  assumes wf: "fs_wf c free" and p: "resolve c 0 p = Some dir" and present: "map_of (links c dir) name = Some old"
    and leaf: "links c old = []" and blk: "blk \<in> set (iblocks c dir)" and es: "es = entries_at c blk"
    and j: "j < FS_DIRENTRIES" "live (es ! j)" "link (es ! j) = (name, old)"
    and more: "\<not> (\<forall>e \<in> set (es[j := (es ! j)\<lparr>inode_block := 0\<rparr>]). inode_block e = 0)"
    and fr: "mset free' = mset free + add_mset old (mset (iblocks c old))"
  defines "c' \<equiv> c(blk := encode_entries (es[j := (es ! j)\<lparr>inode_block := 0\<rparr>]))"
  shows "fs_wf c' free'" "view c' = (view c)(p @ [name] := None)" "paths_kept (p @ [name]) c c'"
proof -
  have dir: "dir \<in> inodes c" by (rule resolve_in_inodes [OF p])
  have k: "kind c dir = CHR ''d''" by (rule wf_links_dir [OF map_of_SomeD [OF present]])
  have bd: "blk \<noteq> dir" using wf_own [OF wf dir] blk by auto
  have bb: "blk < FS_DISKSIZE" by (rule wf_block_bound [OF wf dir blk])
  have esz: "entries_sized es" unfolding es by (rule entries_at_sized [of c blk, OF wf_length [OF wf bb]])
  note ce = cleared_entry [OF esz j]
  have len: "\<forall>b < FS_DISKSIZE. length (c' b) = FS_BLOCKSIZE"
    unfolding c'_def using wf_length [OF wf] ce(1) length_encode_entries by auto
  have in_dir: "inode_at c' dir = inode_at c dir" unfolding c'_def using bd by (simp add: inode_at_def)
  have ibd: "iblocks c' dir = iblocks c dir" by (simp add: iblocks_def in_dir)
  have kd: "kind c' dir = CHR ''d''" using k in_dir by (simp add: kind_def)
  have ent: "entries_at c' blk = es[j := (es ! j)\<lparr>inode_block := 0\<rparr>]" unfolding c'_def using ce(1) by simp
  then have upd: "mset (links_of (entries_at c' blk)) + {#(name, old)#} = mset (links_of (entries_at c blk)) + {#}"
    using ce(2) by (simp add: es)
  have "mset (links c' dir) + {#(name, old)#} = mset (links c dir) + {#}"
  proof (rule links_block_changed [OF k kd _ blk ibd _ upd])
    show "distinct (iblocks c dir)" using wf_own [OF wf dir] by simp
  qed (simp add: c'_def)
  then have ld: "mset (links c dir) = add_mset (name, old) (mset (links c' dir))" by simp
  have oth: "same_inode c c' i" if "i \<in> inodes c" "i \<noteq> dir" "i \<noteq> old" for i
    by (rule same_by_apart [OF wf dir that(1)]) (use that(2) blk in \<open>auto simp: c'_def\<close>)
  have o: "owner_of c' dir = owner_of c dir" "isize (inode_at c' dir) \<le> FS_MAXFILEBLOCKS"
    using in_dir wf_isize [OF wf dir] by (simp_all add: owner_of_def)
  have "links_of (entries_at c' blk) \<noteq> []" using more by (auto simp: ent links_of_def filter_empty_conv live_def)
  moreover have "entries_at c' b = entries_at c b" if "b \<noteq> blk" for b using that by (simp add: c'_def entries_at_def)
  ultimately have pk: "packed c' dir" using wf_packed [OF wf dir] k unfolding packed_def ibd by metis
  have "fs_wf c' free' \<and> view c' = (view c)(p @ [name] := None) \<and> paths_kept (p @ [name]) c c'"
    by (intro conjI; rule wf_removed [OF wf p present leaf ld oth kd o _ _ len pk, where extra = "{#}" and free' = free']) (simp_all add: ibd fr)
  then show "fs_wf c' free'" "view c' = (view c)(p @ [name] := None)" "paths_kept (p @ [name]) c c'" by blast+
qed

lemma delete_block:
  assumes wf: "fs_wf c free" and p: "resolve c 0 p = Some dir" and present: "map_of (links c dir) name = Some old"
    and leaf: "links c old = []" and k: "k < length (iblocks c dir)" and es: "es = entries_at c (iblocks c dir ! k)"
    and j: "j < FS_DIRENTRIES" "live (es ! j)" "link (es ! j) = (name, old)"
    and empty: "\<forall>e \<in> set (es[j := (es ! j)\<lparr>inode_block := 0\<rparr>]). inode_block e = 0"
    and fr: "mset free' = mset free + {#iblocks c dir ! k#} + add_mset old (mset (iblocks c old))"
  defines "i' \<equiv> (inode_at c dir)\<lparr>blocks := close_gap k (isize (inode_at c dir)) (blocks (inode_at c dir)),
      isize := isize (inode_at c dir) - 1\<rparr>"
  defines "c' \<equiv> c(dir := encode_inode i')"
  shows "inode_sized i'" "fs_wf c' free'" "view c' = (view c)(p @ [name] := None)" "paths_kept (p @ [name]) c c'"
proof -
  let ?i = "inode_at c dir" and ?b = "iblocks c dir ! k"
  have dir: "dir \<in> inodes c" by (rule resolve_in_inodes [OF p])
  have kd: "kind c dir = CHR ''d''" by (rule wf_links_dir [OF map_of_SomeD [OF present]])
  have isz: "inode_sized ?i" by (rule wf_inode_sized [OF wf dir])
  have ks: "k < isize ?i" "isize ?i \<le> length (blocks ?i)"
    using k wf_length_iblocks [OF wf dir] wf_isize [OF wf dir] isz by (auto simp: inode_sized_def)
  note cg = close_gap_facts [OF ks]
  show i': "inode_sized i'" using isz cg(1,3) by (auto simp: i'_def inode_sized_def)
  have blk: "?b \<in> set (iblocks c dir)" using k by simp
  have bb: "?b < FS_DISKSIZE" by (rule wf_block_bound [OF wf dir blk])
  have esz: "entries_sized es" unfolding es by (rule entries_at_sized [of c ?b, OF wf_length [OF wf bb]])
  have len: "\<forall>b < FS_DISKSIZE. length (c' b) = FS_BLOCKSIZE"
    unfolding c'_def using wf_length [OF wf] i' length_encode_inode by auto
  have in_dir: "inode_at c' dir = i'" unfolding c'_def using i' by simp
  have ib: "iblocks c' dir = take k (iblocks c dir) @ drop (Suc k) (iblocks c dir)"
    using cg(2) ks by (simp add: iblocks_def in_dir i'_def min_def)
  have dist: "distinct (iblocks c dir)" using wf_own [OF wf dir] by simp
  have split: "iblocks c dir = take k (iblocks c dir) @ ?b # drop (Suc k) (iblocks c dir)" by (rule id_take_nth_drop [OF k])
  then have nt: "?b \<notin> set (take k (iblocks c dir))" using dist by (metis distinct.simps(2) distinct_append Un_iff IntI disjoint_iff list.set_intros(1))
  have rem: "iblocks c' dir = remove1 ?b (iblocks c dir)"
    using nt by (subst (2) split) (simp add: ib remove1_append)
  have bd: "mset (iblocks c dir) = mset (iblocks c' dir) + {#?b#}" unfolding rem using blk by simp
  have same: "c' x = c x" if "x \<in> set (iblocks c dir)" for x
    using wf_own [OF wf dir] that unfolding c'_def by auto
  have e: "map (entries_at c') (remove1 ?b (iblocks c dir)) = map (entries_at c) (remove1 ?b (iblocks c dir))"
    using same notin_set_remove1 by (fastforce simp: entries_at_def)
  have kd': "kind c' dir = CHR ''d''" using kd in_dir by (simp add: kind_def i'_def)
  have "links_of (es[j := (es ! j)\<lparr>inode_block := 0\<rparr>]) = []" using empty by (intro links_of_dead) (simp add: live_def)
  then have one: "mset (links_of es) = {#(name, old)#}" using cleared_entry(2) [OF esz j] by simp
  have "mset (links c dir) = mset (links_of (entries_at c ?b)) + mset (links_of (concat (map (entries_at c) (remove1 ?b (iblocks c dir)))))"
    using links_of_block [OF dist blk, of "entries_at c"] by (simp add: links_def kd)
  moreover have "links c' dir = links_of (concat (map (entries_at c) (remove1 ?b (iblocks c dir))))"
    unfolding links_def rem e by (simp add: kd')
  ultimately have ld: "mset (links c dir) = add_mset (name, old) (mset (links c' dir))"
    using one by (simp add: es)
  have oth: "same_inode c c' i" if "i \<in> inodes c" "i \<noteq> dir" "i \<noteq> old" for i
    by (rule same_by_apart [OF wf dir that(1)]) (use that(2) in \<open>auto simp: c'_def\<close>)
  have o: "owner_of c' dir = owner_of c dir" "isize (inode_at c' dir) \<le> FS_MAXFILEBLOCKS"
    using in_dir wf_isize [OF wf dir] by (simp_all add: owner_of_def i'_def)
  have pk: "packed c' dir" using wf_packed [OF wf dir] kd same notin_set_remove1
    by (fastforce simp: packed_def rem entries_at_def)
  have "fs_wf c' free' \<and> view c' = (view c)(p @ [name] := None) \<and> paths_kept (p @ [name]) c c'"
    by (intro conjI; rule wf_removed [OF wf p present leaf ld oth kd' o bd fr len pk])
  then show "fs_wf c' free'" "view c' = (view c)(p @ [name] := None)" "paths_kept (p @ [name]) c c'" by blast+
qed

section \<open>The operation\<close>

lemma push_all_spec:
  "stands io good s c free rs \<Longrightarrow>
   \<exists>s'. push_all (map Some bs) s = Some s' \<and> stands io good s' c (free @ bs) rs"
proof (induction bs arbitrary: s free)
  case (Cons b bs)
  have "stands io good (push_free b s) c (free @ [b]) rs" using push_stands [OF Cons.prems, of b] by (simp add: qpush_def)
  from Cons.IH [OF this] show ?case by simp
qed simp

text \<open>What may be deleted: the user's own file, or his own directory without blocks.\<close>

definition deletable :: "contents \<Rightarrow> string \<Rightarrow> nat \<Rightarrow> bool" where
  "deletable c user i \<longleftrightarrow> owner_of c i = user \<and> \<not> (kind c i = CHR ''d'' \<and> 0 < isize (inode_at c i))"

lemma deletable_leaf: "deletable c user i \<Longrightarrow> links c i = []"
  by (auto simp: deletable_def links_def iblocks_def)

lemma delete_in_dir_spec:
  assumes laws: "disk_laws io good" and wf: "fs_wf c (free @ others)" and st: "stands io good s c free rs"
    and p: "resolve c 0 p = Some dir" and mem: "mem_ok mem"
  shows "\<exists>d s' c' free1. delete_in_dir io mem user name dir s = Some (d, s') \<and> stands io good s' c' free1 rs \<and>
    (case d of None \<Rightarrow> c' = c \<and> free1 = free
     | Some (i, old) \<Rightarrow> may_change user (inode_at c dir) \<and> map_of (links c dir) name = Some old \<and>
         i = inode_at c old \<and> deletable c user old \<and> fs_wf c' (free1 @ iblocks c old @ [old] @ others) \<and>
         view c' = (view c)(p @ [name] := None) \<and> paths_kept (p @ [name]) c c') \<and>
    (\<forall>old. may_change user (inode_at c dir) \<and> map_of (links c dir) name = Some old \<and> deletable c user old \<longrightarrow> d \<noteq> None)"
proof -
  have dir: "dir \<in> inodes c" by (rule resolve_in_inodes [OF p])
  have db: "dir < FS_DISKSIZE" by (rule wf_inode_bound [OF wf dir])
  let ?s1 = "log_event (Read dir) s" and ?i = "inode_at c dir"
  have rd: "read_block io dir s = Some (c dir, ?s1)" by (rule read_stands [OF laws st db])
  show ?thesis
  proof (cases "may_change user ?i")
    case False
    then have "delete_in_dir io mem user name dir s = Some (None, ?s1)"
      using rd by (simp add: delete_in_dir_def inode_at_def)
    with False st show ?thesis by (intro exI [of _ None] exI [of _ ?s1] exI conjI) auto
  next
    case may: True
    then have k: "kind c dir = CHR ''d''" by (simp add: may_change_iff)
    have "entries_sized (junk_entries mem)" using mem by (simp add: mem_ok_def)
    from check_existance_room [OF laws wf dir k, of ?s1 free rs, OF _ this, of name] st obtain info es s2 where
      ce: "check_existance io default_target ?i name (Some (junk_entries mem)) ?s1 = Some (info, Some es, s2)"
        "stands io good s2 c free rs"
      and r: "hit c (iblocks c dir) name info es \<and> map_of (links c dir) name = Some (t_inode_block info) \<or>
        room c (iblocks c dir) info es \<and> map_of (links c dir) name = None" by auto
    show ?thesis
    proof (cases "valid info")
      case False
      then have "delete_in_dir io mem user name dir s = Some (None, s2)"
        using rd may ce(1) by (simp add: delete_in_dir_def inode_at_def)
      moreover have "map_of (links c dir) name = None" using r False by (auto simp: hit_def)
      ultimately show ?thesis using ce(2) by (intro exI [of _ None] exI conjI) auto
    next
      case v: True
      let ?old = "t_inode_block info" and ?j = "first_empty_entry_index info" and ?k = "first_empty_block info"
      from v r have h: "hit c (iblocks c dir) name info es" and pr: "map_of (links c dir) name = Some ?old"
        by (auto simp: room_def)
      have old: "?old \<in> inodes c" by (rule linked_in_inodes [OF dir pr])
      have ob: "?old < FS_DISKSIZE" by (rule wf_inode_bound [OF wf old])
      let ?s3 = "log_event (Lock ?old) s2"
      let ?s4 = "log_event (Read ?old) ?s3"
      have rd2: "read_block io ?old ?s3 = Some (c ?old, ?s4)" using ce(2) by (intro read_stands [OF laws _ ob]) simp
      have st4: "stands io good ?s4 c free rs" using ce(2) by simp
      have k_es: "?k < length (iblocks c dir)" "es = entries_at c (iblocks c dir ! ?k)" "?j < FS_DIRENTRIES"
        "live (es ! ?j)" "link (es ! ?j) = (name, ?old)" using h by (auto simp: hit_def)
      have ks: "?k < isize ?i" using k_es(1) wf_length_iblocks [OF wf dir] by simp
      then have bk: "blocks ?i ! ?k = iblocks c dir ! ?k" by (simp add: iblocks_def)
      show ?thesis
      proof (cases "deletable c user ?old")
        case False
        then have "delete_in_dir io mem user name dir s = Some (None, log_event (Unlock ?old) ?s4)"
          using rd may ce(1) v rd2 lock_stands [OF ob]
          by (auto simp: delete_in_dir_def inode_at_def deletable_def owner_of_def kind_def lock_stands [OF ob])
        with False pr st4 show ?thesis
            by (intro exI [of _ None] exI [of _ "log_event (Unlock ?old) ?s4"] exI conjI) auto
      next
        case True
        note leaf = deletable_leaf [OF True]
        have bo: "inode_block (es ! ?j) = ?old" using k_es(5) by (simp add: link_def)
        have step: "delete_in_dir io mem user name dir s = do {
            s \<leftarrow> remove_entry io dir ?i ?k es ?j ?s4;
            s \<leftarrow> unlock_exclusive ?old s;
            Some (Some (inode_at c ?old, ?old), s) }"
          using rd may ce(1) v rd2 True bo
          by (auto simp: delete_in_dir_def inode_at_def deletable_def owner_of_def kind_def lock_stands [OF ob])
        let ?es' = "es[?j := (es ! ?j)\<lparr>inode_block := 0\<rparr>]"
        have blk: "iblocks c dir ! ?k \<in> set (iblocks c dir)" using k_es(1) by simp
        have bb: "iblocks c dir ! ?k < FS_DISKSIZE" by (rule wf_block_bound [OF wf dir blk])
        have goal: "\<exists>d s' c' free1. delete_in_dir io mem user name dir s = Some (d, s') \<and> stands io good s' c' free1 rs \<and>
            (case d of None \<Rightarrow> c' = c \<and> free1 = free
             | Some (i, old) \<Rightarrow> may_change user ?i \<and> map_of (links c dir) name = Some old \<and>
                 i = inode_at c old \<and> deletable c user old \<and> fs_wf c' (free1 @ iblocks c old @ [old] @ others) \<and>
                 view c' = (view c)(p @ [name] := None) \<and> paths_kept (p @ [name]) c c') \<and>
            (\<forall>old. may_change user ?i \<and> map_of (links c dir) name = Some old \<and> deletable c user old \<longrightarrow> d \<noteq> None)"
          if "remove_entry io dir ?i ?k es ?j ?s4 = Some s5" "stands io good s5 c' free1 rs"
            "fs_wf c' (free1 @ iblocks c ?old @ [?old] @ others)" "view c' = (view c)(p @ [name] := None)"
            "paths_kept (p @ [name]) c c'" for s5 c' free1
          using step that True may pr
          by (intro exI [of _ "Some (inode_at c ?old, ?old)"] exI [of _ "log_event (Unlock ?old) s5"] exI conjI)
            (auto simp: lock_stands [OF ob])
        show ?thesis
        proof (cases "\<forall>e \<in> set ?es'. inode_block e = 0")
          case empty: True
          note db' = delete_block [OF wf p pr leaf k_es empty]
          have isz: "inode_sized (?i\<lparr>blocks := close_gap ?k (isize ?i) (blocks ?i), isize := isize ?i - 1\<rparr>)"
            by (rule db'(1) [of "free @ [iblocks c dir ! ?k] @ iblocks c ?old @ [?old] @ others"]) simp
          obtain s5 where s5: "write_block io dir (encode_inode (?i\<lparr>blocks := close_gap ?k (isize ?i) (blocks ?i), isize := isize ?i - 1\<rparr>)) ?s4 = Some s5"
            "stands io good s5 (c(dir := encode_inode (?i\<lparr>blocks := close_gap ?k (isize ?i) (blocks ?i), isize := isize ?i - 1\<rparr>))) free rs"
            using write_stands [OF laws st4 db length_encode_inode [OF isz]] by blast
          have "remove_entry io dir ?i ?k es ?j ?s4 = Some (return_empty_block (iblocks c dir ! ?k) s5)"
            unfolding remove_entry_def Let_def if_P [OF empty] s5(1) by (simp add: return_empty_block_def bk)
          moreover have "stands io good (return_empty_block (iblocks c dir ! ?k) s5)
              (c(dir := encode_inode (?i\<lparr>blocks := close_gap ?k (isize ?i) (blocks ?i), isize := isize ?i - 1\<rparr>))) (free @ [iblocks c dir ! ?k]) rs"
            using return_stands [OF s5(2), of "iblocks c dir ! ?k"] by (simp add: qpush_def)
          ultimately show ?thesis 
            by (rule goal) (rule db'(2,3,4) [of "(free @ [iblocks c dir ! ?k]) @ iblocks c ?old @ [?old] @ others"]; simp)+
        next
          case ne: False
          note db' = delete_in_block [OF wf p pr leaf blk k_es(2-5) ne]
          have esz: "entries_sized es" unfolding k_es(2) by (rule entries_at_sized [of c "iblocks c dir ! ?k", OF wf_length [OF wf bb]])
          obtain s5 where s5: "write_block io (iblocks c dir ! ?k) (encode_entries ?es') ?s4 = Some s5"
            "stands io good s5 (c(iblocks c dir ! ?k := encode_entries ?es')) free rs"
            using write_stands [OF laws st4 bb length_encode_entries [OF cleared_entry(1) [OF esz k_es(3-5)]]] by blast
          have "remove_entry io dir ?i ?k es ?j ?s4 = Some s5"
            unfolding remove_entry_def Let_def if_not_P [OF ne] bk by (rule s5(1))
          then show ?thesis using s5(2) 
            by (rule goal) (rule db' [of "free @ iblocks c ?old @ [?old] @ others"]; simp)+
        qed
      qed
    qed
  qed
qed

end
