(* ===== verification/FS_File.thy ===== *)
theory FS_File imports FS_Delete begin

text \<open>
  FS_READBLOCK and FS_WRITEBLOCK on a well-formed disk, with the file locked: what is read is the block
  of the file's data; a write replaces a block of the data or adds one at its end.
\<close>

lemma block_at_length: "mem_ok mem \<Longrightarrow> length (block_at mem data) = FS_BLOCKSIZE"
  by (auto simp: block_at_def mem_ok_def min_def)

lemma read_file_spec:
  assumes laws: "disk_laws io good" and wf: "fs_wf c free'" and st: "stands io good s c free rs"
    and f: "f \<in> inodes c"
  shows "\<exists>s'. read_file io user k f s = Some (if owner_of c f = user \<and> kind c f = CHR ''f'' \<and> k < isize (inode_at c f)
      then Some (c (iblocks c f ! k)) else None, s') \<and> stands io good s' c free rs"
proof -
  have fb: "f < FS_DISKSIZE" by (rule wf_inode_bound [OF wf f])
  let ?s1 = "log_event (Read f) s"
  have rd: "read_block io f s = Some (c f, ?s1)" by (rule read_stands [OF laws st fb])
  show ?thesis
  proof (cases "owner_of c f = user \<and> kind c f = CHR ''f'' \<and> k < isize (inode_at c f)")
    case True
    then have kl: "k < length (iblocks c f)" using wf_length_iblocks [OF wf f] by simp
    then have b: "iblocks c f ! k < FS_DISKSIZE" by (intro wf_block_bound [OF wf f]) simp
    have bk: "blocks (inode_at c f) ! k = iblocks c f ! k" using True by (simp add: iblocks_def)
    have "read_block io (iblocks c f ! k) ?s1 = Some (c (iblocks c f ! k), log_event (Read (iblocks c f ! k)) ?s1)"
      using st by (intro read_stands [OF laws _ b]) simp
    then show ?thesis using rd True st bk
      by (simp add: read_file_def inode_at_def owner_of_def kind_def)
  next
    case False
    then have "read_file io user k f s = Some (None, ?s1)"
      using rd by (auto simp: read_file_def inode_at_def owner_of_def kind_def)
    with False st show ?thesis by simp
  qed
qed

text \<open>A block of the data is replaced.\<close>

lemma overwrite_block:
  assumes wf: "fs_wf c free" and p: "resolve c 0 p = Some f" and k: "kind c f = CHR ''f''"
    and i: "i < length (iblocks c f)" and x: "length x = FS_BLOCKSIZE"
  defines "c' \<equiv> c(iblocks c f ! i := x)"
  shows "fs_wf c' free" "view c' = (view c)(p \<mapsto> File (owner_of c f) ((map c (iblocks c f))[i := x]))" "all_paths_kept c c'"
proof -
  let ?b = "iblocks c f ! i"
  have f: "f \<in> inodes c" by (rule resolve_in_inodes [OF p])
  have b: "?b \<in> set (iblocks c f)" using i by simp
  have bf: "?b \<noteq> f" using wf_own [OF wf f] b by auto
  have in_f: "inode_at c' f = inode_at c f" unfolding c'_def using bf by (simp add: inode_at_def)
  have ib: "iblocks c' f = iblocks c f" by (simp add: iblocks_def in_f)
  have kf: "kind c' f = CHR ''f''" using k in_f by (simp add: kind_def)
  have len: "\<forall>b < FS_DISKSIZE. length (c' b) = FS_BLOCKSIZE" unfolding c'_def using wf_length [OF wf] x by simp
  have oth: "same_inode c c' j" if "j \<in> inodes c" "j \<noteq> f" for j
    by (rule same_by_apart [OF wf f that(1)]) (use that(2) b in \<open>auto simp: c'_def\<close>)
  have sz: "isize (inode_at c' f) \<le> FS_MAXFILEBLOCKS" using in_f wf_isize [OF wf f] by simp
  have d: "distinct (iblocks c f)" using wf_own [OF wf f] by simp
  then have "map c' (iblocks c f) = (map c (iblocks c f))[i := x]"
    unfolding c'_def using i by (intro nth_equalityI) (auto simp: nth_list_update nth_eq_iff_index_eq)
  then have n: "node_of c' f = File (owner_of c f) ((map c (iblocks c f))[i := x])"
    using kf ib in_f by (simp add: node_of_def owner_of_def)
  have "fs_wf c' free \<and> view c' = (view c)(p \<mapsto> node_of c' f) \<and> all_paths_kept c c'"
    by (intro conjI; rule wf_file_changed [OF wf p k kf oth sz _ _ len, where extra = "{#}" and free' = free])
      (simp_all add: ib)
  then show "fs_wf c' free" "view c' = (view c)(p \<mapsto> File (owner_of c f) ((map c (iblocks c f))[i := x]))" "all_paths_kept c c'"
    unfolding n by blast+
qed

text \<open>A block is added at the end.\<close>

lemma extend_file:
  assumes wf: "fs_wf c (b # free)" and p: "resolve c 0 p = Some f" and k: "kind c f = CHR ''f''"
    and room: "isize (inode_at c f) < FS_MAXFILEBLOCKS" and x: "length x = FS_BLOCKSIZE"
  defines "i' \<equiv> (inode_at c f)\<lparr>blocks := (blocks (inode_at c f))[isize (inode_at c f) := b],
      isize := isize (inode_at c f) + 1\<rparr>"
  defines "c' \<equiv> c(b := x, f := encode_inode i')"
  shows "inode_sized i'" "fs_wf c' free" "view c' = (view c)(p \<mapsto> File (owner_of c f) (map c (iblocks c f) @ [x]))"
    "all_paths_kept c c'"
proof -
  have f: "f \<in> inodes c" by (rule resolve_in_inodes [OF p])
  have bb: "b < FS_DISKSIZE" using wf_free_bound [OF wf] by simp
  have nfree: "y \<notin> set (b # free)" if "y \<in># usage c" for y by (rule wf_not_free [OF wf that])
  have bf: "b \<noteq> f" using nfree [OF in_usage [OF wf f, of f]] by auto
  have isz: "inode_sized (inode_at c f)" by (rule wf_inode_sized [OF wf f])
  then show i': "inode_sized i'" using bb room
    by (auto simp: inode_sized_def i'_def dest: set_update_subset_insert [THEN subsetD])
  have in_f: "inode_at c' f = i'" unfolding c'_def using i' by (simp add: inode_at_def)
  have ib: "iblocks c' f = iblocks c f @ [b]"
    using isz room by (simp add: iblocks_def in_f i'_def inode_sized_def take_Suc_conv_app_nth)
  have kf: "kind c' f = CHR ''f''" using k in_f by (simp add: kind_def i'_def)
  have len: "\<forall>b < FS_DISKSIZE. length (c' b) = FS_BLOCKSIZE"
    unfolding c'_def using wf_length [OF wf] x i' length_encode_inode by auto
  have oth: "same_inode c c' j" if "j \<in> inodes c" "j \<noteq> f" for j
    by (rule same_by_apart [OF wf f that(1)]) (use that(2) in \<open>auto simp: c'_def\<close>)
  have sz: "isize (inode_at c' f) \<le> FS_MAXFILEBLOCKS" using in_f room by (simp add: i'_def)
  have same: "c' y = c y" if "y \<in> set (iblocks c f)" for y
    using nfree [OF in_usage [OF wf f], of y] wf_own [OF wf f] that unfolding c'_def by auto
  have "c' b = x" unfolding c'_def using bf by simp
  moreover have "map c' (iblocks c f) = map c (iblocks c f)" using same by simp
  ultimately have n: "node_of c' f = File (owner_of c f) (map c (iblocks c f) @ [x])"
    using kf in_f by (simp add: node_of_def owner_of_def ib i'_def)
  have "fs_wf c' free \<and> view c' = (view c)(p \<mapsto> node_of c' f) \<and> all_paths_kept c c'"
    by (intro conjI; rule wf_file_changed [OF wf p k kf oth sz _ _ len, where extra = "{#b#}" and free' = free])
      (simp_all add: ib)
  then show "fs_wf c' free" "view c' = (view c)(p \<mapsto> File (owner_of c f) (map c (iblocks c f) @ [x]))" "all_paths_kept c c'"
    unfolding n by blast+
qed

text \<open>The data of a file after block \<open>k\<close> has been written.\<close>

definition put_block :: "nat \<Rightarrow> string \<Rightarrow> string list \<Rightarrow> string list" where
  "put_block k x ds = (if k = length ds then ds @ [x] else ds[k := x])"

lemma write_file_spec:
  assumes laws: "disk_laws io good" and wf: "fs_wf c (free @ others)" and st: "stands io good s c free rs"
    and p: "resolve c 0 p = Some f" and mem: "mem_ok mem"
  shows "\<exists>w s' c' free'. write_file io mem user k data f s = Some (w, s') \<and> stands io good s' c' free' rs \<and>
    fs_wf c' (free' @ others) \<and> all_paths_kept c c' \<and>
    (w \<longleftrightarrow> owner_of c f = user \<and> kind c f = CHR ''f'' \<and> k \<le> isize (inode_at c f) \<and>
       (k = isize (inode_at c f) \<longrightarrow> free \<noteq> [] \<and> k < FS_MAXFILEBLOCKS)) \<and>
    (if w then view c' = (view c)(p \<mapsto> File user (put_block k (block_at mem data) (map c (iblocks c f))))
     else c' = c \<and> free' = free)"
proof -
  have f: "f \<in> inodes c" by (rule resolve_in_inodes [OF p])
  have fb: "f < FS_DISKSIZE" by (rule wf_inode_bound [OF wf f])
  let ?s1 = "log_event (Read f) s" and ?i = "inode_at c f" and ?x = "block_at mem data"
  have rd: "read_block io f s = Some (c f, ?s1)" by (rule read_stands [OF laws st fb])
  have li: "length (iblocks c f) = isize ?i" by (rule wf_length_iblocks [OF wf f])
  have x: "length ?x = FS_BLOCKSIZE" by (rule block_at_length [OF mem])
  have ff: "free_blocks (lock_free ?s1) = free" using st by (simp add: stands_def lock_free_def log_event_def)
  show ?thesis
  proof (cases "owner_of c f = user \<and> kind c f = CHR ''f'' \<and> k \<le> isize ?i")
    case False
    then have "write_file io mem user k data f s = Some (False, ?s1)"
      using rd by (auto simp: write_file_def inode_at_def owner_of_def kind_def)
    with False st wf show ?thesis by (intro exI [of _ False] exI [of _ ?s1] exI [of _ c] exI [of _ free]) auto
  next
    case ok: True
    show ?thesis
    proof (cases "k = isize ?i")
      case k: True
      show ?thesis
      proof (cases "free = [] \<or> isize ?i = FS_MAXFILEBLOCKS")
        case True
        let ?t = "unlock_free (lock_free ?s1)"
        have "write_file io mem user k data f s = Some (False, ?t)"
          using rd ok k True ff by (auto simp: write_file_def inode_at_def owner_of_def kind_def)
        with True st wf k show ?thesis
          by (intro exI [of _ False] exI [of _ ?t] exI [of _ c] exI [of _ free]) auto
      next
        case False
        then obtain b free1 where fr: "free = b # free1" by (cases free) auto
        have lt: "isize ?i < FS_MAXFILEBLOCKS" using False wf_isize [OF wf f] by auto
        have bb: "b < FS_DISKSIZE" using wf_free_bound [OF wf] fr by simp
        let ?i' = "?i\<lparr>blocks := (blocks ?i)[isize ?i := b], isize := isize ?i + 1\<rparr>"
        let ?t = "unlock_free (pop_free (lock_free ?s1))"
        note ex = extend_file [OF wf [unfolded fr append_Cons] p _ lt x]
        have kf: "kind c f = CHR ''f''" using ok by simp
        have t: "stands io good ?t c free1 rs"
          using pop_stands [of io good "lock_free ?s1" c free rs] st fr by simp
        obtain s4 where s4: "write_block io b ?x ?t = Some s4" "stands io good s4 (c(b := ?x)) free1 rs"
          using write_stands [OF laws t bb x] by blast
        obtain s5 where s5: "write_block io f (encode_inode ?i') s4 = Some s5"
          "stands io good s5 (c(b := ?x, f := encode_inode ?i')) free1 rs"
          using write_stands [OF laws s4(2) fb length_encode_inode [OF ex(1) [OF kf]]] by blast
        have lb: "isize ?i < length (blocks ?i)" using lt wf_inode_sized [OF wf f] by (simp add: inode_sized_def)
        have "write_file io mem user k data f s = Some (True, s5)"
          using rd ok k False ff s4(1) s5(1) fr lb
          by (auto simp: write_file_def inode_at_def owner_of_def kind_def Let_def)
        moreover have "put_block k ?x (map c (iblocks c f)) = map c (iblocks c f) @ [?x]"
          using k li by (simp add: put_block_def)
        ultimately show ?thesis using s5(2) ex(2-4) [OF kf] ok lt k fr
          by (intro exI [of _ True] exI [of _ s5] exI [of _ "c(b := ?x, f := encode_inode ?i')"] exI [of _ free1]) auto
      qed
    next
      case False
      then have kl: "k < length (iblocks c f)" using ok li by simp
      have bk: "blocks ?i ! k = iblocks c f ! k" using kl li by (simp add: iblocks_def)
      have b: "iblocks c f ! k < FS_DISKSIZE" using kl by (intro wf_block_bound [OF wf f]) simp
      have "stands io good ?s1 c free rs" using st by simp
      from write_stands [OF laws this b x] obtain s2 where
        s2: "write_block io (iblocks c f ! k) ?x ?s1 = Some s2" "stands io good s2 (c(iblocks c f ! k := ?x)) free rs"
        by blast
      have "write_file io mem user k data f s = Some (True, s2)"
        using rd ok False s2(1) bk by (auto simp: write_file_def inode_at_def owner_of_def kind_def)
      moreover have "put_block k ?x (map c (iblocks c f)) = (map c (iblocks c f))[k := ?x]"
        using kl by (simp add: put_block_def)
      ultimately show ?thesis using s2(2) overwrite_block [OF wf p _ kl x] ok False
        by (intro exI [of _ True] exI [of _ s2] exI [of _ "c(iblocks c f ! k := ?x)"] exI [of _ free]) auto
    qed
  qed
qed

end
