(* ===== verification/FS_Refine.thy ===== *)
theory FS_Refine imports FS_File begin

text \<open>
  The handlers refine an abstract file system: a map from paths to files and directories, changed at
  one path by a request that is allowed and left alone by any other. On a well-formed disk no handler
  brings the server down, whatever the request.
\<close>

section \<open>The abstract file system\<close>

type_synonym fsmap = "string list \<Rightarrow> node option"

text \<open>
  A user gets to a path when every directory on the way, the root apart, is his; he may change a
  directory that is his or that nobody owns.
\<close>

definition passable :: "fsmap \<Rightarrow> string \<Rightarrow> string list \<Rightarrow> bool" where
  "passable V u p \<longleftrightarrow> (\<forall>q r. p = q @ r \<longrightarrow> q \<noteq> [] \<longrightarrow> r \<noteq> [] \<longrightarrow> V q = Some (Directory u))"

definition changeable :: "fsmap \<Rightarrow> string \<Rightarrow> string list \<Rightarrow> bool" where
  "changeable V u p \<longleftrightarrow> passable V u p \<and> V p \<in> {Some (Directory u), Some (Directory [])}"

lemma passable_at: "passable V u (q @ r) \<Longrightarrow> q \<noteq> [] \<Longrightarrow> r \<noteq> [] \<Longrightarrow> V q = Some (Directory u)"
  by (auto simp: passable_def)

lemma passable_snoc:
  assumes "passable V u p" "p \<noteq> [] \<Longrightarrow> V p = Some (Directory u)"
  shows "passable V u (p @ [n])"
  unfolding passable_def
proof (intro allI impI)
  fix q r
  assume s: "p @ [n] = q @ r" "q \<noteq> []" "r \<noteq> []"
  then obtain r' where "p = q @ r'" by (cases r rule: rev_cases) auto
  with assms s(2) show "V q = Some (Directory u)" by (cases "r' = []") (auto dest: passable_at)
qed

lemma node_directory: "node_of c i = Directory u \<longleftrightarrow> kind c i = CHR ''d'' \<and> owner_of c i = u"
  by (auto simp: node_of_def)

lemma walk_passable:
  "resolve c 0 p = Some i \<Longrightarrow> passable (view c) u p \<Longrightarrow> (p \<noteq> [] \<Longrightarrow> names \<noteq> [] \<Longrightarrow> view c p = Some (Directory u)) \<Longrightarrow>
   walk c u i names = (if passable (view c) u (p @ names) then resolve c 0 (p @ names) else None)"
proof (induction names arbitrary: p i)
  case (Cons n names)
  show ?case
  proof (cases "map_of (links c i) n")
    case None
    then show ?thesis using Cons.prems(1) by (simp add: resolve_append)
  next
    case (Some j)
    have r: "resolve c 0 (p @ [n]) = Some j" using Cons.prems(1) Some by (simp add: resolve_snoc)
    have pn: "passable (view c) u (p @ [n])"
      by (rule passable_snoc [OF Cons.prems(2)]) (use Cons.prems(3) in simp)
    show ?thesis
    proof (cases "names = []")
      case True
      with Some r pn show ?thesis by simp
    next
      case False
      have v: "view c (p @ [n]) = Some (Directory u) \<longleftrightarrow> owner_of c j = u \<and> kind c j = CHR ''d''"
        using r by (auto simp: view_def node_directory)
      show ?thesis
      proof (cases "owner_of c j = u \<and> kind c j = CHR ''d''")
        case True
        with v have "view c (p @ [n]) = Some (Directory u)" by simp
        with Cons.IH [OF r pn] Some True False show ?thesis by simp
      next
        case no: False
        then have "\<not> passable (view c) u ((p @ [n]) @ names)"
          using passable_at [of "view c" u "p @ [n]" names] False v by blast
        with no Some False show ?thesis by auto
      qed
    qed
  qed
qed simp

lemma walk_view:
  "walk c u 0 names = (if passable (view c) u names then resolve c 0 names else None)"
proof -
  have "passable (view c) u []" by (simp add: passable_def)
  then show ?thesis using walk_passable [of c "[]" 0 u names] by simp
qed

lemma may_change_view:
  assumes "resolve c 0 p = Some i"
  shows "may_change u (inode_at c i) \<longleftrightarrow> view c p \<in> {Some (Directory u), Some (Directory [])}"
  using assms by (auto simp: may_change_iff view_def node_directory)

lemma absent_view:
  assumes "resolve c 0 p = Some i"
  shows "map_of (links c i) n = None \<longleftrightarrow> view c (p @ [n]) = None"
  using assms by (simp add: view_def resolve_snoc)

section \<open>FS_CREATE\<close>

lemma unlocked_stands:
  "b < FS_DISKSIZE \<Longrightarrow> stands io good s c free rs \<Longrightarrow> \<exists>s'. on_lock e b s = Some s' \<and> stands io good s' c free rs"
  by (simp add: lock_stands)

lemma parsed_names_ok:
  assumes "pathname \<noteq> []" "path_parser pathname = Some names" "nul \<notin> set pathname"
  shows "names \<noteq> []" "butlast names @ [last names] = names" "name_ok (last names)"
proof -
  have n: "names \<noteq> [] \<and> (\<forall>n \<in> set names. valid_name n) \<and> pathname = show_path names"
    using path_parser_iff [OF assms(1), of names] assms(2) by simp
  then show "names \<noteq> []" "butlast names @ [last names] = names" by auto
  have "set (last names) \<subseteq> set (show_path names)" if "names \<noteq> []" using that by (induction names) auto
  with n assms(3) show "name_ok (last names)" by (auto simp: name_ok_def valid_name_def)
qed

text \<open>What a creation may do to the map \<open>V\<close>: the responses it sends tell which of the two it was.\<close>

definition create_result :: "fsmap \<Rightarrow> string \<Rightarrow> string \<Rightarrow> string \<Rightarrow> string list \<Rightarrow> fsmap \<Rightarrow> bool" where
  "create_result V u pathname type ms V' \<longleftrightarrow>
     ms = [] \<and> V' = V \<or>
     (\<exists>names. path_parser pathname = Some names \<and> type \<in> {''f'', ''d''} \<and> changeable V u (butlast names) \<and>
        V names = None \<and> V' = V(names \<mapsto> new_node type u) \<and>
        ms = [''FS_CREATE '' @ u @ '' '' @ pathname @ '' '' @ type @ [nul]])"

lemma handle_create_refines:
  assumes laws: "disk_laws io good" and wf: "fs_wf c free" and st: "stands io good s c free rs"
    and mem: "mem_ok mem" and u: "user_ok u" and pn: "pathname \<noteq> []" "nul \<notin> set pathname"
  shows "\<exists>s' c' free' ms. handle_create io mem req u pathname s = Some s' \<and> stands io good s' c' free' (rs @ ms) \<and>
    fs_wf c' free' \<and> (case next_word req of None \<Rightarrow> ms = [] \<and> view c' = view c
      | Some (type, _) \<Rightarrow> create_result (view c) u pathname type ms (view c') \<and>
          (\<forall>names dir. type \<in> {''f'', ''d''} \<and> path_parser pathname = Some names \<and> changeable (view c) u (butlast names) \<and>
             view c names = None \<and> 2 \<le> length free \<and> resolve c 0 (butlast names) = Some dir \<and>
             isize (inode_at c dir) < FS_MAXFILEBLOCKS \<longrightarrow> ms \<noteq> []))"
proof -
  have same: ?thesis if "handle_create io mem req u pathname s = Some s'" "stands io good s' c free' rs" "fs_wf c free'"
    "\<And>type r names. next_word req = Some (type, r) \<Longrightarrow> type \<in> {''f'', ''d''} \<Longrightarrow> path_parser pathname = Some names \<Longrightarrow>
       changeable (view c) u (butlast names) \<Longrightarrow> view c names = None \<Longrightarrow> 2 \<le> length free \<Longrightarrow>
       (\<exists>dir. resolve c 0 (butlast names) = Some dir \<and> isize (inode_at c dir) < FS_MAXFILEBLOCKS) \<Longrightarrow> False" for s' free'
    using that by (intro exI [of _ s'] exI [of _ c] exI [of _ free'] exI [of _ "[]"])
      (auto simp: create_result_def split: option.splits prod.splits)
  show ?thesis
  proof (cases "next_word req")
    case None
    then have "handle_create io mem req u pathname s = Some s" by (simp add: handle_create_def)
    from same [OF this st wf] None show ?thesis by simp
  next
    case (Some wd)
    obtain type r where wd: "wd = (type, r)" by (cases wd)
    show ?thesis
    proof (cases "type \<in> {''f'', ''d''}")
      case False
      then have "handle_create io mem req u pathname s = Some s" using Some wd by (auto simp: handle_create_def)
      then show ?thesis by (rule same [OF _ st wf]) (use Some wd False in simp)
    next
      case type: True
      then have tno: "(type \<noteq> ''f'' \<and> type \<noteq> ''d'') = False" by blast
      show ?thesis
      proof (cases "path_parser pathname")
        case None
        then have "handle_create io mem req u pathname s = Some s" using Some wd by (auto simp: handle_create_def)
        from same [OF this st wf] None show ?thesis by simp
      next
        case names: (Some names)
        note nm = parsed_names_ok [OF pn(1) names pn(2)]
        have f0: "free_blocks (lock_free s) = free" using st by (simp add: stands_def lock_free_def log_event_def)
        show ?thesis
        proof (cases free)
          case Nil
          then have "handle_create io mem req u pathname s = Some (unlock_free (lock_free s))"
            using Some wd names type f0 by (auto simp: handle_create_def Let_def)
          moreover have "stands io good (unlock_free (lock_free s)) c free rs" using st by simp
          ultimately show ?thesis using wf Nil by (intro same [of "unlock_free (lock_free s)" free]) auto
        next
          case (Cons new free1)
          let ?s = "unlock_free (pop_free (lock_free s))"
          have s1: "stands io good ?s c free1 rs"
            using pop_stands [of io good "lock_free s" c free rs] st Cons by simp
          obtain t s2 where tr: "traverse_dir io u (butlast names) ?s = Some (t, s2)" "stands io good s2 c free1 rs"
            "parent_inode_block t < FS_DISKSIZE"
            "walk c u 0 (butlast names) = (if valid t then Some (t_inode_block t) else None)"
            using traverse_dir_walk [OF laws wf s1] by blast
          have step: "handle_create io mem req u pathname s =
            (if \<not> valid t then do {
               s \<leftarrow> unlock_shared (parent_inode_block t) s2;
               Some (return_empty_block new s) }
             else do {
               s \<leftarrow> move_lock Lock t s2;
               (made, s) \<leftarrow> create_in_dir io mem type u (last names) new (t_inode_block t) s;
               s \<leftarrow> unlock_exclusive (t_inode_block t) s;
               Some (if made then reply (''FS_CREATE '' @ u @ '' '' @ pathname @ '' '' @ type @ [nul]) s else s) })"
            unfolding handle_create_def Some wd names option.case prod.case tno if_False
            using f0 Cons tr(1) by (simp add: Let_def del: append.simps)
          show ?thesis
          proof (cases "valid t")
            case False
            then have "handle_create io mem req u pathname s =
                Some (return_empty_block new (log_event (Unlock_shared (parent_inode_block t)) s2))"
              using step lock_stands [OF tr(3), of Unlock_shared s2] by simp
            moreover have "stands io good (return_empty_block new (log_event (Unlock_shared (parent_inode_block t)) s2)) c (free1 @ [new]) rs"
              using return_stands [of io good "log_event (Unlock_shared (parent_inode_block t)) s2" c free1 rs new] tr(2)
              by (simp add: qpush_def)
            moreover have "fs_wf c (free1 @ [new])" by (rule wf_free_perm [OF wf]) (simp add: Cons)
            moreover have "\<not> (passable (view c) u (butlast names) \<and> resolve c 0 (butlast names) = Some dir)" for dir
              using tr(4) False by (auto simp: walk_view split: if_splits)
            ultimately show ?thesis using names
              by (intro same [of "return_empty_block new (log_event (Unlock_shared (parent_inode_block t)) s2)" "free1 @ [new]"])
                (auto simp: changeable_def)
          next
            case True
            let ?dir = "t_inode_block t"
            have res: "resolve c 0 (butlast names) = Some ?dir" and ps: "passable (view c) u (butlast names)"
              using tr(4) True by (auto simp: walk_view split: if_splits)
            have db: "?dir < FS_DISKSIZE" by (rule wf_inode_bound [OF wf resolve_in_inodes [OF res]])
            obtain s3 where s3: "move_lock Lock t s2 = Some s3" "stands io good s3 c free1 rs"
              using move_lock_stands [OF tr(2) db tr(3)] by blast
            obtain made s4 c' free' where cr: "create_in_dir io mem type u (last names) new ?dir s3 = Some (made, s4)"
              "stands io good s4 c' free' rs"
              and res2: "if made then fs_wf c' free' \<and> view c' = (view c)(butlast names @ [last names] \<mapsto> new_node type u) \<and>
                  paths_kept (butlast names @ [last names]) c c' \<and>
                  may_change u (inode_at c ?dir) \<and> map_of (links c ?dir) (last names) = None
                else c' = c \<and> mset free' = add_mset new (mset free1)"
              and res3: "may_change u (inode_at c ?dir) \<and> map_of (links c ?dir) (last names) = None \<and> free1 \<noteq> [] \<and>
                isize (inode_at c ?dir) < FS_MAXFILEBLOCKS \<longrightarrow> made"
              using create_in_dir_spec [where others = "[]", unfolded append_Nil2, OF laws wf [unfolded Cons] s3(2) res mem u type nm(3)] by blast
            let ?m = "''FS_CREATE '' @ u @ '' '' @ pathname @ '' '' @ type @ [nul]"
            let ?s5 = "log_event (Unlock ?dir) s4"
            have h: "handle_create io mem req u pathname s = Some (if made then reply ?m ?s5 else ?s5)"
              using step True s3(1) cr(1) lock_stands [OF db, of Unlock s4] by (simp del: append.simps)
            have mc: "may_change u (inode_at c ?dir) \<longleftrightarrow> view c (butlast names) \<in> {Some (Directory u), Some (Directory [])}"
              by (rule may_change_view [OF res])
            have ab: "map_of (links c ?dir) (last names) = None \<longleftrightarrow> view c names = None"
              using absent_view [OF res, of "last names"] nm(2) by simp
            show ?thesis
            proof (cases made)
              case m: True
              have "stands io good (reply ?m ?s5) c' free' (rs @ [?m])" using cr(2) by (intro reply_stands) simp
              moreover have "create_result (view c) u pathname type [?m] (view c')"
                unfolding create_result_def using res2 m names type ps mc ab nm(2) by (auto simp: changeable_def)
              ultimately show ?thesis using h m res2 Some wd
                by (intro exI [of _ "reply ?m ?s5"] exI [of _ c'] exI [of _ free'] exI [of _ "[?m]"]) (simp del: append.simps)
            next
              case m: False
              have "free1 \<noteq> []" if "2 \<le> length free" using that Cons by auto
              moreover have "fs_wf c free'" by (rule wf_free_perm [OF wf]) (use m res2 Cons in simp)
              ultimately show ?thesis using h m res2 res3 cr(2) mc ab names res
                by (intro same [of ?s5 free']) (auto simp: changeable_def)
            qed
          qed
        qed
      qed
    qed
  qed
qed

section \<open>FS_DELETE\<close>

lemma reach:
  assumes laws: "disk_laws io good" and wf: "fs_wf c free" and st: "stands io good s c free' rs"
  obtains (blocked) t s2 s3 where "traverse_dir io u names s = Some (t, s2)" "\<not> valid t"
      "unlock_shared (parent_inode_block t) s2 = Some s3" "stands io good s3 c free' rs"
      "\<not> (passable (view c) u names \<and> view c names \<noteq> None)"
  | (reached) t s2 s3 where "traverse_dir io u names s = Some (t, s2)" "valid t" "move_lock e t s2 = Some s3"
      "stands io good s3 c free' rs" "resolve c 0 names = Some (t_inode_block t)" "passable (view c) u names"
      "t_inode_block t < FS_DISKSIZE"
proof -
  obtain t s2 where tr: "traverse_dir io u names s = Some (t, s2)" "stands io good s2 c free' rs"
    "parent_inode_block t < FS_DISKSIZE" "walk c u 0 names = (if valid t then Some (t_inode_block t) else None)"
    using traverse_dir_walk [OF laws wf st] by blast
  show ?thesis
  proof (cases "valid t")
    case False
    have "stands io good (log_event (Unlock_shared (parent_inode_block t)) s2) c free' rs" using tr(2) by simp
    moreover have "\<not> (passable (view c) u names \<and> view c names \<noteq> None)"
      using tr(4) False by (auto simp: walk_view view_def split: if_splits)
    ultimately show ?thesis using blocked [OF tr(1) False lock_stands [OF tr(3)]] by blast
  next
    case True
    have r: "resolve c 0 names = Some (t_inode_block t)" "passable (view c) u names"
      using tr(4) True by (auto simp: walk_view split: if_splits)
    have b: "t_inode_block t < FS_DISKSIZE" by (rule wf_inode_bound [OF wf resolve_in_inodes [OF r(1)]])
    obtain s3 where "move_lock e t s2 = Some s3" "stands io good s3 c free' rs"
      using move_lock_stands [OF tr(2) b tr(3)] by blast
    with reached [OF tr(1) True] r b show ?thesis by blast
  qed
qed

text \<open>Only a file or an empty directory of the user himself, in a directory he may change, is deleted.\<close>

fun owner_is :: "string \<Rightarrow> node \<Rightarrow> bool" where
  "owner_is u (File v ds) \<longleftrightarrow> u = v"
| "owner_is u (Directory v) \<longleftrightarrow> u = v"

lemma owner_is_node: "owner_is u (node_of c i) \<longleftrightarrow> owner_of c i = u"
  by (auto simp: node_of_def)

definition delete_result :: "fsmap \<Rightarrow> string \<Rightarrow> string \<Rightarrow> string list \<Rightarrow> fsmap \<Rightarrow> bool" where
  "delete_result V u pathname ms V' \<longleftrightarrow>
     ms = [] \<and> V' = V \<or>
     (\<exists>names n. path_parser pathname = Some names \<and> changeable V u (butlast names) \<and>
        V names = Some n \<and> owner_is u n \<and> (\<forall>x. V (names @ [x]) = None) \<and> V' = V(names := None) \<and>
        ms = [''FS_DELETE '' @ u @ '' '' @ pathname @ [nul]])"

lemma leaf_deletable:
  assumes wf: "fs_wf c free" and r: "resolve c 0 p = Some i" and "owner_is u (node_of c i)" "\<forall>x. view c (p @ [x]) = None"
  shows "deletable c u i"
proof -
  have "map_of (links c i) x = None" for x using assms(4) r by (auto simp: view_def resolve_snoc)
  then have l: "links c i = []" by (metis list.set_intros(1) map_of_eq_None_iff image_eqI neq_Nil_conv)
  have "isize (inode_at c i) = 0" if k: "kind c i = CHR ''d''"
  proof -
    have "iblocks c i = []"
      using wf_packed [OF wf resolve_in_inodes [OF r]] l k
      by (cases "iblocks c i") (auto simp: packed_def links_def)
    then show ?thesis using wf_length_iblocks [OF wf resolve_in_inodes [OF r]] by simp
  qed
  then show ?thesis using assms(3) by (auto simp: deletable_def owner_is_node)
qed

lemma handle_delete_refines:
  assumes laws: "disk_laws io good" and wf: "fs_wf c free" and st: "stands io good s c free rs"
    and mem: "mem_ok mem" and pn: "pathname \<noteq> []" "nul \<notin> set pathname"
  shows "\<exists>s' c' free' ms. handle_delete io mem u pathname s = Some s' \<and> stands io good s' c' free' (rs @ ms) \<and>
    fs_wf c' free' \<and> delete_result (view c) u pathname ms (view c') \<and>
    (\<forall>names n. path_parser pathname = Some names \<and> changeable (view c) u (butlast names) \<and>
       view c names = Some n \<and> owner_is u n \<and> (\<forall>x. view c (names @ [x]) = None) \<longrightarrow> ms \<noteq> [])"
proof -
  have same: ?thesis if "handle_delete io mem u pathname s = Some s'" "stands io good s' c free rs"
    "\<And>names n. path_parser pathname = Some names \<Longrightarrow> changeable (view c) u (butlast names) \<Longrightarrow>
       view c names = Some n \<Longrightarrow> owner_is u n \<Longrightarrow> \<forall>x. view c (names @ [x]) = None \<Longrightarrow> False" for s'
  proof -
    have "\<forall>names n. path_parser pathname = Some names \<and> changeable (view c) u (butlast names) \<and>
       view c names = Some n \<and> owner_is u n \<and> (\<forall>x. view c (names @ [x]) = None) \<longrightarrow> ([] :: string list) \<noteq> []"
      using that(3) by blast
    with that(1,2) wf show ?thesis
      by (intro exI [of _ s'] exI [of _ c] exI [of _ free] exI [of _ "[]"]) (simp add: delete_result_def)
  qed
  show ?thesis
  proof (cases "path_parser pathname")
    case None
    then have "handle_delete io mem u pathname s = Some s" by (simp add: handle_delete_def)
    then show ?thesis by (rule same [OF _ st]) (use None in simp)
  next
    case names: (Some names)
    note nm = parsed_names_ok [OF pn(1) names pn(2)]
    from laws wf st show ?thesis
    proof (cases rule: reach [where u = u and names = "butlast names" and e = Lock])
      case (blocked t s2 s3)
      then have "handle_delete io mem u pathname s = Some s3" by (simp add: handle_delete_def names)
      then show ?thesis by (rule same [OF _ blocked(4)]) (use names blocked(5) in \<open>auto simp: changeable_def\<close>)
    next
      case (reached t s2 s3)
      let ?dir = "t_inode_block t" and ?m = "''FS_DELETE '' @ u @ '' '' @ pathname @ [nul]"
      obtain d s4 c' free1 where dl: "delete_in_dir io mem u (last names) ?dir s3 = Some (d, s4)"
        "stands io good s4 c' free1 rs"
        and res: "case d of None \<Rightarrow> c' = c \<and> free1 = free
          | Some (i, old) \<Rightarrow> may_change u (inode_at c ?dir) \<and> map_of (links c ?dir) (last names) = Some old \<and>
             i = inode_at c old \<and> deletable c u old \<and> fs_wf c' (free1 @ iblocks c old @ [old]) \<and>
             view c' = (view c)(butlast names @ [last names] := None) \<and> paths_kept (butlast names @ [last names]) c c'"
        and all: "\<forall>old. may_change u (inode_at c ?dir) \<and> map_of (links c ?dir) (last names) = Some old \<and>
          deletable c u old \<longrightarrow> d \<noteq> None"
        using delete_in_dir_spec [where others = "[]", unfolded append_Nil2, OF laws wf reached(4,5) mem, of u "last names"]
        by (elim exE conjE) (rule that)
      have un: "unlock_exclusive ?dir s4 = Some (log_event (Unlock ?dir) s4)" by (rule lock_stands [OF reached(7)])
      have mc: "may_change u (inode_at c ?dir) \<longleftrightarrow> changeable (view c) u (butlast names)"
        using may_change_view [OF reached(5)] reached(6) by (simp add: changeable_def)
      have rn: "resolve c 0 names = map_of (links c ?dir) (last names)"
        using resolve_snoc [of c 0 "butlast names" "last names"] reached(5) nm(2) by simp
      show ?thesis
      proof (cases d)
        case None
        have h: "handle_delete io mem u pathname s = Some (log_event (Unlock ?dir) s4)"
          using reached(1-3) dl(1) un None by (simp add: handle_delete_def names)
        have no: False if "changeable (view c) u (butlast names)" "view c names = Some n" "owner_is u n"
          "\<forall>x. view c (names @ [x]) = None" for n
        proof -
          from that(2) obtain old where old: "resolve c 0 names = Some old" "node_of c old = n" by (auto simp: view_def)
          then have "deletable c u old" using leaf_deletable [OF wf old(1)] that(3,4) by simp
          moreover have "map_of (links c ?dir) (last names) = Some old" using rn old(1) by simp
          ultimately show False using all that(1) mc None by blast
        qed
        show ?thesis by (rule same [OF h]) (use dl(2) res None names no in auto)
      next
        case (Some gone)
        then obtain i old where d: "d = Some (i, old)" by (cases gone) auto
        have r: "map_of (links c ?dir) (last names) = Some old" "deletable c u old" "i = inode_at c old"
          "fs_wf c' (free1 @ iblocks c old @ [old])" "view c' = (view c)(names := None)"
          "changeable (view c) u (butlast names)"
          using res d mc nm(2) by auto
        have old: "resolve c 0 names = Some old" using rn r(1) by simp
        have st1: "stands io good (lock_free (log_event (Unlock ?dir) s4)) c' free1 rs" using dl(2) by simp
        obtain s5 where s5: "push_all (block_list i) (lock_free (log_event (Unlock ?dir) s4)) = Some s5"
          "stands io good s5 c' (free1 @ iblocks c old) rs"
          using push_all_spec [OF st1] wf_block_list [OF wf resolve_in_inodes [OF old]] r(3) by metis
        let ?s6 = "reply ?m (unlock_free (push_free old s5))"
        have "handle_delete io mem u pathname s = Some ?s6"
          using reached(1-3) dl(1) un d s5(1) by (simp add: handle_delete_def names del: append.simps)
        moreover have "stands io good ?s6 c' (free1 @ iblocks c old @ [old]) (rs @ [?m])"
          using push_stands [OF s5(2), of old] by (intro reply_stands) (simp add: qpush_def)
        moreover have "delete_result (view c) u pathname [?m] (view c')"
        proof -
          have "view c (names @ [x]) = None" for x
            by (simp add: view_def resolve_append old deletable_leaf [OF r(2)])
          moreover have "owner_is u (node_of c old)" using r(2) by (simp add: owner_is_node deletable_def)
          ultimately show ?thesis unfolding delete_result_def using names r(5,6) old
            by (intro disjI2 exI [of _ names] exI [of _ "node_of c old"]) (simp add: view_def)
        qed
        ultimately show ?thesis using r(4)
          by (intro exI [of _ ?s6] exI [of _ c'] exI [of _ "free1 @ iblocks c old @ [old]"] exI [of _ "[?m]"]) simp
      qed
    qed
  qed
qed

section \<open>FS_READBLOCK\<close>

text \<open>The block number of a request, when it has one that a file may have.\<close>

definition block_number :: "string \<Rightarrow> (string \<times> nat) option" where
  "block_number req = (case next_word req of None \<Rightarrow> None
     | Some (w, _) \<Rightarrow> if isblock w \<and> digits_val w < FS_MAXFILEBLOCKS then Some (w, digits_val w) else None)"

lemma node_file:
  assumes wf: "fs_wf c free" and r: "resolve c 0 p = Some f"
  shows "view c p = Some (File u ds) \<longleftrightarrow> owner_of c f = u \<and> kind c f = CHR ''f'' \<and> ds = map c (iblocks c f)"
  using wf_kind [OF wf resolve_in_inodes [OF r]] r by (auto simp: view_def node_of_def)

definition read_result :: "fsmap \<Rightarrow> string \<Rightarrow> string \<Rightarrow> string \<Rightarrow> string list" where
  "read_result V u pathname req = (case (block_number req, path_parser pathname) of
       (Some (w, k), Some names) \<Rightarrow> (if passable V u names then
         (case V names of Some (File v ds) \<Rightarrow>
             (if v = u \<and> k < length ds
              then [''FS_READBLOCK '' @ u @ '' '' @ pathname @ '' '' @ w @ [nul] @ ds ! k] else [])
           | _ \<Rightarrow> []) else [])
     | _ \<Rightarrow> [])"

lemma handle_readblock_refines:
  assumes laws: "disk_laws io good" and wf: "fs_wf c free" and st: "stands io good s c free rs"
  shows "\<exists>s'. handle_readblock io req u pathname s = Some s' \<and>
    stands io good s' c free (rs @ read_result (view c) u pathname req)"
proof (cases "block_number req")
  case None
  then have "handle_readblock io req u pathname s = Some s"
    by (auto simp: handle_readblock_def block_number_def Let_def split: option.splits if_splits)
  with None st show ?thesis by (simp add: read_result_def)
next
  case (Some wk)
  obtain w k where wk: "wk = (w, k)" by (cases wk)
  with Some obtain r where w: "next_word req = Some (w, r)" "isblock w" "k = digits_val w" "k < FS_MAXFILEBLOCKS"
    by (auto simp: block_number_def split: option.splits if_splits)
  show ?thesis
  proof (cases "path_parser pathname")
    case None
    with w have "handle_readblock io req u pathname s = Some s" by (simp add: handle_readblock_def)
    with None st show ?thesis by (simp add: read_result_def split: option.split)
  next
    case names: (Some names)
    from laws wf st show ?thesis
    proof (cases rule: reach [where u = u and names = names and e = Lock_shared])
      case (blocked t s2 s3)
      then have "handle_readblock io req u pathname s = Some s3" using w by (simp add: handle_readblock_def names)
      moreover have "read_result (view c) u pathname req = []"
        using blocked(5) by (auto simp: read_result_def names Some wk)
      ultimately show ?thesis using blocked(4) by simp
    next
      case (reached t s2 s3)
      let ?f = "t_inode_block t"
      let ?ok = "owner_of c ?f = u \<and> kind c ?f = CHR ''f'' \<and> k < isize (inode_at c ?f)"
      have f: "?f \<in> inodes c" by (rule resolve_in_inodes [OF reached(5)])
      obtain s4 where rd: "read_file io u k ?f s3 = Some (if ?ok then Some (c (iblocks c ?f ! k)) else None, s4)"
        "stands io good s4 c free rs" using read_file_spec [OF laws wf reached(4) f] by blast
      have len: "length (iblocks c ?f) = isize (inode_at c ?f)" by (rule wf_length_iblocks [OF wf f])
      have res: "read_result (view c) u pathname req = (if ?ok then
          [''FS_READBLOCK '' @ u @ '' '' @ pathname @ '' '' @ w @ [nul] @ c (iblocks c ?f ! k)] else [])"
        using reached(5,6) wf_kind [OF wf f] len
        by (auto simp: read_result_def names Some wk view_def node_of_def simp del: append.simps)
      show ?thesis
      proof (cases ?ok)
        case True
        with res reply_stands [of io good "log_event (Unlock_shared ?f) s4" c free rs] rd reached(1-3) w
          lock_stands [OF reached(7), of Unlock_shared s4] show ?thesis
          by (simp add: handle_readblock_def names del: append.simps)
      next
        case False
        with res rd reached(1-3) w lock_stands [OF reached(7), of Unlock_shared s4] show ?thesis
          by (auto simp: handle_readblock_def names)
      qed
    qed
  qed
qed

section \<open>FS_WRITEBLOCK\<close>

definition write_result :: "fsmap \<Rightarrow> string \<Rightarrow> string \<Rightarrow> string \<Rightarrow> string \<Rightarrow> string list \<Rightarrow> fsmap \<Rightarrow> bool" where
  "write_result V u pathname req x ms V' \<longleftrightarrow>
     ms = [] \<and> V' = V \<or>
     (\<exists>w k names ds. block_number req = Some (w, k) \<and> path_parser pathname = Some names \<and> passable V u names \<and>
        V names = Some (File u ds) \<and> k \<le> length ds \<and> V' = V(names \<mapsto> File u (put_block k x ds)) \<and>
        ms = [''FS_WRITEBLOCK '' @ u @ '' '' @ pathname @ '' '' @ w @ [nul]])"

lemma handle_writeblock_refines:
  assumes laws: "disk_laws io good" and wf: "fs_wf c free" and st: "stands io good s c free rs"
    and mem: "mem_ok mem" and data: "block_number req \<noteq> None \<Longrightarrow> recv_data [] 0 sock = Some data"
  shows "\<exists>s' c' free' ms. handle_writeblock io mem req u pathname sock s = Some s' \<and>
    stands io good s' c' free' (rs @ ms) \<and> fs_wf c' free' \<and>
    write_result (view c) u pathname req (block_at mem data) ms (view c') \<and>
    (\<forall>w k names ds. block_number req = Some (w, k) \<and> path_parser pathname = Some names \<and> passable (view c) u names \<and>
       view c names = Some (File u ds) \<and> (k < length ds \<or> k = length ds \<and> free \<noteq> []) \<longrightarrow> ms \<noteq> [])"
proof -
  have same: ?thesis if "handle_writeblock io mem req u pathname sock s = Some s'" "stands io good s' c free rs"
    "\<And>w k names ds. block_number req = Some (w, k) \<Longrightarrow> path_parser pathname = Some names \<Longrightarrow> passable (view c) u names \<Longrightarrow>
       view c names = Some (File u ds) \<Longrightarrow> k < length ds \<or> k = length ds \<and> free \<noteq> [] \<Longrightarrow> False" for s'
    using that wf by (intro exI [of _ s'] exI [of _ c] exI [of _ free] exI [of _ "[]"]) (auto simp: write_result_def)
  show ?thesis
  proof (cases "block_number req")
    case None
    then have "handle_writeblock io mem req u pathname sock s = Some s"
      by (auto simp: handle_writeblock_def block_number_def Let_def split: option.splits if_splits)
    then show ?thesis by (rule same [OF _ st]) (use None in simp)
  next
    case (Some wk)
    obtain w k where wk: "wk = (w, k)" by (cases wk)
    with Some obtain r where w: "next_word req = Some (w, r)" "isblock w" "k = digits_val w" "k < FS_MAXFILEBLOCKS"
      by (auto simp: block_number_def split: option.splits if_splits)
    have d: "recv_data [] 0 sock = Some data" using data Some by simp
    show ?thesis
    proof (cases "path_parser pathname")
      case None
      with w d have "handle_writeblock io mem req u pathname sock s = Some s" by (simp add: handle_writeblock_def)
      then show ?thesis by (rule same [OF _ st]) (use None in simp)
    next
      case names: (Some names)
      from laws wf st show ?thesis
      proof (cases rule: reach [where u = u and names = names and e = Lock])
        case (blocked t s2 s3)
        then have "handle_writeblock io mem req u pathname sock s = Some s3"
          using w d by (simp add: handle_writeblock_def names)
        then show ?thesis by (rule same [OF _ blocked(4)]) (use names blocked(5) in auto)
      next
        case (reached t s2 s3)
        let ?f = "t_inode_block t" and ?m = "''FS_WRITEBLOCK '' @ u @ '' '' @ pathname @ '' '' @ w @ [nul]"
        let ?x = "block_at mem data"
        have f: "?f \<in> inodes c" by (rule resolve_in_inodes [OF reached(5)])
        obtain wr s4 c' free' where wf4: "write_file io mem u k data ?f s3 = Some (wr, s4)"
          "stands io good s4 c' free' rs" "fs_wf c' free'" "all_paths_kept c c'"
          and wrote: "wr \<longleftrightarrow> owner_of c ?f = u \<and> kind c ?f = CHR ''f'' \<and> k \<le> isize (inode_at c ?f) \<and>
             (k = isize (inode_at c ?f) \<longrightarrow> free \<noteq> [] \<and> k < FS_MAXFILEBLOCKS)"
          and res: "if wr then view c' = (view c)(names \<mapsto> File u (put_block k ?x (map c (iblocks c ?f))))
             else c' = c \<and> free' = free"
          using write_file_spec [where others = "[]", unfolded append_Nil2, OF laws wf reached(4,5) mem, of u k data]
          by (elim exE conjE) (rule that)
        have len: "length (map c (iblocks c ?f)) = isize (inode_at c ?f)" using wf_length_iblocks [OF wf f] by simp
        note un = lock_stands [OF reached(7), of Unlock s4]
        show ?thesis
        proof (cases wr)
          case True
          let ?s = "reply ?m (log_event (Unlock ?f) s4)"
          have "handle_writeblock io mem req u pathname sock s = Some ?s"
            using reached(1-3) w d wf4(1) True un by (simp add: handle_writeblock_def names del: append.simps)
          moreover have "stands io good ?s c' free' (rs @ [?m])" using wf4(2) by (intro reply_stands) simp
          moreover have "write_result (view c) u pathname req ?x [?m] (view c')"
            unfolding write_result_def using True res wrote reached(6) names Some wk len
            by (intro disjI2 exI [of _ w] exI [of _ k] exI [of _ names] exI [of _ "map c (iblocks c ?f)"])
              (simp add: node_file [OF wf reached(5)] del: append.simps)
          ultimately show ?thesis using wf4(3)
            by (intro exI [of _ ?s] exI [of _ c'] exI [of _ free'] exI [of _ "[?m]"]) simp
        next
          case False
          have h: "handle_writeblock io mem req u pathname sock s = Some (log_event (Unlock ?f) s4)"
            using reached(1-3) w d wf4(1) False un by (simp add: handle_writeblock_def names)
          show ?thesis
          proof (rule same [OF h])
            show "stands io good (log_event (Unlock ?f) s4) c free rs" using wf4(2) res False by simp
          next
            fix w' k' names' ds
            assume "block_number req = Some (w', k')" "path_parser pathname = Some names'" "view c names' = Some (File u ds)"
              and kd: "k' < length ds \<or> k' = length ds \<and> free \<noteq> []"
            then have "k' = k" "owner_of c ?f = u \<and> kind c ?f = CHR ''f''" "length ds = isize (inode_at c ?f)"
              using Some wk names node_file [OF wf reached(5), of u ds] len by auto
            with False wrote kd w(4) show False by auto
          qed
        qed
      qed
    qed
  qed
qed

end
