(* ===== verification/FS_Requests.thy ===== *)
theory FS_Requests imports FS_Refine begin

text \<open>
  Whole requests, from the bytes of a connection to the answer: on a well-formed disk a request whose
  bytes arrive without an error ends, leaves the disk well formed, and makes one step of the abstract
  file system or none; no step touches what another user owns.
\<close>

section \<open>One step of the abstract file system\<close>

inductive fs_step :: "string \<Rightarrow> fsmap \<Rightarrow> fsmap \<Rightarrow> bool" for u V where
  stay: "fs_step u V V"
| create: "changeable V u (butlast names) \<Longrightarrow> V names = None \<Longrightarrow> n \<in> {Directory u, File u []} \<Longrightarrow>
    fs_step u V (V(names \<mapsto> n))"
| delete: "changeable V u (butlast names) \<Longrightarrow> V names = Some n \<Longrightarrow> owner_is u n \<Longrightarrow> \<forall>x. V (names @ [x]) = None \<Longrightarrow>
    fs_step u V (V(names := None))"
| put: "passable V u names \<Longrightarrow> V names = Some (File u ds) \<Longrightarrow> k \<le> length ds \<Longrightarrow>
    fs_step u V (V(names \<mapsto> File u (put_block k x ds)))"

lemma step_other_owner: "fs_step u V V' \<Longrightarrow> V p = Some n \<Longrightarrow> \<not> owner_is u n \<Longrightarrow> V' p = Some n"
  by (induction rule: fs_step.induct) auto

lemma create_result_step: "create_result V u pathname type ms V' \<Longrightarrow> fs_step u V V'"
  by (auto simp: create_result_def new_node_def intro: fs_step.intros)

lemma delete_result_step: "delete_result V u pathname ms V' \<Longrightarrow> fs_step u V V'"
  by (auto simp: delete_result_def intro: fs_step.intros)

lemma write_result_step: "write_result V u pathname req x ms V' \<Longrightarrow> fs_step u V V'"
  by (auto simp: write_result_def intro: fs_step.intros)

section \<open>What is received\<close>

lemma next_word_parts: "next_word s = Some (w, r) \<Longrightarrow> w \<noteq> [] \<and> set w \<subseteq> set s \<and> set r \<subseteq> set s"
  unfolding next_word_def Let_def
  by (auto split: if_splits dest!: set_takeWhileD set_dropWhileD)

lemma recv_keeps: "None \<notin> set sock \<Longrightarrow> \<exists>x sock'. recv n sock = (Some x, sock') \<and> None \<notin> set sock'"
  by (cases "(n, sock)" rule: recv.cases) auto

lemma recv_header_no_error:
  "None \<notin> set sock \<Longrightarrow> nul \<notin> set hdr \<Longrightarrow>
   (case recv_header hdr recvd buf sock of Inl closed \<Rightarrow> closed
     | Inr (hdr', sock') \<Rightarrow> nul \<notin> set hdr' \<and> None \<notin> set sock')"
proof (induction hdr recvd buf sock rule: recv_header.induct)
  case (1 hdr recvd buf sock)
  obtain x sock' where r: "recv 1 sock = (Some x, sock')" "None \<notin> set sock'" using recv_keeps [OF "1.prems"(1)] by blast
  show ?case
  proof (cases x)
    case Nil
    with r "1.prems" show ?thesis by (subst recv_header.simps) auto
  next
    case (Cons ch cs)
    with recv_length [of 1 sock x sock'] r have x: "x = [ch]" by simp
    with "1.IH" [OF r(1) [symmetric], of "[ch]" ch "hdr @ [ch]" "Suc recvd"] "1.prems" r show ?thesis
      by (subst recv_header.simps) auto
  qed
qed

lemma recv_data_no_error: "None \<notin> set sock \<Longrightarrow> \<exists>data'. recv_data data recvd sock = Some data'"
proof (induction data recvd sock rule: recv_data.induct)
  case (1 data recvd sock)
  obtain x sock' where r: "recv (FS_BLOCKSIZE - recvd) sock = (Some x, sock')" "None \<notin> set sock'"
    using recv_keeps [OF "1.prems"] by blast
  with "1.IH" [OF r(1) [symmetric]] show ?case by (subst recv_data.simps) (auto simp: Let_def)
qed

section \<open>One request\<close>

text \<open>The user a header names.\<close>

definition user_of :: "string \<Rightarrow> string" where
  "user_of hdr = (case next_word hdr of None \<Rightarrow> [] | Some (_, req) \<Rightarrow>
     (case next_word req of None \<Rightarrow> [] | Some (u, _) \<Rightarrow> u))"

lemma dispatch_step:
  assumes laws: "disk_laws io good" and wf: "fs_wf c free" and st: "stands io good s c free rs"
    and mem: "mem_ok mem" and hdr: "nul \<notin> set hdr" and sock: "None \<notin> set sock"
  shows "\<exists>s' c' free' ms. dispatch io mem hdr sock s = Some s' \<and> stands io good s' c' free' (rs @ ms) \<and>
    fs_wf c' free' \<and> fs_step (user_of hdr) (view c) (view c')"
proof -
  have same: ?thesis if "dispatch io mem hdr sock s = Some s"
    using that st wf by (intro exI [of _ s] exI [of _ c] exI [of _ free] exI [of _ "[]"]) (auto intro: stay)
  have fin: ?thesis if "dispatch io mem hdr sock s = Some s'" "stands io good s' c' free' (rs @ ms)" "fs_wf c' free'"
    "fs_step (user_of hdr) (view c) (view c')" for s' c' free' ms
    using that by blast
  show ?thesis
  proof (cases "next_word hdr")
    case None then show ?thesis by (intro same) (simp add: dispatch_def)
  next
    case t: (Some x)
    obtain type r1 where x: "x = (type, r1)" by (cases x)
    show ?thesis
    proof (cases "next_word r1")
      case None with t x show ?thesis by (intro same) (simp add: dispatch_def)
    next
      case u: (Some y)
      obtain u r2 where y: "y = (u, r2)" by (cases y)
      show ?thesis
      proof (cases "next_word r2")
        case None with t x u y show ?thesis by (intro same) (simp add: dispatch_def)
      next
        case p: (Some z)
        obtain pn r3 where z: "z = (pn, r3)" by (cases z)
        have nuls: "nul \<notin> set u" "pn \<noteq> []" "nul \<notin> set pn"
          using hdr next_word_parts [of hdr type r1] next_word_parts [of r1 u r2] next_word_parts [of r2 pn r3] t x u y p z
          by auto
        have uo: "user_of hdr = u" using t x u y by (simp add: user_of_def)
        let ?n = "check_request_type type hdr"
        note words = t [unfolded x] u [unfolded y] p [unfolded z]
        show ?thesis
        proof (cases "length u > FS_MAXUSERNAME \<or> length pn > FS_MAXPATHNAME \<or> ?n \<notin> {1, 2, 3, 4}")
          case True
          with words show ?thesis by (intro same) (auto simp: dispatch_def Let_def)
        next
          case False
          then have len: "length u \<le> FS_MAXUSERNAME" "length pn \<le> FS_MAXPATHNAME" by auto
          then have uk: "user_ok u" using nuls by (simp add: user_ok_def)
          note d = dispatch_def [of io mem hdr sock s, unfolded words option.case prod.case Let_def]
          from False consider (1) "?n = 1" | (2) "?n = 2" | (3) "?n = 3" | (4) "?n = 4" by auto
          then show ?thesis
          proof cases
            case 1
            from handle_readblock_refines [OF laws wf st, of r3 u pn] wf show ?thesis
              using 1 len by (auto simp: d intro: stay)
          next
            case 2
            obtain data where data: "recv_data [] 0 sock = Some data" using recv_data_no_error [OF sock] by blast
            obtain s' c' free' ms where "handle_writeblock io mem r3 u pn sock s = Some s'"
              "stands io good s' c' free' (rs @ ms)" "fs_wf c' free'"
              "write_result (view c) u pn r3 (block_at mem data) ms (view c')"
              using handle_writeblock_refines [OF laws wf st mem data, of r3 u pn] by (elim exE conjE) (rule that)
            then show ?thesis using 2 len write_result_step by (intro fin) (auto simp: d uo)
          next
            case 3
            obtain s' c' free' ms where h: "handle_create io mem r3 u pn s = Some s'"
              "stands io good s' c' free' (rs @ ms)" "fs_wf c' free'"
              and res: "case next_word r3 of None \<Rightarrow> ms = [] \<and> view c' = view c
                | Some (type, _) \<Rightarrow> create_result (view c) u pn type ms (view c') \<and>
                  (\<forall>names dir. type \<in> {''f'', ''d''} \<and> path_parser pn = Some names \<and> changeable (view c) u (butlast names) \<and>
                   view c names = None \<and> 2 \<le> length free \<and> resolve c 0 (butlast names) = Some dir \<and>
                   isize (inode_at c dir) < FS_MAXFILEBLOCKS \<longrightarrow> ms \<noteq> [])"
              using handle_create_refines [OF laws wf st mem uk nuls(2,3), of r3] by (elim exE conjE) (rule that)
            have "fs_step u (view c) (view c')"
              using res by (auto split: option.splits prod.splits dest: create_result_step intro: stay)
            with h show ?thesis using 3 len by (intro fin) (auto simp: d uo)
          next
            case 4
            obtain s' c' free' ms where "handle_delete io mem u pn s = Some s'"
              "stands io good s' c' free' (rs @ ms)" "fs_wf c' free'" "delete_result (view c) u pn ms (view c')"
              using handle_delete_refines [OF laws wf st mem nuls(2,3), of u] by (elim exE conjE) (rule that)
            then show ?thesis using 4 len delete_result_step by (intro fin) (auto simp: d uo)
          qed
        qed
      qed
    qed
  qed
qed

section \<open>Connections\<close>

lemma stands_close [simp]: "stands io good (close_connection s) c free rs \<longleftrightarrow> stands io good s c free rs"
  by (simp add: close_connection_def)

lemma handle_requests_step:
  assumes laws: "disk_laws io good" and wf: "fs_wf c free" and st: "stands io good s c free rs"
    and mem: "mem_ok mem" and sock: "None \<notin> set sock"
  shows "\<exists>u s' c' free' ms. handle_requests io mem sock s = Some s' \<and> stands io good s' c' free' (rs @ ms) \<and>
    fs_wf c' free' \<and> fs_step u (view c) (view c')"
proof (cases "recv_header [] 0 (junk_buf mem) sock")
  case (Inl closed)
  with recv_header_no_error [OF sock, of "[]" 0 "junk_buf mem"] have "handle_requests io mem sock s = Some (close_connection s)"
    by (simp add: handle_requests_def)
  then show ?thesis using wf st by (intro exI [of _ "[]"] exI [of _ "close_connection s"] exI [of _ c] exI [of _ free]) (simp add: stay)
next
  case (Inr r)
  obtain hdr sock' where r: "r = (hdr, sock')" by (cases r)
  with recv_header_no_error [OF sock, of "[]" 0 "junk_buf mem"] Inr have n: "nul \<notin> set hdr" "None \<notin> set sock'" by simp_all
  obtain s' c' free' ms where "dispatch io mem hdr sock' s = Some s'" "stands io good s' c' free' (rs @ ms)"
    "fs_wf c' free'" "fs_step (user_of hdr) (view c) (view c')"
    using dispatch_step [OF laws wf st mem n] by (elim exE conjE) (rule that)
  then show ?thesis using Inr r
    by (intro exI [of _ "user_of hdr"] exI [of _ "close_connection s'"] exI [of _ c'] exI [of _ free'] exI [of _ ms])
      (simp add: handle_requests_def)
qed

lemma serve_all_steps:
  assumes laws: "disk_laws io good" and mem: "mem_ok mem"
  shows "fs_wf c free \<Longrightarrow> stands io good s c free rs \<Longrightarrow> \<forall>sock \<in> set socks. None \<notin> set sock \<Longrightarrow>
    \<exists>s' c' free' ms. serve_all io mem socks s = Some s' \<and> stands io good s' c' free' (rs @ ms) \<and> fs_wf c' free' \<and>
      (\<lambda>V V'. \<exists>u. fs_step u V V')\<^sup>*\<^sup>* (view c) (view c')"
proof (induction socks arbitrary: s c free rs)
  case (Cons sock socks)
  have "None \<notin> set sock" using Cons.prems(3) by simp
  from handle_requests_step [OF laws Cons.prems(1,2) mem this]
  obtain u s1 c1 free1 ms1 where one: "handle_requests io mem sock s = Some s1" "stands io good s1 c1 free1 (rs @ ms1)"
    "fs_wf c1 free1" "fs_step u (view c) (view c1)" by (elim exE conjE) (rule that)
  have "\<forall>sock \<in> set socks. None \<notin> set sock" using Cons.prems(3) by simp
  from Cons.IH [OF one(3,2) this] obtain s' c' free' ms where rest: "serve_all io mem socks s1 = Some s'"
    "stands io good s' c' free' ((rs @ ms1) @ ms)" "fs_wf c' free'"
    "(\<lambda>V V'. \<exists>u. fs_step u V V')\<^sup>*\<^sup>* (view c1) (view c')" by (elim exE conjE) (rule that)
  have "(\<lambda>V V'. \<exists>u. fs_step u V V')\<^sup>*\<^sup>* (view c) (view c')"
    using one(4) rest(4) by (rule_tac converse_rtranclp_into_rtranclp) blast
  with one(1) rest show ?case
    by (intro exI [of _ s'] exI [of _ c'] exI [of _ free'] exI [of _ "ms1 @ ms"]) simp
next
  case Nil
  then show ?case by (intro exI [of _ s] exI [of _ c] exI [of _ free] exI [of _ "[]"]) simp
qed

end
