(* ===== verification/FS_Start.thy ===== *)
theory FS_Start imports FS_Requests begin

text \<open>
  The start of the server: the breadth-first traversal of the disk ends, and leaves as free exactly the
  blocks that the paths do not use, so that the file system on the disk is well formed with them.
\<close>

section \<open>The tree of blocks\<close>

definition targets :: "contents \<Rightarrow> nat \<Rightarrow> nat multiset" where
  "targets c b = mset (map snd (links_of (entries_at c b)))"

definition dir_blocks :: "contents \<Rightarrow> nat \<Rightarrow> nat multiset" where
  "dir_blocks c i = (if kind c i = CHR ''d'' then mset (iblocks c i) else {#})"

definition file_blocks :: "contents \<Rightarrow> nat \<Rightarrow> nat multiset" where
  "file_blocks c i = (if kind c i = CHR ''d'' then {#} else mset (iblocks c i))"

abbreviation union_of :: "(nat \<Rightarrow> nat multiset) \<Rightarrow> nat multiset \<Rightarrow> nat multiset" where
  "union_of f A \<equiv> \<Sum>\<^sub># (image_mset f A)"

lemma union_of_mono: "A \<subseteq># B \<Longrightarrow> union_of f A \<subseteq># union_of f B"
  by (auto simp: subset_mset.le_iff_add)

lemma links_targets: "mset (map snd (links c i)) = union_of (targets c) (dir_blocks c i)"
proof -
  have "mset (map snd (links_of (concat (map (entries_at c) bs)))) = union_of (targets c) (mset bs)" for bs
    by (induction bs) (simp_all add: targets_def)
  then show ?thesis by (simp add: links_def dir_blocks_def)
qed

definition all_dir_blocks :: "contents \<Rightarrow> nat multiset" where
  "all_dir_blocks c = union_of (dir_blocks c) (mset_set (inodes c))"

lemma sum_union: "(\<Sum>i \<in> A. f i) = union_of f (mset_set A)"
  by (simp add: sum_unfold_sum_mset)

lemma linked_targets: "linked c = union_of (targets c) (all_dir_blocks c)"
proof -
  have u: "union_of (targets c) (union_of f M) = union_of (\<lambda>i. union_of (targets c) (f i)) M" for f M
    by (induction M) simp_all
  then show ?thesis by (simp only: linked_def sum_union links_targets all_dir_blocks_def u)
qed

lemma wf_inodes_split:
  assumes "fs_wf c free" shows "mset_set (inodes c) = add_mset 0 (linked c)"
  using wf_linked [OF assms] mset_set.remove [OF wf_finite [OF assms] root_in_inodes] by simp

lemma usage_parts:
  assumes "fs_wf c free"
  shows "usage c = mset_set (inodes c) + all_dir_blocks c + union_of (file_blocks c) (mset_set (inodes c))"
proof -
  have "union_of (\<lambda>i. add_mset i (mset (iblocks c i))) M = M + union_of (dir_blocks c) M + union_of (file_blocks c) M" for M
    by (induction M) (simp_all add: dir_blocks_def file_blocks_def)
  then show ?thesis by (simp add: usage_def sum_union all_dir_blocks_def)
qed

section \<open>The traversal\<close>

lemma init_read:
  assumes "disk_laws io good" "good d" "b < FS_DISKSIZE"
  shows "readblock io d b = Some (contents_of io d b)"
  using assms by (force simp: disk_laws_def contents_of_def)

lemma init_entries_spec:
  assumes laws: "disk_laws io good" "good d" and wf: "fs_wf (contents_of io d) free"
  shows "\<forall>j \<in> set (map snd (links_of es)). j \<in> inodes (contents_of io d) \<Longrightarrow>
    \<exists>used' q'. init_entries io d es used q = Some (used', q') \<and>
      mset used' = mset used + mset (map snd (links_of es)) +
        union_of (file_blocks (contents_of io d)) (mset (map snd (links_of es))) \<and>
      mset q' = mset q + union_of (dir_blocks (contents_of io d)) (mset (map snd (links_of es)))"
proof (induction es arbitrary: used q)
  case (Cons e es)
  let ?c = "contents_of io d" and ?j = "inode_block e"
  show ?case
  proof (cases "live e")
    case False
    with Cons show ?thesis by (simp add: live_def)
  next
    case True
    then have j: "?j \<in> inodes ?c" "?j \<noteq> 0" using Cons.prems by (simp_all add: link_def live_def)
    have rd: "readblock io d ?j = Some (?c ?j)" by (rule init_read [OF laws wf_inode_bound [OF wf j(1)]])
    note k = wf_kind [OF wf j(1)]
    have sz: "\<not> isize (inode_at ?c ?j) > length (blocks (inode_at ?c ?j))"
      using wf_isize [OF wf j(1)] length_blocks [of ?c ?j, OF wf_length [OF wf wf_inode_bound [OF wf j(1)]]] by simp
    let ?used = "if kind ?c ?j = CHR ''d'' then ?j # used else iblocks ?c ?j @ ?j # used"
    let ?q = "if kind ?c ?j = CHR ''d'' then q @ iblocks ?c ?j else q"
    have "init_entries io d (e # es) used q = init_entries io d es ?used ?q"
      using j(2) rd k sz by (auto simp: kind_def inode_at_def iblocks_def Let_def)
    moreover from Cons.prems have "\<forall>j \<in> set (map snd (links_of es)). j \<in> inodes ?c" by (simp split: if_splits)
    note Cons.IH [OF this, of ?used ?q]
    ultimately show ?thesis using True k
      by (auto simp: link_def file_blocks_def dir_blocks_def ac_simps)
  qed
qed simp

text \<open>
  The state of the loop: the directory blocks read so far (\<open>P\<close>) and those queued are the blocks of the
  inodes met so far (\<open>S\<close>).
\<close>

definition traversed :: "contents \<Rightarrow> nat multiset \<Rightarrow> nat list \<Rightarrow> nat multiset \<Rightarrow> nat list \<Rightarrow> bool" where
  "traversed c P queue S used \<longleftrightarrow> S \<subseteq># mset_set (inodes c) \<and> S = add_mset 0 (union_of (targets c) P) \<and>
     P + mset queue = union_of (dir_blocks c) S \<and>
     add_mset 0 (mset used) = P + S + union_of (file_blocks c) S"

lemma traversed_blocks:
  assumes "traversed c P queue S used" shows "P + mset queue \<subseteq># all_dir_blocks c"
proof -
  have "P + mset queue = union_of (dir_blocks c) S" "S \<subseteq># mset_set (inodes c)"
    using assms unfolding traversed_def by blast+
  then show ?thesis using union_of_mono by (simp add: all_dir_blocks_def)
qed

lemma all_dir_blocks_in:
  assumes wf: "fs_wf c free" and b: "b \<in># all_dir_blocks c"
  shows "b < FS_DISKSIZE" "j \<in># targets c b \<Longrightarrow> j \<in> inodes c"
proof -
  obtain i where i: "i \<in> inodes c" "b \<in># dir_blocks c i"
    using b wf_finite [OF wf] by (auto simp: all_dir_blocks_def)
  then have "b \<in> set (iblocks c i)" by (auto simp: dir_blocks_def split: if_splits)
  with wf_block_bound [OF wf i(1)] show "b < FS_DISKSIZE" .
  show "j \<in> inodes c" if "j \<in># targets c b"
  proof -
    have "j \<in># linked c" using that b by (auto simp: linked_targets)
    then show ?thesis using wf_linked [OF wf] wf_finite [OF wf] by simp
  qed
qed

lemma init_loop_spec:
  assumes laws: "disk_laws io good" "good d" and wf: "fs_wf (contents_of io d) free"
  shows "traversed (contents_of io d) P queue S used \<Longrightarrow>
    \<exists>P' S' used'. init_loop io d used queue = Some used' \<and> traversed (contents_of io d) P' [] S' used'"
proof (induction "size (all_dir_blocks (contents_of io d)) - size P" arbitrary: P queue S used rule: less_induct)
  case less
  let ?c = "contents_of io d"
  show ?case
  proof (cases queue)
    case Nil
    with less.prems show ?thesis by (subst init_loop.simps) auto
  next
    case (Cons b q)
    have sub: "P + mset queue \<subseteq># all_dir_blocks ?c" by (rule traversed_blocks [OF less.prems])
    then have P1: "add_mset b P \<subseteq># all_dir_blocks ?c"
      using Cons by (metis mset.simps(2) mset_subset_eq_add_left subset_mset.order_trans union_mset_add_mset_left
        union_mset_add_mset_right)
    then have b: "b \<in># all_dir_blocks ?c" by (meson insert_subset_eq_iff)
    have tj: "\<forall>j \<in> set (map snd (links_of (entries_at ?c b))). j \<in> inodes ?c"
      using all_dir_blocks_in(2) [OF wf b] by (simp add: targets_def)
    obtain used' q' where en: "init_entries io d (entries_at ?c b) (b # used) q = Some (used', q')"
      "mset used' = mset (b # used) + targets ?c b + union_of (file_blocks ?c) (targets ?c b)"
      "mset q' = mset q + union_of (dir_blocks ?c) (targets ?c b)"
      using init_entries_spec [OF laws wf tj, of "b # used" q] by (auto simp: targets_def)
    have eq: "init_loop io d used queue = init_loop io d used' q'"
      using Cons init_read [OF laws all_dir_blocks_in(1) [OF wf b]] en(1)
      by (subst init_loop.simps) (simp add: entries_at_def)
    have inv: "traversed ?c (add_mset b P) q' (S + targets ?c b) used'"
    proof -
      have S: "S + targets ?c b = add_mset 0 (union_of (targets ?c) (add_mset b P))"
        using less.prems by (simp add: traversed_def)
      also have "\<dots> \<subseteq># mset_set (inodes ?c)"
        using union_of_mono [OF P1, of "targets ?c"] by (simp add: wf_inodes_split [OF wf] linked_targets)
      finally have "S + targets ?c b \<subseteq># mset_set (inodes ?c)" .
      with S less.prems en(2,3) Cons show ?thesis by (simp add: traversed_def ac_simps) 
    qed
    have "size (add_mset b P) \<le> size (all_dir_blocks ?c)" by (rule size_mset_mono [OF P1])
    then have "size (all_dir_blocks ?c) - size (add_mset b P) < size (all_dir_blocks ?c) - size P" by simp
    from less.hyps [OF this inv] eq show ?thesis by simp
  qed
qed

lemma traversed_all:
  assumes wf: "fs_wf c free" and t: "traversed c P [] S used"
  shows "add_mset 0 (mset used) = usage c"
proof -
  have S: "S \<subseteq># mset_set (inodes c)" "S = add_mset 0 (union_of (targets c) P)"
    "P + mset [] = union_of (dir_blocks c) S" "add_mset 0 (mset used) = P + S + union_of (file_blocks c) S"
    using t unfolding traversed_def by blast+
  have "resolve c 0 p = Some i \<Longrightarrow> i \<in># S" for p i
  proof (induction p arbitrary: i rule: rev_induct)
    case Nil
    with S(2) show ?case by simp
  next
    case (snoc n p)
    then obtain j where j: "resolve c 0 p = Some j" "map_of (links c j) n = Some i"
      by (auto simp: resolve_snoc split: option.splits)
    have "i \<in># mset (map snd (links c j))" using map_of_SomeD [OF j(2)] by force
    then have "i \<in># union_of (targets c) (dir_blocks c j)" unfolding links_targets .
    then obtain b where "b \<in># dir_blocks c j" "i \<in># targets c b" by auto
    moreover from this snoc.IH [OF j(1)] S(3) have "b \<in># P" by (simp del: count_greater_zero_iff) blast
    ultimately show ?case by (subst S(2)) auto
  qed
  then have "inodes c \<subseteq> set_mset S" by (auto simp: inodes_def)
  moreover have "set_mset S \<subseteq> inodes c" using set_mset_mono [OF S(1)] wf_finite [OF wf] by simp
  ultimately have "set_mset S = inodes c" by blast
  with mset_set_set_mset_msubset [of S] S(1) have "S = mset_set (inodes c)" by (simp add: subset_mset.antisym)
  with S(3,4) show ?thesis by (simp add: usage_parts [OF wf] all_dir_blocks_def ac_simps)
qed

lemma init_free_blocks_spec:
  assumes laws: "disk_laws io good" "good d" and wf: "fs_wf (contents_of io d) free"
  shows "\<exists>free'. init_free_blocks io d = Some free' \<and> mset free' = mset free \<and> sorted free'"
proof -
  let ?c = "contents_of io d"
  have rd: "readblock io d 0 = Some (?c 0)" by (rule init_read [OF laws]) simp
  have sz: "\<not> isize (inode_at ?c 0) > length (blocks (inode_at ?c 0))"
    using wf_isize [OF wf, of 0] length_blocks [of ?c 0, OF wf_length [OF wf]] by simp
  have "traversed ?c {#} (iblocks ?c 0) {#0#} []"
    using wf_finite [OF wf] wf_root [OF wf] by (simp add: traversed_def dir_blocks_def file_blocks_def)
  from init_loop_spec [OF laws wf this] obtain P S used where
    lp: "init_loop io d [] (iblocks ?c 0) = Some used" "traversed ?c P [] S used" by blast
  let ?free = "filter (\<lambda>b. b \<notin> set used) [1..<FS_DISKSIZE]"
  have run: "init_free_blocks io d = Some ?free"
    using rd sz lp(1) by (simp add: init_free_blocks_def inode_at_def iblocks_def)
  have u: "add_mset 0 (mset used) = usage c" if "c = ?c" for c using that traversed_all [OF wf lp(2)] by simp
  have "mset free = mset ?free"
  proof -
    have U: "usage ?c + mset free = mset_set {..<FS_DISKSIZE}" by (rule wf_usage [OF wf])
    have "set free = {b. b < FS_DISKSIZE \<and> b \<notin># usage ?c}"
    proof (intro set_eqI iffI)
      fix b assume "b \<in> set free"
      with wf_free_bound [OF wf] wf_not_free [OF wf] show "b \<in> {b. b < FS_DISKSIZE \<and> b \<notin># usage ?c}" by blast
    next
      fix b assume "b \<in> {b. b < FS_DISKSIZE \<and> b \<notin># usage ?c}"
      moreover from this have "b \<in># usage ?c + mset free" by (simp add: U)
      ultimately show "b \<in> set free" by simp
    qed
    also have "\<dots> = set ?free" by (auto simp flip: u [OF refl] simp: Suc_le_eq)
    finally show ?thesis using wf_distinct_free [OF wf] by (intro iffD1 [OF set_eq_iff_mset_eq_distinct]) simp_all
  qed
  moreover have "sorted ?free" by (intro sorted_wrt_filter) simp
  ultimately show ?thesis using run by metis
qed

end
