(* ===== verification/FS_Locks.thy ===== *)
theory FS_Locks imports FS_Server begin

text \<open>
  The locking discipline of the file server: what a request may do with locks, the disk and the free
  blocks, as a machine that reads the trace; and the proof that every request, whatever the disk
  holds, follows it.
\<close>

section \<open>The discipline\<close>

text \<open>
  The disk locks held, each with whether it is exclusive, and whether the \<open>free_block_lock\<close> is held. A
  request holds at most two disk locks; it starts at the root (block 0) and takes another lock only
  while it holds one (lock coupling); the \<open>free_block_lock\<close> is the innermost; the disk is read under a
  lock and written under an exclusive one; the connection is closed when nothing is held.
\<close>

type_synonym holding = "(nat \<times> bool) list \<times> bool"

definition may_lock :: "nat \<Rightarrow> holding \<Rightarrow> bool" where
  "may_lock b h \<longleftrightarrow> \<not> snd h \<and> length (fst h) < 2 \<and> (b = 0 \<longleftrightarrow> fst h = [])"

fun lock_step :: "holding \<Rightarrow> event \<Rightarrow> holding option" where
  "lock_step (H, f) (Lock_shared b) = (if may_lock b (H, f) then Some ((b, False) # H, f) else None)"
| "lock_step (H, f) (Lock b) = (if may_lock b (H, f) then Some ((b, True) # H, f) else None)"
| "lock_step (H, f) (Unlock_shared b) = (if (b, False) \<in> set H then Some (remove1 (b, False) H, f) else None)"
| "lock_step (H, f) (Unlock b) = (if (b, True) \<in> set H then Some (remove1 (b, True) H, f) else None)"
| "lock_step (H, f) Lock_free = (if f then None else Some (H, True))"
| "lock_step (H, f) Unlock_free = (if f then Some (H, False) else None)"
| "lock_step (H, f) (Read b) = (if H \<noteq> [] then Some (H, f) else None)"
| "lock_step (H, f) (Write b) = (if \<exists>h \<in> set H. snd h then Some (H, f) else None)"
| "lock_step (H, f) Pop = (if f then Some (H, f) else None)"
| "lock_step (H, f) Push = (if f then Some (H, f) else None)"
| "lock_step (H, f) Close = (if H = [] \<and> \<not> f then Some (H, f) else None)"

fun run_events :: "holding \<Rightarrow> event list \<Rightarrow> holding option" where
  "run_events h [] = Some h"
| "run_events h (e # es) = (case lock_step h e of None \<Rightarrow> None | Some h \<Rightarrow> run_events h es)"

definition holds :: "'d server \<Rightarrow> (nat \<times> bool) list \<Rightarrow> bool" where
  "holds s H \<longleftrightarrow> run_events ([], False) (trace s) = Some (H, False)"

lemma run_events_append:
  "run_events h (xs @ ys) = (case run_events h xs of None \<Rightarrow> None | Some h \<Rightarrow> run_events h ys)"
  by (induction xs arbitrary: h) (auto split: option.splits)

lemma holds_log: "holds s H \<Longrightarrow> lock_step (H, False) e = Some (H', False) \<Longrightarrow> holds (log_event e s) H'"
  by (simp add: holds_def log_event_def run_events_append)

section \<open>The operations\<close>

named_theorems keeps

lemma holds_on_lock:
  assumes "holds s H" and "on_lock e b s = Some s'" and "lock_step (H, False) (e b) = Some (H', False)"
  shows "holds s' H'"
  using assms by (auto simp: on_lock_def split: if_splits intro: holds_log)

lemma read_block_holds [keeps]:
  "holds s H \<Longrightarrow> H \<noteq> [] \<Longrightarrow> read_block io b s = Some (bytes, s') \<Longrightarrow> holds s' H"
  by (auto simp: read_block_def Option.bind_eq_Some_conv intro: holds_log)

lemma write_block_holds [keeps]:
  "holds s H \<Longrightarrow> \<exists>h \<in> set H. snd h \<Longrightarrow> write_block io b bytes s = Some s' \<Longrightarrow> holds s' H"
  by (auto simp: write_block_def Option.bind_eq_Some_conv holds_def log_event_def run_events_append
      split: if_splits intro!: bexI [rotated])

lemma return_empty_block_holds [keeps]: "holds s H \<Longrightarrow> holds (return_empty_block b s) H"
  by (simp add: return_empty_block_def holds_def lock_free_def unlock_free_def push_free_def log_event_def
      run_events_append)

lemma take_block_holds [keeps]: "holds s H \<Longrightarrow> holds (unlock_free (pop_free (lock_free s))) H"
  by (simp add: holds_def lock_free_def unlock_free_def pop_free_def log_event_def run_events_append)

lemma look_at_free_holds [keeps]: "holds s H \<Longrightarrow> holds (unlock_free (lock_free s)) H"
  by (simp add: holds_def lock_free_def unlock_free_def log_event_def run_events_append)

lemma reply_holds [keeps]: "holds s H \<Longrightarrow> holds (reply m s) H"
  by (simp add: holds_def reply_def)

lemma scan_entries_nonzero:
  "scan_entries name i b es j l r out = (found, r', out') \<Longrightarrow> \<not> valid r \<Longrightarrow> valid r' \<Longrightarrow> t_inode_block r' \<noteq> 0"
  by (induction name i b es j l r out rule: scan_entries.induct) (auto split: if_splits)

lemma scan_entries_found:
  "scan_entries name i b es j l r out = (found, r', out') \<Longrightarrow> \<not> valid r \<Longrightarrow> valid r' \<longleftrightarrow> found"
  by (induction name i b es j l r out rule: scan_entries.induct) (auto split: if_splits)

lemma scan_entries_parent:
  "scan_entries name i b es j l r out = (found, r', out') \<Longrightarrow> parent_inode_block r' = parent_inode_block r"
  by (induction name i b es j l r out rule: scan_entries.induct) (auto split: if_splits)

lemma check_blocks_step:
  assumes "check_blocks io name i (Some block # bs) r out s = Some (r', out', s')"
  obtains bytes s1 found r1 out1 where "read_block io block s = Some (bytes, s1)"
    "scan_entries name i block (decode_entries bytes) 0 (decode_entries bytes) r out = (found, r1, out1)"
    "if found then (r', out', s') = (r1, out1, s1)
     else check_blocks io name (Suc i) bs r1 out1 s1 = Some (r', out', s')"
proof -
  from assms obtain bytes s1 where rd: "read_block io block s = Some (bytes, s1)"
    by (auto simp: Option.bind_eq_Some_conv)
  obtain found r1 out1 where sc:
    "scan_entries name i block (decode_entries bytes) 0 (decode_entries bytes) r out = (found, r1, out1)"
    by (cases "scan_entries name i block (decode_entries bytes) 0 (decode_entries bytes) r out") auto
  show ?thesis by (rule that [OF rd sc]) (use assms rd sc in \<open>auto simp: Let_def\<close>)
qed

lemma check_blocks_holds:
  "holds s H \<Longrightarrow> H \<noteq> [] \<Longrightarrow> \<not> valid r \<Longrightarrow> check_blocks io name i bs r out s = Some (r', out', s') \<Longrightarrow>
   holds s' H \<and> (valid r' \<longrightarrow> t_inode_block r' \<noteq> 0) \<and> parent_inode_block r' = parent_inode_block r"
proof (induction bs arbitrary: i r out s)
  case (Cons x bs)
  then obtain block where x: "x = Some block" by (cases x) auto
  from Cons.prems(4) [unfolded x] obtain bytes s1 found r1 out1 where
    st: "read_block io block s = Some (bytes, s1)"
      "scan_entries name i block (decode_entries bytes) 0 (decode_entries bytes) r out = (found, r1, out1)"
      "if found then (r', out', s') = (r1, out1, s1)
       else check_blocks io name (Suc i) bs r1 out1 s1 = Some (r', out', s')"
    by (rule check_blocks_step)
  have s1: "holds s1 H" using Cons.prems(1,2) st(1) by (rule read_block_holds)
  show ?case using st(3) s1 Cons.IH [OF s1 Cons.prems(2), of r1 "Suc i" out1]
      scan_entries_found [OF st(2) Cons.prems(3)] scan_entries_nonzero [OF st(2) Cons.prems(3)]
      scan_entries_parent [OF st(2)] by (auto split: if_splits)
qed auto

lemma check_existance_holds:
  assumes "holds s H" and "H \<noteq> []" and "check_existance io r inode name out s = Some (r', out', s')"
  shows "holds s' H" and "valid r' \<Longrightarrow> t_inode_block r' \<noteq> 0"
    and "parent_inode_block r' = parent_inode_block r"
  using check_blocks_holds [OF assms(1,2) _ assms(3) [unfolded check_existance_def]] by auto

text \<open>On the way down, the lock of the directory reached is held, shared.\<close>

lemma traverse_loop_holds:
  "holds s [(dir_block, False)] \<Longrightarrow> parent_inode_block result = dir_block \<Longrightarrow> names \<noteq> [] \<Longrightarrow>
   traverse_loop io username names result inode dir_block s = Some (t, s') \<Longrightarrow>
   holds s' [(parent_inode_block t, False)] \<and> (valid t \<longrightarrow> t_inode_block t \<noteq> 0)"
proof (induction names arbitrary: result inode dir_block s)
  case (Cons name names)
  from Cons.prems(4) obtain r1 out1 s1 where
    ce: "check_existance io result inode name None s = Some (r1, out1, s1)"
    by (auto simp: Option.bind_eq_Some_conv)
  have s1: "holds s1 [(dir_block, False)]" and nz: "valid r1 \<Longrightarrow> t_inode_block r1 \<noteq> 0"
    and p1: "parent_inode_block r1 = dir_block"
    using check_existance_holds [OF Cons.prems(1) _ ce] Cons.prems(2) by auto
  show ?case
  proof (cases "\<not> valid r1 \<or> names = []")
    case True
    then show ?thesis using Cons.prems(4) ce s1 nz p1 by auto
  next
    case False
    let ?b = "t_inode_block r1"
    from False Cons.prems(4) ce obtain s2 s3 bytes s4 where
      steps: "lock_shared ?b s1 = Some s2" "unlock_shared dir_block s2 = Some s3"
        "read_block io ?b s3 = Some (bytes, s4)"
      and rest: "(if c_string (owner (decode_inode bytes)) \<noteq> username \<or> itype (decode_inode bytes) \<noteq> CHR ''d''
        then Some (r1\<lparr>parent_inode_block := ?b, valid := False\<rparr>, s4)
        else traverse_loop io username names (r1\<lparr>parent_inode_block := ?b\<rparr>) (decode_inode bytes) ?b s4)
        = Some (t, s')"
      by (auto simp: Option.bind_eq_Some_conv Let_def)
    have "holds s2 [(?b, False), (dir_block, False)]"
      using s1 steps(1) nz False by (intro holds_on_lock [OF _ steps(1)]) (auto simp: may_lock_def)
    then have "holds s3 [(?b, False)]" using steps(2) by (rule holds_on_lock) auto
    then have s4: "holds s4 [(?b, False)]" using steps(3) by (auto intro: read_block_holds)
    show ?thesis
      using rest s4 Cons.IH [OF s4, of "r1\<lparr>parent_inode_block := ?b\<rparr>"] False by (auto split: if_splits)
  qed
qed simp

text \<open>What is held between \<open>traverse_dir\<close> and the handler's own lock.\<close>

definition coupled :: "target_inode \<Rightarrow> (nat \<times> bool) list" where
  "coupled t = (if valid t \<and> t_inode_block t = 0 then [] else [(parent_inode_block t, False)])"

lemma traverse_dir_holds:
  assumes "holds s []" and "traverse_dir io username names s = Some (t, s')"
  shows "holds s' (coupled t)"
proof (cases "names = []")
  case True
  then show ?thesis using assms by (auto simp: traverse_dir_def coupled_def default_target_def)
next
  case False
  with assms(2) obtain s1 bytes s2 where "lock_shared 0 s = Some s1" "read_block io 0 s1 = Some (bytes, s2)"
    and tl: "traverse_loop io username names (default_target\<lparr>valid := True\<rparr>) (decode_inode bytes) 0 s2 = Some (t, s')"
    by (auto simp: traverse_dir_def Option.bind_eq_Some_conv)
  from this(1,2) have "holds s2 [(0, False)]"
    by (intro read_block_holds [OF holds_on_lock [OF assms(1)]]) (auto simp: may_lock_def)
  from traverse_loop_holds [OF this _ False tl] show ?thesis
    by (auto simp: coupled_def default_target_def)
qed

lemma give_up_holds:
  assumes "holds s (coupled t)" and "\<not> valid t" and "unlock_shared (parent_inode_block t) s = Some s'"
  shows "holds s' []"
  using assms(1,2) by (intro holds_on_lock [OF _ assms(3)]) (auto simp: coupled_def)

lemma move_lock_holds:
  assumes "holds s (coupled t)" and "valid t" and "move_lock e t s = Some s'"
    and e: "(e, x) \<in> {(Lock, True), (Lock_shared, False)}"
  shows "holds s' [(t_inode_block t, x)]"
proof -
  let ?b = "t_inode_block t"
  obtain s1 where s1: "on_lock e ?b s = Some s1"
    and s': "(if ?b \<noteq> 0 then unlock_shared (parent_inode_block t) s1 else Some s1) = Some s'"
    using assms(3) by (auto simp: move_lock_def Option.bind_eq_Some_conv)
  have h: "holds s1 ((?b, x) # coupled t)"
    using assms(1,2) e by (intro holds_on_lock [OF _ s1]) (auto simp: may_lock_def coupled_def)
  show ?thesis
  proof (cases "?b = 0")
    case True
    then show ?thesis using h s' assms(2) by (simp add: coupled_def)
  next
    case False
    then have "unlock_shared (parent_inode_block t) s1 = Some s'" using s' by simp
    from holds_on_lock [OF h this, of "[(?b, x)]"] show ?thesis using False assms(2) by (auto simp: coupled_def)
  qed
qed

section \<open>The handlers\<close>

lemma room_in_dir_holds:
  "holds s H \<Longrightarrow> room_in_dir b info inode s = (r, s') \<Longrightarrow> holds s' H"
  by (auto simp: room_in_dir_def Let_def holds_def lock_free_def unlock_free_def pop_free_def push_free_def
      log_event_def run_events_append split: if_splits)

lemma create_in_dir_holds:
  assumes "holds s [(dir, True)]"
    and "create_in_dir io mem type username name b dir s = Some (made, s')"
  shows "holds s' [(dir, True)]"
proof -
  let ?H = "[(dir, True)]"
  have rd: "holds s1 ?H" if "read_block io dir s = Some (bytes, s1)" for bytes s1
    by (rule read_block_holds [OF assms(1) _ that]) simp
  have ce: "holds s2 ?H" if "read_block io dir s = Some (bytes, s1)"
    "check_existance io default_target i name out s1 = Some (info, out', s2)" for bytes s1 i out info out' s2
    by (rule check_existance_holds(1) [OF rd [OF that(1)] _ that(2)]) simp
  have wr: "holds s2 ?H" if "holds s1 ?H" "write_block io x y s1 = Some s2" for x y s1 s2
    by (rule write_block_holds [OF that(1) _ that(2)]) simp
  from assms(2) show ?thesis
  proof (cases rule: create_in_dir_cases)
    case (refused bytes s1)
    with rd show ?thesis by (simp add: return_empty_block_holds)
  next
    case (present bytes s1 info out s2)
    with ce show ?thesis by (simp add: return_empty_block_holds)
  next
    case (no_room bytes s1 info out s2)
    from room_in_dir_holds [OF ce [OF no_room(1,3)] no_room(5)] show ?thesis .
  next
    case (entered bytes s1 info out s2 inode dir_block change s3 s4 s5)
    have "holds s5 ?H"
      by (rule wr [OF wr [OF room_in_dir_holds [OF ce [OF entered(1,3)] entered(5)] entered(6)] entered(7)])
    then show ?thesis using entered(8) by (auto split: if_splits intro: wr)
  qed
qed

lemma remove_entry_holds:
  assumes "holds s H" and "\<exists>h \<in> set H. snd h" and "remove_entry io dir inode i es j s = Some s'"
  shows "holds s' H"
  using assms(3)
proof (cases rule: remove_entry_cases)
  case (emptied s1)
  from return_empty_block_holds [OF write_block_holds [OF assms(1,2) emptied(2)]] emptied(3) show ?thesis by simp
next
  case cleared
  from write_block_holds [OF assms(1,2) cleared(2)] show ?thesis .
qed

lemma delete_in_dir_holds:
  assumes "holds s [(dir, True)]" and "delete_in_dir io mem username name dir s = Some (deleted, s')"
  shows "holds s' [(dir, True)]"
proof -
  let ?H = "[(dir, True)]"
  have rd: "holds s1 ?H" if "read_block io dir s = Some (bytes, s1)" for bytes s1
    by (rule read_block_holds [OF assms(1) _ that]) simp
  have ce: "holds s2 ?H" if "read_block io dir s = Some (bytes, s1)"
    "check_existance io default_target i name out s1 = Some (info, out', s2)" for bytes s1 i out info out' s2
    by (rule check_existance_holds(1) [OF rd [OF that(1)] _ that(2)]) simp
  have child: "holds s4 [(t_inode_block info, True), (dir, True)]"
    if "read_block io dir s = Some (bytes, s1)"
      "check_existance io default_target i name out s1 = Some (info, out', s2)" "valid info"
      "lock_exclusive (t_inode_block info) s2 = Some s3" "read_block io (t_inode_block info) s3 = Some (bytes2, s4)"
    for bytes s1 i out info out' s2 s3 bytes2 s4
  proof -
    have "t_inode_block info \<noteq> 0" using check_existance_holds(2) [OF rd [OF that(1)] _ that(2,3)] by simp
    then have "holds s3 [(t_inode_block info, True), (dir, True)]"
      by (intro holds_on_lock [OF ce [OF that(1,2)] that(4)]) (auto simp: may_lock_def)
    then show ?thesis by (rule read_block_holds [OF _ _ that(5)]) simp
  qed
  from assms(2) show ?thesis
  proof (cases rule: delete_in_dir_cases)
    case (refused bytes s1)
    with rd show ?thesis by simp
  next
    case (absent bytes s1 info out)
    with ce show ?thesis by simp
  next
    case (kept bytes s1 info out s2 s3 bytes2 s4)
    show ?thesis by (rule holds_on_lock [OF child [OF kept(1,3-6)] kept(8)]) simp
  next
    case (removed bytes s1 info out s2 s3 bytes2 s4 s5)
    have "holds s5 [(t_inode_block info, True), (dir, True)]"
      by (rule remove_entry_holds [OF child [OF removed(1,3-6)] _ removed(8)]) simp
    then show ?thesis by (rule holds_on_lock [OF _ removed(9)]) simp
  qed
qed

lemma push_all_trace: "push_all bs s = Some s' \<Longrightarrow> \<exists>n. trace s' = trace s @ replicate n Push"
proof (induction bs s rule: push_all.induct)
  case (1 s)
  then show ?case by (auto intro: exI [of _ 0])
next
  case (3 b bs s)
  then obtain n where "trace s' = trace (push_free b s) @ replicate n Push" by auto
  then show ?case by (auto simp: push_free_def log_event_def intro: exI [of _ "Suc n"])
qed simp

lemma run_pushes: "run_events (H, True) (replicate n Push) = Some (H, True)"
  by (induction n) auto

lemma push_all_holds:
  assumes "holds s H" and "push_all bs (lock_free s) = Some s'"
  shows "holds (unlock_free (push_free b s')) H"
proof -
  obtain n where "trace s' = trace (lock_free s) @ replicate n Push" using push_all_trace [OF assms(2)] by blast
  then show ?thesis using assms(1)
    by (simp add: holds_def lock_free_def unlock_free_def push_free_def log_event_def run_events_append run_pushes)
qed

lemma unlocked:
  "unlock_exclusive b s = Some s' \<Longrightarrow> holds s [(b, True)] \<Longrightarrow> holds s' []"
  by (rule holds_on_lock) auto

lemma unlocked_shared:
  "unlock_shared b s = Some s' \<Longrightarrow> holds s [(b, False)] \<Longrightarrow> holds s' []"
  by (rule holds_on_lock) auto

lemma read_file_holds:
  "holds s H \<Longrightarrow> H \<noteq> [] \<Longrightarrow> read_file io username block_id file s = Some (data, s') \<Longrightarrow> holds s' H"
  by (auto simp: read_file_def Option.bind_eq_Some_conv Let_def split: if_splits dest: read_block_holds)

lemma write_file_holds:
  assumes "holds s [(file, True)]"
    and "write_file io mem username block_id data file s = Some (written, s')"
  shows "holds s' [(file, True)]"
proof -
  let ?H = "[(file, True)]"
  have rd: "holds s1 ?H" if "read_block io file s = Some (bytes, s1)" for bytes s1
    by (rule read_block_holds [OF assms(1) _ that]) simp
  have wr: "holds s2 ?H" if "holds s1 ?H" "write_block io x y s1 = Some s2" for x y s1 s2
    by (rule write_block_holds [OF that(1) _ that(2)]) simp
  from assms(2) show ?thesis
  proof (cases rule: write_file_cases)
    case (refused bytes s1)
    with rd show ?thesis by simp
  next
    case (no_room bytes s1)
    with rd show ?thesis by (simp add: look_at_free_holds)
  next
    case (extended bytes s1 s2)
    show ?thesis by (rule wr [OF wr [OF take_block_holds [OF rd [OF extended(1)]] extended(4)] extended(5)])
  next
    case (overwritten bytes s1)
    show ?thesis by (rule wr [OF rd [OF overwritten(1)] overwritten(3)])
  qed
qed

lemma handle_create_holds:
  assumes "holds s []" and "handle_create io mem req username pathname s = Some s'"
  shows "holds s' []"
  using assms(2)
proof (cases rule: handle_create_cases)
  case ignored
  with assms(1) show ?thesis by simp
next
  case full
  with look_at_free_holds [OF assms(1)] show ?thesis by simp
next
  case (no_dir type req' names t s1 s2)
  from traverse_dir_holds [OF take_block_holds [OF assms(1)] no_dir(4)]
  have "holds s2 []" by (rule give_up_holds [OF _ no_dir(5,6)])
  then show ?thesis using no_dir(7) return_empty_block_holds by simp
next
  case (in_dir type req' names t s1 s2 made s3 s4)
  from traverse_dir_holds [OF take_block_holds [OF assms(1)] in_dir(4)]
  have "holds s2 [(t_inode_block t, True)]" by (rule move_lock_holds [OF _ in_dir(5,6)]) simp
  from unlocked [OF in_dir(8) create_in_dir_holds [OF this in_dir(7)]] in_dir(9)
  show ?thesis by (auto intro: reply_holds)
qed

lemma handle_delete_holds:
  assumes "holds s []" and "handle_delete io mem username pathname s = Some s'"
  shows "holds s' []"
  using assms(2)
proof (cases rule: handle_delete_cases)
  case ignored
  with assms(1) show ?thesis by simp
next
  case (no_dir names t s1)
  from traverse_dir_holds [OF assms(1) no_dir(2)] show ?thesis by (rule give_up_holds [OF _ no_dir(3,4)])
next
  case (no_entry names t s1 s2 s3)
  from traverse_dir_holds [OF assms(1) no_entry(2)]
  have "holds s2 [(t_inode_block t, True)]" by (rule move_lock_holds [OF _ no_entry(3,4)]) simp
  from unlocked [OF no_entry(6) delete_in_dir_holds [OF this no_entry(5)]] show ?thesis .
next
  case (deleted names t s1 s2 inode block s3 s4 s5)
  from traverse_dir_holds [OF assms(1) deleted(2)]
  have "holds s2 [(t_inode_block t, True)]" by (rule move_lock_holds [OF _ deleted(3,4)]) simp
  from unlocked [OF deleted(6) delete_in_dir_holds [OF this deleted(5)]]
  have "holds s4 []" .
  from push_all_holds [OF this deleted(7)] deleted(8) show ?thesis by (simp add: reply_holds)
qed

lemma handle_readblock_holds:
  assumes "holds s []" and "handle_readblock io req username pathname s = Some s'"
  shows "holds s' []"
  using assms(2)
proof (cases rule: handle_readblock_cases)
  case ignored
  with assms(1) show ?thesis by simp
next
  case (no_file block_str req' names t s1)
  from traverse_dir_holds [OF assms(1) no_file(5)] show ?thesis by (rule give_up_holds [OF _ no_file(6,7)])
next
  case (in_file block_str req' names t s1 s2 data s3 s4)
  from traverse_dir_holds [OF assms(1) in_file(5)]
  have "holds s2 [(t_inode_block t, False)]" by (rule move_lock_holds [OF _ in_file(6,7)]) simp
  from unlocked_shared [OF in_file(9) read_file_holds [OF this _ in_file(8)]] in_file(10)
  show ?thesis by (auto intro: reply_holds split: option.splits)
qed

lemma handle_writeblock_holds:
  assumes "holds s []" and "handle_writeblock io mem req username pathname sock s = Some s'"
  shows "holds s' []"
  using assms(2)
proof (cases rule: handle_writeblock_cases)
  case ignored
  with assms(1) show ?thesis by simp
next
  case (no_file block_str req' data names t s1)
  from traverse_dir_holds [OF assms(1) no_file(6)] show ?thesis by (rule give_up_holds [OF _ no_file(7,8)])
next
  case (in_file block_str req' data names t s1 s2 written s3 s4)
  from traverse_dir_holds [OF assms(1) in_file(6)]
  have "holds s2 [(t_inode_block t, True)]" by (rule move_lock_holds [OF _ in_file(7,8)]) simp
  from unlocked [OF in_file(10) write_file_holds [OF this in_file(9)]] in_file(11)
  show ?thesis by (auto intro: reply_holds)
qed

lemma handle_requests_holds:
  assumes "holds s []" and "handle_requests io mem sock s = Some s'"
  shows "holds s' []"
proof -
  have d: "holds t []" if "dispatch io mem hdr sk s = Some t" for hdr sk t
    using that handle_create_holds [OF assms(1)] handle_delete_holds [OF assms(1)]
      handle_readblock_holds [OF assms(1)] handle_writeblock_holds [OF assms(1)] assms(1)
    by (auto simp: dispatch_def Let_def split: option.splits if_splits)
  have c: "holds (close_connection t) []" if "holds t []" for t :: "'a server"
    unfolding close_connection_def by (rule holds_log [OF that]) simp
  show ?thesis using assms d c by (auto simp: handle_requests_def split: sum.splits if_splits)
qed

lemma serve_all_holds: "holds s [] \<Longrightarrow> serve_all io mem socks s = Some s' \<Longrightarrow> holds s' []"
  by (induction socks arbitrary: s) (auto simp: Option.bind_eq_Some_conv dest: handle_requests_holds)

end
