(* ===== verification/FS_Props.thy ===== *)
theory FS_Props imports FS_Start FS_Locks begin

text \<open>
  What the file server guarantees, as properties of its handlers on any disk that keeps its contract,
  and the same facts on a concrete empty disk.
\<close>

section \<open>The server's state\<close>

definition server_ok :: "'d disk_io \<Rightarrow> ('d \<Rightarrow> bool) \<Rightarrow> 'd server \<Rightarrow> bool" where
  "server_ok io good s \<longleftrightarrow> good (fs_disk s) \<and> fs_wf (contents_of io (fs_disk s)) (free_blocks s)"

definition files :: "'d disk_io \<Rightarrow> 'd server \<Rightarrow> fsmap" where
  "files io s = view (contents_of io (fs_disk s))"

lemma ok_stands:
  assumes "server_ok io good s"
  shows "fs_wf (contents_of io (fs_disk s)) (free_blocks s)"
    "stands io good s (contents_of io (fs_disk s)) (free_blocks s) (responses s)"
  using assms by (simp_all add: server_ok_def stands_def)

lemma stands_ok:
  "stands io good s c free rs \<Longrightarrow> fs_wf c free \<Longrightarrow> server_ok io good s \<and> files io s = view c \<and> responses s = rs"
  by (auto simp: server_ok_def stands_def files_def)

section \<open>A concrete disk\<close>

definition ram :: "(nat \<Rightarrow> string) disk_io" where
  "ram = \<lparr>readblock = (\<lambda>d b. if b < FS_DISKSIZE then Some (d b) else None),
     writeblock = (\<lambda>d b x. if b < FS_DISKSIZE then Some (d(b := x)) else None)\<rparr>"

definition ram_ok :: "(nat \<Rightarrow> string) \<Rightarrow> bool" where
  "ram_ok d \<longleftrightarrow> (\<forall>b < FS_DISKSIZE. length (d b) = FS_BLOCKSIZE)"

definition root_inode :: fs_inode where
  "root_inode = \<lparr>itype = CHR ''d'', owner = replicate 11 nul, isize = 0, blocks = replicate 124 0\<rparr>"

definition blank_disk :: "nat \<Rightarrow> string" where
  "blank_disk b = (if b = 0 then encode_inode root_inode else replicate FS_BLOCKSIZE nul)"

definition some_junk :: junk where
  "some_junk = \<lparr>junk_inode = root_inode, junk_entries = replicate 8 \<lparr>dname = replicate 60 (CHR ''x''), inode_block = 7\<rparr>,
     junk_heap = replicate 512 (CHR ''h''), junk_buf = CHR ''z''\<rparr>"

definition blank_server :: "(nat \<Rightarrow> string) server" where
  "blank_server = \<lparr>fs_disk = blank_disk, free_blocks = [1..<FS_DISKSIZE], trace = [], responses = []\<rparr>"

lemma ram_laws: "disk_laws ram ram_ok"
  by (auto simp: disk_laws_def ram_def ram_ok_def)

lemma junk_ok: "mem_ok some_junk"
  by (simp add: mem_ok_def some_junk_def inode_sized_def root_inode_def entries_sized_def entry_sized_def)

lemma root_inode_sized: "inode_sized root_inode"
  by (simp add: inode_sized_def root_inode_def)

lemma blank_ok: "ram_ok blank_disk"
  using length_encode_inode [OF root_inode_sized] by (simp add: ram_ok_def blank_disk_def)

lemma blank_contents: "contents_of ram blank_disk b = (if b < FS_DISKSIZE then blank_disk b else [])"
  by (simp add: contents_of_def ram_def)

lemma blank_root: "inode_at (contents_of ram blank_disk) 0 = root_inode"
  using decode_encode_inode [OF root_inode_sized] by (simp add: inode_at_def blank_contents blank_disk_def)

lemma blank_links: "links (contents_of ram blank_disk) 0 = []" "iblocks (contents_of ram blank_disk) 0 = []"
  by (simp_all add: links_def iblocks_def blank_root root_inode_def)

lemma blank_resolve: "resolve (contents_of ram blank_disk) 0 p = (if p = [] then Some 0 else None)"
  by (cases p) (simp_all add: blank_links)

lemma blank_inodes: "inodes (contents_of ram blank_disk) = {0}"
  by (simp add: inodes_def blank_resolve)

lemma blank_wf: "fs_wf (contents_of ram blank_disk) [1..<FS_DISKSIZE]"
proof -
  have "mset_set {..<FS_DISKSIZE} = add_mset 0 (mset [1..<FS_DISKSIZE])"
    by (metis One_nat_def atLeast0LessThan fs_params(6) mset.simps(2) mset_upt upt_conv_Cons zero_less_numeral)
  moreover have "length (contents_of ram blank_disk b) = FS_BLOCKSIZE" if "b < FS_DISKSIZE" for b
    using blank_ok that by (simp add: ram_ok_def blank_contents)
  ultimately show ?thesis
    by (intro fs_wfI) (simp_all add: blank_inodes kind_def blank_root root_inode_def usage_def linked_def blank_links packed_def)
qed

lemma blank_server_ok: "server_ok ram ram_ok blank_server"
  using blank_ok blank_wf by (simp add: server_ok_def blank_server_def)

lemma blank_files: "files ram blank_server p = (if p = [] then Some (Directory []) else None)"
  using blank_root by (simp add: files_def blank_server_def view_def blank_resolve node_of_def kind_def owner_of_def
    root_inode_def c_string_def)

text \<open>A server with the empty file \<open>/a\<close> of user \<open>u\<close>.\<close>

lemma few_inodes_free:
  assumes wf: "fs_wf c free" and p: "\<And>p. view c p \<noteq> None \<Longrightarrow> p \<in> set ps" and n: "length ps < 32"
  shows "free \<noteq> []"
proof
  assume "free = []"
  then have "size (usage c) = 4096" using wf_usage [OF wf] by simp
  moreover have "size (usage c) = (\<Sum>i \<in> inodes c. Suc (length (iblocks c i)))"
    by (simp add: usage_def)
  moreover have "\<dots> \<le> (\<Sum>i \<in> inodes c. 125)"
    using wf_isize [OF wf] by (intro sum_mono) (simp add: wf_length_iblocks [OF wf])
  moreover have "inodes c \<subseteq> (\<lambda>p. the (resolve c 0 p)) ` set ps"
    using p by (force simp: inodes_def view_def)
  then have "card (inodes c) \<le> length ps"
    by (meson List.finite_set card_image_le card_length card_mono finite_imageI le_trans)
  ultimately show False using n by simp
qed

lemma sample_server:
  obtains s where "server_ok ram ram_ok s" "files ram s = (files ram blank_server)([''a''] \<mapsto> File ''u'' [])"
    "free_blocks s \<noteq> []"
proof -
  have p: "path_parser ''/a'' = Some [''a'']" by code_simp
  have n: "next_word '' f'' = Some (''f'', [])" by code_simp
  have ch: "changeable (files ram blank_server) ''u'' []" by (simp add: changeable_def passable_def blank_files)
  have c0: "contents_of ram (fs_disk blank_server) = contents_of ram blank_disk" by (simp add: blank_server_def)
  obtain s' c' free' ms where r: "handle_create ram some_junk '' f'' ''u'' ''/a'' blank_server = Some s'"
    "stands ram ram_ok s' c' free' (responses blank_server @ ms)" "fs_wf c' free'"
    "create_result (files ram blank_server) ''u'' ''/a'' ''f'' ms (view c')"
    and all: "\<forall>names dir. path_parser ''/a'' = Some names \<and> changeable (files ram blank_server) ''u'' (butlast names) \<and>
       files ram blank_server names = None \<and> 2 \<le> length (free_blocks blank_server) \<and>
       resolve (contents_of ram (fs_disk blank_server)) 0 (butlast names) = Some dir \<and>
       isize (inode_at (contents_of ram (fs_disk blank_server)) dir) < FS_MAXFILEBLOCKS \<longrightarrow> ms \<noteq> []"
    using handle_create_refines [OF ram_laws ok_stands [OF blank_server_ok] junk_ok, of "''u''" "''/a''" "'' f''", folded files_def]
    by (auto simp: n user_ok_def)
  from all [rule_format, of "[''a'']" 0] p ch c0 have "ms \<noteq> []"
    by (simp add: blank_files blank_resolve blank_root root_inode_def) (simp add: blank_server_def)
  with r(4) p have v: "view c' = (files ram blank_server)([''a''] \<mapsto> File ''u'' [])"
    by (auto simp: create_result_def new_node_def)
  moreover have "free' \<noteq> []"
    by (rule few_inodes_free [OF r(3), of "[[], [''a'']]"]) (auto simp: v blank_files split: if_splits)
  ultimately show ?thesis using stands_ok [OF r(2,3)] stands_free [OF r(2)] by (intro that [of s']) auto
qed

section \<open>The handlers\<close>

lemma create_answered:
  assumes "disk_laws io good" "server_ok io good s" "mem_ok mem" "user_ok u" "pathname \<noteq> []" "nul \<notin> set pathname"
    and "next_word req = Some (type, rest)"
  shows "\<exists>s' ms. handle_create io mem req u pathname s = Some s' \<and> server_ok io good s' \<and>
    responses s' = responses s @ ms \<and> create_result (files io s) u pathname type ms (files io s') \<and>
    (\<forall>names dir. type \<in> {''f'', ''d''} \<and> path_parser pathname = Some names \<and> changeable (files io s) u (butlast names) \<and>
       files io s names = None \<and> 2 \<le> length (free_blocks s) \<and>
       resolve (contents_of io (fs_disk s)) 0 (butlast names) = Some dir \<and>
       isize (inode_at (contents_of io (fs_disk s)) dir) < FS_MAXFILEBLOCKS \<longrightarrow> ms \<noteq> [])"
proof -
  note st = ok_stands [OF assms(2)]
  obtain s' c' free' ms where "handle_create io mem req u pathname s = Some s'"
    "stands io good s' c' free' (responses s @ ms)" "fs_wf c' free'"
    and res: "case next_word req of None \<Rightarrow> ms = [] \<and> view c' = files io s
      | Some (type, _) \<Rightarrow> create_result (files io s) u pathname type ms (view c') \<and>
        (\<forall>names dir. type \<in> {''f'', ''d''} \<and> path_parser pathname = Some names \<and> changeable (files io s) u (butlast names) \<and>
           files io s names = None \<and> 2 \<le> length (free_blocks s) \<and>
           resolve (contents_of io (fs_disk s)) 0 (butlast names) = Some dir \<and>
           isize (inode_at (contents_of io (fs_disk s)) dir) < FS_MAXFILEBLOCKS \<longrightarrow> ms \<noteq> [])"
    using handle_create_refines [OF assms(1) st assms(3-6), of req, folded files_def] by (elim exE conjE) (rule that)
  with stands_ok [of io good s' c' free' "responses s @ ms"] assms(7) show ?thesis
    by (intro exI [of _ s'] exI [of _ ms]) simp
qed

text \<open>C16. On a well-formed disk \<open>FS_CREATE\<close> never brings the server down and keeps the disk well
  formed, whatever the path. It answers exactly when it has added the file or directory, empty and owned
  by the user, at a path that was free, below a directory the user may change and has access to; without
  an answer it has changed nothing. It does answer when in addition two blocks are free and the directory
  is not at its largest size.\<close>
theorem create_refines:
  assumes "disk_laws io good" "server_ok io good s" "mem_ok mem" "user_ok u" "pathname \<noteq> []" "nul \<notin> set pathname"
    and "next_word req = Some (type, rest)"
  shows "\<exists>s' ms. handle_create io mem req u pathname s = Some s' \<and> server_ok io good s' \<and>
    responses s' = responses s @ ms \<and> create_result (files io s) u pathname type ms (files io s') \<and>
    (\<forall>names dir. type \<in> {''f'', ''d''} \<and> path_parser pathname = Some names \<and> changeable (files io s) u (butlast names) \<and>
       files io s names = None \<and> 2 \<le> length (free_blocks s) \<and>
       resolve (contents_of io (fs_disk s)) 0 (butlast names) = Some dir \<and>
       isize (inode_at (contents_of io (fs_disk s)) dir) < FS_MAXFILEBLOCKS \<longrightarrow> ms \<noteq> [])"
  by (rule create_answered [OF assms])

text \<open>The path \<open>/a\<close> is free on the empty disk: the request to create a file there is answered.\<close>
lemma create_refines_witness:
  "\<exists>s' ms. handle_create ram some_junk '' f'' ''u'' ''/a'' blank_server = Some s' \<and> server_ok ram ram_ok s' \<and>
     create_result (files ram blank_server) ''u'' ''/a'' ''f'' ms (files ram s') \<and> ms \<noteq> []"
proof -
  have p: "path_parser ''/a'' = Some [''a'']" by code_simp
  have n: "next_word '' f'' = Some (''f'', [])" by code_simp
  have u: "user_ok ''u''" by (simp add: user_ok_def)
  have ch: "changeable (files ram blank_server) ''u'' []" by (simp add: changeable_def passable_def blank_files)
  have c0: "contents_of ram (fs_disk blank_server) = contents_of ram blank_disk" by (simp add: blank_server_def)
  from create_refines [OF ram_laws blank_server_ok junk_ok u _ _ n, of "''/a''"] obtain s' ms where
    r: "handle_create ram some_junk '' f'' ''u'' ''/a'' blank_server = Some s'" "server_ok ram ram_ok s'"
      "create_result (files ram blank_server) ''u'' ''/a'' ''f'' ms (files ram s')"
    and "\<forall>names dir. ''f'' \<in> {''f'', ''d''} \<and> path_parser ''/a'' = Some names \<and>
       changeable (files ram blank_server) ''u'' (butlast names) \<and> files ram blank_server names = None \<and>
       2 \<le> length (free_blocks blank_server) \<and>
       resolve (contents_of ram (fs_disk blank_server)) 0 (butlast names) = Some dir \<and>
       isize (inode_at (contents_of ram (fs_disk blank_server)) dir) < FS_MAXFILEBLOCKS \<longrightarrow> ms \<noteq> []"
    by auto
  from this(4) [rule_format, of "[''a'']" 0] p ch c0 have "ms \<noteq> []"
    by (simp add: blank_files blank_resolve blank_root root_inode_def) (simp add: blank_server_def)
  with r show ?thesis by blast
qed

lemma delete_answered:
  assumes "disk_laws io good" "server_ok io good s" "mem_ok mem" "pathname \<noteq> []" "nul \<notin> set pathname"
  shows "\<exists>s' ms. handle_delete io mem u pathname s = Some s' \<and> server_ok io good s' \<and>
    responses s' = responses s @ ms \<and> delete_result (files io s) u pathname ms (files io s') \<and>
    (\<forall>names n. path_parser pathname = Some names \<and> changeable (files io s) u (butlast names) \<and>
       files io s names = Some n \<and> owner_is u n \<and> (\<forall>x. files io s (names @ [x]) = None) \<longrightarrow> ms \<noteq> [])"
proof -
  obtain s' c' free' ms where "handle_delete io mem u pathname s = Some s'"
    "stands io good s' c' free' (responses s @ ms)" "fs_wf c' free'"
    "delete_result (files io s) u pathname ms (view c')"
    "\<forall>names n. path_parser pathname = Some names \<and> changeable (files io s) u (butlast names) \<and>
       files io s names = Some n \<and> owner_is u n \<and> (\<forall>x. files io s (names @ [x]) = None) \<longrightarrow> ms \<noteq> []"
    using handle_delete_refines [OF assms(1) ok_stands [OF assms(2)] assms(3-5), of u, folded files_def]
    by (elim exE conjE) (rule that)
  with stands_ok [of io good s' c' free' "responses s @ ms"] show ?thesis
    by (intro exI [of _ s'] exI [of _ ms]) simp
qed

text \<open>C17. \<open>FS_DELETE\<close> on a well-formed disk: an answer is given exactly when a file or directory has gone
  that was the user's own and had nothing below it, from a directory the user may change; otherwise nothing
  changes. Whatever may be deleted in this sense is deleted, directories too, since no block of a directory is kept
  without a name in it. The blocks of what was deleted are free again, since the disk stays well formed.\<close>
theorem delete_refines:
  assumes "disk_laws io good" "server_ok io good s" "mem_ok mem" "pathname \<noteq> []" "nul \<notin> set pathname"
  shows "\<exists>s' ms. handle_delete io mem u pathname s = Some s' \<and> server_ok io good s' \<and>
    responses s' = responses s @ ms \<and> delete_result (files io s) u pathname ms (files io s') \<and>
    (\<forall>names n. path_parser pathname = Some names \<and> changeable (files io s) u (butlast names) \<and>
       files io s names = Some n \<and> owner_is u n \<and> (\<forall>x. files io s (names @ [x]) = None) \<longrightarrow> ms \<noteq> [])"
  by (rule delete_answered [OF assms])

lemma delete_refines_witness:
  "\<exists>s s'. files ram s [''a''] = Some (File ''u'' []) \<and> handle_delete ram some_junk ''u'' ''/a'' s = Some s' \<and>
     files ram s' [''a''] = None"
proof -
  have p: "path_parser ''/a'' = Some [''a'']" by code_simp
  obtain s where s: "server_ok ram ram_ok s" "files ram s = (files ram blank_server)([''a''] \<mapsto> File ''u'' [])"
    by (rule sample_server)
  have ch: "changeable (files ram s) ''u'' []" by (simp add: changeable_def passable_def s(2) blank_files)
  from delete_refines [OF ram_laws s(1) junk_ok, of "''/a''" "''u''"] obtain s' ms where
    r: "handle_delete ram some_junk ''u'' ''/a'' s = Some s'" "delete_result (files ram s) ''u'' ''/a'' ms (files ram s')"
      "\<forall>names n. path_parser ''/a'' = Some names \<and> changeable (files ram s) ''u'' (butlast names) \<and>
       files ram s names = Some n \<and> owner_is ''u'' n \<and> (\<forall>x. files ram s (names @ [x]) = None) \<longrightarrow> ms \<noteq> []" by auto
  have "ms \<noteq> []" by (rule r(3) [rule_format, of "[''a'']" "File ''u'' []"]) (use p ch s(2) in \<open>simp add: blank_files\<close>)
  with r(2) p have "files ram s' [''a''] = None" by (auto simp: delete_result_def)
  with r(1) s(2) show ?thesis by (intro exI [of _ s] exI [of _ s']) simp
qed

lemma readblock_answered:
  assumes "disk_laws io good" "server_ok io good s"
  shows "\<exists>s'. handle_readblock io req u pathname s = Some s' \<and> server_ok io good s' \<and> files io s' = files io s \<and>
    responses s' = responses s @ read_result (files io s) u pathname req"
  using handle_readblock_refines [OF assms(1) ok_stands [OF assms(2)], of req u pathname, folded files_def]
    stands_ok ok_stands(1) [OF assms(2)] unfolding files_def by blast

text \<open>C19. \<open>FS_READBLOCK\<close> changes nothing and answers exactly when the block number is a number of at most
  three digits that a file may have, the path has the right form, the user has access to it, it is his
  file and the file has the block; the answer is then the block.\<close>
theorem read_refines:
  assumes "disk_laws io good" "server_ok io good s"
  shows "\<exists>s'. handle_readblock io req u pathname s = Some s' \<and> server_ok io good s' \<and> files io s' = files io s \<and>
    responses s' = responses s @ read_result (files io s) u pathname req"
  by (rule readblock_answered [OF assms])

lemma a_path: "path_parser ''/a'' = Some [''a'']" "block_number '' 0'' = Some (''0'', 0)"
  by code_simp+

lemma read_refines_witness:
  "\<exists>s'. handle_readblock ram '' 0'' ''u'' ''/a'' blank_server = Some s' \<and> responses s' = []"
  using read_refines [OF ram_laws blank_server_ok, of "'' 0''" "''u''" "''/a''"]
  by (auto simp: read_result_def blank_files a_path) (simp add: blank_server_def)

lemma handle_writeblock_delivered:
  assumes "disk_laws io good" "server_ok io good s" "mem_ok mem" "delivers sock bytes"
  shows "\<exists>s' ms. handle_writeblock io mem req u pathname sock s = Some s' \<and> server_ok io good s' \<and>
    responses s' = responses s @ ms \<and>
    write_result (files io s) u pathname req (block_at mem (take FS_BLOCKSIZE bytes)) ms (files io s') \<and>
    (\<forall>w k names ds. block_number req = Some (w, k) \<and> path_parser pathname = Some names \<and> passable (files io s) u names \<and>
       files io s names = Some (File u ds) \<and> (k < length ds \<or> k = length ds \<and> free_blocks s \<noteq> []) \<longrightarrow> ms \<noteq> [])"
proof -
  have data: "recv_data [] 0 sock = Some (take FS_BLOCKSIZE bytes)" using recv_data_delivered [OF assms(4), of 0 "[]"] by simp
  obtain s' c' free' ms where "handle_writeblock io mem req u pathname sock s = Some s'"
    "stands io good s' c' free' (responses s @ ms)" "fs_wf c' free'"
    "write_result (files io s) u pathname req (block_at mem (take FS_BLOCKSIZE bytes)) ms (view c')"
    "\<forall>w k names ds. block_number req = Some (w, k) \<and> path_parser pathname = Some names \<and> passable (files io s) u names \<and>
       files io s names = Some (File u ds) \<and> (k < length ds \<or> k = length ds \<and> free_blocks s \<noteq> []) \<longrightarrow> ms \<noteq> []"
    using handle_writeblock_refines [OF assms(1) ok_stands [OF assms(2)] assms(3) data, of req u pathname, folded files_def]
    by (elim exE conjE) (rule that)
  with stands_ok [of io good s' c' free' "responses s @ ms"] show ?thesis
    by (intro exI [of _ s'] exI [of _ ms]) simp
qed

text \<open>C18. \<open>FS_WRITEBLOCK\<close>, its data delivered in any pieces: an answer is given exactly when the user's own
  file has taken the 512 bytes at the data's address as its block, replacing an old block or extending the
  file by one; otherwise nothing changes. Blocks of the file are always replaced, and the file is extended
  whenever a block is free.\<close>
theorem write_refines:
  assumes "disk_laws io good" "server_ok io good s" "mem_ok mem" "delivers sock bytes"
  shows "\<exists>s' ms. handle_writeblock io mem req u pathname sock s = Some s' \<and> server_ok io good s' \<and>
    responses s' = responses s @ ms \<and>
    write_result (files io s) u pathname req (block_at mem (take FS_BLOCKSIZE bytes)) ms (files io s') \<and>
    (\<forall>w k names ds. block_number req = Some (w, k) \<and> path_parser pathname = Some names \<and> passable (files io s) u names \<and>
       files io s names = Some (File u ds) \<and> (k < length ds \<or> k = length ds \<and> free_blocks s \<noteq> []) \<longrightarrow> ms \<noteq> [])"
  by (rule handle_writeblock_delivered [OF assms])

lemma a_passable: "passable V u [''a'']"
  by (auto simp: passable_def Cons_eq_append_conv)

lemma write_refines_witness:
  "\<exists>s s'. handle_writeblock ram some_junk '' 0'' ''u'' ''/a'' [Some (replicate 512 (CHR ''x''))] s = Some s' \<and>
     files ram s' [''a''] = Some (File ''u'' [replicate 512 (CHR ''x'')])"
proof -
  let ?x = "replicate 512 (CHR ''x'')"
  obtain s where s: "server_ok ram ram_ok s" "files ram s = (files ram blank_server)([''a''] \<mapsto> File ''u'' [])"
    "free_blocks s \<noteq> []" by (rule sample_server)
  have d: "delivers [Some ?x] ?x" unfolding delivers_def by (intro exI [of _ "[?x]"]) simp
  have b: "block_at some_junk (take FS_BLOCKSIZE ?x) = ?x" by (simp add: block_at_def)
  from write_refines [OF ram_laws s(1) junk_ok d, of "'' 0''" "''u''" "''/a''"] obtain s' ms where
    r: "handle_writeblock ram some_junk '' 0'' ''u'' ''/a'' [Some ?x] s = Some s'"
      "write_result (files ram s) ''u'' ''/a'' '' 0'' ?x ms (files ram s')" "ms \<noteq> []"
    using a_path a_passable s(2,3) unfolding b by auto
  from r(2,3) s(2) have "files ram s' [''a''] = Some (File ''u'' [?x])"
    by (auto simp: write_result_def a_path put_block_def)
  with r(1) show ?thesis by blast
qed

lemma passable_self [simp]: "passable (V(p := n)) u p \<longleftrightarrow> passable V u p"
  by (auto simp: passable_def)

text \<open>What an answered \<open>FS_WRITEBLOCK\<close> has written, \<open>FS_READBLOCK\<close> of the same block answers.\<close>
theorem read_after_write:
  assumes "disk_laws io good" "server_ok io good s" "mem_ok mem" "delivers sock (x @ rest)" "length x = FS_BLOCKSIZE"
    and "handle_writeblock io mem req u pathname sock s = Some s1" "responses s1 \<noteq> responses s"
  shows "\<exists>s2 w r. next_word req = Some (w, r) \<and> handle_readblock io req u pathname s1 = Some s2 \<and>
    responses s2 = responses s1 @ [''FS_READBLOCK '' @ u @ '' '' @ pathname @ '' '' @ w @ [nul] @ x]"
proof -
  have x: "block_at mem (take FS_BLOCKSIZE (x @ rest)) = x" using assms(5) by (simp add: block_at_def)
  from handle_writeblock_delivered [OF assms(1-4), of req u pathname] assms(6,7)
  obtain ms where w: "server_ok io good s1" "write_result (files io s) u pathname req x ms (files io s1)" "ms \<noteq> []"
    unfolding x by auto
  then obtain w k names ds where r: "block_number req = Some (w, k)" "path_parser pathname = Some names"
    "passable (files io s) u names" "k \<le> length ds" "files io s1 = (files io s)(names \<mapsto> File u (put_block k x ds))"
    by (auto simp: write_result_def)
  then have "read_result (files io s1) u pathname req
      = [''FS_READBLOCK '' @ u @ '' '' @ pathname @ '' '' @ w @ [nul] @ x]"
    by (auto simp: read_result_def put_block_def nth_append simp del: append.simps)
  moreover obtain rw where "next_word req = Some (w, rw)"
    using r(1) by (auto simp: block_number_def split: option.splits if_splits)
  ultimately show ?thesis
    using handle_readblock_refines [OF assms(1) ok_stands [OF w(1)], of req u pathname, folded files_def]
    by (auto simp: stands_def simp del: append.simps)
qed

lemma read_after_write_witness:
  "\<exists>s1 s2. handle_readblock ram '' 0'' ''u'' ''/a'' s1 = Some s2 \<and> responses s2 = responses s1 @
     [''FS_READBLOCK '' @ ''u'' @ '' '' @ ''/a'' @ '' '' @ ''0'' @ [nul] @ replicate 512 (CHR ''x'')]"
proof -
  let ?x = "replicate 512 (CHR ''x'')"
  obtain s where s: "server_ok ram ram_ok s" "files ram s = (files ram blank_server)([''a''] \<mapsto> File ''u'' [])"
    "free_blocks s \<noteq> []" by (rule sample_server)
  have d: "delivers [Some ?x] (?x @ [])" unfolding delivers_def by (intro exI [of _ "[?x]"]) simp
  from handle_writeblock_delivered [OF ram_laws s(1) junk_ok d, of "'' 0''" "''u''" "''/a''"] obtain s1 where
    r: "handle_writeblock ram some_junk '' 0'' ''u'' ''/a'' [Some ?x] s = Some s1" "responses s1 \<noteq> responses s"
    using a_path a_passable s(2,3) by auto
  have n: "next_word '' 0'' = Some (''0'', [])" by code_simp
  from read_after_write [OF ram_laws s(1) junk_ok d _ r] n show ?thesis by (auto simp del: append.simps)
qed

section \<open>The server\<close>

text \<open>C21. A request never touches what another user owns: after any request of user \<open>u\<close>, whatever its
  header and data, a file or directory that belongs to someone else is there as before, with the same
  contents.\<close>
theorem other_users_untouched:
  assumes "disk_laws io good" "server_ok io good s" "mem_ok mem" "nul \<notin> set hdr" "None \<notin> set sock"
    and "dispatch io mem hdr sock s = Some s'" "files io s p = Some n" "\<not> owner_is (user_of hdr) n"
  shows "files io s' p = Some n"
proof -
  obtain c' where "fs_step (user_of hdr) (files io s) (view c')" "files io s' = view c'"
    using dispatch_step [OF assms(1) ok_stands [OF assms(2)] assms(3-5), folded files_def] assms(6) stands_ok by fastforce
  with step_other_owner assms(7,8) show ?thesis by metis
qed

lemma other_users_untouched_witness:
  "\<exists>s s'. dispatch ram some_junk ''FS_DELETE v /a'' [] s = Some s' \<and> files ram s' [''a''] = Some (File ''u'' [])"
proof -
  obtain s where s: "server_ok ram ram_ok s" "files ram s = (files ram blank_server)([''a''] \<mapsto> File ''u'' [])"
    by (rule sample_server)
  have u: "user_of ''FS_DELETE v /a'' = ''v''" by code_simp
  obtain s' where r: "dispatch ram some_junk ''FS_DELETE v /a'' [] s = Some s'"
    using dispatch_step [OF ram_laws ok_stands [OF s(1)] junk_ok, of "''FS_DELETE v /a''" "[]"] by auto
  have "files ram s' [''a''] = Some (File ''u'' [])"
    by (rule other_users_untouched [OF ram_laws s(1) junk_ok _ _ r]) (simp_all add: s(2) u)
  with r show ?thesis by blast
qed

text \<open>C20. As long as no \<open>recv\<close> fails, the server answers any sequence of connections, whatever their
  bytes, without coming down: the disk is well formed at the end, and the file system has only made steps
  of the abstract one.\<close>
theorem server_survives:
  assumes "disk_laws io good" "mem_ok mem" "server_ok io good s" "\<forall>sock \<in> set socks. None \<notin> set sock"
  shows "\<exists>s'. serve_all io mem socks s = Some s' \<and> server_ok io good s' \<and>
    (\<lambda>V V'. \<exists>u. fs_step u V V')\<^sup>*\<^sup>* (files io s) (files io s')"
  using serve_all_steps [OF assms(1,2) ok_stands [OF assms(3)] assms(4), folded files_def] stands_ok by fastforce

lemma server_survives_witness:
  "\<exists>s'. serve_all ram some_junk [[Some ''FS_CR''], [Some ''FS_CREATE u /a d'', Some [nul]], []] blank_server = Some s' \<and>
     server_ok ram ram_ok s'"
  using server_survives [OF ram_laws junk_ok blank_server_ok,
    of "[[Some ''FS_CR''], [Some ''FS_CREATE u /a d'', Some [nul]], []]"] by auto

text \<open>C22. A server that starts on a disk another has left well formed comes up, with the same file system
  and the same blocks free: the breadth-first search of the start ends and finds the blocks in use.\<close>
theorem restart:
  assumes "disk_laws io good" "server_ok io good s"
  shows "\<exists>s'. init_server io (fs_disk s) = Some s' \<and> server_ok io good s' \<and> files io s' = files io s \<and>
    mset (free_blocks s') = mset (free_blocks s)"
proof -
  have g: "good (fs_disk s)" "fs_wf (contents_of io (fs_disk s)) (free_blocks s)" using assms(2) by (simp_all add: server_ok_def)
  from init_free_blocks_spec [OF assms(1) g] obtain free where
    f: "init_free_blocks io (fs_disk s) = Some free" "mset free = mset (free_blocks s)" by blast
  from wf_free_perm [OF g(2) f(2)] f g(1) show ?thesis by (simp add: init_server_def server_ok_def files_def)
qed

lemma restart_witness:
  "\<exists>s'. init_server ram blank_disk = Some s' \<and> mset (free_blocks s') = mset [1..<FS_DISKSIZE]"
proof -
  obtain s' where "init_server ram (fs_disk blank_server) = Some s'" "mset (free_blocks s') = mset (free_blocks blank_server)"
    using restart [OF ram_laws blank_server_ok] by blast
  then show ?thesis by (simp only: blank_server_def server.simps) blast
qed

text \<open>C24. Whatever the requests and the disk, the locks are used with discipline: never more than two disk
  locks at once and the second only after the first, the root's first of all; disk blocks are read and
  written under a lock, written under an exclusive one; the lock of the free blocks is the innermost; a
  connection ends and the server goes on with every lock released.\<close>
theorem lock_discipline:
  assumes "trace s = []" "serve_all io mem socks s = Some s'"
  shows "run_events ([], False) (trace s') = Some ([], False)"
  using serve_all_holds [of s io mem socks s'] assms by (simp add: holds_def)

lemma lock_discipline_witness:
  "\<exists>s'. serve_all ram some_junk [[Some ''FS_CREATE u /a f'', Some [nul]]] blank_server = Some s' \<and>
     run_events ([], False) (trace s') = Some ([], False)"
proof -
  have n: "\<forall>sock \<in> set [[Some ''FS_CREATE u /a f'', Some [nul]]]. None \<notin> set sock" by simp
  obtain s' where r: "serve_all ram some_junk [[Some ''FS_CREATE u /a f'', Some [nul]]] blank_server = Some s'"
    using serve_all_steps [OF ram_laws junk_ok ok_stands [OF blank_server_ok] n] by (elim exE conjE) (rule that)
  have "trace blank_server = []" by (simp add: blank_server_def)
  from lock_discipline [OF this r] r show ?thesis by blast
qed

section \<open>Texts and layouts\<close>

text \<open>C26. \<open>path_parser\<close> accepts exactly the paths that are written from a non-empty list of names, each
  non-empty, without \<open>/\<close> and of at most 59 characters, with a \<open>/\<close> before each; it gives back the names.\<close>
theorem path_roundtrip:
  assumes "pathname \<noteq> []"
  shows "path_parser pathname = Some names \<longleftrightarrow>
    names \<noteq> [] \<and> (\<forall>n \<in> set names. valid_name n) \<and> pathname = show_path names"
  by (rule path_parser_iff [OF assms])

lemma path_roundtrip_witness:
  "path_parser ''/usr/a'' = Some [''usr'', ''a''] \<and> path_parser ''/usr/'' = None"
proof -
  have "path_parser ''/usr/a'' = Some [''usr'', ''a'']" by (subst path_roundtrip) (simp_all add: valid_name_def)
  moreover have "path_parser ''/usr/'' = None" by code_simp
  ultimately show ?thesis by blast
qed

text \<open>The bytes of a disk block and the C structures in it correspond one to one: every block is the
  image of the inode, and of the eight entries, that are read from it, and every inode and every array of
  entries is read back as it was written, in 512 bytes.\<close>
theorem block_layouts:
  assumes "length bs = FS_BLOCKSIZE" "inode_sized i" "entries_sized es"
  shows "encode_inode (decode_inode bs) = bs \<and> encode_entries (decode_entries bs) = bs \<and>
    decode_inode (encode_inode i) = i \<and> decode_entries (encode_entries es) = es \<and>
    length (encode_inode i) = FS_BLOCKSIZE \<and> length (encode_entries es) = FS_BLOCKSIZE"
  by (intro conjI encode_decode_inode [OF assms(1)] encode_decode_entries [OF assms(1)] decode_encode_inode [OF assms(2)]
    decode_encode_entries [OF assms(3)] length_encode_inode [OF assms(2)] length_encode_entries [OF assms(3)])

lemma block_layouts_witness:
  "decode_inode (encode_inode root_inode) = root_inode \<and>
   encode_entries (decode_entries (replicate FS_BLOCKSIZE (CHR ''x''))) = replicate FS_BLOCKSIZE (CHR ''x'')"
proof -
  have e: "entries_sized (decode_entries (replicate FS_BLOCKSIZE nul))" by (rule decode_entries_sized) simp
  have l: "length (replicate FS_BLOCKSIZE (CHR ''x'')) = FS_BLOCKSIZE" by (rule length_replicate)
  from block_layouts [OF l root_inode_sized e] show ?thesis by blast
qed

section \<open>Messages\<close>

text \<open>A request is understood however its bytes arrive: when the connection delivers a header with its
  null byte, in any pieces, and anything after it, the server dispatches exactly that header, and leaves
  what comes after it to be received as data.\<close>
lemma header_framing:
  assumes "delivers sock (hdr @ nul # rest)" "nul \<notin> set hdr" "length hdr \<le> max_header_len"
  shows "\<exists>sock'. delivers sock' rest \<and>
    handle_requests io mem sock s = map_option close_connection (dispatch io mem hdr sock' s)"
  using recv_header_delivered [OF assms(1,2), of 0 "[]" "junk_buf mem"] assms(3) by (auto simp: handle_requests_def)

lemma header_framing_witness:
  "\<exists>sock'. delivers sock' ''xy'' \<and> handle_requests ram some_junk [Some ''FS_'', Some (''DELETE u /a'' @ [nul, CHR ''x'']), Some ''y'']
      blank_server = map_option close_connection (dispatch ram some_junk ''FS_DELETE u /a'' sock' blank_server)"
proof -
  have "delivers [Some ''FS_'', Some (''DELETE u /a'' @ [nul, CHR ''x'']), Some ''y''] (''FS_DELETE u /a'' @ nul # ''xy'')"
    unfolding delivers_def by (intro exI [of _ "[''FS_'', ''DELETE u /a'' @ [nul, CHR ''x''], ''y'']"]) simp
  from header_framing [OF this, of ram some_junk blank_server] show ?thesis by (simp add: max_header_len_def)
qed

text \<open>The four requests, written with single blanks between the words, reach their handlers with the
  user, the path and the rest of the header; with another type nothing happens.\<close>
lemma request_formats:
  assumes "word ty" "word user" "word path" "word arg"
    and "length user \<le> FS_MAXUSERNAME" "length path \<le> FS_MAXPATHNAME"
  shows "dispatch io mem (ty @ CHR '' '' # user @ CHR '' '' # path @ CHR '' '' # arg) sock s =
      (if ty = ''FS_READBLOCK'' then handle_readblock io (CHR '' '' # arg) user path s
       else if ty = ''FS_WRITEBLOCK'' then handle_writeblock io mem (CHR '' '' # arg) user path sock s
       else if ty = ''FS_CREATE'' then handle_create io mem (CHR '' '' # arg) user path s
       else Some s) \<and>
    dispatch io mem (''FS_DELETE'' @ CHR '' '' # user @ CHR '' '' # path) sock s = handle_delete io mem user path s"
  using dispatch_four [OF assms] dispatch_three [OF assms(2,3,5,6)] by blast

lemma request_formats_witness:
  "dispatch ram some_junk (''FS_READBLOCK'' @ CHR '' '' # ''u'' @ CHR '' '' # ''/a'' @ CHR '' '' # ''0'') [] blank_server =
     handle_readblock ram '' 0'' ''u'' ''/a'' blank_server"
  using request_formats [of "''FS_READBLOCK''" "''u''" "''/a''" "''0''" ram some_junk "[]" blank_server]
  by (simp add: word_def is_space_def)

text \<open>\<open>send_response\<close> puts the whole message on the wire, each byte once and in order, whatever part of
  the rest each call of \<open>send\<close> accepts.\<close>
lemma response_sent:
  assumes "message \<noteq> []" "sends_all (length message) ns"
  shows "send_response message 0 ns wire = Some (wire @ message)"
  using send_response_loop [of message 0 ns wire] assms by simp

lemma response_sent_witness: "send_response ''abcd'' 0 [1, 3] [] = Some ''abcd''"
  using response_sent [of "''abcd''" "[1, 3]" "[]"] by simp

section \<open>Where the code falls short\<close>

lemma recv_header_fails:
  assumes "nul \<notin> set (concat ps)" "[] \<notin> set ps" "recvd + length (concat ps) \<le> max_header_len" "ps \<noteq> [] \<or> buf \<noteq> nul"
  shows "recv_header hdr recvd buf (map Some ps @ None # sock) = Inl False"
  using assms
proof (induction "concat ps" arbitrary: ps hdr recvd buf)
  case Nil
  then have "ps = []" by (cases ps) auto
  with Nil show ?case by (subst recv_header.simps) simp
next
  case (Cons c cs)
  then obtain p qs where "ps = p # qs" "p \<noteq> []" by (cases ps) auto
  with Cons.hyps(2) obtain q where p: "ps = (c # q) # qs" by (cases p) auto
  let ?ps = "if q = [] then qs else q # qs"
  have m: "recv 1 (map Some ps @ None # sock) = (Some [c], map Some ?ps @ None # sock)" using p by simp
  have r: "cs = concat ?ps" using Cons.hyps(2) p by auto
  have "recv_header (hdr @ [c]) (recvd + 1) c (map Some ?ps @ None # sock) = Inl False"
    using Cons.prems p by (intro Cons.hyps(1) [OF r]) auto
  with m Cons.prems p show ?case by (subst recv_header.simps) auto
qed

text \<open>A \<open>recv\<close> that fails in the middle of a header brings the server down: the error value -1 is
  passed to \<open>append\<close> as a length before it is tested, and the exception is caught nowhere.\<close>
theorem failed_recv_kills:
  assumes "ps \<noteq> []" "[] \<notin> set ps" "nul \<notin> set (concat ps)" "length (concat ps) \<le> max_header_len"
  shows "handle_requests io mem (map Some ps @ None # sock) s = None"
  using recv_header_fails [OF assms(3,2), of 0 "junk_buf mem" "[]" sock] assms(1,4) by (simp add: handle_requests_def)

lemma failed_recv_kills_witness: "handle_requests ram some_junk [Some ''FS'', None] blank_server = None"
  using failed_recv_kills [of "[''FS'']" ram some_junk "[]" blank_server] by (simp add: max_header_len_def)

text \<open>C28. A client that closes the connection before the 512 bytes of its \<open>FS_WRITEBLOCK\<close> have arrived is
  answered as if they had: the block of his file takes what follows the received bytes in the server's
  memory, and can then be read.\<close>
theorem short_write_stores_memory:
  assumes "disk_laws io good" "server_ok io good s" "mem_ok mem" "delivers sock bytes" "length bytes < FS_BLOCKSIZE"
    and "block_number req = Some (w, k)" "path_parser pathname = Some names" "passable (files io s) u names"
    and "files io s names = Some (File u ds)" "k < length ds"
  shows "\<exists>s'. handle_writeblock io mem req u pathname sock s = Some s' \<and> files io s' names = Some (File u
    (ds[k := bytes @ nul # take (FS_BLOCKSIZE - length bytes - 1) (junk_heap mem)]))"
proof -
  have b: "block_at mem (take FS_BLOCKSIZE bytes) = bytes @ nul # take (FS_BLOCKSIZE - length bytes - 1) (junk_heap mem)"
    using assms(5) by (simp add: block_at_def take_Cons')
  from handle_writeblock_delivered [OF assms(1-4), of req u pathname] assms(6-10) obtain s' ms where
    "handle_writeblock io mem req u pathname sock s = Some s'" "ms \<noteq> []"
    "write_result (files io s) u pathname req (block_at mem (take FS_BLOCKSIZE bytes)) ms (files io s')" by auto
  with assms(6-10) show ?thesis unfolding b by (auto simp: write_result_def put_block_def)
qed

lemma short_write_stores_memory_witness:
  "\<exists>s s' ds. handle_writeblock ram some_junk '' 0'' ''u'' ''/a'' [Some ''hi''] s = Some s' \<and>
     files ram s' [''a''] = Some (File ''u'' (ds[0 := ''hi'' @ nul # replicate 509 (CHR ''h'')]))"
proof -
  let ?x = "replicate 512 (CHR ''x'')"
  obtain s where s: "server_ok ram ram_ok s" "files ram s = (files ram blank_server)([''a''] \<mapsto> File ''u'' [])"
    "free_blocks s \<noteq> []" by (rule sample_server)
  have d: "delivers [Some ?x] ?x" unfolding delivers_def by (intro exI [of _ "[?x]"]) simp
  have d2: "delivers [Some ''hi''] ''hi''" unfolding delivers_def by (intro exI [of _ "[''hi'']"]) simp
  from handle_writeblock_delivered [OF ram_laws s(1) junk_ok d, of "'' 0''" "''u''" "''/a''"] obtain s1 ms where
    r: "server_ok ram ram_ok s1" "write_result (files ram s) ''u'' ''/a'' '' 0'' (block_at some_junk (take FS_BLOCKSIZE ?x)) ms
      (files ram s1)" "ms \<noteq> []"
    using a_path a_passable s(2,3) by auto
  then obtain ds where f: "files ram s1 [''a''] = Some (File ''u'' ds)" "0 < length ds"
    using s(2) by (auto simp: write_result_def a_path put_block_def)
  obtain s2 where "handle_writeblock ram some_junk '' 0'' ''u'' ''/a'' [Some ''hi''] s1 = Some s2"
    "files ram s2 [''a''] = Some (File ''u'' (ds[0 := ''hi'' @ nul # take (FS_BLOCKSIZE - length ''hi'' - 1) (junk_heap some_junk)]))"
    using short_write_stores_memory [OF ram_laws r(1) junk_ok d2 _ a_path(2,1) a_passable f] by auto
  then show ?thesis by (auto simp: some_junk_def)
qed

end
