(* ===== verification/FS_Room.thy ===== *)
theory FS_Room imports FS_Props begin

text \<open>
  Room on the disk, told from what the users see: how many blocks the files and directories take at most. Since no block
  of a directory is without a name, a directory has no more blocks than names.
\<close>

definition children :: "fsmap \<Rightarrow> string list \<Rightarrow> string set" where
  "children V p = {x. V (p @ [x]) \<noteq> None}"

definition node_room :: "fsmap \<Rightarrow> string list \<Rightarrow> nat" where
  "node_room V p = (case V p of None \<Rightarrow> 0 | Some (File u ds) \<Rightarrow> Suc (length ds) | Some (Directory u) \<Rightarrow> Suc (card (children V p)))"

definition space :: "fsmap \<Rightarrow> nat" where
  "space V = sum (node_room V) (dom V)"

lemma children_links:
  assumes "resolve c 0 p = Some i" shows "children (view c) p = fst ` set (links c i)"
  using assms map_of_eq_None_iff [of "links c i"] by (auto simp: children_def view_def resolve_snoc)

lemma dir_blocks_names:
  assumes wf: "fs_wf c free" and p: "resolve c 0 p = Some i" and k: "kind c i = CHR ''d''"
  shows "isize (inode_at c i) \<le> card (children (view c) p)"
proof -
  have i: "i \<in> inodes c" by (rule resolve_in_inodes [OF p])
  have "length bs \<le> length (links_of (concat (map (entries_at c) bs)))" if "\<forall>b \<in> set bs. links_of (entries_at c b) \<noteq> []" for bs
    using that
  proof (induction bs)
    case (Cons b bs)
    then have "0 < length (links_of (entries_at c b))" by simp
    moreover have "length bs \<le> length (links_of (concat (map (entries_at c) bs)))" using Cons by simp
    ultimately show ?case by (simp del: length_greater_0_conv)
  qed simp
  then have "length (iblocks c i) \<le> length (links c i)" using wf_packed [OF wf i] k by (simp add: packed_def links_def)
  also have "length (links c i) = card (children (view c) p)"
    using distinct_card [OF wf_names [OF wf i]] by (simp add: children_links [OF p])
  finally show ?thesis by (simp add: wf_length_iblocks [OF wf i])
qed

lemma dom_view: "dom (view c) = {p. resolve c 0 p \<noteq> None}"
  by (auto simp: view_def dom_def)

lemma paths_inodes:
  assumes "fs_wf c free"
  shows "inj_on (\<lambda>p. the (resolve c 0 p)) (dom (view c))" "(\<lambda>p. the (resolve c 0 p)) ` dom (view c) = inodes c"
proof -
  show "inj_on (\<lambda>p. the (resolve c 0 p)) (dom (view c))"
    using path_unique [OF assms] by (fastforce simp: inj_on_def dom_view)
  show "(\<lambda>p. the (resolve c 0 p)) ` dom (view c) = inodes c"
    by (force simp: dom_view inodes_def image_iff)
qed

lemma finite_view: "fs_wf c free \<Longrightarrow> finite (dom (view c))"
  using paths_inodes [of c free] wf_finite [of c free] by (metis finite_imageD)

lemma free_at_least:
  assumes wf: "fs_wf c free"
  shows "FS_DISKSIZE \<le> length free + space (view c)"
proof -
  let ?r = "\<lambda>p. the (resolve c 0 p)" and ?n = "\<lambda>i. Suc (length (iblocks c i))"
  have "size (usage c) = (\<Sum>i \<in> inodes c. ?n i)" by (simp add: usage_def)
  also have "\<dots> = (\<Sum>p \<in> dom (view c). ?n (?r p))"
    using sum.reindex [OF paths_inodes(1) [OF wf], of ?n] paths_inodes(2) [OF wf] by (simp add: comp_def)
  also have "\<dots> \<le> space (view c)" unfolding space_def
  proof (rule sum_mono)
    fix p assume "p \<in> dom (view c)"
    then obtain i where i: "resolve c 0 p = Some i" by (auto simp: dom_view)
    have ii: "i \<in> inodes c" by (rule resolve_in_inodes [OF i])
    show "?n (?r p) \<le> node_room (view c) p"
    proof (cases "kind c i = CHR ''d''")
      case True
      with dir_blocks_names [OF wf i True] i show ?thesis
        by (simp add: node_room_def view_def node_of_def wf_length_iblocks [OF wf ii])
    qed (simp add: i node_room_def view_def node_of_def)
  qed
  finally have "size (usage c) \<le> space (view c)" .
  moreover have "size (usage c) + length free = FS_DISKSIZE"
    using arg_cong [OF wf_usage [OF wf], of size] by simp
  ultimately show ?thesis by linarith
qed

text \<open>A bound by counting: \<open>n\<close> files and directories, \<open>w\<close> blocks of data.\<close>

fun data_blocks :: "node option \<Rightarrow> nat" where
  "data_blocks (Some (File u ds)) = length ds"
| "data_blocks _ = 0"

definition within :: "fsmap \<Rightarrow> nat \<Rightarrow> nat \<Rightarrow> bool" where
  "within V n w \<longleftrightarrow> finite (dom V) \<and> card (dom V) \<le> n \<and> sum (data_blocks \<circ> V) (dom V) \<le> w"

lemma children_few: "finite (dom V) \<Longrightarrow> finite (children V p)" "finite (dom V) \<Longrightarrow> card (children V p) \<le> card (dom V)"
proof -
  have i: "inj_on (\<lambda>x. p @ [x]) (children V p)" and s: "(\<lambda>x. p @ [x]) ` children V p \<subseteq> dom V"
    by (auto simp: inj_on_def children_def)
  show "finite (dom V) \<Longrightarrow> finite (children V p)" using inj_on_finite [OF i s] .
  show "finite (dom V) \<Longrightarrow> card (children V p) \<le> card (dom V)" using card_inj_on_le [OF i s] .
qed

lemma space_within:
  assumes "within V n w"
  shows "space V \<le> 2 * n + w"
proof -
  have f: "finite (dom V)" and n: "card (dom V) \<le> n" and w: "sum (data_blocks \<circ> V) (dom V) \<le> w" using assms by (simp_all add: within_def)
  let ?P = "(\<lambda>(p, x). p @ [x]) ` (SIGMA p : dom V. children V p)"
  have "inj_on (\<lambda>(p, x). p @ [x]) (SIGMA p : dom V. children V p)" by (auto simp: inj_on_def)
  then have "card (SIGMA p : dom V. children V p) = card ?P" by (simp add: card_image)
  also have "\<dots> \<le> card (dom V)" by (rule card_mono [OF f]) (auto simp: children_def)
  finally have c: "(\<Sum>p \<in> dom V. card (children V p)) \<le> card (dom V)" using f children_few(1) by (simp add: card_SigmaI)
  have "space V \<le> (\<Sum>p \<in> dom V. (1 + card (children V p)) + (data_blocks \<circ> V) p)"
    unfolding space_def by (rule sum_mono) (auto simp: node_room_def split: node.split)
  also have "\<dots> = (\<Sum>p \<in> dom V. 1) + (\<Sum>p \<in> dom V. card (children V p)) + sum (data_blocks \<circ> V) (dom V)"
    by (simp only: sum.distrib)
  finally show ?thesis using c n w by simp
qed

lemma within_added: "within V n w \<Longrightarrow> V p = None \<Longrightarrow> data_blocks (Some x) = 0 \<Longrightarrow> within (V(p \<mapsto> x)) (Suc n) w"
proof -
  assume a: "within V n w" "V p = None" "data_blocks (Some x) = 0"
  then have "p \<notin> dom V" by auto
  moreover have "sum (data_blocks \<circ> (V(p \<mapsto> x))) (dom V) = sum (data_blocks \<circ> V) (dom V)"
    by (rule sum.cong) (use a(2) in auto)
  ultimately show ?thesis using a by (simp add: within_def)
qed

lemma within_removed: "within V n w \<Longrightarrow> within (V(p := None)) n w"
proof -
  assume a: "within V n w"
  have "sum (data_blocks \<circ> (V(p := None))) (dom V - {p}) = sum (data_blocks \<circ> V) (dom V - {p})" by (rule sum.cong) auto
  also have "\<dots> \<le> sum (data_blocks \<circ> V) (dom V)" by (rule sum_mono2) (use a in \<open>auto simp: within_def\<close>)
  finally show ?thesis using a card_mono [of "dom V" "dom V - {p}"] by (auto simp: within_def)
qed

lemma within_written:
  assumes "within V n w" "V p = Some (File u ds)" "length es \<le> Suc (length ds)"
  shows "within (V(p \<mapsto> File u es)) n (Suc w)"
proof -
  have f: "finite (dom V)" "p \<in> dom V" "dom (V(p \<mapsto> File u es)) = dom V" using assms by (auto simp: within_def)
  have "sum (data_blocks \<circ> (V(p \<mapsto> File u es))) (dom V - {p}) = sum (data_blocks \<circ> V) (dom V - {p})" by (rule sum.cong) auto
  then have "sum (data_blocks \<circ> (V(p \<mapsto> File u es))) (dom V) \<le> Suc (sum (data_blocks \<circ> V) (dom V))"
    using sum.remove [OF f(1,2), of "data_blocks \<circ> V"] sum.remove [OF f(1,2), of "data_blocks \<circ> (V(p \<mapsto> File u es))"] assms(2,3) by simp
  then show ?thesis using assms(1) f(3) by (simp add: within_def)
qed

lemma within_more: "within V n w \<Longrightarrow> n \<le> n' \<Longrightarrow> w \<le> w' \<Longrightarrow> within V n' w'"
  by (auto simp: within_def)

end
