(* ===== verification/FS_Client.thy ===== *)
theory FS_Client imports FS_Room begin

text \<open>
  Clients of the file server (fs_client.h, test*.cpp of Project4). The client library is an object file: it is a parameter,
  with what its header promises and the format of the requests that the server reads as laws. A client is the list of its calls
  with what it asserts of their results. The calls and the server together are equivalent to a function
  on the map from paths to files and directories.
\<close>

section \<open>Calls\<close>

text \<open>The string of a write is what stands in memory from \<open>buf\<close> on.\<close>

datatype fs_call = Fs_create string string char | Fs_delete string string
  | Fs_readblock string string nat | Fs_writeblock string string nat string

text \<open>What they do, and \<open>None\<close> when they fail, as fs_client.h has it, on a disk and in a directory with room.\<close>

definition names_of :: "string \<Rightarrow> string \<Rightarrow> string list option" where
  "names_of user pathname =
     (if CHR '' '' \<in> set user \<or> CHR '' '' \<in> set pathname \<or> length user > FS_MAXUSERNAME \<or> length pathname > FS_MAXPATHNAME then None
      else path_parser pathname)"

definition file_at :: "string \<Rightarrow> string list \<Rightarrow> fsmap \<Rightarrow> string list option" where
  "file_at user names V = (case V names of
      Some (File v ds) \<Rightarrow> if v = user \<and> passable V user names then Some ds else None
    | _ \<Rightarrow> None)"

fun fs_do :: "fs_call \<Rightarrow> fsmap \<Rightarrow> fsmap option" where
  "fs_do (Fs_create user pathname type) V = (case names_of user pathname of None \<Rightarrow> None
     | Some names \<Rightarrow> if (type = CHR ''f'' \<or> type = CHR ''d'') \<and> changeable V user (butlast names) \<and> V names = None
         then Some (V(names \<mapsto> new_node [type] user)) else None)"
| "fs_do (Fs_delete user pathname) V = (case names_of user pathname of None \<Rightarrow> None
     | Some names \<Rightarrow> (case V names of None \<Rightarrow> None
       | Some n \<Rightarrow> if changeable V user (butlast names) \<and> owner_is user n \<and> children V names = {}
           then Some (V(names := None)) else None))"
| "fs_do (Fs_readblock user pathname off) V = (case names_of user pathname of None \<Rightarrow> None
     | Some names \<Rightarrow> (case file_at user names V of None \<Rightarrow> None
       | Some ds \<Rightarrow> if off < FS_MAXFILEBLOCKS \<and> off < length ds then Some V else None))"
| "fs_do (Fs_writeblock user pathname off buf) V = (case names_of user pathname of None \<Rightarrow> None
     | Some names \<Rightarrow> (case file_at user names V of None \<Rightarrow> None
       | Some ds \<Rightarrow> if off < FS_MAXFILEBLOCKS \<and> off \<le> length ds
           then Some (V(names \<mapsto> File user (put_block off (take FS_BLOCKSIZE buf) ds))) else None))"

text \<open>When there is room: two blocks and a directory that is not too large, or one block.\<close>

fun room_for :: "fs_call \<Rightarrow> fsmap \<Rightarrow> bool" where
  "room_for (Fs_create user pathname type) V \<longleftrightarrow> space V + 2 \<le> FS_DISKSIZE \<and>
     (\<forall>names. path_parser pathname = Some names \<longrightarrow> card (children V (butlast names)) < FS_MAXFILEBLOCKS)"
| "room_for (Fs_writeblock user pathname off buf) V \<longleftrightarrow> space V < FS_DISKSIZE"
| "room_for _ V \<longleftrightarrow> True"

section \<open>The library\<close>

fun request :: "fs_call \<Rightarrow> string" where
  "request (Fs_create user pathname type) = ''FS_CREATE'' @ CHR '' '' # user @ CHR '' '' # pathname @ CHR '' '' # [type]"
| "request (Fs_delete user pathname) = ''FS_DELETE'' @ CHR '' '' # user @ CHR '' '' # pathname"
| "request (Fs_readblock user pathname off) = ''FS_READBLOCK'' @ CHR '' '' # user @ CHR '' '' # pathname @ CHR '' '' # show_nat off"
| "request (Fs_writeblock user pathname off buf) = ''FS_WRITEBLOCK'' @ CHR '' '' # user @ CHR '' '' # pathname @ CHR '' '' # show_nat off"

fun payload :: "fs_call \<Rightarrow> string" where
  "payload (Fs_writeblock user pathname off buf) = take FS_BLOCKSIZE buf"
| "payload _ = []"

text \<open>
  The library may refuse a call on its own, but none that can succeed. Otherwise it sends the words of the request,
  a null byte and the data, and returns 0 when the answer repeats the request and -1 when there is none.
\<close>

record client_lib =
  refuses :: "fs_call \<Rightarrow> bool"
  message :: "fs_call \<Rightarrow> string"
  status :: "fs_call \<Rightarrow> string list \<Rightarrow> int"

definition client_laws :: "client_lib \<Rightarrow> bool" where
  "client_laws lib \<longleftrightarrow> (\<forall>c V. fs_do c V \<noteq> None \<longrightarrow> \<not> refuses lib c) \<and> (\<forall>c. message lib c = request c @ [nul] @ payload c) \<and>
     (\<forall>c. status lib c [] = - 1) \<and> (\<forall>c data. status lib c [request c @ [nul] @ data] = 0)"

text \<open>A call, from the client to the server and back; its bytes arrive in any pieces.\<close>

inductive served :: "client_lib \<Rightarrow> 'd disk_io \<Rightarrow> junk \<Rightarrow> fs_call \<Rightarrow> 'd server \<Rightarrow> int \<Rightarrow> 'd server \<Rightarrow> bool"
  for lib :: client_lib and io :: "'d disk_io" and mem :: junk where
  refused: "refuses lib c \<Longrightarrow> served lib io mem c s (- 1) s"
| answered: "\<not> refuses lib c \<Longrightarrow> delivers sock (message lib c) \<Longrightarrow> handle_requests io mem sock s = Some s' \<Longrightarrow>
    served lib io mem c s (status lib c (drop (length (responses s)) (responses s'))) s'"

section \<open>Clients\<close>

text \<open>What \<open>assert\<close> after a call says of its result: nothing, \<open>!status\<close>, \<open>status == -1\<close>.\<close>

datatype check = Unchecked | Zero | Minus_one

fun holds_for :: "check \<Rightarrow> int \<Rightarrow> bool" where
  "holds_for Unchecked st \<longleftrightarrow> True"
| "holds_for Zero st \<longleftrightarrow> st = 0"
| "holds_for Minus_one st \<longleftrightarrow> st = - 1"

type_synonym client = "(fs_call \<times> check) list"

text \<open>The run of a client on a server that nobody else uses; an assertion that fails aborts it.\<close>

inductive client_run :: "client_lib \<Rightarrow> 'd disk_io \<Rightarrow> junk \<Rightarrow> client \<Rightarrow> 'd server \<Rightarrow> bool \<Rightarrow> 'd server \<Rightarrow> bool"
  for lib :: client_lib and io :: "'d disk_io" and mem :: junk where
  returns: "client_run lib io mem [] s True s"
| goes_on: "served lib io mem c s st s1 \<Longrightarrow> holds_for chk st \<Longrightarrow> client_run lib io mem cs s1 ok s' \<Longrightarrow>
    client_run lib io mem ((c, chk) # cs) s ok s'"
| aborts: "served lib io mem c s st s1 \<Longrightarrow> \<not> holds_for chk st \<Longrightarrow> client_run lib io mem ((c, chk) # cs) s False s1"


section \<open>One request\<close>

text \<open>Strings without control characters; a block of data to write.\<close>

definition plain :: "string \<Rightarrow> bool" where
  "plain w \<longleftrightarrow> w \<noteq> [] \<and> (\<forall>c \<in> set w. c \<noteq> nul \<and> (is_space c \<longrightarrow> c = CHR '' ''))"

fun plain_call :: "fs_call \<Rightarrow> bool" where
  "plain_call (Fs_create user pathname type) \<longleftrightarrow> plain user \<and> plain pathname \<and> type \<noteq> nul \<and> \<not> is_space type"
| "plain_call (Fs_delete user pathname) \<longleftrightarrow> plain user \<and> plain pathname"
| "plain_call (Fs_readblock user pathname off) \<longleftrightarrow> plain user \<and> plain pathname"
| "plain_call (Fs_writeblock user pathname off buf) \<longleftrightarrow> plain user \<and> plain pathname \<and> FS_BLOCKSIZE \<le> length buf"

lemma plain_word: "plain w \<Longrightarrow> CHR '' '' \<notin> set w \<Longrightarrow> word w"
  by (auto simp: plain_def word_def)

lemma show_nat_word: "word (show_nat n)" "nul \<notin> set (show_nat n)"
proof -
  have "\<not> is_digit nul" by code_simp
  then show "word (show_nat n)" "nul \<notin> set (show_nat n)"
    using show_nat_digits [of n] show_nat_not_nil [of n] by (auto simp: word_def)
qed

lemma one_char_word: "\<not> is_space c \<Longrightarrow> word [c]"
  by (simp add: word_def)

lemma request_words: "word ''FS_CREATE''" "word ''FS_DELETE''" "word ''FS_READBLOCK''" "word ''FS_WRITEBLOCK''"
  by code_simp+

text \<open>A header with another number of blanks than its type has is not dispatched.\<close>

lemma dispatch_odd:
  assumes "word ty" "check_request_type ty (ty @ CHR '' '' # rest) = 0"
  shows "dispatch io mem (ty @ CHR '' '' # rest) sock s = Some s"
  using next_word_more(2) [OF assms(1), of rest] assms(2)
  by (auto simp: dispatch_def Let_def split: option.splits)

lemma odd_type: "ty \<noteq> ''FS_DELETE'' \<Longrightarrow> find_space hdr \<noteq> 3 \<Longrightarrow> check_request_type ty hdr = 0"
  "find_space hdr \<noteq> 2 \<Longrightarrow> check_request_type ''FS_DELETE'' hdr = 0"
  by (auto simp: check_request_type_def)

lemma blanks_filter: "filter ((=) CHR '' '') w = [] \<longleftrightarrow> CHR '' '' \<notin> set w"
  by (auto simp: filter_empty_conv)

lemma dispatch_words_unfit:
  assumes "word ty" "plain user" "plain pathname" "word arg"
    and "CHR '' '' \<in> set user \<or> CHR '' '' \<in> set pathname \<or> length user > FS_MAXUSERNAME \<or> length pathname > FS_MAXPATHNAME"
  shows "ty \<noteq> ''FS_DELETE'' \<Longrightarrow> dispatch io mem (ty @ CHR '' '' # user @ CHR '' '' # pathname @ CHR '' '' # arg) sock s = Some s"
    "dispatch io mem (''FS_DELETE'' @ CHR '' '' # user @ CHR '' '' # pathname) sock s = Some s"
proof -
  let ?n = "length (filter ((=) CHR '' '') user) + length (filter ((=) CHR '' '') pathname)"
  have n: "0 < ?n" if "CHR '' '' \<in> set user \<or> CHR '' '' \<in> set pathname"
    using that blanks_filter [of user] blanks_filter [of pathname] by auto
  have four: "find_space (ty @ CHR '' '' # user @ CHR '' '' # pathname @ CHR '' '' # arg) = 3 + ?n"
    using assms(1,4) by (simp add: find_space_count word_blanks)
  have three: "find_space (''FS_DELETE'' @ CHR '' '' # user @ CHR '' '' # pathname) = 2 + ?n"
    by (simp add: find_space_count)
  show "dispatch io mem (ty @ CHR '' '' # user @ CHR '' '' # pathname @ CHR '' '' # arg) sock s = Some s" if "ty \<noteq> ''FS_DELETE''"
  proof (cases "CHR '' '' \<in> set user \<or> CHR '' '' \<in> set pathname")
    case True
    then show ?thesis using n four that by (intro dispatch_odd [OF assms(1)] odd_type(1)) auto
  next
    case False
    then have "word user" "word pathname" using assms(2,3) by (simp_all add: plain_word)
    then show ?thesis using assms False by (auto simp: dispatch_def next_word_more)
  qed
  note w = next_word_more(2) [OF request_words(2), of "user @ CHR '' '' # pathname"]
  show "dispatch io mem (''FS_DELETE'' @ CHR '' '' # user @ CHR '' '' # pathname) sock s = Some s"
  proof (cases "CHR '' '' \<in> set user \<or> CHR '' '' \<in> set pathname")
    case True
    then show ?thesis using n three by (intro dispatch_odd [OF request_words(2)] odd_type(2)) auto
  next
    case False
    then have "word user" "word pathname" using assms(2,3) by (simp_all add: plain_word)
    then show ?thesis using assms False by (auto simp: dispatch_def w next_word_more next_word_last simp del: append.simps)
  qed
qed

end
