(* ===== verification/FS_Calls.thy ===== *)
theory FS_Calls imports FS_Client begin

text \<open>
  What a call comes to: the client library and the server together do what the function \<open>fs_do\<close> does to the map of
  files, or fail and leave it when there is no room.
\<close>

definition allowed :: "fs_call \<Rightarrow> fsmap \<Rightarrow> int \<Rightarrow> fsmap \<Rightarrow> bool" where
  "allowed c V st V' \<longleftrightarrow> st = 0 \<and> fs_do c V = Some V' \<or> st = - 1 \<and> V' = V \<and> (fs_do c V = None \<or> \<not> room_for c V)"

text \<open>The server's part: \<open>ms\<close> are the messages of the answer.\<close>

definition answers :: "fs_call \<Rightarrow> fsmap \<Rightarrow> string list \<Rightarrow> fsmap \<Rightarrow> bool" where
  "answers c V ms V' \<longleftrightarrow> (if ms = [] then V' = V \<and> (fs_do c V = None \<or> \<not> room_for c V)
     else fs_do c V = Some V' \<and> (\<exists>data. ms = [request c @ [nul] @ data]))"

lemma answers_allowed:
  "client_laws lib \<Longrightarrow> answers c V ms V' \<Longrightarrow> allowed c V (status lib c ms) V'"
  by (auto simp: client_laws_def answers_def allowed_def split: if_splits simp del: append.simps request.simps)

section \<open>The header of a request\<close>

lemma recv_header_too_long:
  "delivers sock (h @ rest) \<Longrightarrow> nul \<notin> set h \<Longrightarrow> recvd \<le> max_header_len \<Longrightarrow> max_header_len < recvd + length h \<Longrightarrow>
   recv_header hdr recvd buf sock = Inl True"
proof (induction h arbitrary: hdr recvd buf sock)
  case (Cons c h)
  from Cons.prems(1) obtain x sock' r where x: "recv 1 sock = (Some x, sock')" "x \<noteq> []" "length x \<le> 1"
    "(c # h) @ rest = x @ r" "delivers sock' r"
    by (rule delivers_recv) auto
  then have "x = [c]" "r = h @ rest" by (cases x; simp)+
  with x Cons.prems Cons.IH [of sock' "recvd + 1" "hdr @ [c]" c] show ?case
    by (subst recv_header.simps) auto
qed simp

lemma message_handled:
  assumes "delivers sock (h @ nul # data)" "nul \<notin> set h"
  obtains "max_header_len < length h" "handle_requests io mem sock s = Some (close_connection s)"
    | sock' where "length h \<le> max_header_len" "delivers sock' data"
      "handle_requests io mem sock s = map_option close_connection (dispatch io mem h sock' s)"
proof (cases "length h \<le> max_header_len")
  case True
  with header_framing [OF assms True, of io mem s] show ?thesis using that(2) by blast
next
  case False
  then have "recv_header [] 0 (junk_buf mem) sock = Inl True"
    using recv_header_too_long [OF assms(1,2), of 0] by simp
  then show ?thesis using False by (intro that(1)) (simp_all add: handle_requests_def)
qed

lemma command_chars: "nul \<notin> set ''FS_CREATE''" "nul \<notin> set ''FS_DELETE''" "nul \<notin> set ''FS_READBLOCK''" "nul \<notin> set ''FS_WRITEBLOCK''"
  "nul \<noteq> CHR '' ''"
  by code_simp+

lemma plain_nul: "plain w \<Longrightarrow> nul \<notin> set w"
  by (auto simp: plain_def)

lemma request_nul: "plain_call c \<Longrightarrow> nul \<notin> set (request c)"
  using command_chars(5) by (cases c) (auto dest: plain_nul simp: show_nat_word(2))

text \<open>The block number of a request.\<close>

lemma shown_block:
  "block_number (CHR '' '' # show_nat off) = (if off < FS_MAXFILEBLOCKS then Some (show_nat off, off) else None)"
proof -
  have "isblock (show_nat off) \<longleftrightarrow> off < 1000"
    using show_nat_digits [of off] by (simp add: isblock_def short_number [symmetric] not_less)
  then show ?thesis by (simp add: block_number_def next_word_last(1) show_nat_word(1) digits_val_show)
qed

section \<open>The calls\<close>

text \<open>Users and paths that the server takes as one word each.\<close>

definition fit :: "string \<Rightarrow> string \<Rightarrow> bool" where
  "fit user pathname \<longleftrightarrow> CHR '' '' \<notin> set user \<and> CHR '' '' \<notin> set pathname \<and> length user \<le> FS_MAXUSERNAME \<and> length pathname \<le> FS_MAXPATHNAME"

lemma names_of_fit: "names_of user pathname = (if fit user pathname then path_parser pathname else None)"
  by (auto simp: names_of_def fit_def)

lemma fit_words:
  assumes "plain user" "plain pathname" "fit user pathname"
  shows "word user" "word pathname" "length user \<le> FS_MAXUSERNAME" "length pathname \<le> FS_MAXPATHNAME" "user_ok user"
    "pathname \<noteq> []" "nul \<notin> set pathname"
  using assms plain_word plain_nul by (auto simp: fit_def user_ok_def plain_def)

fun user_path :: "fs_call \<Rightarrow> string \<times> string" where
  "user_path (Fs_create user pathname type) = (user, pathname)"
| "user_path (Fs_delete user pathname) = (user, pathname)"
| "user_path (Fs_readblock user pathname off) = (user, pathname)"
| "user_path (Fs_writeblock user pathname off buf) = (user, pathname)"

lemma unfit_call:
  assumes "plain_call c" "user_path c = (user, pathname)" "\<not> fit user pathname"
  shows "dispatch io mem (request c) sock s = Some s" "fs_do c V = None"
proof -
  have "CHR '' '' \<in> set user \<or> CHR '' '' \<in> set pathname \<or> length user > FS_MAXUSERNAME \<or> length pathname > FS_MAXPATHNAME"
    using assms(3) by (auto simp: fit_def)
  note un = dispatch_words_unfit [OF _ _ _ _ this]
  have odd: "''FS_CREATE'' \<noteq> ''FS_DELETE''" "''FS_READBLOCK'' \<noteq> ''FS_DELETE''" "''FS_WRITEBLOCK'' \<noteq> ''FS_DELETE''" by simp_all
  show "dispatch io mem (request c) sock s = Some s"
  proof (cases c)
    case (Fs_create u p type)
    with assms(1,2) show ?thesis by (simp del: append.simps) (rule un(1) [OF request_words(1) _ _ one_char_word odd(1)]; simp)
  next
    case (Fs_delete u p)
    with assms(1,2) show ?thesis by (simp del: append.simps) (rule un(2) [OF request_words(2) _ _ request_words(2)]; simp)
  next
    case (Fs_readblock u p off)
    with assms(1,2) show ?thesis by (simp del: append.simps) (rule un(1) [OF request_words(3) _ _ show_nat_word(1) odd(2)]; simp)
  next
    case (Fs_writeblock u p off buf)
    with assms(1,2) show ?thesis by (simp del: append.simps) (rule un(1) [OF request_words(4) _ _ show_nat_word(1) odd(3)]; simp)
  qed
  show "fs_do c V = None" using assms(2,3) by (cases c) (simp_all add: names_of_fit)
qed

lemma answers_nothing: "fs_do c V = None \<Longrightarrow> answers c V [] V"
  by (simp add: answers_def)

lemma room_free: "server_ok io good s \<Longrightarrow> FS_DISKSIZE \<le> length (free_blocks s) + space (files io s)"
  unfolding files_def by (rule free_at_least [OF ok_stands(1)])

text \<open>No answer to a call that can be done: there was no room.\<close>

lemma answers_none: "(fs_do c V \<noteq> None \<Longrightarrow> room_for c V \<Longrightarrow> False) \<Longrightarrow> answers c V [] V"
  by (cases "fs_do c V = None") (auto simp: answers_def)

lemma create_call:
  assumes laws: "disk_laws io good" and ok: "server_ok io good s" and mem: "mem_ok mem"
    and c: "plain_call (Fs_create user pathname type)" "fit user pathname"
  shows "\<exists>s' ms. dispatch io mem (request (Fs_create user pathname type)) sock s = Some s' \<and> server_ok io good s' \<and>
    responses s' = responses s @ ms \<and> answers (Fs_create user pathname type) (files io s) ms (files io s')"
proof -
  let ?c = "Fs_create user pathname type" and ?V = "files io s"
  have t: "\<not> is_space type" and pl: "plain user" "plain pathname" using c(1) by simp_all
  note w = fit_words [OF pl c(2)]
  have d: "dispatch io mem (request ?c) sock s = handle_create io mem (CHR '' '' # [type]) user pathname s"
    using dispatch_four [OF request_words(1) w(1,2) one_char_word [OF t] w(3,4), of io mem sock s] by simp
  obtain s' ms where r: "handle_create io mem (CHR '' '' # [type]) user pathname s = Some s'" "server_ok io good s'"
    "responses s' = responses s @ ms" and res: "create_result ?V user pathname [type] ms (files io s')"
    and all: "\<forall>names dir. [type] \<in> {''f'', ''d''} \<and> path_parser pathname = Some names \<and> changeable ?V user (butlast names) \<and>
       ?V names = None \<and> 2 \<le> length (free_blocks s) \<and> resolve (contents_of io (fs_disk s)) 0 (butlast names) = Some dir \<and>
       isize (inode_at (contents_of io (fs_disk s)) dir) < FS_MAXFILEBLOCKS \<longrightarrow> ms \<noteq> []"
    using create_answered [OF laws ok mem w(5-7) next_word_last(1) [OF one_char_word [OF t]]] by blast
  have "answers ?c ?V ms (files io s')"
  proof (cases "ms = []")
    case True
    with res have V: "files io s' = ?V" by (auto simp: create_result_def)
    have False if do: "fs_do ?c ?V \<noteq> None" and room: "room_for ?c ?V"
    proof -
      from do c(2) obtain names where n: "path_parser pathname = Some names" "type = CHR ''f'' \<or> type = CHR ''d''"
        "changeable ?V user (butlast names)" "?V names = None"
        by (auto simp: names_of_fit split: option.splits if_splits)
      then obtain dir where dir: "resolve (contents_of io (fs_disk s)) 0 (butlast names) = Some dir"
        by (auto simp: changeable_def files_def view_def split: option.splits)
      have "kind (contents_of io (fs_disk s)) dir = CHR ''d''"
        using n(3) dir by (auto simp: changeable_def files_def view_def node_of_def split: if_splits)
      from dir_blocks_names [OF ok_stands(1) [OF ok] dir this] room room_free [OF ok] n dir True
        all [rule_format, of names dir] show False by (auto simp: files_def)
    qed
    then show ?thesis unfolding True V by (rule answers_none)
  next
    case False
    with res c(2) show ?thesis by (auto simp: answers_def create_result_def names_of_fit)
  qed
  with r d show ?thesis by auto
qed

lemma delete_call:
  assumes laws: "disk_laws io good" and ok: "server_ok io good s" and mem: "mem_ok mem"
    and c: "plain_call (Fs_delete user pathname)" "fit user pathname"
  shows "\<exists>s' ms. dispatch io mem (request (Fs_delete user pathname)) sock s = Some s' \<and> server_ok io good s' \<and>
    responses s' = responses s @ ms \<and> answers (Fs_delete user pathname) (files io s) ms (files io s')"
proof -
  let ?c = "Fs_delete user pathname" and ?V = "files io s"
  note w = fit_words [OF _ _ c(2)]
  have d: "dispatch io mem (request ?c) sock s = handle_delete io mem user pathname s"
    using dispatch_three [OF w(1-4)] c(1) by simp
  obtain s' ms where r: "handle_delete io mem user pathname s = Some s'" "server_ok io good s'"
    "responses s' = responses s @ ms" and res: "delete_result ?V user pathname ms (files io s')"
    and all: "\<forall>names n. path_parser pathname = Some names \<and> changeable ?V user (butlast names) \<and> ?V names = Some n \<and>
       owner_is user n \<and> (\<forall>x. ?V (names @ [x]) = None) \<longrightarrow> ms \<noteq> []"
    using delete_answered [OF laws ok mem w(6,7), of user] c(1) by auto
  have "answers ?c ?V ms (files io s')"
  proof (cases "ms = []")
    case True
    with res have V: "files io s' = ?V" by (auto simp: delete_result_def)
    have "fs_do ?c ?V = None"
    proof (rule ccontr)
      assume "fs_do ?c ?V \<noteq> None"
      with c(2) obtain names n where "path_parser pathname = Some names" "?V names = Some n" "changeable ?V user (butlast names)"
        "owner_is user n" "children ?V names = {}"
        by (auto simp: names_of_fit split: option.splits if_splits)
      with all True show False by (fastforce simp: children_def)
    qed
    then show ?thesis unfolding True V by (rule answers_nothing)
  next
    case False
    with res c(2) show ?thesis by (auto simp: answers_def delete_result_def names_of_fit children_def)
  qed
  with r d show ?thesis by auto
qed

lemma read_call:
  assumes laws: "disk_laws io good" and ok: "server_ok io good s"
    and c: "plain_call (Fs_readblock user pathname off)" "fit user pathname"
  shows "\<exists>s' ms. dispatch io mem (request (Fs_readblock user pathname off)) sock s = Some s' \<and> server_ok io good s' \<and>
    responses s' = responses s @ ms \<and> answers (Fs_readblock user pathname off) (files io s) ms (files io s')"
proof -
  let ?c = "Fs_readblock user pathname off" and ?V = "files io s" and ?req = "CHR '' '' # show_nat off"
  note w = fit_words [OF _ _ c(2)]
  have d: "dispatch io mem (request ?c) sock s = handle_readblock io ?req user pathname s"
    using dispatch_four [OF request_words(3) w(1,2) show_nat_word(1) w(3,4), of io mem off sock s] c(1) by simp
  have "answers ?c ?V (read_result ?V user pathname ?req) ?V"
    using c(2) by (auto simp: answers_def read_result_def shown_block names_of_fit file_at_def split: option.split node.split)
  with d readblock_answered [OF laws ok, of ?req user pathname] show ?thesis by auto
qed

lemma write_call:
  assumes laws: "disk_laws io good" and ok: "server_ok io good s" and mem: "mem_ok mem"
    and c: "plain_call (Fs_writeblock user pathname off buf)" "fit user pathname" and sock: "delivers sock (take FS_BLOCKSIZE buf)"
  shows "\<exists>s' ms. dispatch io mem (request (Fs_writeblock user pathname off buf)) sock s = Some s' \<and> server_ok io good s' \<and>
    responses s' = responses s @ ms \<and> answers (Fs_writeblock user pathname off buf) (files io s) ms (files io s')"
proof -
  let ?c = "Fs_writeblock user pathname off buf" and ?V = "files io s" and ?req = "CHR '' '' # show_nat off"
  note w = fit_words [OF _ _ c(2)]
  have d: "dispatch io mem (request ?c) sock s = handle_writeblock io mem ?req user pathname sock s"
    using dispatch_four [OF request_words(4) w(1,2) show_nat_word(1) w(3,4), of io mem off sock s] c(1) by simp
  have x: "block_at mem (take FS_BLOCKSIZE (take FS_BLOCKSIZE buf)) = take FS_BLOCKSIZE buf"
    using c(1) by (simp add: block_at_def)
  obtain s' ms where r: "handle_writeblock io mem ?req user pathname sock s = Some s'" "server_ok io good s'"
    "responses s' = responses s @ ms"
    and res: "write_result ?V user pathname ?req (take FS_BLOCKSIZE buf) ms (files io s')"
    and all: "\<forall>w k names ds. block_number ?req = Some (w, k) \<and> path_parser pathname = Some names \<and> passable ?V user names \<and>
       ?V names = Some (File user ds) \<and> (k < length ds \<or> k = length ds \<and> free_blocks s \<noteq> []) \<longrightarrow> ms \<noteq> []"
    using handle_writeblock_delivered [OF laws ok mem sock, of ?req user pathname, unfolded x] by blast
  have "answers ?c ?V ms (files io s')"
  proof (cases "ms = []")
    case True
    with res have V: "files io s' = ?V" by (auto simp: write_result_def)
    have False if do: "fs_do ?c ?V \<noteq> None" and room: "room_for ?c ?V"
    proof -
      from do c(2) obtain names ds where "path_parser pathname = Some names" "?V names = Some (File user ds)" "passable ?V user names"
        "off < FS_MAXFILEBLOCKS" "off \<le> length ds"
        by (auto simp: names_of_fit file_at_def split: option.splits if_splits node.splits)
      moreover have "free_blocks s \<noteq> []" using room room_free [OF ok] by auto
      ultimately show False using all True by (fastforce simp: shown_block)
    qed
    then show ?thesis unfolding True V by (rule answers_none)
  next
    case False
    with res c(2) show ?thesis
      by (auto simp: answers_def write_result_def names_of_fit shown_block file_at_def split: if_splits)
  qed
  with r d show ?thesis by auto
qed

lemma request_dispatched:
  assumes "disk_laws io good" "server_ok io good s" "mem_ok mem" "plain_call c" "delivers sock (payload c)"
  shows "\<exists>s' ms. dispatch io mem (request c) sock s = Some s' \<and> server_ok io good s' \<and>
    responses s' = responses s @ ms \<and> answers c (files io s) ms (files io s')"
proof (cases "fit (fst (user_path c)) (snd (user_path c))")
  case True
  show ?thesis
  proof (cases c)
    case (Fs_create user pathname type)
    with True assms(4) create_call [OF assms(1-3), of user pathname type sock] show ?thesis by simp
  next
    case (Fs_delete user pathname)
    with True assms(4) delete_call [OF assms(1-3), of user pathname sock] show ?thesis by simp
  next
    case (Fs_readblock user pathname off)
    with True assms(4) read_call [OF assms(1,2), of user pathname off mem sock] show ?thesis by simp
  next
    case (Fs_writeblock user pathname off buf)
    with True assms(4,5) write_call [OF assms(1-3), of user pathname off buf sock] show ?thesis by simp
  qed
next
  case False
  note un = unfit_call [OF assms(4) surjective_pairing False]
  show ?thesis using un(1) [of io mem sock s] answers_nothing [OF un(2)] assms(2) by auto
qed

lemma long_request: "plain_call c \<Longrightarrow> max_header_len < length (request c) \<Longrightarrow> fs_do c V = None"
proof -
  assume c: "plain_call c" "max_header_len < length (request c)"
  have n: "length (show_nat off) \<le> 3" if "off < FS_MAXFILEBLOCKS" for off using short_number [of off] that by simp
  show ?thesis
  proof (cases c)
    case (Fs_create user pathname type)
    with c show ?thesis by (auto simp: names_of_fit fit_def max_header_len_def)
  next
    case (Fs_delete user pathname)
    with c show ?thesis by (auto simp: names_of_fit fit_def max_header_len_def)
  next
    case (Fs_readblock user pathname off)
    with c n [of off] show ?thesis by (auto simp: names_of_fit fit_def max_header_len_def split: option.split)
  next
    case (Fs_writeblock user pathname off buf)
    with c n [of off] show ?thesis by (auto simp: names_of_fit fit_def max_header_len_def split: option.split)
  qed
qed

lemma closed_same [simp]: "server_ok io good (close_connection s) = server_ok io good s"
  "files io (close_connection s) = files io s" "responses (close_connection s) = responses s"
  by (simp_all add: close_connection_def log_event_def server_ok_def files_def)

lemma message_answered:
  assumes "disk_laws io good" "server_ok io good s" "mem_ok mem" "plain_call c" "delivers sock (request c @ nul # payload c)"
  shows "\<exists>s' ms. handle_requests io mem sock s = Some s' \<and> server_ok io good s' \<and>
    responses s' = responses s @ ms \<and> answers c (files io s) ms (files io s')"
proof (rule message_handled [OF assms(5) request_nul [OF assms(4)], of io mem s])
  assume l: "max_header_len < length (request c)" "handle_requests io mem sock s = Some (close_connection s)"
  from answers_nothing [OF long_request [OF assms(4) l(1)]] l(2) assms(2) show ?thesis
    by (intro exI [of _ "close_connection s"] exI [of _ "[]"]) simp
next
  fix sock'
  assume d: "delivers sock' (payload c)"
    and h: "handle_requests io mem sock s = map_option close_connection (dispatch io mem (request c) sock' s)"
  from request_dispatched [OF assms(1-4) d] obtain s' ms where "dispatch io mem (request c) sock' s = Some s'"
    "server_ok io good s'" "responses s' = responses s @ ms" "answers c (files io s) ms (files io s')" by blast
  with h show ?thesis by (intro exI [of _ "close_connection s'"] exI [of _ ms]) simp
qed

section \<open>Calls and the abstract file system\<close>

lemma call_served:
  assumes "disk_laws io good" "server_ok io good s" "mem_ok mem" "client_laws lib" "plain_call c" "served lib io mem c s st s'"
  shows "server_ok io good s'" "allowed c (files io s) st (files io s')"
proof -
  have "server_ok io good s' \<and> allowed c (files io s) st (files io s')"
    using assms(6)
  proof (cases rule: served.cases)
    case refused
    with assms(2,4) show ?thesis by (auto simp: client_laws_def allowed_def)
  next
    case (answered sock)
    have "delivers sock (request c @ nul # payload c)" using answered(3) assms(4) by (simp add: client_laws_def)
    from message_answered [OF assms(1-3,5) this] answered(4) obtain ms where
      "server_ok io good s'" "responses s' = responses s @ ms" "answers c (files io s) ms (files io s')" by auto
    with answers_allowed [OF assms(4)] answered(1) show ?thesis by simp
  qed
  then show "server_ok io good s'" "allowed c (files io s) st (files io s')" by simp_all
qed

lemma call_returns:
  assumes "disk_laws io good" "server_ok io good s" "mem_ok mem" "client_laws lib" "plain_call c"
  shows "\<exists>st s'. served lib io mem c s st s'"
proof (cases "refuses lib c")
  case True
  then show ?thesis using served.refused [of lib c io mem s] by blast
next
  case False
  have "message lib c = request c @ nul # payload c" using assms(4) by (simp add: client_laws_def)
  then have "delivers [Some (message lib c)] (message lib c)"
    unfolding delivers_def by (intro exI [of _ "[message lib c]"]) auto
  moreover from message_answered [OF assms(1-3,5)] calculation assms(4)
  have "\<exists>s'. handle_requests io mem [Some (message lib c)] s = Some s'" by (fastforce simp: client_laws_def)
  ultimately show ?thesis using False served.answered [of lib c] by blast
qed

end
