(* ===== verification/FS_Runs.thy ===== *)
theory FS_Runs imports FS_Calls begin

text \<open>
  How a client is followed through the abstract file system: \<open>passes\<close> asks that every assertion holds whatever
  the calls may come to, with a count of the files and blocks that decides whether there is room.
\<close>

fun roomy :: "fs_call \<Rightarrow> nat \<Rightarrow> nat \<Rightarrow> bool" where
  "roomy (Fs_create user pathname type) n w \<longleftrightarrow> n < FS_MAXFILEBLOCKS \<and> 2 * n + w + 2 \<le> FS_DISKSIZE"
| "roomy (Fs_writeblock user pathname off buf) n w \<longleftrightarrow> 2 * n + w < FS_DISKSIZE"
| "roomy _ n w \<longleftrightarrow> True"

fun creates :: "fs_call \<Rightarrow> nat" where
  "creates (Fs_create user pathname type) = 1"
| "creates _ = 0"

fun writes :: "fs_call \<Rightarrow> nat" where
  "writes (Fs_writeblock user pathname off buf) = 1"
| "writes _ = 0"

definition outcome :: "fs_call \<Rightarrow> nat \<Rightarrow> nat \<Rightarrow> fsmap \<Rightarrow> int \<Rightarrow> fsmap \<Rightarrow> bool" where
  "outcome c n w V st V' \<longleftrightarrow> st = 0 \<and> fs_do c V = Some V' \<or> st = - 1 \<and> V' = V \<and> (fs_do c V = None \<or> \<not> roomy c n w)"

primrec passes :: "(fsmap \<Rightarrow> bool) \<Rightarrow> client \<Rightarrow> nat \<Rightarrow> nat \<Rightarrow> fsmap \<Rightarrow> bool" where
  "passes Q [] n w V \<longleftrightarrow> Q V"
| "passes Q (x # cs) n w V \<longleftrightarrow> (\<forall>st V'. outcome (fst x) n w V st V' \<longrightarrow>
     holds_for (snd x) st \<and> passes Q cs (n + creates (fst x)) (w + writes (fst x)) V')"

section \<open>Runs of the client\<close>

lemma roomy_room: "within V n w \<Longrightarrow> roomy c n w \<Longrightarrow> room_for c V"
  using space_within [of V n w] children_few(2) [of V]
  by (cases c) (auto simp: within_def intro: le_less_trans [OF _ le_less_trans])

lemma allowed_outcome: "within V n w \<Longrightarrow> allowed c V st V' \<Longrightarrow> outcome c n w V st V'"
  using roomy_room [of V n w c] by (auto simp: allowed_def outcome_def)

lemma new_node_empty: "data_blocks (Some (new_node type user)) = 0"
  by (simp add: new_node_def)

lemma within_done: "within V n w \<Longrightarrow> fs_do c V = Some V' \<Longrightarrow> within V' (n + creates c) (w + writes c)"
  by (cases c) (auto simp: file_at_def put_block_def new_node_empty intro!: within_added within_removed within_written
      split: option.splits if_splits node.splits)

lemma within_outcome: "within V n w \<Longrightarrow> outcome c n w V st V' \<Longrightarrow> within V' (n + creates c) (w + writes c)"
  using within_done within_more [of V n w "n + creates c" "w + writes c"] by (auto simp: outcome_def)

text \<open>On a server in the state the client is followed from, every run ends with its assertions true, and there is one.\<close>

lemma passes_run:
  assumes "client_run lib io mem cs s ok s'" "disk_laws io good" "mem_ok mem" "client_laws lib"
  shows "server_ok io good s \<Longrightarrow> \<forall>x \<in> set cs. plain_call (fst x) \<Longrightarrow> within (files io s) n w \<Longrightarrow> passes Q cs n w (files io s) \<Longrightarrow>
    ok \<and> server_ok io good s' \<and> Q (files io s')"
  using assms(1)
proof (induction arbitrary: n w rule: client_run.induct)
  case (goes_on c s st s1 chk cs ok s')
  have p: "plain_call c" using goes_on.prems(2) by simp
  note r = call_served [OF assms(2) goes_on.prems(1) assms(3,4) p goes_on.hyps(1)]
  note o = allowed_outcome [OF goes_on.prems(3) r(2)]
  from goes_on.prems(4) o have "passes Q cs (n + creates c) (w + writes c) (files io s1)" by simp
  then show ?case using goes_on.IH [OF r(1) _ within_outcome [OF goes_on.prems(3) o]] goes_on.prems(2) by simp
next
  case (aborts c s st s1 chk cs)
  have p: "plain_call c" using aborts.prems(2) by simp
  note r = call_served [OF assms(2) aborts.prems(1) assms(3,4) p aborts.hyps(1)]
  from aborts.prems(4) allowed_outcome [OF aborts.prems(3) r(2)] aborts.hyps(2) show ?case by simp
qed simp

lemma runs_exist:
  assumes "disk_laws io good" "mem_ok mem" "client_laws lib"
  shows "server_ok io good s \<Longrightarrow> \<forall>x \<in> set cs. plain_call (fst x) \<Longrightarrow> \<exists>ok s'. client_run lib io mem cs s ok s'"
proof (induction cs arbitrary: s)
  case Nil
  then show ?case using client_run.returns by blast
next
  case (Cons x cs)
  obtain c chk where x: "x = (c, chk)" by (cases x)
  with Cons.prems obtain st s1 where r: "served lib io mem c s st s1" using call_returns [OF assms(1) _ assms(2,3)] by fastforce
  have "server_ok io good s1" using call_served(1) [OF assms(1) Cons.prems(1) assms(2,3) _ r] Cons.prems(2) x by simp
  with Cons.IH [of s1] Cons.prems(2) obtain ok s' where "client_run lib io mem cs s1 ok s'" by auto
  with r show ?case unfolding x by (cases "holds_for chk st") (blast intro: client_run.goes_on client_run.aborts)+
qed

section \<open>Following a client\<close>

lemma passes_call:
  "roomy c n w \<Longrightarrow> passes Q ((c, chk) # cs) n w V \<longleftrightarrow> (case fs_do c V of None \<Rightarrow> chk \<noteq> Zero \<and> passes Q cs (n + creates c) (w + writes c) V
     | Some V' \<Rightarrow> chk \<noteq> Minus_one \<and> passes Q cs (n + creates c) (w + writes c) V')"
  by (cases chk) (auto simp: outcome_def split: option.split)

text \<open>Calls without assertions: what every outcome keeps. In the end, nothing is asked.\<close>

lemma passes_unasserted:
  assumes "\<And>c V V'. c \<in> set cs \<Longrightarrow> I V \<Longrightarrow> fs_do c V = Some V' \<Longrightarrow> I V'" "I V"
    and "\<And>V'. I V' \<Longrightarrow> passes Q rest (n + sum_list (map creates cs)) (w + sum_list (map writes cs)) V'"
  shows "passes Q (map (\<lambda>c. (c, Unchecked)) cs @ rest) n w V"
  using assms
proof (induction cs arbitrary: n w V)
  case (Cons c cs)
  have "passes Q (map (\<lambda>c. (c, Unchecked)) cs @ rest) (n + creates c) (w + writes c) V'" if "outcome c n w V st V'" for st V'
  proof (rule Cons.IH)
    show "I V'" using that Cons.prems(1) [of c V V'] Cons.prems(2) by (auto simp: outcome_def)
  qed (use Cons.prems(1,3) in \<open>auto simp: add.assoc\<close>)
  then show ?case by simp
qed simp

lemma passes_rest: "(\<And>V. Q V) \<Longrightarrow> \<forall>x \<in> set cs. snd x = Unchecked \<Longrightarrow> passes Q cs n w V"
  by (induction cs arbitrary: n w V) auto

section \<open>Single calls\<close>

definition empty_fs :: fsmap where
  "empty_fs = [[] \<mapsto> Directory []]"

lemma within_empty: "within empty_fs 1 0"
  by (simp add: within_def empty_fs_def)

lemma empty_fs_at [simp]: "empty_fs [] = Some (Directory [])" "p \<noteq> [] \<Longrightarrow> empty_fs p = None"
  by (simp_all add: empty_fs_def)

lemma children_simps [simp]:
  "children empty_fs p = {}"
  "children (V(p \<mapsto> n)) q = (if p \<noteq> [] \<and> butlast p = q then insert (last p) (children V q) else children V q)"
  "children (V(p := None)) q = (if p \<noteq> [] \<and> butlast p = q then children V q - {last p} else children V q)"
  by (simp add: children_def) (cases p rule: rev_cases; auto simp: children_def)+

lemma passable_simps [simp]: "passable V u []" "passable V u [x]"
  "passable V u [x, y] \<longleftrightarrow> V [x] = Some (Directory u)"
  "passable V u [x, y, z] \<longleftrightarrow> V [x] = Some (Directory u) \<and> V [x, y] = Some (Directory u)"
  "passable V u [x, y, z, t] \<longleftrightarrow> V [x] = Some (Directory u) \<and> V [x, y] = Some (Directory u) \<and> V [x, y, z] = Some (Directory u)"
  by (auto simp: passable_def Cons_eq_append_conv)

end
