(* ===== verification/FS_Client_Tests.thy ===== *)
theory FS_Client_Tests imports FS_Runs begin

text \<open>
  The test clients of the file server (test1.cpp to test17.cpp), from their first call to the end of \<open>main\<close>, with the
  assertion that follows each call. A string literal is passed to \<open>fs_writeblock\<close> by its address: \<open>lit x\<close> is what
  stands in memory from there on, the literal's characters and null byte and whatever comes after them.
  Calls in loops have no assertions; \<open>to_string\<close> is \<open>show_nat\<close>.
\<close>

definition unasserted :: "fs_call list \<Rightarrow> client" where
  "unasserted cs = map (\<lambda>c. (c, Unchecked)) cs"

definition literals :: "(string \<Rightarrow> string) \<Rightarrow> bool" where
  "literals lit \<longleftrightarrow> (\<forall>x. FS_BLOCKSIZE \<le> length (lit x) \<and> (\<exists>r. lit x = x @ nul # r))"

section \<open>Data\<close>

definition writedata :: string where
  "writedata =
     ''We hold these truths to be self-evident, that all men are created equal, that they are endowed by their Creato'' @
     ''r with certain unalienable Rights, that among these are Life, Liberty and the pursuit of Happiness. -- That to'' @
     '' secure these rights, Governments are instituted among Men, deriving their just powers from the consent of the'' @
     '' governed, -- That whenever any Form of Government becomes destructive of these ends, it is the Right of the P'' @
     ''eople to alter or to abolish it, and to institute new Government, laying its foundation on such principles and'' @
     '' organizing its powers in such form, as to them shall seem most likely to effect their Safety and Happiness.''"

definition writedata1 :: string where
  "writedata1 =
     ''We hold these truths''"

definition writedata2 :: string where
  "writedata2 =
     ''asdfghjklmnbvcxshdkfnsu''"

definition writedata3 :: string where
  "writedata3 =
     ''woeiryshfkdhs''"

section \<open>Clients\<close>

definition fs_test1 :: "(string \<Rightarrow> string) \<Rightarrow> client" where
  "fs_test1 lit =
    [(Fs_create ''user1'' ''/dir'' CHR ''d'', Zero),
     (Fs_create ''user1'' ''/dir/file1'' CHR ''f'', Zero),
     (Fs_writeblock ''user1'' ''/dir/file1'' 0 (lit writedata1), Zero),
     (Fs_readblock ''user1'' ''/dir/file1'' 0, Zero),
     (Fs_writeblock ''user1'' ''/dir/file1'' 0 (lit writedata2), Zero),
     (Fs_readblock ''user1'' ''/dir/file1'' 0, Zero),
     (Fs_writeblock ''user1'' ''/dir/file1'' 0 (lit writedata3), Zero),
     (Fs_readblock ''user1'' ''/dir/file1'' 0, Zero),
     (Fs_writeblock ''user1'' ''/dir/file1'' 0 (lit writedata), Zero),
     (Fs_readblock ''user1'' ''/dir/file1'' 0, Zero),
     (Fs_delete ''user1'' ''/dir/file1'', Zero),
     (Fs_delete ''user1'' ''/dir'', Zero)]"

definition fs_test2 :: "(string \<Rightarrow> string) \<Rightarrow> client" where
  "fs_test2 lit =
    [(Fs_create ''user1'' ''/dir'' CHR ''d'', Zero),
     (Fs_create ''us/er1'' ''/adir'' CHR ''d'', Unchecked),
     (Fs_create ''user1'' ''/dir/file1 '' CHR ''f'', Unchecked),
     (Fs_create ''user1'' ''/dir/file2 '' CHR ''d'', Unchecked),
     (Fs_create ''use r1'' ''/dir/file1'' CHR ''f'', Unchecked),
     (Fs_create ''user1 '' ''/dir/file2'' CHR ''d'', Unchecked),
     (Fs_create ''user1'' ''/dir/ file1 '' CHR ''f'', Unchecked),
     (Fs_create ''user1'' ''/dir/ file2 '' CHR ''d'', Unchecked),
     (Fs_create ''user1'' ''/dir///file1'' CHR ''f'', Unchecked),
     (Fs_create ''user1'' ''/dir///file2'' CHR ''d'', Unchecked),
     (Fs_create ''user1'' ''/dir/file1/'' CHR ''f'', Unchecked),
     (Fs_create ''user1'' ''/dir/file2/'' CHR ''d'', Unchecked),
     (Fs_create ''user1'' ''dir/file1'' CHR ''f'', Unchecked),
     (Fs_create ''user1'' ''dir/file2'' CHR ''d'', Unchecked),
     (Fs_create ''user1'' ''/dir/file1'' CHR ''f'', Zero),
     (Fs_writeblock ''user1'' ''/dir///file1'' 0 (lit writedata1), Unchecked),
     (Fs_writeblock ''user1'' ''/dir/file1/'' 0 (lit writedata1), Unchecked),
     (Fs_writeblock ''user1'' ''dir/file1'' 0 (lit writedata1), Unchecked),
     (Fs_writeblock ''user1'' ''/dir/file1'' 0 (lit writedata1), Zero),
     (Fs_readblock ''user1'' ''/dir///file1'' 0, Unchecked),
     (Fs_readblock ''user1'' ''/dir/file1/'' 0, Unchecked),
     (Fs_readblock ''user1'' ''dir/file1'' 0, Unchecked),
     (Fs_readblock ''user1'' ''/dir/file1'' 0, Zero),
     (Fs_writeblock ''user1'' ''/dir/file1'' 0 (lit writedata2), Zero),
     (Fs_readblock ''user1'' ''/dir/file1'' 0, Zero),
     (Fs_writeblock ''user1'' ''/dir/file1'' 0 (lit writedata3), Zero),
     (Fs_readblock ''user1'' ''/dir/file1'' 0, Zero),
     (Fs_writeblock ''user1'' ''/dir/file1'' 0 (lit writedata), Zero),
     (Fs_readblock ''user1'' ''/dir/file1'' 0, Zero),
     (Fs_delete ''user1'' ''/dir///'', Unchecked),
     (Fs_delete ''user1'' ''/dir/'', Unchecked),
     (Fs_delete ''user1'' ''/dir'', Minus_one),
     (Fs_delete ''user1'' ''/dir/file1'', Zero),
     (Fs_delete ''user1'' ''/dir'', Zero)]"

definition fs_test3 :: "(string \<Rightarrow> string) \<Rightarrow> client" where
  "fs_test3 lit =
    [(Fs_create ''user1'' ''/dir'' CHR ''d'', Zero),
     (Fs_create ''user1'' ''/dir/file1'' CHR ''f'', Zero),
     (Fs_writeblock ''user1'' ''/dir/file1'' 0 (lit writedata1), Zero),
     (Fs_readblock ''user1'' ''/dir/file1'' 0, Zero),
     (Fs_writeblock ''user1'' ''/dir/file1'' 1 (lit writedata2), Zero),
     (Fs_readblock ''user1'' ''/dir/file1'' 0, Zero),
     (Fs_writeblock ''user1'' ''/dir/file1'' 1 (lit writedata3), Zero),
     (Fs_readblock ''user1'' ''/dir/file1'' 0, Zero),
     (Fs_writeblock ''user1'' ''/dir/file1'' 0 (lit writedata), Zero),
     (Fs_readblock ''user1'' ''/dir/file1'' 0, Zero),
     (Fs_delete ''user1'' ''/dir/file1'', Zero),
     (Fs_delete ''user1'' ''/dir'', Zero)]"

definition fs_test4 :: "(string \<Rightarrow> string) \<Rightarrow> client" where
  "fs_test4 lit =
    [(Fs_create ''user1'' ''/dir'' CHR ''d'', Zero),
     (Fs_create ''user1'' ''/dir/file1'' CHR ''f'', Zero),
     (Fs_create ''user2'' ''/dir/file2'' CHR ''f'', Unchecked),
     (Fs_create ''user2'' ''/dir/file3'' CHR ''d'', Unchecked),
     (Fs_writeblock ''user1'' ''/dir/file1'' 0 (lit writedata1), Zero),
     (Fs_writeblock ''user2'' ''/dir/file1'' 0 (lit writedata2), Unchecked),
     (Fs_readblock ''user1'' ''/dir/file1'' 0, Zero),
     (Fs_readblock ''user2'' ''/dir/file1'' 0, Unchecked),
     (Fs_writeblock ''user1'' ''/dir/file1'' 0 (lit writedata2), Zero),
     (Fs_readblock ''user1'' ''/dir/file1'' 0, Zero),
     (Fs_writeblock ''user1'' ''/dir/file1'' 0 (lit writedata3), Zero),
     (Fs_readblock ''user1'' ''/dir/file1'' 0, Zero),
     (Fs_writeblock ''user1'' ''/dir/file1'' 0 (lit writedata), Zero),
     (Fs_readblock ''user1'' ''/dir/file1'' 0, Zero),
     (Fs_delete ''user2'' ''/dir/file1'', Unchecked),
     (Fs_delete ''user2'' ''/dir/file2'', Unchecked),
     (Fs_delete ''user1'' ''/dir/file1'', Zero),
     (Fs_delete ''user1'' ''/dir/file1'', Unchecked),
     (Fs_delete ''user2'' ''/dir'', Unchecked),
     (Fs_delete ''user2'' ''/dir1'', Unchecked),
     (Fs_delete ''user1'' ''/dir'', Zero),
     (Fs_delete ''user1'' ''/dir'', Unchecked)]"

definition fs_test5 :: "(string \<Rightarrow> string) \<Rightarrow> client" where
  "fs_test5 lit =
    [(Fs_create ''user1'' ''/dir'' CHR ''d'', Zero),
     (Fs_readblock ''user1'' ''/dir/file1'' 0, Unchecked),
     (Fs_writeblock ''user1'' ''/dir/file1'' 0 (lit writedata1), Unchecked),
     (Fs_readblock ''user1'' ''/dir/file1'' 0, Unchecked),
     (Fs_create ''user1'' ''/dir/file1'' CHR ''f'', Unchecked),
     (Fs_writeblock ''user1'' ''/dir/file1'' 0 (lit writedata1), Unchecked),
     (Fs_readblock ''user1'' ''/dir/file1'' 0, Unchecked),
     (Fs_writeblock ''user1'' ''/dir/file1'' 1 (lit writedata2), Unchecked),
     (Fs_readblock ''user1'' ''/dir/file1'' 1, Unchecked),
     (Fs_writeblock ''user1'' ''/dir/file1'' 2 (lit writedata3), Unchecked),
     (Fs_readblock ''user1'' ''/dir/file1'' 2, Unchecked),
     (Fs_writeblock ''user1'' ''/dir/file1'' 0 (lit writedata), Unchecked),
     (Fs_readblock ''user1'' ''/dir/file1'' 0, Unchecked),
     (Fs_delete ''user1'' ''/dir/file1'', Unchecked),
     (Fs_writeblock ''user1'' ''/dir/file1'' 0 (lit writedata1), Unchecked),
     (Fs_readblock ''user1'' ''/dir/file1'' 0, Unchecked),
     (Fs_delete ''user1'' ''/dir'', Unchecked)]"

definition fs_test6 :: "(string \<Rightarrow> string) \<Rightarrow> client" where
  "fs_test6 lit =
    [(Fs_create ''user1'' ''/dir'' CHR ''d'', Zero),
     (Fs_create ''user1'' ''/dir/file1'' CHR ''f'', Zero),
     (Fs_writeblock ''user1'' ''/dir/file1'' 0 (lit writedata1), Zero),
     (Fs_readblock ''user1'' ''/dir/file1'' 0, Zero),
     (Fs_writeblock ''user1'' ''/dir/file1'' 10000 (lit writedata2), Unchecked),
     (Fs_readblock ''user1'' ''/dir/file1'' 10000, Unchecked),
     (Fs_writeblock ''user1'' ''/dir/file1'' 100 (lit writedata2), Unchecked),
     (Fs_readblock ''user1'' ''/dir/file1'' 100, Unchecked),
     (Fs_writeblock ''user1'' ''/dir/file1'' 0 (lit writedata3), Zero),
     (Fs_readblock ''user1'' ''/dir/file1'' 0, Zero),
     (Fs_writeblock ''user1'' ''/dir/file1'' 0 (lit writedata), Zero),
     (Fs_readblock ''user1'' ''/dir/file1'' 0, Zero),
     (Fs_delete ''user1'' ''/dir/file1'', Zero),
     (Fs_delete ''user1'' ''/dir'', Zero)]"

definition fs_test7 :: "(string \<Rightarrow> string) \<Rightarrow> client" where
  "fs_test7 lit =
    [(Fs_create ''user1'' ''/dir'' CHR ''d'', Zero),
     (Fs_create ''user1'' ''/dir'' CHR ''d'', Unchecked),
     (Fs_create ''user1'' ''/dir1/file'' CHR ''f'', Unchecked),
     (Fs_create ''user1'' ''/dir/file1'' CHR ''f'', Zero),
     (Fs_create ''user1'' ''/dir/file1'' CHR ''f'', Unchecked),
     (Fs_delete ''user1'' ''/dir/file1'', Unchecked),
     (Fs_create ''user1'' ''/dir/file1'' CHR ''f'', Unchecked),
     (Fs_writeblock ''user1'' ''/dir/file1'' 0 (lit writedata1), Zero),
     (Fs_readblock ''user1'' ''/dir/file1'' 0, Zero),
     (Fs_create ''user1'' ''/dir/file1'' CHR ''f'', Unchecked),
     (Fs_writeblock ''user1'' ''/dir/file1'' 0 (lit writedata2), Zero),
     (Fs_readblock ''user1'' ''/dir/file1'' 0, Zero),
     (Fs_writeblock ''user1'' ''/dir/file1'' 0 (lit writedata3), Zero),
     (Fs_readblock ''user1'' ''/dir/file1'' 0, Zero),
     (Fs_writeblock ''user1'' ''/dir/file1'' 0 (lit writedata), Zero),
     (Fs_readblock ''user1'' ''/dir/file1'' 0, Zero),
     (Fs_delete ''user1'' ''/dir/file1'', Zero),
     (Fs_delete ''user1'' ''/dir'', Zero),
     (Fs_create ''user1'' ''/dir'' CHR ''d'', Zero),
     (Fs_create ''user1'' ''/dir1/file'' CHR ''f'', Unchecked),
     (Fs_create ''user1'' ''/dir/file1'' CHR ''f'', Zero),
     (Fs_delete ''user1'' ''/dir/file1'', Unchecked),
     (Fs_create ''user1'' ''/dir/file1'' CHR ''f'', Unchecked),
     (Fs_writeblock ''user1'' ''/dir/file1'' 0 (lit writedata1), Zero),
     (Fs_readblock ''user1'' ''/dir/file1'' 0, Zero)]"

definition fs_test8 :: "(string \<Rightarrow> string) \<Rightarrow> client" where
  "fs_test8 lit =
    [(Fs_create ''user1'' ''/dir'' CHR ''d'', Zero),
     (Fs_create ''user1'' ''/dir/file1'' CHR ''f'', Zero),
     (Fs_writeblock ''user1'' ''/dir/file1'' 0 (lit writedata1), Zero),
     (Fs_readblock ''user1'' ''/dir/file1'' 0, Zero),
     (Fs_writeblock ''user1'' ''/dir/file1'' 0 (lit writedata2), Zero),
     (Fs_readblock ''user1'' ''/dir/file1'' 0, Zero),
     (Fs_writeblock ''user1'' ''/dir/file1'' 0 (lit writedata3), Zero),
     (Fs_readblock ''user1'' ''/dir/file1'' 0, Zero),
     (Fs_writeblock ''user1'' ''/dir/file1'' 0 (lit writedata), Zero),
     (Fs_readblock ''user1'' ''/dir/file1'' 0, Zero),
     (Fs_delete ''user1'' ''/dir/file1'', Zero),
     (Fs_writeblock ''user1'' ''/dir/file1'' 0 (lit writedata1), Unchecked),
     (Fs_readblock ''user1'' ''/dir/file1'' 0, Unchecked),
     (Fs_delete ''user1'' ''/dir'', Zero)]"

definition fs_test9 :: "(string \<Rightarrow> string) \<Rightarrow> client" where
  "fs_test9 lit =
    [(Fs_create ''user1'' ''/dir'' CHR ''d'', Zero),
     (Fs_create ''user1'' ''/dir/file1'' CHR ''f'', Zero)] @
    unasserted (map (\<lambda>i. Fs_create ''user1'' (''/dir/file'' @ show_nat i) CHR ''f'') [0..<101]) @
    [(Fs_writeblock ''user1'' ''/dir/file1'' 0 (lit writedata1), Unchecked)] @
    unasserted (concat (map (\<lambda>i. [Fs_writeblock ''user1'' ''/dir/file1'' i (lit writedata),
       Fs_writeblock ''user1'' ''/dir/file2'' i (lit writedata)]) [0..<21])) @
    [(Fs_writeblock ''user1'' ''/dir/file1'' 0 (lit writedata), Unchecked),
     (Fs_readblock ''user1'' ''/dir/file1'' 0, Unchecked),
     (Fs_writeblock ''user1'' ''/dir/file1'' 0 (lit writedata2), Unchecked),
     (Fs_readblock ''user1'' ''/dir/file1'' 0, Unchecked),
     (Fs_writeblock ''user1'' ''/dir/file1'' 0 (lit writedata3), Unchecked),
     (Fs_readblock ''user1'' ''/dir/file1'' 0, Unchecked),
     (Fs_writeblock ''user1'' ''/dir/file1'' 0 (lit writedata), Unchecked),
     (Fs_readblock ''user1'' ''/dir/file1'' 0, Unchecked)] @
    unasserted (map (\<lambda>i. Fs_delete ''user1'' (''/dir/file'' @ show_nat i)) [0..<31]) @
    unasserted (map (\<lambda>i. Fs_create ''user1'' (''/dir/file'' @ show_nat i) CHR ''f'') [0..<31]) @
    unasserted (map (\<lambda>i. Fs_delete ''user1'' (''/dir/file'' @ show_nat i)) [0..<101]) @
    [(Fs_delete ''user1'' ''/dir/file1'', Unchecked),
     (Fs_delete ''user1'' ''/dir'', Unchecked)]"

definition fs_test10 :: "(string \<Rightarrow> string) \<Rightarrow> client" where
  "fs_test10 lit =
    [(Fs_create ''user1234567a89'' ''/dir'' CHR ''d'', Unchecked),
     (Fs_create ''user123456789'' ''/dir/file1'' CHR ''f'', Unchecked),
     (Fs_writeblock ''user123456789'' ''/dir/file1'' 0 (lit writedata1), Unchecked),
     (Fs_readblock ''user123456789'' ''/dir/file1'' 0, Unchecked),
     (Fs_delete ''user123456789'' ''/dir/file1'', Unchecked),
     (Fs_create ''user1'' ''/dir'' CHR ''d'', Zero),
     (Fs_create ''user1'' ''/dir1234567890123456789012345678901234567890'' CHR ''d'', Unchecked),
     (Fs_create ''user1'' ''/dir1234567890123456789012345678901234567890123456789012345678901234567890123456789012345678901234567890123456789012345678901234567890'' CHR ''d'', Unchecked),
     (Fs_create ''user1'' ''/dir/file1'' CHR ''f'', Zero),
     (Fs_create ''user1'' ''/dir5 '' CHR ''f'', Unchecked),
     (Fs_create ''user12 '' ''/dir6'' CHR ''f'', Unchecked),
     (Fs_create ''user1'' ''/dir/file1'' CHR ''d'', Unchecked),
     (Fs_create ''user1'' ''/dir71 '' CHR ''d'', Unchecked),
     (Fs_create ''user12 '' ''/dir7'' CHR ''d'', Unchecked),
     (Fs_create ''user1'' ''/dir/file1'' CHR ''v'', Unchecked),
     (Fs_create ''user1'' ''/dir/file123456789012345678901234567890123456789012345678901234567890'' CHR ''f'', Unchecked),
     (Fs_writeblock ''user1'' ''/dir/file1'' 0 (lit writedata1), Zero),
     (Fs_readblock ''user1'' ''/dir/file1'' 0, Zero),
     (Fs_writeblock ''user1'' ''/dir/file1'' 0 (lit writedata2), Zero),
     (Fs_readblock ''user1'' ''/dir/file1'' 0, Zero),
     (Fs_writeblock ''user1'' ''/dir/file1'' 0 (lit writedata3), Zero),
     (Fs_readblock ''user1'' ''/dir/file1'' 0, Zero),
     (Fs_writeblock ''user1'' ''/dir/file1'' 0 (lit writedata), Zero),
     (Fs_readblock ''user1'' ''/dir/file1'' 0, Zero),
     (Fs_delete ''user1'' ''/dir/file1'', Zero),
     (Fs_delete ''user1'' ''/dir'', Zero)]"

definition fs_test11 :: "(string \<Rightarrow> string) \<Rightarrow> client" where
  "fs_test11 lit =
    [(Fs_create ''user1'' ''/dir'' CHR ''d'', Zero),
     (Fs_create ''user1'' ''/dir/file1'' CHR ''f'', Zero),
     (Fs_create ''user1'' ''/dir/file2'' CHR ''f'', Unchecked),
     (Fs_readblock ''user1'' ''/dir/file1'' 0, Unchecked),
     (Fs_writeblock ''user1'' ''/dir/file1'' 0 (lit writedata), Unchecked),
     (Fs_writeblock ''user1'' ''/dir/file2'' 0 (lit writedata1), Zero),
     (Fs_readblock ''user1'' ''/dir/file1'' 0, Zero),
     (Fs_readblock ''user1'' ''/dir/file1'' 1, Unchecked),
     (Fs_readblock ''user1'' ''/dir/file2'' 7, Unchecked),
     (Fs_writeblock ''user1'' ''/dir/file1'' 1 (lit writedata), Unchecked),
     (Fs_readblock ''user1'' ''/dir/file1'' 2, Unchecked),
     (Fs_readblock ''user1'' ''/dir/file1'' 5, Unchecked),
     (Fs_writeblock ''user1'' ''/dir/file1'' 1 (lit writedata2), Zero),
     (Fs_readblock ''user1'' ''/dir/file1'' 1, Zero),
     (Fs_writeblock ''user1'' ''/dir/file1'' 0 (lit writedata), Unchecked),
     (Fs_readblock ''user1'' ''/dir/file1'' 1, Unchecked),
     (Fs_writeblock ''user1'' ''/dir/file1'' 0 (lit writedata3), Zero),
     (Fs_readblock ''user1'' ''/dir/file1'' 0, Zero),
     (Fs_writeblock ''user1'' ''/dir/file1'' 0 (lit writedata1), Zero),
     (Fs_readblock ''user1'' ''/dir/file1'' 0, Zero),
     (Fs_delete ''user1'' ''/dir/file1'', Zero),
     (Fs_delete ''user1'' ''/dir'', Unchecked)]"

definition fs_test12 :: "(string \<Rightarrow> string) \<Rightarrow> client" where
  "fs_test12 lit =
    [(Fs_create ''user1'' ''/dir'' CHR ''d'', Zero),
     (Fs_create ''user1'' ''/dir/file1'' CHR ''f'', Zero),
     (Fs_writeblock ''user1'' ''/dir/file1'' 0 (lit writedata1), Zero),
     (Fs_readblock ''user1'' ''/dir/file1'' 0, Zero),
     (Fs_writeblock ''user1'' ''/dir/file1'' 0 (lit writedata2), Zero),
     (Fs_readblock ''user1'' ''/dir/file1'' 0, Zero),
     (Fs_writeblock ''user1'' ''/dir/file1'' 0 (lit writedata3), Zero)] @
    unasserted (concat (map (\<lambda>i. [Fs_writeblock ''user1'' ''/dir/file1'' i (lit writedata),
       Fs_readblock ''user1'' ''/dir/file1'' i]) [0..<126])) @
    [(Fs_readblock ''user1'' ''/dir/file1'' 0, Zero),
     (Fs_delete ''user1'' ''/dir/file1'', Zero),
     (Fs_delete ''user1'' ''/dir'', Zero)]"

definition fs_test13 :: "(string \<Rightarrow> string) \<Rightarrow> client" where
  "fs_test13 lit =
    [(Fs_create ''user1'' ''/dir'' CHR ''d'', Zero),
     (Fs_create ''user1'' ''/dir/file1'' CHR ''f'', Zero)] @
    unasserted (map (\<lambda>i. Fs_create ''user1'' (''/dir/file'' @ show_nat i) CHR ''f'') [0..<126]) @
    [(Fs_writeblock ''user1'' ''/dir/file1'' 0 (lit writedata1), Zero),
     (Fs_readblock ''user1'' ''/dir/file1'' 0, Zero),
     (Fs_writeblock ''user1'' ''/dir/file1'' 0 (lit writedata2), Zero),
     (Fs_readblock ''user1'' ''/dir/file1'' 0, Zero),
     (Fs_writeblock ''user1'' ''/dir/file1'' 0 (lit writedata3), Zero),
     (Fs_readblock ''user1'' ''/dir/file1'' 0, Zero),
     (Fs_writeblock ''user1'' ''/dir/file1'' 0 (lit writedata), Zero),
     (Fs_readblock ''user1'' ''/dir/file1'' 0, Zero),
     (Fs_delete ''user1'' ''/dir/file1'', Zero),
     (Fs_delete ''user1'' ''/dir'', Unchecked)]"

definition fs_test14 :: "(string \<Rightarrow> string) \<Rightarrow> client" where
  "fs_test14 lit =
    [(Fs_create ''user1'' ''/dir'' CHR ''f'', Unchecked),
     (Fs_create ''user1'' ''/dir/file'' CHR ''f'', Unchecked),
     (Fs_create ''user1'' ''/dir/file/file'' CHR ''f'', Unchecked),
     (Fs_readblock ''user1'' ''/dir/file'' 0, Unchecked),
     (Fs_readblock ''user1'' ''/dir'' 0, Unchecked),
     (Fs_readblock ''user1'' ''/dir/dir/dir/file'' 0, Unchecked),
     (Fs_writeblock ''user1'' ''/dir/dir/dir/file'' 0 (lit writedata), Unchecked),
     (Fs_writeblock ''user1'' ''/dir/file'' 1 (lit writedata), Unchecked),
     (Fs_writeblock ''user1'' ''/dir'' 1 (lit writedata), Unchecked),
     (Fs_writeblock ''user2'' ''/dir1/file'' 1 (lit writedata), Unchecked),
     (Fs_readblock ''user1'' ''/dir/file'' 1, Unchecked),
     (Fs_delete ''user1'' ''/dir'', Unchecked),
     (Fs_delete ''user2'' ''/dir1'', Unchecked),
     (Fs_delete ''user1'' ''/dir/file'', Unchecked),
     (Fs_delete ''user2'' ''/dir1/file'', Unchecked),
     (Fs_delete ''user1'' ''/dir/dir'', Unchecked),
     (Fs_delete ''user1'' ''/dir/dir/dir'', Unchecked),
     (Fs_delete ''user1'' ''/dir/dir/dir/file'', Unchecked),
     (Fs_delete ''user2'' ''/dir1'', Unchecked)]"

definition fs_test15 :: "(string \<Rightarrow> string) \<Rightarrow> client" where
  "fs_test15 lit =
    [(Fs_create ''user1'' ''/dir'' CHR ''f'', Unchecked),
     (Fs_create ''user1'' ''/dir/file'' CHR ''f'', Unchecked),
     (Fs_create ''user1'' ''/dir/file/file'' CHR ''f'', Unchecked),
     (Fs_readblock ''user1'' ''/dir/file'' 0, Unchecked),
     (Fs_readblock ''user1'' ''/dir'' 0, Unchecked),
     (Fs_readblock ''user1'' ''/dir/dir/dir/file'' 0, Unchecked),
     (Fs_writeblock ''user1'' ''/dir/dir/dir/file'' 0 (lit writedata), Unchecked),
     (Fs_writeblock ''user1'' ''/dir/file'' 1 (lit writedata), Unchecked),
     (Fs_writeblock ''user1'' ''/dir'' 1 (lit writedata), Unchecked),
     (Fs_writeblock ''user2'' ''/dir1/file'' 1 (lit writedata), Unchecked),
     (Fs_readblock ''user1'' ''/dir/file'' 1, Unchecked),
     (Fs_delete ''user1'' ''/dir'', Unchecked),
     (Fs_delete ''user2'' ''/dir1'', Unchecked),
     (Fs_delete ''user1'' ''/dir/file'', Unchecked),
     (Fs_delete ''user2'' ''/dir1/file'', Unchecked),
     (Fs_delete ''user1'' ''/dir/dir'', Unchecked),
     (Fs_delete ''user1'' ''/dir/dir/dir'', Unchecked),
     (Fs_delete ''user1'' ''/dir/dir/dir/file'', Unchecked),
     (Fs_delete ''user2'' ''/dir1'', Unchecked)]"

definition fs_test16 :: "(string \<Rightarrow> string) \<Rightarrow> client" where
  "fs_test16 lit =
    [(Fs_create ''user1'' ''/dir'' CHR ''d'', Unchecked),
     (Fs_create ''user1'' ''/file'' CHR ''f'', Unchecked)] @
    unasserted (map (\<lambda>i. Fs_delete ''user1'' (''/file'' @ show_nat i)) [0..<10]) @
    [(Fs_create ''user1'' ''/file'' CHR ''f'', Unchecked)]"

definition fs_test17 :: "(string \<Rightarrow> string) \<Rightarrow> client" where
  "fs_test17 lit =
    [(Fs_create ''user1'' ''/dir1'' CHR ''f'', Unchecked),
     (Fs_create ''user1'' ''/dir1/file1111'' CHR ''f'', Unchecked),
     (Fs_create ''user1'' ''/dir1/file1file1'' CHR ''d'', Unchecked),
     (Fs_delete ''user1'' ''/dir0/file0'', Unchecked),
     (Fs_create ''user1'' ''/dir1/file1111'' CHR ''f'', Unchecked),
     (Fs_create ''user1'' ''/dir1/file1file1'' CHR ''d'', Unchecked),
     (Fs_delete ''user1'' ''/dir0/file1'', Unchecked),
     (Fs_create ''user1'' ''/dir1/file1111'' CHR ''f'', Unchecked),
     (Fs_create ''user1'' ''/dir1/file1file1'' CHR ''d'', Unchecked),
     (Fs_readblock ''user1'' ''/dir/file'' 0, Unchecked),
     (Fs_readblock ''user1'' ''/dir'' 0, Unchecked),
     (Fs_readblock ''user1'' ''/dir/dir/dir/file'' 0, Unchecked),
     (Fs_writeblock ''user1'' ''/dir/dir/dir/file'' 0 (lit writedata), Unchecked),
     (Fs_writeblock ''user1'' ''/dir/file'' 1 (lit writedata), Unchecked),
     (Fs_writeblock ''user1'' ''/dir'' 1 (lit writedata), Unchecked),
     (Fs_writeblock ''user2'' ''/dir1/file'' 1 (lit writedata), Unchecked),
     (Fs_readblock ''user1'' ''/dir/file'' 1, Unchecked),
     (Fs_delete ''user1'' ''/dir'', Unchecked),
     (Fs_delete ''user2'' ''/dir1'', Unchecked),
     (Fs_delete ''user1'' ''/dir/file'', Unchecked),
     (Fs_delete ''user2'' ''/dir1/file'', Unchecked),
     (Fs_delete ''user1'' ''/dir/dir'', Unchecked),
     (Fs_delete ''user1'' ''/dir/dir/dir'', Unchecked),
     (Fs_delete ''user1'' ''/dir/dir/dir/file'', Unchecked),
     (Fs_delete ''user2'' ''/dir1'', Unchecked)]"

section \<open>All clients\<close>

text \<open>Each with what it leaves of an empty file system, where that does not depend on how much room there is.\<close>

definition client_tests :: "(string \<Rightarrow> string) \<Rightarrow> (client \<times> fsmap option) list" where
  "client_tests lit =
    [(fs_test1 lit, Some empty_fs),
     (fs_test2 lit, Some (empty_fs([''adir''] \<mapsto> Directory ''us/er1''))),
     (fs_test3 lit, Some empty_fs),
     (fs_test4 lit, Some empty_fs),
     (fs_test5 lit, Some empty_fs),
     (fs_test6 lit, Some empty_fs),
     (fs_test7 lit, Some (empty_fs([''dir''] \<mapsto> Directory ''user1'', [''dir'', ''file1''] \<mapsto> File ''user1'' [take FS_BLOCKSIZE (lit writedata1)]))),
     (fs_test8 lit, Some empty_fs),
     (fs_test9 lit, None),
     (fs_test10 lit, Some (empty_fs([''dir1234567890123456789012345678901234567890''] \<mapsto> Directory ''user1''))),
     (fs_test11 lit, Some (empty_fs([''dir''] \<mapsto> Directory ''user1'', [''dir'', ''file2''] \<mapsto> File ''user1'' [take FS_BLOCKSIZE (lit writedata1)]))),
     (fs_test12 lit, Some empty_fs),
     (fs_test13 lit, None),
     (fs_test14 lit, Some empty_fs),
     (fs_test15 lit, Some empty_fs),
     (fs_test16 lit, Some (empty_fs([''dir''] \<mapsto> Directory ''user1'', [''file''] \<mapsto> File ''user1'' []))),
     (fs_test17 lit, Some (empty_fs([''dir1''] \<mapsto> File ''user1'' [])))]"

end
