(* ===== verification/FS_Client_Props.thy ===== *)
theory FS_Client_Props imports FS_Client_Tests begin

text \<open>
  The file server as its clients see it, and what the test clients assert.
\<close>

section \<open>Users, paths and their names\<close>

lemma test_names:
  "names_of ''us/er1'' ''/adir'' = Some [''adir'']"
  "names_of ''use r1'' ''/dir/file1'' = None"
  "names_of ''user1'' ''/dir'' = Some [''dir'']"
  "names_of ''user1'' ''/dir/'' = None"
  "names_of ''user1'' ''/dir/ file1 '' = None"
  "names_of ''user1'' ''/dir/ file2 '' = None"
  "names_of ''user1'' ''/dir///'' = None"
  "names_of ''user1'' ''/dir///file1'' = None"
  "names_of ''user1'' ''/dir///file2'' = None"
  "names_of ''user1'' ''/dir/dir'' = Some [''dir'', ''dir'']"
  "names_of ''user1'' ''/dir/dir/dir'' = Some [''dir'', ''dir'', ''dir'']"
  "names_of ''user1'' ''/dir/dir/dir/file'' = Some [''dir'', ''dir'', ''dir'', ''file'']"
  "names_of ''user1'' ''/dir/file'' = Some [''dir'', ''file'']"
  "names_of ''user1'' ''/dir/file/file'' = Some [''dir'', ''file'', ''file'']"
  "names_of ''user1'' ''/dir/file1'' = Some [''dir'', ''file1'']"
  "names_of ''user1'' ''/dir/file1 '' = None"
  "names_of ''user1'' ''/dir/file1/'' = None"
  "names_of ''user1'' ''/dir/file123456789012345678901234567890123456789012345678901234567890'' = None"
  "names_of ''user1'' ''/dir/file2'' = Some [''dir'', ''file2'']"
  "names_of ''user1'' ''/dir/file2 '' = None"
  "names_of ''user1'' ''/dir/file2/'' = None"
  "names_of ''user1'' ''/dir0/file0'' = Some [''dir0'', ''file0'']"
  "names_of ''user1'' ''/dir0/file1'' = Some [''dir0'', ''file1'']"
  "names_of ''user1'' ''/dir1'' = Some [''dir1'']"
  "names_of ''user1'' ''/dir1/file'' = Some [''dir1'', ''file'']"
  "names_of ''user1'' ''/dir1/file1111'' = Some [''dir1'', ''file1111'']"
  "names_of ''user1'' ''/dir1/file1file1'' = Some [''dir1'', ''file1file1'']"
  "names_of ''user1'' ''/dir1234567890123456789012345678901234567890'' = Some [''dir1234567890123456789012345678901234567890'']"
  "names_of ''user1'' ''/dir1234567890123456789012345678901234567890123456789012345678901234567890123456789012345678901234567890123456789012345678901234567890'' = None"
  "names_of ''user1'' ''/dir5 '' = None"
  "names_of ''user1'' ''/dir71 '' = None"
  "names_of ''user1'' ''/file'' = Some [''file'']"
  "names_of ''user1'' ''dir/file1'' = None"
  "names_of ''user1'' ''dir/file2'' = None"
  "names_of ''user1 '' ''/dir/file2'' = None"
  "names_of ''user12 '' ''/dir6'' = None"
  "names_of ''user12 '' ''/dir7'' = None"
  "names_of ''user123456789'' ''/dir/file1'' = None"
  "names_of ''user1234567a89'' ''/dir'' = None"
  "names_of ''user2'' ''/dir'' = Some [''dir'']"
  "names_of ''user2'' ''/dir/file1'' = Some [''dir'', ''file1'']"
  "names_of ''user2'' ''/dir/file2'' = Some [''dir'', ''file2'']"
  "names_of ''user2'' ''/dir/file3'' = Some [''dir'', ''file3'']"
  "names_of ''user2'' ''/dir1'' = Some [''dir1'']"
  "names_of ''user2'' ''/dir1/file'' = Some [''dir1'', ''file'']"
  by code_simp+

lemma test_words:
  "plain ''/adir''"
  "plain ''/dir''"
  "plain ''/dir/''"
  "plain ''/dir/ file1 ''"
  "plain ''/dir/ file2 ''"
  "plain ''/dir///''"
  "plain ''/dir///file1''"
  "plain ''/dir///file2''"
  "plain ''/dir/dir''"
  "plain ''/dir/dir/dir''"
  "plain ''/dir/dir/dir/file''"
  "plain ''/dir/file''"
  "plain ''/dir/file/file''"
  "plain ''/dir/file1''"
  "plain ''/dir/file1 ''"
  "plain ''/dir/file1/''"
  "plain ''/dir/file123456789012345678901234567890123456789012345678901234567890''"
  "plain ''/dir/file2''"
  "plain ''/dir/file2 ''"
  "plain ''/dir/file2/''"
  "plain ''/dir/file3''"
  "plain ''/dir0/file0''"
  "plain ''/dir0/file1''"
  "plain ''/dir1''"
  "plain ''/dir1/file''"
  "plain ''/dir1/file1111''"
  "plain ''/dir1/file1file1''"
  "plain ''/dir1234567890123456789012345678901234567890''"
  "plain ''/dir1234567890123456789012345678901234567890123456789012345678901234567890123456789012345678901234567890123456789012345678901234567890''"
  "plain ''/dir5 ''"
  "plain ''/dir6''"
  "plain ''/dir7''"
  "plain ''/dir71 ''"
  "plain ''/file''"
  "plain ''dir/file1''"
  "plain ''dir/file2''"
  "plain ''us/er1''"
  "plain ''use r1''"
  "plain ''user1''"
  "plain ''user1 ''"
  "plain ''user12 ''"
  "plain ''user123456789''"
  "plain ''user1234567a89''"
  "plain ''user2''"
  by code_simp+

section \<open>The test clients\<close>

definition leaves :: "fsmap option \<Rightarrow> fsmap \<Rightarrow> bool" where
  "leaves left V \<longleftrightarrow> (\<forall>W. left = Some W \<longrightarrow> V = W)"

lemma leaves_simps [simp]: "leaves None V" "leaves (Some W) V \<longleftrightarrow> V = W"
  by (auto simp: leaves_def)

lemma empty_fs_removed: "empty_fs(p := None) = (if p = [] then Map.empty else empty_fs)"
  by (auto simp: empty_fs_def fun_eq_iff)

lemmas follow = passes_call test_names changeable_def new_node_def file_at_def put_block_def empty_fs_removed fun_upd_idem

lemma test1_passes: "passes (leaves (Some empty_fs)) (fs_test1 lit) 1 0 empty_fs"
  by (simp add: fs_test1_def follow del: passes.simps(2))

lemma test2_passes: "passes (leaves (Some (empty_fs([''adir''] \<mapsto> Directory ''us/er1'')))) (fs_test2 lit) 1 0 empty_fs"
  by (simp add: fs_test2_def follow del: passes.simps(2))

lemma test3_passes: "passes (leaves (Some empty_fs)) (fs_test3 lit) 1 0 empty_fs"
  by (simp add: fs_test3_def follow del: passes.simps(2))

lemma test4_passes: "passes (leaves (Some empty_fs)) (fs_test4 lit) 1 0 empty_fs"
  by (simp add: fs_test4_def follow del: passes.simps(2))

lemma test5_passes: "passes (leaves (Some empty_fs)) (fs_test5 lit) 1 0 empty_fs"
  by (simp add: fs_test5_def follow del: passes.simps(2))

lemma test6_passes: "passes (leaves (Some empty_fs)) (fs_test6 lit) 1 0 empty_fs"
  by (simp add: fs_test6_def follow del: passes.simps(2))

lemma test7_passes: "passes (leaves (Some (empty_fs([''dir''] \<mapsto> Directory ''user1'', [''dir'', ''file1''] \<mapsto> File ''user1'' [take FS_BLOCKSIZE (lit writedata1)])))) (fs_test7 lit) 1 0 empty_fs"
  by (simp add: fs_test7_def follow del: passes.simps(2))

lemma test8_passes: "passes (leaves (Some empty_fs)) (fs_test8 lit) 1 0 empty_fs"
  by (simp add: fs_test8_def follow del: passes.simps(2))

lemma test10_passes: "passes (leaves (Some (empty_fs([''dir1234567890123456789012345678901234567890''] \<mapsto> Directory ''user1'')))) (fs_test10 lit) 1 0 empty_fs"
  by (simp add: fs_test10_def follow del: passes.simps(2))

lemma test11_passes: "passes (leaves (Some (empty_fs([''dir''] \<mapsto> Directory ''user1'', [''dir'', ''file2''] \<mapsto> File ''user1'' [take FS_BLOCKSIZE (lit writedata1)])))) (fs_test11 lit) 1 0 empty_fs"
  by (simp add: fs_test11_def follow del: passes.simps(2))

lemma test14_passes: "passes (leaves (Some empty_fs)) (fs_test14 lit) 1 0 empty_fs"
  by (simp add: fs_test14_def follow del: passes.simps(2))

lemma test15_passes: "passes (leaves (Some empty_fs)) (fs_test15 lit) 1 0 empty_fs"
  by (simp add: fs_test15_def follow del: passes.simps(2))

lemma test17_passes: "passes (leaves (Some (empty_fs([''dir1''] \<mapsto> File ''user1'' [])))) (fs_test17 lit) 1 0 empty_fs"
  by (simp add: fs_test17_def follow del: passes.simps(2))

text \<open>Loops: paths with a number, and what the calls of a loop keep.\<close>

lemma numbered_name: "i < 1000 \<Longrightarrow> valid_name (''file'' @ show_nat i)" "''file'' @ show_nat i \<noteq> ''file''"
proof -
  have "\<not> is_digit CHR ''/''" by code_simp
  then have "CHR ''/'' \<notin> set (show_nat i)" using show_nat_digits [of i] by auto
  then show "valid_name (''file'' @ show_nat i)" if "i < 1000"
    using that short_number [of i] by (simp add: valid_name_def)
  show "''file'' @ show_nat i \<noteq> ''file''" using show_nat_not_nil [of i] by simp
qed

lemma numbered_path:
  assumes "i < 1000"
  shows "names_of ''user1'' (''/dir/file'' @ show_nat i) = Some [''dir'', ''file'' @ show_nat i]"
    "names_of ''user1'' (''/file'' @ show_nat i) = Some [''file'' @ show_nat i]"
proof -
  have d: "valid_name ''dir''" by code_simp
  have b: "CHR '' '' \<notin> set (show_nat i)" using show_nat_digits [of i] blank_is_space by blast
  note l = assms [folded short_number]
  have "path_parser (''/dir/file'' @ show_nat i) = Some [''dir'', ''file'' @ show_nat i]"
    using path_parser_iff [of "''/dir/file'' @ show_nat i"] d numbered_name(1) [OF assms] by simp
  with b l show "names_of ''user1'' (''/dir/file'' @ show_nat i) = Some [''dir'', ''file'' @ show_nat i]"
    by (simp add: names_of_def)
  have "path_parser (''/file'' @ show_nat i) = Some [''file'' @ show_nat i]"
    using path_parser_iff [of "''/file'' @ show_nat i"] numbered_name(1) [OF assms] by simp
  with b l show "names_of ''user1'' (''/file'' @ show_nat i) = Some [''file'' @ show_nat i]"
    by (simp add: names_of_def)
qed

lemmas numbered = numbered_name(2) [simplified] numbered_path [simplified]

lemma passes_loop:
  assumes "\<And>c V V'. c \<in> set cs \<Longrightarrow> I V \<Longrightarrow> fs_do c V = Some V' \<Longrightarrow> I V'" "I V"
    and "\<And>V'. I V' \<Longrightarrow> passes Q rest (n + sum_list (map creates cs)) (w + sum_list (map writes cs)) V'"
  shows "passes Q (unasserted cs @ rest) n w V"
  unfolding unasserted_def by (rule passes_unasserted [of cs I, OF assms])

lemma sum_list_blocks: "sum_list (map f (concat (map g xs))) = sum_list (map (\<lambda>x. sum_list (map f (g x))) xs)"
  for f :: "'a \<Rightarrow> nat"
  by (induction xs) auto

lemma test16_passes:
  "passes (leaves (Some (empty_fs([''dir''] \<mapsto> Directory ''user1'', [''file''] \<mapsto> File ''user1'' [])))) (fs_test16 lit) 1 0 empty_fs"
proof -
  let ?V = "empty_fs([''dir''] \<mapsto> Directory ''user1'', [''file''] \<mapsto> File ''user1'' [])"
  let ?cs = "map (\<lambda>i. Fs_delete ''user1'' (''/file'' @ show_nat i)) [0..<10]"
  let ?rest = "[(Fs_create ''user1'' ''/file'' CHR ''f'', Unchecked)]"
  have n: "fs_do (Fs_delete ''user1'' (''/file'' @ show_nat i)) ?V = None" if "i < 10" for i
    using that numbered_path(2) [of i] numbered_name(2) [of i] by simp
  have c: "sum_list (map creates ?cs) = 0" "sum_list (map writes ?cs) = 0"
    by (simp_all add: comp_def sum_list_blocks sum_list_triv del: upt_rec_numeral)
  have "passes (leaves (Some ?V)) (unasserted ?cs @ ?rest) 3 0 ?V"
  proof (rule passes_loop [where I = "(=) ?V"])
    fix c V V' assume "c \<in> set ?cs" "?V = V" "fs_do c V = Some V'"
    with n show "?V = V'" by auto
  next
    fix V' assume "?V = V'"
    then show "passes (leaves (Some ?V)) ?rest (3 + sum_list (map creates ?cs)) (0 + sum_list (map writes ?cs)) V'"
      unfolding c by (auto simp: follow simp del: passes.simps(2))
  qed simp
  then show ?thesis by (simp add: fs_test16_def follow numeral_3_eq_3 del: passes.simps(2))
qed

lemma test12_passes: "passes (leaves (Some empty_fs)) (fs_test12 lit) 1 0 empty_fs"
proof -
  let ?V = "\<lambda>ds. empty_fs([''dir''] \<mapsto> Directory ''user1'', [''dir'', ''file1''] \<mapsto> File ''user1'' ds)"
  let ?cs = "concat (map (\<lambda>i. [Fs_writeblock ''user1'' ''/dir/file1'' i (lit writedata), Fs_readblock ''user1'' ''/dir/file1'' i]) [0..<126])"
  let ?rest = "[(Fs_readblock ''user1'' ''/dir/file1'' 0, Zero), (Fs_delete ''user1'' ''/dir/file1'', Zero), (Fs_delete ''user1'' ''/dir'', Zero)]"
  have c: "sum_list (map creates ?cs) = 0" "sum_list (map writes ?cs) = 126"
    by (simp_all add: comp_def sum_list_blocks sum_list_triv del: upt_rec_numeral)
  have kept: "es \<noteq> [] \<Longrightarrow> \<exists>ds. ds \<noteq> [] \<and> ?V es = ?V ds" for es by blast
  have "passes (leaves (Some empty_fs)) (unasserted ?cs @ ?rest) 3 3 (?V [take FS_BLOCKSIZE (lit writedata3)])"
  proof (rule passes_loop [where I = "\<lambda>V. \<exists>ds. ds \<noteq> [] \<and> V = ?V ds"])
    fix c V V' assume "c \<in> set ?cs" "\<exists>ds. ds \<noteq> [] \<and> V = ?V ds" "fs_do c V = Some V'"
    then show "\<exists>ds. ds \<noteq> [] \<and> V' = ?V ds"
      by (auto simp: follow split: if_splits simp del: upt_rec_numeral intro!: kept)
  next
    fix V' assume "\<exists>ds. ds \<noteq> [] \<and> V' = ?V ds"
    then show "passes (leaves (Some empty_fs)) ?rest (3 + sum_list (map creates ?cs)) (3 + sum_list (map writes ?cs)) V'"
      unfolding c by (auto simp: follow simp del: passes.simps(2))
  qed auto
  then show ?thesis by (simp add: fs_test12_def follow numeral_3_eq_3 del: passes.simps(2) upt_rec_numeral)
qed

text \<open>More files than a directory may hold: some of the creations may fail, but \<open>file1\<close> is there.\<close>

lemma test13_passes: "passes (leaves None) (fs_test13 lit) 1 0 empty_fs"
proof -
  let ?V = "empty_fs([''dir''] \<mapsto> Directory ''user1'', [''dir'', ''file1''] \<mapsto> File ''user1'' [])"
  let ?cs = "map (\<lambda>i. Fs_create ''user1'' (''/dir/file'' @ show_nat i) CHR ''f'') [0..<126]"
  let ?I = "\<lambda>V. V [''dir''] = Some (Directory ''user1'') \<and> V [''dir'', ''file1''] = Some (File ''user1'' []) \<and>
    V [] = Some (Directory []) \<and> children V [''dir'', ''file1''] = {}"
  have c: "sum_list (map creates ?cs) = 126" "sum_list (map writes ?cs) = 0"
    by (simp_all add: comp_def sum_list_triv del: upt_rec_numeral)
  have "passes (leaves None) (unasserted ?cs @ rest) 3 0 ?V" if "\<And>V. ?I V \<Longrightarrow> passes (leaves None) rest 129 0 V" for rest
  proof (rule passes_loop [where I = ?I])
    fix c V V' assume "c \<in> set ?cs" "?I V" "fs_do c V = Some V'"
    then show "?I V'" by (auto simp: numbered_path new_node_def split: if_splits simp del: upt_rec_numeral append.simps)
  next
    fix V' assume "?I V'"
    then show "passes (leaves None) rest (3 + sum_list (map creates ?cs)) (0 + sum_list (map writes ?cs)) V'"
      unfolding c using that by simp
  qed auto
  then show ?thesis
    by (simp add: fs_test13_def follow numeral_3_eq_3 del: passes.simps(2) upt_rec_numeral)
qed

text \<open>After two calls nothing more is asserted.\<close>

lemma test9_passes: "passes (leaves None) (fs_test9 lit) 1 0 empty_fs"
  by (simp add: fs_test9_def passes_call [of "Fs_create u p t" _ _ _ Zero for u p t] test_names changeable_def new_node_def
      unasserted_def del: passes.simps(2) upt_rec_numeral set_upt) (rule passes_rest; simp add: ball_Un image_iff)

lemmas tests_passes = test1_passes test2_passes test3_passes test4_passes test5_passes test6_passes test7_passes test8_passes
  test9_passes test10_passes test11_passes test12_passes test13_passes test14_passes test15_passes test16_passes test17_passes

lemma client_tests_pass: "(prog, left) \<in> set (client_tests lit) \<Longrightarrow> passes (leaves left) prog 1 0 empty_fs"
  unfolding client_tests_def using tests_passes by (auto simp del: One_nat_def)

lemma unasserted_calls: "(\<forall>x \<in> set (unasserted cs). P (fst x)) \<longleftrightarrow> (\<forall>c \<in> set cs. P c)"
  by (auto simp: unasserted_def)

lemma plain_append: "plain v \<Longrightarrow> plain w \<Longrightarrow> plain (v @ w)"
  by (auto simp: plain_def)

lemma plain_number: "plain (show_nat i)"
  using show_nat_word [of i] by (auto simp: plain_def word_def)

lemma plain_numbered: "plain (''/dir/file'' @ show_nat i)" "plain (''/file'' @ show_nat i)"
  by (rule plain_append [OF _ plain_number]; code_simp)+

lemma type_chars: "nul \<noteq> CHR ''d''" "nul \<noteq> CHR ''f''" "nul \<noteq> CHR ''v''"
  "\<not> is_space CHR ''d''" "\<not> is_space CHR ''f''" "\<not> is_space CHR ''v''"
  by code_simp+

lemma literal_length: "literals lit \<Longrightarrow> 512 \<le> length (lit x)"
  by (simp add: literals_def)

lemmas plain_simps = test_words plain_numbered [simplified] type_chars unasserted_calls ball_Un literal_length

lemma test1_plain: "literals lit \<Longrightarrow> \<forall>x \<in> set (fs_test1 lit). plain_call (fst x)"
  by (simp add: fs_test1_def plain_simps)

lemma test2_plain: "literals lit \<Longrightarrow> \<forall>x \<in> set (fs_test2 lit). plain_call (fst x)"
  by (simp add: fs_test2_def plain_simps)

lemma test3_plain: "literals lit \<Longrightarrow> \<forall>x \<in> set (fs_test3 lit). plain_call (fst x)"
  by (simp add: fs_test3_def plain_simps)

lemma test4_plain: "literals lit \<Longrightarrow> \<forall>x \<in> set (fs_test4 lit). plain_call (fst x)"
  by (simp add: fs_test4_def plain_simps)

lemma test5_plain: "literals lit \<Longrightarrow> \<forall>x \<in> set (fs_test5 lit). plain_call (fst x)"
  by (simp add: fs_test5_def plain_simps)

lemma test6_plain: "literals lit \<Longrightarrow> \<forall>x \<in> set (fs_test6 lit). plain_call (fst x)"
  by (simp add: fs_test6_def plain_simps)

lemma test7_plain: "literals lit \<Longrightarrow> \<forall>x \<in> set (fs_test7 lit). plain_call (fst x)"
  by (simp add: fs_test7_def plain_simps)

lemma test8_plain: "literals lit \<Longrightarrow> \<forall>x \<in> set (fs_test8 lit). plain_call (fst x)"
  by (simp add: fs_test8_def plain_simps)

lemma test9_plain: "literals lit \<Longrightarrow> \<forall>x \<in> set (fs_test9 lit). plain_call (fst x)"
  by (simp add: fs_test9_def plain_simps del: upt_rec_numeral)

lemma test10_plain: "literals lit \<Longrightarrow> \<forall>x \<in> set (fs_test10 lit). plain_call (fst x)"
  by (simp add: fs_test10_def plain_simps)

lemma test11_plain: "literals lit \<Longrightarrow> \<forall>x \<in> set (fs_test11 lit). plain_call (fst x)"
  by (simp add: fs_test11_def plain_simps)

lemma test12_plain: "literals lit \<Longrightarrow> \<forall>x \<in> set (fs_test12 lit). plain_call (fst x)"
  by (simp add: fs_test12_def plain_simps del: upt_rec_numeral)

lemma test13_plain: "literals lit \<Longrightarrow> \<forall>x \<in> set (fs_test13 lit). plain_call (fst x)"
  by (simp add: fs_test13_def plain_simps del: upt_rec_numeral)

lemma test14_plain: "literals lit \<Longrightarrow> \<forall>x \<in> set (fs_test14 lit). plain_call (fst x)"
  by (simp add: fs_test14_def plain_simps)

lemma test15_plain: "literals lit \<Longrightarrow> \<forall>x \<in> set (fs_test15 lit). plain_call (fst x)"
  by (simp add: fs_test15_def plain_simps)

lemma test16_plain: "literals lit \<Longrightarrow> \<forall>x \<in> set (fs_test16 lit). plain_call (fst x)"
  by (simp add: fs_test16_def plain_simps del: upt_rec_numeral)

lemma test17_plain: "literals lit \<Longrightarrow> \<forall>x \<in> set (fs_test17 lit). plain_call (fst x)"
  by (simp add: fs_test17_def plain_simps)

lemmas tests_plain = test1_plain test2_plain test3_plain test4_plain test5_plain test6_plain test7_plain test8_plain test9_plain
  test10_plain test11_plain test12_plain test13_plain test14_plain test15_plain test16_plain test17_plain

lemma client_tests_plain:
  assumes "literals lit" "(prog, left) \<in> set (client_tests lit)"
  shows "\<forall>x \<in> set prog. plain_call (fst x)"
  using assms(2) unfolding client_tests_def
  by (simp only: list.set insert_iff empty_iff prod.inject) (elim disjE conjE FalseE; hypsubst; rule tests_plain [OF assms(1)])

section \<open>The file server and its clients\<close>

text \<open>
  The names of a call are words of its request, so that white space in them matters. A blank makes the server refuse the request, but a tab
  does not: with the path \<open>/a\<close>, tab, \<open>f\<close> the server takes \<open>/a\<close> for the path and \<open>f\<close> for the type, and makes a file.
\<close>

definition tab_call :: fs_call where
  "tab_call = Fs_create ''u'' (''/a'' @ CHR 0x09 # ''f'') (CHR ''d'')"

lemma tab_splits_path:
  "dispatch io mem (request tab_call) sock s = handle_create io mem (CHR 0x09 # ''f d'') ''u'' ''/a'' s"
  "next_word (CHR 0x09 # ''f d'') = Some (''f'', '' d'')"
  "fs_do tab_call empty_fs = Some (empty_fs([''a'' @ CHR 0x09 # ''f''] \<mapsto> Directory ''u''))"
proof -
  have w: "next_word (request tab_call) = Some (''FS_CREATE'', '' u /a'' @ CHR 0x09 # ''f d'')"
    "next_word ('' u /a'' @ CHR 0x09 # ''f d'') = Some (''u'', '' /a'' @ CHR 0x09 # ''f d'')"
    "next_word ('' /a'' @ CHR 0x09 # ''f d'') = Some (''/a'', CHR 0x09 # ''f d'')"
    "check_request_type ''FS_CREATE'' (request tab_call) = 3" by code_simp+
  then show "dispatch io mem (request tab_call) sock s = handle_create io mem (CHR 0x09 # ''f d'') ''u'' ''/a'' s"
    by (simp add: dispatch_def FS_MAXUSERNAME_def FS_MAXPATHNAME_def del: append.simps request.simps)
  show "next_word (CHR 0x09 # ''f d'') = Some (''f'', '' d'')" by code_simp
  have "names_of ''u'' (''/a'' @ CHR 0x09 # ''f'') = Some [''a'' @ CHR 0x09 # ''f'']" by code_simp
  then show "fs_do tab_call empty_fs = Some (empty_fs([''a'' @ CHR 0x09 # ''f''] \<mapsto> Directory ''u''))"
    by (simp add: tab_call_def follow)
qed

text \<open>C12. The client library with the server is equivalent to the function \<open>fs_do\<close> on the map from paths to files and
  directories, as long as there is room. The call is one whose user and path name are not empty and have no null byte and no white
  space but blanks, whose type is not white space, and whose data are a whole block (\<open>plain_call\<close>; with a tab in a path name the
  claim is false, as \<open>tab_splits_path\<close> shows). For every such call, whatever the pieces its bytes arrive in and the state of the
  server, the call comes back. It returns 0 and the files are what the function gives, or it returns -1, the files are
  unchanged, and the function fails or there was no room. The server stands in both cases.\<close>
theorem calls_equivalent:
  assumes "disk_laws io good" "mem_ok mem" "client_laws lib" "server_ok io good s" "plain_call c"
  shows "(\<exists>st s'. served lib io mem c s st s') \<and>
    (\<forall>st s'. served lib io mem c s st s' \<longrightarrow> server_ok io good s' \<and>
       (st = 0 \<and> fs_do c (files io s) = Some (files io s') \<or>
        st = - 1 \<and> files io s' = files io s \<and> (fs_do c (files io s) = None \<or> \<not> room_for c (files io s))))"
  using call_returns [OF assms(1,4,2,3,5)] call_served [OF assms(1,4,2,3,5)] unfolding allowed_def by blast

text \<open>A library that sends every request, and memory after the literals.\<close>

definition sending_lib :: client_lib where
  "sending_lib = \<lparr>refuses = (\<lambda>c. False), message = (\<lambda>c. request c @ [nul] @ payload c), status = (\<lambda>c ms. if ms = [] then - 1 else 0)\<rparr>"

definition padded :: "string \<Rightarrow> string" where
  "padded x = x @ nul # replicate FS_BLOCKSIZE (CHR ''m'')"

lemma sending_lib_laws: "client_laws sending_lib"
  by (simp add: client_laws_def sending_lib_def)

lemma padded_literals: "literals padded"
  by (auto simp: literals_def padded_def)

lemma blank_files_empty: "files ram blank_server = empty_fs"
  by (auto simp: blank_files empty_fs_def fun_eq_iff)

lemma calls_equivalent_witness:
  "\<exists>s'. served sending_lib ram some_junk (Fs_create ''user1'' ''/dir'' CHR ''d'') blank_server 0 s' \<and>
     files ram s' = empty_fs([''dir''] \<mapsto> Directory ''user1'')"
proof -
  let ?c = "Fs_create ''user1'' ''/dir'' CHR ''d''"
  have p: "plain_call ?c" by (simp add: plain_simps)
  have d: "fs_do ?c empty_fs = Some (empty_fs([''dir''] \<mapsto> Directory ''user1''))" by (simp add: follow)
  have r: "room_for ?c empty_fs" using roomy_room [OF within_empty, of ?c] by simp
  note eq = calls_equivalent [OF ram_laws junk_ok sending_lib_laws blank_server_ok p, unfolded blank_files_empty]
  from conjunct1 [OF eq] obtain st s' where s': "served sending_lib ram some_junk ?c blank_server st s'" by blast
  with conjunct2 [OF eq] d r have "st = 0" "files ram s' = empty_fs([''dir''] \<mapsto> Directory ''user1'')"
    by (auto simp del: fs_do.simps room_for.simps)
  with s' show ?thesis by blast
qed

text \<open>C25. The test clients: on a server whose file system is empty, each of them runs to its end, whatever the pieces the
  requests arrive in; every assertion in it holds, in particular those after the many creations and writes that
  go to the limits of a directory and of a file; and it leaves the files given with it.\<close>
theorem clients_succeed:
  assumes "disk_laws io good" "mem_ok mem" "client_laws lib" "literals lit" "server_ok io good s" "files io s = empty_fs"
    and "(prog, left) \<in> set (client_tests lit)"
  shows "(\<exists>s'. client_run lib io mem prog s True s') \<and>
    (\<forall>ok s'. client_run lib io mem prog s ok s' \<longrightarrow> ok \<and> server_ok io good s' \<and> (\<forall>V. left = Some V \<longrightarrow> files io s' = V))"
proof -
  have e: "within (files io s) 1 0" "passes (leaves left) prog 1 0 (files io s)"
    using within_empty client_tests_pass [OF assms(7)] by (simp_all only: assms(6))
  note p = client_tests_plain [OF assms(4,7)]
  have r: "ok \<and> server_ok io good s' \<and> (\<forall>V. left = Some V \<longrightarrow> files io s' = V)" if "client_run lib io mem prog s ok s'" for ok s'
    using passes_run [OF that assms(1-3,5) p e] by (simp add: leaves_def)
  from runs_exist [OF assms(1-3,5) p] obtain ok s' where "client_run lib io mem prog s ok s'" by blast
  with r [OF this] have "client_run lib io mem prog s True s'" by simp
  with r show ?thesis by blast
qed

lemma clients_succeed_witness:
  "\<exists>s'. client_run sending_lib ram some_junk (fs_test1 padded) blank_server True s' \<and> files ram s' = empty_fs"
proof -
  have "(fs_test1 padded, Some empty_fs) \<in> set (client_tests padded)" by (simp add: client_tests_def)
  from clients_succeed [OF ram_laws junk_ok sending_lib_laws padded_literals blank_server_ok blank_files_empty this]
  show ?thesis by blast
qed

end
