(* ===== verification/FS_Threads.thy ===== *)
theory FS_Threads imports FS_Calls begin

text \<open>
  The handlers of several connections at once (Project4/file_server.cpp: \<open>main\<close> starts a thread for each). A handler goes from
  lock to lock; what it does between two points where others may come in is one step, made of the operations of FS_Server.
  A step that takes a lock of \<open>disk_locks\<close> waits until no thread holds it in a way that excludes this.

  A step under such a lock may have one section of \<open>free_block_lock\<close> in it. It is not divided there: apart from this section it
  accesses only blocks under its locks and blocks that it has for itself, so that steps of others commute with the rest of it.
\<close>

section \<open>Handlers under way\<close>

datatype operation = Op_create string | Op_delete | Op_readblock nat | Op_writeblock nat string

text \<open>
  Where a handler stands. \<open>Visit\<close>, \<open>Next\<close> and \<open>Failed\<close> are in \<open>traverse_dir\<close>, with the names still to be looked up;
  \<open>Target\<close> is at the handler's own lock, \<open>Work\<close> and \<open>Leave\<close> in its scope; \<open>Freeing\<close> and \<open>Return\<close> are at the free blocks;
  \<open>Reply\<close> and \<open>Done\<close> carry what is answered after the words of the request.
\<close>

datatype place = Begin | Enter | Visit target_inode "string list" | Next target_inode "string list" | Failed target_inode
  | Target target_inode | Work nat | Leave nat "string option" | Freeing | Return | Reply "string option" | Done "string option"

text \<open>
  The local variables: the parsed request, \<open>new_inode_block\<close> while it is the handler's, and \<open>file_inode\<close> with its block
  from the removal until the blocks are given back.
\<close>

record handler =
  operation_of :: operation
  h_user :: string
  h_path :: "string list"
  h_text :: string
  place :: place
  new_block :: "nat option"
  removed :: "(fs_inode \<times> nat) option"

text \<open>What is traversed, and whether the handler's own lock is exclusive.\<close>

definition target_path :: "handler \<Rightarrow> string list" where
  "target_path h = (case operation_of h of Op_create _ \<Rightarrow> butlast (h_path h) | Op_delete \<Rightarrow> butlast (h_path h) | _ \<Rightarrow> h_path h)"

definition exclusive :: "handler \<Rightarrow> bool" where
  "exclusive h = (case operation_of h of Op_readblock _ \<Rightarrow> False | _ \<Rightarrow> True)"

section \<open>Steps of a handler\<close>

definition begin_step :: "handler \<Rightarrow> 'd server \<Rightarrow> handler \<times> 'd server" where
  "begin_step h s = (case operation_of h of
      Op_create _ \<Rightarrow>
        let s = lock_free s in
        if free_blocks s = [] then (h\<lparr>place := Done None\<rparr>, unlock_free s)
        else (h\<lparr>place := Enter, new_block := Some (hd (free_blocks s))\<rparr>, unlock_free (pop_free s))
    | _ \<Rightarrow> (h\<lparr>place := Enter\<rparr>, s))"

definition enter_step :: "handler \<Rightarrow> 'd server \<Rightarrow> (handler \<times> 'd server) option" where
  "enter_step h s = (let result = default_target\<lparr>valid := True\<rparr> in
     if target_path h = [] then Some (h\<lparr>place := Target result\<rparr>, s)
     else do {
       s \<leftarrow> lock_shared 0 s;
       Some (h\<lparr>place := Visit result (target_path h)\<rparr>, s) })"

text \<open>The locked inode is read, checked (the root is not) and searched for the next name.\<close>

definition visit_step :: "'d disk_io \<Rightarrow> handler \<Rightarrow> target_inode \<Rightarrow> string list \<Rightarrow> 'd server \<Rightarrow> (handler \<times> 'd server) option" where
  "visit_step io h t names s = do {
     (bytes, s) \<leftarrow> read_block io (parent_inode_block t) s;
     let inode = decode_inode bytes;
     if parent_inode_block t \<noteq> 0 \<and> (c_string (owner inode) \<noteq> h_user h \<or> itype inode \<noteq> CHR ''d'')
     then Some (h\<lparr>place := Failed (t\<lparr>valid := False\<rparr>)\<rparr>, s)
     else do {
       (t, _, s) \<leftarrow> check_existance io t inode (hd names) None s;
       Some (h\<lparr>place := if \<not> valid t then Failed t else if tl names = [] then Target t else Next t (tl names)\<rparr>, s) } }"

text \<open>Lock coupling: the next lock is taken before the last is released.\<close>

definition next_step :: "handler \<Rightarrow> target_inode \<Rightarrow> string list \<Rightarrow> 'd server \<Rightarrow> (handler \<times> 'd server) option" where
  "next_step h t names s = do {
     s \<leftarrow> lock_shared (t_inode_block t) s;
     s \<leftarrow> unlock_shared (parent_inode_block t) s;
     Some (h\<lparr>place := Visit (t\<lparr>parent_inode_block := t_inode_block t\<rparr>) names\<rparr>, s) }"

definition fail_step :: "handler \<Rightarrow> target_inode \<Rightarrow> 'd server \<Rightarrow> (handler \<times> 'd server) option" where
  "fail_step h t s = do {
     s \<leftarrow> unlock_shared (parent_inode_block t) s;
     Some (h\<lparr>place := if new_block h = None then Done None else Return\<rparr>, s) }"

definition target_step :: "handler \<Rightarrow> target_inode \<Rightarrow> 'd server \<Rightarrow> (handler \<times> 'd server) option" where
  "target_step h t s = do {
     s \<leftarrow> move_lock (if exclusive h then Lock else Lock_shared) t s;
     Some (h\<lparr>place := Work (t_inode_block t)\<rparr>, s) }"

text \<open>What the handler does in the scope of its lock.\<close>

definition work_step :: "'d disk_io \<Rightarrow> junk \<Rightarrow> handler \<Rightarrow> nat \<Rightarrow> 'd server \<Rightarrow> (handler \<times> 'd server) option" where
  "work_step io mem h d s = (case operation_of h of
      Op_create type \<Rightarrow> do {
        (made, s) \<leftarrow> create_in_dir io mem type (h_user h) (last (h_path h)) (the (new_block h)) d s;
        Some (h\<lparr>place := Leave d (if made then Some [] else None), new_block := None\<rparr>, s) }
    | Op_delete \<Rightarrow> do {
        (deleted, s) \<leftarrow> delete_in_dir io mem (h_user h) (last (h_path h)) d s;
        Some (h\<lparr>place := Leave d (if deleted \<noteq> None then Some [] else None), removed := deleted\<rparr>, s) }
    | Op_readblock k \<Rightarrow> do {
        (data, s) \<leftarrow> read_file io (h_user h) k d s;
        Some (h\<lparr>place := Leave d data\<rparr>, s) }
    | Op_writeblock k data \<Rightarrow> do {
        (written, s) \<leftarrow> write_file io mem (h_user h) k data d s;
        Some (h\<lparr>place := Leave d (if written then Some [] else None)\<rparr>, s) })"

definition leave_step :: "handler \<Rightarrow> nat \<Rightarrow> string option \<Rightarrow> 'd server \<Rightarrow> (handler \<times> 'd server) option" where
  "leave_step h d answer s = do {
     s \<leftarrow> on_lock (if exclusive h then Unlock else Unlock_shared) d s;
     Some (h\<lparr>place := if removed h \<noteq> None then Freeing else if answer = None then Done None else Reply answer\<rparr>, s) }"

definition freeing_step :: "handler \<Rightarrow> 'd server \<Rightarrow> (handler \<times> 'd server) option" where
  "freeing_step h s = do {
     (inode, block) \<leftarrow> removed h;
     s \<leftarrow> push_all (block_list inode) (lock_free s);
     Some (h\<lparr>place := Reply (Some []), removed := None\<rparr>, unlock_free (push_free block s)) }"

definition return_step :: "handler \<Rightarrow> 'd server \<Rightarrow> handler \<times> 'd server" where
  "return_step h s = (h\<lparr>place := Done None, new_block := None\<rparr>, return_empty_block (the (new_block h)) s)"

definition reply_step :: "handler \<Rightarrow> string option \<Rightarrow> 'd server \<Rightarrow> handler \<times> 'd server" where
  "reply_step h answer s = (h\<lparr>place := Done answer\<rparr>, reply (h_text h @ the answer) s)"

fun act_at :: "'d disk_io \<Rightarrow> junk \<Rightarrow> place \<Rightarrow> handler \<Rightarrow> 'd server \<Rightarrow> (handler \<times> 'd server) option" where
  "act_at io mem Begin h s = Some (begin_step h s)"
| "act_at io mem Enter h s = enter_step h s"
| "act_at io mem (Visit t names) h s = visit_step io h t names s"
| "act_at io mem (Next t names) h s = next_step h t names s"
| "act_at io mem (Failed t) h s = fail_step h t s"
| "act_at io mem (Target t) h s = target_step h t s"
| "act_at io mem (Work d) h s = work_step io mem h d s"
| "act_at io mem (Leave d answer) h s = leave_step h d answer s"
| "act_at io mem Freeing h s = freeing_step h s"
| "act_at io mem Return h s = Some (return_step h s)"
| "act_at io mem (Reply answer) h s = Some (reply_step h answer s)"
| "act_at io mem (Done answer) h s = None"

definition act :: "'d disk_io \<Rightarrow> junk \<Rightarrow> handler \<Rightarrow> 'd server \<Rightarrow> (handler \<times> 'd server) option" where
  "act io mem h s = act_at io mem (place h) h s"

section \<open>Locks\<close>

text \<open>The disk locks a handler holds between its steps, each with whether it is exclusive.\<close>

fun held_at :: "place \<Rightarrow> bool \<Rightarrow> (nat \<times> bool) list" where
  "held_at (Visit t names) x = [(parent_inode_block t, False)]"
| "held_at (Next t names) x = [(parent_inode_block t, False)]"
| "held_at (Failed t) x = [(parent_inode_block t, False)]"
| "held_at (Target t) x = coupled t"
| "held_at (Work d) x = [(d, x)]"
| "held_at (Leave d answer) x = [(d, x)]"
| "held_at _ x = []"

definition held :: "handler \<Rightarrow> (nat \<times> bool) list" where
  "held h = held_at (place h) (exclusive h)"

text \<open>
  The lock that the next step takes. \<open>handle_delete\<close> locks in its step \<open>Work\<close> what it has found in the directory: the
  directory is locked, so that it still finds this when the lock is granted.
\<close>

definition child_of :: "'d disk_io \<Rightarrow> string \<Rightarrow> string \<Rightarrow> nat \<Rightarrow> 'd server \<Rightarrow> nat option" where
  "child_of io user name dir s = (case read_block io dir s of
      None \<Rightarrow> None
    | Some (bytes, s) \<Rightarrow>
        if \<not> may_change user (decode_inode bytes) then None
        else (case check_existance io default_target (decode_inode bytes) name None s of
            None \<Rightarrow> None
          | Some (info, _, s) \<Rightarrow> if valid info then Some (t_inode_block info) else None))"

fun wants_at :: "'d disk_io \<Rightarrow> place \<Rightarrow> handler \<Rightarrow> 'd server \<Rightarrow> (nat \<times> bool) option" where
  "wants_at io Enter h s = (if target_path h = [] then None else Some (0, False))"
| "wants_at io (Next t names) h s = Some (t_inode_block t, False)"
| "wants_at io (Target t) h s = Some (t_inode_block t, exclusive h)"
| "wants_at io (Work d) h s = (if operation_of h = Op_delete
     then map_option (\<lambda>b. (b, True)) (child_of io (h_user h) (last (h_path h)) d s) else None)"
| "wants_at io _ h s = None"

definition wants :: "'d disk_io \<Rightarrow> handler \<Rightarrow> 'd server \<Rightarrow> (nat \<times> bool) option" where
  "wants io h s = wants_at io (place h) h s"

fun excludes :: "nat \<times> bool \<Rightarrow> nat \<times> bool \<Rightarrow> bool" where
  "excludes (b, x) (b', x') \<longleftrightarrow> b = b' \<and> (x \<or> x')"

definition granted :: "handler list \<Rightarrow> nat \<times> bool \<Rightarrow> bool" where
  "granted hs w \<longleftrightarrow> (\<forall>h \<in> set hs. \<forall>l \<in> set (held h). \<not> excludes w l)"

section \<open>The server with its threads\<close>

type_synonym 'd threads = "'d server \<times> handler list"

inductive thread_step :: "'d disk_io \<Rightarrow> junk \<Rightarrow> 'd threads \<Rightarrow> 'd threads \<Rightarrow> bool" for io :: "'d disk_io" and mem :: junk where
  "i < length hs \<Longrightarrow> (\<And>w. wants io (hs ! i) s = Some w \<Longrightarrow> granted hs w) \<Longrightarrow> act io mem (hs ! i) s = Some (h', s') \<Longrightarrow>
   thread_step io mem (s, hs) (s', hs[i := h'])"

inductive_cases thread_stepE: "thread_step io mem (s, hs) st'"

text \<open>The places of a step, by cases on the place before it.\<close>

lemma act_cases:
  assumes "act io mem h s = Some (h', s')"
  obtains (starts) "place h = Begin" "begin_step h s = (h', s')"
    | (enter) "place h = Enter" "enter_step h s = Some (h', s')"
    | (visit) t names where "place h = Visit t names" "visit_step io h t names s = Some (h', s')"
    | (go_on) t names where "place h = Next t names" "next_step h t names s = Some (h', s')"
    | (failed) t where "place h = Failed t" "fail_step h t s = Some (h', s')"
    | (target) t where "place h = Target t" "target_step h t s = Some (h', s')"
    | (work) d where "place h = Work d" "work_step io mem h d s = Some (h', s')"
    | (leave) d a where "place h = Leave d a" "leave_step h d a s = Some (h', s')"
    | (freeing) "place h = Freeing" "freeing_step h s = Some (h', s')"
    | (return) "place h = Return" "return_step h s = (h', s')"
    | (reply) a where "place h = Reply a" "reply_step h a s = (h', s')"
  using assms by (cases "place h") (auto simp: act_def)

lemmas step_defs = begin_step_def enter_step_def visit_step_def next_step_def fail_step_def target_step_def work_step_def
  leave_step_def freeing_step_def return_step_def reply_step_def

text \<open>A step changes neither the request nor the user.\<close>

lemma act_keeps:
  assumes "act io mem h s = Some (h', s')"
  shows "operation_of h' = operation_of h" "h_user h' = h_user h" "h_path h' = h_path h" "h_text h' = h_text h"
proof -
  have "operation_of h' = operation_of h \<and> h_user h' = h_user h \<and> h_path h' = h_path h \<and> h_text h' = h_text h"
    using assms by (cases rule: act_cases)
      (auto simp: step_defs Let_def Option.bind_eq_Some_conv split: operation.splits if_splits)
  then show "operation_of h' = operation_of h" "h_user h' = h_user h" "h_path h' = h_path h" "h_text h' = h_text h" by simp_all
qed

end
