(* ===== verification/FS_Threads_Inv.thy ===== *)
theory FS_Threads_Inv imports FS_Threads begin

text \<open>
  What holds while the handlers run: where each of them stands in the tree of directories, the blocks that are theirs for a
  while, and what one step does to the disk, to the users' view and to the paths that other handlers are on.
\<close>

section \<open>What a request does\<close>

text \<open>The data answered and the new map; \<open>None\<close> when the request is refused.\<close>

definition request_effect :: "handler \<Rightarrow> fsmap \<Rightarrow> (string \<times> fsmap) option" where
  "request_effect h V = (let u = h_user h; p = h_path h in case operation_of h of
      Op_create type \<Rightarrow> if changeable V u (butlast p) \<and> V p = None then Some ([], V(p \<mapsto> new_node type u)) else None
    | Op_delete \<Rightarrow> (case V p of None \<Rightarrow> None
        | Some n \<Rightarrow> if changeable V u (butlast p) \<and> owner_is u n \<and> children V p = {} then Some ([], V(p := None)) else None)
    | Op_readblock k \<Rightarrow> (case file_at u p V of None \<Rightarrow> None | Some ds \<Rightarrow> if k < length ds then Some (ds ! k, V) else None)
    | Op_writeblock k x \<Rightarrow> (case file_at u p V of None \<Rightarrow> None
        | Some ds \<Rightarrow> if k \<le> length ds then Some ([], V(p \<mapsto> File u (put_block k x ds))) else None))"

text \<open>A request that is refused although it could be done: the blocks or the directory are full.\<close>

definition full_for :: "bool \<Rightarrow> handler \<Rightarrow> fsmap \<Rightarrow> bool" where
  "full_for crowded h V = (case operation_of h of
      Op_create _ \<Rightarrow> crowded \<or> FS_MAXFILEBLOCKS \<le> card (children V (butlast (h_path h)))
    | Op_writeblock _ _ \<Rightarrow> crowded
    | _ \<Rightarrow> False)"

definition outcome_of :: "bool \<Rightarrow> handler \<Rightarrow> string option \<Rightarrow> fsmap \<Rightarrow> fsmap \<Rightarrow> bool" where
  "outcome_of crowded h answer V V' \<longleftrightarrow> (case answer of
      Some data \<Rightarrow> request_effect h V = Some (data, V')
    | None \<Rightarrow> V' = V \<and> (request_effect h V = None \<or> full_for crowded h V))"

text \<open>The answer, from the point on where it is certain.\<close>

fun decided_at :: "place \<Rightarrow> string option option" where
  "decided_at (Failed t) = Some None"
| "decided_at (Leave d answer) = Some answer"
| "decided_at Freeing = Some (Some [])"
| "decided_at Return = Some None"
| "decided_at (Reply answer) = Some answer"
| "decided_at (Done answer) = Some answer"
| "decided_at _ = None"

definition decided :: "handler \<Rightarrow> string option option" where
  "decided h = decided_at (place h)"

text \<open>What a handler has sent.\<close>

fun sent_at :: "place \<Rightarrow> string \<Rightarrow> string list" where
  "sent_at (Done (Some data)) words = [words @ data]"
| "sent_at _ words = []"

definition sent :: "handler \<Rightarrow> string list" where
  "sent h = sent_at (place h) (h_text h)"

definition takes_effect :: "bool \<Rightarrow> handler \<Rightarrow> fsmap \<Rightarrow> handler \<Rightarrow> fsmap \<Rightarrow> bool" where
  "takes_effect crowded h V h' V' \<longleftrightarrow> decided h' = decided h \<and> V' = V \<or>
     decided h = None \<and> (\<exists>a. decided h' = Some a \<and> outcome_of crowded h a V V')"

section \<open>Where handlers are\<close>

text \<open>The blocks that are neither free nor in use, but a handler's.\<close>

definition owned :: "handler \<Rightarrow> nat list" where
  "owned h = (case new_block h of None \<Rightarrow> [] | Some b \<Rightarrow> [b]) @
     (case removed h of None \<Rightarrow> [] | Some (inode, b) \<Rightarrow> take (isize inode) (blocks inode) @ [b])"

definition onway :: "contents \<Rightarrow> string \<Rightarrow> string list \<Rightarrow> nat \<Rightarrow> bool" where
  "onway c u q i \<longleftrightarrow> resolve c 0 q = Some i \<and> passable (view c) u q"

text \<open>The names of the target path before \<open>names\<close>, and the inodes that are known to be at which paths.\<close>

definition walked :: "handler \<Rightarrow> string list \<Rightarrow> string list" where
  "walked h names = take (length (target_path h) - length names) (target_path h)"

fun ways_at :: "place \<Rightarrow> handler \<Rightarrow> (string list \<times> nat) list" where
  "ways_at (Visit t names) h = [(walked h names, parent_inode_block t)]"
| "ways_at (Next t names) h = [(butlast (walked h names), parent_inode_block t), (walked h names, t_inode_block t)]"
| "ways_at (Target t) h = (if target_path h = [] then [([], t_inode_block t)]
     else [(butlast (target_path h), parent_inode_block t), (target_path h, t_inode_block t)])"
| "ways_at (Work d) h = [(target_path h, d)]"
| "ways_at _ h = []"

definition ways :: "handler \<Rightarrow> (string list \<times> nat) list" where
  "ways h = ways_at (place h) h"

text \<open>The request is one that the server takes up, a write with its data in full; the local variables are those of the place.\<close>

definition taken_up :: "handler \<Rightarrow> bool" where
  "taken_up h \<longleftrightarrow> h_path h \<noteq> [] \<and> name_ok (last (h_path h)) \<and> (case operation_of h of
      Op_create type \<Rightarrow> user_ok (h_user h) \<and> type \<in> {''f'', ''d''}
    | Op_writeblock k data \<Rightarrow> k < FS_MAXFILEBLOCKS \<and> length data = FS_BLOCKSIZE
    | _ \<Rightarrow> True)"

definition creates_node :: "handler \<Rightarrow> bool" where
  "creates_node h = (case operation_of h of Op_create _ \<Rightarrow> True | _ \<Rightarrow> False)"

definition at_suffix :: "handler \<Rightarrow> string list \<Rightarrow> bool" where
  "at_suffix h names \<longleftrightarrow> names \<noteq> [] \<and> target_path h = walked h names @ names"

fun shape_at :: "place \<Rightarrow> handler \<Rightarrow> bool" where
  "shape_at Begin h \<longleftrightarrow> new_block h = None \<and> removed h = None"
| "shape_at Enter h \<longleftrightarrow> (new_block h \<noteq> None \<longleftrightarrow> creates_node h) \<and> removed h = None"
| "shape_at (Visit t names) h \<longleftrightarrow> (new_block h \<noteq> None \<longleftrightarrow> creates_node h) \<and> removed h = None \<and> at_suffix h names"
| "shape_at (Next t names) h \<longleftrightarrow> (new_block h \<noteq> None \<longleftrightarrow> creates_node h) \<and> removed h = None \<and> at_suffix h names \<and>
     valid t \<and> walked h names \<noteq> []"
| "shape_at (Failed t) h \<longleftrightarrow> (new_block h \<noteq> None \<longleftrightarrow> creates_node h) \<and> removed h = None \<and> parent_inode_block t < FS_DISKSIZE"
| "shape_at (Target t) h \<longleftrightarrow> (new_block h \<noteq> None \<longleftrightarrow> creates_node h) \<and> removed h = None \<and> valid t"
| "shape_at (Work d) h \<longleftrightarrow> (new_block h \<noteq> None \<longleftrightarrow> creates_node h) \<and> removed h = None"
| "shape_at (Leave d answer) h \<longleftrightarrow> new_block h = None \<and> (removed h \<noteq> None \<longrightarrow> answer = Some []) \<and> d < FS_DISKSIZE"
| "shape_at Freeing h \<longleftrightarrow> new_block h = None \<and> removed h \<noteq> None"
| "shape_at Return h \<longleftrightarrow> new_block h \<noteq> None \<and> removed h = None"
| "shape_at (Reply answer) h \<longleftrightarrow> new_block h = None \<and> removed h = None \<and> answer \<noteq> None"
| "shape_at (Done answer) h \<longleftrightarrow> new_block h = None \<and> removed h = None"

text \<open>A removed inode has an array for its blocks.\<close>

definition removed_ok :: "handler \<Rightarrow> bool" where
  "removed_ok h \<longleftrightarrow> (\<forall>inode b. removed h = Some (inode, b) \<longrightarrow> isize inode \<le> length (blocks inode) \<and> isize inode \<le> FS_MAXFILEBLOCKS)"

definition handler_ok :: "contents \<Rightarrow> handler \<Rightarrow> bool" where
  "handler_ok c h \<longleftrightarrow> taken_up h \<and> shape_at (place h) h \<and> removed_ok h \<and> (\<forall>(q, i) \<in> set (ways h). onway c (h_user h) q i)"

lemma owned_few: "handler_ok c h \<Longrightarrow> length (owned h) \<le> FS_MAXFILEBLOCKS + 1"
  by (cases "place h") (auto simp: handler_ok_def owned_def removed_ok_def FS_MAXFILEBLOCKS_def split: option.splits)

section \<open>What a step leaves to the others\<close>

text \<open>The paths, except one that is removed, lead where they led; directories stay.\<close>

definition impact :: "contents \<Rightarrow> contents \<Rightarrow> string list option \<Rightarrow> bool" where
  "impact c c' gone \<longleftrightarrow>
     (\<forall>q i. resolve c 0 q = Some i \<longrightarrow> gone \<noteq> Some q \<longrightarrow> resolve c' 0 q = Some i) \<and>
     (\<forall>q u. view c q = Some (Directory u) \<longrightarrow> gone \<noteq> Some q \<longrightarrow> view c' q = Some (Directory u)) \<and>
     (\<forall>p x. gone = Some p \<longrightarrow> resolve c 0 (p @ [x]) = None)"

lemma impact_none [simp]: "impact c c None"
  by (simp add: impact_def)

lemma onway_kept:
  assumes "impact c c' gone" "onway c u q i" "gone \<noteq> Some q"
  shows "onway c' u q i"
proof -
  have "view c' r = Some (Directory u)" if r: "q = r @ r'" "r \<noteq> []" "r' \<noteq> []" for r r'
  proof -
    have "view c r = Some (Directory u)" using assms(2) r by (auto simp: onway_def passable_def)
    moreover have "gone \<noteq> Some r"
    proof
      assume g: "gone = Some r"
      obtain x r'' where "r' = x # r''" using r(3) by (cases r') auto
      then have "resolve c 0 q = (case resolve c 0 (r @ [x]) of None \<Rightarrow> None | Some j \<Rightarrow> resolve c j r'')"
        using r(1) by (metis append.assoc append_Cons append_Nil resolve_append)
      moreover have "resolve c 0 (r @ [x]) = None" using assms(1) g by (simp add: impact_def)
      ultimately show False using assms(2) by (simp add: onway_def)
    qed
    ultimately show ?thesis using assms(1) by (simp add: impact_def)
  qed
  then show ?thesis using assms by (auto simp: onway_def passable_def impact_def)
qed

text \<open>What \<open>handle_delete\<close> removes, before it does.\<close>

definition removes :: "'d disk_io \<Rightarrow> handler \<Rightarrow> 'd server \<Rightarrow> contents \<Rightarrow> string list \<Rightarrow> bool" where
  "removes io h s c p \<longleftrightarrow> (\<exists>d old. place h = Work d \<and> operation_of h = Op_delete \<and> p = h_path h \<and>
     child_of io (h_user h) (last p) d s = Some old \<and> resolve c 0 p = Some old)"

definition step_ok :: "'d disk_io \<Rightarrow> junk \<Rightarrow> ('d \<Rightarrow> bool) \<Rightarrow> handler \<Rightarrow> 'd server \<Rightarrow> contents \<Rightarrow> nat list \<Rightarrow> bool" where
  "step_ok io mem good h s c others \<longleftrightarrow> (\<exists>h' s' c' free' gone. act io mem h s = Some (h', s') \<and>
     stands io good s' c' free' (responses s @ sent h') \<and> fs_wf c' (free' @ owned h' @ others) \<and> handler_ok c' h' \<and> impact c c' gone \<and>
     (\<forall>p. gone = Some p \<longrightarrow> removes io h s c p) \<and> takes_effect (free_blocks s = []) h (view c) h' (view c'))"

end
