(* ===== verification/FS_Threads_Steps.thy ===== *)
theory FS_Threads_Steps imports FS_Threads_Inv begin

text \<open>
  Every step of a handler goes well, whatever the other handlers hold: it does not bring the server down, keeps the disk
  well formed, knows afterwards where it is, and takes the effect of its request at most once.
\<close>

section \<open>What the parts of a handler depend on\<close>

lemma handler_simps [simp]:
  "target_path (h\<lparr>place := pl\<rparr>) = target_path h" "target_path (h\<lparr>new_block := nb\<rparr>) = target_path h" "target_path (h\<lparr>removed := r\<rparr>) = target_path h"
  "walked (h\<lparr>place := pl\<rparr>) = walked h" "walked (h\<lparr>new_block := nb\<rparr>) = walked h" "walked (h\<lparr>removed := r\<rparr>) = walked h"
  "at_suffix (h\<lparr>place := pl\<rparr>) = at_suffix h" "at_suffix (h\<lparr>new_block := nb\<rparr>) = at_suffix h" "at_suffix (h\<lparr>removed := r\<rparr>) = at_suffix h"
  "creates_node (h\<lparr>place := pl\<rparr>) = creates_node h" "creates_node (h\<lparr>new_block := nb\<rparr>) = creates_node h" "creates_node (h\<lparr>removed := r\<rparr>) = creates_node h"
  "taken_up (h\<lparr>place := pl\<rparr>) = taken_up h" "taken_up (h\<lparr>new_block := nb\<rparr>) = taken_up h" "taken_up (h\<lparr>removed := r\<rparr>) = taken_up h"
  "removed_ok (h\<lparr>place := pl\<rparr>) = removed_ok h" "removed_ok (h\<lparr>new_block := nb\<rparr>) = removed_ok h"
  "owned (h\<lparr>place := pl\<rparr>) = owned h"
  "sent (h\<lparr>place := pl\<rparr>) = sent_at pl (h_text h)" "sent (h\<lparr>new_block := nb\<rparr>) = sent h" "sent (h\<lparr>removed := r\<rparr>) = sent h"
  "decided (h\<lparr>place := pl\<rparr>) = decided_at pl" "decided (h\<lparr>new_block := nb\<rparr>) = decided h" "decided (h\<lparr>removed := r\<rparr>) = decided h"
  by (auto simp: target_path_def walked_def [abs_def] at_suffix_def [abs_def] creates_node_def taken_up_def removed_ok_def
      owned_def decided_def sent_def split: operation.splits)

lemma walked_next:
  assumes "at_suffix h names"
  shows "walked h (tl names) = walked h names @ [hd names]" "tl names \<noteq> [] \<Longrightarrow> at_suffix h (tl names)"
    "tl names = [] \<Longrightarrow> target_path h = walked h names @ [hd names]"
proof -
  obtain n ns where n: "names = n # ns" using assms by (cases names) (auto simp: at_suffix_def)
  have t: "target_path h = walked h names @ n # ns" using assms n by (simp add: at_suffix_def)
  then have l: "length (target_path h) = length (walked h names) + Suc (length ns)" by simp
  show w: "walked h (tl names) = walked h names @ [hd names]" unfolding walked_def [of h "tl names"] using l n
    by (subst (2) t) simp
  show "tl names \<noteq> [] \<Longrightarrow> at_suffix h (tl names)" "tl names = [] \<Longrightarrow> target_path h = walked h names @ [hd names]"
    using t n w by (auto simp: at_suffix_def)
qed

lemma walked_all: "walked h (target_path h) = []"
  by (simp add: walked_def)

lemma owned_none: "new_block h = None \<Longrightarrow> removed h = None \<Longrightarrow> owned h = []"
  by (simp add: owned_def)

text \<open>What a request cannot do without.\<close>

lemma effect_needs:
  assumes "request_effect h V \<noteq> None"
  shows "passable V (h_user h) (target_path h)" "V (target_path h) \<noteq> None"
  using assms
  by (auto simp: request_effect_def Let_def target_path_def changeable_def file_at_def
      split: operation.splits option.splits if_splits node.splits)

lemma refused_outcome: "request_effect h V = None \<Longrightarrow> outcome_of crowded h None V V"
  by (simp add: outcome_of_def)

section \<open>Steps that leave the disk\<close>

lemma quiet_step:
  assumes "act io mem h s = Some (h', s')" "stands io good s' c free' rs'" "fs_wf c (free' @ owned h' @ others)"
    "handler_ok c h'" "takes_effect (free_blocks s = []) h (view c) h' (view c)" "rs' = responses s @ sent h'"
  shows "step_ok io mem good h s c others"
  unfolding step_ok_def using assms
  by (intro exI [of _ h'] exI [of _ s'] exI [of _ c] exI [of _ free'] exI [of _ None]) simp

lemmas standing = handler_ok_def ways_def

text \<open>A handler that stands at \<open>pl\<close>, on a well-formed disk.\<close>

fun is_done :: "place \<Rightarrow> bool" where
  "is_done (Done answer) \<longleftrightarrow> True"
| "is_done _ \<longleftrightarrow> False"

definition stands_at :: "('d \<Rightarrow> bool) \<Rightarrow> 'd disk_io \<Rightarrow> place \<Rightarrow> handler \<Rightarrow> 'd server \<Rightarrow> contents \<Rightarrow> nat list \<Rightarrow> nat list \<Rightarrow> string list \<Rightarrow> bool" where
  "stands_at good io pl h s c free others rs \<longleftrightarrow> disk_laws io good \<and> stands io good s c free rs \<and>
     fs_wf c (free @ owned h @ others) \<and> handler_ok c h \<and> place h = pl \<and> \<not> is_done pl"

lemma stands_atD:
  assumes "stands_at good io pl h s c free others rs"
  shows "disk_laws io good" "stands io good s c free rs" "fs_wf c (free @ owned h @ others)" "handler_ok c h" "place h = pl"
    "responses s = rs" "sent h = []"
  using assms by (cases pl; auto simp: stands_at_def stands_def sent_def)+

lemma onway_bound: "onway c u q i \<Longrightarrow> fs_wf c free \<Longrightarrow> i < FS_DISKSIZE"
  unfolding onway_def by (intro wf_inode_bound [of c free] resolve_in_inodes [of c q]) simp_all

lemma onway_root [simp]: "onway c u [] i \<longleftrightarrow> i = 0"
  by (auto simp: onway_def passable_def)

lemma begin_ok:
  assumes "stands_at good io Begin h s c free others rs"
  shows "step_ok io mem good h s c others"
proof -
  note st = stands_atD(2) [OF assms] and wf = stands_atD(3) [OF assms] and ok = stands_atD(4) [OF assms] and pl = stands_atD(5) [OF assms]
  have nb: "new_block h = None" "removed h = None" using ok pl by (simp_all add: standing)
  have o: "owned h = []" by (rule owned_none [OF nb])
  have d: "decided h = None" using pl by (simp add: decided_def)
  have fr: "free_blocks s = free" "free_blocks (lock_free s) = free" using st by (simp_all add: stands_def lock_free_def log_event_def)
  show ?thesis
  proof (cases "creates_node h")
    case False
    then have "act io mem h s = Some (h\<lparr>place := Enter\<rparr>, s)"
      using pl by (simp add: act_def begin_step_def creates_node_def split: operation.splits)
    then show ?thesis
      by (rule quiet_step) (use stands_atD(6,7) [OF assms] st wf ok nb False in \<open>auto simp: standing takes_effect_def d\<close>)
  next
    case True
    then obtain type where t: "operation_of h = Op_create type" by (auto simp: creates_node_def split: operation.splits)
    show ?thesis
    proof (cases free)
      case Nil
      have "act io mem h s = Some (h\<lparr>place := Done None\<rparr>, unlock_free (lock_free s))"
        using pl t fr Nil by (simp add: act_def begin_step_def)
      moreover have "stands io good (unlock_free (lock_free s)) c free rs" using st by simp
      ultimately show ?thesis
        by (rule quiet_step) (use stands_atD(6,7) [OF assms] wf ok nb d t fr Nil in \<open>auto simp: standing takes_effect_def outcome_of_def full_for_def\<close>)
    next
      case (Cons b free1)
      have "act io mem h s = Some (h\<lparr>place := Enter, new_block := Some b\<rparr>, unlock_free (pop_free (lock_free s)))"
        using pl t fr Cons by (simp add: act_def begin_step_def Let_def)
      moreover have "stands io good (unlock_free (pop_free (lock_free s))) c free1 rs"
        using pop_stands [of io good "lock_free s" c free rs] st Cons by simp
      moreover have "fs_wf c (free1 @ owned (h\<lparr>place := Enter, new_block := Some b\<rparr>) @ others)"
        by (rule wf_free_perm [OF wf]) (simp add: Cons o owned_def nb)
      ultimately show ?thesis
        by (rule quiet_step) (use stands_atD(6,7) [OF assms] pl ok nb True in \<open>auto simp: standing owned_def removed_ok_def takes_effect_def d decided_def\<close>)
    qed
  qed
qed

lemma enter_ok:
  assumes "stands_at good io Enter h s c free others rs"
  shows "step_ok io mem good h s c others"
proof -
  note st = stands_atD(2) [OF assms] and wf = stands_atD(3) [OF assms] and ok = stands_atD(4) [OF assms] and pl = stands_atD(5) [OF assms]
  have d: "decided h = None" using pl by (simp add: decided_def)
  let ?t = "default_target\<lparr>valid := True\<rparr>"
  show ?thesis
  proof (cases "target_path h = []")
    case True
    then have "act io mem h s = Some (h\<lparr>place := Target ?t\<rparr>, s)" using pl by (simp add: act_def enter_step_def)
    then show ?thesis
      by (rule quiet_step) (use stands_atD(6,7) [OF assms] st wf ok pl True in \<open>auto simp: standing default_target_def takes_effect_def d\<close>)
  next
    case False
    then have "act io mem h s = Some (h\<lparr>place := Visit ?t (target_path h)\<rparr>, log_event (Lock_shared 0) s)"
      using pl by (simp add: act_def enter_step_def lock_stands)
    then show ?thesis
      by (rule quiet_step) (use stands_atD(6,7) [OF assms] st wf ok pl False in \<open>auto simp: standing default_target_def at_suffix_def walked_all takes_effect_def d\<close>)
  qed
qed

lemma next_ok:
  assumes "stands_at good io (Next t names) h s c free others rs"
  shows "step_ok io mem good h s c others"
proof -
  note st = stands_atD(2) [OF assms] and wf = stands_atD(3) [OF assms] and ok = stands_atD(4) [OF assms] and pl = stands_atD(5) [OF assms]
  have d: "decided h = None" using pl by (simp add: decided_def)
  have b: "t_inode_block t < FS_DISKSIZE" "parent_inode_block t < FS_DISKSIZE"
    using ok pl by (auto simp: standing dest: onway_bound [OF _ wf])
  let ?s = "log_event (Unlock_shared (parent_inode_block t)) (log_event (Lock_shared (t_inode_block t)) s)"
  have "act io mem h s = Some (h\<lparr>place := Visit (t\<lparr>parent_inode_block := t_inode_block t\<rparr>) names\<rparr>, ?s)"
    using pl b by (simp add: act_def next_step_def lock_stands)
  then show ?thesis
    by (rule quiet_step) (use stands_atD(6,7) [OF assms] st wf ok pl in \<open>auto simp: standing takes_effect_def d\<close>)
qed

lemma fail_ok:
  assumes "stands_at good io (Failed t) h s c free others rs"
  shows "step_ok io mem good h s c others"
proof -
  note st = stands_atD(2) [OF assms] and wf = stands_atD(3) [OF assms] and ok = stands_atD(4) [OF assms] and pl = stands_atD(5) [OF assms]
  have d: "decided h = Some None" using pl by (simp add: decided_def)
  have "parent_inode_block t < FS_DISKSIZE" using ok pl by (simp add: standing)
  then have "act io mem h s = Some (h\<lparr>place := if new_block h = None then Done None else Return\<rparr>,
      log_event (Unlock_shared (parent_inode_block t)) s)"
    using pl by (simp add: act_def fail_step_def lock_stands)
  then show ?thesis
    by (rule quiet_step) (use stands_atD(6,7) [OF assms] st wf ok pl in \<open>auto simp: standing takes_effect_def d\<close>)
qed

lemma target_ok:
  assumes "stands_at good io (Target t) h s c free others rs"
  shows "step_ok io mem good h s c others"
proof -
  note st = stands_atD(2) [OF assms] and wf = stands_atD(3) [OF assms] and ok = stands_atD(4) [OF assms] and pl = stands_atD(5) [OF assms]
  have d: "decided h = None" using pl by (simp add: decided_def)
  have b: "t_inode_block t < FS_DISKSIZE" "t_inode_block t \<noteq> 0 \<Longrightarrow> parent_inode_block t < FS_DISKSIZE"
    using ok pl by (auto simp: standing split: if_splits dest: onway_bound [OF _ wf])
  let ?e = "if exclusive h then Lock else Lock_shared"
  obtain s' where s': "move_lock ?e t s = Some s'" "stands io good s' c free rs"
    using b st by (cases "t_inode_block t = 0") (auto simp: move_lock_def lock_stands)
  then have "act io mem h s = Some (h\<lparr>place := Work (t_inode_block t)\<rparr>, s')" using pl by (simp add: act_def target_step_def)
  then show ?thesis
    by (rule quiet_step) (use stands_atD(6,7) [OF assms] s'(2) wf ok pl in \<open>auto simp: standing takes_effect_def d split: if_splits\<close>)
qed

lemma no_pair: "(\<forall>a b. x \<noteq> Some (a, b)) \<longleftrightarrow> x = None"
  by (cases x) auto

lemma leave_ok:
  assumes "stands_at good io (Leave i a) h s c free others rs"
  shows "step_ok io mem good h s c others"
proof -
  note st = stands_atD(2) [OF assms] and wf = stands_atD(3) [OF assms] and ok = stands_atD(4) [OF assms] and pl = stands_atD(5) [OF assms]
  have d: "decided h = Some a" using pl by (simp add: decided_def)
  have "i < FS_DISKSIZE" using ok pl by (simp add: standing)
  then have "act io mem h s = Some (h\<lparr>place := if removed h \<noteq> None then Freeing else if a = None then Done None else Reply a\<rparr>,
      log_event ((if exclusive h then Unlock else Unlock_shared) i) s)"
    using pl by (simp add: act_def leave_step_def lock_stands)
  then show ?thesis
    by (rule quiet_step) (use stands_atD(6,7) [OF assms] st wf ok pl no_pair [of "removed h"] in \<open>auto simp: standing takes_effect_def d\<close>)
qed

lemma freeing_ok:
  assumes "stands_at good io Freeing h s c free others rs"
  shows "step_ok io mem good h s c others"
proof -
  note st = stands_atD(2) [OF assms] and wf = stands_atD(3) [OF assms] and ok = stands_atD(4) [OF assms] and pl = stands_atD(5) [OF assms]
  have d: "decided h = Some (Some [])" using pl by (simp add: decided_def)
  obtain inode b where r: "removed h = Some (inode, b)" "new_block h = None" "isize inode \<le> length (blocks inode)"
    using ok pl by (auto simp: standing removed_ok_def)
  let ?bs = "take (isize inode) (blocks inode)"
  have "block_list inode = map Some ?bs" using r(3) by (simp add: block_list_def)
  then obtain s1 where s1: "push_all (block_list inode) (lock_free s) = Some s1" "stands io good s1 c (free @ ?bs) rs"
    using push_all_spec [of io good "lock_free s" c free rs ?bs] st by auto
  let ?h = "h\<lparr>place := Reply (Some []), removed := None\<rparr>" and ?s = "unlock_free (push_free b s1)"
  have "act io mem h s = Some (?h, ?s)" using pl r(1) s1(1) by (simp add: act_def freeing_step_def)
  moreover have "stands io good ?s c (free @ ?bs @ [b]) rs" using push_stands [OF s1(2), of b] by (simp add: qpush_def)
  moreover have "fs_wf c ((free @ ?bs @ [b]) @ owned ?h @ others)"
    by (rule wf_free_perm [OF wf]) (simp add: owned_def r)
  ultimately show ?thesis
    by (rule quiet_step) (use stands_atD(6,7) [OF assms] ok pl r(2) in \<open>auto simp: standing removed_ok_def takes_effect_def d decided_def\<close>)
qed

lemma return_ok:
  assumes "stands_at good io Return h s c free others rs"
  shows "step_ok io mem good h s c others"
proof -
  note st = stands_atD(2) [OF assms] and wf = stands_atD(3) [OF assms] and ok = stands_atD(4) [OF assms] and pl = stands_atD(5) [OF assms]
  have d: "decided h = Some None" using pl by (simp add: decided_def)
  obtain b where r: "removed h = None" "new_block h = Some b" using ok pl by (auto simp: standing)
  let ?h = "h\<lparr>place := Done None, new_block := None\<rparr>"
  have "act io mem h s = Some (?h, return_empty_block b s)" using pl r(2) by (simp add: act_def return_step_def)
  moreover have "stands io good (return_empty_block b s) c (free @ [b]) rs" using return_stands [OF st, of b] by (simp add: qpush_def)
  moreover have "fs_wf c ((free @ [b]) @ owned ?h @ others)"
    by (rule wf_free_perm [OF wf]) (simp add: owned_def r)
  ultimately show ?thesis
    by (rule quiet_step) (use stands_atD(6,7) [OF assms] ok pl r in \<open>auto simp: standing removed_ok_def takes_effect_def d decided_def\<close>)
qed

lemma reply_ok:
  assumes "stands_at good io (Reply a) h s c free others rs"
  shows "step_ok io mem good h s c others"
proof -
  note st = stands_atD(2) [OF assms] and wf = stands_atD(3) [OF assms] and ok = stands_atD(4) [OF assms] and pl = stands_atD(5) [OF assms]
  have d: "decided h = Some a" using pl by (simp add: decided_def)
  have "act io mem h s = Some (h\<lparr>place := Done a\<rparr>, reply (h_text h @ the a) s)" using pl by (simp add: act_def reply_step_def)
  then show ?thesis
    by (rule quiet_step) (use stands_atD(6,7) [OF assms] reply_stands [OF st, of "h_text h @ the a"] wf ok pl in \<open>auto simp: standing takes_effect_def d\<close>)
qed

section \<open>The traversal\<close>

lemma passed_directory:
  assumes "onway c u q i" "q \<noteq> [] \<Longrightarrow> owner_of c i = u \<and> kind c i = CHR ''d''" "map_of (links c i) n = Some j"
  shows "onway c u (q @ [n]) j"
proof -
  have "passable (view c) u (q @ [n])"
    using assms(1,2) by (intro passable_snoc) (auto simp: onway_def view_def node_directory)
  then show ?thesis using assms(1,3) by (simp add: onway_def resolve_snoc)
qed

lemma visit_ok:
  assumes "stands_at good io (Visit t names) h s c free others rs"
  shows "step_ok io mem good h s c others"
proof -
  note laws = stands_atD(1) [OF assms] and st = stands_atD(2) [OF assms] and wf = stands_atD(3) [OF assms]
    and ok = stands_atD(4) [OF assms] and pl = stands_atD(5) [OF assms]
  let ?i = "parent_inode_block t" and ?q = "walked h names" and ?u = "h_user h"
  have d: "decided h = None" using pl by (simp add: decided_def)
  have sh: "new_block h \<noteq> None \<longleftrightarrow> creates_node h" "removed h = None" "at_suffix h names" and on: "onway c ?u ?q ?i"
    and tk: "taken_up h" "removed_ok h" using ok pl by (simp_all add: standing)
  have res: "resolve c 0 ?q = Some ?i" and ino: "?i \<in> inodes c" using on resolve_in_inodes by (auto simp: onway_def)
  have ib: "?i < FS_DISKSIZE" by (rule onway_bound [OF on wf])
  have tp: "target_path h = (?q @ [hd names]) @ tl names" and nn: "names \<noteq> []" using sh(3) by (auto simp: at_suffix_def)
  have root: "?i = 0 \<longleftrightarrow> ?q = []" using path_unique [OF wf res, of "[]"] res by auto
  let ?s = "log_event (Read ?i) s"
  have rd: "read_block io ?i s = Some (c ?i, ?s)" by (rule read_stands [OF laws st ib])
  show ?thesis
  proof (cases "?i \<noteq> 0 \<and> (owner_of c ?i \<noteq> ?u \<or> kind c ?i \<noteq> CHR ''d'')")
    case True
    then have a: "act io mem h s = Some (h\<lparr>place := Failed (t\<lparr>valid := False\<rparr>)\<rparr>, ?s)"
      using pl rd by (simp add: act_def visit_step_def inode_at_def owner_of_def kind_def)
    have "request_effect h (view c) = None"
    proof (rule ccontr)
      assume "request_effect h (view c) \<noteq> None"
      from effect_needs(1) [OF this] have "view c ?q = Some (Directory ?u)"
        using True root by (intro passable_at [of _ _ ?q "[hd names] @ tl names"]) (simp_all add: tp)
      with True res show False by (simp add: view_def node_directory)
    qed
    note refused = refused_outcome [OF this]
    from a show ?thesis
      by (rule quiet_step) (use stands_atD(6,7) [OF assms] st wf sh tk ib d refused in \<open>auto simp: standing takes_effect_def\<close>)
  next
    case False
    then have k: "kind c ?i = CHR ''d''" using wf_root [OF wf] by auto
    from check_existance_lookup [OF laws wf ino k, of ?s free rs t "hd names"] st obtain r s1 where
      ce: "check_existance io t (inode_at c ?i) (hd names) None ?s = Some (r, None, s1)" "stands io good s1 c free rs"
      "parent_inode_block r = ?i" "map_of (links c ?i) (hd names) = (if valid r then Some (t_inode_block r) else None)" by auto
    let ?pl = "if \<not> valid r then Failed r else if tl names = [] then Target r else Next r (tl names)"
    have a: "act io mem h s = Some (h\<lparr>place := ?pl\<rparr>, s1)"
      using pl rd ce(1) False by (auto simp: act_def visit_step_def inode_at_def owner_of_def kind_def)
    show ?thesis
    proof (cases "valid r")
      case True
      have "onway c ?u (?q @ [hd names]) (t_inode_block r)"
        using passed_directory [OF on] False root ce(4) True by auto
      note onto = this walked_next [OF sh(3)]
      show ?thesis
        by (rule quiet_step [OF a ce(2)]) (use stands_atD(6,7) [OF assms] wf sh tk d on True ce(3) onto in \<open>auto simp: standing takes_effect_def\<close>)
    next
      case False
      have "request_effect h (view c) = None"
      proof (rule ccontr)
        assume "request_effect h (view c) \<noteq> None"
        from effect_needs(2) [OF this] have "view c ((?q @ [hd names]) @ tl names) \<noteq> None" by (simp add: tp)
        with res ce(4) False show False by (simp add: view_def resolve_append)
      qed
      note refused = refused_outcome [OF this]
      show ?thesis
        by (rule quiet_step [OF a ce(2)]) (use stands_atD(6,7) [OF assms] wf sh tk d ib False ce(3) refused in \<open>auto simp: standing takes_effect_def\<close>)
    qed
  qed
qed

section \<open>The work\<close>

lemma impact_created: "view c p = None \<Longrightarrow> paths_kept p c c' \<Longrightarrow> view c' = (view c)(p \<mapsto> n) \<Longrightarrow> impact c c' None"
  unfolding impact_def paths_kept_def by (auto simp: view_def [of c p]) (metis option.distinct(1))

lemma impact_removed:
  "\<forall>x. resolve c 0 (p @ [x]) = None \<Longrightarrow> paths_kept p c c' \<Longrightarrow> view c' = (view c)(p := None) \<Longrightarrow> impact c c' (Some p)"
  by (auto simp: impact_def paths_kept_def)

lemma impact_written:
  "view c p = Some (File u ds) \<Longrightarrow> all_paths_kept c c' \<Longrightarrow> view c' = (view c)(p \<mapsto> n) \<Longrightarrow> impact c c' None"
  by (auto simp: impact_def all_paths_kept_def)

lemma working:
  assumes "stands_at good io (Work d) h s c free others rs"
  shows "resolve c 0 (target_path h) = Some d" "passable (view c) (h_user h) (target_path h)" "d < FS_DISKSIZE" "d \<in> inodes c"
    "taken_up h" "removed h = None" "new_block h \<noteq> None \<longleftrightarrow> creates_node h" "decided h = None" "free_blocks s = free"
proof -
  have on: "onway c (h_user h) (target_path h) d" using stands_atD(4,5) [OF assms] by (simp add: standing)
  then show "resolve c 0 (target_path h) = Some d" "passable (view c) (h_user h) (target_path h)" by (simp_all add: onway_def)
  then show "d \<in> inodes c" using resolve_in_inodes by blast
  show "d < FS_DISKSIZE" by (rule onway_bound [OF on stands_atD(3) [OF assms]])
  show "taken_up h" "removed h = None" "new_block h \<noteq> None \<longleftrightarrow> creates_node h" "decided h = None"
    using stands_atD(4,5) [OF assms] by (simp_all add: standing decided_def)
  show "free_blocks s = free" using stands_atD(2) [OF assms] by (rule stands_free)
qed

text \<open>In the directory that a creation or removal works on.\<close>

lemma working_in_dir:
  assumes at: "stands_at good io (Work d) h s c free others rs" and tp: "target_path h = butlast (h_path h)"
  defines "n \<equiv> last (h_path h)"
  shows "target_path h @ [n] = h_path h" "name_ok n"
    "may_change (h_user h) (inode_at c d) \<longleftrightarrow> changeable (view c) (h_user h) (butlast (h_path h))"
    "resolve c 0 (h_path h) = map_of (links c d) n"
proof -
  note w = working [OF at]
  have p: "h_path h \<noteq> []" using w(5) by (simp add: taken_up_def)
  then show e: "target_path h @ [n] = h_path h" by (simp add: tp n_def)
  show "name_ok n" using w(5) by (simp add: taken_up_def n_def)
  show "may_change (h_user h) (inode_at c d) \<longleftrightarrow> changeable (view c) (h_user h) (butlast (h_path h))"
    using may_change_view [OF w(1)] w(2) tp by (simp add: changeable_def)
  show "resolve c 0 (h_path h) = map_of (links c d) n"
    using w(1) by (subst e [symmetric]) (simp add: resolve_snoc)
qed

lemma create_ok:
  assumes at: "stands_at good io (Work d) h s c free others rs" and op: "operation_of h = Op_create type" and mem: "mem_ok mem"
  shows "step_ok io mem good h s c others"
proof -
  note laws = stands_atD(1) [OF at] and st = stands_atD(2) [OF at] and wf = stands_atD(3) [OF at] and pl = stands_atD(5) [OF at]
  note w = working [OF at]
  have tp: "target_path h = butlast (h_path h)" by (simp add: target_path_def op)
  note dir = working_in_dir [OF at tp]
  let ?u = "h_user h" and ?n = "last (h_path h)" and ?V = "view c"
  obtain b where b: "new_block h = Some b" using w(7) op by (auto simp: creates_node_def)
  have ok: "user_ok ?u" "type \<in> {''f'', ''d''}" using w(5) op by (simp_all add: taken_up_def)
  have wf': "fs_wf c (b # free @ others)" by (rule wf_free_perm [OF wf]) (simp add: owned_def b w(6))
  obtain made s' c' free' where cr: "create_in_dir io mem type ?u ?n b d s = Some (made, s')" "stands io good s' c' free' rs"
    and res: "if made then fs_wf c' (free' @ others) \<and> view c' = ?V(target_path h @ [?n] \<mapsto> new_node type ?u) \<and>
        paths_kept (target_path h @ [?n]) c c' \<and> may_change ?u (inode_at c d) \<and> map_of (links c d) ?n = None
      else c' = c \<and> mset free' = add_mset b (mset free)"
    and all: "may_change ?u (inode_at c d) \<and> map_of (links c d) ?n = None \<and> free \<noteq> [] \<and>
       isize (inode_at c d) < FS_MAXFILEBLOCKS \<longrightarrow> made"
    using create_in_dir_spec [OF laws wf' st w(1) mem ok dir(2)] by blast
  let ?h = "h\<lparr>place := Leave d (if made then Some [] else None), new_block := None\<rparr>"
  have a: "act io mem h s = Some (?h, s')" using pl cr(1) by (simp add: act_def work_step_def op b)
  have o: "owned ?h = []" using w(6) by (simp add: owned_def)
  have hk: "handler_ok x ?h" for x using w(3,5,6) by (simp add: standing removed_ok_def)
  have pn: "?V (h_path h) = None \<longleftrightarrow> map_of (links c d) ?n = None" using dir(4) by (simp add: view_def)
  show ?thesis
  proof (cases made)
    case True
    then have r: "fs_wf c' (free' @ others)" "view c' = ?V(h_path h \<mapsto> new_node type ?u)" "paths_kept (h_path h) c c'"
      "changeable ?V ?u (butlast (h_path h))" "?V (h_path h) = None" using res dir pn by simp_all
    have "takes_effect (free_blocks s = []) h ?V ?h (view c')"
      using True w(8) r by (simp add: takes_effect_def decided_def outcome_of_def request_effect_def op)
    then show ?thesis unfolding step_ok_def using a cr(2) r(1) o hk impact_created [OF r(5,3,2)]
      by (intro exI [of _ ?h] exI [of _ s'] exI [of _ c'] exI [of _ free'] exI [of _ None]) (simp add: stands_atD(6,7) [OF at])
  next
    case False
    then have r: "c' = c" "mset free' = add_mset b (mset free)" using res by simp_all
    have "fs_wf c (free' @ others)" by (rule wf_free_perm [OF wf']) (simp add: r(2))
    moreover have "full_for (free_blocks s = []) h ?V" if "request_effect h ?V \<noteq> None"
    proof -
      have q: "changeable ?V ?u (butlast (h_path h))" "?V (h_path h) = None"
        using that by (auto simp: request_effect_def op Let_def split: if_splits)
      then have m: "may_change ?u (inode_at c d)" using dir(3) by simp
      then have k: "kind c d = CHR ''d''" by (simp add: may_change_iff)
      have "free = [] \<or> FS_MAXFILEBLOCKS \<le> isize (inode_at c d)" using all False m pn q(2) by (auto simp: not_less)
      then show ?thesis using dir_blocks_names [OF wf w(1) k] w(9) tp by (auto simp: full_for_def op)
    qed
    then have "outcome_of (free_blocks s = []) h None ?V ?V" by (auto simp only: outcome_of_def option.case)
    ultimately show ?thesis
      by (rule_tac quiet_step [OF a cr(2) [unfolded r(1)]]) (use stands_atD(6,7) [OF at] o hk False w(8) in \<open>auto simp: takes_effect_def decided_def\<close>)
  qed
qed

lemma file_at_inode:
  assumes wf: "fs_wf c free" and "resolve c 0 p = Some i" "passable (view c) u p"
  shows "file_at u p (view c) = (if owner_of c i = u \<and> kind c i = CHR ''f'' then Some (map c (iblocks c i)) else None)"
  using assms(2,3) wf_kind [OF wf resolve_in_inodes [OF assms(2)]] by (auto simp: file_at_def view_def node_of_def)

lemma read_ok:
  assumes at: "stands_at good io (Work d) h s c free others rs" and op: "operation_of h = Op_readblock k"
  shows "step_ok io mem good h s c others"
proof -
  note laws = stands_atD(1) [OF at] and st = stands_atD(2) [OF at] and wf = stands_atD(3) [OF at] and pl = stands_atD(5) [OF at]
  note w = working [OF at]
  have tp: "target_path h = h_path h" by (simp add: target_path_def op)
  let ?u = "h_user h" and ?V = "view c"
  let ?a = "if owner_of c d = ?u \<and> kind c d = CHR ''f'' \<and> k < isize (inode_at c d) then Some (c (iblocks c d ! k)) else None"
  obtain s' where rf: "read_file io ?u k d s = Some (?a, s')" "stands io good s' c free rs"
    using read_file_spec [OF laws wf st w(4), of ?u k] by blast
  have a: "act io mem h s = Some (h\<lparr>place := Leave d ?a\<rparr>, s')" using pl rf(1) by (simp add: act_def work_step_def op)
  note f = file_at_inode [OF wf w(1,2), unfolded tp]
  have "request_effect h ?V = map_option (\<lambda>x. (x, ?V)) ?a"
    using f wf_length_iblocks [OF wf w(4)] by (simp add: request_effect_def op)
  then have "outcome_of (free_blocks s = []) h ?a ?V ?V" by (auto simp: outcome_of_def split: if_splits)
  then show ?thesis
    by (rule_tac quiet_step [OF a rf(2)]) (use stands_atD(6,7) [OF at] wf w in \<open>auto simp: standing takes_effect_def removed_ok_def creates_node_def op\<close>)
qed

lemma write_ok:
  assumes at: "stands_at good io (Work d) h s c free others rs" and op: "operation_of h = Op_writeblock k data" and mem: "mem_ok mem"
  shows "step_ok io mem good h s c others"
proof -
  note laws = stands_atD(1) [OF at] and st = stands_atD(2) [OF at] and wf = stands_atD(3) [OF at] and pl = stands_atD(5) [OF at]
  note w = working [OF at]
  have tp: "target_path h = h_path h" by (simp add: target_path_def op)
  let ?u = "h_user h" and ?V = "view c" and ?x = "block_at mem data"
  note f = file_at_inode [OF wf w(1,2), unfolded tp]
  have o: "owned h = []" using w(6,7) by (simp add: owned_def creates_node_def op)
  have x: "block_at mem data = data" using w(5) by (simp add: taken_up_def op block_at_def)
  obtain wr s' c' free' where wf4: "write_file io mem ?u k data d s = Some (wr, s')" "stands io good s' c' free' rs"
    "fs_wf c' (free' @ others)" "all_paths_kept c c'"
    and wrote: "wr \<longleftrightarrow> owner_of c d = ?u \<and> kind c d = CHR ''f'' \<and> k \<le> isize (inode_at c d) \<and>
       (k = isize (inode_at c d) \<longrightarrow> free \<noteq> [] \<and> k < FS_MAXFILEBLOCKS)"
    and res: "if wr then view c' = ?V(target_path h \<mapsto> File ?u (put_block k (block_at mem data) (map c (iblocks c d))))
       else c' = c \<and> free' = free"
    using write_file_spec [OF laws wf [unfolded o append_Nil] st w(1) mem, of ?u k data] by (elim exE conjE) (rule that)
  let ?h = "h\<lparr>place := Leave d (if wr then Some [] else None)\<rparr>"
  have a: "act io mem h s = Some (?h, s')" using pl wf4(1) by (simp add: act_def work_step_def op)
  have hk: "handler_ok y ?h" for y using w(3,5,6,7) by (simp add: standing removed_ok_def creates_node_def op)
  have k: "k < FS_MAXFILEBLOCKS" using w(5) by (simp add: taken_up_def op)
  show ?thesis
  proof (cases wr)
    case True
    then have v: "view c' = ?V(h_path h \<mapsto> File ?u (put_block k data (map c (iblocks c d))))" using res tp x by simp
    have fd: "?V (h_path h) = Some (File ?u (map c (iblocks c d)))" using node_file [OF wf w(1), of ?u] wrote True tp by simp
    have "takes_effect (free_blocks s = []) h ?V ?h (view c')"
      using True w(8) v f wrote wf_length_iblocks [OF wf w(4)]
      by (simp add: takes_effect_def decided_def outcome_of_def request_effect_def op)
    then show ?thesis unfolding step_ok_def using a wf4(2,3) o hk impact_written [OF fd wf4(4) v]
      by (intro exI [of _ ?h] exI [of _ s'] exI [of _ c'] exI [of _ free'] exI [of _ None]) (simp add: stands_atD(6,7) [OF at])
  next
    case False
    then have r: "c' = c" "free' = free" using res by simp_all
    have "request_effect h ?V = None \<or> full_for (free_blocks s = []) h ?V"
      using f wrote False k w(9) wf_length_iblocks [OF wf w(4)]
      by (auto simp: request_effect_def full_for_def op Let_def)
    then have "outcome_of (free_blocks s = []) h None ?V ?V" by (auto simp only: outcome_of_def option.case)
    then show ?thesis
      by (rule_tac quiet_step [OF a wf4(2) [unfolded r(1)]])
        (use stands_atD(6,7) [OF at] wf4(3) r o hk False w(8) in \<open>auto simp: takes_effect_def decided_def\<close>)
  qed
qed

text \<open>What a removal finds, before it locks it.\<close>

lemma child_of_spec:
  assumes laws: "disk_laws io good" and wf: "fs_wf c free'" and st: "stands io good s c free rs" and d: "d \<in> inodes c"
  shows "child_of io u n d s = (if may_change u (inode_at c d) then map_of (links c d) n else None)"
proof -
  let ?s = "log_event (Read d) s"
  have rd: "read_block io d s = Some (c d, ?s)" by (rule read_stands [OF laws st wf_inode_bound [OF wf d]])
  show ?thesis
  proof (cases "may_change u (inode_at c d)")
    case True
    then have k: "kind c d = CHR ''d''" by (simp add: may_change_iff)
    have "stands io good ?s c free rs" using st by simp
    from check_existance_lookup [OF laws wf d k this, of default_target n] obtain r s' where
      "check_existance io default_target (inode_at c d) n None ?s = Some (r, None, s')"
      "map_of (links c d) n = (if valid r then Some (t_inode_block r) else None)" by auto
    with rd True show ?thesis by (simp add: child_of_def inode_at_def)
  next
    case False
    with rd show ?thesis by (simp add: child_of_def inode_at_def)
  qed
qed

lemma delete_ok:
  assumes at: "stands_at good io (Work d) h s c free others rs" and op: "operation_of h = Op_delete" and mem: "mem_ok mem"
  shows "step_ok io mem good h s c others"
proof -
  note laws = stands_atD(1) [OF at] and st = stands_atD(2) [OF at] and wf = stands_atD(3) [OF at] and pl = stands_atD(5) [OF at]
  note w = working [OF at]
  have tp: "target_path h = butlast (h_path h)" by (simp add: target_path_def op)
  note dir = working_in_dir [OF at tp]
  let ?u = "h_user h" and ?n = "last (h_path h)" and ?p = "h_path h" and ?V = "view c"
  have nb: "new_block h = None" and o: "owned h = []" using w(6,7) by (simp_all add: owned_def creates_node_def op)
  obtain dl s' c' free1 where de: "delete_in_dir io mem ?u ?n d s = Some (dl, s')" "stands io good s' c' free1 rs"
    and res: "case dl of None \<Rightarrow> c' = c \<and> free1 = free
     | Some (i, old) \<Rightarrow> may_change ?u (inode_at c d) \<and> map_of (links c d) ?n = Some old \<and>
         i = inode_at c old \<and> deletable c ?u old \<and> fs_wf c' (free1 @ iblocks c old @ [old] @ others) \<and>
         view c' = ?V(target_path h @ [?n] := None) \<and> paths_kept (target_path h @ [?n]) c c'"
    and all: "\<forall>old. may_change ?u (inode_at c d) \<and> map_of (links c d) ?n = Some old \<and> deletable c ?u old \<longrightarrow> dl \<noteq> None"
    using delete_in_dir_spec [OF laws wf [unfolded o append_Nil] st w(1) mem, of ?u ?n] by (elim exE conjE) (rule that)
  let ?h = "h\<lparr>place := Leave d (if dl \<noteq> None then Some [] else None), removed := dl\<rparr>"
  have a: "act io mem h s = Some (?h, s')" using pl de(1) by (simp add: act_def work_step_def op)
  have ch: "children ?V ?p = {} \<longleftrightarrow> (\<forall>x. ?V (?p @ [x]) = None)" by (auto simp: children_def)
  show ?thesis
  proof (cases dl)
    case None
    then have r: "c' = c" "free1 = free" using res by simp_all
    have "request_effect h ?V = None"
    proof (rule ccontr)
      assume "request_effect h ?V \<noteq> None"
      then obtain n where n: "?V ?p = Some n" "changeable ?V ?u (butlast ?p)" "owner_is ?u n" "children ?V ?p = {}"
        by (auto simp: request_effect_def op Let_def split: option.splits if_splits)
      then obtain old where old: "resolve c 0 ?p = Some old" "node_of c old = n" by (auto simp: view_def)
      then have "deletable c ?u old" using leaf_deletable [OF wf old(1)] n(3,4) ch by simp
      with all None n(2) dir(3,4) old(1) show False by auto
    qed
    note refused = refused_outcome [OF this]
    show ?thesis
      by (rule quiet_step [OF a de(2) [unfolded r(1)]])
        (use stands_atD(6,7) [OF at] wf r o None refused w nb in \<open>auto simp: standing takes_effect_def owned_def removed_ok_def\<close>)
  next
    case (Some gone)
    then obtain i old where g: "dl = Some (i, old)" by (cases gone) auto
    have r: "map_of (links c d) ?n = Some old" "i = inode_at c old" "deletable c ?u old"
      "fs_wf c' (free1 @ (iblocks c old @ [old]) @ others)" "view c' = ?V(?p := None)" "paths_kept ?p c c'"
      "may_change ?u (inode_at c d)" using res g dir(1) by simp_all
    have old: "resolve c 0 ?p = Some old" using dir(4) r(1) by simp
    then have ino: "old \<in> inodes c" by (rule resolve_in_inodes)
    have leaf: "resolve c 0 (?p @ [x]) = None" for x by (simp add: resolve_append old deletable_leaf [OF r(3)])
    have ob: "owned ?h = iblocks c old @ [old]" using nb g r(2) by (simp add: owned_def iblocks_def)
    have hk: "handler_ok y ?h" for y
      using w(3,5) nb g r(2) wf_isize [OF wf ino] wf_inode_sized [OF wf ino] by (simp add: standing removed_ok_def inode_sized_def)
    have rm: "removes io h s c ?p"
      using pl op old child_of_spec [OF laws wf st w(4), of ?u ?n] r(1,7) by (simp add: removes_def)
    have "request_effect h ?V = Some ([], view c')"
      using r(3,5,7) old dir(3) leaf ch by (simp add: request_effect_def op view_def owner_is_node deletable_def)
    then have "takes_effect (free_blocks s = []) h ?V ?h (view c')"
      using g w(8) by (simp add: takes_effect_def decided_def outcome_of_def)
    then show ?thesis unfolding step_ok_def using a de(2) r(4) ob hk rm impact_removed [of c ?p c'] r(5,6) leaf
      by (intro exI [of _ ?h] exI [of _ s'] exI [of _ c'] exI [of _ free1] exI [of _ "Some ?p"]) (simp add: stands_atD(6,7) [OF at])
  qed
qed

section \<open>Every step\<close>

lemma step_goes_well:
  assumes "disk_laws io good" "mem_ok mem" "stands io good s c free rs" "fs_wf c (free @ owned h @ others)" "handler_ok c h"
    and "\<And>a. place h \<noteq> Done a"
  shows "step_ok io mem good h s c others"
proof -
  have "\<not> is_done (place h)" using assms(6) by (cases "place h") auto
  then have at: "stands_at good io (place h) h s c free others rs" using assms by (simp add: stands_at_def)
  show ?thesis
  proof (cases "place h")
    case (Work d)
    note w = at [unfolded Work]
    show ?thesis
    proof (cases "operation_of h")
      case (Op_create type)
      from create_ok [OF w this assms(2)] show ?thesis .
    next
      case Op_delete
      from delete_ok [OF w this assms(2)] show ?thesis .
    next
      case (Op_readblock k)
      from read_ok [OF w this] show ?thesis .
    next
      case (Op_writeblock k data)
      from write_ok [OF w this assms(2)] show ?thesis .
    qed
  next
    case (Done a)
    then show ?thesis using assms(6) by blast
  next
    case Begin
    from begin_ok [OF at [unfolded Begin]] show ?thesis .
  next
    case Enter
    from enter_ok [OF at [unfolded Enter]] show ?thesis .
  next
    case (Visit t names)
    from visit_ok [OF at [unfolded Visit]] show ?thesis .
  next
    case (Next t names)
    from next_ok [OF at [unfolded Next]] show ?thesis .
  next
    case (Failed t)
    from fail_ok [OF at [unfolded Failed]] show ?thesis .
  next
    case (Target t)
    from target_ok [OF at [unfolded Target]] show ?thesis .
  next
    case (Leave d a)
    from leave_ok [OF at [unfolded Leave]] show ?thesis .
  next
    case Freeing
    from freeing_ok [OF at [unfolded Freeing]] show ?thesis .
  next
    case Return
    from return_ok [OF at [unfolded Return]] show ?thesis .
  next
    case (Reply a)
    from reply_ok [OF at [unfolded Reply]] show ?thesis .
  qed
qed

end
