(* ===== verification/FS_Threads_Sys.thy ===== *)
theory FS_Threads_Sys imports FS_Threads_Steps begin

text \<open>
  The server with several handlers: its invariant, that no step of a handler disturbs another, the order in which the requests
  take effect, and that the handlers neither wait for each other for ever nor go on for ever.
\<close>

section \<open>The invariant\<close>

definition compatible :: "handler list \<Rightarrow> bool" where
  "compatible hs \<longleftrightarrow> (\<forall>i < length hs. \<forall>j < length hs. i \<noteq> j \<longrightarrow>
     (\<forall>l \<in> set (held (hs ! i)). \<forall>l' \<in> set (held (hs ! j)). \<not> excludes l l'))"

lemma compatibleD:
  "compatible hs \<Longrightarrow> i < length hs \<Longrightarrow> j < length hs \<Longrightarrow> i \<noteq> j \<Longrightarrow> l \<in> set (held (hs ! i)) \<Longrightarrow> l' \<in> set (held (hs ! j)) \<Longrightarrow>
   \<not> excludes l l'"
  by (simp add: compatible_def)

definition all_owned :: "handler list \<Rightarrow> nat list" where
  "all_owned hs = concat (map owned hs)"

definition threads_ok :: "'d disk_io \<Rightarrow> ('d \<Rightarrow> bool) \<Rightarrow> 'd threads \<Rightarrow> bool" where
  "threads_ok io good st \<longleftrightarrow> (case st of (s, hs) \<Rightarrow> good (fs_disk s) \<and>
     fs_wf (contents_of io (fs_disk s)) (free_blocks s @ all_owned hs) \<and>
     (\<forall>h \<in> set hs. handler_ok (contents_of io (fs_disk s)) h) \<and> compatible hs)"

text \<open>The other handlers' blocks.\<close>

lemma owned_split:
  assumes "i < length hs"
  shows "mset (all_owned hs) = mset (owned (hs ! i)) + mset (all_owned (take i hs @ drop (Suc i) hs))"
    "mset (all_owned (hs[i := h])) = mset (owned h) + mset (all_owned (take i hs @ drop (Suc i) hs))"
proof -
  have "mset (all_owned hs) = mset (all_owned (take i hs @ hs ! i # drop (Suc i) hs))" using id_take_nth_drop [OF assms] by simp
  then show "mset (all_owned hs) = mset (owned (hs ! i)) + mset (all_owned (take i hs @ drop (Suc i) hs))"
    by (simp add: all_owned_def)
  show "mset (all_owned (hs[i := h])) = mset (owned h) + mset (all_owned (take i hs @ drop (Suc i) hs))"
    using assms by (simp add: all_owned_def upd_conv_take_nth_drop)
qed

section \<open>Locks\<close>

lemma check_blocks_result:
  "\<not> valid r \<Longrightarrow> check_blocks io name i bs r out s = Some (r', out', s') \<Longrightarrow>
   (valid r' \<longrightarrow> t_inode_block r' \<noteq> 0) \<and> parent_inode_block r' = parent_inode_block r"
proof (induction bs arbitrary: i r out s)
  case (Cons x bs)
  then obtain block where x: "x = Some block" by (cases x) auto
  from Cons.prems(2) [unfolded x] obtain bytes s1 found r1 out1 where
    st: "read_block io block s = Some (bytes, s1)"
      "scan_entries name i block (decode_entries bytes) 0 (decode_entries bytes) r out = (found, r1, out1)"
      "if found then (r', out', s') = (r1, out1, s1)
       else check_blocks io name (Suc i) bs r1 out1 s1 = Some (r', out', s')"
    by (rule check_blocks_step)
  show ?case using st(3) Cons.IH [of r1 "Suc i" out1 s1] scan_entries_found [OF st(2) Cons.prems(1)]
      scan_entries_nonzero [OF st(2) Cons.prems(1)] scan_entries_parent [OF st(2)] by (auto split: if_splits)
qed auto

lemma check_existance_result:
  assumes "check_existance io r inode name out s = Some (r', out', s')"
  shows "valid r' \<Longrightarrow> t_inode_block r' \<noteq> 0" "parent_inode_block r' = parent_inode_block r"
  using check_blocks_result [OF _ assms [unfolded check_existance_def]] by auto

text \<open>A step holds afterwards what was held before, or what it asked for.\<close>

lemma held_step:
  assumes "act io mem h s = Some (h', s')" "l \<in> set (held h')"
  shows "l \<in> set (held h) \<or> wants io h s = Some l"
proof -
  have e: "exclusive h' = exclusive h" using act_keeps(1) [OF assms(1)] by (simp add: exclusive_def)
  have hl: "l \<in> set (held_at (place h') (exclusive h))" using assms(2) e by (simp add: held_def)
  show ?thesis using assms(1)
  proof (cases rule: act_cases)
    case (visit t names)
    from visit(2) obtain bytes s1 where rd: "read_block io (parent_inode_block t) s = Some (bytes, s1)"
      by (auto simp: visit_step_def Option.bind_eq_Some_conv)
    have "place h' = Failed (t\<lparr>valid := False\<rparr>) \<or> (\<exists>r out s2. check_existance io t (decode_inode bytes) (hd names) None s1 = Some (r, out, s2) \<and>
        place h' \<in> {Failed r, Target r, Next r (tl names)})"
      using visit(2) rd by (auto simp: visit_step_def Option.bind_eq_Some_conv Let_def split: if_splits)
    then show ?thesis using hl visit(1) by (auto simp: held_def coupled_def dest: check_existance_result(2) split: if_splits)
  next
    case starts
    then show ?thesis using hl by (auto simp: begin_step_def Let_def split: operation.splits if_splits)
  next
    case enter
    then show ?thesis using hl
      by (auto simp: enter_step_def wants_def coupled_def default_target_def Option.bind_eq_Some_conv split: if_splits)
  next
    case (go_on t names)
    then show ?thesis using hl by (auto simp: next_step_def wants_def Option.bind_eq_Some_conv)
  next
    case (failed t)
    then show ?thesis using hl by (auto simp: fail_step_def Option.bind_eq_Some_conv split: if_splits)
  next
    case (target t)
    then show ?thesis using hl by (auto simp: target_step_def wants_def Option.bind_eq_Some_conv)
  next
    case (work d)
    then show ?thesis using hl
      by (auto simp: work_step_def held_def Option.bind_eq_Some_conv split: operation.splits)
  next
    case (leave d a)
    then show ?thesis using hl by (auto simp: leave_step_def Option.bind_eq_Some_conv split: if_splits)
  next
    case freeing
    then show ?thesis using hl by (auto simp: freeing_step_def Option.bind_eq_Some_conv)
  next
    case return
    then show ?thesis using hl by (auto simp: return_step_def)
  next
    case (reply a)
    then show ?thesis using hl by (auto simp: reply_step_def)
  qed
qed

lemma excludes_sym: "excludes l l' = excludes l' l"
  by (cases l; cases l') auto

lemma compatible_step:
  assumes c: "compatible hs" and i: "i < length hs" and g: "\<And>w. wants io (hs ! i) s = Some w \<Longrightarrow> granted hs w"
    and a: "act io mem (hs ! i) s = Some (h', s')"
  shows "compatible (hs[i := h'])"
proof -
  have new: "\<not> excludes l l'" if "l \<in> set (held h')" "j < length hs" "j \<noteq> i" "l' \<in> set (held (hs ! j))" for l l' j
    using held_step [OF a that(1)]
  proof
    assume "l \<in> set (held (hs ! i))"
    with c i that show ?thesis by (auto simp: compatible_def)
  next
    assume "wants io (hs ! i) s = Some l"
    from g [OF this] that show ?thesis by (auto simp: granted_def)
  qed
  show ?thesis unfolding compatible_def
  proof (intro allI impI ballI)
    fix j k l l'
    assume jk: "j < length (hs[i := h'])" "k < length (hs[i := h'])" "j \<noteq> k" "l \<in> set (held (hs[i := h'] ! j))" "l' \<in> set (held (hs[i := h'] ! k))"
    show "\<not> excludes l l'"
    proof (cases "j = i")
      case True
      with jk new [of l k l'] show ?thesis by simp
    next
      case j: False
      show ?thesis
      proof (cases "k = i")
        case True
        with jk j new [of l' j l] show ?thesis by (simp add: excludes_sym)
      next
        case False
        with c jk j show ?thesis by (auto simp: compatible_def)
      qed
    qed
  qed
qed

section \<open>Handlers do not disturb each other\<close>

text \<open>Every inode that a handler counts on is locked by it, or linked to from one that is, or the root.\<close>

lemma way_locked:
  assumes "handler_ok c h" "fs_wf c free" "(q, x) \<in> set (ways h)"
  shows "q = [] \<or> (\<exists>m. (x, m) \<in> set (held h)) \<or> (\<exists>y m. (y, m) \<in> set (held h) \<and> resolve c 0 (butlast q) = Some y)"
proof -
  have t: "t_inode_block t \<noteq> 0" if "place h = Target t" "target_path h \<noteq> []" for t
  proof
    assume "t_inode_block t = 0"
    with assms(1) that have "resolve c 0 (target_path h) = Some 0" by (auto simp: standing onway_def)
    with path_unique [OF assms(2) this, of "[]"] that(2) show False by simp
  qed
  show ?thesis
  proof (cases "place h")
    case (Target r)
    with assms(1,3) t [OF Target] show ?thesis
      by (cases "target_path h = []") (auto simp: standing held_def coupled_def onway_def)
  next
    case (Next r names)
    with assms(1,3) show ?thesis by (auto simp: standing held_def onway_def)
  qed (use assms(3) in \<open>auto simp: ways_def held_def\<close>)
qed

text \<open>What is removed is nowhere on the way of another handler.\<close>

lemma removed_not_on_way:
  assumes ok: "threads_ok io good (s, hs)" and i: "i < length hs" and j: "j < length hs" "j \<noteq> i"
    and c: "c = contents_of io (fs_disk s)"
    and g: "\<And>w. wants io (hs ! i) s = Some w \<Longrightarrow> granted hs w" and r: "removes io (hs ! i) s c p" and w: "(q, x) \<in> set (ways (hs ! j))"
  shows "q \<noteq> p"
proof
  assume qp: "q = p"
  let ?h = "hs ! i" and ?g = "hs ! j"
  have wf: "fs_wf c (free_blocks s @ all_owned hs)" and okh: "handler_ok c ?h" "handler_ok c ?g" and cm: "compatible hs"
    using ok i j c by (auto simp: threads_ok_def)
  from r obtain d old where pl: "place ?h = Work d" "operation_of ?h = Op_delete" "p = h_path ?h"
    and ch: "child_of io (h_user ?h) (last p) d s = Some old" and old: "resolve c 0 p = Some old" by (auto simp: removes_def)
  have "wants io ?h s = Some (old, True)" using pl ch by (simp add: wants_def)
  then have gr: "\<not> excludes (old, True) l" if "l \<in> set (held ?g)" for l using g j that by (auto simp: granted_def)
  have ex: "held ?h = [(d, True)]" using pl by (simp add: held_def exclusive_def)
  have rd: "resolve c 0 (butlast p) = Some d"
    using okh(1) pl by (simp add: standing onway_def target_path_def)
  have pn: "p \<noteq> []" using okh(1) pl by (auto simp: handler_ok_def taken_up_def)
  have "resolve c 0 q = Some x" using okh(2) w by (auto simp: handler_ok_def onway_def)
  then have x: "x = old" using old qp by simp
  from way_locked [OF okh(2) wf w] pn qp consider m where "(x, m) \<in> set (held ?g)"
    | y m where "(y, m) \<in> set (held ?g)" "resolve c 0 (butlast q) = Some y" by auto
  then show False
  proof cases
    case 1
    from gr [OF this] x show ?thesis by simp
  next
    case (2 y m)
    then have "y = d" using rd qp by simp
    moreover have "\<not> excludes (d, True) (y, m)" using compatibleD [OF cm i j(1) j(2) [symmetric] _ 2(1)] ex by simp
    ultimately show ?thesis by simp
  qed
qed

text \<open>The effect of a step, with the room told from the files.\<close>

definition crowded :: "nat \<Rightarrow> fsmap \<Rightarrow> bool" where
  "crowded n V \<longleftrightarrow> FS_DISKSIZE \<le> space V + (FS_MAXFILEBLOCKS + 1) * n"

lemma all_owned_few: "\<forall>h \<in> set hs. handler_ok c h \<Longrightarrow> length (all_owned hs) \<le> (FS_MAXFILEBLOCKS + 1) * length hs"
  unfolding all_owned_def by (induction hs) (auto dest: owned_few)

lemma takes_effect_mono: "(a \<Longrightarrow> b) \<Longrightarrow> takes_effect a h V h' V' \<Longrightarrow> takes_effect b h V h' V'"
  by (auto simp: takes_effect_def outcome_of_def full_for_def split: option.splits operation.splits)

lemma thread_step_ok:
  assumes laws: "disk_laws io good" and mem: "mem_ok mem" and ok: "threads_ok io good (s, hs)"
    and i: "i < length hs" and g: "\<And>w. wants io (hs ! i) s = Some w \<Longrightarrow> granted hs w" and a: "act io mem (hs ! i) s = Some (h', s')"
  shows "threads_ok io good (s', hs[i := h'])" "takes_effect (crowded (length hs) (files io s)) (hs ! i) (files io s) h' (files io s')"
    "responses s' = responses s @ sent h'"
proof -
  let ?c = "contents_of io (fs_disk s)" and ?others = "all_owned (take i hs @ drop (Suc i) hs)" and ?h = "hs ! i"
  have st: "stands io good s ?c (free_blocks s) (responses s)" and wf: "fs_wf ?c (free_blocks s @ all_owned hs)"
    and hk: "\<forall>h \<in> set hs. handler_ok ?c h" and cm: "compatible hs" using ok by (simp_all add: threads_ok_def stands_def)
  have wf': "fs_wf ?c (free_blocks s @ owned ?h @ ?others)"
    by (rule wf_free_perm [OF wf]) (simp add: owned_split(1) [OF i])
  have nd: "place ?h \<noteq> Done x" for x using a by (auto simp: act_def)
  from step_goes_well [OF laws mem st wf' _ nd] hk i obtain h1 s1 c' free' gone where
    "act io mem ?h s = Some (h1, s1)" and r: "stands io good s1 c' free' (responses s @ sent h1)" "fs_wf c' (free' @ owned h1 @ ?others)" "handler_ok c' h1"
    "impact ?c c' gone" "\<And>p. gone = Some p \<Longrightarrow> removes io ?h s ?c p" and te: "takes_effect (free_blocks s = []) ?h (view ?c) h1 (view c')"
    by (auto simp: step_ok_def)
  then have e: "h1 = h'" "s1 = s'" using a by simp_all
  show "responses s' = responses s @ sent h'" using r(1) e by (simp add: stands_def)
  have c': "contents_of io (fs_disk s') = c'" "good (fs_disk s')" "free_blocks s' = free'" using r(1) e by (simp_all add: stands_def)
  have "handler_ok c' (hs ! j)" if j: "j < length hs" "j \<noteq> i" for j
  proof -
    have hj: "handler_ok ?c (hs ! j)" using hk j by simp
    have "onway c' (h_user (hs ! j)) q x" if w: "(q, x) \<in> set (ways (hs ! j))" for q x
    proof (rule onway_kept [OF r(4)])
      show "onway ?c (h_user (hs ! j)) q x" using hj w by (auto simp: handler_ok_def)
      show "gone \<noteq> Some q" using removed_not_on_way [OF ok i j refl g _ w] r(5) by blast
    qed
    with hj show ?thesis by (auto simp: handler_ok_def)
  qed
  then have all: "\<forall>h \<in> set (hs[i := h']). handler_ok c' h"
    using r(3) e i by (auto simp: in_set_conv_nth nth_list_update)
  have "fs_wf c' (free' @ all_owned (hs[i := h']))"
    by (rule wf_free_perm [OF r(2)]) (simp add: owned_split(2) [OF i] e)
  then show "threads_ok io good (s', hs[i := h'])"
    using c' all compatible_step [OF cm i g a] by (simp add: threads_ok_def)
  have "crowded (length hs) (files io s)" if "free_blocks s = []"
    using free_at_least [OF wf] all_owned_few [OF hk] that by (simp add: crowded_def files_def)
  from takes_effect_mono [OF this te] show "takes_effect (crowded (length hs) (files io s)) ?h (files io s) h' (files io s')"
    by (simp add: files_def c' e)
qed

section \<open>The order in which requests take effect\<close>

text \<open>The answers of the list, given one after the other.\<close>

fun replay :: "handler list \<Rightarrow> (nat \<times> string option) list \<Rightarrow> fsmap \<Rightarrow> fsmap \<Rightarrow> bool" where
  "replay hs [] V V' \<longleftrightarrow> V' = V"
| "replay hs ((i, answer) # H) V V' \<longleftrightarrow>
     (\<exists>V1. outcome_of (crowded (length hs) V) (hs ! i) answer V V1 \<and> replay hs H V1 V')"

lemma replay_append: "replay hs (H @ H') V V' \<longleftrightarrow> (\<exists>V1. replay hs H V V1 \<and> replay hs H' V1 V')"
proof (induction H arbitrary: V)
  case (Cons x H)
  then show ?case by (cases x) auto
qed simp

text \<open>
  The list \<open>H\<close> explains how the handlers \<open>hs0\<close> have come to stand as \<open>hs\<close> and the files \<open>V0\<close> to be \<open>V\<close>: it has every
  request whose answer is certain, with this answer, once, and no other.
\<close>

definition explains :: "handler list \<Rightarrow> fsmap \<Rightarrow> (nat \<times> string option) list \<Rightarrow> handler list \<Rightarrow> fsmap \<Rightarrow> bool" where
  "explains hs0 V0 H hs V \<longleftrightarrow> replay hs0 H V0 V \<and> distinct (map fst H) \<and> length hs = length hs0 \<and>
     fst ` set H \<subseteq> {..<length hs0} \<and> (\<forall>i < length hs0. decided (hs ! i) = map_of H i)"

definition same_request :: "handler \<Rightarrow> handler \<Rightarrow> bool" where
  "same_request h h' \<longleftrightarrow> operation_of h' = operation_of h \<and> h_user h' = h_user h \<and> h_path h' = h_path h \<and> h_text h' = h_text h"

lemma outcome_same: "same_request h h' \<Longrightarrow> outcome_of b h' a V V' = outcome_of b h a V V'"
  by (simp add: same_request_def outcome_of_def request_effect_def full_for_def cong: operation.case_cong option.case_cong)

lemma explains_step:
  assumes ex: "explains hs0 V0 H hs V" and sr: "list_all2 same_request hs0 hs" and i: "i < length hs"
    and te: "takes_effect (crowded (length hs) V) (hs ! i) V h' V'"
  shows "\<exists>H'. explains hs0 V0 (H @ H') (hs[i := h']) V'"
  using te unfolding takes_effect_def
proof (elim disjE conjE exE)
  assume "decided h' = decided (hs ! i)" "V' = V"
  then have "explains hs0 V0 (H @ []) (hs[i := h']) V'" using ex i by (auto simp: explains_def nth_list_update)
  then show ?thesis ..
next
  fix a
  assume d: "decided (hs ! i) = None" "decided h' = Some a" and o: "outcome_of (crowded (length hs) V) (hs ! i) a V V'"
  have l: "length hs = length hs0" using ex by (simp add: explains_def)
  then have new: "map_of H i = None" using ex d(1) i by (auto simp: explains_def)
  then have ni: "i \<notin> fst ` set H" by (simp add: map_of_eq_None_iff)
  have "outcome_of (crowded (length hs0) V) (hs0 ! i) a V V'"
    using o l i outcome_same [of "hs0 ! i" "hs ! i"] list_all2_nthD2 [OF sr i] by simp
  then have "replay hs0 (H @ [(i, a)]) V0 V'" using ex by (auto simp: replay_append explains_def)
  moreover have "decided (hs[i := h'] ! j) = map_of (H @ [(i, a)]) j" if "j < length hs0" for j
    using ex that d new i l by (auto simp: explains_def nth_list_update map_add_def split: option.split)
  ultimately have "explains hs0 V0 (H @ [(i, a)]) (hs[i := h']) V'"
    using ex i l ni by (auto simp: explains_def)
  then show ?thesis ..
qed

lemma requests_kept:
  assumes "thread_step io mem (s, hs) (s', hs')" "list_all2 same_request hs0 hs"
  shows "list_all2 same_request hs0 hs'"
  using assms(1)
proof (cases rule: thread_step.cases)
  case (1 i h')
  have "same_request (hs0 ! j) (hs[i := h'] ! j)" if "j < length hs0" for j
  proof -
    have "same_request (hs0 ! j) (hs ! j)" using list_all2_nthD [OF assms(2) that] .
    then show ?thesis using act_keeps [OF 1(4)] 1(2) by (auto simp: same_request_def nth_list_update)
  qed
  with 1 list_all2_lengthD [OF assms(2)] show ?thesis by (auto simp: list_all2_conv_all_nth)
qed

text \<open>The answers sent are those of the handlers that are done.\<close>

definition all_sent :: "handler list \<Rightarrow> string multiset" where
  "all_sent hs = (\<Sum>h \<leftarrow> hs. mset (sent h))"

lemma sent_step:
  assumes "i < length hs" "sent (hs ! i) = []"
  shows "all_sent (hs[i := h']) = all_sent hs + mset (sent h')"
proof -
  have "all_sent hs = all_sent (take i hs @ hs ! i # drop (Suc i) hs)" using id_take_nth_drop [OF assms(1)] by simp
  then show ?thesis using assms by (simp add: all_sent_def upd_conv_take_nth_drop)
qed

lemma act_sent: "act io mem h s = Some x \<Longrightarrow> sent h = []"
  by (cases "place h") (auto simp: act_def sent_def)

lemma run_explained:
  assumes "steps_in (thread_step io mem) n st st'" "disk_laws io good" "mem_ok mem"
  shows "threads_ok io good st \<Longrightarrow> explains hs0 V0 H (snd st) (files io (fst st)) \<Longrightarrow> list_all2 same_request hs0 (snd st) \<Longrightarrow>
    mset (responses (fst st)) = R + all_sent (snd st) \<Longrightarrow>
    \<exists>H'. explains hs0 V0 (H @ H') (snd st') (files io (fst st')) \<and> threads_ok io good st' \<and> list_all2 same_request hs0 (snd st') \<and>
      mset (responses (fst st')) = R + all_sent (snd st')"
  using assms(1)
proof (induction arbitrary: H rule: steps_in.induct)
  case (steps_none st)
  then show ?case by (intro exI [of _ "[]"]) simp
next
  case (steps_more st st1 n st2)
  obtain s hs s1 hs1 where st: "st = (s, hs)" "st1 = (s1, hs1)" by (cases st; cases st1) auto
  from steps_more.hyps(1) st obtain i h' where i: "i < length hs" "hs1 = hs[i := h']"
    and g: "\<And>w. wants io (hs ! i) s = Some w \<Longrightarrow> granted hs w" and a: "act io mem (hs ! i) s = Some (h', s1)"
    by (auto elim: thread_stepE)
  note ok = thread_step_ok [OF assms(2,3) steps_more.prems(1) [unfolded st] i(1) g a]
  have "\<exists>H1. explains hs0 V0 (H @ H1) (hs[i := h']) (files io s1)"
    using steps_more.prems st by (intro explains_step [OF _ _ i(1) ok(2)]) simp_all
  then obtain H1 where "explains hs0 V0 (H @ H1) (snd st1) (files io (fst st1))" using st i(2) by auto
  moreover have "list_all2 same_request hs0 (snd st1)"
    using requests_kept [OF steps_more.hyps(1) [unfolded st]] steps_more.prems(3) st by simp
  moreover have "mset (responses (fst st1)) = R + all_sent (snd st1)"
    using steps_more.prems(4) ok(3) sent_step [OF i(1) act_sent [OF a]] st i(2) by simp
  ultimately show ?case using steps_more.IH [of "H @ H1"] ok(1) st i(2) by auto
qed

section \<open>Progress\<close>

text \<open>The path of the inode whose lock is asked for.\<close>

fun goal_at :: "place \<Rightarrow> handler \<Rightarrow> string list" where
  "goal_at (Next t names) h = walked h names"
| "goal_at (Target t) h = target_path h"
| "goal_at (Work d) h = h_path h"
| "goal_at _ h = []"

lemma goal_resolves:
  assumes "disk_laws io good" "stands io good s c free rs" "fs_wf c free'" "handler_ok c h" "wants io h s = Some (b, x)"
  shows "resolve c 0 (goal_at (place h) h) = Some b"
proof (cases "place h")
  case (Work d)
  with assms(5) have op: "operation_of h = Op_delete" and ch: "child_of io (h_user h) (last (h_path h)) d s = Some b"
    by (auto simp: wants_def split: if_splits)
  have r: "resolve c 0 (butlast (h_path h)) = Some d" "h_path h \<noteq> []"
    using assms(4) Work op by (auto simp: standing onway_def target_path_def taken_up_def)
  have "map_of (links c d) (last (h_path h)) = Some b"
    using child_of_spec [OF assms(1,3,2) resolve_in_inodes [OF r(1)]] ch by (simp split: if_splits)
  then show ?thesis using Work r resolve_snoc [of c 0 "butlast (h_path h)" "last (h_path h)"] by simp
qed (use assms(4,5) in \<open>auto simp: standing wants_def onway_def split: if_splits\<close>)

text \<open>A handler that waits holds only locks above the one it waits for.\<close>

lemma held_above:
  assumes "handler_ok c h" "wants io h s = Some w" "(b, m) \<in> set (held h)"
  shows "\<exists>q. resolve c 0 q = Some b \<and> length q < length (goal_at (place h) h)"
proof (cases "place h")
  case (Next t names)
  then have "resolve c 0 (butlast (walked h names)) = Some b" "walked h names \<noteq> []"
    using assms by (auto simp: standing held_def onway_def)
  with Next show ?thesis by (intro exI [of _ "butlast (walked h names)"]) simp
next
  case (Target t)
  show ?thesis
  proof (cases "target_path h = []")
    case True
    with Target assms show ?thesis by (auto simp: standing held_def coupled_def)
  next
    case False
    then have "resolve c 0 (butlast (target_path h)) = Some b"
      using Target assms by (auto simp: standing held_def coupled_def onway_def split: if_splits)
    with Target False show ?thesis by (intro exI [of _ "butlast (target_path h)"]) simp
  qed
next
  case (Work d)
  then have "operation_of h = Op_delete" using assms(2) by (auto simp: wants_def split: if_splits)
  then have "resolve c 0 (butlast (h_path h)) = Some b" "h_path h \<noteq> []"
    using Work assms(1,3) by (auto simp: standing held_def onway_def target_path_def taken_up_def)
  with Work show ?thesis by (intro exI [of _ "butlast (h_path h)"]) simp
qed (use assms(2,3) in \<open>auto simp: wants_def held_def\<close>)

lemma goal_bound: "length (goal_at (place h) h) \<le> length (h_path h)"
  by (cases "place h") (auto simp: walked_def target_path_def split: operation.splits)

definition unheld :: "handler list \<Rightarrow> nat \<Rightarrow> bool" where
  "unheld hs b \<longleftrightarrow> (\<forall>h \<in> set hs. \<forall>l \<in> set (held h). fst l \<noteq> b)"

lemma unheld_granted: "unheld hs (fst w) \<Longrightarrow> granted hs w"
  by (cases w) (fastforce simp: unheld_def granted_def)

text \<open>A handler that can go on at once: nobody holds the lock it asks for.\<close>

definition can_go :: "'d disk_io \<Rightarrow> 'd server \<Rightarrow> handler list \<Rightarrow> handler \<Rightarrow> bool" where
  "can_go io s hs h \<longleftrightarrow> \<not> is_done (place h) \<and> (\<forall>w. wants io h s = Some w \<longrightarrow> unheld hs (fst w))"

lemma waiting_for_goer:
  assumes laws: "disk_laws io good" and ok: "threads_ok io good (s, hs)"
  shows "h \<in> set hs \<Longrightarrow> wants io h s = Some (b, x) \<Longrightarrow> \<exists>g \<in> set hs. can_go io s hs g"
proof (induction "sum_list (map (length \<circ> h_path) hs) - length (goal_at (place h) h)" arbitrary: h b x rule: less_induct)
  case less
  let ?c = "contents_of io (fs_disk s)"
  have st: "stands io good s ?c (free_blocks s) (responses s)" and wf: "fs_wf ?c (free_blocks s @ all_owned hs)"
    and hk: "\<forall>h \<in> set hs. handler_ok ?c h" using ok by (simp_all add: threads_ok_def stands_def)
  show ?case
  proof (cases "unheld hs b")
    case True
    have "\<not> is_done (place h)" using less.prems(2) by (cases "place h") (auto simp: wants_def)
    with True less.prems show ?thesis by (auto simp: can_go_def)
  next
    case False
    then obtain g m where g: "g \<in> set hs" "(b, m) \<in> set (held g)" by (auto simp: unheld_def)
    show ?thesis
    proof (cases "wants io g s")
      case None
      have "\<not> is_done (place g)" using g(2) by (cases "place g") (auto simp: held_def)
      with None g show ?thesis by (auto simp: can_go_def)
    next
      case (Some w)
      obtain q where q: "resolve ?c 0 q = Some b" "length q < length (goal_at (place g) g)"
        using held_above [OF _ Some g(2)] hk g(1) by blast
      have "resolve ?c 0 (goal_at (place h) h) = Some b" using goal_resolves [OF laws st wf _ less.prems(2)] hk less.prems(1) by blast
      then have "q = goal_at (place h) h" by (rule path_unique [OF wf q(1)])
      moreover have "length (goal_at (place g) g) \<le> sum_list (map (length \<circ> h_path) hs)"
        using goal_bound [of g] member_le_sum_list [of "(length \<circ> h_path) g" "map (length \<circ> h_path) hs"] g(1) by auto
      ultimately show ?thesis using less.hyps [OF _ g(1), of "fst w" "snd w"] q(2) Some by auto
    qed
  qed
qed

lemma someone_can_go:
  assumes "disk_laws io good" "threads_ok io good (s, hs)" "\<not> (\<forall>h \<in> set hs. is_done (place h))"
  shows "\<exists>h \<in> set hs. can_go io s hs h"
proof -
  obtain h where h: "h \<in> set hs" "\<not> is_done (place h)" using assms(3) by auto
  show ?thesis
  proof (cases "wants io h s")
    case None
    with h show ?thesis by (auto simp: can_go_def)
  next
    case (Some w)
    then show ?thesis using waiting_for_goer [OF assms(1,2) h(1), of "fst w" "snd w"] by simp
  qed
qed

text \<open>Every handler that has the lock it asks for makes its step.\<close>

lemma goer_steps:
  assumes laws: "disk_laws io good" and mem: "mem_ok mem" and ok: "threads_ok io good (s, hs)"
    and i: "i < length hs" "\<not> is_done (place (hs ! i))" and g: "\<And>w. wants io (hs ! i) s = Some w \<Longrightarrow> granted hs w"
  shows "\<exists>h' s'. act io mem (hs ! i) s = Some (h', s') \<and> thread_step io mem (s, hs) (s', hs[i := h'])"
proof -
  let ?c = "contents_of io (fs_disk s)" and ?others = "all_owned (take i hs @ drop (Suc i) hs)"
  have st: "stands io good s ?c (free_blocks s) (responses s)" and wf: "fs_wf ?c (free_blocks s @ all_owned hs)"
    and hk: "handler_ok ?c (hs ! i)" using ok i by (simp_all add: threads_ok_def stands_def)
  have wf': "fs_wf ?c (free_blocks s @ owned (hs ! i) @ ?others)"
    by (rule wf_free_perm [OF wf]) (simp add: owned_split(1) [OF i(1)])
  have nd: "place (hs ! i) \<noteq> Done x" for x using i(2) by auto
  from step_goes_well [OF laws mem st wf' hk nd] obtain h' s' where "act io mem (hs ! i) s = Some (h', s')"
    by (auto simp: step_ok_def)
  then show ?thesis using thread_step.intros [OF i(1) g] by blast
qed

section \<open>Termination\<close>

fun rank_at :: "place \<Rightarrow> handler \<Rightarrow> nat" where
  "rank_at Begin h = 2 * length (target_path h) + 7"
| "rank_at Enter h = 2 * length (target_path h) + 6"
| "rank_at (Visit t names) h = 2 * length names + 4"
| "rank_at (Next t names) h = 2 * length names + 5"
| "rank_at (Failed t) h = 2"
| "rank_at (Target t) h = 5"
| "rank_at (Work d) h = 4"
| "rank_at (Leave d answer) h = 3"
| "rank_at Freeing h = 2"
| "rank_at Return h = 1"
| "rank_at (Reply answer) h = 1"
| "rank_at (Done answer) h = 0"

definition rank_of :: "handler list \<Rightarrow> nat" where
  "rank_of hs = (\<Sum>h \<leftarrow> hs. rank_at (place h) h)"

lemma act_rank:
  assumes "act io mem h s = Some (h', s')" "handler_ok c h"
  shows "rank_at (place h') h' < rank_at (place h) h"
proof -
  have tp: "target_path h' = target_path h" using act_keeps [OF assms(1)] by (simp add: target_path_def cong: operation.case_cong)
  show ?thesis using assms(1)
  proof (cases rule: act_cases)
    case (visit t names)
    then have "names \<noteq> []" using assms(2) by (simp add: standing at_suffix_def)
    then obtain n ns where "names = n # ns" by (cases names) auto
    then show ?thesis using visit
      by (auto simp: visit_step_def Option.bind_eq_Some_conv Let_def split: if_splits)
  qed (auto simp: step_defs Let_def Option.bind_eq_Some_conv split: operation.splits if_splits)
qed

lemma rank_step:
  assumes "thread_step io mem (s, hs) (s', hs')" "threads_ok io good (s, hs)"
  shows "rank_of hs' < rank_of hs"
  using assms(1)
proof (cases rule: thread_step.cases)
  case (1 i h')
  have hk: "handler_ok (contents_of io (fs_disk s)) (hs ! i)" using assms(2) 1(2) by (simp add: threads_ok_def)
  have "mset hs = add_mset (hs ! i) (mset (take i hs @ drop (Suc i) hs))" using 1(2) by (subst id_take_nth_drop [OF 1(2)]) simp
  then have "rank_of hs = rank_at (place (hs ! i)) (hs ! i) + rank_of (take i hs @ drop (Suc i) hs)"
    unfolding rank_of_def by (subst (1 2) sum_mset_sum_list [symmetric]) simp
  moreover have "rank_of hs' = rank_at (place h') h' + rank_of (take i hs @ drop (Suc i) hs)"
    using 1 by (simp add: rank_of_def upd_conv_take_nth_drop)
  ultimately show ?thesis using act_rank [OF 1(4) hk] by simp
qed

lemma handlers_ranked:
  assumes "disk_laws io good" "mem_ok mem"
  shows "ranked_system (threads_ok io good) (thread_step io mem) (threads_ok io good) (\<lambda>st. rank_of (snd st))
    (\<lambda>st. \<forall>h \<in> set (snd st). is_done (place h))"
proof unfold_locales
  fix st st' assume ok: "threads_ok io good st" and step: "thread_step io mem st st'"
  obtain s hs s' hs' where st: "st = (s, hs)" "st' = (s', hs')" by (cases st; cases st') auto
  show "threads_ok io good st'" using step ok thread_step_ok(1) [OF assms] unfolding st by (auto elim!: thread_stepE)
  show "rank_of (snd st') < rank_of (snd st)" using rank_step step ok unfolding st by auto
next
  fix st assume ok: "threads_ok io good st" and nf: "\<not> (\<forall>h \<in> set (snd st). is_done (place h))"
  obtain s hs where st: "st = (s, hs)" by (cases st)
  obtain h where h: "h \<in> set hs" "can_go io s hs h" using someone_can_go [OF assms(1)] ok nf st by auto
  then obtain i where i: "i < length hs" "hs ! i = h" by (auto simp: in_set_conv_nth)
  have "\<exists>h' s'. act io mem (hs ! i) s = Some (h', s') \<and> thread_step io mem (s, hs) (s', hs[i := h'])"
    using ok st h(2) i by (intro goer_steps [OF assms]) (auto simp: can_go_def intro: unheld_granted)
  then show "\<exists>st'. thread_step io mem st st'" using st by blast
qed

end
