(* ===== verification/FS_Threads_Alone.thy ===== *)
theory FS_Threads_Alone imports FS_Threads_Sys begin

text \<open>
  The steps are those of the handlers: a handler that nobody interrupts goes, step by step, from the state in which its request
  is dispatched to the state that \<open>dispatch\<close> has computed; and the locks it is said to hold are those its accesses show.
\<close>

section \<open>The handler of a call\<close>

fun operation_for :: "fs_call \<Rightarrow> operation option" where
  "operation_for (Fs_create user pathname type) = (if type = CHR ''f'' \<or> type = CHR ''d'' then Some (Op_create [type]) else None)"
| "operation_for (Fs_delete user pathname) = Some Op_delete"
| "operation_for (Fs_readblock user pathname off) = (if off < FS_MAXFILEBLOCKS then Some (Op_readblock off) else None)"
| "operation_for (Fs_writeblock user pathname off buf) =
     (if off < FS_MAXFILEBLOCKS then Some (Op_writeblock off (take FS_BLOCKSIZE buf)) else None)"

text \<open>As it is when the request has been parsed; \<open>None\<close> when it has been refused.\<close>

definition handler_for :: "fs_call \<Rightarrow> handler option" where
  "handler_for call = do {
     names \<leftarrow> names_of (fst (user_path call)) (snd (user_path call));
     op \<leftarrow> operation_for call;
     Some \<lparr>operation_of = op, h_user = fst (user_path call), h_path = names, h_text = request call @ [nul],
       place = Begin, new_block = None, removed = None\<rparr> }"

lemma handler_for_cases:
  assumes "handler_for call = Some h"
  obtains op names where "operation_for call = Some op" "path_parser (snd (user_path call)) = Some names"
    "fit (fst (user_path call)) (snd (user_path call))"
    "h = \<lparr>operation_of = op, h_user = fst (user_path call), h_path = names, h_text = request call @ [nul],
       place = Begin, new_block = None, removed = None\<rparr>"
  using assms by (auto simp: handler_for_def names_of_fit Option.bind_eq_Some_conv split: if_splits)

lemma names_parsed:
  assumes "plain pathname" "path_parser pathname = Some names"
  shows "names \<noteq> []" "name_ok (last names)"
  using parsed_names_ok [OF _ assms(2) plain_nul [OF assms(1)]] assms(1) by (auto simp: plain_def)

lemma handler_for_taken_up:
  assumes "plain_call call" "handler_for call = Some h"
  shows "taken_up h" "place h = Begin" "new_block h = None" "removed h = None"
proof -
  obtain op names where o: "operation_for call = Some op" "path_parser (snd (user_path call)) = Some names"
    "fit (fst (user_path call)) (snd (user_path call))"
    and h: "h = \<lparr>operation_of = op, h_user = fst (user_path call), h_path = names, h_text = request call @ [nul],
       place = Begin, new_block = None, removed = None\<rparr>" using assms(2) by (rule handler_for_cases)
  show "place h = Begin" "new_block h = None" "removed h = None" by (simp_all add: h)
  have pl: "plain (fst (user_path call))" "plain (snd (user_path call))" using assms(1) by (cases call; simp)+
  note n = names_parsed [OF pl(2) o(2)]
  have "user_ok (fst (user_path call))" using fit_words(5) [OF pl o(3)] .
  then show "taken_up h" using o(1) n assms(1) by (cases call) (auto simp: h taken_up_def split: if_splits)
qed

lemma call_effect:
  assumes "handler_for call = Some h"
  shows "fs_do call V = map_option snd (request_effect h V)"
proof -
  obtain op names where o: "operation_for call = Some op" "path_parser (snd (user_path call)) = Some names"
    "fit (fst (user_path call)) (snd (user_path call))"
    and h: "h = \<lparr>operation_of = op, h_user = fst (user_path call), h_path = names, h_text = request call @ [nul],
       place = Begin, new_block = None, removed = None\<rparr>" using assms by (rule handler_for_cases)
  show ?thesis
    using o by (cases call) (auto simp: h names_of_fit request_effect_def Let_def split: option.split if_splits)
qed

text \<open>A call without a handler can only fail.\<close>

lemma no_handler: "handler_for call = None \<Longrightarrow> fs_do call V = None"
  by (cases call) (auto simp: handler_for_def Option.bind_eq_None_conv names_of_def split: option.splits if_splits)

section \<open>Steps of a handler alone\<close>

definition runs_alone :: "'d disk_io \<Rightarrow> junk \<Rightarrow> handler \<times> 'd server \<Rightarrow> handler \<times> 'd server \<Rightarrow> bool" where
  "runs_alone io mem = (\<lambda>x y. act io mem (fst x) (snd x) = Some y)\<^sup>*\<^sup>*"

lemma runs_alone_step: "act io mem h s = Some x \<Longrightarrow> runs_alone io mem x y \<Longrightarrow> runs_alone io mem (h, s) y"
  unfolding runs_alone_def by (rule converse_rtranclp_into_rtranclp) auto

lemma runs_alone_refl: "runs_alone io mem x x"
  by (simp add: runs_alone_def)

lemma runs_alone_trans: "runs_alone io mem x y \<Longrightarrow> runs_alone io mem y z \<Longrightarrow> runs_alone io mem x z"
  by (auto simp: runs_alone_def)

lemma runs_alone_one: "act io mem h s = Some x \<Longrightarrow> runs_alone io mem (h, s) x"
  by (rule runs_alone_step [OF _ runs_alone_refl])

definition after_traverse :: "handler \<Rightarrow> target_inode \<Rightarrow> handler" where
  "after_traverse h t = h\<lparr>place := if valid t then Target t else Failed t\<rparr>"

lemma runs_alone_visit:
  "read_block io d s0 = Some (bytes, s) \<Longrightarrow>
   d = 0 \<or> c_string (owner (decode_inode bytes)) = h_user h \<and> itype (decode_inode bytes) = CHR ''d'' \<Longrightarrow>
   parent_inode_block r = d \<Longrightarrow> names \<noteq> [] \<Longrightarrow> traverse_loop io (h_user h) names r (decode_inode bytes) d s = Some (t, s') \<Longrightarrow>
   runs_alone io mem (h\<lparr>place := Visit r names\<rparr>, s0) (after_traverse h t, s')"
proof (induction names arbitrary: r d bytes s0 s)
  case (Cons n names)
  from Cons.prems(5) obtain r1 out s1 where ce: "check_existance io r (decode_inode bytes) n None s = Some (r1, out, s1)"
    by (auto simp: Option.bind_eq_Some_conv)
  note res = check_existance_result [OF ce]
  let ?pl = "if \<not> valid r1 then Failed r1 else if names = [] then Target r1 else Next r1 names"
  have "act io mem (h\<lparr>place := Visit r (n # names)\<rparr>) s0 = Some (h\<lparr>place := ?pl\<rparr>, s1)"
    using Cons.prems(1-3) ce by (auto simp: act_def visit_step_def)
  note visit = runs_alone_one [OF this]
  show ?case
  proof (cases "\<not> valid r1 \<or> names = []")
    case True
    then have "t = r1" "s' = s1" using Cons.prems(5) ce by auto
    with visit True show ?thesis by (auto simp: after_traverse_def)
  next
    case False
    let ?j = "t_inode_block r1" and ?r = "r1\<lparr>parent_inode_block := t_inode_block r1\<rparr>"
    from False Cons.prems(5) ce obtain s2 s3 bytes' s4 where st: "lock_shared ?j s1 = Some s2" "unlock_shared d s2 = Some s3"
      "read_block io ?j s3 = Some (bytes', s4)"
      and rest: "(if c_string (owner (decode_inode bytes')) \<noteq> h_user h \<or> itype (decode_inode bytes') \<noteq> CHR ''d''
        then Some (?r\<lparr>valid := False\<rparr>, s4) else traverse_loop io (h_user h) names ?r (decode_inode bytes') ?j s4) = Some (t, s')"
      by (auto simp: Option.bind_eq_Some_conv Let_def)
    have "act io mem (h\<lparr>place := Next r1 names\<rparr>) s1 = Some (h\<lparr>place := Visit ?r names\<rparr>, s3)"
      using st(1,2) res(2) Cons.prems(3) by (simp add: act_def next_step_def)
    from runs_alone_trans [OF visit runs_alone_one [of io mem "h\<lparr>place := ?pl\<rparr>" s1]] this False
    have go: "runs_alone io mem (h\<lparr>place := Visit r (n # names)\<rparr>, s0) (h\<lparr>place := Visit ?r names\<rparr>, s3)" by simp
    have j: "?j \<noteq> 0" using res(1) False by simp
    show ?thesis
    proof (cases "c_string (owner (decode_inode bytes')) \<noteq> h_user h \<or> itype (decode_inode bytes') \<noteq> CHR ''d''")
      case True
      then have "act io mem (h\<lparr>place := Visit ?r names\<rparr>) s3 = Some (h\<lparr>place := Failed (?r\<lparr>valid := False\<rparr>)\<rparr>, s4)"
        using st(3) j by (simp add: act_def visit_step_def)
      with True rest runs_alone_trans [OF go runs_alone_one] show ?thesis by (auto simp: after_traverse_def)
    next
      case ok: False
      have "runs_alone io mem (h\<lparr>place := Visit ?r names\<rparr>, s3) (after_traverse h t, s')"
        using ok rest False by (intro Cons.IH [OF st(3)]) auto
      with go show ?thesis by (rule runs_alone_trans)
    qed
  qed
qed simp

lemma runs_alone_traverse:
  assumes "place h = Enter" "traverse_dir io (h_user h) (target_path h) s = Some (t, s')"
  shows "runs_alone io mem (h, s) (after_traverse h t, s')"
proof (cases "target_path h = []")
  case True
  with assms show ?thesis by (intro runs_alone_one) (auto simp: act_def enter_step_def traverse_dir_def after_traverse_def)
next
  case False
  let ?t = "default_target\<lparr>valid := True\<rparr>"
  from assms(2) False obtain s1 bytes s2 where st: "lock_shared 0 s = Some s1" "read_block io 0 s1 = Some (bytes, s2)"
    "traverse_loop io (h_user h) (target_path h) ?t (decode_inode bytes) 0 s2 = Some (t, s')"
    by (auto simp: traverse_dir_def Option.bind_eq_Some_conv)
  have "act io mem h s = Some (h\<lparr>place := Visit ?t (target_path h)\<rparr>, s1)"
    using assms(1) False st(1) by (simp add: act_def enter_step_def)
  then show ?thesis
    by (rule runs_alone_step) (rule runs_alone_visit [OF st(2) _ _ False st(3)]; simp add: default_target_def)
qed

text \<open>From the end of the traversal on.\<close>

definition ends :: "'d disk_io \<Rightarrow> junk \<Rightarrow> handler \<times> 'd server \<Rightarrow> 'd server \<Rightarrow> bool" where
  "ends io mem x s' \<longleftrightarrow> (\<exists>h' answer. runs_alone io mem x (h', s') \<and> place h' = Done answer)"

lemma ends_step: "act io mem h s = Some x \<Longrightarrow> ends io mem x s' \<Longrightarrow> ends io mem (h, s) s'"
  by (auto simp: ends_def intro: runs_alone_step)

lemma ends_done: "place h = Done answer \<Longrightarrow> ends io mem (h, s) s"
  by (auto simp: ends_def intro: runs_alone_refl)

lemma ends_alone: "runs_alone io mem x y \<Longrightarrow> ends io mem y s' \<Longrightarrow> ends io mem x s'"
  by (auto simp: ends_def intro: runs_alone_trans)

lemma failed_ends:
  assumes "place h = Failed t" "unlock_shared (parent_inode_block t) s = Some s1"
  shows "ends io mem (h, s) (case new_block h of None \<Rightarrow> s1 | Some b \<Rightarrow> return_empty_block b s1)"
proof (rule ends_step)
  show "act io mem h s = Some (h\<lparr>place := if new_block h = None then Done None else Return\<rparr>, s1)"
    using assms by (simp add: act_def fail_step_def)
  show "ends io mem (h\<lparr>place := if new_block h = None then Done None else Return\<rparr>, s1)
      (case new_block h of None \<Rightarrow> s1 | Some b \<Rightarrow> return_empty_block b s1)"
    by (cases "new_block h") (auto intro!: ends_done ends_step ends_done simp: act_def return_step_def)
qed

text \<open>From the work on: the answer is sent when there is one.\<close>

lemma leave_ends:
  assumes "place h = Leave d answer" "on_lock (if exclusive h then Unlock else Unlock_shared) d s = Some s1" "removed h = None"
  shows "ends io mem (h, s) (case answer of None \<Rightarrow> s1 | Some data \<Rightarrow> reply (h_text h @ data) s1)"
proof (rule ends_step)
  show "act io mem h s = Some (h\<lparr>place := if answer = None then Done None else Reply answer\<rparr>, s1)"
    using assms by (simp add: act_def leave_step_def)
  show "ends io mem (h\<lparr>place := if answer = None then Done None else Reply answer\<rparr>, s1)
      (case answer of None \<Rightarrow> s1 | Some data \<Rightarrow> reply (h_text h @ data) s1)"
    by (cases answer) (auto intro!: ends_done ends_step ends_done simp: act_def reply_step_def)
qed

lemma target_ends:
  assumes "place h = Target t" "move_lock (if exclusive h then Lock else Lock_shared) t s = Some s1"
    "work_step io mem (h\<lparr>place := Work (t_inode_block t)\<rparr>) (t_inode_block t) s1 = Some (h2, s2)" "ends io mem (h2, s2) s'"
  shows "ends io mem (h, s) s'"
  by (rule ends_step [of io mem h s "(h\<lparr>place := Work (t_inode_block t)\<rparr>, s1)"])
    (use assms in \<open>auto simp: act_def target_step_def intro!: ends_step\<close>)

section \<open>The four handlers\<close>

definition fresh :: "handler \<Rightarrow> bool" where
  "fresh h \<longleftrightarrow> place h = Begin \<and> new_block h = None \<and> removed h = None"

lemma create_alone:
  assumes h: "fresh h" "operation_of h = Op_create type" and t: "type \<in> {''f'', ''d''}" and w: "next_word req = Some (type, req')"
    and p: "path_parser pathname = Some (h_path h)"
    and msg: "h_text h = ''FS_CREATE '' @ h_user h @ '' '' @ pathname @ '' '' @ type @ [nul]"
    and r: "handle_create io mem req (h_user h) pathname s = Some s'"
  shows "ends io mem (h, s) s'"
proof -
  let ?u = "h_user h" and ?n = "last (h_path h)"
  have tp: "target_path h = butlast (h_path h)" and ex: "exclusive h" by (simp_all add: target_path_def exclusive_def h(2))
  have fr: "free_blocks (lock_free s) = free_blocks s" by (simp add: lock_free_def log_event_def)
  have tno: "(type \<noteq> ''f'' \<and> type \<noteq> ''d'') = False" using t by auto
  note d = r [unfolded handle_create_def w p option.case prod.case tno if_False Let_def fr]
  show ?thesis
  proof (cases "free_blocks s = []")
    case True
    then have "act io mem h s = Some (h\<lparr>place := Done None\<rparr>, s')"
      using h d fr by (simp add: act_def begin_step_def fresh_def)
    then show ?thesis by (rule ends_step [OF _ ends_done]) simp
  next
    case False
    let ?b = "hd (free_blocks s)" and ?s = "unlock_free (pop_free (lock_free s))"
    let ?h = "h\<lparr>place := Enter, new_block := Some ?b\<rparr>"
    have a: "act io mem h s = Some (?h, ?s)" using h False fr by (simp add: act_def begin_step_def fresh_def Let_def)
    from d False obtain t1 s1 where tr: "traverse_dir io ?u (butlast (h_path h)) ?s = Some (t1, s1)"
      by (auto simp: Option.bind_eq_Some_conv)
    have "runs_alone io mem (?h, ?s) (after_traverse ?h t1, s1)" by (rule runs_alone_traverse) (use tr tp in simp_all)
    moreover have "ends io mem (after_traverse ?h t1, s1) s'"
    proof (cases "valid t1")
      case False
      from d \<open>free_blocks s \<noteq> []\<close> tr False obtain s2 where "unlock_shared (parent_inode_block t1) s1 = Some s2"
        "s' = return_empty_block ?b s2" by (auto simp: Option.bind_eq_Some_conv)
      then show ?thesis using failed_ends [of "after_traverse ?h t1" t1 s1 s2 io mem] False by (simp add: after_traverse_def)
    next
      case True
      from d \<open>free_blocks s \<noteq> []\<close> tr True obtain s2 made s3 s4 where st: "move_lock Lock t1 s1 = Some s2"
        "create_in_dir io mem type ?u ?n ?b (t_inode_block t1) s2 = Some (made, s3)"
        "unlock_exclusive (t_inode_block t1) s3 = Some s4" "s' = (if made then reply (h_text h) s4 else s4)"
        by (auto simp: Option.bind_eq_Some_conv msg simp del: append.simps)
      show ?thesis
      proof (rule target_ends)
        show "place (after_traverse ?h t1) = Target t1" using True by (simp add: after_traverse_def)
        show "move_lock (if exclusive (after_traverse ?h t1) then Lock else Lock_shared) t1 s1 = Some s2"
          using st(1) ex by (simp add: after_traverse_def exclusive_def)
        show "work_step io mem (after_traverse ?h t1\<lparr>place := Work (t_inode_block t1)\<rparr>) (t_inode_block t1) s2 =
          Some (h\<lparr>place := Leave (t_inode_block t1) (if made then Some [] else None), new_block := None\<rparr>, s3)"
          using st(2) h by (simp add: work_step_def after_traverse_def)
        show "ends io mem (h\<lparr>place := Leave (t_inode_block t1) (if made then Some [] else None), new_block := None\<rparr>, s3) s'"
          using leave_ends [of "h\<lparr>place := Leave (t_inode_block t1) (if made then Some [] else None), new_block := None\<rparr>" _ _ s3 s4 io mem]
            st(3,4) h ex by (cases made) (simp_all add: fresh_def exclusive_def)
      qed
    qed
    ultimately show ?thesis by (rule ends_step [OF a ends_alone])
  qed
qed

lemma delete_alone:
  assumes h: "fresh h" "operation_of h = Op_delete" and p: "path_parser pathname = Some (h_path h)"
    and msg: "h_text h = ''FS_DELETE '' @ h_user h @ '' '' @ pathname @ [nul]"
    and r: "handle_delete io mem (h_user h) pathname s = Some s'"
  shows "ends io mem (h, s) s'"
proof -
  let ?u = "h_user h" and ?n = "last (h_path h)" and ?h = "h\<lparr>place := Enter\<rparr>"
  have tp: "target_path h = butlast (h_path h)" and ex: "exclusive h" by (simp_all add: target_path_def exclusive_def h(2))
  note d = r [unfolded handle_delete_def p option.case]
  have a: "act io mem h s = Some (?h, s)" using h by (simp add: act_def begin_step_def fresh_def)
  from d obtain t1 s1 where tr: "traverse_dir io ?u (butlast (h_path h)) s = Some (t1, s1)" by (auto simp: Option.bind_eq_Some_conv)
  have "runs_alone io mem (?h, s) (after_traverse ?h t1, s1)" by (rule runs_alone_traverse) (use tr tp in simp_all)
  moreover have "ends io mem (after_traverse ?h t1, s1) s'"
  proof (cases "valid t1")
    case False
    then show ?thesis using failed_ends [of "after_traverse ?h t1" t1 s1 s' io mem] d tr h by (simp add: after_traverse_def fresh_def)
  next
    case True
    from d tr True obtain s2 dl s3 s4 where st: "move_lock Lock t1 s1 = Some s2"
      "delete_in_dir io mem ?u ?n (t_inode_block t1) s2 = Some (dl, s3)" "unlock_exclusive (t_inode_block t1) s3 = Some s4"
      and rest: "(case dl of None \<Rightarrow> Some s4
        | Some (file_inode, block) \<Rightarrow> do {
            s \<leftarrow> push_all (block_list file_inode) (lock_free s4);
            let s = unlock_free (push_free block s);
            Some (reply (''FS_DELETE '' @ h_user h @ '' '' @ pathname @ [nul]) s) }) = Some s'"
      by (auto simp: Option.bind_eq_Some_conv simp del: append.simps)
    let ?l = "h\<lparr>place := Leave (t_inode_block t1) (if dl \<noteq> None then Some [] else None), removed := dl\<rparr>"
    have e: "ends io mem (?l, s3) s'"
    proof (cases dl)
      case None
      then have "s4 = s'" using rest by simp
      then show ?thesis using leave_ends [of ?l "t_inode_block t1" None s3 s4 io mem] st(3) None ex by (simp add: exclusive_def)
    next
      case (Some g)
      then obtain inode b where g: "dl = Some (inode, b)" by (cases g) auto
      with rest obtain s5 where s5: "push_all (block_list inode) (lock_free s4) = Some s5"
        "s' = reply (h_text h) (unlock_free (push_free b s5))" by (auto simp: Option.bind_eq_Some_conv Let_def msg simp del: append.simps)
      have a1: "act io mem ?l s3 = Some (?l\<lparr>place := Freeing\<rparr>, s4)"
        using st(3) ex g by (simp add: act_def leave_step_def exclusive_def)
      have a2: "act io mem (?l\<lparr>place := Freeing\<rparr>) s4 = Some (?l\<lparr>place := Reply (Some []), removed := None\<rparr>, unlock_free (push_free b s5))"
        using s5(1) g by (simp add: act_def freeing_step_def)
      have a3: "act io mem (?l\<lparr>place := Reply (Some []), removed := None\<rparr>) (unlock_free (push_free b s5)) =
          Some (?l\<lparr>place := Done (Some []), removed := None\<rparr>, s')"
        using s5(2) by (simp add: act_def reply_step_def)
      show ?thesis by (rule ends_step [OF a1 ends_step [OF a2 ends_step [OF a3 ends_done]]]) simp
    qed
    show ?thesis
    proof (rule target_ends [OF _ _ _ e])
      show "place (after_traverse ?h t1) = Target t1" using True by (simp add: after_traverse_def)
      show "move_lock (if exclusive (after_traverse ?h t1) then Lock else Lock_shared) t1 s1 = Some s2"
        using st(1) ex by (simp add: after_traverse_def exclusive_def)
      show "work_step io mem (after_traverse ?h t1\<lparr>place := Work (t_inode_block t1)\<rparr>) (t_inode_block t1) s2 = Some (?l, s3)"
        using st(2) h by (simp add: work_step_def after_traverse_def)
    qed
  qed
  ultimately show ?thesis by (rule ends_step [OF a ends_alone])
qed

text \<open>The two handlers of a file differ in the lock and in what they do under it.\<close>

lemma file_alone:
  assumes h: "fresh h" "creates_node h \<longleftrightarrow> False" "target_path h = h_path h"
    and tr: "traverse_dir io (h_user h) (h_path h) s = Some (t1, s1)"
    and failed: "\<not> valid t1 \<Longrightarrow> unlock_shared (parent_inode_block t1) s1 = Some s'"
    and found: "valid t1 \<Longrightarrow> \<exists>s2 a s3 s4. move_lock (if exclusive h then Lock else Lock_shared) t1 s1 = Some s2 \<and>
      work_step io mem (h\<lparr>place := Work (t_inode_block t1)\<rparr>) (t_inode_block t1) s2 = Some (h\<lparr>place := Leave (t_inode_block t1) a\<rparr>, s3) \<and>
      on_lock (if exclusive h then Unlock else Unlock_shared) (t_inode_block t1) s3 = Some s4 \<and>
      s' = (case a of None \<Rightarrow> s4 | Some data \<Rightarrow> reply (h_text h @ data) s4)"
  shows "ends io mem (h, s) s'"
proof -
  let ?h = "h\<lparr>place := Enter\<rparr>"
  have ex: "exclusive (h\<lparr>place := pl\<rparr>) = exclusive h" for pl by (simp add: exclusive_def)
  have a: "act io mem h s = Some (?h, s)"
    using h(1,2) by (simp add: act_def begin_step_def fresh_def creates_node_def split: operation.splits)
  have "runs_alone io mem (?h, s) (after_traverse ?h t1, s1)" by (rule runs_alone_traverse) (use tr h(3) in simp_all)
  moreover have "ends io mem (after_traverse ?h t1, s1) s'"
  proof (cases "valid t1")
    case False
    then show ?thesis using failed_ends [of "after_traverse ?h t1" t1 s1 s' io mem] failed h(1) by (simp add: after_traverse_def fresh_def)
  next
    case True
    from found [OF this] obtain s2 a s3 s4 where st: "move_lock (if exclusive h then Lock else Lock_shared) t1 s1 = Some s2"
      "work_step io mem (h\<lparr>place := Work (t_inode_block t1)\<rparr>) (t_inode_block t1) s2 = Some (h\<lparr>place := Leave (t_inode_block t1) a\<rparr>, s3)"
      "on_lock (if exclusive h then Unlock else Unlock_shared) (t_inode_block t1) s3 = Some s4"
      "s' = (case a of None \<Rightarrow> s4 | Some data \<Rightarrow> reply (h_text h @ data) s4)" by blast
    have "ends io mem (h\<lparr>place := Leave (t_inode_block t1) a\<rparr>, s3) s'"
      using leave_ends [of "h\<lparr>place := Leave (t_inode_block t1) a\<rparr>" "t_inode_block t1" a s3 s4 io mem] st(3,4) h(1)
      by (simp add: ex fresh_def split: option.splits)
    then show ?thesis
      by (rule_tac target_ends [of _ t1 s1 s2]) (use True st(1,2) in \<open>auto simp: after_traverse_def ex\<close>)
  qed
  ultimately show ?thesis by (rule ends_step [OF a ends_alone])
qed

lemma read_alone:
  assumes h: "fresh h" "operation_of h = Op_readblock k" and w: "block_number req = Some (w, k)"
    and p: "path_parser pathname = Some (h_path h)"
    and msg: "h_text h = ''FS_READBLOCK '' @ h_user h @ '' '' @ pathname @ '' '' @ w @ [nul]"
    and r: "handle_readblock io req (h_user h) pathname s = Some s'"
  shows "ends io mem (h, s) s'"
proof -
  have ex: "\<not> exclusive h" and tp: "target_path h = h_path h" and cn: "creates_node h \<longleftrightarrow> False"
    by (simp_all add: exclusive_def target_path_def creates_node_def h(2))
  obtain req' where b: "next_word req = Some (w, req')" "isblock w" "k = digits_val w" "k < FS_MAXFILEBLOCKS"
    using w by (auto simp: block_number_def split: option.splits if_splits)
  note d = r [unfolded handle_readblock_def b(1) p option.case prod.case Let_def]
  from d b obtain t1 s1 where tr: "traverse_dir io (h_user h) (h_path h) s = Some (t1, s1)" by (auto simp: Option.bind_eq_Some_conv)
  show ?thesis
  proof (rule file_alone [OF h(1) cn tp tr])
    show "unlock_shared (parent_inode_block t1) s1 = Some s'" if "\<not> valid t1" using d b tr that by simp
    assume "valid t1"
    with d b tr obtain s2 a s3 s4 where "move_lock Lock_shared t1 s1 = Some s2"
      "read_file io (h_user h) k (t_inode_block t1) s2 = Some (a, s3)" "unlock_shared (t_inode_block t1) s3 = Some s4"
      "s' = (case a of None \<Rightarrow> s4
        | Some data \<Rightarrow> reply (''FS_READBLOCK '' @ h_user h @ '' '' @ pathname @ '' '' @ w @ [nul] @ data) s4)"
      by (auto simp: Option.bind_eq_Some_conv simp del: append.simps)
    then show "\<exists>s2 a s3 s4. move_lock (if exclusive h then Lock else Lock_shared) t1 s1 = Some s2 \<and>
      work_step io mem (h\<lparr>place := Work (t_inode_block t1)\<rparr>) (t_inode_block t1) s2 = Some (h\<lparr>place := Leave (t_inode_block t1) a\<rparr>, s3) \<and>
      on_lock (if exclusive h then Unlock else Unlock_shared) (t_inode_block t1) s3 = Some s4 \<and>
      s' = (case a of None \<Rightarrow> s4 | Some data \<Rightarrow> reply (h_text h @ data) s4)"
      using ex h(2)
      by (rule_tac exI [of _ s2], rule_tac exI [of _ a], rule_tac exI [of _ s3], rule_tac exI [of _ s4])
        (simp add: work_step_def msg del: append.simps split: option.splits)
  qed
qed

lemma write_alone:
  assumes h: "fresh h" "operation_of h = Op_writeblock k data" and w: "block_number req = Some (w, k)"
    and rd: "recv_data [] 0 sock = Some data" and p: "path_parser pathname = Some (h_path h)"
    and msg: "h_text h = ''FS_WRITEBLOCK '' @ h_user h @ '' '' @ pathname @ '' '' @ w @ [nul]"
    and r: "handle_writeblock io mem req (h_user h) pathname sock s = Some s'"
  shows "ends io mem (h, s) s'"
proof -
  have ex: "exclusive h" and tp: "target_path h = h_path h" and cn: "creates_node h \<longleftrightarrow> False"
    by (simp_all add: exclusive_def target_path_def creates_node_def h(2))
  obtain req' where b: "next_word req = Some (w, req')" "isblock w" "k = digits_val w" "k < FS_MAXFILEBLOCKS"
    using w by (auto simp: block_number_def split: option.splits if_splits)
  note d = r [unfolded handle_writeblock_def b(1) p option.case prod.case Let_def]
  from d b rd obtain t1 s1 where tr: "traverse_dir io (h_user h) (h_path h) s = Some (t1, s1)" by (auto simp: Option.bind_eq_Some_conv)
  show ?thesis
  proof (rule file_alone [OF h(1) cn tp tr])
    show "unlock_shared (parent_inode_block t1) s1 = Some s'" if "\<not> valid t1" using d b rd tr that by simp
    assume "valid t1"
    with d b rd tr obtain s2 wr s3 s4 where st: "move_lock Lock t1 s1 = Some s2"
      "write_file io mem (h_user h) k data (t_inode_block t1) s2 = Some (wr, s3)" "unlock_exclusive (t_inode_block t1) s3 = Some s4"
      "s' = (if wr then reply (h_text h) s4 else s4)"
      by (auto simp: Option.bind_eq_Some_conv msg simp del: append.simps)
    show "\<exists>s2 a s3 s4. move_lock (if exclusive h then Lock else Lock_shared) t1 s1 = Some s2 \<and>
      work_step io mem (h\<lparr>place := Work (t_inode_block t1)\<rparr>) (t_inode_block t1) s2 = Some (h\<lparr>place := Leave (t_inode_block t1) a\<rparr>, s3) \<and>
      on_lock (if exclusive h then Unlock else Unlock_shared) (t_inode_block t1) s3 = Some s4 \<and>
      s' = (case a of None \<Rightarrow> s4 | Some data \<Rightarrow> reply (h_text h @ data) s4)"
      using st ex h(2)
      by (rule_tac exI [of _ s2], rule_tac exI [of _ "if wr then Some [] else None"], rule_tac exI [of _ s3], rule_tac exI [of _ s4])
        (simp add: work_step_def)
  qed
qed

section \<open>The whole request\<close>

lemma request_alone:
  assumes c: "plain_call call" "handler_for call = Some h" and sock: "delivers sock (payload call)"
    and d: "dispatch io mem (request call) sock s = Some s'"
  shows "ends io mem (h, s) s'"
proof -
  obtain op names where o: "operation_for call = Some op" "path_parser (snd (user_path call)) = Some names"
    "fit (fst (user_path call)) (snd (user_path call))"
    and h: "h = \<lparr>operation_of = op, h_user = fst (user_path call), h_path = names, h_text = request call @ [nul],
       place = Begin, new_block = None, removed = None\<rparr>" using c(2) by (rule handler_for_cases)
  have f: "fresh h" by (simp add: fresh_def h)
  show ?thesis
  proof (cases call)
    case (Fs_create user pathname type)
    with c(1) have pl: "plain user" "plain pathname" "\<not> is_space type" by simp_all
    have fit: "fit user pathname" using o(3) Fs_create by simp
    note w = fit_words [OF pl(1,2) fit]
    have "handle_create io mem (CHR '' '' # [type]) user pathname s = Some s'"
      using d dispatch_four [OF request_words(1) w(1,2) one_char_word [OF pl(3)] w(3,4), of io mem sock s] Fs_create by simp
    then show ?thesis using o Fs_create
      by (intro create_alone [OF f _ _ next_word_last(1) [OF one_char_word [OF pl(3)]], of pathname]) (auto simp: h split: if_splits)
  next
    case (Fs_delete user pathname)
    with c(1) have pl: "plain user" "plain pathname" by simp_all
    have fit: "fit user pathname" using o(3) Fs_delete by simp
    have "handle_delete io mem user pathname s = Some s'"
      using d dispatch_three [OF fit_words(1-4) [OF pl fit], of io mem sock s] Fs_delete by simp
    then show ?thesis using o Fs_delete by (intro delete_alone [OF f, of pathname]) (auto simp: h)
  next
    case (Fs_readblock user pathname off)
    with c(1) have pl: "plain user" "plain pathname" by simp_all
    have fit: "fit user pathname" using o(3) Fs_readblock by simp
    note w = fit_words [OF pl fit]
    have "handle_readblock io (CHR '' '' # show_nat off) user pathname s = Some s'"
      using d dispatch_four [OF request_words(3) w(1,2) show_nat_word(1) w(3,4), of io mem off sock s] Fs_readblock by simp
    then show ?thesis using o Fs_readblock
      by (intro read_alone [OF f, of off "CHR '' '' # show_nat off" "show_nat off" pathname]) (auto simp: h shown_block split: if_splits)
  next
    case (Fs_writeblock user pathname off buf)
    with c(1) have pl: "plain user" "plain pathname" and lb: "FS_BLOCKSIZE \<le> length buf" by simp_all
    have fit: "fit user pathname" using o(3) Fs_writeblock by simp
    note w = fit_words [OF pl fit]
    have "handle_writeblock io mem (CHR '' '' # show_nat off) user pathname sock s = Some s'"
      using d dispatch_four [OF request_words(4) w(1,2) show_nat_word(1) w(3,4), of io mem off sock s] Fs_writeblock by simp
    moreover have "recv_data [] 0 sock = Some (take FS_BLOCKSIZE buf)"
      using sock lb Fs_writeblock recv_data_delivered by simp
    ultimately show ?thesis using o Fs_writeblock
      by (intro write_alone [OF f, of off "take FS_BLOCKSIZE buf" "CHR '' '' # show_nat off" "show_nat off" sock pathname])
        (auto simp: h shown_block split: if_splits)
  qed
qed

text \<open>A call without a handler comes to nothing.\<close>

lemma refused_request:
  assumes c: "plain_call call" "handler_for call = None" and sock: "delivers sock (payload call)"
  shows "dispatch io mem (request call) sock s = Some s"
proof (cases "fit (fst (user_path call)) (snd (user_path call))")
  case False
  from unfit_call(1) [OF c(1) surjective_pairing False] show ?thesis .
next
  case fit: True
  show ?thesis
  proof (cases call)
    case (Fs_create user pathname type)
    with c(1) fit have pl: "plain user" "plain pathname" "\<not> is_space type" and f: "fit user pathname" by simp_all
    note w = fit_words [OF pl(1,2) f]
    have "path_parser pathname = None \<or> type \<noteq> CHR ''f'' \<and> type \<noteq> CHR ''d''"
      using c(2) f Fs_create by (auto simp: handler_for_def names_of_fit Option.bind_eq_None_conv split: if_splits option.splits)
    then have "handle_create io mem (CHR '' '' # [type]) user pathname s = Some s"
      by (auto simp: handle_create_def next_word_last(1) [OF one_char_word [OF pl(3)]])
    then show ?thesis
      using dispatch_four [OF request_words(1) w(1,2) one_char_word [OF pl(3)] w(3,4), of io mem sock s] Fs_create by simp
  next
    case (Fs_delete user pathname)
    with c(1) fit have pl: "plain user" "plain pathname" and f: "fit user pathname" by simp_all
    have "path_parser pathname = None"
      using c(2) f Fs_delete by (cases "path_parser pathname") (simp_all add: handler_for_def names_of_fit)
    then have "handle_delete io mem user pathname s = Some s" by (simp add: handle_delete_def)
    then show ?thesis using dispatch_three [OF fit_words(1-4) [OF pl f], of io mem sock s] Fs_delete by simp
  next
    case (Fs_readblock user pathname off)
    with c(1) fit have pl: "plain user" "plain pathname" and f: "fit user pathname" by simp_all
    note w = fit_words [OF pl f]
    have "path_parser pathname = None \<or> block_number (CHR '' '' # show_nat off) = None"
      using c(2) f Fs_readblock by (cases "path_parser pathname") (auto simp: handler_for_def names_of_fit shown_block split: if_splits)
    then have "handle_readblock io (CHR '' '' # show_nat off) user pathname s = Some s"
      by (auto simp: handle_readblock_def block_number_def Let_def split: option.splits if_splits)
    then show ?thesis
      using dispatch_four [OF request_words(3) w(1,2) show_nat_word(1) w(3,4), of io mem off sock s] Fs_readblock by simp
  next
    case (Fs_writeblock user pathname off buf)
    with c(1) fit have pl: "plain user" "plain pathname" and f: "fit user pathname" and lb: "FS_BLOCKSIZE \<le> length buf" by simp_all
    note w = fit_words [OF pl f]
    have rd: "recv_data [] 0 sock = Some (take FS_BLOCKSIZE buf)" using sock lb Fs_writeblock recv_data_delivered by simp
    have "path_parser pathname = None \<or> block_number (CHR '' '' # show_nat off) = None"
      using c(2) f Fs_writeblock by (cases "path_parser pathname") (auto simp: handler_for_def names_of_fit shown_block split: if_splits)
    then have "handle_writeblock io mem (CHR '' '' # show_nat off) user pathname sock s = Some s"
      using rd by (auto simp: handle_writeblock_def block_number_def Let_def split: option.splits if_splits)
    then show ?thesis
      using dispatch_four [OF request_words(4) w(1,2) show_nat_word(1) w(3,4), of io mem off sock s] Fs_writeblock by simp
  qed
qed

section \<open>The locks held\<close>

text \<open>The locks that a handler is said to hold are those its accesses to \<open>disk_locks\<close> leave it with.\<close>

lemma act_holds:
  assumes a: "act io mem h s = Some (h', s')" and hs: "holds s (held h)" and ok: "handler_ok c h" and wf: "fs_wf c free"
  shows "holds s' (held h')"
proof -
  have ex: "exclusive h' = exclusive h" using act_keeps(1) [OF a] by (simp add: exclusive_def)
  show ?thesis using a
  proof (cases rule: act_cases)
    case starts
    then show ?thesis using hs
      by (auto simp: begin_step_def held_def Let_def look_at_free_holds take_block_holds split: operation.splits if_splits)
  next
    case enter
    then show ?thesis using hs holds_on_lock [of s "[]" Lock_shared 0 s' "[(0, False)]"]
      by (auto simp: enter_step_def held_def coupled_def default_target_def may_lock_def Let_def Option.bind_eq_Some_conv split: if_splits)
  next
    case (visit t names)
    let ?H = "[(parent_inode_block t, False)]"
    from visit(2) obtain bytes s1 where rd: "read_block io (parent_inode_block t) s = Some (bytes, s1)"
      by (auto simp: visit_step_def Option.bind_eq_Some_conv)
    have s1: "holds s1 ?H" using hs visit(1) by (intro read_block_holds [OF _ _ rd]) (simp_all add: held_def)
    have "(place h' = Failed (t\<lparr>valid := False\<rparr>) \<and> s' = s1) \<or>
        (\<exists>r out. check_existance io t (decode_inode bytes) (hd names) None s1 = Some (r, out, s') \<and>
          (place h' = Failed r \<or> valid r \<and> place h' \<in> {Target r, Next r (tl names)}))"
      using visit(2) rd by (auto simp: visit_step_def Option.bind_eq_Some_conv Let_def split: if_splits)
    then show ?thesis
    proof (elim disjE conjE exE)
      fix r out
      assume ce: "check_existance io t (decode_inode bytes) (hd names) None s1 = Some (r, out, s')"
      have s': "holds s' [(parent_inode_block r, False)]" and nz: "valid r \<Longrightarrow> t_inode_block r \<noteq> 0"
        using check_existance_holds [OF s1 _ ce] by simp_all
      show ?thesis if "place h' = Failed r" using s' that by (simp add: held_def)
      show ?thesis if "valid r" "place h' \<in> {Target r, Next r (tl names)}" using s' nz that by (auto simp: held_def coupled_def)
    qed (use s1 in \<open>simp add: held_def\<close>)
  next
    case (go_on t names)
    have nz: "t_inode_block t \<noteq> 0"
      using ok go_on(1) path_unique [OF wf, of "walked h names" "t_inode_block t" "[]"] by (auto simp: standing onway_def)
    from go_on(2) obtain s1 where st: "lock_shared (t_inode_block t) s = Some s1" "unlock_shared (parent_inode_block t) s1 = Some s'"
      "h' = h\<lparr>place := Visit (t\<lparr>parent_inode_block := t_inode_block t\<rparr>) names\<rparr>"
      by (auto simp: next_step_def Option.bind_eq_Some_conv)
    have "holds s1 [(t_inode_block t, False), (parent_inode_block t, False)]"
      using hs go_on(1) nz by (intro holds_on_lock [OF _ st(1)]) (auto simp: held_def may_lock_def)
    then have "holds s' [(t_inode_block t, False)]" by (rule holds_on_lock [OF _ st(2)]) auto
    with st(3) show ?thesis by (simp add: held_def)
  next
    case (failed t)
    then have "unlock_shared (parent_inode_block t) s = Some s'" and pl: "place h' \<in> {Done None, Return}"
      by (auto simp: fail_step_def Option.bind_eq_Some_conv split: if_splits)
    from unlocked_shared [OF this(1)] hs failed(1) pl show ?thesis by (auto simp: held_def)
  next
    case (target t)
    then have mv: "move_lock (if exclusive h then Lock else Lock_shared) t s = Some s'" and h': "h' = h\<lparr>place := Work (t_inode_block t)\<rparr>"
      by (auto simp: target_step_def Option.bind_eq_Some_conv)
    have "valid t" using ok target(1) by (simp add: standing)
    then have "holds s' [(t_inode_block t, exclusive h)]"
      using hs target(1) by (intro move_lock_holds [OF _ _ mv]) (auto simp: held_def)
    with h' show ?thesis by (simp add: held_def exclusive_def)
  next
    case (work d)
    have H: "holds s [(d, exclusive h)]" using hs work(1) by (simp add: held_def)
    have pl: "held h' = [(d, exclusive h)]" using work(2) ex
      by (auto simp: work_step_def held_def Option.bind_eq_Some_conv split: operation.splits)
    show ?thesis
    proof (cases "operation_of h")
      case (Op_create type)
      then have "exclusive h" by (simp add: exclusive_def)
      with work(2) H Op_create pl show ?thesis
        by (auto simp: work_step_def Option.bind_eq_Some_conv intro: create_in_dir_holds)
    next
      case Op_delete
      then have "exclusive h" by (simp add: exclusive_def)
      with work(2) H Op_delete pl show ?thesis
        by (auto simp: work_step_def Option.bind_eq_Some_conv intro: delete_in_dir_holds)
    next
      case (Op_readblock k)
      with work(2) H pl show ?thesis by (auto simp: work_step_def Option.bind_eq_Some_conv intro: read_file_holds)
    next
      case (Op_writeblock k data)
      then have "exclusive h" by (simp add: exclusive_def)
      with work(2) H Op_writeblock pl show ?thesis
        by (auto simp: work_step_def Option.bind_eq_Some_conv intro: write_file_holds)
    qed
  next
    case (leave d x)
    then have un: "on_lock (if exclusive h then Unlock else Unlock_shared) d s = Some s'"
      and pl: "place h' \<in> {Freeing, Done None, Reply x}"
      by (auto simp: leave_step_def Option.bind_eq_Some_conv split: if_splits)
    have "holds s [(d, exclusive h)]" using hs leave(1) by (simp add: held_def)
    then have "holds s' []" using un unlocked [of d s s'] unlocked_shared [of d s s'] by (cases "exclusive h") auto
    with pl show ?thesis by (auto simp: held_def)
  next
    case freeing
    have H: "holds s []" using hs freeing(1) by (simp add: held_def)
    from freeing(2) obtain inode b s1 where "push_all (block_list inode) (lock_free s) = Some s1" "s' = unlock_free (push_free b s1)"
      "place h' = Reply (Some [])" by (auto simp: freeing_step_def Option.bind_eq_Some_conv)
    with push_all_holds [OF H] show ?thesis by (simp add: held_def)
  next
    case return
    then show ?thesis using hs return_empty_block_holds [of s "[]"] by (auto simp: return_step_def held_def)
  next
    case (reply x)
    then show ?thesis using hs by (auto simp: reply_step_def held_def intro: reply_holds)
  qed
qed

end
