(* ===== verification/FS_Threads_Props.thy ===== *)
theory FS_Threads_Props imports FS_Threads_Alone FS_Runs begin

text \<open>
  The properties of the server with several handlers at once: each handler is the one that \<open>dispatch\<close> runs; together they
  answer as if the requests had been served one after the other; and they always come to an end.
\<close>

section \<open>A handler alone\<close>

text \<open>C15. The steps are those of the handlers of file_server.cpp. A call that the server refuses on sight leaves its state as it
  is, and is one that can only fail. Any other call has a handler that makes its steps alone from the state before \<open>dispatch\<close> to the
  one that \<open>dispatch\<close> computes, with the same accesses to locks, disk and free blocks in the same
  order, whatever the disk holds; and the effect of its request on the files is the function \<open>fs_do\<close> of the call.\<close>
theorem handler_alone:
  assumes "plain_call call" "delivers sock (payload call)" "dispatch io mem (request call) sock s = Some s'"
  shows "case handler_for call of
      None \<Rightarrow> s' = s \<and> (\<forall>V. fs_do call V = None)
    | Some h \<Rightarrow> (\<exists>h' answer. runs_alone io mem (h, s) (h', s') \<and> place h' = Done answer) \<and>
        (\<forall>V. fs_do call V = map_option snd (request_effect h V))"
proof (cases "handler_for call")
  case None
  with refused_request [OF assms(1) None assms(2), of io mem s] assms(3) no_handler [OF None] show ?thesis by simp
next
  case (Some h)
  with request_alone [OF assms(1) Some assms(2,3)] call_effect [OF Some] show ?thesis by (simp add: ends_def)
qed

text \<open>Two calls, the second on what the first makes.\<close>

definition mkdir_d :: fs_call where
  "mkdir_d = Fs_create ''u'' ''/d'' (CHR ''d'')"

definition mkfile_f :: fs_call where
  "mkfile_f = Fs_create ''u'' ''/d/f'' (CHR ''f'')"

definition two_handlers :: "handler list" where
  "two_handlers = [the (handler_for mkdir_d), the (handler_for mkfile_f)]"

lemma sample_calls: "plain_call mkdir_d" "plain_call mkfile_f" "handler_for mkdir_d \<noteq> None" "handler_for mkfile_f \<noteq> None"
  by code_simp+

lemma handler_alone_witness:
  "\<exists>h h' s' answer. handler_for mkdir_d = Some h \<and> runs_alone ram some_junk (h, blank_server) (h', s') \<and> place h' = Done answer \<and>
     fs_do mkdir_d empty_fs = map_option snd (request_effect h empty_fs)"
proof -
  have p: "delivers [] (payload mkdir_d)" by (simp add: delivers_def mkdir_d_def)
  obtain s' where d: "dispatch ram some_junk (request mkdir_d) [] blank_server = Some s'"
    using request_dispatched [OF ram_laws blank_server_ok junk_ok sample_calls(1) p] by blast
  from handler_alone [OF sample_calls(1) p d] sample_calls(3) show ?thesis by (auto split: option.splits)
qed

section \<open>Handlers together\<close>

text \<open>Requests that have been parsed, on a well-formed server.\<close>

definition starting :: "'d disk_io \<Rightarrow> ('d \<Rightarrow> bool) \<Rightarrow> 'd threads \<Rightarrow> bool" where
  "starting io good st \<longleftrightarrow> server_ok io good (fst st) \<and> (\<forall>h \<in> set (snd st). fresh h \<and> taken_up h)"

lemma starting_ok: "starting io good (s, hs) \<Longrightarrow> threads_ok io good (s, hs)"
proof -
  assume st: "starting io good (s, hs)"
  have "all_owned hs = []" using st by (auto simp: starting_def fresh_def all_owned_def owned_def)
  moreover have "held (hs ! i) = []" if "i < length hs" for i
    using st that by (simp add: starting_def fresh_def held_def)
  ultimately show ?thesis using st
    by (auto simp: starting_def threads_ok_def server_ok_def compatible_def fresh_def standing removed_ok_def)
qed

lemma starting_explained: "starting io good (s, hs) \<Longrightarrow> explains hs (files io s) [] hs (files io s)"
  by (simp add: explains_def starting_def fresh_def decided_def)

lemma starting_sent: "starting io good (s, hs) \<Longrightarrow> all_sent hs = {#}"
  unfolding all_sent_def by (induction hs) (auto simp: starting_def fresh_def sent_def)

lemma same_requests: "list_all2 same_request hs hs"
  by (simp add: same_request_def list_all2_conv_all_nth)

lemma starting_run:
  assumes "disk_laws io good" "mem_ok mem" "starting io good (s0, hs0)" "steps_in (thread_step io mem) n (s0, hs0) (s, hs)"
  shows "threads_ok io good (s, hs)" "\<exists>H. explains hs0 (files io s0) H hs (files io s)" "list_all2 same_request hs0 hs"
    "mset (responses s) = mset (responses s0) + all_sent hs"
  using run_explained [OF assms(4,1,2), of hs0 "files io s0" "[]" "mset (responses s0)"] starting_ok [OF assms(3)]
    starting_explained [OF assms(3)] starting_sent [OF assms(3)] same_requests by auto

text \<open>C13. Whatever the interleaving of any number of handlers, they do as if they ran one after the other: at each point of a run
  there is an order of the requests that are decided, in which each of them gives its answer and changes the files as it
  does on a server of its own; and the order of a later point goes on from that of an earlier one. So
  a request that ends before another begins takes effect before it. A request that could be done may be refused
  for want of room only: a creation in a full directory, or when the blocks that the handlers keep and the files take are all there are.
  What has been sent are the answers of the requests that are done, once each.\<close>
theorem handlers_linearizable:
  assumes "disk_laws io good" "mem_ok mem" "starting io good (s0, hs0)"
    and "steps_in (thread_step io mem) m (s0, hs0) (s1, hs1)" "steps_in (thread_step io mem) n (s1, hs1) (s2, hs2)"
  shows "(\<exists>H1 H2. explains hs0 (files io s0) H1 hs1 (files io s1) \<and> explains hs0 (files io s0) (H1 @ H2) hs2 (files io s2)) \<and>
    mset (responses s2) = mset (responses s0) + all_sent hs2"
proof -
  note run = starting_run [OF assms(1-4)]
  then obtain H1 where H1: "explains hs0 (files io s0) H1 hs1 (files io s1)" by blast
  with run_explained [OF assms(5,1,2), of hs0 "files io s0" H1 "mset (responses s0)"] run(1,3,4) show ?thesis by auto
qed

text \<open>C14. Handlers neither wait for each other for ever nor run for ever: a run of handlers has a bounded number of steps; as long
  as one of them is not done, one can go on, and it asks for no lock or for one that nobody holds, so that it gets it however the
  lock prefers readers or writers; and no handler that has its lock brings the server down.\<close>
theorem handlers_finish:
  assumes "disk_laws io good" "mem_ok mem" "starting io good (s0, hs0)" "steps_in (thread_step io mem) n (s0, hs0) (s, hs)"
  shows "n \<le> (\<Sum>h \<leftarrow> hs0. 2 * length (h_path h) + 7) \<and>
    ((\<forall>h \<in> set hs. is_done (place h)) \<or> (\<exists>h \<in> set hs. can_go io s hs h)) \<and>
    (\<forall>i < length hs. \<not> is_done (place (hs ! i)) \<longrightarrow> (\<forall>w. wants io (hs ! i) s = Some w \<longrightarrow> granted hs w) \<longrightarrow>
       act io mem (hs ! i) s \<noteq> None)"
proof (intro conjI)
  note ok = starting_run(1) [OF assms]
  have "rank_of hs0 \<le> (\<Sum>h \<leftarrow> hs0. 2 * length (h_path h) + 7)" unfolding rank_of_def
    using assms(3) by (intro sum_list_mono) (auto simp: starting_def fresh_def target_path_def split: operation.split)
  then show "n \<le> (\<Sum>h \<leftarrow> hs0. 2 * length (h_path h) + 7)"
    using ranked_system.steps_bounded [OF handlers_ranked [OF assms(1,2)] assms(4) starting_ok [OF assms(3)]] by simp
  show "(\<forall>h \<in> set hs. is_done (place h)) \<or> (\<exists>h \<in> set hs. can_go io s hs h)"
    using someone_can_go [OF assms(1) ok] by blast
  show "\<forall>i < length hs. \<not> is_done (place (hs ! i)) \<longrightarrow> (\<forall>w. wants io (hs ! i) s = Some w \<longrightarrow> granted hs w) \<longrightarrow>
       act io mem (hs ! i) s \<noteq> None"
    using goer_steps [OF assms(1,2) ok] by blast
qed

lemma two_handlers_start: "starting ram ram_ok (blank_server, two_handlers)"
proof -
  obtain h1 h2 where h: "handler_for mkdir_d = Some h1" "handler_for mkfile_f = Some h2" using sample_calls(3,4) by auto
  with handler_for_taken_up [OF sample_calls(1) h(1)] handler_for_taken_up [OF sample_calls(2) h(2)] blank_server_ok
  show ?thesis by (simp add: starting_def two_handlers_def fresh_def)
qed

lemma two_handlers_run:
  obtains n s hs where "steps_in (thread_step ram some_junk) n (blank_server, two_handlers) (s, hs)" "\<forall>h \<in> set hs. is_done (place h)"
  using ranked_system.final_reachable [OF handlers_ranked [OF ram_laws junk_ok] starting_ok [OF two_handlers_start]] that by auto

lemma handlers_linearizable_witness:
  "\<exists>n s hs H. steps_in (thread_step ram some_junk) n (blank_server, two_handlers) (s, hs) \<and> (\<forall>h \<in> set hs. is_done (place h)) \<and>
     explains two_handlers (files ram blank_server) H hs (files ram s)"
proof -
  obtain n s hs where r: "steps_in (thread_step ram some_junk) n (blank_server, two_handlers) (s, hs)" "\<forall>h \<in> set hs. is_done (place h)"
    by (rule two_handlers_run)
  from handlers_linearizable [OF ram_laws junk_ok two_handlers_start steps_in.steps_none r(1)] r show ?thesis by blast
qed

lemma handlers_finish_witness:
  "\<exists>n s hs. steps_in (thread_step ram some_junk) n (blank_server, two_handlers) (s, hs) \<and> n \<le> 20 \<and> (\<forall>h \<in> set hs. is_done (place h))"
proof -
  obtain n s hs where r: "steps_in (thread_step ram some_junk) n (blank_server, two_handlers) (s, hs)" "\<forall>h \<in> set hs. is_done (place h)"
    by (rule two_handlers_run)
  have "(\<Sum>h \<leftarrow> two_handlers. 2 * length (h_path h) + 7) = 20" by code_simp
  with handlers_finish [OF ram_laws junk_ok two_handlers_start r(1)] r show ?thesis by auto
qed

end
