(* ===== verification/FS_Socket.thy ===== *)
theory FS_Socket imports FS_Props "HOL-Library.Word" begin

text \<open>
  The file server's socket and its main loop (utils.cpp, file_server.cpp). The calls of the operating system are a parameter with
  their documented results as laws; the host is little endian.
\<close>

unbundle bit_operations_syntax

section \<open>Addresses\<close>

record sockaddr_in =
  sin_family :: int
  s_addr :: "32 word"
  sin_port :: "16 word"

definition htons :: "16 word \<Rightarrow> 16 word" where
  "htons w = push_bit 8 w OR drop_bit 8 w"

definition ntohs :: "16 word \<Rightarrow> 16 word" where
  "ntohs w = push_bit 8 w OR drop_bit 8 w"

definition AF_INET :: int where "AF_INET = 2"

text \<open>\<open>INADDR_ANY\<close> is 0 in any byte order; the port loses all but its low 16 bits.\<close>

definition make_server_sockaddr :: "int \<Rightarrow> int \<times> sockaddr_in" where
  "make_server_sockaddr port = (0, \<lparr>sin_family = AF_INET, s_addr = 0, sin_port = htons (word_of_int port)\<rparr>)"

lemma ntohs_htons: "ntohs (htons w) = w"
  by (rule bit_word_eqI) (auto simp: ntohs_def htons_def bit_or_iff bit_push_bit_iff bit_drop_bit_eq)

section \<open>The operating system\<close>

text \<open>Each call with the descriptor it is given; \<open>accept\<close> also with what the peer of the connection sends.\<close>

record 'n net =
  sys_socket :: "'n \<Rightarrow> int \<times> 'n"
  sys_reuseaddr :: "int \<Rightarrow> 'n \<Rightarrow> int \<times> 'n"
  sys_bind :: "int \<Rightarrow> sockaddr_in \<Rightarrow> 'n \<Rightarrow> int \<times> 'n"
  sys_getsockname :: "int \<Rightarrow> 'n \<Rightarrow> (int \<times> sockaddr_in) \<times> 'n"
  sys_listen :: "int \<Rightarrow> int \<Rightarrow> 'n \<Rightarrow> int \<times> 'n"
  sys_accept :: "int \<Rightarrow> 'n \<Rightarrow> (int \<times> socket) \<times> 'n"

section \<open>Set-up\<close>

definition get_port_number :: "'n net \<Rightarrow> int \<Rightarrow> 'n \<Rightarrow> int \<times> 'n" where
  "get_port_number net sockfd n = (let ((r, addr), n) = sys_getsockname net sockfd n in
     (if r = - 1 then - 1 else uint (ntohs (sin_port addr)), n))"

text \<open>The result, the new value of \<open>port\<close> and the network.\<close>

definition setup_socket :: "'n net \<Rightarrow> int \<Rightarrow> int \<Rightarrow> 'n \<Rightarrow> int \<times> int \<times> 'n" where
  "setup_socket net port queue_size n = (let (sockfd, n) = sys_socket net n in
     if sockfd = - 1 then (- 1, port, n)
     else let (r, n) = sys_reuseaddr net sockfd n in
       if r = - 1 then (- 1, port, n)
       else let (r, addr) = make_server_sockaddr port in
         if r = - 1 then (- 1, port, n)
         else let (r, n) = sys_bind net sockfd addr n in
           if r = - 1 then (- 1, port, n)
           else let (port, n) = get_port_number net sockfd n; (r, n) = sys_listen net sockfd queue_size n in
             if r = - 1 then (- 1, port, n) else (sockfd, port, n))"

definition max_queue_size :: int where "max_queue_size = 30"

text \<open>\<open>init_server\<close> with its socket, and the number it prints.\<close>

record listener =
  fs_sockfd :: int
  fs_port :: int
  printed :: nat

definition start_server :: "'d disk_io \<Rightarrow> 'n net \<Rightarrow> int \<Rightarrow> 'd \<Rightarrow> 'n \<Rightarrow> ('d server \<times> listener \<times> 'n) option" where
  "start_server io net p d n = (case init_server io d of None \<Rightarrow> None
     | Some s \<Rightarrow> (let (fd, p, n) = setup_socket net p max_queue_size n in
         Some (s, \<lparr>fs_sockfd = fd, fs_port = p, printed = unat (word_of_int p :: 32 word)\<rparr>, n)))"

text \<open>The loop of \<open>main\<close>, so many times; a connection is handled before the next one is accepted.\<close>

fun main_loop :: "'d disk_io \<Rightarrow> junk \<Rightarrow> 'n net \<Rightarrow> int \<Rightarrow> nat \<Rightarrow> 'd server \<Rightarrow> 'n \<Rightarrow> ('d server \<times> 'n) option" where
  "main_loop io mem net fd 0 s n = Some (s, n)"
| "main_loop io mem net fd (Suc k) s n = (let ((connectionfd, sock), n) = sys_accept net fd n in
     if connectionfd = - 1 then main_loop io mem net fd k s n
     else case handle_requests io mem sock s of None \<Rightarrow> None | Some s \<Rightarrow> main_loop io mem net fd k s n)"

section \<open>What the calls promise\<close>

text \<open>\<open>bound n fd\<close> is the port of a socket, \<open>listens n fd\<close> that connections to it can be accepted.\<close>

definition net_laws :: "'n net \<Rightarrow> ('n \<Rightarrow> int \<Rightarrow> nat option) \<Rightarrow> ('n \<Rightarrow> int \<Rightarrow> bool) \<Rightarrow> bool" where
  "net_laws net bound listens \<longleftrightarrow>
     (\<forall>n fd n'. sys_socket net n = (fd, n') \<longrightarrow> fd = - 1 \<or> 0 \<le> fd) \<and>
     (\<forall>n fd a r n'. sys_bind net fd a n = (r, n') \<longrightarrow> r = - 1 \<or> r = 0 \<and> (\<exists>p. bound n' fd = Some p \<and> 0 < p \<and> p < 2 ^ 16 \<and>
        (ntohs (sin_port a) \<noteq> 0 \<longrightarrow> p = unat (ntohs (sin_port a))))) \<and>
     (\<forall>n fd r a n'. sys_getsockname net fd n = ((r, a), n') \<longrightarrow> bound n' = bound n \<and>
        (r = - 1 \<or> r = 0 \<and> (\<forall>p. bound n fd = Some p \<longrightarrow> unat (ntohs (sin_port a)) = p))) \<and>
     (\<forall>n fd q r n'. sys_listen net fd q n = (r, n') \<longrightarrow> bound n' = bound n \<and> (r = - 1 \<or> r = 0 \<and> listens n' fd)) \<and>
     (\<forall>n fd r x n'. sys_accept net fd n = ((r, x), n') \<longrightarrow> \<not> (0 \<le> fd \<and> listens n fd) \<longrightarrow> r = - 1)"

lemma net_lawsD:
  assumes "net_laws net bound listens"
  shows "sys_socket net n = (fd, n') \<Longrightarrow> fd \<noteq> - 1 \<Longrightarrow> 0 \<le> fd"
    "sys_bind net fd a n = (r, n') \<Longrightarrow> r \<noteq> - 1 \<Longrightarrow> \<exists>p. bound n' fd = Some p \<and> 0 < p \<and> p < 2 ^ 16 \<and>
       (ntohs (sin_port a) \<noteq> 0 \<longrightarrow> p = unat (ntohs (sin_port a)))"
    "sys_getsockname net fd n = ((r, a), n') \<Longrightarrow> bound n' = bound n"
    "sys_getsockname net fd n = ((r, a), n') \<Longrightarrow> r \<noteq> - 1 \<Longrightarrow> bound n fd = Some p \<Longrightarrow> unat (ntohs (sin_port a)) = p"
    "sys_listen net fd q n = (r, n') \<Longrightarrow> bound n' = bound n"
    "sys_listen net fd q n = (r, n') \<Longrightarrow> r \<noteq> - 1 \<Longrightarrow> listens n' fd"
    "sys_accept net fd n = ((r, x), n') \<Longrightarrow> \<not> (0 \<le> fd \<and> listens n fd) \<Longrightarrow> r = - 1"
  using assms unfolding net_laws_def by (simp; fail | (elim conjE, metis))+

lemma setup_socket_calls:
  assumes "setup_socket net port q n = (fd, port', n')" "fd \<noteq> - 1"
  obtains n1 r2 n2 r3 n3 n4 r5 where "sys_socket net n = (fd, n1)" "sys_reuseaddr net fd n1 = (r2, n2)"
    "sys_bind net fd (snd (make_server_sockaddr port)) n2 = (r3, n3)" "r3 \<noteq> - 1"
    "get_port_number net fd n3 = (port', n4)" "sys_listen net fd q n4 = (r5, n')" "r5 \<noteq> - 1"
  using assms unfolding setup_socket_def by (auto simp: Let_def split: prod.splits if_splits)

lemma low_bits_of_port:
  "ntohs (sin_port (snd (make_server_sockaddr port))) = word_of_int port"
  "unat (word_of_int port :: 16 word) = nat (port mod 2 ^ 16)"
  by (simp_all add: make_server_sockaddr_def ntohs_htons unat_eq_nat_uint uint_word_of_int)

lemma setup_socket_listens:
  assumes laws: "net_laws net bound listens" and r: "setup_socket net port q n = (fd, port', n')" "fd \<noteq> - 1"
  shows "0 \<le> fd \<and> listens n' fd \<and> (\<exists>p. bound n' fd = Some p \<and> 0 < p \<and> p < 2 ^ 16 \<and> port' \<in> {int p, - 1} \<and>
    (port mod 2 ^ 16 \<noteq> 0 \<longrightarrow> int p = port mod 2 ^ 16))"
proof (rule setup_socket_calls [OF r])
  fix n1 r2 n2 r3 n3 n4 r5
  assume "sys_socket net n = (fd, n1)"
  then have fd: "0 \<le> fd" using net_lawsD(1) [OF laws] r(2) by blast
  assume b: "sys_bind net fd (snd (make_server_sockaddr port)) n2 = (r3, n3)" "r3 \<noteq> - 1"
  then obtain p where p: "bound n3 fd = Some p" "0 < p" "p < 2 ^ 16"
    "ntohs (sin_port (snd (make_server_sockaddr port))) \<noteq> 0 \<longrightarrow>
     p = unat (ntohs (sin_port (snd (make_server_sockaddr port))))"
    using net_lawsD(2) [OF laws] by blast
  have low: "int p = port mod 2 ^ 16" if "port mod 2 ^ 16 \<noteq> 0"
  proof -
    have "(word_of_int port :: 16 word) \<noteq> 0"
    proof
      assume "(word_of_int port :: 16 word) = 0"
      then have "unat (word_of_int port :: 16 word) = 0" by simp
      with that show False unfolding low_bits_of_port(2) by simp
    qed
    with p(4) show ?thesis unfolding low_bits_of_port by simp
  qed
  assume g: "get_port_number net fd n3 = (port', n4)"
  then obtain r4 a where a: "sys_getsockname net fd n3 = ((r4, a), n4)" "port' = (if r4 = - 1 then - 1 else uint (ntohs (sin_port a)))"
    by (auto simp: get_port_number_def Let_def split: prod.splits)
  then have n4: "bound n4 = bound n3" "r4 = - 1 \<or> unat (ntohs (sin_port a)) = p"
    using net_lawsD(3,4) [OF laws] p(1) by blast+
  assume l: "sys_listen net fd q n4 = (r5, n')" "r5 \<noteq> - 1"
  then have n': "bound n' = bound n4" "listens n' fd" using net_lawsD(5,6) [OF laws] by blast+
  have "r4 = - 1 \<or> uint (ntohs (sin_port a)) = int p" using n4(2) by (metis of_nat_unat)
  then have "port' \<in> {int p, - 1}" using a(2) by auto
  moreover have "bound n' fd = Some p" using p(1) n4(1) n'(1) by simp
  ultimately show ?thesis using fd n'(2) low p(2,3) by (intro conjI exI [of _ p]) simp_all
qed

text \<open>Without a socket nobody is served, and the loop goes on.\<close>

lemma no_socket_no_service:
  assumes laws: "net_laws net bound listens" and fd: "fd < 0"
  shows "\<exists>n'. main_loop io mem net fd k s n = Some (s, n')"
proof (induction k arbitrary: n)
  case (Suc k)
  obtain r x n1 where a: "sys_accept net fd n = ((r, x), n1)" by (metis prod.exhaust)
  then have "r = - 1" by (rule net_lawsD(7) [OF laws]) (use fd in simp)
  with a Suc [of n1] show ?case by simp
qed simp

section \<open>The start\<close>

text \<open>C23. The start of the server, with any outcome of the calls of the operating system. When it has a socket, the socket listens on a
  port between 1 and 65535, the low 16 bits of the number asked for where these are not 0, and \<open>port\<close> is that
  port, or -1 when it could not be asked back. When it has none nothing is reported: the loop of \<open>main\<close> goes on for
  ever, and no connection is served.\<close>
theorem server_start:
  assumes "net_laws net bound listens" "start_server io net port d n = Some (s, l, n')"
  shows "(fs_sockfd l \<noteq> - 1 \<longrightarrow> listens n' (fs_sockfd l) \<and> (\<exists>p. bound n' (fs_sockfd l) = Some p \<and> 0 < p \<and> p < 2 ^ 16 \<and>
      fs_port l \<in> {int p, - 1} \<and> (port mod 2 ^ 16 \<noteq> 0 \<longrightarrow> int p = port mod 2 ^ 16))) \<and>
    (fs_sockfd l = - 1 \<longrightarrow> (\<forall>k. \<exists>n''. main_loop io mem net (fs_sockfd l) k s n' = Some (s, n'')))"
proof -
  obtain fd p where r: "setup_socket net port max_queue_size n = (fd, p, n')" "fs_sockfd l = fd" "fs_port l = p"
    using assms(2) by (auto simp: start_server_def Let_def split: option.splits prod.splits)
  show ?thesis
    using setup_socket_listens [OF assms(1) r(1)] no_socket_no_service [OF assms(1), of "- 1" io mem _ s n'] unfolding r(2,3) by auto
qed

text \<open>A network on which every call succeeds but \<open>bind\<close>, which fails for port 80.\<close>

definition small_net :: "(int \<rightharpoonup> 16 word \<times> bool) net" where
  "small_net = \<lparr>sys_socket = (\<lambda>n. (3, n)), sys_reuseaddr = (\<lambda>fd n. (0, n)),
     sys_bind = (\<lambda>fd a n. let p = ntohs (sin_port a) in
       if p = 80 then (- 1, n) else (0, n(fd \<mapsto> (if p = 0 then 5000 else p, False)))),
     sys_getsockname = (\<lambda>fd n. case n fd of None \<Rightarrow> ((- 1, snd (make_server_sockaddr 0)), n)
       | Some (p, b) \<Rightarrow> ((0, snd (make_server_sockaddr (uint p))), n)),
     sys_listen = (\<lambda>fd q n. case n fd of None \<Rightarrow> (- 1, n) | Some (p, b) \<Rightarrow> (0, n(fd \<mapsto> (p, True)))),
     sys_accept = (\<lambda>fd n. ((- 1, []), n))\<rparr>"

definition small_bound :: "(int \<rightharpoonup> 16 word \<times> bool) \<Rightarrow> int \<Rightarrow> nat option" where
  "small_bound n fd = map_option (unat \<circ> fst) (n fd)"

definition small_listens :: "(int \<rightharpoonup> 16 word \<times> bool) \<Rightarrow> int \<Rightarrow> bool" where
  "small_listens n fd \<longleftrightarrow> (\<exists>p. n fd = Some (p, True))"

lemma port_range: "w \<noteq> 0 \<Longrightarrow> 0 < unat w" "unat w < 2 ^ 16" for w :: "16 word"
  using unsigned_less [of w] by (simp_all add: unat_gt_0)

lemma small_bound_simps: "small_bound (n(fd \<mapsto> x)) = (small_bound n)(fd \<mapsto> unat (fst x))"
  "n fd = Some x \<Longrightarrow> small_bound n fd = Some (unat (fst x))"
  "small_listens (n(fd \<mapsto> (w, True))) fd"
  by (auto simp: small_bound_def small_listens_def)

lemma small_net_laws: "net_laws small_net small_bound small_listens"
proof -
  have "(5000 :: 16 word) \<noteq> 0" by simp
  note r = port_range(1) [OF this] port_range(2) [of "5000 :: 16 word"]
  show ?thesis
    unfolding net_laws_def
    using r port_range
    by (auto simp: small_net_def small_bound_simps low_bits_of_port Let_def fun_upd_idem split: if_splits option.splits)
qed

lemma server_start_witness:
  "(\<exists>s l n'. start_server ram small_net 70000 blank_disk Map.empty = Some (s, l, n') \<and> small_bound n' (fs_sockfd l) = Some 4464) \<and>
   (\<exists>s l n'. start_server ram small_net 80 blank_disk Map.empty = Some (s, l, n') \<and>
      (\<forall>k. \<exists>n''. main_loop ram some_junk small_net (fs_sockfd l) k s n' = Some (s, n'')))"
proof
  obtain free where "init_free_blocks ram blank_disk = Some free"
    using init_free_blocks_spec [OF ram_laws blank_ok blank_wf] by blast
  then obtain s where i: "init_server ram blank_disk = Some s" by (simp add: init_server_def)
  obtain n' p where "setup_socket small_net 70000 max_queue_size Map.empty = (3, p, n')"
    by (simp add: setup_socket_def small_net_def get_port_number_def Let_def low_bits_of_port make_server_sockaddr_def ntohs_htons)
  then obtain l where l: "start_server ram small_net 70000 blank_disk Map.empty = Some (s, l, n')" "fs_sockfd l = 3"
    by (simp add: start_server_def i)
  with server_start [OF small_net_laws l(1)]
  show "\<exists>s l n'. start_server ram small_net 70000 blank_disk Map.empty = Some (s, l, n') \<and> small_bound n' (fs_sockfd l) = Some 4464"
    by (intro exI [of _ s] exI [of _ l] exI [of _ n']) auto
  obtain n' p where "setup_socket small_net 80 max_queue_size Map.empty = (- 1, p, n')"
    by (simp add: setup_socket_def small_net_def get_port_number_def Let_def low_bits_of_port make_server_sockaddr_def ntohs_htons)
  then obtain l where k: "start_server ram small_net 80 blank_disk Map.empty = Some (s, l, n')" "fs_sockfd l = - 1"
    by (simp add: start_server_def i)
  with server_start [OF small_net_laws k(1)]
  show "\<exists>s l n'. start_server ram small_net 80 blank_disk Map.empty = Some (s, l, n') \<and>
      (\<forall>k. \<exists>n''. main_loop ram some_junk small_net (fs_sockfd l) k s n' = Some (s, n''))"
    by (intro exI [of _ s] exI [of _ l] exI [of _ n']) auto
qed

end
