(* ===== verification/Pager.thy ===== *)
theory Pager imports Prelude Text_Input "HOL-Library.Monad_Syntax" "HOL-Library.Word" begin

text \<open>
  Project3/my_vm_pager.cpp, my_utils.h and my_utils.cpp: the external pager. The globals are a state;
  page tables, virtual pages and page table entries are objects at addresses, since the code reaches
  them through several pointers. Physical memory and the calls that read and write files belong to the
  infrastructure: the memory is part of the state, the calls are a parameter. An operation returns
  \<open>None\<close> when the pager crashes: a null table, an empty queue, an access outside a vector. Objects are
  not taken away from the heap when the code deletes them; that no deleted one is reached is proved.
\<close>

section \<open>Constants and data\<close>

definition VM_PAGESIZE :: nat where "VM_PAGESIZE = 65536"
definition VM_ARENA_BASEADDR :: "64 word" where "VM_ARENA_BASEADDR = 0x600000000"
definition VM_ARENA_SIZE :: nat where "VM_ARENA_SIZE = 0x01000000"
definition MAX_PAGE_NUM :: nat where "MAX_PAGE_NUM = VM_ARENA_SIZE div VM_PAGESIZE"

record file_id =
  filename :: string
  block :: nat
  swap_backed :: bool

text \<open>\<open>operator<\<close>, by which the maps are ordered.\<close>

fun string_less :: "string \<Rightarrow> string \<Rightarrow> bool" where
  "string_less s [] \<longleftrightarrow> False"
| "string_less [] (c # cs) \<longleftrightarrow> True"
| "string_less (b # bs) (c # cs) \<longleftrightarrow> (of_char b :: nat) < of_char c \<or> b = c \<and> string_less bs cs"

definition file_id_less :: "file_id \<Rightarrow> file_id \<Rightarrow> bool" where
  "file_id_less x y =
     (if swap_backed x \<and> swap_backed y then block x < block y
      else if \<not> swap_backed x \<and> \<not> swap_backed y then
        (if filename x \<noteq> filename y then string_less (filename x) (filename y) else block x < block y)
      else if swap_backed x \<and> \<not> swap_backed y then False
      else True)"

record pte =
  ppage :: nat
  read_enable :: bool
  write_enable :: bool

text \<open>The field for the physical page has 20 bits.\<close>

definition mk_pte :: "nat \<Rightarrow> bool \<Rightarrow> bool \<Rightarrow> pte" where
  "mk_pte p r w = \<lparr>ppage = p mod 2 ^ 20, read_enable = r, write_enable = w\<rparr>"

text \<open>A page table's array of entries is known by its address; an entry by the array and its index.\<close>

record virtual_page =
  v_entry :: "nat \<times> nat"
  v_id :: file_id

record page_table =
  ptbr :: nat
  vps :: "nat list"
  cnt :: nat
  occupied_swap_blocks :: nat

record physical_page =
  dirty :: bool
  referenced :: bool
  p_id :: file_id

type_synonym page = "nat \<Rightarrow> char"

text \<open>The two file calls, on a state \<open>'f\<close> of the files. A read may fail (\<open>None\<close>). \<open>file_write\<close>'s result, which the code
  ignores, is not there, and whether a block can be read changes only by a write.\<close>

record 'f file_io =
  file_read :: "'f \<Rightarrow> string option \<Rightarrow> nat \<Rightarrow> page option"
  file_write :: "'f \<Rightarrow> string option \<Rightarrow> nat \<Rightarrow> page \<Rightarrow> 'f"

record 'f pager =
  physical_table :: "nat \<Rightarrow> physical_page"
  available_physical_pages :: "nat list"
  clock_queue :: "nat list"
  peer_in_phys :: "file_id \<Rightarrow> nat option"
  peer_map :: "file_id \<Rightarrow> nat list"
  tables :: "int \<Rightarrow> nat option"
  cur_table :: "nat option"
  available_swap_blocks :: "nat list"
  num_memory_pages :: nat
  num_swap_blocks :: nat
  cur_pid :: int
  page_table_base_register :: nat
  physmem :: "nat \<Rightarrow> page"
  files :: 'f
  the_table :: "nat \<Rightarrow> page_table"
  the_page :: "nat \<Rightarrow> virtual_page"
  the_pte :: "nat \<times> nat \<Rightarrow> pte"
  next_address :: nat

section \<open>Access\<close>

definition id_of :: "'f pager \<Rightarrow> nat \<Rightarrow> file_id" where
  "id_of s v = v_id (the_page s v)"

definition entry_of :: "'f pager \<Rightarrow> nat \<Rightarrow> pte" where
  "entry_of s v = the_pte s (v_entry (the_page s v))"

definition set_entry :: "nat \<Rightarrow> pte \<Rightarrow> 'f pager \<Rightarrow> 'f pager" where
  "set_entry v e s = s\<lparr>the_pte := (the_pte s)(v_entry (the_page s v) := e)\<rparr>"

definition check_residence :: "'f pager \<Rightarrow> nat \<Rightarrow> bool" where
  "check_residence s v \<longleftrightarrow> peer_in_phys s (id_of s v) \<noteq> None"

definition set_physical :: "nat \<Rightarrow> (physical_page \<Rightarrow> physical_page) \<Rightarrow> 'f pager \<Rightarrow> 'f pager" where
  "set_physical p f s = s\<lparr>physical_table := (physical_table s)(p := f (physical_table s p))\<rparr>"

text \<open>\<open>ppage * VM_PAGESIZE\<close> is a product of 32 bits: the page it is the first byte of.\<close>

definition frame :: "nat \<Rightarrow> nat" where
  "frame p = (p * VM_PAGESIZE) mod 2 ^ 32 div VM_PAGESIZE"

definition read_byte :: "'f pager \<Rightarrow> nat \<Rightarrow> nat \<Rightarrow> char" where
  "read_byte s p offset = (let n = (p * VM_PAGESIZE + offset) mod 2 ^ 32 in
     physmem s (n div VM_PAGESIZE) (n mod VM_PAGESIZE))"

text \<open>The page number and the offset of an address, as unsigned 32-bit integers.\<close>

definition vpn_of :: "64 word \<Rightarrow> nat" where
  "vpn_of addr = unat (ucast (drop_bit 16 (addr - VM_ARENA_BASEADDR)) :: 32 word)"

definition offset_of :: "64 word \<Rightarrow> nat" where
  "offset_of addr = unat (ucast ((addr - VM_ARENA_BASEADDR) -
     ucast (push_bit 16 (ucast (drop_bit 16 (addr - VM_ARENA_BASEADDR)) :: 32 word))) :: 32 word)"

text \<open>The name that the file calls are given: none for the swap file.\<close>

definition file_of :: "file_id \<Rightarrow> string option" where
  "file_of i = (if swap_backed i then None else Some (c_string (filename i)))"

section \<open>my_utils.cpp\<close>

text \<open>The loop over the victims, and the page that is written back when it is dirty.\<close>

fun revoke :: "nat list \<Rightarrow> 'f pager \<Rightarrow> 'f pager" where
  "revoke [] s = s"
| "revoke (v # vs) s = revoke vs (set_entry v ((entry_of s v)\<lparr>read_enable := False, write_enable := False\<rparr>) s)"

definition write_back :: "'f file_io \<Rightarrow> nat \<Rightarrow> 'f pager \<Rightarrow> 'f pager" where
  "write_back io p s = (let i = p_id (physical_table s p) in
     if dirty (physical_table s p)
     then s\<lparr>files := file_write io (files s) (file_of i) (block i) (physmem s (frame p))\<rparr> else s)"

definition evict :: "'f file_io \<Rightarrow> nat \<Rightarrow> 'f pager \<Rightarrow> 'f pager" where
  "evict io p s = (let i = p_id (physical_table s p); s = write_back io p s in
     (set_physical p (\<lambda>x. x\<lparr>dirty := False\<rparr>) s)
       \<lparr>peer_in_phys := (peer_in_phys s)(i := None),
        available_physical_pages := available_physical_pages s @ [p]\<rparr>)"

partial_function (option) get_free_physical_page :: "'f file_io \<Rightarrow> 'f pager \<Rightarrow> 'f pager option" where
  "get_free_physical_page io s =
     (if available_physical_pages s \<noteq> [] then Some s
      else case clock_queue s of
        [] \<Rightarrow> None
      | p # queue \<Rightarrow>
          if \<not> p < num_memory_pages s then None
          else if \<not> referenced (physical_table s p) then Some (evict io p (s\<lparr>clock_queue := queue\<rparr>))
          else get_free_physical_page io
            ((set_physical p (\<lambda>x. x\<lparr>referenced := False\<rparr>)
               (revoke (peer_map s (p_id (physical_table s p))) s))\<lparr>clock_queue := queue @ [p]\<rparr>))"

declare get_free_physical_page.simps [code]

text \<open>
  The Boolean: the page could be set up. The result of reading the swap file is ignored; a call that
  fails is taken to leave the buffer as it was.
\<close>

definition set_physical_page :: "'f file_io \<Rightarrow> nat \<Rightarrow> 'f pager \<Rightarrow> (bool \<times> 'f pager) option" where
  "set_physical_page io v s = (case available_physical_pages s of
      [] \<Rightarrow> None
    | p # free \<Rightarrow>
        let i = id_of s v;
            data = (if check_residence s v then Some (physmem s (frame (ppage (entry_of s v))))
                    else case file_read io (files s) (file_of i) (block i) of
                        None \<Rightarrow> if swap_backed i then Some (physmem s (frame p)) else None
                      | Some x \<Rightarrow> Some x)
        in (case data of
            None \<Rightarrow> Some (False, s)
          | Some x \<Rightarrow>
              if \<not> p < num_memory_pages s then None
              else Some (True, set_entry v ((entry_of s v)\<lparr>ppage := p mod 2 ^ 20\<rparr>)
                ((set_physical p (\<lambda>x. x\<lparr>p_id := i\<rparr>) s)
                   \<lparr>physmem := (physmem s)(frame p := x), available_physical_pages := free,
                    clock_queue := clock_queue s @ [p], peer_in_phys := (peer_in_phys s)(i := Some p)\<rparr>))))"

fun set_peer :: "nat list \<Rightarrow> nat \<Rightarrow> 'f pager \<Rightarrow> 'f pager" where
  "set_peer [] cur s = s"
| "set_peer (v # vs) cur s =
     set_peer vs cur (set_entry v (mk_pte (ppage (entry_of s cur)) True (write_enable (entry_of s cur))) s)"

section \<open>my_vm_pager.cpp\<close>

text \<open>The globals before \<open>vm_init\<close>, with the memory and the files as they are found.\<close>

definition initial :: "(nat \<Rightarrow> page) \<Rightarrow> 'f \<Rightarrow> 'f pager" where
  "initial mem fs = \<lparr>
     physical_table = (\<lambda>_. \<lparr>dirty = False, referenced = False, p_id = \<lparr>filename = [], block = 0, swap_backed = True\<rparr>\<rparr>),
     available_physical_pages = [], clock_queue = [], peer_in_phys = (\<lambda>_. None), peer_map = (\<lambda>_. []),
     tables = (\<lambda>_. None), cur_table = None, available_swap_blocks = [], num_memory_pages = 0, num_swap_blocks = 0,
     cur_pid = - 1, page_table_base_register = 0, physmem = mem, files = fs,
     the_table = (\<lambda>_. \<lparr>ptbr = 0, vps = [], cnt = 0, occupied_swap_blocks = 0\<rparr>),
     the_page = (\<lambda>_. \<lparr>v_entry = (0, 0), v_id = \<lparr>filename = [], block = 0, swap_backed = True\<rparr>\<rparr>),
     the_pte = (\<lambda>_. \<lparr>ppage = 0, read_enable = False, write_enable = False\<rparr>), next_address = 1\<rparr>"

definition vm_init :: "nat \<Rightarrow> nat \<Rightarrow> 'f pager \<Rightarrow> 'f pager" where
  "vm_init memory_pages swap_blocks s = s\<lparr>num_memory_pages := memory_pages, num_swap_blocks := swap_blocks,
     physmem := (physmem s)(0 := (\<lambda>_. nul)),
     available_physical_pages := available_physical_pages s @ [1..<memory_pages],
     available_swap_blocks := available_swap_blocks s @ [0..<swap_blocks]\<rparr>"

text \<open>A new table: the bits of its 256 entries are reset, their physical pages are not initialised.\<close>

definition new_table :: "'f pager \<Rightarrow> nat \<times> 'f pager" where
  "new_table s = (let a = next_address s in
     (a, s\<lparr>the_table := (the_table s)(a := \<lparr>ptbr = a, vps = [], cnt = 0, occupied_swap_blocks = 0\<rparr>),
           the_pte := (\<lambda>(b, i). if b = a \<and> i < MAX_PAGE_NUM
              then (the_pte s (b, i))\<lparr>read_enable := False, write_enable := False\<rparr> else the_pte s (b, i)),
           next_address := a + 1\<rparr>))"

definition vm_create :: "int \<Rightarrow> int \<Rightarrow> 'f pager \<Rightarrow> int \<times> 'f pager" where
  "vm_create parent_pid child_pid s =
     (let reserved = (case tables s parent_pid of None \<Rightarrow> 0 | Some a \<Rightarrow> occupied_swap_blocks (the_table s a)) in
      if reserved > num_swap_blocks s then (- 1, s)
      else
        let (a, s) = new_table (s\<lparr>num_swap_blocks := num_swap_blocks s - reserved\<rparr>)
        in (0, s\<lparr>tables := (tables s)(child_pid := Some a)\<rparr>))"

definition vm_switch :: "int \<Rightarrow> 'f pager \<Rightarrow> 'f pager option" where
  "vm_switch pid s =
     (if cur_pid s \<noteq> pid then
        (case tables s pid of
           None \<Rightarrow> None
         | Some a \<Rightarrow> Some (s\<lparr>cur_table := Some a, page_table_base_register := ptbr (the_table s a), cur_pid := pid\<rparr>))
      else Some s)"

text \<open>What a fault does before the page is in memory, and after.\<close>

definition bring_in :: "'f file_io \<Rightarrow> nat \<Rightarrow> 'f pager \<Rightarrow> (bool \<times> 'f pager) option" where
  "bring_in io v s = do { s \<leftarrow> get_free_physical_page io s; set_physical_page io v s }"

definition write_access :: "nat \<Rightarrow> 'f pager \<Rightarrow> 'f pager" where
  "write_access v s = set_entry v ((entry_of s v)\<lparr>write_enable := True\<rparr>)
     (set_physical (ppage (entry_of s v)) (\<lambda>x. x\<lparr>dirty := True\<rparr>) s)"

definition allow :: "nat \<Rightarrow> 'f pager \<Rightarrow> 'f pager" where
  "allow v s =
     (let s = set_physical (ppage (entry_of s v)) (\<lambda>x. x\<lparr>referenced := True\<rparr>)
        (set_entry v ((entry_of s v)\<lparr>read_enable := True\<rparr>) s)
      in set_peer (peer_map s (id_of s v)) v s)"

definition vm_fault :: "'f file_io \<Rightarrow> 64 word \<Rightarrow> bool \<Rightarrow> 'f pager \<Rightarrow> (int \<times> 'f pager) option" where
  "vm_fault io addr write_flag s = (case cur_table s of None \<Rightarrow> None | Some a \<Rightarrow>
     let vpn = vpn_of addr in
     if vpn \<ge> cnt (the_table s a) then Some (- 1, s)
     else if \<not> vpn < length (vps (the_table s a)) then None
     else
       let v = vps (the_table s a) ! vpn in
       if write_flag then do {
         (ok, s) \<leftarrow> (if \<not> check_residence s v \<or> ppage (entry_of s v) = 0 then bring_in io v s else Some (True, s));
         if \<not> ok then Some (- 1, s)
         else if \<not> ppage (entry_of s v) < num_memory_pages s then None
         else Some (0, allow v (write_access v s)) }
       else if \<not> check_residence s v then do {
         (ok, s) \<leftarrow> bring_in io v s;
         if \<not> ok then Some (- 1, s)
         else if \<not> ppage (entry_of s v) < num_memory_pages s then None
         else Some (0, allow v s) }
       else if \<not> ppage (entry_of s v) < num_memory_pages s then None
       else Some (0, allow v
         (if dirty (physical_table s (ppage (entry_of s v)))
          then set_entry v ((entry_of s v)\<lparr>write_enable := True\<rparr>) s else s)))"

definition destroy_page :: "nat \<Rightarrow> 'f pager \<Rightarrow> 'f pager option" where
  "destroy_page v s =
     (let i = id_of s v; p = ppage (entry_of s v);
          s = s\<lparr>peer_map := (peer_map s)(i := removeAll v (peer_map s i))\<rparr>;
          release = (\<lambda>s. if swap_backed i then s\<lparr>available_swap_blocks := available_swap_blocks s @ [block i]\<rparr> else s)
      in if check_residence s v \<and> p \<noteq> 0 \<and> swap_backed i then
           (if \<not> p < num_memory_pages s then None
            else Some (release ((set_physical p (\<lambda>x. x\<lparr>dirty := False\<rparr>) s)
              \<lparr>available_physical_pages := available_physical_pages s @ [p],
               clock_queue := remove1 p (clock_queue s),
               peer_in_phys := (peer_in_phys s)(i := None)\<rparr>)))
         else Some (release s))"

fun destroy_pages :: "nat list \<Rightarrow> 'f pager \<Rightarrow> 'f pager option" where
  "destroy_pages [] s = Some s"
| "destroy_pages (v # vs) s = do { s \<leftarrow> destroy_page v s; destroy_pages vs s }"

definition vm_destroy :: "'f pager \<Rightarrow> 'f pager option" where
  "vm_destroy s = (case cur_table s of None \<Rightarrow> None | Some a \<Rightarrow> do {
     s \<leftarrow> destroy_pages (vps (the_table s a)) s;
     Some (s\<lparr>num_swap_blocks := num_swap_blocks s + occupied_swap_blocks (the_table s a),
             tables := (tables s)(cur_pid s := None), cur_table := None\<rparr>) })"

text \<open>\<open>new virtual_page\<close> with the entry it stands for, and the page appended to the table.\<close>

definition new_page :: "nat \<Rightarrow> file_id \<Rightarrow> pte \<Rightarrow> 'f pager \<Rightarrow> nat \<times> 'f pager" where
  "new_page a i e s = (let v = next_address s; en = (page_table_base_register s, cnt (the_table s a)) in
     (v, s\<lparr>the_page := (the_page s)(v := \<lparr>v_entry = en, v_id = i\<rparr>), the_pte := (the_pte s)(en := e),
           the_table := (the_table s)(a := (the_table s a)\<lparr>vps := vps (the_table s a) @ [v]\<rparr>),
           next_address := v + 1\<rparr>))"

definition insert_peer :: "nat \<Rightarrow> 'f pager \<Rightarrow> 'f pager" where
  "insert_peer v s = s\<lparr>peer_map := (peer_map s)(id_of s v := List.insert v (peer_map s (id_of s v)))\<rparr>"

definition map_swap :: "nat \<Rightarrow> 'f pager \<Rightarrow> 'f pager option" where
  "map_swap a s = (case available_swap_blocks s of [] \<Rightarrow> None | b # blocks \<Rightarrow>
     let i = \<lparr>filename = [], block = b, swap_backed = True\<rparr>;
         (v, s) = new_page a i (mk_pte 0 True False) (s\<lparr>available_swap_blocks := blocks\<rparr>);
         s = insert_peer v (s\<lparr>num_swap_blocks := num_swap_blocks s - 1,
           the_table := (the_table s)(a := (the_table s a)\<lparr>occupied_swap_blocks := occupied_swap_blocks (the_table s a) + 1\<rparr>)\<rparr>)
     in Some (s\<lparr>peer_in_phys := (peer_in_phys s)(i := Some 0)\<rparr>))"

text \<open>The name of the file, read through the page table, its null character included.\<close>

partial_function (option) read_name :: "'f file_io \<Rightarrow> 64 word \<Rightarrow> string \<Rightarrow> 'f pager \<Rightarrow> (string option \<times> 'f pager) option" where
  "read_name io p temp_filename s = (case cur_table s of None \<Rightarrow> None | Some a \<Rightarrow>
     if vpn_of p \<ge> cnt (the_table s a) then Some (None, s)
     else if \<not> vpn_of p < length (vps (the_table s a)) then None
     else
       let v = vps (the_table s a) ! vpn_of p in do {
         r \<leftarrow> (if \<not> read_enable (entry_of s v) then vm_fault io p False s else Some (0, s));
         if fst r = - 1 then Some (None, snd r)
         else let c = read_byte (snd r) (ppage (entry_of (snd r) v)) (offset_of p) in
           if c = nul then Some (Some (temp_filename @ [c]), snd r)
           else read_name io (p + 1) (temp_filename @ [c]) (snd r) })"

declare read_name.simps [code]

definition map_file :: "nat \<Rightarrow> string \<Rightarrow> nat \<Rightarrow> 'f pager \<Rightarrow> 'f pager option" where
  "map_file a name b s =
     (let i = \<lparr>filename = name, block = b, swap_backed = False\<rparr>;
          (v, s) = new_page a i (mk_pte (num_memory_pages s) False False) s
      in case peer_in_phys s i of
           None \<Rightarrow> Some (insert_peer v s)
         | Some p \<Rightarrow>
             if \<not> p < num_memory_pages s then None
             else let x = physical_table s p;
                  e = (entry_of s v)\<lparr>ppage := p mod 2 ^ 20\<rparr>;
                  e = (if referenced x then e\<lparr>read_enable := True, write_enable := write_enable e \<or> dirty x\<rparr> else e)
                in Some (insert_peer v (set_entry v e s)))"

text \<open>The pointer returned; 0 is the null pointer.\<close>

definition vm_map :: "'f file_io \<Rightarrow> 64 word option \<Rightarrow> nat \<Rightarrow> 'f pager \<Rightarrow> (64 word \<times> 'f pager) option" where
  "vm_map io name_ptr b s = (case cur_table s of None \<Rightarrow> None | Some a \<Rightarrow>
     if cnt (the_table s a) \<ge> MAX_PAGE_NUM then Some (0, s)
     else
       let new_addr = VM_ARENA_BASEADDR + of_nat (cnt (the_table s a) * VM_PAGESIZE);
           mapped = (\<lambda>s. (new_addr, s\<lparr>the_table := (the_table s)(a := (the_table s a)\<lparr>cnt := cnt (the_table s a) + 1\<rparr>)\<rparr>))
       in (case name_ptr of
           None \<Rightarrow> if num_swap_blocks s = 0 then Some (0, s) else map_option mapped (map_swap a s)
         | Some p \<Rightarrow> do {
             (name, s) \<leftarrow> read_name io p [] s;
             (case name of
                None \<Rightarrow> Some (0, s)
              | Some name \<Rightarrow> map_option mapped (map_file a name b s)) }))"

section \<open>The processes\<close>

text \<open>
  What a process reads and writes, as the format of the entries documents it (vm_pager.h): a load or
  store needs its bit in the entry of the page, and faults without it.
\<close>

definition load :: "'f pager \<Rightarrow> nat \<Rightarrow> nat \<Rightarrow> char option" where
  "load s v offset = (if read_enable (entry_of s v) then Some (physmem s (ppage (entry_of s v)) offset) else None)"

definition store :: "nat \<Rightarrow> nat \<Rightarrow> char \<Rightarrow> 'f pager \<Rightarrow> 'f pager option" where
  "store v offset ch s = (if write_enable (entry_of s v)
     then Some (s\<lparr>physmem := (physmem s)(ppage (entry_of s v) := (physmem s (ppage (entry_of s v)))(offset := ch))\<rparr>)
     else None)"

end
