(* ===== verification/Pager_Inv.thy ===== *)
theory Pager_Inv imports Pager begin

text \<open>
  The invariant of the pager: what holds of its tables, of the frames of physical memory and of the
  entries between any two calls, and that a fault keeps it. Paging is invisible: what a page holds, in
  memory or in its file, is the same before and after.
\<close>

section \<open>The shape of the tables\<close>

text \<open>The fields that faults leave alone.\<close>

definition shape_of where
  "shape_of s = (tables s, the_table s, the_page s, next_address s, cur_table s, cur_pid s, page_table_base_register s,
     num_memory_pages s, available_swap_blocks s, num_swap_blocks s, peer_map s)"

definition live :: "'f pager \<Rightarrow> nat set" where
  "live s = {v. \<exists>pid a. tables s pid = Some a \<and> v \<in> set (vps (the_table s a))}"

definition table_ok :: "'f pager \<Rightarrow> nat \<Rightarrow> bool" where
  "table_ok s a \<longleftrightarrow> a < next_address s \<and> ptbr (the_table s a) = a \<and> cnt (the_table s a) \<le> MAX_PAGE_NUM \<and>
     length (vps (the_table s a)) = cnt (the_table s a) \<and>
     (\<forall>i < cnt (the_table s a). vps (the_table s a) ! i < next_address s \<and>
        v_entry (the_page s (vps (the_table s a) ! i)) = (a, i)) \<and>
     occupied_swap_blocks (the_table s a) = length (filter (\<lambda>v. swap_backed (id_of s v)) (vps (the_table s a)))"

definition tables_ok :: "'f pager \<Rightarrow> bool" where
  "tables_ok s \<longleftrightarrow> (\<forall>pid a. tables s pid = Some a \<longrightarrow> table_ok s a) \<and>
     (\<forall>p q a. tables s p = Some a \<longrightarrow> tables s q = Some a \<longrightarrow> p = q) \<and> finite (dom (tables s)) \<and>
     (\<forall>a. cur_table s = Some a \<longrightarrow> tables s (cur_pid s) = Some a \<and> page_table_base_register s = a)"

definition peers_ok :: "'f pager \<Rightarrow> bool" where
  "peers_ok s \<longleftrightarrow> (\<forall>i. distinct (peer_map s i) \<and> set (peer_map s i) = {v \<in> live s. id_of s v = i})"

text \<open>The identities in use: a block of the swap file, or a name with its final null character.\<close>

definition id_ok :: "nat \<Rightarrow> file_id \<Rightarrow> bool" where
  "id_ok S i \<longleftrightarrow> (if swap_backed i then filename i = [] \<and> block i < S
     else \<exists>n. filename i = n @ [nul] \<and> nul \<notin> set n)"

definition swap_pages :: "'f pager \<Rightarrow> nat set" where
  "swap_pages s = {v \<in> live s. swap_backed (id_of s v)}"

definition swap_ok :: "nat \<Rightarrow> 'f pager \<Rightarrow> bool" where
  "swap_ok S s \<longleftrightarrow> distinct (available_swap_blocks s) \<and> num_swap_blocks s \<le> length (available_swap_blocks s) \<and>
     set (available_swap_blocks s) \<inter> (\<lambda>v. block (id_of s v)) ` swap_pages s = {} \<and>
     set (available_swap_blocks s) \<union> (\<lambda>v. block (id_of s v)) ` swap_pages s = {..<S} \<and>
     inj_on (\<lambda>v. block (id_of s v)) (swap_pages s) \<and> (\<forall>v \<in> live s. id_ok S (id_of s v))"

definition shape_ok :: "nat \<Rightarrow> 'f pager \<Rightarrow> bool" where
  "shape_ok S s \<longleftrightarrow> tables_ok s \<and> peers_ok s \<and> swap_ok S s"

lemma id_of_shape: "shape_of s' = shape_of s \<Longrightarrow> id_of s' = id_of s"
  by (auto simp: shape_of_def id_of_def fun_eq_iff)

lemma live_shape: "shape_of s' = shape_of s \<Longrightarrow> live s' = live s"
  by (auto simp: shape_of_def live_def)

lemma shape_ok_same: "shape_of s' = shape_of s \<Longrightarrow> shape_ok S s' \<longleftrightarrow> shape_ok S s"
proof -
  assume h: "shape_of s' = shape_of s"
  note i = id_of_shape [OF h] and l = live_shape [OF h]
  from h have "table_ok s' a = table_ok s a" for a by (simp add: shape_of_def table_ok_def i)
  then have "tables_ok s' = tables_ok s" using h by (simp add: shape_of_def tables_ok_def)
  moreover have "peers_ok s' = peers_ok s" using h by (simp add: shape_of_def peers_ok_def i l)
  moreover have "swap_ok S s' = swap_ok S s" using h by (simp add: shape_of_def swap_ok_def swap_pages_def i l)
  ultimately show ?thesis by (simp add: shape_ok_def)
qed

lemma live_entry:
  assumes "tables_ok s" "v \<in> live s"
  obtains pid a i where "tables s pid = Some a" "i < cnt (the_table s a)" "vps (the_table s a) ! i = v"
    "v_entry (the_page s v) = (a, i)"
  using assms by (auto simp: live_def tables_ok_def table_ok_def in_set_conv_nth)

lemma entry_inj: "tables_ok s \<Longrightarrow> inj_on (\<lambda>v. v_entry (the_page s v)) (live s)"
proof (rule inj_onI)
  fix v w
  assume t: "tables_ok s" and v: "v \<in> live s" and w: "w \<in> live s" and e: "v_entry (the_page s v) = v_entry (the_page s w)"
  from live_entry [OF t v] obtain a i where "vps (the_table s a) ! i = v" "v_entry (the_page s v) = (a, i)" by metis
  moreover from live_entry [OF t w] obtain b j where "vps (the_table s b) ! j = w" "v_entry (the_page s w) = (b, j)" by metis
  ultimately show "v = w" using e by simp
qed

lemma live_nth: "tables s pid = Some a \<Longrightarrow> i < length (vps (the_table s a)) \<Longrightarrow> vps (the_table s a) ! i \<in> live s"
  unfolding live_def using nth_mem by blast

lemma live_bound: "tables_ok s \<Longrightarrow> v \<in> live s \<Longrightarrow> v < next_address s"
  by (auto simp: live_def tables_ok_def table_ok_def in_set_conv_nth)

section \<open>Entries\<close>

lemma shape_of_updates [simp]:
  "shape_of (set_entry v e s) = shape_of s" "shape_of (set_physical p f s) = shape_of s"
  "shape_of (s\<lparr>physmem := m\<rparr>) = shape_of s" "shape_of (s\<lparr>files := fs\<rparr>) = shape_of s"
  "shape_of (s\<lparr>clock_queue := q\<rparr>) = shape_of s" "shape_of (s\<lparr>available_physical_pages := q\<rparr>) = shape_of s"
  "shape_of (s\<lparr>peer_in_phys := r\<rparr>) = shape_of s" "shape_of (s\<lparr>the_pte := t\<rparr>) = shape_of s"
  by (simp_all add: shape_of_def set_entry_def set_physical_def)

lemma entry_of_set_entry:
  "tables_ok s \<Longrightarrow> v \<in> live s \<Longrightarrow> w \<in> live s \<Longrightarrow> entry_of (set_entry v e s) w = (if w = v then e else entry_of s w)"
  using entry_inj [of s] by (auto simp: entry_of_def set_entry_def dest: inj_onD)

lemma revoke_fields:
  "\<exists>t. revoke vs s = s\<lparr>the_pte := t\<rparr>"
proof (induction vs arbitrary: s)
  case (Cons v vs)
  let ?s = "set_entry v ((entry_of s v)\<lparr>read_enable := False, write_enable := False\<rparr>) s"
  obtain t where "revoke vs ?s = ?s\<lparr>the_pte := t\<rparr>" using Cons by blast
  then show ?case by (intro exI [of _ t]) (simp add: set_entry_def)
next
  case Nil
  show ?case by (rule exI [of _ "the_pte s"]) simp
qed

lemma set_peer_fields:
  "\<exists>t. set_peer vs v s = s\<lparr>the_pte := t\<rparr>"
proof (induction vs arbitrary: s)
  case (Cons w vs)
  let ?s = "set_entry w (mk_pte (ppage (entry_of s v)) True (write_enable (entry_of s v))) s"
  obtain t where "set_peer vs v ?s = ?s\<lparr>the_pte := t\<rparr>" using Cons by blast
  then show ?case by (intro exI [of _ t]) (simp add: set_entry_def)
next
  case Nil
  show ?case by (rule exI [of _ "the_pte s"]) simp
qed

lemma tables_ok_set_entry [simp]: "tables_ok (set_entry v e s) = tables_ok s"
  by (simp add: tables_ok_def table_ok_def set_entry_def id_of_def)

lemma live_set_entry [simp]: "live (set_entry v e s) = live s"
  by (simp add: live_def set_entry_def)

lemma revoke_entry:
  "tables_ok s \<Longrightarrow> set vs \<subseteq> live s \<Longrightarrow> w \<in> live s \<Longrightarrow>
   entry_of (revoke vs s) w = (if w \<in> set vs then (entry_of s w)\<lparr>read_enable := False, write_enable := False\<rparr> else entry_of s w)"
  by (induction vs arbitrary: s) (auto simp: entry_of_set_entry)

lemma set_peer_entry:
  "tables_ok s \<Longrightarrow> set vs \<subseteq> live s \<Longrightarrow> v \<in> live s \<Longrightarrow> w \<in> live s \<Longrightarrow> ppage (entry_of s v) < 2 ^ 20 \<Longrightarrow>
   entry_of (set_peer vs v s) w = (if w \<in> set vs
     then \<lparr>ppage = ppage (entry_of s v), read_enable = True, write_enable = write_enable (entry_of s v)\<rparr> else entry_of s w)"
proof (induction vs arbitrary: s)
  case (Cons x vs)
  let ?e = "\<lparr>ppage = ppage (entry_of s v), read_enable = True, write_enable = write_enable (entry_of s v)\<rparr>"
  let ?s = "set_entry x ?e s"
  have e: "entry_of ?s y = (if y = x then ?e else entry_of s y)" if "y \<in> live s" for y
    using Cons.prems that by (intro entry_of_set_entry) auto
  have "entry_of (set_peer vs v ?s) w = (if w \<in> set vs
      then \<lparr>ppage = ppage (entry_of ?s v), read_enable = True, write_enable = write_enable (entry_of ?s v)\<rparr> else entry_of ?s w)"
    using Cons.prems e by (intro Cons.IH) auto
  moreover have "set_peer (x # vs) v s = set_peer vs v ?s" using Cons.prems(5) by (simp add: mk_pte_def)
  ultimately show ?case using e Cons.prems by auto
qed simp

section \<open>Frames and what they hold\<close>

definition frames_ok :: "'f pager \<Rightarrow> bool" where
  "frames_ok s \<longleftrightarrow> 2 \<le> num_memory_pages s \<and> num_memory_pages s \<le> 65536 \<and>
     distinct (available_physical_pages s @ clock_queue s) \<and>
     set (available_physical_pages s @ clock_queue s) = {1..<num_memory_pages s} \<and>
     (\<forall>p \<in> insert 0 (set (available_physical_pages s)). \<not> dirty (physical_table s p)) \<and> physmem s 0 = (\<lambda>_. nul)"

definition residence_ok :: "nat \<Rightarrow> 'f pager \<Rightarrow> bool" where
  "residence_ok S s \<longleftrightarrow>
     (\<forall>i p. peer_in_phys s i = Some p \<longrightarrow>
        (if p = 0 then swap_backed i else p \<in> set (clock_queue s) \<and> p_id (physical_table s p) = i)) \<and>
     (\<forall>p \<in> set (clock_queue s). peer_in_phys s (p_id (physical_table s p)) = Some p \<and> id_ok S (p_id (physical_table s p)) \<and>
        (swap_backed (p_id (physical_table s p)) \<longrightarrow> block (p_id (physical_table s p)) \<notin> set (available_swap_blocks s)))"

text \<open>
  An entry gives access exactly while its page is in memory and referenced since the clock last came by,
  and to stores only when the page is known to be dirty.
\<close>

definition entry_ok :: "'f pager \<Rightarrow> nat \<Rightarrow> bool" where
  "entry_ok s v \<longleftrightarrow> (case peer_in_phys s (id_of s v) of
      None \<Rightarrow> \<not> read_enable (entry_of s v) \<and> \<not> write_enable (entry_of s v)
    | Some p \<Rightarrow> ppage (entry_of s v) = p \<and> (read_enable (entry_of s v) \<longleftrightarrow> p = 0 \<or> referenced (physical_table s p)) \<and>
        (write_enable (entry_of s v) \<longleftrightarrow> p \<noteq> 0 \<and> referenced (physical_table s p) \<and> dirty (physical_table s p)))"

definition disk :: "'f file_io \<Rightarrow> 'f pager \<Rightarrow> file_id \<Rightarrow> page option" where
  "disk io s i = file_read io (files s) (file_of i) (block i)"

definition data_ok :: "'f file_io \<Rightarrow> 'f pager \<Rightarrow> bool" where
  "data_ok io s \<longleftrightarrow>
     (\<forall>p \<in> set (clock_queue s). (\<not> dirty (physical_table s p) \<longrightarrow> disk io s (p_id (physical_table s p)) = Some (physmem s p)) \<and>
        (\<not> swap_backed (p_id (physical_table s p)) \<longrightarrow> disk io s (p_id (physical_table s p)) \<noteq> None)) \<and>
     (\<forall>v \<in> live s. peer_in_phys s (id_of s v) = None \<longrightarrow> swap_backed (id_of s v) \<longrightarrow> disk io s (id_of s v) \<noteq> None)"

definition memory_ok :: "'f file_io \<Rightarrow> nat \<Rightarrow> 'f pager \<Rightarrow> bool" where
  "memory_ok io S s \<longleftrightarrow> frames_ok s \<and> residence_ok S s \<and> data_ok io s"

definition pager_ok :: "'f file_io \<Rightarrow> nat \<Rightarrow> 'f pager \<Rightarrow> bool" where
  "pager_ok io S s \<longleftrightarrow> shape_ok S s \<and> memory_ok io S s \<and> (\<forall>v \<in> live s. entry_ok s v)"

text \<open>What a page holds, wherever it is.\<close>

definition contents :: "'f file_io \<Rightarrow> 'f pager \<Rightarrow> file_id \<Rightarrow> page option" where
  "contents io s i = (case peer_in_phys s i of Some p \<Rightarrow> Some (physmem s p) | None \<Rightarrow> disk io s i)"

text \<open>
  The documented behaviour of the file calls that the pager relies on: a block of the swap file, or one
  that can be read, takes what is written, and other blocks keep what they have.
\<close>

definition file_laws :: "'f file_io \<Rightarrow> nat \<Rightarrow> bool" where
  "file_laws io S \<longleftrightarrow> (\<forall>f n b x. (n = None \<and> b < S \<or> file_read io f n b \<noteq> None) \<longrightarrow>
     file_read io (file_write io f n b x) n b = Some x \<and>
     (\<forall>n' b'. (n', b') \<noteq> (n, b) \<longrightarrow> file_read io (file_write io f n b x) n' b' = file_read io f n' b'))"

lemma frame_id [simp]: "p < 65536 \<Longrightarrow> frame p = p"
  by (simp add: frame_def VM_PAGESIZE_def)

lemma c_string_nul: "nul \<notin> set n \<Longrightarrow> c_string (n @ [nul]) = n"
  by (induction n) (auto simp: c_string_def)

lemma file_of_inj:
  assumes "id_ok S i" "id_ok S j" "(file_of i, block i) = (file_of j, block j)" shows "i = j"
  using assms by (auto simp: id_ok_def file_of_def c_string_nul split: if_splits)

lemma frames_bound:
  assumes "frames_ok s" "p \<in> set (available_physical_pages s) \<or> p \<in> set (clock_queue s)"
  shows "p \<noteq> 0" "0 < p" "p < num_memory_pages s" "p < 65536" "p < 2 ^ 20"
proof -
  have "p \<in> {1..<num_memory_pages s}" "num_memory_pages s \<le> 65536" using assms by (auto simp: frames_ok_def)
  then show "p \<noteq> 0" "0 < p" "p < num_memory_pages s" "p < 65536" "p < 2 ^ 20" by auto
qed

lemma memory_okD:
  assumes "memory_ok io S s" shows "frames_ok s" "residence_ok S s" "data_ok io s"
  using assms by (simp_all add: memory_ok_def)

lemma pager_okD:
  assumes "pager_ok io S s"
  shows "shape_ok S s" "memory_ok io S s" "tables_ok s" "peers_ok s" "swap_ok S s" "frames_ok s" "residence_ok S s"
    "data_ok io s" "v \<in> live s \<Longrightarrow> entry_ok s v"
  using assms by (simp_all add: pager_ok_def shape_ok_def memory_ok_def)

lemma in_clock:
  assumes "residence_ok S s" "p \<in> set (clock_queue s)"
  shows "peer_in_phys s (p_id (physical_table s p)) = Some p" "id_ok S (p_id (physical_table s p))"
    "swap_backed (p_id (physical_table s p)) \<Longrightarrow> block (p_id (physical_table s p)) \<notin> set (available_swap_blocks s)"
  using assms by (auto simp: residence_ok_def)

lemma resident:
  assumes "residence_ok S s" "peer_in_phys s i = Some p" "p \<noteq> 0"
  shows "p \<in> set (clock_queue s)" "p_id (physical_table s p) = i"
  using assms by (auto simp: residence_ok_def split: if_splits)

lemma zero_resident: "residence_ok S s \<Longrightarrow> peer_in_phys s i = Some 0 \<Longrightarrow> swap_backed i"
  by (auto simp: residence_ok_def)

lemma residence_okI:
  assumes "\<And>i p. peer_in_phys s i = Some p \<Longrightarrow> p \<noteq> 0 \<Longrightarrow> p \<in> set (clock_queue s) \<and> p_id (physical_table s p) = i"
    and "\<And>i. peer_in_phys s i = Some 0 \<Longrightarrow> swap_backed i"
    and "\<And>p. p \<in> set (clock_queue s) \<Longrightarrow> peer_in_phys s (p_id (physical_table s p)) = Some p \<and> id_ok S (p_id (physical_table s p)) \<and>
      (swap_backed (p_id (physical_table s p)) \<longrightarrow> block (p_id (physical_table s p)) \<notin> set (available_swap_blocks s))"
  shows "residence_ok S s"
  using assms by (auto simp: residence_ok_def)

lemma data_okI:
  assumes "\<And>p. p \<in> set (clock_queue s) \<Longrightarrow> \<not> dirty (physical_table s p) \<Longrightarrow> disk io s (p_id (physical_table s p)) = Some (physmem s p)"
    and "\<And>p. p \<in> set (clock_queue s) \<Longrightarrow> \<not> swap_backed (p_id (physical_table s p)) \<Longrightarrow> disk io s (p_id (physical_table s p)) \<noteq> None"
    and "\<And>v. v \<in> live s \<Longrightarrow> peer_in_phys s (id_of s v) = None \<Longrightarrow> swap_backed (id_of s v) \<Longrightarrow> disk io s (id_of s v) \<noteq> None"
  shows "data_ok io s"
  using assms by (auto simp: data_ok_def)

lemma data_okD:
  assumes "data_ok io s"
  shows "p \<in> set (clock_queue s) \<Longrightarrow> \<not> dirty (physical_table s p) \<Longrightarrow> disk io s (p_id (physical_table s p)) = Some (physmem s p)"
    "p \<in> set (clock_queue s) \<Longrightarrow> \<not> swap_backed (p_id (physical_table s p)) \<Longrightarrow> disk io s (p_id (physical_table s p)) \<noteq> None"
    "v \<in> live s \<Longrightarrow> peer_in_phys s (id_of s v) = None \<Longrightarrow> swap_backed (id_of s v) \<Longrightarrow> disk io s (id_of s v) \<noteq> None"
  using assms by (auto simp: data_ok_def)

text \<open>The fields that calls about tables leave alone.\<close>

definition memory_of where
  "memory_of s = (physical_table s, available_physical_pages s, clock_queue s, peer_in_phys s, num_memory_pages s, physmem s, files s,
     available_swap_blocks s)"

lemma memory_same:
  assumes "memory_of s' = memory_of s"
  shows "frames_ok s' = frames_ok s" "residence_ok S s' = residence_ok S s" "disk io s' = disk io s"
    "contents io s' = contents io s" "peer_in_phys s' = peer_in_phys s" "physical_table s' = physical_table s"
    "clock_queue s' = clock_queue s" "physmem s' = physmem s" "num_memory_pages s' = num_memory_pages s"
proof -
  show "disk io s' = disk io s" using assms by (simp add: memory_of_def disk_def fun_eq_iff)
  then show "frames_ok s' = frames_ok s" "residence_ok S s' = residence_ok S s" "contents io s' = contents io s"
    "peer_in_phys s' = peer_in_phys s" "physical_table s' = physical_table s" "clock_queue s' = clock_queue s"
    "physmem s' = physmem s" "num_memory_pages s' = num_memory_pages s"
    using assms by (simp_all add: memory_of_def frames_ok_def residence_ok_def contents_def fun_eq_iff split: option.split)
qed

lemma data_ok_same:
  "memory_of s' = memory_of s \<Longrightarrow> live s' = live s \<Longrightarrow> id_of s' = id_of s \<Longrightarrow> data_ok io s' = data_ok io s"
  using memory_same [of s' s] by (simp add: data_ok_def)

lemma entry_ok_same:
  "peer_in_phys s' (id_of s' v) = peer_in_phys s (id_of s v) \<Longrightarrow> physical_table s' = physical_table s \<Longrightarrow>
   entry_of s' v = entry_of s v \<Longrightarrow> entry_ok s' v = entry_ok s v"
  by (simp add: entry_ok_def split: option.split)

lemma peers_ok_same:
  "peer_map s' = peer_map s \<Longrightarrow> live s' = live s \<Longrightarrow> id_of s' = id_of s \<Longrightarrow> peers_ok s' = peers_ok s"
  by (simp add: peers_ok_def)

lemma swap_ok_same:
  "available_swap_blocks s' = available_swap_blocks s \<Longrightarrow> num_swap_blocks s' \<le> num_swap_blocks s \<Longrightarrow> live s' = live s \<Longrightarrow>
   id_of s' = id_of s \<Longrightarrow> swap_ok S s \<Longrightarrow> swap_ok S s'"
  by (simp add: swap_ok_def swap_pages_def)

lemma pager_okI:
  assumes "tables_ok s" "peers_ok s" "swap_ok S s" "frames_ok s" "residence_ok S s" "data_ok io s"
    "\<And>v. v \<in> live s \<Longrightarrow> entry_ok s v"
  shows "pager_ok io S s"
  using assms by (simp add: pager_ok_def shape_ok_def memory_ok_def)

lemma table_ok_grown:
  assumes t: "table_ok s a" and "the_table s' a = the_table s a" "next_address s \<le> next_address s'"
    and p: "\<And>v. v < next_address s \<Longrightarrow> the_page s' v = the_page s v"
  shows "table_ok s' a"
proof -
  have b: "v < next_address s" if "v \<in> set (vps (the_table s a))" for v
    using t that by (auto simp: table_ok_def in_set_conv_nth)
  have "filter (\<lambda>v. swap_backed (id_of s' v)) (vps (the_table s a)) = filter (\<lambda>v. swap_backed (id_of s v)) (vps (the_table s a))"
    using b p by (intro filter_cong) (simp_all add: id_of_def)
  then show ?thesis using t assms(2,3) p by (auto simp: table_ok_def dest: order.strict_trans2)
qed

lemma swap_shape: "shape_of s' = shape_of s \<Longrightarrow> available_swap_blocks s' = available_swap_blocks s"
  by (simp add: shape_of_def)

lemma live_id:
  assumes "swap_ok S s" "v \<in> live s"
  shows "id_ok S (id_of s v)" "swap_backed (id_of s v) \<Longrightarrow> block (id_of s v) \<notin> set (available_swap_blocks s)"
  using assms by (auto simp: swap_ok_def swap_pages_def)

end
