(* ===== verification/Pager_Fault.thy ===== *)
theory Pager_Fault imports Pager_Inv begin

text \<open>
  The clock algorithm, bringing a page in, and the fault: each keeps the invariant and what the pages hold.
\<close>

section \<open>The clock\<close>

text \<open>A turn that spares a page which has been referenced.\<close>

definition spare :: "nat \<Rightarrow> nat list \<Rightarrow> 'f pager \<Rightarrow> 'f pager" where
  "spare p q s = (set_physical p (\<lambda>x. x\<lparr>referenced := False\<rparr>)
     (revoke (peer_map s (p_id (physical_table s p))) s))\<lparr>clock_queue := q @ [p]\<rparr>"

lemma spare_fields:
  obtains t where "spare p q s = (set_physical p (\<lambda>x. x\<lparr>referenced := False\<rparr>) s)\<lparr>the_pte := t, clock_queue := q @ [p]\<rparr>"
proof -
  obtain t where "revoke (peer_map s (p_id (physical_table s p))) s = s\<lparr>the_pte := t\<rparr>" using revoke_fields by blast
  then show ?thesis by (intro that [of t]) (simp add: spare_def set_physical_def)
qed

lemma spare_shape [simp]: "shape_of (spare p q s) = shape_of s"
proof -
  obtain t where "spare p q s = (set_physical p (\<lambda>x. x\<lparr>referenced := False\<rparr>) s)\<lparr>the_pte := t, clock_queue := q @ [p]\<rparr>"
    by (rule spare_fields)
  then show ?thesis by simp
qed

lemma spare_ok:
  assumes ok: "pager_ok io S s" and ck: "clock_queue s = p # q"
  shows "pager_ok io S (spare p q s) \<and> contents io (spare p q s) = contents io s"
proof -
  let ?s = "spare p q s" and ?i = "p_id (physical_table s p)"
  obtain t where s: "?s = (set_physical p (\<lambda>x. x\<lparr>referenced := False\<rparr>) s)\<lparr>the_pte := t, clock_queue := q @ [p]\<rparr>"
    by (rule spare_fields)
  have sh: "shape_ok S s" using ok by (simp add: pager_ok_def)
  then have tb: "tables_ok s" and pr: "set (peer_map s ?i) = {v \<in> live s. id_of s v = ?i}"
    by (simp_all add: shape_ok_def peers_ok_def)
  have mem: "memory_ok io S s" using ok by (simp add: pager_ok_def)
  have pc: "p \<in> set (clock_queue s)" using ck by simp
  note p = frames_bound(1) [OF pager_okD(6) [OF ok] disjI2 [OF pc]] in_clock(1) [OF pager_okD(7) [OF ok] pc]
  note lv = live_shape [OF spare_shape [of p q s]] and idv = id_of_shape [OF spare_shape [of p q s]]
  have f: "clock_queue ?s = q @ [p]" "peer_in_phys ?s = peer_in_phys s" "physmem ?s = physmem s" "files ?s = files s"
    "available_physical_pages ?s = available_physical_pages s" "num_memory_pages ?s = num_memory_pages s"
    "physical_table ?s = (physical_table s)(p := (physical_table s p)\<lparr>referenced := False\<rparr>)"
    unfolding s by (simp_all add: set_physical_def)
  have d: "disk io ?s = disk io s" by (simp add: disk_def f fun_eq_iff)
  have "frames_ok ?s" using mem ck by (auto simp: memory_ok_def frames_ok_def f)
  moreover have "residence_ok S ?s"
    using resident [OF pager_okD(7) [OF ok]] zero_resident [OF pager_okD(7) [OF ok]] in_clock [OF pager_okD(7) [OF ok]] ck
    by (intro residence_okI) (auto simp: f swap_shape [OF spare_shape])
  moreover have "data_ok io ?s" using mem ck by (auto simp: memory_ok_def data_ok_def f d lv idv)
  moreover have "entry_ok ?s v" if v: "v \<in> live s" for v
  proof -
    have e: "entry_of ?s v = (if id_of s v = ?i then (entry_of s v)\<lparr>read_enable := False, write_enable := False\<rparr> else entry_of s v)"
    proof -
      have "entry_of ?s v = entry_of (revoke (peer_map s ?i) s) v"
        by (simp add: spare_def entry_of_def set_physical_def)
      then show ?thesis using revoke_entry [OF tb _ v, of "peer_map s ?i"] pr v by auto
    qed
    have "entry_ok s v" using ok v by (simp add: pager_ok_def)
    moreover have "r \<noteq> p" if "peer_in_phys s (id_of s v) = Some r" "id_of s v \<noteq> ?i" for r
      using resident [OF pager_okD(7) [OF ok] that(1)] that(2) p(1) by auto
    ultimately show ?thesis using e p by (auto simp: entry_ok_def f idv split: option.splits)
  qed
  moreover have "contents io ?s = contents io s" by (simp add: contents_def f d fun_eq_iff split: option.split)
  ultimately show ?thesis using sh by (simp add: pager_ok_def memory_ok_def shape_ok_same [OF spare_shape] lv)
qed

text \<open>A turn that evicts: what the page held is now in its file.\<close>

lemma evict_ok:
  assumes laws: "file_laws io S" and ok: "pager_ok io S s" and ck: "clock_queue s = p # q"
    and av: "available_physical_pages s = []" and unref: "\<not> referenced (physical_table s p)"
  defines "s' \<equiv> evict io p (s\<lparr>clock_queue := q\<rparr>)"
  shows "pager_ok io S s'" "shape_of s' = shape_of s" "available_physical_pages s' = [p]"
    "id_ok S i \<Longrightarrow> contents io s' i = contents io s i"
    "peer_in_phys s' = (peer_in_phys s)(p_id (physical_table s p) := None)"
proof -
  let ?i = "p_id (physical_table s p)"
  note fr = pager_okD(6) [OF ok] and rs = pager_okD(7) [OF ok] and dt = pager_okD(8) [OF ok]
  have pc: "p \<in> set (clock_queue s)" using ck by simp
  note b = frames_bound [OF fr disjI2 [OF pc]]
  note pi = in_clock [OF rs pc]
  have f: "clock_queue s' = q" "peer_in_phys s' = (peer_in_phys s)(?i := None)" "physmem s' = physmem s"
    "files s' = (if dirty (physical_table s p) then file_write io (files s) (file_of ?i) (block ?i) (physmem s p) else files s)"
    "available_physical_pages s' = [p]" "num_memory_pages s' = num_memory_pages s" "the_pte s' = the_pte s"
    "physical_table s' = (physical_table s)(p := (physical_table s p)\<lparr>dirty := False\<rparr>)"
    using b(4) by (simp_all add: s'_def evict_def write_back_def set_physical_def av Let_def)
  show sh: "shape_of s' = shape_of s"
    by (simp add: s'_def evict_def write_back_def Let_def shape_of_def set_physical_def)
  show "available_physical_pages s' = [p]" "peer_in_phys s' = (peer_in_phys s)(?i := None)" by (simp_all add: f)
  note lv = live_shape [OF sh] and idv = id_of_shape [OF sh]
  have law: "disk io s' ?i = Some (physmem s p) \<and> (\<forall>j. id_ok S j \<longrightarrow> j \<noteq> ?i \<longrightarrow> disk io s' j = disk io s j)"
  proof (cases "dirty (physical_table s p)")
    case False
    then show ?thesis using data_okD(1) [OF dt pc] by (simp add: disk_def f)
  next
    case True
    have "file_of ?i = None \<and> block ?i < S \<or> file_read io (files s) (file_of ?i) (block ?i) \<noteq> None"
      using pi(2) data_okD(2) [OF dt pc] by (auto simp: id_ok_def file_of_def disk_def split: if_splits)
    with laws have "file_read io (files s') (file_of ?i) (block ?i) = Some (physmem s p)"
      "\<And>n b. (n, b) \<noteq> (file_of ?i, block ?i) \<Longrightarrow> file_read io (files s') n b = file_read io (files s) n b"
      using True unfolding file_laws_def by (auto simp: f)
    then show ?thesis using file_of_inj [OF _ pi(2)] by (auto simp: disk_def)
  qed
  have other: "r \<in> set q \<and> r \<noteq> p \<and> p_id (physical_table s r) = j" if "peer_in_phys s j = Some r" "r \<noteq> 0" "j \<noteq> ?i" for r j
    using resident [OF rs that(1,2)] that(3) ck by auto
  have dq: "distinct (p # q)" using fr ck by (simp add: frames_ok_def)
  have qs: "r \<noteq> p \<and> p_id (physical_table s r) \<noteq> ?i \<and> r \<in> set (clock_queue s)" if "r \<in> set q" for r
  proof -
    have "r \<noteq> p" "r \<in> set (clock_queue s)" using dq that ck by auto
    moreover from this have "p_id (physical_table s r) \<noteq> ?i" using in_clock(1) [OF rs, of r] pi(1) by auto
    ultimately show ?thesis by blast
  qed
  have "set (p # q) = {1..<num_memory_pages s}" "distinct (p # q)" "2 \<le> num_memory_pages s" "num_memory_pages s \<le> 65536"
    "\<not> dirty (physical_table s 0)" "physmem s 0 = (\<lambda>_. nul)"
    using fr ck av by (simp_all add: frames_ok_def)
  then have "frames_ok s'" using b(1) by (simp add: frames_ok_def f)
  moreover have "residence_ok S s'"
  proof (rule residence_okI)
    show "r \<in> set (clock_queue s') \<and> p_id (physical_table s' r) = j" if "peer_in_phys s' j = Some r" "r \<noteq> 0" for j r
      using that other [of j r] by (auto simp: f split: if_splits)
    show "swap_backed j" if "peer_in_phys s' j = Some 0" for j
      using that zero_resident [OF rs] by (auto simp: f split: if_splits)
    show "peer_in_phys s' (p_id (physical_table s' r)) = Some r \<and> id_ok S (p_id (physical_table s' r)) \<and>
        (swap_backed (p_id (physical_table s' r)) \<longrightarrow> block (p_id (physical_table s' r)) \<notin> set (available_swap_blocks s'))"
      if "r \<in> set (clock_queue s')" for r
      using that qs [of r] in_clock [OF rs, of r] by (auto simp: f swap_shape [OF sh])
  qed
  moreover have "data_ok io s'"
  proof (rule data_okI)
    fix r assume "r \<in> set (clock_queue s')"
    then have r: "r \<in> set q" by (simp add: f)
    note r' = qs [OF r]
    then have d: "disk io s' (p_id (physical_table s r)) = disk io s (p_id (physical_table s r))"
      using law in_clock(2) [OF rs, of r] by blast
    show "\<not> dirty (physical_table s' r) \<Longrightarrow> disk io s' (p_id (physical_table s' r)) = Some (physmem s' r)"
      "\<not> swap_backed (p_id (physical_table s' r)) \<Longrightarrow> disk io s' (p_id (physical_table s' r)) \<noteq> None"
      using r' d data_okD [OF dt, of r] by (auto simp: f)
  next
    fix v assume v: "v \<in> live s'" "peer_in_phys s' (id_of s' v) = None" "swap_backed (id_of s' v)"
    have "id_ok S (id_of s v)" using v(1) pager_okD(5) [OF ok] by (simp add: swap_ok_def lv)
    then show "disk io s' (id_of s' v) \<noteq> None"
      using v law data_okD(3) [OF dt, of v] by (auto simp: f lv idv split: if_splits)
  qed
  moreover have "entry_ok s' v" if v: "v \<in> live s" for v
  proof -
    have "entry_ok s v" using ok v by (simp add: pager_ok_def)
    moreover have "entry_of s' v = entry_of s v" using sh by (simp add: entry_of_def f shape_of_def)
    moreover have "r \<noteq> p" if "peer_in_phys s (id_of s v) = Some r" "id_of s v \<noteq> ?i" for r
      using other [OF that(1) _ that(2)] b(1) by auto
    ultimately show ?thesis using pi(1) b(1) unref by (auto simp: entry_ok_def f idv split: option.splits)
  qed
  ultimately show "pager_ok io S s'"
    using pager_okD(1) [OF ok] by (simp add: pager_ok_def memory_ok_def shape_ok_same [OF sh] lv)
  show "id_ok S i \<Longrightarrow> contents io s' i = contents io s i"
    using law pi(1) by (cases "i = ?i") (auto simp: contents_def f split: option.split)
qed

text \<open>The loop ends: every turn but the last takes the mark from a page that has it.\<close>

lemma get_free_physical_page_ok:
  assumes laws: "file_laws io S"
  shows "pager_ok io S s \<Longrightarrow>
    \<exists>s'. get_free_physical_page io s = Some s' \<and> pager_ok io S s' \<and> shape_of s' = shape_of s \<and>
      available_physical_pages s' \<noteq> [] \<and> (\<forall>i. id_ok S i \<longrightarrow> contents io s' i = contents io s i) \<and>
      (\<forall>i. peer_in_phys s i = None \<longrightarrow> peer_in_phys s' i = None) \<and>
      (\<forall>i. peer_in_phys s i = Some 0 \<longrightarrow> peer_in_phys s' i = Some 0)"
proof (induction "card {p \<in> set (clock_queue s). referenced (physical_table s p)}" arbitrary: s rule: less_induct)
  case less
  show ?case
  proof (cases "available_physical_pages s = []")
    case False
    then show ?thesis using less.prems by (subst get_free_physical_page.simps) auto
  next
    case True
    note fr = pager_okD(6) [OF less.prems] and rs = pager_okD(7) [OF less.prems]
    have "set (clock_queue s) = {1..<num_memory_pages s}" "2 \<le> num_memory_pages s" using fr True by (simp_all add: frames_ok_def)
    then have "clock_queue s \<noteq> []" by auto
    then obtain p q where ck: "clock_queue s = p # q" by (cases "clock_queue s") auto
    then have pc: "p \<in> set (clock_queue s)" by simp
    note b = frames_bound [OF fr disjI2 [OF pc]]
    show ?thesis
    proof (cases "referenced (physical_table s p)")
      case no: False
      let ?s = "evict io p (s\<lparr>clock_queue := q\<rparr>)"
      have "get_free_physical_page io s = Some ?s"
        using True ck b(3) no by (subst get_free_physical_page.simps) simp
      moreover note evict_ok [OF laws less.prems ck True no]
      moreover have "p_id (physical_table s p) \<noteq> i" if "peer_in_phys s i = Some 0" for i
        using in_clock(1) [OF rs pc] that b(1) by auto
      ultimately show ?thesis by (intro exI [of _ ?s]) auto
    next
      case yes: True
      let ?s = "spare p q s"
      note step = spare_ok [OF less.prems ck]
      have eq: "get_free_physical_page io s = get_free_physical_page io ?s"
        using True ck b(3) yes by (subst get_free_physical_page.simps) (simp add: spare_def)
      obtain t where s: "?s = (set_physical p (\<lambda>x. x\<lparr>referenced := False\<rparr>) s)\<lparr>the_pte := t, clock_queue := q @ [p]\<rparr>"
        by (rule spare_fields)
      have f: "peer_in_phys ?s = peer_in_phys s" unfolding s by (simp add: set_physical_def)
      have "{r \<in> set (clock_queue ?s). referenced (physical_table ?s r)}
          = {r \<in> set (clock_queue s). referenced (physical_table s r)} - {p}"
        unfolding s using ck by (auto simp: set_physical_def)
      then have "card {r \<in> set (clock_queue ?s). referenced (physical_table ?s r)}
          < card {r \<in> set (clock_queue s). referenced (physical_table s r)}"
        using card_Diff1_less [of "{r \<in> set (clock_queue s). referenced (physical_table s r)}" p] yes pc by simp
      from less.hyps [OF this conjunct1 [OF step]] obtain s' where r: "get_free_physical_page io ?s = Some s'"
        "pager_ok io S s'" "shape_of s' = shape_of ?s" "available_physical_pages s' \<noteq> []"
        "\<forall>i. id_ok S i \<longrightarrow> contents io s' i = contents io ?s i"
        "\<forall>i. peer_in_phys ?s i = None \<longrightarrow> peer_in_phys s' i = None"
        "\<forall>i. peer_in_phys ?s i = Some 0 \<longrightarrow> peer_in_phys s' i = Some 0" by (elim exE conjE) (rule that)
      show ?thesis using r(5-7) unfolding eq r(1) f conjunct2 [OF step]
        by (intro exI [of _ s'] conjI r(2,4)) (simp_all add: r(3))
    qed
  qed
qed

section \<open>A page on its way in\<close>

text \<open>
  Between the moment a page gets its frame and the end of the fault, the entries of its peers are not yet
  set, and the frame may differ from the disk without being marked dirty.
\<close>

definition pending :: "'f file_io \<Rightarrow> nat \<Rightarrow> nat \<Rightarrow> nat \<Rightarrow> 'f pager \<Rightarrow> bool" where
  "pending io S v p s \<longleftrightarrow> shape_ok S s \<and> frames_ok s \<and> residence_ok S s \<and>
     (\<forall>w \<in> live s. id_of s w \<noteq> id_of s v \<longrightarrow> entry_ok s w) \<and>
     (\<forall>r \<in> set (clock_queue s). r \<noteq> p \<longrightarrow> \<not> dirty (physical_table s r) \<longrightarrow>
        disk io s (p_id (physical_table s r)) = Some (physmem s r)) \<and>
     (\<forall>r \<in> set (clock_queue s). \<not> swap_backed (p_id (physical_table s r)) \<longrightarrow> disk io s (p_id (physical_table s r)) \<noteq> None) \<and>
     (\<forall>w \<in> live s. peer_in_phys s (id_of s w) = None \<longrightarrow> swap_backed (id_of s w) \<longrightarrow> disk io s (id_of s w) \<noteq> None) \<and>
     peer_in_phys s (id_of s v) = Some p \<and> ppage (entry_of s v) = p"

lemma ok_pending:
  assumes ok: "pager_ok io S s" and v: "v \<in> live s" and p: "peer_in_phys s (id_of s v) = Some p"
  shows "pending io S v p s" "write_enable (entry_of s v) \<longleftrightarrow> p \<noteq> 0 \<and> referenced (physical_table s p) \<and> dirty (physical_table s p)"
    "p \<noteq> 0 \<Longrightarrow> dirty (physical_table s p) \<or> disk io s (id_of s v) = Some (physmem s p)"
proof -
  note e = pager_okD(9) [OF ok v]
  show "pending io S v p s"
    using pager_okD(1,6,7,8) [OF ok] e p ok by (simp add: pending_def data_ok_def entry_ok_def pager_ok_def)
  show "write_enable (entry_of s v) \<longleftrightarrow> p \<noteq> 0 \<and> referenced (physical_table s p) \<and> dirty (physical_table s p)"
    using e p by (simp add: entry_ok_def)
  show "p \<noteq> 0 \<Longrightarrow> dirty (physical_table s p) \<or> disk io s (id_of s v) = Some (physmem s p)"
    using data_okD(1) [OF pager_okD(8) [OF ok], of p] resident [OF pager_okD(7) [OF ok] p] by auto
qed

lemma pending_bound:
  assumes "pending io S v p s"
  shows "p < num_memory_pages s" "p < 2 ^ 20" "p \<noteq> 0 \<Longrightarrow> p \<in> set (clock_queue s) \<and> p_id (physical_table s p) = id_of s v"
    "p \<notin> set (available_physical_pages s)"
proof -
  have f: "frames_ok s" "residence_ok S s" "peer_in_phys s (id_of s v) = Some p" using assms by (simp_all add: pending_def)
  show c: "p \<noteq> 0 \<Longrightarrow> p \<in> set (clock_queue s) \<and> p_id (physical_table s p) = id_of s v" using resident [OF f(2,3)] by blast
  have "p < num_memory_pages s \<and> p < 2 ^ 20 \<and> p \<notin> set (available_physical_pages s)"
  proof (cases "p = 0")
    case True
    with f(1) frames_bound(1) [OF f(1), of 0] show ?thesis by (auto simp: frames_ok_def)
  next
    case False
    with c frames_bound [OF f(1), of p] f(1) show ?thesis by (auto simp: frames_ok_def)
  qed
  then show "p < num_memory_pages s" "p < 2 ^ 20" "p \<notin> set (available_physical_pages s)" by auto
qed

text \<open>The end of a fault.\<close>

lemma allow_ok:
  assumes pd: "pending io S v p s" and v: "v \<in> live s"
    and we: "write_enable (entry_of s v) \<longleftrightarrow> p \<noteq> 0 \<and> dirty (physical_table s p)"
    and settled: "p \<noteq> 0 \<Longrightarrow> dirty (physical_table s p) \<or> disk io s (id_of s v) = Some (physmem s p)"
  shows "pager_ok io S (allow v s)" "shape_of (allow v s) = shape_of s" "contents io (allow v s) = contents io s"
    "read_enable (entry_of (allow v s) v)" "write_enable (entry_of (allow v s) v) = write_enable (entry_of s v)"
proof -
  note b = pending_bound [OF pd]
  let ?i = "id_of s v" and ?x = "\<lambda>x. x\<lparr>referenced := True\<rparr>"
  have h: "shape_ok S s" "frames_ok s" "residence_ok S s" "peer_in_phys s ?i = Some p" "ppage (entry_of s v) = p"
    using pd by (simp_all add: pending_def)
  have tb: "tables_ok s" and pr: "set (peer_map s ?i) = {w \<in> live s. id_of s w = ?i}"
    using h(1) by (simp_all add: shape_ok_def peers_ok_def)
  define s1 where "s1 = set_physical p ?x (set_entry v ((entry_of s v)\<lparr>read_enable := True\<rparr>) s)"
  have "entry_of (set_entry v ((entry_of s v)\<lparr>read_enable := True\<rparr>) s) v = (entry_of s v)\<lparr>read_enable := True\<rparr>"
    using entry_of_set_entry [OF tb v v] by simp
  then have al: "allow v s = set_peer (peer_map s ?i) v s1"
    using h(5) by (simp add: allow_def s1_def Let_def set_entry_def set_physical_def id_of_def)
  obtain t where t: "allow v s = s1\<lparr>the_pte := t\<rparr>" using set_peer_fields al by metis
  show sh: "shape_of (allow v s) = shape_of s" unfolding t by (simp add: s1_def)
  note lv = live_shape [OF sh] and idv = id_of_shape [OF sh]
  have f: "clock_queue (allow v s) = clock_queue s" "peer_in_phys (allow v s) = peer_in_phys s"
    "physmem (allow v s) = physmem s" "files (allow v s) = files s" "num_memory_pages (allow v s) = num_memory_pages s"
    "available_physical_pages (allow v s) = available_physical_pages s"
    "physical_table (allow v s) = (physical_table s)(p := ?x (physical_table s p))"
    unfolding t by (simp_all add: s1_def set_physical_def set_entry_def)
  have d: "disk io (allow v s) = disk io s" by (simp add: disk_def f fun_eq_iff)
  have s1: "tables_ok s1" "live s1 = live s" "\<And>w. w \<in> live s \<Longrightarrow>
      entry_of s1 w = (if w = v then (entry_of s v)\<lparr>read_enable := True\<rparr> else entry_of s w)"
    using tb entry_of_set_entry [OF tb v] by (simp_all add: s1_def tables_ok_def table_ok_def set_physical_def
      set_entry_def id_of_def live_def entry_of_def)
  have e: "entry_of (allow v s) w = (if id_of s w = ?i
      then \<lparr>ppage = p, read_enable = True, write_enable = write_enable (entry_of s v)\<rparr> else entry_of s w)"
    if w: "w \<in> live s" for w
    using set_peer_entry [OF s1(1), of "peer_map s ?i" v w] s1(2,3) v w pr b(2) h(5) unfolding al by auto
  show "read_enable (entry_of (allow v s) v)" "write_enable (entry_of (allow v s) v) = write_enable (entry_of s v)"
    using e [OF v] by simp_all
  have "frames_ok (allow v s)" using h(2) by (auto simp: frames_ok_def f)
  moreover have "residence_ok S (allow v s)"
    using resident [OF h(3)] zero_resident [OF h(3)] in_clock [OF h(3)]
    by (intro residence_okI) (auto simp: f swap_shape [OF sh])
  moreover have "data_ok io (allow v s)"
    using pd settled b(1,3) frames_bound(1) [OF h(2), of p] by (intro data_okI) (auto simp: pending_def f d lv idv)
  moreover have "entry_ok (allow v s) w" if w: "w \<in> live s" for w
  proof (cases "id_of s w = ?i")
    case True
    with e [OF w] we h(4) show ?thesis by (auto simp: entry_ok_def f idv)
  next
    case False
    then have "entry_ok s w" using pd w by (simp add: pending_def)
    moreover have "r = 0 \<or> r \<noteq> p" if "peer_in_phys s (id_of s w) = Some r" for r
      using resident(2) [OF h(3) that] b(3) False by auto
    ultimately show ?thesis using e [OF w] False by (auto simp: entry_ok_def f idv split: option.splits)
  qed
  ultimately show "pager_ok io S (allow v s)"
    using h(1) by (simp add: pager_ok_def memory_ok_def shape_ok_same [OF sh] lv)
  show "contents io (allow v s) = contents io s" by (simp add: contents_def f d fun_eq_iff split: option.split)
qed

lemma write_access_ok:
  assumes pd: "pending io S v p s" and v: "v \<in> live s" and p: "p \<noteq> 0"
  shows "pending io S v p (write_access v s)" "shape_of (write_access v s) = shape_of s"
    "contents io (write_access v s) = contents io s" "id_of (write_access v s) = id_of s"
    "write_enable (entry_of (write_access v s) v)" "dirty (physical_table (write_access v s) p)"
proof -
  let ?s = "write_access v s" and ?x = "\<lambda>x. x\<lparr>dirty := True\<rparr>"
  note b = pending_bound [OF pd]
  have h: "shape_ok S s" "frames_ok s" "residence_ok S s" "peer_in_phys s (id_of s v) = Some p" "ppage (entry_of s v) = p"
    using pd by (simp_all add: pending_def)
  then have tb: "tables_ok s" by (simp add: shape_ok_def)
  show sh: "shape_of ?s = shape_of s" by (simp add: write_access_def)
  note lv = live_shape [OF sh] and idv = id_of_shape [OF sh]
  show "id_of ?s = id_of s" by (rule idv)
  have f: "clock_queue ?s = clock_queue s" "peer_in_phys ?s = peer_in_phys s" "physmem ?s = physmem s" "files ?s = files s"
    "num_memory_pages ?s = num_memory_pages s" "available_physical_pages ?s = available_physical_pages s"
    "physical_table ?s = (physical_table s)(p := ?x (physical_table s p))"
    by (simp_all add: write_access_def set_physical_def set_entry_def h(5))
  have d: "disk io ?s = disk io s" by (simp add: disk_def f fun_eq_iff)
  have e: "entry_of ?s w = (if w = v then (entry_of s v)\<lparr>write_enable := True\<rparr> else entry_of s w)" if w: "w \<in> live s" for w
    using entry_of_set_entry [OF tb v w, of "(entry_of s v)\<lparr>write_enable := True\<rparr>"]
    by (simp add: write_access_def entry_of_def set_physical_def set_entry_def)
  show "write_enable (entry_of ?s v)" "dirty (physical_table ?s p)" using e [OF v] by (simp_all add: f)
  have "frames_ok ?s" using h(2) b(4) p by (auto simp: frames_ok_def f)
  moreover have "residence_ok S ?s"
    using resident [OF h(3)] zero_resident [OF h(3)] in_clock [OF h(3)]
    by (intro residence_okI) (auto simp: f swap_shape [OF sh])
  moreover have "entry_ok ?s w" if w: "w \<in> live s" and ne: "id_of s w \<noteq> id_of s v" for w
  proof -
    have "entry_ok s w" using pd w ne by (simp add: pending_def)
    moreover have "r = 0 \<or> r \<noteq> p" if "peer_in_phys s (id_of s w) = Some r" for r
      using resident(2) [OF h(3) that] b(3) ne by auto
    moreover have "w \<noteq> v" using ne by auto
    ultimately show ?thesis using e [OF w] by (auto simp: entry_ok_def f idv split: option.splits)
  qed
  ultimately show "pending io S v p ?s"
    using pd h(1) e [OF v] by (auto simp: pending_def f d lv idv shape_ok_same [OF sh])
  show "contents io ?s = contents io s" by (simp add: contents_def f d fun_eq_iff split: option.split)
qed

lemma bring_in_ok:
  assumes laws: "file_laws io S" and ok: "pager_ok io S s" and v: "v \<in> live s"
    and out: "peer_in_phys s (id_of s v) \<in> {None, Some 0}"
  shows "\<exists>b s'. bring_in io v s = Some (b, s') \<and> shape_of s' = shape_of s \<and>
    (\<forall>i. id_ok S i \<longrightarrow> contents io s' i = contents io s i) \<and>
    (if b then \<exists>p. p \<noteq> 0 \<and> pending io S v p s' \<and> \<not> write_enable (entry_of s' v) \<and> \<not> dirty (physical_table s' p) \<and>
         (peer_in_phys s (id_of s v) = None \<longrightarrow> disk io s' (id_of s v) = Some (physmem s' p))
     else pager_ok io S s' \<and> \<not> swap_backed (id_of s v) \<and> contents io s (id_of s v) = None)"
proof -
  let ?i = "id_of s v"
  obtain s0 where g: "get_free_physical_page io s = Some s0" "pager_ok io S s0" "shape_of s0 = shape_of s"
    "available_physical_pages s0 \<noteq> []" "\<forall>i. id_ok S i \<longrightarrow> contents io s0 i = contents io s i"
    "\<forall>i. peer_in_phys s i = None \<longrightarrow> peer_in_phys s0 i = None" "\<forall>i. peer_in_phys s i = Some 0 \<longrightarrow> peer_in_phys s0 i = Some 0"
    using get_free_physical_page_ok [OF laws ok] by (elim exE conjE) (rule that)
  have v0: "v \<in> live s0" and i0: "id_of s0 = id_of s" using v live_shape [OF g(3)] id_of_shape [OF g(3)] by simp_all
  have out0: "peer_in_phys s0 ?i = peer_in_phys s ?i" using out g(6,7) by auto
  note fr = pager_okD(6) [OF g(2)] and rs = pager_okD(7) [OF g(2)] and dt = pager_okD(8) [OF g(2)] and en = pager_okD(9) [OF g(2)]
  have idk: "id_ok S ?i" using pager_okD(5) [OF ok] v by (simp add: swap_ok_def)
  obtain p free where av: "available_physical_pages s0 = p # free" using g(4) by (cases "available_physical_pages s0") auto
  then have pa: "p \<in> set (available_physical_pages s0)" by simp
  note b = frames_bound [OF fr disjI1 [OF pa]]
  let ?data = "if check_residence s0 v then Some (physmem s0 (frame (ppage (entry_of s0 v))))
    else case file_read io (files s0) (file_of ?i) (block ?i) of
      None \<Rightarrow> if swap_backed ?i then Some (physmem s0 (frame p)) else None | Some x \<Rightarrow> Some x"
  have res: "check_residence s0 v \<longleftrightarrow> peer_in_phys s ?i = Some 0"
    using out by (auto simp: check_residence_def i0 out0)
  have z: "ppage (entry_of s0 v) = 0" if "peer_in_phys s ?i = Some 0"
    using en [OF v0] that by (simp add: entry_ok_def i0 out0)
  have data: "?data = contents io s0 ?i"
  proof (cases "peer_in_phys s ?i")
    case None
    moreover have "swap_backed ?i \<Longrightarrow> disk io s0 ?i \<noteq> None" using data_okD(3) [OF dt v0] None by (simp add: i0 out0)
    ultimately show ?thesis using res by (auto simp: contents_def out0 disk_def split: option.split)
  next
    case (Some r)
    with out res z show ?thesis by (simp add: contents_def out0)
  qed
  show ?thesis
  proof (cases "contents io s0 ?i")
    case None
    then have r: "set_physical_page io v s0 = Some (False, s0)"
      using data unfolding set_physical_page_def av list.case Let_def i0 by simp
    have "\<not> swap_backed ?i" using None data_okD(3) [OF dt v0] by (auto simp: contents_def i0 split: option.splits)
    then show ?thesis using g None idk r
      by (intro exI [of _ False] exI [of _ s0]) (simp add: bring_in_def)
  next
    case (Some x)
    define s1 where "s1 = (set_physical p (\<lambda>x. x\<lparr>p_id := ?i\<rparr>) s0)
      \<lparr>physmem := (physmem s0)(p := x), available_physical_pages := free,
       clock_queue := clock_queue s0 @ [p], peer_in_phys := (peer_in_phys s0)(?i := Some p)\<rparr>"
    let ?s = "set_entry v ((entry_of s0 v)\<lparr>ppage := p\<rparr>) s1"
    have run: "set_physical_page io v s0 = Some (True, ?s)"
      using data Some b unfolding set_physical_page_def av list.case Let_def i0 by (simp add: s1_def)
    have sh1: "shape_of s1 = shape_of s0" by (simp add: s1_def)
    then have sh: "shape_of ?s = shape_of s0" by simp
    note lv = live_shape [OF sh] and idv = id_of_shape [OF sh]
    have f: "clock_queue ?s = clock_queue s0 @ [p]" "peer_in_phys ?s = (peer_in_phys s0)(?i := Some p)"
      "physmem ?s = (physmem s0)(p := x)" "files ?s = files s0" "num_memory_pages ?s = num_memory_pages s0"
      "available_physical_pages ?s = free" "physical_table ?s = (physical_table s0)(p := (physical_table s0 p)\<lparr>p_id := ?i\<rparr>)"
      by (simp_all add: set_entry_def s1_def set_physical_def)
    have d: "disk io ?s = disk io s0" by (simp add: disk_def f fun_eq_iff)
    have tb: "tables_ok s0" by (rule pager_okD(3) [OF g(2)])
    have e: "entry_of ?s w = (if w = v then (entry_of s0 v)\<lparr>ppage := p\<rparr> else entry_of s0 w)" if w: "w \<in> live s0" for w
      using entry_of_set_entry [OF tb v0 w, of "(entry_of s0 v)\<lparr>ppage := p\<rparr>"]
      by (simp add: s1_def entry_of_def set_physical_def set_entry_def)
    have ck: "r \<noteq> p \<and> p_id (physical_table s0 r) \<noteq> ?i" if "r \<in> set (clock_queue s0)" for r
      using that pa fr in_clock(1) [OF rs that] out out0 frames_bound(1) [OF fr disjI2 [OF that]]
      by (auto simp: frames_ok_def)
    have nd: "\<not> dirty (physical_table s0 p)" using fr pa by (simp add: frames_ok_def)
    have "frames_ok ?s" using fr av b(1) by (auto simp: frames_ok_def f)
    moreover have "residence_ok S ?s"
    proof (rule residence_okI)
      show "r \<in> set (clock_queue ?s) \<and> p_id (physical_table ?s r) = j" if "peer_in_phys ?s j = Some r" "r \<noteq> 0" for j r
        using that resident [OF rs, of j r] ck by (auto simp: f split: if_splits)
      show "swap_backed j" if "peer_in_phys ?s j = Some 0" for j
        using that zero_resident [OF rs] b(1) by (auto simp: f split: if_splits)
      show "peer_in_phys ?s (p_id (physical_table ?s r)) = Some r \<and> id_ok S (p_id (physical_table ?s r)) \<and>
          (swap_backed (p_id (physical_table ?s r)) \<longrightarrow> block (p_id (physical_table ?s r)) \<notin> set (available_swap_blocks ?s))"
        if "r \<in> set (clock_queue ?s)" for r
        using that ck [of r] in_clock [OF rs, of r] idk live_id(2) [OF pager_okD(5) [OF g(2)] v0]
        by (auto simp: f swap_shape [OF sh] i0)
    qed
    moreover have "entry_ok ?s w" if w: "w \<in> live s0" and ne: "id_of s w \<noteq> ?i" for w
    proof -
      have "entry_ok s0 w" by (rule en [OF w])
      moreover have "r = 0 \<or> r \<noteq> p" if "peer_in_phys s0 (id_of s w) = Some r" for r
        using resident(1) [OF rs that] ck by auto
      moreover have "w \<noteq> v" using ne by auto
      ultimately show ?thesis using e [OF w] ne b(1) by (auto simp: entry_ok_def f idv i0 split: option.splits)
    qed
    moreover have "swap_backed ?i \<or> disk io s0 ?i \<noteq> None"
      using Some zero_resident [OF rs, of ?i] out out0 by (auto simp: contents_def split: option.splits)
    ultimately have "pending io S v p ?s"
      using pager_okD(1) [OF g(2)] data_okD [OF dt] ck e [OF v0]
      by (auto simp: pending_def f d lv live_shape [OF sh1] idv i0 shape_ok_same [OF sh])
    moreover have "\<not> write_enable (entry_of ?s v)"
      using e [OF v0] en [OF v0] out out0 by (auto simp: entry_ok_def i0)
    moreover have "contents io ?s j = contents io s0 j" for j
      using Some ck resident(1) [OF rs, of j] b(1) by (auto simp: contents_def f d split: option.split)
    moreover have "disk io ?s ?i = Some (physmem ?s p)" if "peer_in_phys s ?i = None"
      using Some that by (simp add: contents_def out0 d f)
    ultimately show ?thesis using g run b(1) nd idv i0 sh
      by (intro exI [of _ True] exI [of _ ?s]) (auto simp: bring_in_def f)
  qed
qed

section \<open>The fault\<close>

text \<open>
  A fault never crashes the pager. It succeeds exactly when the address is in a valid page whose contents
  can be had; then the access it was raised for is allowed.
\<close>

lemma vm_fault_ok:
  assumes laws: "file_laws io S" and ok: "pager_ok io S s" and a: "cur_table s = Some a"
  shows "\<exists>r s'. vm_fault io addr w s = Some (r, s') \<and> pager_ok io S s' \<and> shape_of s' = shape_of s \<and>
    (\<forall>i. id_ok S i \<longrightarrow> contents io s' i = contents io s i) \<and> r \<in> {0, - 1} \<and>
    (r = 0 \<longleftrightarrow> vpn_of addr < cnt (the_table s a) \<and> contents io s (id_of s (vps (the_table s a) ! vpn_of addr)) \<noteq> None) \<and>
    (r = 0 \<longrightarrow> read_enable (entry_of s' (vps (the_table s a) ! vpn_of addr)) \<and>
       (w \<longrightarrow> write_enable (entry_of s' (vps (the_table s a) ! vpn_of addr))))"
proof (cases "vpn_of addr < cnt (the_table s a)")
  case False
  then show ?thesis using a ok by (simp add: vm_fault_def Let_def)
next
  case in_arena: True
  let ?n = "vpn_of addr"
  let ?v = "vps (the_table s a) ! ?n"
  let ?i = "id_of s ?v"
  have tb: "table_ok s a" "tables s (cur_pid s) = Some a" using pager_okD(3) [OF ok] a by (auto simp: tables_ok_def)
  then have len: "?n < length (vps (the_table s a))" using in_arena by (simp add: table_ok_def)
  have v: "?v \<in> live s" by (rule live_nth [OF tb(2) len])
  note step = vm_fault_def [of io addr w s, unfolded a option.case Let_def]
  have idk: "id_ok S ?i" using pager_okD(5) [OF ok] v by (simp add: swap_ok_def)
  text \<open>The end, when the page has a frame.\<close>
  have finish: "\<exists>r s'. Some (0, allow ?v s1) = Some (r, s') \<and> pager_ok io S s' \<and> shape_of s' = shape_of s \<and>
      (\<forall>i. id_ok S i \<longrightarrow> contents io s' i = contents io s i) \<and> r \<in> {0, - 1} \<and>
      (r = 0 \<longleftrightarrow> ?n < cnt (the_table s a) \<and> contents io s ?i \<noteq> None) \<and>
      (r = 0 \<longrightarrow> read_enable (entry_of s' ?v) \<and> (w \<longrightarrow> write_enable (entry_of s' ?v)))"
    if pd: "pending io S ?v p s1" and sh: "shape_of s1 = shape_of s" and we: "write_enable (entry_of s1 ?v) \<longleftrightarrow> p \<noteq> 0 \<and> dirty (physical_table s1 p)"
      and set: "p \<noteq> 0 \<Longrightarrow> dirty (physical_table s1 p) \<or> disk io s1 ?i = Some (physmem s1 p)"
      and c: "\<forall>i. id_ok S i \<longrightarrow> contents io s1 i = contents io s i" and w: "w \<longrightarrow> write_enable (entry_of s1 ?v)" for p s1
  proof -
    have v1: "?v \<in> live s1" using v live_shape [OF sh] by simp
    have i1: "id_of s1 = id_of s" by (rule id_of_shape [OF sh])
    note al = allow_ok [OF pd v1 we] set
    have "contents io s1 ?i \<noteq> None" using pd by (simp add: pending_def contents_def i1)
    then have "contents io s ?i \<noteq> None" using c idk by simp
    then show ?thesis using al(1-5) set sh c w in_arena i1 by (intro exI [of _ 0] exI [of _ "allow ?v s1"]) simp
  qed
  show ?thesis
  proof (cases "peer_in_phys s ?i \<in> {None, Some 0} \<and> (w \<or> peer_in_phys s ?i = None)")
    case out: True
    obtain b s' where br: "bring_in io ?v s = Some (b, s')" "shape_of s' = shape_of s"
      "\<forall>i. id_ok S i \<longrightarrow> contents io s' i = contents io s i"
      and res: "if b then \<exists>p. p \<noteq> 0 \<and> pending io S ?v p s' \<and> \<not> write_enable (entry_of s' ?v) \<and> \<not> dirty (physical_table s' p) \<and>
         (peer_in_phys s ?i = None \<longrightarrow> disk io s' ?i = Some (physmem s' p))
       else pager_ok io S s' \<and> \<not> swap_backed ?i \<and> contents io s ?i = None"
      using bring_in_ok [OF laws ok v conjunct1 [OF out]] by (elim exE conjE) (rule that)
    have c: "\<not> check_residence s ?v \<or> ppage (entry_of s ?v) = 0"
      using out pager_okD(9) [OF ok v] by (auto simp: check_residence_def entry_ok_def)
    have r: "\<not> w \<Longrightarrow> \<not> check_residence s ?v" using out by (simp add: check_residence_def)
    show ?thesis
    proof (cases b)
      case False
      then have "vm_fault io addr w s = Some (- 1, s')" using step in_arena len br(1) c r by simp
      then show ?thesis using False res br(2,3) by simp
    next
      case True
      then obtain p where p: "p \<noteq> 0" "pending io S ?v p s'" "\<not> write_enable (entry_of s' ?v)" "\<not> dirty (physical_table s' p)"
        "peer_in_phys s ?i = None \<longrightarrow> disk io s' ?i = Some (physmem s' p)" using res by auto
      have pp: "ppage (entry_of s' ?v) < num_memory_pages s'"
        using p(2) pending_bound(1) [OF p(2)] by (simp add: pending_def)
      have v': "?v \<in> live s'" using v live_shape [OF br(2)] by simp
      show ?thesis
      proof (cases w)
        case w: True
        note wa = write_access_ok [OF p(2) v' p(1)]
        have "vm_fault io addr w s = Some (0, allow ?v (write_access ?v s'))"
          using step in_arena len br(1) c w pp True by simp
        then show ?thesis
          using finish [OF wa(1)] wa br p(1) by simp
      next
        case w: False
        have "vm_fault io addr w s = Some (0, allow ?v s')" using step in_arena len br(1) r w pp True by simp
        then show ?thesis using finish [OF p(2) br(2)] p out w br(3) by simp
      qed
    qed
  next
    case here: False
    then obtain p where p: "peer_in_phys s ?i = Some p" "w \<Longrightarrow> p \<noteq> 0" by (cases "peer_in_phys s ?i") auto
    note pd = ok_pending [OF ok v p(1)]
    have e: "ppage (entry_of s ?v) = p" "p < num_memory_pages s"
      using pd(1) pending_bound(1) [OF pd(1)] by (simp_all add: pending_def)
    show ?thesis
    proof (cases w)
      case w: True
      note wa = write_access_ok [OF pd(1) v p(2) [OF w]]
      have "vm_fault io addr w s = Some (0, allow ?v (write_access ?v s))"
        using step in_arena len p e w by (simp add: check_residence_def)
      then show ?thesis using finish [OF wa(1)] wa p(2) [OF w] by simp
    next
      case w: False
      show ?thesis
      proof (cases "dirty (physical_table s p)")
        case False
        then have "vm_fault io addr w s = Some (0, allow ?v s)" using step in_arena len p e w by (simp add: check_residence_def)
        then show ?thesis using finish [OF pd(1)] pd False w by simp
      next
        case True
        then have nz: "p \<noteq> 0" using pager_okD(6) [OF ok] by (auto simp: frames_ok_def)
        have "vm_fault io addr w s = Some (0, allow ?v (set_entry ?v ((entry_of s ?v)\<lparr>write_enable := True\<rparr>) s))"
          using step in_arena len p e w True by (simp add: check_residence_def)
        moreover have "set_entry ?v ((entry_of s ?v)\<lparr>write_enable := True\<rparr>) s = write_access ?v s"
          using True e by (simp add: write_access_def set_physical_def set_entry_def fun_upd_idem)
        ultimately show ?thesis using finish [OF write_access_ok(1) [OF pd(1) v nz]] write_access_ok [OF pd(1) v nz] w nz by simp
      qed
    qed
  qed
qed

end
