(* ===== verification/Pager_Ops.thy ===== *)
theory Pager_Ops imports Pager_Fault begin

text \<open>
  The calls of the kernel and of the processes other than the fault: each keeps the invariant, and what
  it does to the contents of pages is stated exactly.
\<close>

section \<open>Stores\<close>

lemma store_ok:
  assumes ok: "pager_ok io S s" and v: "v \<in> live s" and st: "store v n ch s = Some s'"
  shows "pager_ok io S s'" "shape_of s' = shape_of s"
    "contents io s' i = (if i = id_of s v then map_option (\<lambda>x. x(n := ch)) (contents io s i) else contents io s i)"
proof -
  let ?p = "ppage (entry_of s v)"
  note fr = pager_okD(6) [OF ok] and rs = pager_okD(7) [OF ok] and en = pager_okD(9) [OF ok v]
  have s': "s' = s\<lparr>physmem := (physmem s)(?p := (physmem s ?p)(n := ch))\<rparr>" and w: "write_enable (entry_of s v)"
    using st by (auto simp: store_def split: if_splits)
  have p: "peer_in_phys s (id_of s v) = Some ?p" "?p \<noteq> 0" "dirty (physical_table s ?p)"
    using en w by (auto simp: entry_ok_def split: option.splits)
  show sh: "shape_of s' = shape_of s" by (simp add: s')
  note lv = live_shape [OF sh] and idv = id_of_shape [OF sh]
  have d: "disk io s' = disk io s" by (simp add: disk_def s' fun_eq_iff)
  have "frames_ok s'" using fr p(2) by (simp add: frames_ok_def s')
  moreover have "residence_ok S s'" using rs by (simp add: residence_ok_def s')
  moreover have "data_ok io s'" using data_okD [OF pager_okD(8) [OF ok]] p(3) lv idv d
    by (intro data_okI) (auto simp: s')
  moreover have "entry_ok s' w" if "w \<in> live s" for w
    using pager_okD(9) [OF ok that] entry_ok_same [of s' w s] by (simp add: idv) (simp add: entry_of_def s')
  ultimately show "pager_ok io S s'"
    using pager_okD(1) [OF ok] by (simp add: pager_ok_def memory_ok_def shape_ok_same [OF sh] lv)
  show "contents io s' i = (if i = id_of s v then map_option (\<lambda>x. x(n := ch)) (contents io s i) else contents io s i)"
  proof (cases "i = id_of s v")
    case True
    with p(1) show ?thesis by (simp add: contents_def) (simp add: s')
  next
    case False
    then have "peer_in_phys s i \<noteq> Some ?p" using resident(2) [OF rs _ p(2), of i] resident(2) [OF rs p(1,2)] by auto
    with False show ?thesis by (auto simp: contents_def d split: option.split) (simp_all add: s')
  qed
qed

section \<open>vm_create and vm_switch\<close>

lemma vm_create_ok:
  assumes ok: "pager_ok io S s" and child: "tables s child = None" and c: "vm_create parent child s = (r, s')"
  shows "pager_ok io S s'" "contents io s' = contents io s" "live s' = live s" "id_of s' = id_of s"
    "r = 0 \<Longrightarrow> \<exists>a. tables s' = (tables s)(child := Some a) \<and> cnt (the_table s' a) = 0"
    "r \<noteq> 0 \<Longrightarrow> r = - 1 \<and> s' = s"
proof -
  let ?n = "case tables s parent of None \<Rightarrow> 0 | Some a \<Rightarrow> occupied_swap_blocks (the_table s a)"
  have all: "pager_ok io S s' \<and> contents io s' = contents io s \<and> live s' = live s \<and> id_of s' = id_of s \<and>
    (r = 0 \<longrightarrow> (\<exists>a. tables s' = (tables s)(child := Some a) \<and> cnt (the_table s' a) = 0)) \<and> (r \<noteq> 0 \<longrightarrow> r = - 1 \<and> s' = s)"
  proof (cases "?n > num_swap_blocks s")
    case True
    with c ok show ?thesis by (simp add: vm_create_def)
  next
    case False
    let ?a = "next_address s"
    have s': "r = 0" "s' = s\<lparr>num_swap_blocks := num_swap_blocks s - ?n, tables := (tables s)(child := Some ?a),
        the_table := (the_table s)(?a := \<lparr>ptbr = ?a, vps = [], cnt = 0, occupied_swap_blocks = 0\<rparr>),
        the_pte := (\<lambda>(b, i). if b = ?a \<and> i < MAX_PAGE_NUM
              then (the_pte s (b, i))\<lparr>read_enable := False, write_enable := False\<rparr> else the_pte s (b, i)),
        next_address := ?a + 1\<rparr>"
      using c False by (auto simp: vm_create_def new_table_def Let_def cong: if_cong)
    note tb = pager_okD(3) [OF ok]
    have fresh: "a < ?a" if "tables s pid = Some a" for pid a using tb that by (simp add: tables_ok_def table_ok_def)
    have lv: "live s' = live s"
    proof -
      have "(\<exists>a. tables s' pid = Some a \<and> v \<in> set (vps (the_table s' a))) \<longleftrightarrow>
          (\<exists>a. tables s pid = Some a \<and> v \<in> set (vps (the_table s a)))" for pid v
        using child fresh [of pid] by (cases "pid = child"; cases "tables s pid") (auto simp: s'(2))
      then show ?thesis by (simp add: live_def)
    qed
    have idv: "id_of s' = id_of s" by (simp add: id_of_def s'(2) fun_eq_iff)
    have ent: "entry_of s' v = entry_of s v" if v: "v \<in> live s" for v
    proof -
      obtain pid a i where "tables s pid = Some a" "v_entry (the_page s v) = (a, i)" using live_entry [OF tb v] by metis
      with fresh [of pid a] show ?thesis by (simp add: entry_of_def s'(2))
    qed
    have t: "table_ok s' a" if "tables s pid = Some a" for pid a
    proof (rule table_ok_grown)
      show "table_ok s a" using tb that unfolding tables_ok_def by blast
      show "the_table s' a = the_table s a" "next_address s \<le> next_address s'" "the_page s' v = the_page s v" for v
        using fresh [OF that] by (simp_all add: s'(2))
    qed
    have new: "table_ok s' ?a" by (simp add: table_ok_def s'(2))
    have "tables_ok s'"
      unfolding tables_ok_def
    proof (intro conjI allI impI)
      show "table_ok s' a" if "tables s' pid = Some a" for pid a
        using that t new by (cases "pid = child") (auto simp: s'(2))
      show "p = q" if "tables s' p = Some a" "tables s' q = Some a" for p q a
        using that tb fresh [of p a] fresh [of q a] by (auto simp: s'(2) tables_ok_def split: if_splits)
      show "finite (dom (tables s'))" using tb by (simp add: s'(2) tables_ok_def)
      show "tables s' (cur_pid s') = Some a" "page_table_base_register s' = a" if "cur_table s' = Some a" for a
        using that tb child by (auto simp: s'(2) tables_ok_def)
    qed
    moreover have m: "memory_of s' = memory_of s" by (simp add: memory_of_def s'(2))
    moreover have "peers_ok s'" using pager_okD(4) [OF ok] by (subst peers_ok_same [OF _ lv idv]) (simp_all add: s'(2))
    moreover have "swap_ok S s'" by (rule swap_ok_same [OF _ _ lv idv pager_okD(5) [OF ok]]) (simp_all add: s'(2))
    moreover have "entry_ok s' v" if "v \<in> live s" for v
      using pager_okD(9) [OF ok that] entry_ok_same [OF _ memory_same(6) [OF m] ent [OF that]] memory_same(5) [OF m] idv by simp
    ultimately have "pager_ok io S s'"
      using pager_okD(6-8) [OF ok] memory_same [OF m] data_ok_same [OF m lv idv] lv by (intro pager_okI) simp_all
    moreover have "tables s' = (tables s)(child := Some ?a) \<and> cnt (the_table s' ?a) = 0" by (simp add: s'(2))
    ultimately show ?thesis using s'(1) lv idv memory_same(4) [OF m] by blast
  qed
  then show "pager_ok io S s'" "contents io s' = contents io s" "live s' = live s" "id_of s' = id_of s"
    "r = 0 \<Longrightarrow> \<exists>a. tables s' = (tables s)(child := Some a) \<and> cnt (the_table s' a) = 0"
    "r \<noteq> 0 \<Longrightarrow> r = - 1 \<and> s' = s" by blast+
qed

lemma vm_switch_ok:
  assumes ok: "pager_ok io S s" and pid: "tables s pid = Some a" and cur: "cur_pid s = pid \<Longrightarrow> cur_table s \<noteq> None"
  shows "\<exists>s'. vm_switch pid s = Some s' \<and> pager_ok io S s' \<and> cur_table s' = Some a \<and> cur_pid s' = pid \<and>
    contents io s' = contents io s \<and> live s' = live s \<and> id_of s' = id_of s \<and> tables s' = tables s"
proof (cases "cur_pid s = pid")
  case True
  then have "cur_table s = Some a" using cur pager_okD(3) [OF ok] pid by (auto simp: tables_ok_def)
  with True ok show ?thesis by (simp add: vm_switch_def)
next
  case False
  let ?s = "s\<lparr>cur_table := Some a, page_table_base_register := ptbr (the_table s a), cur_pid := pid\<rparr>"
  have idv: "id_of ?s = id_of s" and lv: "live ?s = live s" and m: "memory_of ?s = memory_of s"
    by (simp_all add: id_of_def live_def memory_of_def fun_eq_iff)
  have t: "table_ok ?s b = table_ok s b" for b unfolding table_ok_def idv by simp
  have "ptbr (the_table s a) = a" using pager_okD(3) [OF ok] pid by (simp add: tables_ok_def table_ok_def)
  then have "tables_ok ?s" using pager_okD(3) [OF ok] pid unfolding tables_ok_def t by simp
  moreover have "peers_ok ?s" using pager_okD(4) [OF ok] by (subst peers_ok_same [OF _ lv idv]) simp_all
  moreover have "swap_ok S ?s" by (rule swap_ok_same [OF _ _ lv idv pager_okD(5) [OF ok]]) simp_all
  moreover have "entry_ok ?s v" if "v \<in> live s" for v
    using pager_okD(9) [OF ok that] by (subst entry_ok_same [of ?s v s]) (simp_all add: id_of_def entry_of_def)
  ultimately have "pager_ok io S ?s"
    using pager_okD(6-8) [OF ok] memory_same [OF m] data_ok_same [OF m lv idv] lv by (intro pager_okI) simp_all
  then show ?thesis using False pid lv idv memory_same(4) [OF m]
    by (intro exI [of _ ?s]) (simp add: vm_switch_def)
qed

end
