(* ===== verification/Pager_Map.thy ===== *)
theory Pager_Map imports Pager_Ops begin

text \<open>
  \<open>vm_init\<close> and \<open>vm_map\<close>: the invariant holds from the start, and a mapping keeps it; a new page of the
  swap file reads as zeros, a new page of a file as what the file holds; reading the file's name ends.
\<close>

section \<open>vm_init\<close>

lemma vm_init_ok:
  assumes "2 \<le> M" "M \<le> 65536"
  shows "pager_ok io S (vm_init M S (initial mem fs))" "live (vm_init M S (initial mem fs)) = {}"
proof -
  let ?s = "vm_init M S (initial mem fs)"
  show lv: "live ?s = {}" by (simp add: live_def vm_init_def initial_def)
  have "tables_ok ?s" by (simp add: tables_ok_def vm_init_def initial_def)
  moreover have "peers_ok ?s" by (simp add: peers_ok_def lv) (simp add: vm_init_def initial_def)
  moreover have "swap_ok S ?s" by (simp add: swap_ok_def swap_pages_def lv) (auto simp: vm_init_def initial_def)
  moreover have "frames_ok ?s" using assms by (simp add: frames_ok_def vm_init_def initial_def)
  moreover have "residence_ok S ?s" by (simp add: residence_ok_def vm_init_def initial_def)
  moreover have "data_ok io ?s" by (simp add: data_ok_def lv) (simp add: vm_init_def initial_def)
  ultimately show "pager_ok io S ?s" by (intro pager_okI) (simp_all add: lv)
qed

section \<open>A page added to the current table\<close>

definition added :: "nat \<Rightarrow> file_id \<Rightarrow> pte \<Rightarrow> 'f pager \<Rightarrow> 'f pager" where
  "added a i e s = (let v = next_address s; t = the_table s a in
     s\<lparr>the_page := (the_page s)(v := \<lparr>v_entry = (a, cnt t), v_id = i\<rparr>), the_pte := (the_pte s)((a, cnt t) := e),
       the_table := (the_table s)(a := t\<lparr>vps := vps t @ [v],
         occupied_swap_blocks := occupied_swap_blocks t + (if swap_backed i then 1 else 0), cnt := cnt t + 1\<rparr>),
       next_address := v + 1, peer_map := (peer_map s)(i := v # peer_map s i)\<rparr>)"

lemma added_fields [simp]:
  "tables (added a i e s) = tables s" "cur_table (added a i e s) = cur_table s" "cur_pid (added a i e s) = cur_pid s"
  "page_table_base_register (added a i e s) = page_table_base_register s"
  "available_swap_blocks (added a i e s) = available_swap_blocks s" "num_swap_blocks (added a i e s) = num_swap_blocks s"
  "next_address (added a i e s) = next_address s + 1" "memory_of (added a i e s) = memory_of s"
  by (simp_all add: added_def Let_def memory_of_def)

lemma id_of_added: "id_of (added a i e s) v = (if v = next_address s then i else id_of s v)"
  by (simp add: id_of_def added_def Let_def)

lemma added_ok:
  fixes i e
  assumes tb: "tables_ok s" and pr: "peers_ok s" and a: "cur_table s = Some a" and c: "cnt (the_table s a) < MAX_PAGE_NUM"
  defines "s' \<equiv> added a i e s"
  shows "tables_ok s'" "live s' = insert (next_address s) (live s)" "peers_ok s'" "next_address s \<notin> live s"
    "entry_of s' (next_address s) = e" "w \<in> live s \<Longrightarrow> entry_of s' w = entry_of s w"
proof -
  let ?v = "next_address s" and ?t = "the_table s a"
  have ta: "tables s (cur_pid s) = Some a" using tb a by (simp add: tables_ok_def)
  have ok: "table_ok s b" if "tables s pid = Some b" for pid b using tb that unfolding tables_ok_def by blast
  note oka = ok [OF ta]
  have f: "the_table s' = (the_table s)(a := ?t\<lparr>vps := vps ?t @ [?v],
         occupied_swap_blocks := occupied_swap_blocks ?t + (if swap_backed i then 1 else 0), cnt := cnt ?t + 1\<rparr>)"
    "the_page s' = (the_page s)(?v := \<lparr>v_entry = (a, cnt ?t), v_id = i\<rparr>)" "the_pte s' = (the_pte s)((a, cnt ?t) := e)"
    "tables s' = tables s" "next_address s' = ?v + 1" "peer_map s' = (peer_map s)(i := ?v # peer_map s i)"
    by (simp_all add: s'_def added_def Let_def)
  have idv: "id_of s' w = (if w = ?v then i else id_of s w)" for w unfolding s'_def by (rule id_of_added)
  show fresh: "?v \<notin> live s" using live_bound [OF tb] by blast
  have old: "v < ?v" if "v \<in> set (vps ?t)" for v using oka that by (auto simp: table_ok_def in_set_conv_nth)
  have new: "table_ok s' a"
  proof -
    have "filter (\<lambda>v. swap_backed (id_of s' v)) (vps ?t) = filter (\<lambda>v. swap_backed (id_of s v)) (vps ?t)"
      using old by (intro filter_cong) (auto simp: idv)
    moreover have "vps ?t ! j < ?v" if "j < cnt ?t" for j using oka that by (simp add: table_ok_def)
    moreover have "vps ?t ! j \<noteq> ?v" if "j < cnt ?t" for j using oka that by (fastforce simp: table_ok_def)
    ultimately show ?thesis using oka c by (auto simp: table_ok_def f idv nth_append less_Suc_eq)
  qed
  show "tables_ok s'"
    unfolding tables_ok_def
  proof (intro conjI allI impI)
    show "table_ok s' b" if "tables s' pid = Some b" for pid b
    proof (cases "b = a")
      case False
      have "tables s pid = Some b" using that by (simp add: f)
      from ok [OF this] show ?thesis by (rule table_ok_grown) (use False in \<open>simp_all add: f\<close>)
    qed (simp add: new)
    show "p = q" if "tables s' p = Some b" "tables s' q = Some b" for p q b
      using that tb unfolding tables_ok_def f by blast
    show "finite (dom (tables s'))" using tb by (simp add: f tables_ok_def)
    show "tables s' (cur_pid s') = Some b" "page_table_base_register s' = b" if "cur_table s' = Some b" for b
      using that tb by (simp_all add: s'_def tables_ok_def)
  qed
  show lv: "live s' = insert ?v (live s)"
  proof -
    have "(\<exists>b. tables s' pid = Some b \<and> v \<in> set (vps (the_table s' b))) \<longleftrightarrow>
        (\<exists>b. tables s pid = Some b \<and> (v \<in> set (vps (the_table s b)) \<or> b = a \<and> v = ?v))" for pid v
      by (cases "tables s pid") (auto simp: f)
    then show ?thesis using ta by (auto simp: live_def)
  qed
  show "peers_ok s'" unfolding peers_ok_def
  proof (intro allI conjI)
    fix j
    have j: "distinct (peer_map s j)" "set (peer_map s j) = {v \<in> live s. id_of s v = j}"
      using pr unfolding peers_ok_def by blast+
    show "distinct (peer_map s' j)" using j fresh by (auto simp: f)
    show "set (peer_map s' j) = {v \<in> live s'. id_of s' v = j}"
      using j fresh by (cases "j = i") (auto simp: f lv idv)
  qed
  show "entry_of s' ?v = e" by (simp add: entry_of_def f)
  show "entry_of s' w = entry_of s w" if w: "w \<in> live s"
  proof -
    obtain pid b j where e: "tables s pid = Some b" "j < cnt (the_table s b)" "v_entry (the_page s w) = (b, j)"
      using live_entry [OF tb w] by metis
    have "w \<noteq> ?v" using w fresh by blast
    with e show ?thesis by (auto simp: entry_of_def f)
  qed
qed

lemma live_not_zero:
  "pager_ok io S s \<Longrightarrow> v \<in> live s \<Longrightarrow> id_ok S (id_of s v)"
  by (simp add: pager_ok_def shape_ok_def swap_ok_def)

section \<open>vm_map of a page of the swap file\<close>

lemma map_swap_ok:
  assumes ok: "pager_ok io S s" and a: "cur_table s = Some a" and c: "cnt (the_table s a) < MAX_PAGE_NUM"
    and n: "num_swap_blocks s \<noteq> 0"
  shows "\<exists>s' v. vm_map io None b s = Some (VM_ARENA_BASEADDR + of_nat (cnt (the_table s a) * VM_PAGESIZE), s') \<and>
    pager_ok io S s' \<and> v \<notin> live s \<and> live s' = insert v (live s) \<and> (\<forall>w \<in> live s. id_of s' w = id_of s w) \<and>
    vps (the_table s' a) = vps (the_table s a) @ [v] \<and> swap_backed (id_of s' v) \<and>
    (\<forall>w \<in> live s. id_of s w \<noteq> id_of s' v) \<and> contents io s' (id_of s' v) = Some (\<lambda>_. nul) \<and>
    (\<forall>i. i \<noteq> id_of s' v \<longrightarrow> contents io s' i = contents io s i)"
proof -
  note sw = pager_okD(5) [OF ok] and rs = pager_okD(7) [OF ok] and fr = pager_okD(6) [OF ok]
  note ad = added_ok [OF pager_okD(3,4) [OF ok] a c]
  have "available_swap_blocks s \<noteq> []" using sw n by (auto simp: swap_ok_def)
  then obtain k blocks where av: "available_swap_blocks s = k # blocks" by (cases "available_swap_blocks s") auto
  let ?i = "\<lparr>filename = [], block = k, swap_backed = True\<rparr>" and ?v = "next_address s"
  have reg: "page_table_base_register s = a" using pager_okD(3) [OF ok] a by (simp add: tables_ok_def)
  have np: "?v \<notin> set (peer_map s ?i)" using ad(4) pager_okD(4) [OF ok] by (auto simp: peers_ok_def)
  define s1 where "s1 = added a ?i (mk_pte 0 True False) s"
  define s' where "s' = s1\<lparr>available_swap_blocks := blocks, num_swap_blocks := num_swap_blocks s - 1,
      peer_in_phys := (peer_in_phys s)(?i := Some 0)\<rparr>"
  have run: "vm_map io None b s = Some (VM_ARENA_BASEADDR + of_nat (cnt (the_table s a) * VM_PAGESIZE), s')"
    using a c n np by (simp add: vm_map_def map_swap_def av new_page_def insert_peer_def Let_def s'_def s1_def added_def reg id_of_def)
  have idv: "id_of s' w = (if w = ?v then ?i else id_of s w)" for w
    using id_of_added [of a ?i "mk_pte 0 True False" s w] by (simp add: s'_def s1_def id_of_def)
  have lv: "live s' = insert ?v (live s)" using ad(2) [where i = ?i and e = "mk_pte 0 True False"] by (simp add: s'_def s1_def live_def)
  have new: "id_of s w \<noteq> ?i" if "w \<in> live s" for w
    using live_id(2) [OF sw that] by (auto simp: av)
  have mem: "memory_of s1 = memory_of s" by (simp add: s1_def)
  have pip: "peer_in_phys s' = (peer_in_phys s)(?i := Some 0)" by (simp add: s'_def)
  have f: "physical_table s' = physical_table s" "clock_queue s' = clock_queue s" "physmem s' = physmem s"
    "available_physical_pages s' = available_physical_pages s" "num_memory_pages s' = num_memory_pages s" "files s' = files s"
    using mem by (simp_all add: s'_def memory_of_def)
  have d: "disk io s' = disk io s" by (simp add: disk_def f fun_eq_iff)
  have av': "available_swap_blocks s' = blocks" by (simp add: s'_def)
  have nc: "p_id (physical_table s p) \<noteq> ?i" if "p \<in> set (clock_queue s)" for p
    using in_clock(3) [OF rs that] by (auto simp: av)
  have e: "entry_of s' ?v = mk_pte 0 True False" "\<And>w. w \<in> live s \<Longrightarrow> entry_of s' w = entry_of s w"
    using ad(5,6) [where i = ?i and e = "mk_pte 0 True False"] by (simp_all add: s'_def s1_def entry_of_def)
  have "tables_ok s'" using ad(1) [where i = ?i and e = "mk_pte 0 True False"]
    by (simp add: s'_def s1_def tables_ok_def table_ok_def id_of_def)
  moreover have "peers_ok s'" using ad(3) [where i = ?i and e = "mk_pte 0 True False"]
    by (simp add: s'_def s1_def peers_ok_def live_def id_of_def)
  moreover have "swap_ok S s'"
  proof -
    have sp: "swap_pages s' = insert ?v (swap_pages s)" "?v \<notin> swap_pages s"
      using ad(4) by (auto simp: swap_pages_def lv idv)
    have blk: "block (id_of s' w) = (if w = ?v then k else block (id_of s w))" for w by (simp add: idv)
    have img: "(\<lambda>w. block (id_of s' w)) ` swap_pages s' = insert k ((\<lambda>w. block (id_of s w)) ` swap_pages s)"
      using sp by (auto simp: blk image_iff)
    have s0: "distinct (k # blocks)" "num_swap_blocks s \<le> length (k # blocks)"
      "set (k # blocks) \<inter> (\<lambda>v. block (id_of s v)) ` swap_pages s = {}"
      "set (k # blocks) \<union> (\<lambda>v. block (id_of s v)) ` swap_pages s = {..<S}"
      "inj_on (\<lambda>v. block (id_of s v)) (swap_pages s)" "\<forall>v \<in> live s. id_ok S (id_of s v)"
      using sw unfolding swap_ok_def av by blast+
    have "inj_on (\<lambda>v. block (id_of s' v)) (insert ?v (swap_pages s))"
      using s0(3,5) sp(2) by (auto simp: inj_on_def blk)
    moreover have "id_ok S ?i" using s0(4) by (auto simp: id_ok_def)
    moreover have "\<forall>v \<in> live s'. id_ok S (id_of s' v)" using calculation(2) s0(6) ad(4) by (auto simp: lv idv)
    moreover have "available_swap_blocks s' = blocks" "num_swap_blocks s' = num_swap_blocks s - 1" by (simp_all add: s'_def)
    ultimately show ?thesis using s0(1-4) unfolding swap_ok_def img unfolding sp(1) by auto
  qed
  moreover have "frames_ok s'" using fr by (simp add: frames_ok_def f)
  moreover have "residence_ok S s'"
    using resident [OF rs] zero_resident [OF rs] in_clock [OF rs] nc
    by (intro residence_okI) (auto simp: f pip av' av split: if_splits)
  moreover have "data_ok io s'"
    using data_okD [OF pager_okD(8) [OF ok]] new by (intro data_okI) (auto simp: f pip lv idv d split: if_splits)
  moreover have "entry_ok s' w" if "w \<in> live s'" for w
  proof (cases "w = ?v")
    case True
    then show ?thesis using e(1) by (simp add: entry_ok_def idv pip mk_pte_def)
  next
    case False
    then have w: "w \<in> live s" using that lv by simp
    then show ?thesis using pager_okD(9) [OF ok w] e(2) [OF w] new [OF w] False f(1)
      by (subst entry_ok_same [of s' w s]) (simp_all add: idv pip)
  qed
  ultimately have "pager_ok io S s'" by (rule pager_okI)
  moreover have "contents io s' i = (if i = ?i then Some (\<lambda>_. nul) else contents io s i)" for i
    using fr by (simp add: contents_def pip d f frames_ok_def split: option.split)
  moreover have "vps (the_table s' a) = vps (the_table s a) @ [?v]" by (simp add: s'_def s1_def added_def Let_def)
  ultimately show ?thesis using run lv idv ad(4) new by (intro exI [of _ s'] exI [of _ ?v]) auto
qed

section \<open>vm_map of a file\<close>

text \<open>The distance from the end of the window of 24 bits: what the loop over the name comes closer to.\<close>

definition window :: "64 word \<Rightarrow> nat" where
  "window p = unat (p - VM_ARENA_BASEADDR) mod 2 ^ 48"

lemma vpn_window: "vpn_of p = window p div 2 ^ 16"
proof -
  have "unat (ucast (drop_bit 16 x) :: 32 word) = unat x mod 2 ^ 48 div 2 ^ 16" for x :: "64 word"
  proof -
    have "unat (ucast (drop_bit 16 x) :: 32 word) = unat x div 2 ^ 16 mod 2 ^ 32"
      by (simp add: unsigned_ucast_eq unat_drop_bit_eq take_bit_eq_mod) (simp add: drop_bit_eq_div)
    also have "\<dots> = unat x mod 2 ^ 48 div 2 ^ 16"
      using mod_mult2_eq [of "unat x" "2 ^ 16" "2 ^ 32"] by simp
    finally show ?thesis .
  qed
  then show ?thesis by (simp add: vpn_of_def window_def)
qed

lemma window_next: "window p < 2 ^ 48 - 1 \<Longrightarrow> window (p + 1) = window p + 1"
proof -
  assume w: "window p < 2 ^ 48 - 1"
  let ?x = "p - VM_ARENA_BASEADDR"
  have e: "p + 1 - VM_ARENA_BASEADDR = ?x + 1" by simp
  have "unat (?x + 1) mod 2 ^ 48 = (unat ?x + 1) mod 2 ^ 64 mod 2 ^ 48" by (simp add: unat_word_ariths)
  also have "\<dots> = (unat ?x + 1) mod 2 ^ 48" by (simp add: mod_mod_cancel)
  also have "\<dots> = (unat ?x mod 2 ^ 48 + 1) mod 2 ^ 48" by (rule mod_add_left_eq [symmetric])
  also have "\<dots> = unat ?x mod 2 ^ 48 + 1" using w by (simp add: window_def)
  finally show ?thesis by (simp add: window_def e)
qed

lemma offset_bound: "vpn_of p < 256 \<Longrightarrow> offset_of p < 65536"
proof -
  assume n: "vpn_of p < 256"
  let ?x = "p - VM_ARENA_BASEADDR"
  let ?v = "ucast (drop_bit 16 ?x) :: 32 word"
  have v: "unat ?v = unat ?x mod 2 ^ 48 div 2 ^ 16" using vpn_window [of p] by (simp add: vpn_of_def window_def)
  have "unat (push_bit 16 ?v) = unat ?v * 2 ^ 16"
    using n by (simp add: vpn_of_def unat_word_ariths push_bit_eq_mult unsigned_push_bit_eq take_bit_eq_mod)
  then have u: "unat (ucast (push_bit 16 ?v) :: 64 word) = unat ?v * 2 ^ 16"
    using n by (simp add: vpn_of_def unsigned_ucast_eq take_bit_eq_mod)
  have le: "unat ?v * 2 ^ 16 \<le> unat ?x" unfolding v by (metis div_times_less_eq_dividend le_trans mod_less_eq_dividend)
  then have "unat (?x - ucast (push_bit 16 ?v)) = unat ?x - unat ?v * 2 ^ 16"
    using u by (simp add: unat_sub word_le_nat_alt)
  then have o: "offset_of p = (unat ?x - unat ?v * 2 ^ 16) mod 2 ^ 32"
    by (simp add: offset_of_def unsigned_ucast_eq take_bit_eq_mod)
  have "unat ?x = 2 ^ 48 * (unat ?x div 2 ^ 48) + unat ?x mod 2 ^ 48" by simp
  moreover have "unat ?x mod 2 ^ 48 = unat ?v * 2 ^ 16 + unat ?x mod 2 ^ 48 mod 2 ^ 16" unfolding v by simp
  ultimately have "unat ?x - unat ?v * 2 ^ 16 = 2 ^ 48 * (unat ?x div 2 ^ 48) + unat ?x mod 2 ^ 48 mod 2 ^ 16" by linarith
  moreover have "(2 ^ 48 * q + r) mod 2 ^ 32 = r mod 2 ^ 32" for q r :: nat
    using mod_mult_self4 [of "2 ^ 32" "2 ^ 16 * q" r] by simp
  ultimately have "offset_of p = unat ?x mod 2 ^ 48 mod 2 ^ 16 mod 2 ^ 32" unfolding o by simp
  also have "\<dots> \<le> unat ?x mod 2 ^ 48 mod 2 ^ 16" by (rule mod_less_eq_dividend)
  also have "\<dots> < 2 ^ 16" by simp
  finally show ?thesis by simp
qed

text \<open>The bytes that the current process has at its addresses, and the strings that start there.\<close>

definition arena_byte :: "'f file_io \<Rightarrow> 'f pager \<Rightarrow> nat \<Rightarrow> 64 word \<Rightarrow> char option" where
  "arena_byte io s a p = (if vpn_of p < cnt (the_table s a)
     then map_option (\<lambda>x. x (offset_of p)) (contents io s (id_of s (vps (the_table s a) ! vpn_of p))) else None)"

fun spells :: "(64 word \<Rightarrow> char option) \<Rightarrow> 64 word \<Rightarrow> string \<Rightarrow> bool" where
  "spells f p [] \<longleftrightarrow> f p = Some nul"
| "spells f p (c # cs) \<longleftrightarrow> f p = Some c \<and> c \<noteq> nul \<and> spells f (p + 1) cs"

lemma spells_nul: "spells f p n \<Longrightarrow> nul \<notin> set n"
  by (induction n arbitrary: p) auto

lemma spells_None: "f p = None \<Longrightarrow> \<not> spells f p n"
  by (cases n) simp_all

lemma spells_step: "f p = Some c \<Longrightarrow> c \<noteq> nul \<Longrightarrow> spells f p n \<longleftrightarrow> (\<exists>m. n = c # m \<and> spells f (p + 1) m)"
  by (cases n) auto

lemma resident_data:
  assumes ok: "pager_ok io S s" and v: "v \<in> live s" and r: "read_enable (entry_of s v)"
  shows "contents io s (id_of s v) = Some (physmem s (ppage (entry_of s v)))" "ppage (entry_of s v) < 65536"
proof -
  let ?p = "ppage (entry_of s v)"
  have p: "peer_in_phys s (id_of s v) = Some ?p" using pager_okD(9) [OF ok v] r by (auto simp: entry_ok_def split: option.splits)
  then show "contents io s (id_of s v) = Some (physmem s ?p)" by (simp add: contents_def)
  show "?p < 65536"
  proof (cases "?p = 0")
    case False
    from resident(1) [OF pager_okD(7) [OF ok] p this] show ?thesis using frames_bound(4) [OF pager_okD(6) [OF ok]] by blast
  qed simp
qed

lemma read_byte_at: "p < 65536 \<Longrightarrow> n < 65536 \<Longrightarrow> read_byte s p n = physmem s p n"
  by (simp add: read_byte_def VM_PAGESIZE_def Let_def)

text \<open>
  The name is the string that the process has at the pointer; it is refused when there is none because the
  arena ends, or data are missing, before a null character.
\<close>

lemma read_name_ok:
  assumes laws: "file_laws io S"
  shows "pager_ok io S s \<Longrightarrow> cur_table s = Some a \<Longrightarrow>
    \<exists>r s'. read_name io p acc s = Some (r, s') \<and> pager_ok io S s' \<and> shape_of s' = shape_of s \<and>
      (\<forall>i. id_ok S i \<longrightarrow> contents io s' i = contents io s i) \<and>
      (case r of None \<Rightarrow> \<forall>n. \<not> spells (arena_byte io s a) p n
       | Some name \<Rightarrow> \<exists>n. name = acc @ n @ [nul] \<and> spells (arena_byte io s a) p n)"
proof (induction "2 ^ 24 - window p" arbitrary: p acc s rule: less_induct)
  case less
  let ?t = "the_table s a" and ?n = "vpn_of p" and ?f = "arena_byte io s a"
  show ?case
  proof (cases "?n < cnt ?t")
    case False
    then have "?f p = None" by (simp add: arena_byte_def)
    then show ?thesis using less.prems False spells_None [of ?f p] by (subst read_name.simps) simp
  next
    case True
    have ta: "table_ok s a" "tables s (cur_pid s) = Some a"
      using pager_okD(3) [OF less.prems(1)] less.prems(2) by (auto simp: tables_ok_def)
    then have len: "?n < length (vps ?t)" and n: "?n < 256"
      using True by (simp_all add: table_ok_def MAX_PAGE_NUM_def VM_ARENA_SIZE_def VM_PAGESIZE_def)
    have w: "window p < 2 ^ 24" using n by (simp add: vpn_window)
    let ?v = "vps ?t ! ?n"
    have v: "?v \<in> live s" by (rule live_nth [OF ta(2) len])
    have idk: "id_ok S (id_of s u)" if "u \<in> live s" for u using live_id(1) [OF pager_okD(5) [OF less.prems(1)] that] .
    have f: "?f p = map_option (\<lambda>x. x (offset_of p)) (contents io s (id_of s ?v))" using True by (simp add: arena_byte_def)
    obtain r s1 where st: "(if \<not> read_enable (entry_of s ?v) then vm_fault io p False s else Some (0, s)) = Some (r, s1)"
      "pager_ok io S s1" "shape_of s1 = shape_of s" "\<forall>i. id_ok S i \<longrightarrow> contents io s1 i = contents io s i" "r \<in> {0, - 1}"
      "r = 0 \<Longrightarrow> read_enable (entry_of s1 ?v)" "r = - 1 \<Longrightarrow> contents io s (id_of s ?v) = None"
    proof (cases "read_enable (entry_of s ?v)")
      case True
      then show ?thesis using less.prems(1) by (intro that [of 0 s]) simp_all
    next
      case False
      from vm_fault_ok [OF laws less.prems(1,2), of p False] \<open>?n < cnt ?t\<close> obtain r s1 where
        "vm_fault io p False s = Some (r, s1)" "pager_ok io S s1" "shape_of s1 = shape_of s"
        "\<forall>i. id_ok S i \<longrightarrow> contents io s1 i = contents io s i" "r \<in> {0, - 1}"
        "r = 0 \<longleftrightarrow> contents io s (id_of s ?v) \<noteq> None" "r = 0 \<longrightarrow> read_enable (entry_of s1 ?v)" by blast
      with False show ?thesis by (intro that [of r s1]) simp_all
    qed
    show ?thesis
    proof (cases "r = - 1")
      case True
      then have "read_name io p acc s = Some (None, s1)"
        using less.prems(2) st(1) \<open>?n < cnt ?t\<close> len by (subst read_name.simps) (simp add: Let_def)
      moreover have "?f p = None" using f st(7) True by simp
      ultimately show ?thesis using st(2-4) spells_None [of ?f p] by (intro exI [of _ None] exI [of _ s1]) simp
    next
      case ok: False
      let ?c = "read_byte s1 (ppage (entry_of s1 ?v)) (offset_of p)"
      have go: "read_name io p acc s = (if ?c = nul then Some (Some (acc @ [?c]), s1) else read_name io (p + 1) (acc @ [?c]) s1)"
        using less.prems(2) st(1) True len ok by (subst read_name.simps) (simp add: Let_def)
      have v1: "?v \<in> live s1" using v unfolding live_shape [OF st(3)] .
      have "read_enable (entry_of s1 ?v)" using st(5,6) ok by blast
      note rd = resident_data [OF st(2) v1 this]
      have "contents io s1 (id_of s1 ?v) = contents io s (id_of s ?v)"
        using st(4) idk [OF v] unfolding id_of_shape [OF st(3)] by blast
      with rd(1) have "contents io s (id_of s ?v) = Some (physmem s1 (ppage (entry_of s1 ?v)))" by simp
      then have c: "?f p = Some ?c" unfolding f read_byte_at [OF rd(2) offset_bound [OF n]] by simp
      show ?thesis
      proof (cases "?c = nul")
        case True
        then show ?thesis using go st(2-4) c by (intro exI [of _ "Some (acc @ [?c])"] exI [of _ s1]) (auto intro!: exI [of _ "[]"])
      next
        case False
        have "2 ^ 24 - window (p + 1) < 2 ^ 24 - window p" using w window_next [of p] by simp
        moreover have sh: "cur_table s1 = Some a" "the_table s1 = the_table s"
          using st(3) less.prems(2) by (simp_all add: shape_of_def)
        ultimately obtain r2 s2 where rest: "read_name io (p + 1) (acc @ [?c]) s1 = Some (r2, s2)" "pager_ok io S s2"
          "shape_of s2 = shape_of s1" "\<forall>i. id_ok S i \<longrightarrow> contents io s2 i = contents io s1 i"
          "case r2 of None \<Rightarrow> \<forall>n. \<not> spells (arena_byte io s1 a) (p + 1) n
            | Some name \<Rightarrow> \<exists>n. name = (acc @ [?c]) @ n @ [nul] \<and> spells (arena_byte io s1 a) (p + 1) n"
          using less.hyps [of "p + 1" s1 "acc @ [?c]"] st(2) by blast
        have "arena_byte io s1 a q = ?f q" for q
        proof (cases "vpn_of q < cnt ?t")
          case True
          then have "vps ?t ! vpn_of q \<in> live s" using ta live_nth [OF ta(2)] by (simp add: table_ok_def)
          then show ?thesis using st(4) idk unfolding arena_byte_def id_of_shape [OF st(3)] sh(2) by simp
        qed (simp add: arena_byte_def sh(2))
        then have e: "arena_byte io s1 a = ?f" by (rule ext)
        have "case r2 of None \<Rightarrow> \<forall>n. \<not> spells ?f p n | Some name \<Rightarrow> \<exists>n. name = acc @ n @ [nul] \<and> spells ?f p n"
          using rest(5) unfolding e by (auto simp: spells_step [of ?f, OF c False] split: option.splits)
        with rest(1-4) st(3,4) go False show ?thesis by (intro exI [of _ r2] exI [of _ s2]) simp
      qed
    qed
  qed
qed

lemma table_upd: "t\<lparr>vps := x, occupied_swap_blocks := occupied_swap_blocks t, cnt := y\<rparr> = t\<lparr>vps := x, cnt := y\<rparr>"
  by (cases t) simp

lemma map_file_ok:
  fixes b
  assumes ok: "pager_ok io S s" and a: "cur_table s = Some a" and c: "cnt (the_table s a) < MAX_PAGE_NUM"
    and name: "name = n @ [nul]" "nul \<notin> set n"
  defines "i \<equiv> \<lparr>filename = name, block = b, swap_backed = False\<rparr>"
  shows "\<exists>s1 v. map_file a name b s = Some s1 \<and>
    (let s' = s1\<lparr>the_table := (the_table s1)(a := (the_table s1 a)\<lparr>cnt := cnt (the_table s1 a) + 1\<rparr>)\<rparr> in
     pager_ok io S s' \<and> v \<notin> live s \<and> live s' = insert v (live s) \<and> (\<forall>w \<in> live s. id_of s' w = id_of s w) \<and>
     vps (the_table s' a) = vps (the_table s a) @ [v] \<and> id_of s' v = i \<and> contents io s' = contents io s \<and>
     cnt (the_table s1 a) = cnt (the_table s a))"
proof -
  note sw = pager_okD(5) [OF ok] and rs = pager_okD(7) [OF ok] and fr = pager_okD(6) [OF ok]
  note ad = added_ok [OF pager_okD(3,4) [OF ok] a c]
  let ?v = "next_address s"
  define e where "e = (case peer_in_phys s i of None \<Rightarrow> mk_pte (num_memory_pages s) False False
    | Some p \<Rightarrow> \<lparr>ppage = p, read_enable = referenced (physical_table s p),
        write_enable = referenced (physical_table s p) \<and> dirty (physical_table s p)\<rparr>)"
  define s' where "s' = added a i e s"
  have reg: "page_table_base_register s = a" using pager_okD(3) [OF ok] a by (simp add: tables_ok_def)
  have np: "?v \<notin> set (peer_map s i)" using ad(4) pager_okD(4) [OF ok] by (auto simp: peers_ok_def)
  have nz: "p \<noteq> 0 \<and> p < num_memory_pages s \<and> p < 2 ^ 20" if "peer_in_phys s i = Some p" for p
  proof -
    have "p \<noteq> 0" using zero_resident [OF rs, of i] that by (auto simp: i_def)
    with resident(1) [OF rs that] frames_bound [OF fr disjI2] show ?thesis by blast
  qed
  note mf = map_file_def new_page_def insert_peer_def Let_def reg id_of_def set_entry_def entry_of_def mk_pte_def
  have "map_file a name b s \<noteq> None" using nz by (auto simp: mf i_def split: option.split)
  then obtain s1 where run: "map_file a name b s = Some s1" by blast
  have s1: "s' = s1\<lparr>the_table := (the_table s1)(a := (the_table s1 a)\<lparr>cnt := cnt (the_table s1 a) + 1\<rparr>)\<rparr>"
  proof (cases "peer_in_phys s i")
    case None
    with run np show ?thesis by (auto simp: mf s'_def added_def e_def i_def table_upd)
  next
    case (Some p)
    with run np nz [OF Some] show ?thesis by (auto simp: mf s'_def added_def e_def i_def table_upd)
  qed
  have cs: "cnt (the_table s1 a) = cnt (the_table s a)"
    using run nz by (auto simp: mf i_def split: option.splits if_splits)
  have idv: "id_of s' w = (if w = ?v then i else id_of s w)" for w unfolding s'_def by (rule id_of_added)
  have lv: "live s' = insert ?v (live s)" unfolding s'_def by (rule ad(2))
  have mem: "memory_of s' = memory_of s" by (simp add: s'_def)
  note f = memory_same [OF mem]
  have en: "entry_of s' ?v = e" "\<And>w. w \<in> live s \<Longrightarrow> entry_of s' w = entry_of s w"
    unfolding s'_def using ad(5,6) by blast+
  have idk: "id_ok S i" using name by (auto simp: id_ok_def i_def)
  have "swap_ok S s'"
  proof -
    have sp: "swap_pages s' = swap_pages s" by (auto simp: swap_pages_def lv idv i_def ad(4))
    have blk: "block (id_of s' w) = block (id_of s w)" if "w \<in> swap_pages s" for w
      using that ad(4) by (auto simp: idv swap_pages_def)
    have img: "(\<lambda>w. block (id_of s' w)) ` swap_pages s' = (\<lambda>w. block (id_of s w)) ` swap_pages s"
      unfolding sp using blk by (intro image_cong) auto
    have "inj_on (\<lambda>w. block (id_of s' w)) (swap_pages s') = inj_on (\<lambda>w. block (id_of s w)) (swap_pages s)"
      unfolding sp using blk by (intro inj_on_cong) auto
    moreover have "\<forall>w \<in> live s'. id_ok S (id_of s' w)" using sw idk ad(4) by (auto simp: lv idv swap_ok_def)
    moreover have "available_swap_blocks s' = available_swap_blocks s" "num_swap_blocks s' = num_swap_blocks s"
      by (simp_all add: s'_def)
    ultimately show ?thesis using sw unfolding swap_ok_def img by simp
  qed
  moreover have "data_ok io s'"
    using data_okD [OF pager_okD(8) [OF ok]] ad(4)
    by (intro data_okI) (auto simp: f lv idv i_def split: if_splits)
  moreover have "entry_ok s' w" if "w \<in> live s'" for w
  proof (cases "w = ?v")
    case True
    then show ?thesis using en(1) nz by (auto simp: entry_ok_def idv f e_def mk_pte_def split: option.splits)
  next
    case False
    then have w: "w \<in> live s" using that lv by simp
    then show ?thesis using pager_okD(9) [OF ok w] en(2) [OF w] False f
      by (subst entry_ok_same [of s' w s]) (simp_all add: idv)
  qed
  moreover have "tables_ok s'" "peers_ok s'" unfolding s'_def by (rule ad)+
  ultimately have "pager_ok io S s'" using fr rs f by (intro pager_okI) simp_all
  moreover have "vps (the_table s' a) = vps (the_table s a) @ [?v]" by (simp add: s'_def added_def Let_def)
  moreover have "\<forall>w \<in> live s. id_of s' w = id_of s w" "id_of s' ?v = i" using ad(4) by (auto simp: idv)
  ultimately show ?thesis using ad(4) lv f(4) cs unfolding s1 
    by (intro exI [of _ s1] exI [of _ ?v]) (simp only: run Let_def simp_thms)
qed

end
