(* ===== verification/Pager_Destroy.thy ===== *)
theory Pager_Destroy imports Pager_Map begin

text \<open>
  \<open>vm_map\<close> as a whole, and \<open>vm_destroy\<close>: the loop over the pages of a process gives back its frames and
  blocks, and leaves the pages of the others and what they hold.
\<close>

lemma arena_address: "k < 2 ^ 24 \<Longrightarrow> unat (VM_ARENA_BASEADDR + of_nat k) = 0x600000000 + k"
  by (simp add: VM_ARENA_BASEADDR_def unat_word_ariths unat_of_nat)

lemma vm_map_ok:
  assumes laws: "file_laws io S" and ok: "pager_ok io S s" and a: "cur_table s = Some a"
  defines "new_addr \<equiv> VM_ARENA_BASEADDR + of_nat (cnt (the_table s a) * VM_PAGESIZE)"
  shows "\<exists>r s'. vm_map io name b s = Some (r, s') \<and> pager_ok io S s' \<and>
    (if r = 0 then shape_of s' = shape_of s \<and> (\<forall>i. id_ok S i \<longrightarrow> contents io s' i = contents io s i)
     else r = new_addr \<and> cnt (the_table s a) < MAX_PAGE_NUM \<and> (\<exists>v. v \<notin> live s \<and> live s' = insert v (live s) \<and>
       vps (the_table s' a) = vps (the_table s a) @ [v] \<and>
       (\<forall>w \<in> live s. id_of s' w = id_of s w \<and> contents io s' (id_of s w) = contents io s (id_of s w)) \<and>
       (\<forall>i. id_ok S i \<longrightarrow> i \<noteq> id_of s' v \<longrightarrow> contents io s' i = contents io s i) \<and>
       (case name of
          None \<Rightarrow> swap_backed (id_of s' v) \<and> contents io s' (id_of s' v) = Some (\<lambda>_. nul) \<and>
            (\<forall>w \<in> live s. id_of s w \<noteq> id_of s' v)
        | Some p \<Rightarrow> \<exists>n. spells (arena_byte io s a) p n \<and>
            id_of s' v = \<lparr>filename = n @ [nul], block = b, swap_backed = False\<rparr> \<and>
            contents io s' (id_of s' v) = contents io s (id_of s' v)))) \<and>
    (r \<noteq> 0 \<longleftrightarrow> cnt (the_table s a) < MAX_PAGE_NUM \<and>
       (case name of None \<Rightarrow> num_swap_blocks s \<noteq> 0 | Some p \<Rightarrow> \<exists>n. spells (arena_byte io s a) p n))"
proof (cases "cnt (the_table s a) < MAX_PAGE_NUM")
  case False
  then show ?thesis using a ok by (intro exI [of _ 0] exI [of _ s]) (simp add: vm_map_def)
next
  case c: True
  have "cnt (the_table s a) * VM_PAGESIZE < 2 ^ 24"
    using c by (simp add: MAX_PAGE_NUM_def VM_ARENA_SIZE_def VM_PAGESIZE_def)
  from arena_address [OF this] have nz: "new_addr \<noteq> 0" by (auto simp: new_addr_def)
  have idk: "id_ok S (id_of s w)" if "w \<in> live s" for w using live_id(1) [OF pager_okD(5) [OF ok] that] .
  show ?thesis
  proof (cases name)
    case None
    show ?thesis
    proof (cases "num_swap_blocks s = 0")
      case True
      then show ?thesis using a ok c None by (intro exI [of _ 0] exI [of _ s]) (simp add: vm_map_def)
    next
      case pos: False
      from map_swap_ok [OF ok a c this, of b, folded new_addr_def] obtain s' v where
        m: "vm_map io None b s = Some (new_addr, s')" "pager_ok io S s'" "v \<notin> live s" "live s' = insert v (live s)"
          "\<forall>w \<in> live s. id_of s' w = id_of s w" "vps (the_table s' a) = vps (the_table s a) @ [v]"
          "swap_backed (id_of s' v)" "\<forall>w \<in> live s. id_of s w \<noteq> id_of s' v"
          "contents io s' (id_of s' v) = Some (\<lambda>_. nul)" "\<forall>i. i \<noteq> id_of s' v \<longrightarrow> contents io s' i = contents io s i"
        by (elim exE conjE) (rule that)
      then show ?thesis using nz c None pos by (intro exI [of _ new_addr] exI [of _ s']) auto
    qed
  next
    case (Some p)
    obtain r s1 where rn: "read_name io p [] s = Some (r, s1)" "pager_ok io S s1" "shape_of s1 = shape_of s"
      "\<forall>i. id_ok S i \<longrightarrow> contents io s1 i = contents io s i"
      "case r of None \<Rightarrow> \<forall>n. \<not> spells (arena_byte io s a) p n
        | Some name \<Rightarrow> \<exists>n. name = [] @ n @ [nul] \<and> spells (arena_byte io s a) p n"
      using read_name_ok [OF laws ok a, of p "[]"] by (elim exE conjE) (rule that)
    show ?thesis
    proof (cases r)
      case None
      then show ?thesis using Some rn a c by (intro exI [of _ 0] exI [of _ s1]) (simp add: vm_map_def)
    next
      case r: (Some nm)
      obtain n where n: "nm = n @ [nul]" "nul \<notin> set n" and sp: "spells (arena_byte io s a) p n"
        using rn(5) r spells_nul by auto
      have sh: "the_table s1 = the_table s" "cur_table s1 = cur_table s" using rn(3) by (simp_all add: shape_of_def)
      have cur: "cur_table s1 = Some a" "cnt (the_table s1 a) < MAX_PAGE_NUM" using sh a c by simp_all
      let ?i = "\<lparr>filename = nm, block = b, swap_backed = False\<rparr>"
      obtain s2 v where m: "map_file a nm b s1 = Some s2" and k: "let s' = s2\<lparr>the_table := (the_table s2)(a := (the_table s2 a)
          \<lparr>cnt := cnt (the_table s2 a) + 1\<rparr>)\<rparr> in pager_ok io S s' \<and> v \<notin> live s1 \<and> live s' = insert v (live s1) \<and>
          (\<forall>w \<in> live s1. id_of s' w = id_of s1 w) \<and> vps (the_table s' a) = vps (the_table s1 a) @ [v] \<and>
          id_of s' v = ?i \<and> contents io s' = contents io s1 \<and> cnt (the_table s2 a) = cnt (the_table s1 a)"
        using map_file_ok [OF rn(2) cur n, of b] by (elim exE conjE) (rule that)
      let ?s = "s2\<lparr>the_table := (the_table s2)(a := (the_table s2 a)\<lparr>cnt := cnt (the_table s2 a) + 1\<rparr>)\<rparr>"
      have "vm_map io name b s = Some (new_addr, ?s)"
        using Some a c rn(1) r m unfolding new_addr_def by (simp add: vm_map_def Let_def)
      moreover note k [unfolded Let_def live_shape [OF rn(3)] id_of_shape [OF rn(3)] sh]
      moreover have "id_ok S ?i" using n by (auto simp: id_ok_def)
      ultimately show ?thesis using nz c Some rn(4) idk n(1) sp by (intro exI [of _ new_addr] exI [of _ ?s]) auto
    qed
  qed
qed

section \<open>vm_destroy\<close>

definition heap_of where
  "heap_of s = (tables s, the_table s, the_page s, the_pte s, next_address s, cur_table s, cur_pid s,
     page_table_base_register s, num_swap_blocks s, num_memory_pages s)"

text \<open>The invariant in the middle of the loop, when only the pages of \<open>L\<close> are left.\<close>

definition left :: "'f file_io \<Rightarrow> nat \<Rightarrow> nat set \<Rightarrow> 'f pager \<Rightarrow> bool" where
  "left io S L s \<longleftrightarrow> frames_ok s \<and> residence_ok S s \<and> (\<forall>v \<in> L. entry_ok s v) \<and>
     (\<forall>i. distinct (peer_map s i) \<and> set (peer_map s i) = {v \<in> L. id_of s v = i}) \<and>
     distinct (available_swap_blocks s) \<and> (\<forall>v \<in> L. id_ok S (id_of s v)) \<and>
     (\<forall>v \<in> L. swap_backed (id_of s v) \<longrightarrow> block (id_of s v) \<notin> set (available_swap_blocks s)) \<and>
     (\<forall>v \<in> L. \<forall>w \<in> L. swap_backed (id_of s v) \<longrightarrow> id_of s v = id_of s w \<longrightarrow> v = w) \<and>
     set (available_swap_blocks s) \<union> (\<lambda>v. block (id_of s v)) ` {v \<in> L. swap_backed (id_of s v)} = {..<S} \<and>
     (\<forall>p \<in> set (clock_queue s). (\<not> dirty (physical_table s p) \<longrightarrow> disk io s (p_id (physical_table s p)) = Some (physmem s p)) \<and>
        (\<not> swap_backed (p_id (physical_table s p)) \<longrightarrow> disk io s (p_id (physical_table s p)) \<noteq> None)) \<and>
     (\<forall>v \<in> L. peer_in_phys s (id_of s v) = None \<longrightarrow> swap_backed (id_of s v) \<longrightarrow> disk io s (id_of s v) \<noteq> None)"

lemma swap_id: "id_ok S i \<Longrightarrow> id_ok S j \<Longrightarrow> swap_backed i \<Longrightarrow> swap_backed j \<Longrightarrow> block i = block j \<Longrightarrow> i = j"
  by (simp add: id_ok_def)

lemma ok_left:
  assumes ok: "pager_ok io S s" shows "left io S (live s) s"
proof -
  note sw = pager_okD(5) [OF ok]
  have "v = w" if "v \<in> live s" "w \<in> live s" "swap_backed (id_of s v)" "id_of s v = id_of s w" for v w
    using sw that inj_onD [of "\<lambda>v. block (id_of s v)" "swap_pages s" v w] by (simp add: swap_ok_def swap_pages_def)
  then have "\<forall>v \<in> live s. \<forall>w \<in> live s. swap_backed (id_of s v) \<longrightarrow> id_of s v = id_of s w \<longrightarrow> v = w" by blast
  then show ?thesis using pager_okD(4,6,7,8,9) [OF ok] sw live_id [OF sw]
    by (simp add: left_def peers_ok_def data_ok_def swap_ok_def swap_pages_def)
qed

lemma destroy_page_ok:
  assumes lf: "left io S L s" and v: "v \<in> L"
  shows "\<exists>s'. destroy_page v s = Some s' \<and> left io S (L - {v}) s' \<and> heap_of s' = heap_of s \<and>
    length (available_swap_blocks s') = length (available_swap_blocks s) + (if swap_backed (id_of s v) then 1 else 0) \<and>
    (\<forall>i. \<not> swap_backed i \<or> i \<noteq> id_of s v \<longrightarrow> contents io s' i = contents io s i)"
proof -
  let ?i = "id_of s v" and ?p = "ppage (entry_of s v)"
  have fr: "frames_ok s" and rs: "residence_ok S s" and en: "\<And>w. w \<in> L \<Longrightarrow> entry_ok s w"
    using lf by (simp_all add: left_def)
  have pr: "distinct (peer_map s i) \<and> set (peer_map s i) = {v \<in> L. id_of s v = i}" for i
    using lf by (simp add: left_def)
  have idk: "id_ok S (id_of s w)" if "w \<in> L" for w using lf that by (simp add: left_def)
  have own: "v = w" if "w \<in> L" "swap_backed ?i" "?i = id_of s w" for w using lf v that by (simp add: left_def)
  have cl: "(\<not> dirty (physical_table s p) \<longrightarrow> disk io s (p_id (physical_table s p)) = Some (physmem s p)) \<and>
      (\<not> swap_backed (p_id (physical_table s p)) \<longrightarrow> disk io s (p_id (physical_table s p)) \<noteq> None)"
    if "p \<in> set (clock_queue s)" for p using lf that by (simp add: left_def)
  define drop where "drop = (check_residence s v \<and> ?p \<noteq> 0 \<and> swap_backed ?i)"
  have dr: "peer_in_phys s ?i = Some ?p \<and> ?p \<in> set (clock_queue s) \<and> p_id (physical_table s ?p) = ?i \<and>
      ?p \<noteq> 0 \<and> ?p < num_memory_pages s" if drop
  proof -
    have "peer_in_phys s ?i = Some ?p" "?p \<noteq> 0"
      using that en [OF v] by (auto simp: drop_def check_residence_def entry_ok_def split: option.splits)
    with resident [OF rs this] frames_bound(3) [OF fr, of ?p] show ?thesis by simp
  qed
  have nd: "peer_in_phys s ?i \<in> {None, Some 0}" if "\<not> drop" "swap_backed ?i"
    using that en [OF v] by (auto simp: drop_def check_residence_def entry_ok_def split: option.splits)
  define s' where "s' = s\<lparr>peer_map := (peer_map s)(?i := removeAll v (peer_map s ?i)),
     physical_table := (if drop then (physical_table s)(?p := (physical_table s ?p)\<lparr>dirty := False\<rparr>) else physical_table s),
     available_physical_pages := (if drop then available_physical_pages s @ [?p] else available_physical_pages s),
     clock_queue := (if drop then remove1 ?p (clock_queue s) else clock_queue s),
     peer_in_phys := (if drop then (peer_in_phys s)(?i := None) else peer_in_phys s),
     available_swap_blocks := (if swap_backed ?i then available_swap_blocks s @ [block ?i] else available_swap_blocks s)\<rparr>"
  have run: "destroy_page v s = Some s'"
    using dr unfolding destroy_page_def s'_def Let_def drop_def
    by (auto simp: check_residence_def id_of_def entry_of_def set_physical_def)
  have idv: "id_of s' = id_of s" by (simp add: s'_def id_of_def fun_eq_iff)
  have ent: "entry_of s' = entry_of s" by (simp add: s'_def entry_of_def fun_eq_iff)
  have d: "disk io s' = disk io s" by (simp add: s'_def disk_def fun_eq_iff)
  have f: "peer_map s' = (peer_map s)(?i := removeAll v (peer_map s ?i))"
    "physical_table s' = (if drop then (physical_table s)(?p := (physical_table s ?p)\<lparr>dirty := False\<rparr>) else physical_table s)"
    "available_physical_pages s' = (if drop then available_physical_pages s @ [?p] else available_physical_pages s)"
    "clock_queue s' = (if drop then remove1 ?p (clock_queue s) else clock_queue s)"
    "peer_in_phys s' = (if drop then (peer_in_phys s)(?i := None) else peer_in_phys s)"
    "available_swap_blocks s' = (if swap_backed ?i then available_swap_blocks s @ [block ?i] else available_swap_blocks s)"
    "physmem s' = physmem s" "num_memory_pages s' = num_memory_pages s"
    by (simp_all add: s'_def)
  have hp: "heap_of s' = heap_of s" by (simp add: heap_of_def s'_def)
  have fresh: "block (id_of s w) \<notin> set (available_swap_blocks s)" if "w \<in> L" "swap_backed (id_of s w)" for w
    using lf that by (simp add: left_def)
  have dc: "distinct (clock_queue s)" using fr by (simp add: frames_ok_def)
  have ck: "q \<in> set (clock_queue s)" "p_id (physical_table s q) = ?i \<Longrightarrow> \<not> swap_backed ?i" "drop \<Longrightarrow> q \<noteq> ?p"
    if q: "q \<in> set (clock_queue s')" for q
  proof -
    show qc: "q \<in> set (clock_queue s)" using q set_remove1_subset [of ?p "clock_queue s"] by (auto simp: f split: if_splits)
    show ne: "drop \<Longrightarrow> q \<noteq> ?p" using q dc by (auto simp: f)
    show "\<not> swap_backed ?i" if "p_id (physical_table s q) = ?i"
      using in_clock(1) [OF rs qc] that nd ne dr frames_bound(1) [OF fr disjI2 [OF qc]] by auto
  qed
  have "frames_ok s'"
  proof (cases drop)
    case True
    note p = dr [OF True]
    have "?p \<notin> set (available_physical_pages s)" using fr p by (auto simp: frames_ok_def)
    moreover have "set (remove1 ?p (clock_queue s)) = set (clock_queue s) - {?p}" using dc by simp
    ultimately show ?thesis using fr p True by (auto simp: frames_ok_def f)
  next
    case False
    then show ?thesis using fr by (simp add: frames_ok_def f)
  qed
  moreover have "residence_ok S s'"
  proof (rule residence_okI)
    fix i q assume q: "peer_in_phys s' i = Some q" "q \<noteq> 0"
    then have q0: "peer_in_phys s i = Some q" "drop \<Longrightarrow> i \<noteq> ?i" by (auto simp: f split: if_splits)
    note r = resident [OF rs q0(1) q(2)]
    then have "drop \<Longrightarrow> q \<noteq> ?p" using dr q0(2) by auto
    with r show "q \<in> set (clock_queue s') \<and> p_id (physical_table s' q) = i" by (auto simp: f)
  next
    show "swap_backed i" if "peer_in_phys s' i = Some 0" for i
      using that zero_resident [OF rs] by (auto simp: f split: if_splits)
  next
    fix q assume q: "q \<in> set (clock_queue s')"
    note c = in_clock [OF rs ck(1) [OF q]] ck(2,3) [OF q]
    have "block (p_id (physical_table s q)) \<noteq> block ?i" if "swap_backed (p_id (physical_table s q))" "swap_backed ?i"
      using swap_id [OF c(2) idk [OF v] that] c(4) that by auto
    moreover have "drop \<Longrightarrow> p_id (physical_table s q) \<noteq> ?i" using c(4) by (auto simp: drop_def)
    ultimately show "peer_in_phys s' (p_id (physical_table s' q)) = Some q \<and> id_ok S (p_id (physical_table s' q)) \<and>
      (swap_backed (p_id (physical_table s' q)) \<longrightarrow> block (p_id (physical_table s' q)) \<notin> set (available_swap_blocks s'))"
      using c by (auto simp: f)
  qed
  moreover have "entry_ok s' w" if w: "w \<in> L - {v}" for w
  proof -
    have ne: "id_of s w \<noteq> ?i" if "swap_backed ?i" using own [OF _ that, of w] w by auto
    moreover have "r \<noteq> ?p" if "drop" "peer_in_phys s (id_of s w) = Some r" for r
      using resident(2) [OF rs that(2)] dr [OF that(1)] ne that(1) by (auto simp: drop_def)
    moreover have "drop \<Longrightarrow> swap_backed ?i" by (simp add: drop_def)
    ultimately show ?thesis using en [of w] w by (cases drop) (auto simp: entry_ok_def f idv ent split: option.splits)
  qed
  moreover have "distinct (peer_map s' i) \<and> set (peer_map s' i) = {w \<in> L - {v}. id_of s' w = i}" for i
    using pr [of i] by (auto simp: f idv distinct_removeAll)
  moreover have "distinct (available_swap_blocks s')" using lf fresh [OF v] by (simp add: f left_def)
  moreover have "block (id_of s' w) \<notin> set (available_swap_blocks s')" if "w \<in> L - {v}" "swap_backed (id_of s' w)" for w
  proof -
    have w: "w \<in> L" "swap_backed (id_of s w)" using that by (simp_all add: idv)
    have "block (id_of s w) \<noteq> block ?i" if "swap_backed ?i"
      using swap_id [OF idk [OF w(1)] idk [OF v] w(2) that] own [OF w(1) that] \<open>w \<in> L - {v}\<close> by auto
    with fresh [OF w] show ?thesis by (simp add: f idv)
  qed
  moreover have "set (available_swap_blocks s') \<union> (\<lambda>v. block (id_of s' v)) ` {w \<in> L - {v}. swap_backed (id_of s' w)} = {..<S}"
  proof -
    have "{w \<in> L. swap_backed (id_of s w)} = (if swap_backed ?i then insert v {w \<in> L - {v}. swap_backed (id_of s w)}
        else {w \<in> L - {v}. swap_backed (id_of s w)})" using v by auto
    moreover have "set (available_swap_blocks s) \<union> (\<lambda>v. block (id_of s v)) ` {v \<in> L. swap_backed (id_of s v)} = {..<S}"
      using lf by (simp add: left_def)
    ultimately show ?thesis by (auto simp: f idv split: if_splits)
  qed
  moreover have "(\<not> dirty (physical_table s' q) \<longrightarrow> disk io s' (p_id (physical_table s' q)) = Some (physmem s' q)) \<and>
      (\<not> swap_backed (p_id (physical_table s' q)) \<longrightarrow> disk io s' (p_id (physical_table s' q)) \<noteq> None)"
    if "q \<in> set (clock_queue s')" for q
    using cl [OF ck(1) [OF that]] ck(3) [OF that] by (auto simp: f d)
  moreover have "disk io s' (id_of s' w) \<noteq> None"
    if "w \<in> L - {v}" "peer_in_phys s' (id_of s' w) = None" "swap_backed (id_of s' w)" for w
  proof -
    have "id_of s w \<noteq> ?i" using own [of w] that by (metis DiffE idv singletonI)
    then show ?thesis using lf that by (auto simp: left_def f d idv split: if_splits)
  qed
  moreover have "\<forall>w \<in> L - {v}. id_ok S (id_of s' w)" using idk by (simp add: idv)
  moreover have "\<forall>w \<in> L - {v}. \<forall>x \<in> L - {v}. swap_backed (id_of s' w) \<longrightarrow> id_of s' w = id_of s' x \<longrightarrow> w = x"
  proof -
    have "\<forall>w \<in> L. \<forall>x \<in> L. swap_backed (id_of s w) \<longrightarrow> id_of s w = id_of s x \<longrightarrow> w = x" using lf unfolding left_def by (elim conjE)
    then show ?thesis unfolding idv by blast
  qed
  ultimately have "left io S (L - {v}) s'"
    unfolding left_def by (intro conjI ballI allI impI) simp_all
  moreover have "contents io s' i = contents io s i" if "\<not> swap_backed i \<or> i \<noteq> ?i" for i
    using that by (auto simp: contents_def f d drop_def split: option.split)
  ultimately show ?thesis using run hp by (intro exI [of _ s']) (simp add: f)
qed

lemma heap_same:
  assumes "heap_of s' = heap_of s"
  shows "id_of s' = id_of s" "live s' = live s" "the_table s' = the_table s" "tables s' = tables s"
    "num_swap_blocks s' = num_swap_blocks s" "cur_pid s' = cur_pid s"
  using assms by (auto simp: heap_of_def id_of_def live_def fun_eq_iff)

lemma destroy_pages_ok:
  "left io S L s \<Longrightarrow> set vs \<subseteq> L \<Longrightarrow> distinct vs \<Longrightarrow>
   \<exists>s'. destroy_pages vs s = Some s' \<and> left io S (L - set vs) s' \<and> heap_of s' = heap_of s \<and>
     length (available_swap_blocks s') = length (available_swap_blocks s) + length (filter (\<lambda>v. swap_backed (id_of s v)) vs) \<and>
     (\<forall>i. \<not> swap_backed i \<or> i \<notin> id_of s ` set vs \<longrightarrow> contents io s' i = contents io s i)"
proof (induction vs arbitrary: L s)
  case (Cons v vs)
  obtain s1 where one: "destroy_page v s = Some s1" "left io S (L - {v}) s1" "heap_of s1 = heap_of s"
    "length (available_swap_blocks s1) = length (available_swap_blocks s) + (if swap_backed (id_of s v) then 1 else 0)"
    "\<forall>i. \<not> swap_backed i \<or> i \<noteq> id_of s v \<longrightarrow> contents io s1 i = contents io s i"
    using destroy_page_ok [OF Cons.prems(1), of v] Cons.prems(2) by auto
  have sub: "set vs \<subseteq> L - {v}" "distinct vs" using Cons.prems by auto
  obtain s' where rest: "destroy_pages vs s1 = Some s'" "left io S (L - {v} - set vs) s'" "heap_of s' = heap_of s1"
    "length (available_swap_blocks s') = length (available_swap_blocks s1) + length (filter (\<lambda>v. swap_backed (id_of s v)) vs)"
    "\<forall>i. \<not> swap_backed i \<or> i \<notin> id_of s ` set vs \<longrightarrow> contents io s' i = contents io s1 i"
    using Cons.IH [OF one(2) sub] unfolding heap_same(1) [OF one(3)] by (elim exE conjE) (rule that)
  have "L - set (v # vs) = L - {v} - set vs" by auto
  with one rest show ?case by (intro exI [of _ s']) auto
qed simp

lemma vps_distinct:
  assumes "table_ok s a" shows "distinct (vps (the_table s a))"
  unfolding distinct_conv_nth
proof (intro allI impI)
  fix i j assume h: "i < length (vps (the_table s a))" "j < length (vps (the_table s a))" "i \<noteq> j"
  then have "v_entry (the_page s (vps (the_table s a) ! i)) = (a, i)" "v_entry (the_page s (vps (the_table s a) ! j)) = (a, j)"
    using assms by (simp_all add: table_ok_def)
  with h(3) show "vps (the_table s a) ! i \<noteq> vps (the_table s a) ! j" by auto
qed

lemma vm_destroy_ok:
  assumes ok: "pager_ok io S s" and a: "cur_table s = Some a"
  shows "\<exists>s'. vm_destroy s = Some s' \<and> pager_ok io S s' \<and> live s' = live s - set (vps (the_table s a)) \<and>
    tables s' = (tables s)(cur_pid s := None) \<and> cur_table s' = None \<and> id_of s' = id_of s \<and>
    (\<forall>w \<in> live s'. contents io s' (id_of s w) = contents io s (id_of s w)) \<and>
    num_swap_blocks s' = num_swap_blocks s + occupied_swap_blocks (the_table s a)"
proof -
  let ?vs = "vps (the_table s a)"
  have tb: "tables_ok s" by (rule pager_okD(3) [OF ok])
  then have ta: "tables s (cur_pid s) = Some a" using a by (simp add: tables_ok_def)
  have tok: "table_ok s b" if "tables s pid = Some b" for pid b using tb that unfolding tables_ok_def by blast
  note oka = tok [OF ta]
  have sub: "set ?vs \<subseteq> live s" using ta by (auto simp: live_def)
  obtain s1 where loop: "destroy_pages ?vs s = Some s1" "left io S (live s - set ?vs) s1" "heap_of s1 = heap_of s"
    "length (available_swap_blocks s1) = length (available_swap_blocks s) + length (filter (\<lambda>v. swap_backed (id_of s v)) ?vs)"
    "\<forall>i. \<not> swap_backed i \<or> i \<notin> id_of s ` set ?vs \<longrightarrow> contents io s1 i = contents io s i"
    using destroy_pages_ok [OF ok_left [OF ok] sub vps_distinct [OF oka]] by (elim exE conjE) (rule that)
  note hs = heap_same [OF loop(3)]
  define s' where "s' = s1\<lparr>num_swap_blocks := num_swap_blocks s1 + occupied_swap_blocks (the_table s1 a),
     tables := (tables s1)(cur_pid s1 := None), cur_table := None\<rparr>"
  have run: "vm_destroy s = Some s'" using a loop(1) by (simp add: vm_destroy_def s'_def hs)
  have idv: "id_of s' = id_of s" by (simp add: s'_def id_of_def fun_eq_iff hs(1) [unfolded id_of_def fun_eq_iff])
  have lv: "live s' = live s - set ?vs"
  proof -
    have dj: "set (vps (the_table s b)) \<inter> set ?vs = {}" if t: "tables s pid = Some b" and p: "pid \<noteq> cur_pid s" for pid b
    proof -
      have ne: "b \<noteq> a" using tb t p ta unfolding tables_ok_def by blast
      have "fst (v_entry (the_page s v)) = b" if "v \<in> set (vps (the_table s b))" for v
        using tok [OF t] that by (auto simp: table_ok_def in_set_conv_nth)
      moreover have "fst (v_entry (the_page s v)) = a" if "v \<in> set ?vs" for v
        using oka that by (auto simp: table_ok_def in_set_conv_nth)
      ultimately show ?thesis using ne by blast
    qed
    have tbl: "tables s' pid = (if pid = cur_pid s then None else tables s pid)" for pid by (simp add: s'_def hs)
    have th: "the_table s' b = the_table s b" for b by (simp add: s'_def hs)
    show ?thesis
    proof (intro set_eqI iffI)
      fix v assume "v \<in> live s'"
      then obtain pid b where h: "tables s' pid = Some b" "v \<in> set (vps (the_table s b))" unfolding live_def th by blast
      have q: "pid \<noteq> cur_pid s" "tables s pid = Some b" using h(1) tbl [of pid] by (simp_all split: if_splits)
      have "v \<in> live s" using q(2) h(2) unfolding live_def by blast
      moreover have "v \<notin> set ?vs" using dj [OF q(2,1)] h(2) by blast
      ultimately show "v \<in> live s - set ?vs" by simp
    next
      fix v assume v: "v \<in> live s - set ?vs"
      then obtain pid b where h: "tables s pid = Some b" "v \<in> set (vps (the_table s b))" unfolding live_def by blast
      have "pid \<noteq> cur_pid s" using h ta v by auto
      then have "tables s' pid = Some b" using h(1) tbl [of pid] by simp
      then show "v \<in> live s'" using h(2) unfolding live_def th by blast
    qed
  qed
  have mem: "memory_of s' = memory_of s1" by (simp add: memory_of_def s'_def)
  note f = memory_same [OF mem]
  have tt: "table_ok s' b" if "tables s pid = Some b" for pid b
    using tok [OF that] by (rule table_ok_grown) (use loop(3) in \<open>simp_all add: s'_def heap_of_def\<close>)
  have "tables_ok s'"
    unfolding tables_ok_def
  proof (intro conjI allI impI)
    show "table_ok s' b" if "tables s' pid = Some b" for pid b
      using that tt by (auto simp: s'_def hs split: if_splits)
    show "p = q" if "tables s' p = Some b" "tables s' q = Some b" for p q b
    proof -
      have "tables s p = Some b" "tables s q = Some b" using that by (auto simp: s'_def hs split: if_splits)
      with tb show ?thesis unfolding tables_ok_def by blast
    qed
    show "finite (dom (tables s'))" using tb by (simp add: s'_def hs tables_ok_def)
  qed (simp_all add: s'_def)
  moreover have "peers_ok s'" using loop(2) by (simp add: peers_ok_def left_def lv idv hs(1)) (simp add: s'_def)
  moreover have av: "available_swap_blocks s' = available_swap_blocks s1" by (simp add: s'_def)
  moreover have sp: "swap_pages s' = {v \<in> live s - set ?vs. swap_backed (id_of s v)}" by (auto simp: swap_pages_def lv idv)
  have "swap_ok S s'"
    unfolding swap_ok_def
  proof (intro conjI)
    have l: "distinct (available_swap_blocks s1)" "\<forall>v \<in> live s - set ?vs. id_ok S (id_of s v)"
      "\<forall>v \<in> live s - set ?vs. swap_backed (id_of s v) \<longrightarrow> block (id_of s v) \<notin> set (available_swap_blocks s1)"
      "\<forall>v \<in> live s - set ?vs. \<forall>w \<in> live s - set ?vs. swap_backed (id_of s v) \<longrightarrow> id_of s v = id_of s w \<longrightarrow> v = w"
      "set (available_swap_blocks s1) \<union> (\<lambda>v. block (id_of s v)) ` {v \<in> live s - set ?vs. swap_backed (id_of s v)} = {..<S}"
      using loop(2) unfolding left_def hs(1) by - (elim conjE, assumption)+
    show "distinct (available_swap_blocks s')" using l(1) av by simp
    show "num_swap_blocks s' \<le> length (available_swap_blocks s')"
      using pager_okD(5) [OF ok] oka loop(4) by (simp add: s'_def hs swap_ok_def table_ok_def)
    show "set (available_swap_blocks s') \<inter> (\<lambda>v. block (id_of s' v)) ` swap_pages s' = {}" using l(3) by (auto simp: av sp idv)
    show "set (available_swap_blocks s') \<union> (\<lambda>v. block (id_of s' v)) ` swap_pages s' = {..<S}"
      using l(5) by (simp only: av sp idv)
    show "inj_on (\<lambda>v. block (id_of s' v)) (swap_pages s')"
    proof (rule inj_onI)
      fix v w assume h: "v \<in> swap_pages s'" "w \<in> swap_pages s'" "block (id_of s' v) = block (id_of s' w)"
      then have "id_of s v = id_of s w" using swap_id [of S "id_of s v" "id_of s w"] l(2) by (simp add: sp idv)
      with h l(4) show "v = w" by (simp add: sp)
    qed
    show "\<forall>v \<in> live s'. id_ok S (id_of s' v)" using l(2) by (simp add: lv idv)
  qed
  moreover have "frames_ok s1" "residence_ok S s1" and en: "\<forall>v \<in> live s - set ?vs. entry_ok s1 v"
    using loop(2) by (simp_all add: left_def)
  moreover have "entry_ok s' v" if "v \<in> live s'" for v
  proof -
    have "entry_of s' v = entry_of s1 v" by (simp add: entry_of_def s'_def)
    moreover have "peer_in_phys s' (id_of s' v) = peer_in_phys s1 (id_of s1 v)" by (simp only: f idv hs(1))
    ultimately have "entry_ok s' v = entry_ok s1 v" using f(6) by (intro entry_ok_same)
    moreover have "v \<in> live s - set ?vs" using that unfolding lv .
    ultimately show ?thesis using en by blast
  qed
  moreover have "data_ok io s'"
    using loop(2) unfolding data_ok_def f lv idv by (simp add: left_def hs(1))
  ultimately have "pager_ok io S s'" by (intro pager_okI) (simp_all add: f)
  moreover have "contents io s' (id_of s w) = contents io s (id_of s w)" if "w \<in> live s'" for w
  proof -
    have "w \<in> live s" "w \<notin> set ?vs" using that lv by auto
    moreover have "v = w" if "v \<in> live s" "swap_backed (id_of s v)" "id_of s v = id_of s w" for v
      using ok_left [OF ok] that \<open>w \<in> live s\<close> by (simp add: left_def)
    ultimately have "\<not> swap_backed (id_of s w) \<or> id_of s w \<notin> id_of s ` set ?vs" using sub by (metis (no_types) image_iff subsetD)
    then show ?thesis using loop(5) unfolding f(4) by blast
  qed
  moreover have "tables s' = (tables s)(cur_pid s := None) \<and> cur_table s' = None \<and>
      num_swap_blocks s' = num_swap_blocks s + occupied_swap_blocks (the_table s a)"
    by (simp add: s'_def hs)
  ultimately show ?thesis using run lv idv by blast
qed

end
