(* ===== verification/Pager_Entries.thy ===== *)
theory Pager_Entries imports Pager_Destroy begin

text \<open>
  The entries of pages that a process has not mapped: none of them ever gives access, since every call
  writes entries of mapped pages only. With that the memory management unit needs no other check.
\<close>

section \<open>Calls that write entries of mapped pages only\<close>

definition entries :: "'f pager \<Rightarrow> (nat \<times> nat) set" where
  "entries s = (\<lambda>v. v_entry (the_page s v)) ` live s"

definition touches :: "'f pager \<Rightarrow> 'f pager \<Rightarrow> bool" where
  "touches s s' \<longleftrightarrow> shape_of s' = shape_of s \<and> (\<forall>e. e \<notin> entries s \<longrightarrow> the_pte s' e = the_pte s e)"

lemma entries_shape: "shape_of s' = shape_of s \<Longrightarrow> entries s' = entries s"
  using live_shape [of s' s] by (simp add: entries_def shape_of_def)

lemma tables_ok_shape: "shape_of s' = shape_of s \<Longrightarrow> tables_ok s' = tables_ok s"
proof -
  assume h: "shape_of s' = shape_of s"
  note i = id_of_shape [OF h]
  from h have "table_ok s' a = table_ok s a" for a by (simp add: shape_of_def table_ok_def i)
  then show ?thesis using h by (simp add: shape_of_def tables_ok_def)
qed

lemma peers_ok_shape: "shape_of s' = shape_of s \<Longrightarrow> peers_ok s' = peers_ok s"
  using live_shape [of s' s] id_of_shape [of s' s] by (simp add: peers_ok_def shape_of_def)

lemma touches_refl [simp]: "touches s s"
  by (simp add: touches_def)

lemma touches_trans [trans]: "touches s t \<Longrightarrow> touches t u \<Longrightarrow> touches s u"
  using entries_shape [of t s] by (simp add: touches_def)

lemma touches_shape: "touches s t \<Longrightarrow> shape_of t = shape_of s"
  by (simp add: touches_def)

lemma touches_set_entry: "v \<in> live s \<Longrightarrow> touches s (set_entry v e s)"
  by (auto simp: touches_def entries_def set_entry_def shape_of_def)

lemma touches_same: "shape_of s' = shape_of s \<Longrightarrow> the_pte s' = the_pte s \<Longrightarrow> touches s s'"
  by (simp add: touches_def)

lemma peers_live: "peers_ok s \<Longrightarrow> set (peer_map s i) \<subseteq> live s"
  by (auto simp: peers_ok_def)

lemma touches_revoke: "set vs \<subseteq> live s \<Longrightarrow> touches s (revoke vs s)"
proof (induction vs arbitrary: s)
  case (Cons v vs)
  let ?s = "set_entry v ((entry_of s v)\<lparr>read_enable := False, write_enable := False\<rparr>) s"
  have "touches s ?s" by (rule touches_set_entry) (use Cons.prems in simp)
  moreover have "touches ?s (revoke vs ?s)" by (rule Cons.IH) (use Cons.prems in simp)
  ultimately show ?case unfolding revoke.simps by (rule touches_trans)
qed simp

lemma touches_set_peer: "set vs \<subseteq> live s \<Longrightarrow> touches s (set_peer vs v s)"
proof (induction vs arbitrary: s)
  case (Cons w vs)
  let ?s = "set_entry w (mk_pte (ppage (entry_of s v)) True (write_enable (entry_of s v))) s"
  have "touches s ?s" by (rule touches_set_entry) (use Cons.prems in simp)
  moreover have "touches ?s (set_peer vs v ?s)" by (rule Cons.IH) (use Cons.prems in simp)
  ultimately show ?case unfolding set_peer.simps by (rule touches_trans)
qed simp

lemma touches_evict: "touches s (evict io p (s\<lparr>clock_queue := q\<rparr>))"
  by (rule touches_same) (simp_all add: evict_def write_back_def set_physical_def shape_of_def Let_def)

lemma touches_free: "get_free_physical_page io s = Some s' \<Longrightarrow> peers_ok s \<longrightarrow> touches s s'"
proof (induction rule: get_free_physical_page.raw_induct [rotated 1, consumes 1, case_names step])
  case (step get io s s')
  show ?case
  proof
    assume pr: "peers_ok s"
    show "touches s s'"
    proof (cases "available_physical_pages s = []")
      case False
      with step(2) show ?thesis by simp
    next
      case av: True
      then obtain p q where ck: "clock_queue s = p # q" and p: "p < num_memory_pages s" using step(2) by (auto split: list.splits if_splits)
      let ?r = "revoke (peer_map s (p_id (physical_table s p))) s"
      let ?t = "(set_physical p (\<lambda>x. x\<lparr>referenced := False\<rparr>) ?r)\<lparr>clock_queue := q @ [p]\<rparr>"
      show ?thesis
      proof (cases "referenced (physical_table s p)")
        case False
        then have "s' = evict io p (s\<lparr>clock_queue := q\<rparr>)" using step(2) av ck p by simp
        then show ?thesis by (simp add: touches_evict)
      next
        case True
        then have "get io ?t = Some s'" using step(2) av ck p True by simp
        then have "peers_ok ?t \<longrightarrow> touches ?t s'" by (rule step(1))
        moreover have t: "touches s ?t"
        proof -
          have "touches s ?r" by (rule touches_revoke [OF peers_live [OF pr]])
          also have "touches ?r ?t" by (rule touches_same) (simp_all add: set_physical_def shape_of_def)
          finally show ?thesis .
        qed
        moreover have "peers_ok ?t" using pr peers_ok_shape [OF touches_shape [OF t]] by simp
        ultimately show ?thesis using touches_trans by blast
      qed
    qed
  qed
qed

lemma touches_set_physical_page:
  "set_physical_page io v s = Some (b, s') \<Longrightarrow> v \<in> live s \<Longrightarrow> touches s s'"
proof -
  assume h: "set_physical_page io v s = Some (b, s')" and v: "v \<in> live s"
  then consider "s' = s" | e t where "s' = set_entry v e t" "shape_of t = shape_of s" "the_pte t = the_pte s"
    by (auto simp: set_physical_page_def Let_def set_physical_def shape_of_def split: list.splits option.splits if_splits)
  then show ?thesis
  proof cases
    case (2 e t)
    have "touches s t" by (rule touches_same) (use 2 in simp_all)
    also have "touches t s'" unfolding 2(1) by (rule touches_set_entry) (use v live_shape [OF 2(2)] in simp)
    finally show ?thesis .
  qed simp
qed

lemma touches_bring_in:
  assumes "bring_in io v s = Some (b, s')" "peers_ok s" "v \<in> live s" shows "touches s s'"
proof -
  obtain t where t: "get_free_physical_page io s = Some t" "set_physical_page io v t = Some (b, s')"
    using assms(1) by (auto simp: bring_in_def split: bind_splits)
  have st: "touches s t" using touches_free [OF t(1)] assms(2) by blast
  also have "touches t s'" by (rule touches_set_physical_page [OF t(2)]) (use assms(3) live_shape [OF touches_shape [OF st]] in simp)
  finally show ?thesis .
qed

lemma touches_write_access: "v \<in> live s \<Longrightarrow> touches s (write_access v s)"
proof -
  assume v: "v \<in> live s"
  let ?t = "set_physical (ppage (entry_of s v)) (\<lambda>x. x\<lparr>dirty := True\<rparr>) s"
  have "touches s ?t" by (rule touches_same) (simp_all add: set_physical_def shape_of_def)
  also have "touches ?t (write_access v s)" unfolding write_access_def
    by (rule touches_set_entry) (use v in \<open>simp add: live_def set_physical_def\<close>)
  finally show ?thesis .
qed

lemma touches_allow: "v \<in> live s \<Longrightarrow> peers_ok s \<Longrightarrow> touches s (allow v s)"
proof -
  assume v: "v \<in> live s" and pr: "peers_ok s"
  let ?r = "set_entry v ((entry_of s v)\<lparr>read_enable := True\<rparr>) s"
  let ?t = "set_physical (ppage (entry_of s v)) (\<lambda>x. x\<lparr>referenced := True\<rparr>) ?r"
  have "touches s ?r" by (rule touches_set_entry [OF v])
  also have "touches ?r ?t" by (rule touches_same) (simp_all add: set_physical_def shape_of_def)
  finally have t: "touches s ?t" .
  have "set (peer_map ?t i) \<subseteq> live ?t" for i
    using peers_live [of ?t i] pr peers_ok_shape [OF touches_shape [OF t]] by simp
  note t
  also have "touches ?t (allow v s)" unfolding allow_def Let_def
    by (rule touches_set_peer) (fact \<open>set (peer_map ?t _) \<subseteq> live ?t\<close>)
  finally show ?thesis .
qed

section \<open>The calls\<close>

lemma touches_vm_fault:
  assumes f: "vm_fault io addr w s = Some (r, s')" and tb: "tables_ok s" and pr: "peers_ok s" and a: "cur_table s = Some a"
  shows "touches s s'"
proof (cases "vpn_of addr < cnt (the_table s a)")
  case False
  with f a show ?thesis by (simp add: vm_fault_def Let_def)
next
  case True
  let ?v = "vps (the_table s a) ! vpn_of addr"
  have ta: "table_ok s a" "tables s (cur_pid s) = Some a" using tb a by (auto simp: tables_ok_def)
  then have len: "vpn_of addr < length (vps (the_table s a))" using True by (simp add: table_ok_def)
  have v: "?v \<in> live s" by (rule live_nth [OF ta(2) len])
  have mid: "touches s (allow ?v (g t))" if t: "touches s t" and g: "touches t (g t)" for g t
  proof -
    from t g have "touches s (g t)" by (rule touches_trans)
    note sh = touches_shape [OF this]
    note \<open>touches s (g t)\<close>
    also have "touches (g t) (allow ?v (g t))"
      by (rule touches_allow) (use v pr peers_ok_shape [OF sh] live_shape [OF sh] in simp_all)
    finally show ?thesis .
  qed
  have fetched: "touches s t" if "bring_in io ?v s = Some (b, t)" for b t by (rule touches_bring_in [OF that pr v])
  show ?thesis
  proof (cases w)
    case True
    obtain b t where t: "(if \<not> check_residence s ?v \<or> ppage (entry_of s ?v) = 0 then bring_in io ?v s else Some (True, s)) = Some (b, t)"
      and s': "s' = t \<or> s' = allow ?v (write_access ?v t)"
      using f a \<open>vpn_of addr < cnt (the_table s a)\<close> len True
      by (fastforce simp: vm_fault_def Let_def split: bind_splits if_splits prod.splits)
    have st: "touches s t" using t fetched by (auto split: if_splits)
    have "touches t (write_access ?v t)" by (rule touches_write_access) (use v live_shape [OF touches_shape [OF st]] in simp)
    from mid [of t "write_access ?v", OF st this] st s' show ?thesis by blast
  next
    case False
    show ?thesis
    proof (cases "check_residence s ?v")
      case True
      then have "s' = allow ?v s \<or> s' = allow ?v (set_entry ?v ((entry_of s ?v)\<lparr>write_enable := True\<rparr>) s)"
        using f a \<open>vpn_of addr < cnt (the_table s a)\<close> len False by (auto simp: vm_fault_def Let_def split: if_splits)
      moreover have "touches s (set_entry ?v ((entry_of s ?v)\<lparr>write_enable := True\<rparr>) s)" by (rule touches_set_entry [OF v])
      ultimately show ?thesis using mid [of s "\<lambda>s. s"] mid [of s "\<lambda>s. set_entry ?v ((entry_of s ?v)\<lparr>write_enable := True\<rparr>) s"] by auto
    next
      case nr: False
      obtain b t where t: "bring_in io ?v s = Some (b, t)" and s': "s' = t \<or> s' = allow ?v t"
        using f a \<open>vpn_of addr < cnt (the_table s a)\<close> len False nr
        by (fastforce simp: vm_fault_def Let_def split: bind_splits if_splits prod.splits)
      from mid [OF fetched [OF t], of "\<lambda>s. s"] fetched [OF t] s' show ?thesis by auto
    qed
  qed
qed

lemma touches_read_name:
  "read_name io p acc s = Some rs \<Longrightarrow> tables_ok s \<and> peers_ok s \<longrightarrow> touches s (snd rs)"
proof (induction rule: read_name.raw_induct [rotated 1, consumes 1, case_names step])
  case (step rd io p acc s rs)
  show ?case
  proof
    assume ok: "tables_ok s \<and> peers_ok s"
    obtain a where a: "cur_table s = Some a" using step(2) by (auto split: option.splits)
    show "touches s (snd rs)"
    proof (cases "vpn_of p < cnt (the_table s a)")
      case False
      then show ?thesis using step(2) a by auto
    next
      case True
      let ?v = "vps (the_table s a) ! vpn_of p"
      have len: "vpn_of p < length (vps (the_table s a))" using step(2) a True by (auto split: if_splits)
      obtain q where q: "(if \<not> read_enable (entry_of s ?v) then vm_fault io p False s else Some (0, s)) = Some q"
        and rest: "(if fst q = - 1 then Some (None, snd q)
          else let c = read_byte (snd q) (ppage (entry_of (snd q) ?v)) (offset_of p)
            in if c = nul then Some (Some (acc @ [c]), snd q) else rd io (p + 1) (acc @ [c]) (snd q)) = Some rs"
        using step(2) unfolding a using True len by (auto simp: Let_def split: bind_splits)
      have sq: "touches s (snd q)"
        using q touches_vm_fault [of io p False s "fst q" "snd q" a] ok a by (auto split: if_splits)
      have "snd rs = snd q \<or> (\<exists>acc. rd io (p + 1) acc (snd q) = Some rs)"
        using rest by (auto simp: Let_def split: if_splits)
      moreover have "tables_ok (snd q) \<and> peers_ok (snd q)"
        using ok tables_ok_shape [OF touches_shape [OF sq]] peers_ok_shape [OF touches_shape [OF sq]] by simp
      ultimately have "touches (snd q) (snd rs)" using step(1) [of io "p + 1" _ "snd q" rs] by (elim disjE exE) simp_all
      with sq show ?thesis by (rule touches_trans)
    qed
  qed
qed

section \<open>Entries of pages that are not mapped\<close>

definition idle_ok :: "'f pager \<Rightarrow> bool" where
  "idle_ok s \<longleftrightarrow> (\<forall>pid a i. tables s pid = Some a \<longrightarrow> cnt (the_table s a) \<le> i \<longrightarrow> i < MAX_PAGE_NUM \<longrightarrow>
     \<not> read_enable (the_pte s (a, i)) \<and> \<not> write_enable (the_pte s (a, i)))"

lemma idle_entry: "tables_ok s \<Longrightarrow> cnt (the_table s a) \<le> i \<Longrightarrow> (a, i) \<notin> entries s"
proof
  assume tb: "tables_ok s" and i: "cnt (the_table s a) \<le> i" and "(a, i) \<in> entries s"
  then obtain v where "v \<in> live s" "v_entry (the_page s v) = (a, i)" by (auto simp: entries_def)
  with live_entry [OF tb] i show False by (metis fst_conv snd_conv not_le)
qed

lemma idle_touches: "idle_ok s \<Longrightarrow> tables_ok s \<Longrightarrow> touches s s' \<Longrightarrow> idle_ok s'"
proof -
  assume i: "idle_ok s" and tb: "tables_ok s" and t: "touches s s'"
  have sh: "tables s' = tables s" "the_table s' = the_table s" using touches_shape [OF t] by (simp_all add: shape_of_def)
  show ?thesis unfolding idle_ok_def sh
  proof (intro allI impI)
    fix pid a j assume h: "tables s pid = Some a" "cnt (the_table s a) \<le> j" "j < MAX_PAGE_NUM"
    have "the_pte s' (a, j) = the_pte s (a, j)" using t idle_entry [OF tb h(2)] by (simp add: touches_def)
    with i h show "\<not> read_enable (the_pte s' (a, j)) \<and> \<not> write_enable (the_pte s' (a, j))" by (simp add: idle_ok_def)
  qed
qed

lemma idle_create:
  assumes i: "idle_ok s" and tb: "tables_ok s" and c: "vm_create parent child s = (r, s')"
  shows "idle_ok s'" "r = 0 \<Longrightarrow> \<exists>b. tables s' = (tables s)(child \<mapsto> b) \<and> vps (the_table s' b) = [] \<and>
    (\<forall>pid a. tables s pid = Some a \<longrightarrow> the_table s' a = the_table s a)"
    "cur_table s' = cur_table s" "cur_pid s' = cur_pid s"
proof -
  let ?b = "next_address s"
  have fresh: "a \<noteq> ?b" if "tables s pid = Some a" for pid a using tb that by (auto simp: tables_ok_def table_ok_def)
  consider "s' = s" "r \<noteq> 0" | n where "r = 0" "s' = s\<lparr>num_swap_blocks := n, tables := (tables s)(child \<mapsto> ?b),
        the_table := (the_table s)(?b := \<lparr>ptbr = ?b, vps = [], cnt = 0, occupied_swap_blocks = 0\<rparr>),
        the_pte := (\<lambda>(b, i). if b = ?b \<and> i < MAX_PAGE_NUM
              then (the_pte s (b, i))\<lparr>read_enable := False, write_enable := False\<rparr> else the_pte s (b, i)),
        next_address := ?b + 1\<rparr>"
  proof -
    assume refused: "s' = s \<Longrightarrow> r \<noteq> 0 \<Longrightarrow> thesis"
      and made: "\<And>n. r = 0 \<Longrightarrow> s' = s\<lparr>num_swap_blocks := n, tables := (tables s)(child \<mapsto> ?b),
        the_table := (the_table s)(?b := \<lparr>ptbr = ?b, vps = [], cnt = 0, occupied_swap_blocks = 0\<rparr>),
        the_pte := (\<lambda>(b, i). if b = ?b \<and> i < MAX_PAGE_NUM
              then (the_pte s (b, i))\<lparr>read_enable := False, write_enable := False\<rparr> else the_pte s (b, i)),
        next_address := ?b + 1\<rparr> \<Longrightarrow> thesis"
    let ?n = "case tables s parent of None \<Rightarrow> 0 | Some a \<Rightarrow> occupied_swap_blocks (the_table s a)"
    show thesis
    proof (cases "?n > num_swap_blocks s")
      case True
      with c show ?thesis by (intro refused) (simp_all add: vm_create_def)
    next
      case False
      with c show ?thesis
        by (intro made [of "num_swap_blocks s - ?n"]) (auto simp: vm_create_def new_table_def Let_def cong: if_cong)
    qed
  qed
  then have "idle_ok s' \<and> (r = 0 \<longrightarrow> (\<exists>b. tables s' = (tables s)(child \<mapsto> b) \<and> vps (the_table s' b) = [] \<and>
    (\<forall>pid a. tables s pid = Some a \<longrightarrow> the_table s' a = the_table s a))) \<and> cur_table s' = cur_table s \<and> cur_pid s' = cur_pid s"
  proof cases
    case 1
    with i show ?thesis by simp
  next
    case (2 n)
    have "idle_ok s'" unfolding idle_ok_def
    proof (intro allI impI)
      fix pid a j assume h: "tables s' pid = Some a" "cnt (the_table s' a) \<le> j" "j < MAX_PAGE_NUM"
      show "\<not> read_enable (the_pte s' (a, j)) \<and> \<not> write_enable (the_pte s' (a, j))"
      proof (cases "a = ?b")
        case True
        with h(3) show ?thesis by (simp add: 2(2))
      next
        case False
        with h have "tables s pid = Some a" "cnt (the_table s a) \<le> j" by (simp_all add: 2(2) split: if_splits)
        with i h(3) False show ?thesis by (simp add: idle_ok_def 2(2))
      qed
    qed
    moreover have "\<forall>pid a. tables s pid = Some a \<longrightarrow> the_table s' a = the_table s a" using fresh by (auto simp: 2(2))
    moreover have "tables s' = (tables s)(child \<mapsto> ?b)" "vps (the_table s' ?b) = []" "cur_table s' = cur_table s" "cur_pid s' = cur_pid s"
      by (simp_all add: 2(2))
    ultimately show ?thesis by blast
  qed
  then show "idle_ok s'" "r = 0 \<Longrightarrow> \<exists>b. tables s' = (tables s)(child \<mapsto> b) \<and> vps (the_table s' b) = [] \<and>
    (\<forall>pid a. tables s pid = Some a \<longrightarrow> the_table s' a = the_table s a)"
    "cur_table s' = cur_table s" "cur_pid s' = cur_pid s" by blast+
qed

lemma vm_switch_fields:
  assumes "vm_switch pid s = Some s'"
  shows "the_table s' = the_table s" "tables s' = tables s" "the_pte s' = the_pte s"
  using assms by (auto simp: vm_switch_def split: if_splits option.splits)

text \<open>A page added to the table \<open>a\<close>: one entry is written, the next one in it.\<close>

definition grows :: "nat \<Rightarrow> 'f pager \<Rightarrow> 'f pager \<Rightarrow> bool" where
  "grows a s s' \<longleftrightarrow> tables s' = tables s \<and> cur_table s' = cur_table s \<and> cur_pid s' = cur_pid s \<and>
     (\<forall>b. b \<noteq> a \<longrightarrow> the_table s' b = the_table s b) \<and> cnt (the_table s' a) = cnt (the_table s a) + 1 \<and>
     (\<forall>e. e \<noteq> (a, cnt (the_table s a)) \<longrightarrow> the_pte s' e = the_pte s e)"

lemma idle_grows: "idle_ok s \<Longrightarrow> grows a s s' \<Longrightarrow> idle_ok s'"
  unfolding idle_ok_def
proof (intro allI impI)
  fix pid b i
  assume id: "\<forall>pid a i. tables s pid = Some a \<longrightarrow> cnt (the_table s a) \<le> i \<longrightarrow> i < MAX_PAGE_NUM \<longrightarrow>
     \<not> read_enable (the_pte s (a, i)) \<and> \<not> write_enable (the_pte s (a, i))"
    and g: "grows a s s'" and h: "tables s' pid = Some b" "cnt (the_table s' b) \<le> i" "i < MAX_PAGE_NUM"
  have "the_pte s' (b, i) = the_pte s (b, i)" "cnt (the_table s b) \<le> i" using g h(2) by (cases "b = a"; auto simp: grows_def)+
  with id h(1,3) g show "\<not> read_enable (the_pte s' (b, i)) \<and> \<not> write_enable (the_pte s' (b, i))" by (simp add: grows_def)
qed

lemma map_swap_grows:
  assumes "map_swap a s = Some s'" "page_table_base_register s = a"
  shows "grows a s (s'\<lparr>the_table := (the_table s')(a := (the_table s' a)\<lparr>cnt := cnt (the_table s' a) + 1\<rparr>)\<rparr>)"
  using assms by (auto simp: map_swap_def new_page_def insert_peer_def grows_def Let_def split: list.splits)

lemma map_file_grows:
  assumes "map_file a name b s = Some s'" "page_table_base_register s = a"
  shows "grows a s (s'\<lparr>the_table := (the_table s')(a := (the_table s' a)\<lparr>cnt := cnt (the_table s' a) + 1\<rparr>)\<rparr>)"
  using assms
  by (auto simp: map_file_def new_page_def insert_peer_def set_entry_def grows_def Let_def split: option.splits if_splits)

lemma map_left:
  "map_swap a s = Some s' \<Longrightarrow> num_swap_blocks s' = num_swap_blocks s - 1"
  "map_file a nm b s = Some s' \<Longrightarrow> num_swap_blocks s' = num_swap_blocks s"
  by (auto simp: map_swap_def map_file_def new_page_def insert_peer_def set_entry_def Let_def split: list.splits option.splits if_splits)

lemma vm_map_grows:
  assumes m: "vm_map io name b s = Some (r, s')" and tb: "tables_ok s" and pr: "peers_ok s" and a: "cur_table s = Some a"
  obtains t where "touches s t" "s' = t \<or> grows a t s'"
    "num_swap_blocks s' = (if name = None \<and> r \<noteq> 0 then num_swap_blocks s - 1 else num_swap_blocks s)"
proof -
  have reg: "page_table_base_register s = a" using tb a by (simp add: tables_ok_def)
  show ?thesis
  proof (cases name)
    case None
    let ?addr = "VM_ARENA_BASEADDR + of_nat (cnt (the_table s a) * VM_PAGESIZE) :: 64 word"
    have nz: "?addr \<noteq> 0" if "cnt (the_table s a) < MAX_PAGE_NUM"
    proof -
      have "cnt (the_table s a) * VM_PAGESIZE < 2 ^ 24"
        using that by (simp add: MAX_PAGE_NUM_def VM_ARENA_SIZE_def VM_PAGESIZE_def)
      from arena_address [OF this] show ?thesis by auto
    qed
    from None m a consider "s' = s" "r = 0" | t where "map_swap a s = Some t" "r = ?addr" "cnt (the_table s a) < MAX_PAGE_NUM"
        "s' = t\<lparr>the_table := (the_table t)(a := (the_table t a)\<lparr>cnt := cnt (the_table t a) + 1\<rparr>)\<rparr>"
      by (auto simp: vm_map_def Let_def split: if_splits)
    then show ?thesis
    proof cases
      case 1
      then show ?thesis by (intro that [of s]) simp_all
    next
      case (2 t)
      with map_swap_grows [OF 2(1) reg] map_left(1) [OF 2(1)] nz None show ?thesis by (intro that [of s]) simp_all
    qed
  next
    case (Some p)
    show ?thesis
    proof (cases "cnt (the_table s a) \<ge> MAX_PAGE_NUM")
      case True
      with m a Some show ?thesis by (intro that [of s]) (simp_all add: vm_map_def)
    next
      case False
      from False m a Some obtain q where q: "read_name io p [] s = Some q"
        by (cases "read_name io p [] s") (simp_all add: vm_map_def Let_def)
      have rest: "s' = snd q \<or> (\<exists>nm t. map_file a nm b (snd q) = Some t \<and>
          s' = t\<lparr>the_table := (the_table t)(a := (the_table t a)\<lparr>cnt := cnt (the_table t a) + 1\<rparr>)\<rparr>)"
      proof (cases "fst q")
        case None
        with False m a Some q show ?thesis by (cases q) (simp add: vm_map_def Let_def)
      next
        case nm: (Some nm)
        show ?thesis
        proof (cases "map_file a nm b (snd q)")
          case None
          with False m a Some q nm show ?thesis by (cases q) (simp add: vm_map_def Let_def)
        next
          case (Some t)
          with False m a \<open>name = Some p\<close> q nm have "s' = t\<lparr>the_table := (the_table t)(a := (the_table t a)\<lparr>cnt := cnt (the_table t a) + 1\<rparr>)\<rparr>"
            by (cases q) (simp add: vm_map_def Let_def)
          with Some show ?thesis by blast
        qed
      qed
      have sq: "touches s (snd q)" using touches_read_name [OF q] tb pr by blast
      then have "page_table_base_register (snd q) = a" using reg touches_shape [OF sq] by (simp add: shape_of_def)
      with rest map_file_grows have "s' = snd q \<or> grows a (snd q) s'" by blast
      moreover have "num_swap_blocks s' = num_swap_blocks (snd q)" using rest map_left(2) by auto
      then have "num_swap_blocks s' = num_swap_blocks s" using touches_shape [OF sq] by (simp add: shape_of_def)
      ultimately show ?thesis using sq Some by (intro that [of "snd q"]) simp_all
    qed
  qed
qed

end
