(* ===== verification/Pager_Props.thy ===== *)
theory Pager_Props imports Pager_Entries begin

text \<open>
  What the pager guarantees to the processes: no run of its calls crashes it, but for one way of reusing identifiers, paging is
  invisible, a new page is zero and private, pages of one file and block are one page, and the end of a
  process gives back what it held.
\<close>

section \<open>The calls of the kernel and the processes\<close>

text \<open>
  The calls of the infrastructure, and a store of the current process to a page, which has no
  effect until the page may be written. \<open>call_allowed\<close> are the calls that the states of the pager are made for: a new process has
  another identifier than those there are, one that exists is switched to before anything is done for it, and, which vm_pager.h does not
  ask for, a process that has got the identifier of the one that ran last and has ended is not the next to run.
\<close>

datatype kernel_call = Process_create int int | Process_switch int | Process_fault "64 word" bool
  | Process_map "64 word option" nat | Process_exit | Process_store nat nat char

fun pager_call :: "'f file_io \<Rightarrow> kernel_call \<Rightarrow> 'f pager \<Rightarrow> 'f pager option" where
  "pager_call io (Process_create parent child) s = Some (snd (vm_create parent child s))"
| "pager_call io (Process_switch pid) s = vm_switch pid s"
| "pager_call io (Process_fault addr w) s = map_option snd (vm_fault io addr w s)"
| "pager_call io (Process_map name b) s = map_option snd (vm_map io name b s)"
| "pager_call io Process_exit s = vm_destroy s"
| "pager_call io (Process_store n offset ch) s = (case cur_table s of None \<Rightarrow> None | Some a \<Rightarrow>
     if n < cnt (the_table s a)
     then (case store (vps (the_table s a) ! n) offset ch s of None \<Rightarrow> Some s | Some s' \<Rightarrow> Some s') else Some s)"

fun call_allowed :: "kernel_call \<Rightarrow> 'f pager \<Rightarrow> bool" where
  "call_allowed (Process_create parent child) s \<longleftrightarrow> tables s child = None"
| "call_allowed (Process_switch pid) s \<longleftrightarrow> tables s pid \<noteq> None \<and> (cur_pid s = pid \<longrightarrow> cur_table s \<noteq> None)"
| "call_allowed _ s \<longleftrightarrow> cur_table s \<noteq> None"

fun pager_calls :: "'f file_io \<Rightarrow> kernel_call list \<Rightarrow> 'f pager \<Rightarrow> 'f pager option" where
  "pager_calls io [] s = Some s"
| "pager_calls io (c # cs) s = (if call_allowed c s then Option.bind (pager_call io c s) (pager_calls io cs) else None)"

definition pager_started :: "nat \<Rightarrow> nat \<Rightarrow> 'f pager \<Rightarrow> bool" where
  "pager_started M S s \<longleftrightarrow> (\<exists>mem fs. s = vm_init M S (initial mem fs))"

inductive pager_step :: "'f file_io \<Rightarrow> 'f pager \<Rightarrow> 'f pager \<Rightarrow> bool" for io :: "'f file_io" where
  pager_stepI: "call_allowed c s \<Longrightarrow> pager_call io c s = Some s' \<Longrightarrow> pager_step io s s'"

lemma pager_call_ok:
  assumes laws: "file_laws io S" and ok: "pager_ok io S s" and c: "call_allowed c s"
  shows "\<exists>s'. pager_call io c s = Some s' \<and> pager_ok io S s'"
proof (cases c)
  case (Process_create parent child)
  then show ?thesis using vm_create_ok(1) [OF ok, of child parent] c by (cases "vm_create parent child s") auto
next
  case (Process_switch pid)
  with c obtain a where "tables s pid = Some a" "cur_pid s = pid \<Longrightarrow> cur_table s \<noteq> None" by auto
  with Process_switch show ?thesis using vm_switch_ok [OF ok] by fastforce
next
  case (Process_fault addr w)
  with c obtain a where "cur_table s = Some a" by auto
  with Process_fault show ?thesis using vm_fault_ok [OF laws ok, of a addr w] by auto
next
  case (Process_map name b)
  with c obtain a where "cur_table s = Some a" by auto
  from vm_map_ok [OF laws ok this, of name b] obtain r s' where "vm_map io name b s = Some (r, s')" "pager_ok io S s'" by blast
  with Process_map show ?thesis by auto
next
  case Process_exit
  with c obtain a where "cur_table s = Some a" by auto
  with Process_exit show ?thesis using vm_destroy_ok [OF ok] by auto
next
  case (Process_store n offset ch)
  with c obtain a where a: "cur_table s = Some a" by auto
  have "vps (the_table s a) ! n \<in> live s" if "n < cnt (the_table s a)"
    using that a pager_okD(3) [OF ok] live_nth [of s "cur_pid s" a n] by (auto simp: tables_ok_def table_ok_def)
  with Process_store a ok show ?thesis by (auto intro: store_ok(1) split: option.split)
qed

lemma pager_step_ok: "file_laws io S \<Longrightarrow> pager_ok io S s \<Longrightarrow> pager_step io s s' \<Longrightarrow> pager_ok io S s'"
  using pager_call_ok by (fastforce elim!: pager_step.cases)

lemma pager_system:
  assumes "file_laws io S" "2 \<le> M" "M \<le> 65536"
  shows "invariant_system (pager_started M S) (pager_step io) (pager_ok io S)"
  using assms by unfold_locales (auto simp: pager_started_def vm_init_ok intro: pager_step_ok)

lemma pager_reached:
  assumes "file_laws io S" "2 \<le> M" "M \<le> 65536" "reach (pager_started M S) (pager_step io) s"
  shows "pager_ok io S s"
  by (rule invariant_system.inv_reach [OF pager_system [OF assms(1-3)] assms(4)])

lemma pager_calls_reach:
  "pager_calls io cs s = Some s' \<Longrightarrow> reach init (pager_step io) s \<Longrightarrow> reach init (pager_step io) s'"
proof (induction cs arbitrary: s)
  case (Cons c cs)
  then obtain t where "call_allowed c s" "pager_call io c s = Some t" "pager_calls io cs t = Some s'"
    by (auto split: if_splits bind_splits)
  with Cons show ?case by (blast intro: reach_step pager_stepI)
qed simp

text \<open>What the current process sees of a page.\<close>

lemma load_contents:
  assumes ok: "pager_ok io S s" and v: "v \<in> live s" and r: "read_enable (entry_of s v)"
  obtains x where "contents io s (id_of s v) = Some x" "load s v = (\<lambda>n. Some (x n))"
proof -
  have "peer_in_phys s (id_of s v) = Some (ppage (entry_of s v))"
    using pager_okD(9) [OF ok v] r by (auto simp: entry_ok_def split: option.splits)
  then show ?thesis using r by (intro that [of "physmem s (ppage (entry_of s v))"]) (simp_all add: contents_def load_def fun_eq_iff)
qed

lemma page_live:
  assumes "pager_ok io S s" "cur_table s = Some a" "n < cnt (the_table s a)"
  shows "vps (the_table s a) ! n \<in> live s"
  using pager_okD(3) [OF assms(1)] assms(2,3) live_nth [of s "cur_pid s" a n] by (auto simp: tables_ok_def table_ok_def)

section \<open>Files and a run\<close>

text \<open>Files as maps from names and block numbers to pages; two blocks of one file can be read.\<close>

definition map_io :: "(string option \<Rightarrow> nat \<Rightarrow> page option) file_io" where
  "map_io = \<lparr>file_read = (\<lambda>f n b. f n b), file_write = (\<lambda>f n b x n' b'. if n' = n \<and> b' = b then Some x else f n' b')\<rparr>"

lemma map_io_laws: "file_laws map_io S"
  by (auto simp: file_laws_def map_io_def)

definition demo_files :: "string option \<Rightarrow> nat \<Rightarrow> page option" where
  "demo_files n b = (if n = Some ''f'' \<and> b < 2 then Some (\<lambda>_. CHR ''A'') else None)"

definition page_address :: "nat \<Rightarrow> 64 word" where
  "page_address n = VM_ARENA_BASEADDR + of_nat (n * VM_PAGESIZE)"

text \<open>\<open>read_name\<close> for evaluation by rewriting: what follows the fault as a function of its own.\<close>

definition read_rest where
  "read_rest io p acc v r = (if fst r = - 1 then Some (None, snd r)
     else let c = read_byte (snd r) (ppage (entry_of (snd r) v)) (offset_of p) in
       if c = nul then Some (Some (acc @ [c]), snd r) else read_name io (p + 1) (acc @ [c]) (snd r))"

lemma read_rest_pair:
  "read_rest io p acc v (r, s) = (if r = - 1 then Some (None, s)
     else let c = read_byte s (ppage (entry_of s v)) (offset_of p) in
       if c = nul then Some (Some (acc @ [c]), s) else read_name io (p + 1) (acc @ [c]) s)"
  by (simp add: read_rest_def Let_def)

lemma read_name_rest:
  "read_name io p acc s = (case cur_table s of None \<Rightarrow> None | Some a \<Rightarrow>
     if vpn_of p \<ge> cnt (the_table s a) then Some (None, s)
     else if \<not> vpn_of p < length (vps (the_table s a)) then None
     else let v = vps (the_table s a) ! vpn_of p in
       Option.bind (if \<not> read_enable (entry_of s v) then vm_fault io p False s else Some (0, s)) (read_rest io p acc v))"
  by (subst read_name.simps) (simp only: read_rest_def [abs_def])

text \<open>A process maps a page, writes the name of the file into it, and maps blocks 0 and 7 of the file, block 0 twice.\<close>

definition demo_calls :: "kernel_call list" where
  "demo_calls = [Process_create 0 1, Process_switch 1, Process_map None 0, Process_fault (page_address 0) True,
     Process_store 0 0 (CHR ''f''), Process_map (Some (page_address 0)) 0, Process_map (Some (page_address 0)) 7,
     Process_map (Some (page_address 0)) 0, Process_fault (page_address 1) True]"

definition demo :: "(string option \<Rightarrow> nat \<Rightarrow> page option) pager" where
  "demo = the (pager_calls map_io demo_calls (vm_init 3 4 (initial (\<lambda>_ _. CHR ''?'') demo_files)))"

definition demo_check :: "(string option \<Rightarrow> nat \<Rightarrow> page option) pager \<Rightarrow> bool" where
  "demo_check s \<longleftrightarrow> (case cur_table s of None \<Rightarrow> False | Some a \<Rightarrow>
     (let vs = vps (the_table s a) in cnt (the_table s a) = 4 \<and> length vs = 4 \<and> num_swap_blocks s = 3 \<and>
       map (id_of s) vs = [\<lparr>filename = [], block = 0, swap_backed = True\<rparr>,
         \<lparr>filename = [CHR ''f'', nul], block = 0, swap_backed = False\<rparr>, \<lparr>filename = [CHR ''f'', nul], block = 7, swap_backed = False\<rparr>,
         \<lparr>filename = [CHR ''f'', nul], block = 0, swap_backed = False\<rparr>] \<and>
       vs ! 1 \<noteq> vs ! 3 \<and> read_enable (entry_of s (vs ! 3)) \<and> write_enable (entry_of s (vs ! 1)) \<and> cur_pid s = 1))"

lemmas pager_eval = vm_init_def initial_def vm_create_def new_table_def vm_switch_def Let_def vm_map_def map_swap_def new_page_def
  mk_pte_def insert_peer_def id_of_def entry_of_def MAX_PAGE_NUM_def VM_ARENA_SIZE_def VM_PAGESIZE_def vm_fault_def
  bring_in_def set_physical_page_def get_free_physical_page.simps check_residence_def page_address_def vpn_of_def
  VM_ARENA_BASEADDR_def file_of_def map_io_def frame_def set_entry_def set_physical_def write_access_def allow_def offset_of_def
  read_name_rest read_rest_pair map_file_def read_byte_def store_def vm_destroy_def destroy_page_def demo_files_def
  c_string_def upt_conv_Cons case_prod_unfold

lemma demo_run: "\<exists>s. pager_calls map_io demo_calls (vm_init 3 4 (initial (\<lambda>_ _. CHR ''?'') demo_files)) = Some s \<and> demo_check s"
  by (simp add: demo_calls_def demo_check_def pager_eval)

lemma demo_some: "pager_calls map_io demo_calls (vm_init 3 4 (initial (\<lambda>_ _. CHR ''?'') demo_files)) = Some demo"
  and demo_checked: "demo_check demo"
  using demo_run by (auto simp: demo_def)

lemma demo_reached: "reach (pager_started 3 4) (pager_step map_io) demo"
  by (rule pager_calls_reach [OF demo_some], rule reach_init) (auto simp: pager_started_def)

lemma demo_ok: "pager_ok map_io 4 demo"
  using demo_reached by (intro pager_reached [OF map_io_laws, of 3]) simp_all

text \<open>The pages of the run: the swap page, block 0 of the file, block 7, and block 0 again.\<close>

lemma demo_table:
  obtains a where "cur_table demo = Some a" "cnt (the_table demo a) = 4" "length (vps (the_table demo a)) = 4"
    "num_swap_blocks demo = 3" "tables demo (cur_pid demo) = Some a" "cur_pid demo = 1"
    "map (id_of demo) (vps (the_table demo a)) = [\<lparr>filename = [], block = 0, swap_backed = True\<rparr>,
         \<lparr>filename = [CHR ''f'', nul], block = 0, swap_backed = False\<rparr>, \<lparr>filename = [CHR ''f'', nul], block = 7, swap_backed = False\<rparr>,
         \<lparr>filename = [CHR ''f'', nul], block = 0, swap_backed = False\<rparr>]"
    "vps (the_table demo a) ! 1 \<noteq> vps (the_table demo a) ! 3" "read_enable (entry_of demo (vps (the_table demo a) ! 3))"
    "write_enable (entry_of demo (vps (the_table demo a) ! 1))"
  using demo_checked pager_okD(3) [OF demo_ok] by (auto simp: demo_check_def Let_def tables_ok_def split: option.splits)

section \<open>Every run\<close>

text \<open>
  The infrastructure's own account of the processes, kept from its calls and their results: the processes that exist, the one that
  runs, and the one that was switched to last.
\<close>

record kernel =
  processes :: "int set"
  running :: "int option"
  last_run :: "int option"

definition kernel_start :: kernel where
  "kernel_start = \<lparr>processes = {}, running = None, last_run = None\<rparr>"

fun kernel_ok :: "kernel_call \<Rightarrow> kernel \<Rightarrow> bool" where
  "kernel_ok (Process_create parent child) k \<longleftrightarrow> 0 < child \<and> child \<notin> processes k"
| "kernel_ok (Process_switch pid) k \<longleftrightarrow> pid \<in> processes k \<and> (last_run k = Some pid \<longrightarrow> running k = Some pid)"
| "kernel_ok _ k \<longleftrightarrow> running k \<noteq> None"

fun kernel_after :: "kernel_call \<Rightarrow> bool \<Rightarrow> kernel \<Rightarrow> kernel" where
  "kernel_after (Process_create parent child) made k = (if made then k\<lparr>processes := insert child (processes k)\<rparr> else k)"
| "kernel_after (Process_switch pid) made k = k\<lparr>running := Some pid, last_run := Some pid\<rparr>"
| "kernel_after Process_exit made k = k\<lparr>processes := processes k - set_option (running k), running := None\<rparr>"
| "kernel_after _ made k = k"

definition created :: "kernel_call \<Rightarrow> 'f pager \<Rightarrow> bool" where
  "created c s \<longleftrightarrow> (case c of Process_create parent child \<Rightarrow> fst (vm_create parent child s) = 0 | _ \<Rightarrow> False)"

fun kernel_calls :: "'f file_io \<Rightarrow> kernel_call list \<Rightarrow> kernel \<Rightarrow> 'f pager \<Rightarrow> bool" where
  "kernel_calls io [] k s \<longleftrightarrow> True"
| "kernel_calls io (c # cs) k s \<longleftrightarrow> kernel_ok c k \<and>
     (case pager_call io c s of None \<Rightarrow> True | Some s' \<Rightarrow> kernel_calls io cs (kernel_after c (created c s) k) s')"

fun perform :: "'f file_io \<Rightarrow> kernel_call list \<Rightarrow> 'f pager \<Rightarrow> 'f pager option" where
  "perform io [] s = Some s"
| "perform io (c # cs) s = Option.bind (pager_call io c s) (perform io cs)"

definition kernel_agrees :: "kernel \<Rightarrow> 'f pager \<Rightarrow> bool" where
  "kernel_agrees k s \<longleftrightarrow> processes k = dom (tables s) \<and> (running k \<noteq> None \<longleftrightarrow> cur_table s \<noteq> None) \<and>
     (\<forall>p. running k = Some p \<longrightarrow> last_run k = Some p) \<and> cur_pid s = (case last_run k of None \<Rightarrow> - 1 | Some p \<Rightarrow> p) \<and>
     (\<forall>p \<in> processes k. 0 < p)"

lemma kernel_allowed:
  assumes "kernel_agrees k s" "kernel_ok c k" shows "call_allowed c s"
proof -
  have k: "processes k = dom (tables s)" "running k \<noteq> None \<longleftrightarrow> cur_table s \<noteq> None"
    "cur_pid s = (case last_run k of None \<Rightarrow> - 1 | Some p \<Rightarrow> p)" "\<forall>p \<in> processes k. 0 < p"
    using assms(1) by (simp_all add: kernel_agrees_def)
  show ?thesis
  proof (cases c)
    case (Process_create parent child)
    then show ?thesis using assms(2) k(1) by (simp add: domIff)
  next
    case (Process_switch pid)
    then have p: "pid \<in> processes k" "last_run k = Some pid \<Longrightarrow> running k \<noteq> None" using assms(2) by auto
    have "last_run k = Some pid" if "cur_pid s = pid" using that p(1) k(3,4) by (cases "last_run k") auto
    then show ?thesis using p k(1,2) Process_switch by (simp add: domIff)
  qed (use assms(2) k(2) in simp_all)
qed

lemma destroy_cur_pid:
  fixes s :: "'f pager"
  assumes "vm_destroy s = Some s'" shows "cur_pid s' = cur_pid s"
proof -
  have same: "cur_pid t' = cur_pid t" if "destroy_page v t = Some t'" for v and t t' :: "'f pager"
    using that by (auto simp: destroy_page_def Let_def set_physical_def split: if_splits)
  have "cur_pid t' = cur_pid t" if "destroy_pages vs t = Some t'" for vs and t t' :: "'f pager"
    using that by (induction vs arbitrary: t) (auto simp: same split: bind_splits)
  then show ?thesis using assms by (auto simp: vm_destroy_def split: option.splits bind_splits)
qed

lemma kernel_agrees_same:
  "tables s' = tables s \<Longrightarrow> cur_table s' = cur_table s \<Longrightarrow> cur_pid s' = cur_pid s \<Longrightarrow> kernel_agrees k s' = kernel_agrees k s"
  by (simp add: kernel_agrees_def)

lemma kernel_keeps:
  assumes laws: "file_laws io S" and ok: "pager_ok io S s" and k: "kernel_agrees k s" "kernel_ok c k"
    and st: "pager_call io c s = Some s'"
  shows "kernel_agrees (kernel_after c (created c s) k) s'"
proof (cases c)
  case (Process_create parent child)
  obtain r s1 where c: "vm_create parent child s = (r, s1)" by fastforce
  have s': "s' = s1" using st Process_create c by simp
  have "child \<notin> dom (tables s)" using k Process_create by (simp add: kernel_agrees_def)
  then have n: "tables s child = None" by auto
  have same: "cur_table s1 = cur_table s" "cur_pid s1 = cur_pid s"
    using c by (auto simp: vm_create_def new_table_def Let_def split: if_splits)
  show ?thesis
  proof (cases "r = 0")
    case True
    from vm_create_ok(5) [OF ok n c this] have "dom (tables s1) = insert child (dom (tables s))" by auto
    then show ?thesis using k True same by (simp add: Process_create s' c created_def kernel_agrees_def)
  next
    case False
    with vm_create_ok(6) [OF ok n c] have "s1 = s" by blast
    then show ?thesis using k(1) False by (simp add: Process_create s' c created_def)
  qed
next
  case (Process_switch pid)
  then obtain a where "tables s pid = Some a" "cur_pid s = pid \<Longrightarrow> cur_table s \<noteq> None"
    using kernel_allowed [OF k] by auto
  from vm_switch_ok [OF ok this] st Process_switch
  have "cur_table s' = Some a" "cur_pid s' = pid" "tables s' = tables s" by auto
  then show ?thesis using k(1) by (simp add: Process_switch kernel_agrees_def)
next
  case (Process_fault addr w)
  with k have "cur_table s \<noteq> None" by (simp add: kernel_agrees_def)
  then obtain a where a: "cur_table s = Some a" by auto
  from vm_fault_ok [OF laws ok a, of addr w] st Process_fault have "shape_of s' = shape_of s" by auto
  then show ?thesis using k(1) kernel_agrees_same [of s' s k] by (simp add: Process_fault shape_of_def)
next
  case (Process_map name b)
  with k have "cur_table s \<noteq> None" by (simp add: kernel_agrees_def)
  then obtain a where a: "cur_table s = Some a" by auto
  obtain r where m: "vm_map io name b s = Some (r, s')" using st Process_map by auto
  obtain t where "touches s t" "s' = t \<or> grows a t s'" by (rule vm_map_grows [OF m pager_okD(3,4) [OF ok] a])
  then show ?thesis using k(1) kernel_agrees_same [of s' s k] by (auto simp: Process_map touches_def grows_def shape_of_def)
next
  case Process_exit
  with k have "cur_table s \<noteq> None" by (simp add: kernel_agrees_def)
  then obtain a where a: "cur_table s = Some a" by auto
  have d: "vm_destroy s = Some s'" using st Process_exit by simp
  with vm_destroy_ok [OF ok a] have "tables s' = (tables s)(cur_pid s := None)" "cur_table s' = None" by auto
  then show ?thesis using k destroy_cur_pid [OF d] by (auto simp: Process_exit kernel_agrees_def)
next
  case (Process_store n offset ch)
  with k have "cur_table s \<noteq> None" by (simp add: kernel_agrees_def)
  then obtain a where a: "cur_table s = Some a" by auto
  have "tables s' = tables s \<and> cur_table s' = cur_table s \<and> cur_pid s' = cur_pid s"
    using st a Process_store by (auto simp: store_def split: if_splits option.splits)
  then show ?thesis using k(1) kernel_agrees_same [of s' s k] by (simp add: Process_store)
qed

lemma calls_performed:
  assumes laws: "file_laws io S"
  shows "pager_ok io S s \<Longrightarrow> kernel_agrees k s \<Longrightarrow> kernel_calls io cs k s \<Longrightarrow> \<exists>s'. perform io cs s = Some s'"
proof (induction cs arbitrary: k s)
  case (Cons c cs)
  have c: "kernel_ok c k" using Cons.prems(3) by simp
  obtain t where t: "pager_call io c s = Some t" "pager_ok io S t"
    using pager_call_ok [OF laws Cons.prems(1) kernel_allowed [OF Cons.prems(2) c]] by blast
  have "kernel_calls io cs (kernel_after c (created c s) k) t" using Cons.prems(3) t(1) by simp
  from Cons.IH [OF t(2) kernel_keeps [OF laws Cons.prems(1,2) c t(1)] this] t(1) show ?case by simp
qed simp

text \<open>C34. The pager never crashes, unless an identifier is reused at once. Take any sequence of calls, from \<open>vm_init\<close> on, in which the
  infrastructure makes a process with a positive identifier that no existing process has, switches to existing processes, and lets faults,
  mappings, stores and the end come from the process that runs; and, which vm_pager.h does not ask for, in which no new process
  with the identifier of the process that was switched to last and has ended is the next to be switched to (without this the code
  follows a null pointer, as \<open>reused_identifier_crashes\<close> shows). With 2 to 65536 frames and any files that behave as documented, every call
  runs to its end, the clock's search for a page to evict and the reading of a file name included.\<close>

theorem pager_never_crashes:
  assumes "file_laws io S" "2 \<le> M" "M \<le> 65536" "kernel_calls io cs kernel_start (vm_init M S (initial mem fs))"
  shows "\<exists>s'. perform io cs (vm_init M S (initial mem fs)) = Some s'"
proof -
  have "kernel_agrees kernel_start (vm_init M S (initial mem fs))"
    by (simp add: kernel_agrees_def kernel_start_def vm_init_def initial_def)
  from calls_performed [OF assms(1) vm_init_ok(1) [OF assms(2,3)] this assms(4)] show ?thesis .
qed

text \<open>The run above, the end of its process, another process, and the first identifier again.\<close>

definition again_calls :: "kernel_call list" where
  "again_calls = [Process_create 0 1, Process_switch 1, Process_map None 0, Process_fault (page_address 0) True, Process_exit,
     Process_create 0 2, Process_switch 2, Process_create 0 1, Process_switch 1, Process_map None 0]"

theorem pager_never_crashes_witness:
  "\<exists>s'. perform map_io again_calls (vm_init 3 4 (initial (\<lambda>_ _. CHR ''?'') demo_files)) = Some s'"
proof -
  have "kernel_calls map_io again_calls kernel_start (vm_init 3 4 (initial (\<lambda>_ _. CHR ''?'') demo_files))"
    by (simp add: again_calls_def kernel_start_def created_def pager_eval)
  from pager_never_crashes [OF map_io_laws _ _ this] show ?thesis by simp
qed

text \<open>C33. What physical memory holds is never confused: the pinned page stays zero; an entry gives access only
  when its page is in memory, in the frame it names; only one page of a file or of swap is in a frame; a frame that can be
  stored to is dirty, so that it is written back; no two pages have one swap block; and reservations never exceed the
  free swap blocks.\<close>

theorem memory_consistent:
  assumes "file_laws io S" "2 \<le> M" "M \<le> 65536" "reach (pager_started M S) (pager_step io) s" "v \<in> live s" "w \<in> live s"
  shows "physmem s 0 = (\<lambda>_. nul) \<and>
    (read_enable (entry_of s v) \<longrightarrow> peer_in_phys s (id_of s v) = Some (ppage (entry_of s v))) \<and>
    (write_enable (entry_of s v) \<longrightarrow> read_enable (entry_of s v) \<and> ppage (entry_of s v) \<noteq> 0 \<and>
       dirty (physical_table s (ppage (entry_of s v)))) \<and>
    (read_enable (entry_of s v) \<and> read_enable (entry_of s w) \<and> ppage (entry_of s v) \<noteq> 0 \<longrightarrow>
       (ppage (entry_of s w) = ppage (entry_of s v) \<longleftrightarrow> id_of s w = id_of s v)) \<and>
    (swap_backed (id_of s v) \<and> swap_backed (id_of s w) \<and> block (id_of s v) = block (id_of s w) \<longrightarrow> v = w) \<and>
    num_swap_blocks s \<le> length (available_swap_blocks s)"
proof (intro conjI impI)
  have ok: "pager_ok io S s" by (rule pager_reached [OF assms(1-4)])
  note en = pager_okD(9) [OF ok] and rs = pager_okD(7) [OF ok]
  show "physmem s 0 = (\<lambda>_. nul)" using pager_okD(6) [OF ok] by (simp add: frames_ok_def)
  have r: "peer_in_phys s (id_of s v) = Some (ppage (entry_of s v))" if "v \<in> live s" "read_enable (entry_of s v)" for v
    using en [OF that(1)] that(2) by (auto simp: entry_ok_def split: option.splits)
  then show "read_enable (entry_of s v) \<Longrightarrow> peer_in_phys s (id_of s v) = Some (ppage (entry_of s v))" using assms(5) .
  show "read_enable (entry_of s v)" "ppage (entry_of s v) \<noteq> 0" "dirty (physical_table s (ppage (entry_of s v)))"
    if "write_enable (entry_of s v)"
    using en [OF assms(5)] that by (auto simp: entry_ok_def split: option.splits)
  show "ppage (entry_of s w) = ppage (entry_of s v) \<longleftrightarrow> id_of s w = id_of s v"
    if h: "read_enable (entry_of s v) \<and> read_enable (entry_of s w) \<and> ppage (entry_of s v) \<noteq> 0"
  proof -
    from h have that: "read_enable (entry_of s v)" "read_enable (entry_of s w)" "ppage (entry_of s v) \<noteq> 0" by simp_all
    have p: "peer_in_phys s (id_of s v) = Some (ppage (entry_of s v))" "peer_in_phys s (id_of s w) = Some (ppage (entry_of s w))"
      using r [OF assms(5) that(1)] r [OF assms(6) that(2)] .
    show ?thesis
    proof
      assume "id_of s w = id_of s v" with p show "ppage (entry_of s w) = ppage (entry_of s v)" by simp
    next
      assume e: "ppage (entry_of s w) = ppage (entry_of s v)"
      with resident(2) [OF rs p(1) that(3)] resident(2) [OF rs p(2)] that(3) show "id_of s w = id_of s v" by simp
    qed
  qed
  note sw = pager_okD(5) [OF ok]
  show "v = w" if "swap_backed (id_of s v) \<and> swap_backed (id_of s w) \<and> block (id_of s v) = block (id_of s w)"
    using sw assms(5,6) that by (auto simp: swap_ok_def swap_pages_def dest: inj_onD)
  show "num_swap_blocks s \<le> length (available_swap_blocks s)" using sw by (simp add: swap_ok_def)
qed

theorem memory_consistent_witness:
  "\<exists>v w. v \<noteq> w \<and> id_of demo v = id_of demo w \<and> (read_enable (entry_of demo v) \<and> read_enable (entry_of demo w) \<and>
     ppage (entry_of demo v) \<noteq> 0 \<longrightarrow> ppage (entry_of demo w) = ppage (entry_of demo v)) \<and> physmem demo 0 = (\<lambda>_. nul)"
proof (rule demo_table)
  fix a assume a: "cur_table demo = Some a" "cnt (the_table demo a) = 4" "length (vps (the_table demo a)) = 4"
    "vps (the_table demo a) ! 1 \<noteq> vps (the_table demo a) ! 3"
    "map (id_of demo) (vps (the_table demo a)) = [\<lparr>filename = [], block = 0, swap_backed = True\<rparr>,
         \<lparr>filename = [CHR ''f'', nul], block = 0, swap_backed = False\<rparr>, \<lparr>filename = [CHR ''f'', nul], block = 7, swap_backed = False\<rparr>,
         \<lparr>filename = [CHR ''f'', nul], block = 0, swap_backed = False\<rparr>]"
  let ?v = "vps (the_table demo a) ! 1" and ?w = "vps (the_table demo a) ! 3"
  have "map (id_of demo) (vps (the_table demo a)) ! 1 = map (id_of demo) (vps (the_table demo a)) ! 3" unfolding a(5) by simp
  then have e: "id_of demo ?v = id_of demo ?w" using a(3) by simp
  have l: "?v \<in> live demo" "?w \<in> live demo" using page_live [OF demo_ok a(1)] a(2) by simp_all
  show ?thesis
    using a(4) e memory_consistent [OF map_io_laws _ _ demo_reached l] by (intro exI [of _ ?v] exI [of _ ?w]) simp
qed

section \<open>Faults\<close>

text \<open>C32. Paging is invisible. A fault of the current process succeeds exactly when the address lies in a page it
  has mapped whose data are there (a file that cannot be read is the only other failure); then the page can be read,
  and stored to after a write fault, and shows the data it had, wherever they were; and no page of any process, in
  memory or on disk, changes what it holds.\<close>

theorem fault_transparent:
  assumes "file_laws io S" "2 \<le> M" "M \<le> 65536" "reach (pager_started M S) (pager_step io) s" "cur_table s = Some a"
  shows "\<exists>r s'. vm_fault io addr w s = Some (r, s') \<and> (\<forall>i. id_ok S i \<longrightarrow> contents io s' i = contents io s i) \<and>
    (let v = vps (the_table s a) ! vpn_of addr in
     if vpn_of addr < cnt (the_table s a) \<and> contents io s (id_of s v) \<noteq> None
     then r = 0 \<and> (\<forall>n. load s' v n = map_option (\<lambda>x. x n) (contents io s (id_of s v))) \<and>
       (\<forall>n ch. w \<longrightarrow> store v n ch s' \<noteq> None)
     else r = - 1)"
proof -
  have ok: "pager_ok io S s" by (rule pager_reached [OF assms(1-4)])
  let ?n = "vpn_of addr" let ?v = "vps (the_table s a) ! ?n"
  obtain r s' where f: "vm_fault io addr w s = Some (r, s')" "pager_ok io S s'" "shape_of s' = shape_of s"
    "\<forall>i. id_ok S i \<longrightarrow> contents io s' i = contents io s i" "r \<in> {0, - 1}"
    "r = 0 \<longleftrightarrow> ?n < cnt (the_table s a) \<and> contents io s (id_of s ?v) \<noteq> None"
    "r = 0 \<longrightarrow> read_enable (entry_of s' ?v) \<and> (w \<longrightarrow> write_enable (entry_of s' ?v))"
    using vm_fault_ok [OF assms(1) ok assms(5), of addr w] by (elim exE conjE) (rule that)
  have "load s' ?v n = map_option (\<lambda>x. x n) (contents io s (id_of s ?v)) \<and> (w \<longrightarrow> store ?v n ch s' \<noteq> None)" if "r = 0" for n ch
  proof -
    have l: "?v \<in> live s" using page_live [OF ok assms(5)] that f(6) by blast
    then have "?v \<in> live s'" unfolding live_shape [OF f(3)] .
    moreover have r: "read_enable (entry_of s' ?v)" "w \<longrightarrow> write_enable (entry_of s' ?v)" using f(7) that by blast+
    ultimately obtain x where x: "contents io s' (id_of s' ?v) = Some x" "load s' ?v = (\<lambda>n. Some (x n))"
      using load_contents [OF f(2), of ?v] by blast
    have "contents io s' (id_of s ?v) = contents io s (id_of s ?v)"
      using f(4) live_id(1) [OF pager_okD(5) [OF ok] l] by blast
    with x(1) have "contents io s (id_of s ?v) = Some x" unfolding id_of_shape [OF f(3)] by simp
    with x(2) r(2) show ?thesis by (simp add: store_def)
  qed
  then have seen: "(\<forall>n. load s' ?v n = map_option (\<lambda>x. x n) (contents io s (id_of s ?v))) \<and> (\<forall>n ch. w \<longrightarrow> store ?v n ch s' \<noteq> None)"
    if "r = 0" using that by blast
  show ?thesis
  proof (cases "?n < cnt (the_table s a) \<and> contents io s (id_of s ?v) \<noteq> None")
    case True
    with f(6) have "r = 0" by blast
    with f(1,4) seen show ?thesis unfolding Let_def if_P [OF True] by blast
  next
    case False
    with f(5,6) have "r = - 1" by blast
    with f(1,4) show ?thesis unfolding Let_def if_not_P [OF False] by blast
  qed
qed

theorem fault_transparent_witness:
  "\<exists>r s'. vm_fault map_io (page_address 4) False demo = Some (r, s') \<and> (\<forall>i. id_ok 4 i \<longrightarrow> contents map_io s' i = contents map_io demo i)"
proof -
  obtain a where a: "cur_table demo = Some a" by (rule demo_table)
  from fault_transparent [OF map_io_laws _ _ demo_reached a, of "page_address 4" False] show ?thesis by auto
qed

section \<open>Mapping\<close>

text \<open>C35. \<open>vm_map\<close> succeeds exactly when the arena has room and, without a file name, a swap block can be reserved or,
  with one, a string stands at the pointer in the process's own pages (every byte of it mapped and readable, up to its null
  character). On success the address returned is that of the lowest page the process has not mapped, and only that page is
  new: backed by a block of swap that no other page has, and zero; or the given block of the file of that name, with the
  data that any page of this file and block has. A call that fails maps nothing; all other pages keep what they hold.\<close>

theorem map_adds_page:
  assumes "file_laws io S" "2 \<le> M" "M \<le> 65536" "reach (pager_started M S) (pager_step io) s" "cur_table s = Some a"
  shows "\<exists>r s'. vm_map io name b s = Some (r, s') \<and>
    (r \<noteq> 0 \<longleftrightarrow> cnt (the_table s a) < MAX_PAGE_NUM \<and>
       (case name of None \<Rightarrow> num_swap_blocks s \<noteq> 0 | Some p \<Rightarrow> \<exists>n. spells (arena_byte io s a) p n)) \<and>
    (\<forall>w \<in> live s. w \<in> live s' \<and> id_of s' w = id_of s w \<and> contents io s' (id_of s w) = contents io s (id_of s w)) \<and>
    (if r = 0 then live s' = live s
     else r = VM_ARENA_BASEADDR + of_nat (cnt (the_table s a) * VM_PAGESIZE) \<and> (\<exists>v. v \<notin> live s \<and> live s' = insert v (live s) \<and>
       vps (the_table s' a) = vps (the_table s a) @ [v] \<and>
       (case name of
          None \<Rightarrow> swap_backed (id_of s' v) \<and> contents io s' (id_of s' v) = Some (\<lambda>_. nul) \<and>
            (\<forall>w \<in> live s. id_of s w \<noteq> id_of s' v)
        | Some p \<Rightarrow> \<exists>n. spells (arena_byte io s a) p n \<and>
            id_of s' v = \<lparr>filename = n @ [nul], block = b, swap_backed = False\<rparr> \<and>
            contents io s' (id_of s' v) = contents io s (id_of s' v))))"
proof -
  have ok: "pager_ok io S s" by (rule pager_reached [OF assms(1-4)])
  let ?addr = "VM_ARENA_BASEADDR + of_nat (cnt (the_table s a) * VM_PAGESIZE)"
  let ?new = "\<lambda>s' v. case name of
          None \<Rightarrow> swap_backed (id_of s' v) \<and> contents io s' (id_of s' v) = Some (\<lambda>_. nul) \<and>
            (\<forall>w \<in> live s. id_of s w \<noteq> id_of s' v)
        | Some p \<Rightarrow> \<exists>n. spells (arena_byte io s a) p n \<and>
            id_of s' v = \<lparr>filename = n @ [nul], block = b, swap_backed = False\<rparr> \<and>
            contents io s' (id_of s' v) = contents io s (id_of s' v)"
  obtain r s' where m: "vm_map io name b s = Some (r, s')"
    "if r = 0 then shape_of s' = shape_of s \<and> (\<forall>i. id_ok S i \<longrightarrow> contents io s' i = contents io s i)
     else r = ?addr \<and> cnt (the_table s a) < MAX_PAGE_NUM \<and>
       (\<exists>v. v \<notin> live s \<and> live s' = insert v (live s) \<and> vps (the_table s' a) = vps (the_table s a) @ [v] \<and>
       (\<forall>w \<in> live s. id_of s' w = id_of s w \<and> contents io s' (id_of s w) = contents io s (id_of s w)) \<and>
       (\<forall>i. id_ok S i \<longrightarrow> i \<noteq> id_of s' v \<longrightarrow> contents io s' i = contents io s i) \<and> ?new s' v)"
    "r \<noteq> 0 \<longleftrightarrow> cnt (the_table s a) < MAX_PAGE_NUM \<and>
       (case name of None \<Rightarrow> num_swap_blocks s \<noteq> 0 | Some p \<Rightarrow> \<exists>n. spells (arena_byte io s a) p n)"
    using vm_map_ok [OF assms(1) ok assms(5), of name b] by (elim exE conjE) (rule that)
  have others: "(\<forall>w \<in> live s. w \<in> live s' \<and> id_of s' w = id_of s w \<and> contents io s' (id_of s w) = contents io s (id_of s w)) \<and>
    (if r = 0 then live s' = live s
     else r = ?addr \<and> (\<exists>v. v \<notin> live s \<and> live s' = insert v (live s) \<and> vps (the_table s' a) = vps (the_table s a) @ [v] \<and> ?new s' v))"
  proof (cases "r = 0")
    case True
    then have sh: "shape_of s' = shape_of s" "\<forall>i. id_ok S i \<longrightarrow> contents io s' i = contents io s i" using m(2) by simp_all
    have "id_of s' w = id_of s w \<and> contents io s' (id_of s w) = contents io s (id_of s w)" if "w \<in> live s" for w
      using sh(2) live_id(1) [OF pager_okD(5) [OF ok] that] unfolding id_of_shape [OF sh(1)] by blast
    with live_shape [OF sh(1)] show ?thesis unfolding if_P [OF True] by blast
  next
    case False
    from m(2) show ?thesis unfolding if_not_P [OF False] by blast
  qed
  show ?thesis by (rule exI [of _ r], rule exI [of _ s'], intro conjI m(1) m(3) conjunct1 [OF others] conjunct2 [OF others])
qed

theorem map_adds_page_witness:
  "\<exists>r s' v. vm_map map_io None 0 demo = Some (r, s') \<and> r \<noteq> 0 \<and> v \<notin> live demo \<and> live s' = insert v (live demo) \<and>
     contents map_io s' (id_of s' v) = Some (\<lambda>_. nul)"
proof (rule demo_table)
  fix a assume a: "cur_table demo = Some a" "cnt (the_table demo a) = 4" "num_swap_blocks demo = 3"
  have "cnt (the_table demo a) < MAX_PAGE_NUM" by (simp add: a MAX_PAGE_NUM_def VM_ARENA_SIZE_def VM_PAGESIZE_def)
  with a map_adds_page [OF map_io_laws _ _ demo_reached a(1), of None 0] show ?thesis by auto
qed

section \<open>Stores\<close>

text \<open>A store to a page is seen at once through every page, of any process, that stands for the same block of the same
  file, and changes no other byte of any page.\<close>

lemma store_seen_by_peers:
  assumes "file_laws io S" "2 \<le> M" "M \<le> 65536" "reach (pager_started M S) (pager_step io) s" "v \<in> live s" "w \<in> live s"
    and "store v n ch s = Some s'" "read_enable (entry_of s w)"
  shows "load s' w m = (if id_of s w = id_of s v \<and> m = n then Some ch else load s w m)"
proof -
  have ok: "pager_ok io S s" by (rule pager_reached [OF assms(1-4)])
  note st = store_ok [OF ok assms(5,7)]
  have e: "entry_of s' w = entry_of s w" and r': "read_enable (entry_of s' w)"
    using assms(7,8) by (auto simp: store_def entry_of_def split: if_splits)
  have "w \<in> live s'" using assms(6) unfolding live_shape [OF st(2)] .
  then obtain y where y: "contents io s' (id_of s' w) = Some y" "load s' w = (\<lambda>n. Some (y n))"
    using load_contents [OF st(1) _ r'] by blast
  obtain x where x: "contents io s (id_of s w) = Some x" "load s w = (\<lambda>n. Some (x n))"
    using load_contents [OF ok assms(6,8)] by blast
  have "Some y = (if id_of s w = id_of s v then Some (x(n := ch)) else Some x)"
    using y(1) x(1) st(3) [of "id_of s w"] unfolding id_of_shape [OF st(2)] by (simp split: if_splits)
  then show ?thesis using x(2) y(2) by (simp split: if_splits)
qed

section \<open>The end of a process\<close>

lemma free_blocks:
  assumes "pager_ok io S s"
  shows "set (available_swap_blocks s) = {..<S} - (\<lambda>v. block (id_of s v)) ` swap_pages s"
  using pager_okD(5) [OF assms] by (auto simp: swap_ok_def)

text \<open>C36. The end of a process gives back what it held: its swap blocks are free again and may be reserved again, no frame
  is left with a page of swap that nobody has, and the pages of all other processes are as they were.\<close>

theorem exit_gives_back:
  assumes "file_laws io S" "2 \<le> M" "M \<le> 65536" "reach (pager_started M S) (pager_step io) s" "cur_table s = Some a"
  shows "\<exists>s'. vm_destroy s = Some s' \<and> tables s' = (tables s)(cur_pid s := None) \<and>
    live s' = live s - set (vps (the_table s a)) \<and>
    (\<forall>w \<in> live s'. id_of s' w = id_of s w \<and> contents io s' (id_of s w) = contents io s (id_of s w)) \<and>
    num_swap_blocks s' = num_swap_blocks s + length (filter (\<lambda>v. swap_backed (id_of s v)) (vps (the_table s a))) \<and>
    set (available_swap_blocks s') = set (available_swap_blocks s) \<union>
      (\<lambda>v. block (id_of s v)) ` {v \<in> set (vps (the_table s a)). swap_backed (id_of s v)} \<and>
    (\<forall>p \<in> set (clock_queue s'). swap_backed (p_id (physical_table s' p)) \<longrightarrow> (\<exists>w \<in> live s'. id_of s' w = p_id (physical_table s' p)))"
proof -
  have ok: "pager_ok io S s" by (rule pager_reached [OF assms(1-4)])
  have t: "table_ok s a" "set (vps (the_table s a)) \<subseteq> live s"
    using pager_okD(3) [OF ok] assms(5) by (auto simp: tables_ok_def live_def)
  obtain s' where d: "vm_destroy s = Some s'" "pager_ok io S s'" "live s' = live s - set (vps (the_table s a))"
    "tables s' = (tables s)(cur_pid s := None)" "id_of s' = id_of s"
    "\<forall>w \<in> live s'. contents io s' (id_of s w) = contents io s (id_of s w)"
    "num_swap_blocks s' = num_swap_blocks s + occupied_swap_blocks (the_table s a)"
    using vm_destroy_ok [OF ok assms(5)] by (elim exE conjE) (rule that)
  let ?b = "\<lambda>v. block (id_of s v)" and ?gone = "{v \<in> set (vps (the_table s a)). swap_backed (id_of s v)}"
  have sub: "?gone \<subseteq> swap_pages s" "swap_pages s' = swap_pages s - ?gone" using t(2) by (auto simp: swap_pages_def d(3,5))
  have inj: "inj_on ?b (swap_pages s)" "?b ` swap_pages s \<subseteq> {..<S}" using pager_okD(5) [OF ok] by (auto simp: swap_ok_def)
  have "?b ` swap_pages s' = ?b ` swap_pages s - ?b ` ?gone" unfolding sub(2) using inj(1) sub(1) by (intro inj_on_image_set_diff) auto
  then have "set (available_swap_blocks s') = set (available_swap_blocks s) \<union> ?b ` ?gone"
    unfolding free_blocks [OF d(2)] free_blocks [OF ok] d(5) using sub(1) inj(2) by blast
  moreover have "\<exists>w \<in> live s'. id_of s' w = p_id (physical_table s' p)"
    if p: "p \<in> set (clock_queue s')" and b: "swap_backed (p_id (physical_table s' p))" for p
  proof -
    let ?i = "p_id (physical_table s' p)"
    have i: "id_ok S ?i" "block ?i \<notin> set (available_swap_blocks s')" using in_clock [OF pager_okD(7) [OF d(2)] p] b by simp_all
    then have "block ?i \<in> (\<lambda>v. block (id_of s' v)) ` swap_pages s'" unfolding free_blocks [OF d(2)] using b by (auto simp: id_ok_def)
    then obtain w where w: "w \<in> live s'" "swap_backed (id_of s' w)" "block (id_of s' w) = block ?i" by (auto simp: swap_pages_def)
    then have "id_of s' w = ?i" using swap_id [OF live_id(1) [OF pager_okD(5) [OF d(2)] w(1)] i(1)] b by simp
    with w(1) show ?thesis by blast
  qed
  moreover have "occupied_swap_blocks (the_table s a) = length (filter (\<lambda>v. swap_backed (id_of s v)) (vps (the_table s a)))"
    using t(1) by (simp add: table_ok_def)
  ultimately show ?thesis using d(1,3,4,6,7) by (intro exI [of _ s']) (simp add: d(5))
qed

theorem exit_gives_back_witness: "\<exists>s'. vm_destroy demo = Some s' \<and> tables s' 1 = None \<and> num_swap_blocks s' = 4"
proof (rule demo_table)
  fix a assume a: "cur_table demo = Some a" "num_swap_blocks demo = 3" "cur_pid demo = 1"
    "map (id_of demo) (vps (the_table demo a)) = [\<lparr>filename = [], block = 0, swap_backed = True\<rparr>,
         \<lparr>filename = [CHR ''f'', nul], block = 0, swap_backed = False\<rparr>, \<lparr>filename = [CHR ''f'', nul], block = 7, swap_backed = False\<rparr>,
         \<lparr>filename = [CHR ''f'', nul], block = 0, swap_backed = False\<rparr>]"
  have "length (filter (\<lambda>v. swap_backed (id_of demo v)) (vps (the_table demo a))) = length (filter swap_backed (map (id_of demo) (vps (the_table demo a))))"
    by (simp add: filter_map comp_def)
  also have "\<dots> = 1" unfolding a(4) by simp
  finally show ?thesis using exit_gives_back [OF map_io_laws _ _ demo_reached a(1)] a(2,3) by auto
qed

section \<open>The order of the maps' keys\<close>

lemma string_less_irrefl: "\<not> string_less s s"
  by (induction s) auto

lemma string_less_trans: "string_less s t \<Longrightarrow> string_less t u \<Longrightarrow> string_less s u"
proof (induction s t arbitrary: u rule: string_less.induct)
  case (2 c cs)
  then show ?case by (cases u) simp_all
next
  case (3 b bs c cs)
  then show ?case by (cases u) auto
qed simp

lemma string_less_total: "s \<noteq> t \<Longrightarrow> string_less s t \<or> string_less t s"
proof (induction s t rule: string_less.induct)
  case (1 s)
  then show ?case by (cases s) simp_all
next
  case (3 b bs c cs)
  show ?case
  proof (cases "b = c")
    case False
    then have "(of_char b :: nat) \<noteq> of_char c" by simp
    then have "(of_char b :: nat) < of_char c \<or> (of_char c :: nat) < of_char b" by (rule neq_iff [THEN iffD1])
    then show ?thesis by auto
  next
    case True
    with 3 show ?thesis by auto
  qed
qed simp

text \<open>C38. \<open>operator<\<close> on file identifiers is a strict linear order on the identifiers the pager makes, as \<open>std::map\<close>
  requires of its keys: two identifiers are one key exactly when they are equal.\<close>

theorem file_id_order:
  "\<not> file_id_less x x \<and> (file_id_less x y \<and> file_id_less y z \<longrightarrow> file_id_less x z) \<and>
   (id_ok S x \<and> id_ok S y \<and> x \<noteq> y \<longrightarrow> file_id_less x y \<or> file_id_less y x)"
proof (intro conjI impI)
  show "\<not> file_id_less x x" by (simp add: file_id_less_def string_less_irrefl)
  show "file_id_less x z" if "file_id_less x y \<and> file_id_less y z"
    using that string_less_trans [of "filename x" "filename y" "filename z"]
    by (auto simp: file_id_less_def string_less_irrefl split: if_splits)
  show "file_id_less x y \<or> file_id_less y x" if "id_ok S x \<and> id_ok S y \<and> x \<noteq> y"
    using that string_less_total [of "filename x" "filename y"]
    by (cases x; cases y) (auto simp: file_id_less_def id_ok_def split: if_splits)
qed

theorem file_id_order_witness:
  "file_id_less \<lparr>filename = ''a'', block = 9, swap_backed = False\<rparr> \<lparr>filename = [], block = 3, swap_backed = True\<rparr> \<and>
   file_id_less \<lparr>filename = ''a'', block = 9, swap_backed = False\<rparr> \<lparr>filename = ''ab'', block = 0, swap_backed = False\<rparr>"
  using file_id_order [of "\<lparr>filename = ''a'', block = 9, swap_backed = False\<rparr>"
      "\<lparr>filename = ''ab'', block = 0, swap_backed = False\<rparr>" "\<lparr>filename = [], block = 3, swap_backed = True\<rparr>" 4]
  by (simp add: file_id_less_def)

section \<open>Where the code departs from its interface\<close>

text \<open>C27. A process does not inherit the arena of its parent, as vm_pager.h asks, and what is reserved for it is lost. When \<open>vm_create\<close>
  succeeds for a parent that the pager manages, whatever the parent has mapped, the child's arena is empty; yet the swap blocks of
  the parent are counted as reserved once more; and since the child's table counts none, its end does not give them back.\<close>

theorem create_reserves_for_ever:
  assumes "file_laws io S" "2 \<le> M" "M \<le> 65536" "reach (pager_started M S) (pager_step io) s"
    and parent: "tables s parent = Some a" and child: "tables s child = None" and c: "vm_create parent child s = (0, s1)"
    and sw: "vm_switch child s1 = Some s2" and d: "vm_destroy s2 = Some s3" and cur: "cur_pid s \<noteq> child"
  shows "\<exists>b. tables s1 child = Some b \<and> cnt (the_table s1 b) = 0 \<and>
    num_swap_blocks s3 + occupied_swap_blocks (the_table s a) = num_swap_blocks s"
proof -
  have ok: "pager_ok io S s" by (rule pager_reached [OF assms(1-4)])
  have le: "occupied_swap_blocks (the_table s a) \<le> num_swap_blocks s" using c parent by (auto simp: vm_create_def Let_def split: if_splits)
  let ?b = "next_address s"
  have s1: "tables s1 = (tables s)(child \<mapsto> ?b)" "the_table s1 ?b = \<lparr>ptbr = ?b, vps = [], cnt = 0, occupied_swap_blocks = 0\<rparr>"
    "num_swap_blocks s1 = num_swap_blocks s - occupied_swap_blocks (the_table s a)" "cur_pid s1 = cur_pid s"
    using c parent le by (auto simp: vm_create_def new_table_def Let_def)
  have s2: "s2 = s1\<lparr>cur_table := Some ?b, page_table_base_register := ptbr (the_table s1 ?b), cur_pid := child\<rparr>"
    using sw s1(1,4) cur by (simp add: vm_switch_def)
  have "num_swap_blocks s3 = num_swap_blocks s1" using d s1(2) by (auto simp: vm_destroy_def s2)
  then show ?thesis using s1 le by simp
qed

text \<open>A process with one page of swap, of four, makes another, which ends: two pages are left to reserve.\<close>

theorem create_reserves_for_ever_witness:
  "\<exists>(s :: (string option \<Rightarrow> nat \<Rightarrow> page option) pager) (s1 :: (string option \<Rightarrow> nat \<Rightarrow> page option) pager) (s3 :: (string option \<Rightarrow> nat \<Rightarrow> page option) pager).
      num_swap_blocks s = 3 \<and> num_swap_blocks s3 = 2 \<and>
     (\<exists>b. tables s1 2 = Some b \<and> cnt (the_table s1 b) = 0)"
proof -
  let ?s0 = "vm_init 3 4 (initial (\<lambda>_ _. CHR ''?'') demo_files)"
  have "\<exists>s a s1 s2 s3. pager_calls map_io [Process_create 0 1, Process_switch 1, Process_map None 0] ?s0 = Some s \<and>
      tables s 1 = Some a \<and> tables s 2 = None \<and> occupied_swap_blocks (the_table s a) = 1 \<and> cur_pid s = 1 \<and> num_swap_blocks s = 3 \<and>
      vm_create 1 2 s = (0, s1) \<and> vm_switch 2 s1 = Some s2 \<and> vm_destroy s2 = Some s3"
    by (simp add: pager_eval)
  then obtain s a s1 s2 s3 where s: "pager_calls map_io [Process_create 0 1, Process_switch 1, Process_map None 0] ?s0 = Some s"
    "tables s 1 = Some a" "tables s 2 = None" "occupied_swap_blocks (the_table s a) = 1" "cur_pid s = 1" "num_swap_blocks s = 3"
    "vm_create 1 2 s = (0, s1)" "vm_switch 2 s1 = Some s2" "vm_destroy s2 = Some s3" by (elim exE conjE) (rule that)
  have "reach (pager_started 3 4) (pager_step map_io) s"
    by (rule pager_calls_reach [OF s(1)], rule reach_init) (auto simp: pager_started_def)
  from create_reserves_for_ever [OF map_io_laws _ _ this s(2,3,7-9)] s(4-6)
  have "num_swap_blocks s3 = 2" "\<exists>b. tables s1 2 = Some b \<and> cnt (the_table s1 b) = 0" by auto
  with s(6) show ?thesis by blast
qed

text \<open>
  After \<open>vm_destroy\<close> the identifier of the process that ended is still the current one: when it is given to a
  new process at once, \<open>vm_switch\<close> does nothing and the next fault or \<open>vm_map\<close> follows a null pointer.
\<close>

theorem reused_identifier_crashes:
  fixes s :: "'f pager"
  assumes "vm_destroy s = Some s1" "tables s1 parent = None"
  shows "\<exists>s2. vm_create parent (cur_pid s) s1 = (0, s2) \<and> vm_switch (cur_pid s) s2 = Some s2 \<and>
    vm_fault io addr w s2 = None \<and> vm_map io name b s2 = None"
proof -
  have "cur_table s1 = None" using assms(1) by (auto simp: vm_destroy_def split: option.splits bind_splits)
  with destroy_cur_pid [OF assms(1)] have "cur_pid s1 = cur_pid s" "cur_table s1 = None" by simp_all
  then show ?thesis using assms(2) by (simp add: vm_create_def new_table_def vm_switch_def vm_fault_def vm_map_def Let_def)
qed

text \<open>
  \<open>ppage * VM_PAGESIZE\<close> is computed in 32 bits: the first frame beyond 4 GiB is frame 0, the pinned zero page.
\<close>

theorem frame_wraps: "frame 65536 = frame 0"
  by (simp add: frame_def VM_PAGESIZE_def)

end
