(* ===== verification/Pager_Flat.thy ===== *)
theory Pager_Flat imports Pager_Entries begin

text \<open>
  What the pager is for: the processes see memory without paging. The memory management unit, with the pager
  behind it, is compared with a reference machine that has no frames, no entries and no faults: address spaces
  as lists of pages, and what each page holds.
\<close>

section \<open>The memory management unit\<close>

text \<open>
  A load or a store of the current process (vm_pager.h): the entry that the page table base register and the
  page number select; a fault when its bit is not set, after which the access is tried again. The process is
  stopped when the pager returns -1; \<open>None\<close> and \<open>False\<close> stand for that. An address outside the arena does not reach the pager.
\<close>

definition in_arena :: "64 word \<Rightarrow> bool" where
  "in_arena addr \<longleftrightarrow> unat (addr - VM_ARENA_BASEADDR) < VM_ARENA_SIZE"

definition mmu_entry :: "'f pager \<Rightarrow> 64 word \<Rightarrow> pte" where
  "mmu_entry s addr = the_pte s (page_table_base_register s, vpn_of addr)"

partial_function (option) cpu_load :: "'f file_io \<Rightarrow> 64 word \<Rightarrow> 'f pager \<Rightarrow> (char option \<times> 'f pager) option" where
  "cpu_load io addr s =
     (if read_enable (mmu_entry s addr) then Some (Some (physmem s (ppage (mmu_entry s addr)) (offset_of addr)), s)
      else do { r \<leftarrow> vm_fault io addr False s;
        if fst r = - 1 then Some (None, snd r) else cpu_load io addr (snd r) })"

partial_function (option) cpu_store :: "'f file_io \<Rightarrow> 64 word \<Rightarrow> char \<Rightarrow> 'f pager \<Rightarrow> (bool \<times> 'f pager) option" where
  "cpu_store io addr ch s =
     (if write_enable (mmu_entry s addr)
      then let p = ppage (mmu_entry s addr)
        in Some (True, s\<lparr>physmem := (physmem s)(p := (physmem s p)(offset_of addr := ch))\<rparr>)
      else do { r \<leftarrow> vm_fault io addr True s;
        if fst r = - 1 then Some (False, snd r) else cpu_store io addr ch (snd r) })"

definition machine_ok :: "'f file_io \<Rightarrow> nat \<Rightarrow> 'f pager \<Rightarrow> bool" where
  "machine_ok io S s \<longleftrightarrow> pager_ok io S s \<and> idle_ok s"

lemma machine_touches: "machine_ok io S s \<Longrightarrow> touches s s' \<Longrightarrow> pager_ok io S s' \<Longrightarrow> machine_ok io S s'"
  using idle_touches pager_okD(3) by (fastforce simp: machine_ok_def)

lemma arena_vpn: "in_arena addr \<Longrightarrow> vpn_of addr < MAX_PAGE_NUM"
proof -
  assume h: "in_arena addr"
  then have "window addr < 2 ^ 24" by (simp add: in_arena_def window_def VM_ARENA_SIZE_def)
  then show ?thesis by (simp add: vpn_window MAX_PAGE_NUM_def VM_ARENA_SIZE_def VM_PAGESIZE_def)
qed

lemma mmu:
  assumes ok: "machine_ok io S s" and a: "cur_table s = Some a" and ad: "in_arena addr"
  shows "vpn_of addr < cnt (the_table s a) \<Longrightarrow> mmu_entry s addr = entry_of s (vps (the_table s a) ! vpn_of addr)"
    "vpn_of addr < cnt (the_table s a) \<Longrightarrow> vps (the_table s a) ! vpn_of addr \<in> live s"
    "\<not> vpn_of addr < cnt (the_table s a) \<Longrightarrow> \<not> read_enable (mmu_entry s addr) \<and> \<not> write_enable (mmu_entry s addr)"
proof -
  have tb: "tables_ok s" using ok pager_okD(3) unfolding machine_ok_def by blast
  have reg: "page_table_base_register s = a" "tables s (cur_pid s) = Some a" "table_ok s a" using tb a by (auto simp: tables_ok_def)
  show "mmu_entry s addr = entry_of s (vps (the_table s a) ! vpn_of addr)" if "vpn_of addr < cnt (the_table s a)"
    using reg(1,3) that by (simp add: mmu_entry_def entry_of_def table_ok_def)
  show "vps (the_table s a) ! vpn_of addr \<in> live s" if "vpn_of addr < cnt (the_table s a)"
    using live_nth [OF reg(2)] reg(3) that by (simp add: table_ok_def)
  show "\<not> read_enable (mmu_entry s addr) \<and> \<not> write_enable (mmu_entry s addr)" if "\<not> vpn_of addr < cnt (the_table s a)"
    using ok reg(1,2) arena_vpn [OF ad] that by (simp add: machine_ok_def idle_ok_def mmu_entry_def)
qed

lemma cpu_load_ok:
  assumes laws: "file_laws io S" and ok: "machine_ok io S s" and a: "cur_table s = Some a" and ad: "in_arena addr"
  obtains s' where "cpu_load io addr s = Some (arena_byte io s a addr, s')" "machine_ok io S s'" "shape_of s' = shape_of s"
    "\<And>i. id_ok S i \<Longrightarrow> contents io s' i = contents io s i"
proof -
  let ?n = "vpn_of addr" let ?v = "vps (the_table s a) ! ?n"
  have pok: "pager_ok io S s" using ok by (simp add: machine_ok_def)
  have hit: "cpu_load io addr t = Some (arena_byte io s a addr, t)"
    if t: "machine_ok io S t" "shape_of t = shape_of s" "\<And>i. id_ok S i \<Longrightarrow> contents io t i = contents io s i"
      and n: "?n < cnt (the_table s a)" and r: "read_enable (entry_of t ?v)" for t
  proof -
    have sh: "cur_table t = Some a" "the_table t = the_table s" using t(2) a by (simp_all add: shape_of_def)
    have e: "mmu_entry t addr = entry_of t ?v" and v: "?v \<in> live t"
      using mmu(1,2) [OF t(1) sh(1) ad] n unfolding sh(2) by blast+
    have "pager_ok io S t" using t(1) by (simp add: machine_ok_def)
    from resident_data(1) [OF this v r] have "contents io t (id_of t ?v) = Some (physmem t (ppage (entry_of t ?v)))" .
    moreover have "contents io t (id_of t ?v) = contents io s (id_of s ?v)"
      using t(3) live_id(1) [OF pager_okD(5) [OF pok]] v unfolding id_of_shape [OF t(2)] live_shape [OF t(2)] by blast
    ultimately have "arena_byte io s a addr = Some (physmem t (ppage (mmu_entry t addr)) (offset_of addr))"
      using n e by (simp add: arena_byte_def)
    then show ?thesis using r e by (subst cpu_load.simps) simp
  qed
  show ?thesis
  proof (cases "read_enable (mmu_entry s addr)")
    case True
    then have n: "?n < cnt (the_table s a)" using mmu(3) [OF ok a ad] by blast
    with True have "read_enable (entry_of s ?v)" using mmu(1) [OF ok a ad] by simp
    from hit [OF ok refl refl n this] ok show ?thesis by (intro that [of s]) simp_all
  next
    case miss: False
    obtain r s1 where f: "vm_fault io addr False s = Some (r, s1)" "pager_ok io S s1" "shape_of s1 = shape_of s"
      "\<forall>i. id_ok S i \<longrightarrow> contents io s1 i = contents io s i" "r \<in> {0, - 1}"
      "r = 0 \<longleftrightarrow> ?n < cnt (the_table s a) \<and> contents io s (id_of s ?v) \<noteq> None"
      "r = 0 \<longrightarrow> read_enable (entry_of s1 ?v)"
      using vm_fault_ok [OF laws pok a, of addr False] by blast
    have m: "machine_ok io S s1"
      by (rule machine_touches [OF ok touches_vm_fault [OF f(1) pager_okD(3,4) [OF pok] a] f(2)])
    show ?thesis
    proof (cases "r = 0")
      case True
      with f(6,7) have "?n < cnt (the_table s a)" "read_enable (entry_of s1 ?v)" by blast+
      from hit [OF m f(3) _ this] f(4) have h: "cpu_load io addr s1 = Some (arena_byte io s a addr, s1)" by blast
      have "cpu_load io addr s = Some (arena_byte io s a addr, s1)" using miss f(1) True h by (subst cpu_load.simps) simp
      then show ?thesis using m f(3,4) by (intro that) blast+
    next
      case False
      then have "r = - 1" "arena_byte io s a addr = None" using f(5,6) by (auto simp: arena_byte_def)
      then have "cpu_load io addr s = Some (arena_byte io s a addr, s1)" using miss f(1) by (subst cpu_load.simps) simp
      then show ?thesis using m f(3,4) by (intro that) blast+
    qed
  qed
qed

definition byte_stored :: "'f file_io \<Rightarrow> 'f pager \<Rightarrow> file_id \<Rightarrow> nat \<Rightarrow> char \<Rightarrow> file_id \<Rightarrow> page option" where
  "byte_stored io s j n ch i = (if i = j then map_option (\<lambda>x. x(n := ch)) (contents io s i) else contents io s i)"

lemma cpu_store_ok:
  assumes laws: "file_laws io S" and ok: "machine_ok io S s" and a: "cur_table s = Some a" and ad: "in_arena addr"
  obtains s' where "cpu_store io addr ch s = Some (arena_byte io s a addr \<noteq> None, s')" "machine_ok io S s'" "shape_of s' = shape_of s"
    "\<And>i. id_ok S i \<Longrightarrow> contents io s' i = (if arena_byte io s a addr = None then contents io s i
       else byte_stored io s (id_of s (vps (the_table s a) ! vpn_of addr)) (offset_of addr) ch i)"
proof -
  let ?n = "vpn_of addr" let ?v = "vps (the_table s a) ! ?n"
  have pok: "pager_ok io S s" using ok by (simp add: machine_ok_def)
  have hit: "\<exists>s'. cpu_store io addr ch t = Some (True, s') \<and> machine_ok io S s' \<and> shape_of s' = shape_of s \<and> arena_byte io s a addr \<noteq> None \<and>
      (\<forall>i. id_ok S i \<longrightarrow> contents io s' i = byte_stored io s (id_of s ?v) (offset_of addr) ch i)"
    if t: "machine_ok io S t" "shape_of t = shape_of s" "\<And>i. id_ok S i \<Longrightarrow> contents io t i = contents io s i"
      and n: "?n < cnt (the_table s a)" and w: "write_enable (entry_of t ?v)" for t
  proof -
    have sh: "cur_table t = Some a" "the_table t = the_table s" using t(2) a by (simp_all add: shape_of_def)
    have e: "mmu_entry t addr = entry_of t ?v" and v: "?v \<in> live t"
      using mmu(1,2) [OF t(1) sh(1) ad] n unfolding sh(2) by blast+
    have pt: "pager_ok io S t" using t(1) by (simp add: machine_ok_def)
    let ?s = "t\<lparr>physmem := (physmem t)(ppage (entry_of t ?v) := (physmem t (ppage (entry_of t ?v)))(offset_of addr := ch))\<rparr>"
    have st: "store ?v (offset_of addr) ch t = Some ?s" using w by (simp add: store_def)
    note so = store_ok [OF pt v st]
    have run: "cpu_store io addr ch t = Some (True, ?s)" using w e by (subst cpu_store.simps) (simp add: Let_def)
    have m: "machine_ok io S ?s" by (rule machine_touches [OF t(1) touches_same so(1)]) (simp_all add: shape_of_def)
    have sh': "shape_of ?s = shape_of s" using so(2) t(2) by simp
    have "read_enable (entry_of t ?v)"
      using w pager_okD(9) [OF pt v] by (auto simp: entry_ok_def split: option.splits)
    from resident_data(1) [OF pt v this] have "contents io t (id_of t ?v) \<noteq> None" by simp
    moreover have "contents io t (id_of t ?v) = contents io s (id_of s ?v)"
      using t(3) live_id(1) [OF pager_okD(5) [OF pok]] v unfolding id_of_shape [OF t(2)] live_shape [OF t(2)] by blast
    ultimately have "arena_byte io s a addr \<noteq> None" using n by (simp add: arena_byte_def)
    moreover have "contents io ?s i = byte_stored io s (id_of s ?v) (offset_of addr) ch i" if "id_ok S i" for i
      using so(3) [of i] t(3) [OF that] unfolding byte_stored_def id_of_shape [OF t(2)] by (cases "i = id_of s ?v") simp_all
    ultimately show ?thesis using run m sh' by blast
  qed
  show ?thesis
  proof (cases "write_enable (mmu_entry s addr)")
    case True
    then have n: "?n < cnt (the_table s a)" using mmu(3) [OF ok a ad] by blast
    with True have "write_enable (entry_of s ?v)" using mmu(1) [OF ok a ad] by simp
    from hit [OF ok refl refl n this] obtain s' where "cpu_store io addr ch s = Some (True, s')" "machine_ok io S s'"
      "shape_of s' = shape_of s" "arena_byte io s a addr \<noteq> None"
      "\<forall>i. id_ok S i \<longrightarrow> contents io s' i = byte_stored io s (id_of s ?v) (offset_of addr) ch i" by blast
    then show ?thesis by (intro that [of s']) auto
  next
    case miss: False
    obtain r s1 where f: "vm_fault io addr True s = Some (r, s1)" "pager_ok io S s1" "shape_of s1 = shape_of s"
      "\<forall>i. id_ok S i \<longrightarrow> contents io s1 i = contents io s i" "r \<in> {0, - 1}"
      "r = 0 \<longleftrightarrow> ?n < cnt (the_table s a) \<and> contents io s (id_of s ?v) \<noteq> None"
      "r = 0 \<longrightarrow> read_enable (entry_of s1 ?v) \<and> write_enable (entry_of s1 ?v)"
      using vm_fault_ok [OF laws pok a, of addr True] by blast
    have m: "machine_ok io S s1"
      by (rule machine_touches [OF ok touches_vm_fault [OF f(1) pager_okD(3,4) [OF pok] a] f(2)])
    show ?thesis
    proof (cases "r = 0")
      case True
      with f(6,7) have "?n < cnt (the_table s a)" "write_enable (entry_of s1 ?v)" by blast+
      from hit [OF m f(3) _ this] f(4) obtain s' where s': "cpu_store io addr ch s1 = Some (True, s')" "machine_ok io S s'"
        "shape_of s' = shape_of s" "arena_byte io s a addr \<noteq> None"
        "\<forall>i. id_ok S i \<longrightarrow> contents io s' i = byte_stored io s (id_of s ?v) (offset_of addr) ch i" by blast
      have "cpu_store io addr ch s = Some (True, s')" using miss f(1) True s'(1) by (subst cpu_store.simps) simp
      then show ?thesis using s'(2-5) by (intro that [of s']) auto
    next
      case False
      then have n: "r = - 1" "arena_byte io s a addr = None" using f(5,6) by (auto simp: arena_byte_def)
      then have "cpu_store io addr ch s = Some (False, s1)" using miss f(1) by (subst cpu_store.simps) simp
      then show ?thesis using m f(3,4) n(2) by (intro that [of s1]) simp_all
    qed
  qed
qed

section \<open>The reference machine\<close>

text \<open>
  Address spaces list the pages a process has mapped, in order, by what they stand for; \<open>memory\<close> says what each page
  holds, \<open>swap_left\<close> how many pages of swap may still be mapped. The machine knows the process that was switched to last
  and whether it is still there.
\<close>

record flat =
  spaces :: "int \<Rightarrow> file_id list option"
  memory :: "file_id \<Rightarrow> page option"
  swap_left :: nat
  current :: int
  alive :: bool

datatype process_call = New_process int int | Run_process int | Load "64 word" | Store "64 word" char
  | Map_page "64 word option" nat | End_process

datatype answer = Granted | Refused | Byte char | Address "64 word"

definition space :: "flat \<Rightarrow> file_id list option" where
  "space m = (if alive m then spaces m (current m) else None)"

definition flat_byte :: "flat \<Rightarrow> 64 word \<Rightarrow> char option" where
  "flat_byte m addr = (case space m of None \<Rightarrow> None | Some ids \<Rightarrow>
     if vpn_of addr < length ids then map_option (\<lambda>x. x (offset_of addr)) (memory m (ids ! vpn_of addr)) else None)"

definition flat_map :: "file_id \<Rightarrow> page option \<Rightarrow> flat \<Rightarrow> flat" where
  "flat_map i x m = m\<lparr>spaces := (spaces m)(current m := map_option (\<lambda>ids. ids @ [i]) (spaces m (current m))),
     memory := (memory m)(i := x)\<rparr>"

definition swap_count :: "file_id list option \<Rightarrow> nat" where
  "swap_count ids = (case ids of None \<Rightarrow> 0 | Some ids \<Rightarrow> length (filter swap_backed ids))"

definition next_page :: "flat \<Rightarrow> nat" where
  "next_page m = length (the (space m))"

text \<open>
  When a call may be made, and what it does. The last condition on a switch is not one of vm_pager.h: a process with the identifier
  of the process that was switched to last and has ended is not the next to run (the code crashes then, \<open>reused_identifier_crashes\<close>).

  \<open>flat_step\<close> makes new processes as the code does: with an empty arena, and refused when the swap space left does not
  hold what the parent has. In all else it is what vm_pager.h says. A page is refused when the arena is full, for lack of swap
  space, or when no string stands at the pointer. Only the block of swap that backs a new page is left open.
\<close>

fun flat_allowed :: "process_call \<Rightarrow> flat \<Rightarrow> bool" where
  "flat_allowed (New_process parent child) m \<longleftrightarrow> spaces m child = None"
| "flat_allowed (Run_process pid) m \<longleftrightarrow> spaces m pid \<noteq> None \<and> (current m = pid \<longrightarrow> alive m)"
| "flat_allowed (Load addr) m \<longleftrightarrow> alive m \<and> in_arena addr"
| "flat_allowed (Store addr ch) m \<longleftrightarrow> alive m \<and> in_arena addr"
| "flat_allowed (Map_page name b) m \<longleftrightarrow> alive m"
| "flat_allowed End_process m \<longleftrightarrow> alive m"

fun flat_step :: "process_call \<Rightarrow> answer \<Rightarrow> flat \<Rightarrow> flat \<Rightarrow> bool" where
  "flat_step (New_process parent child) r m m' \<longleftrightarrow>
     (let n = swap_count (spaces m parent) in
      if n > swap_left m then r = Refused \<and> m' = m
      else r = Granted \<and> m' = m\<lparr>spaces := (spaces m)(child \<mapsto> []), swap_left := swap_left m - n\<rparr>)"
| "flat_step (Run_process pid) r m m' \<longleftrightarrow> r = Granted \<and> m' = m\<lparr>current := pid, alive := True\<rparr>"
| "flat_step (Load addr) r m m' \<longleftrightarrow> m' = m \<and> r = (case flat_byte m addr of None \<Rightarrow> Refused | Some c \<Rightarrow> Byte c)"
| "flat_step (Store addr ch) r m m' \<longleftrightarrow>
     (if flat_byte m addr = None then r = Refused \<and> m' = m
      else r = Granted \<and> m' = (let i = the (space m) ! vpn_of addr in
        m\<lparr>memory := (memory m)(i := map_option (\<lambda>x. x(offset_of addr := ch)) (memory m i))\<rparr>))"
| "flat_step (Map_page None b) r m m' \<longleftrightarrow>
     (if next_page m < MAX_PAGE_NUM \<and> swap_left m \<noteq> 0
      then r = Address (VM_ARENA_BASEADDR + of_nat (next_page m * VM_PAGESIZE)) \<and>
        (\<exists>i. swap_backed i \<and> (\<forall>pid ids. spaces m pid = Some ids \<longrightarrow> i \<notin> set ids) \<and>
          m' = (flat_map i (Some (\<lambda>_. nul)) m)\<lparr>swap_left := swap_left m - 1\<rparr>)
      else r = Refused \<and> m' = m)"
| "flat_step (Map_page (Some p) b) r m m' \<longleftrightarrow>
     (if next_page m < MAX_PAGE_NUM \<and> (\<exists>n. spells (flat_byte m) p n)
      then r = Address (VM_ARENA_BASEADDR + of_nat (next_page m * VM_PAGESIZE)) \<and>
        (\<exists>n. spells (flat_byte m) p n \<and> (let i = \<lparr>filename = n @ [nul], block = b, swap_backed = False\<rparr> in
          m' = flat_map i (memory m i) m))
      else r = Refused \<and> m' = m)"
| "flat_step End_process r m m' \<longleftrightarrow> r = Granted \<and>
     m' = m\<lparr>spaces := (spaces m)(current m := None), alive := False, swap_left := swap_left m + swap_count (space m),
       memory := (\<lambda>i. if swap_backed i \<and> i \<in> set (the (space m)) then None else memory m i)\<rparr>"

fun flat_steps :: "process_call list \<Rightarrow> answer list \<Rightarrow> flat \<Rightarrow> flat \<Rightarrow> bool" where
  "flat_steps [] rs m m' \<longleftrightarrow> rs = [] \<and> m' = m"
| "flat_steps (c # cs) rs m m' \<longleftrightarrow> (\<exists>r rs' m1. rs = r # rs' \<and> flat_step c r m m1 \<and> flat_steps cs rs' m1 m')"

text \<open>
  The machine of vm_pager.h. A new process gets the arena of its parent, if the parent is managed: the same blocks of files, and pages of
  swap of its own with the contents of the parent's. It is refused when there is not enough swap space for these.
\<close>

definition parent_pages :: "int \<Rightarrow> flat \<Rightarrow> file_id list" where
  "parent_pages parent m = (case spaces m parent of None \<Rightarrow> [] | Some ids \<Rightarrow> ids)"

definition inherits :: "file_id list \<Rightarrow> file_id list \<Rightarrow> flat \<Rightarrow> bool" where
  "inherits ids js m \<longleftrightarrow> list_all2 (\<lambda>i j. if swap_backed i then swap_backed j \<and> (\<forall>pid is. spaces m pid = Some is \<longrightarrow> j \<notin> set is) else j = i) ids js \<and>
     distinct (filter swap_backed js)"

definition copied :: "file_id list \<Rightarrow> file_id list \<Rightarrow> (file_id \<Rightarrow> page option) \<Rightarrow> file_id \<Rightarrow> page option" where
  "copied ids js f = (\<lambda>i. case map_of (zip js ids) i of None \<Rightarrow> f i | Some j \<Rightarrow> f j)"

fun documented_step :: "process_call \<Rightarrow> answer \<Rightarrow> flat \<Rightarrow> flat \<Rightarrow> bool" where
  "documented_step (New_process parent child) r m m' \<longleftrightarrow>
     (let ids = parent_pages parent m; n = length (filter swap_backed ids) in
      if n > swap_left m then r = Refused \<and> m' = m
      else r = Granted \<and> (\<exists>js. inherits ids js m \<and>
        m' = m\<lparr>spaces := (spaces m)(child \<mapsto> js), memory := copied ids js (memory m), swap_left := swap_left m - n\<rparr>))"
| "documented_step c r m m' \<longleftrightarrow> flat_step c r m m'"

fun documented_steps :: "process_call list \<Rightarrow> answer list \<Rightarrow> flat \<Rightarrow> flat \<Rightarrow> bool" where
  "documented_steps [] rs m m' \<longleftrightarrow> rs = [] \<and> m' = m"
| "documented_steps (c # cs) rs m m' \<longleftrightarrow> (\<exists>r rs' m1. rs = r # rs' \<and> documented_step c r m m1 \<and> documented_steps cs rs' m1 m')"

text \<open>The two machines agree as long as no process with pages makes another, and then only.\<close>

definition childless :: "process_call \<Rightarrow> flat \<Rightarrow> bool" where
  "childless c m \<longleftrightarrow> (case c of New_process parent child \<Rightarrow> parent_pages parent m = [] | _ \<Rightarrow> True)"

lemma flat_documented:
  assumes "flat_step c r m m'" "childless c m"
  shows "documented_step c r m m'"
proof (cases c)
  case (New_process parent child)
  have e: "parent_pages parent m = []" using assms(2) New_process by (simp add: childless_def)
  then have n: "swap_count (spaces m parent) = 0" by (auto simp: parent_pages_def swap_count_def split: option.splits)
  have "copied [] [] f = f" for f by (simp add: copied_def)
  with assms(1) n e show ?thesis by (auto simp: New_process inherits_def Let_def)
next
  case (Map_page name b)
  then show ?thesis using assms(1) by (cases name) simp_all
qed (use assms(1) in simp_all)

lemma flat_not_documented:
  assumes "flat_step (New_process parent child) Granted m m'" "parent_pages parent m \<noteq> []"
  shows "\<not> documented_step (New_process parent child) r m m'"
proof
  assume d: "documented_step (New_process parent child) r m m'"
  have s: "spaces m' child = Some []" using assms(1) by (auto simp: Let_def split: if_splits)
  have n: "length (filter swap_backed (parent_pages parent m)) \<le> swap_left m"
    using assms(1) by (auto simp: swap_count_def parent_pages_def Let_def split: if_splits option.splits)
  with d obtain js where "inherits (parent_pages parent m) js m" "spaces m' child = Some js" by (auto simp: Let_def split: if_splits)
  with s assms(2) show False by (auto simp: inherits_def dest: list_all2_lengthD)
qed

text \<open>The machine at the start: no process, no pages of swap, and the blocks of files that can be read.\<close>

definition flat_start :: "'f file_io \<Rightarrow> nat \<Rightarrow> 'f \<Rightarrow> flat" where
  "flat_start io S fs = \<lparr>spaces = (\<lambda>_. None),
     memory = (\<lambda>i. if id_ok S i \<and> \<not> swap_backed i then file_read io fs (file_of i) (block i) else None),
     swap_left = S, current = - 1, alive = False\<rparr>"

section \<open>The pager and its processes\<close>

fun process_exec :: "'f file_io \<Rightarrow> process_call \<Rightarrow> 'f pager \<Rightarrow> (answer \<times> 'f pager) option" where
  "process_exec io (New_process parent child) s =
     (let (r, s') = vm_create parent child s in Some (if r = 0 then Granted else Refused, s'))"
| "process_exec io (Run_process pid) s = map_option (Pair Granted) (vm_switch pid s)"
| "process_exec io (Load addr) s =
     map_option (\<lambda>(c, s'). (case c of None \<Rightarrow> Refused | Some c \<Rightarrow> Byte c, s')) (cpu_load io addr s)"
| "process_exec io (Store addr ch) s =
     map_option (\<lambda>(done, s'). (if done then Granted else Refused, s')) (cpu_store io addr ch s)"
| "process_exec io (Map_page name b) s =
     map_option (\<lambda>(r, s'). (if r = 0 then Refused else Address r, s')) (vm_map io name b s)"
| "process_exec io End_process s = map_option (Pair Granted) (vm_destroy s)"

fun process_run :: "'f file_io \<Rightarrow> process_call list \<Rightarrow> 'f pager \<Rightarrow> (answer list \<times> 'f pager) option" where
  "process_run io [] s = Some ([], s)"
| "process_run io (c # cs) s = do {
     r \<leftarrow> process_exec io c s;
     q \<leftarrow> process_run io cs (snd r);
     Some (fst r # fst q, snd q) }"

text \<open>The reference machine that a state of the pager stands for: no frame, entry, bit or queue is left of it.\<close>

definition flat_of :: "'f file_io \<Rightarrow> nat \<Rightarrow> 'f pager \<Rightarrow> flat" where
  "flat_of io S s = \<lparr>spaces = (\<lambda>pid. map_option (\<lambda>a. map (id_of s) (vps (the_table s a))) (tables s pid)),
     memory = (\<lambda>i. if id_ok S i \<and> (swap_backed i \<longrightarrow> i \<in> id_of s ` live s) then contents io s i else None),
     swap_left = num_swap_blocks s, current = cur_pid s, alive = (cur_table s \<noteq> None)\<rparr>"

text \<open>A run of calls in which each may be made; a run in which no process with pages makes another.\<close>

fun protocol :: "'f file_io \<Rightarrow> nat \<Rightarrow> process_call list \<Rightarrow> 'f pager \<Rightarrow> bool" where
  "protocol io S [] s \<longleftrightarrow> True"
| "protocol io S (c # cs) s \<longleftrightarrow> flat_allowed c (flat_of io S s) \<and>
     (case process_exec io c s of None \<Rightarrow> True | Some r \<Rightarrow> protocol io S cs (snd r))"

fun childless_run :: "'f file_io \<Rightarrow> nat \<Rightarrow> process_call list \<Rightarrow> 'f pager \<Rightarrow> bool" where
  "childless_run io S [] s \<longleftrightarrow> True"
| "childless_run io S (c # cs) s \<longleftrightarrow> childless c (flat_of io S s) \<and>
     (case process_exec io c s of None \<Rightarrow> True | Some r \<Rightarrow> childless_run io S cs (snd r))"

end
