(* ===== verification/Pager_Refine.thy ===== *)
theory Pager_Refine imports Pager_Flat Pager_Props begin

text \<open>
  The refinement: every call of the pager and every access through the memory management unit is a step of the
  reference machine, and a run of them, from the start, returns.
\<close>

section \<open>Abstraction\<close>

lemma machine_okD:
  assumes "machine_ok io S s" shows "pager_ok io S s" "idle_ok s" "tables_ok s" "peers_ok s" "swap_ok S s"
  using assms pager_okD by (auto simp: machine_ok_def)

lemma flat_of_start: "flat_of io S (vm_init M S (initial mem fs)) = flat_start io S fs"
proof -
  have l: "live (vm_init M S (initial mem fs)) = {}" by (simp add: live_def vm_init_def initial_def)
  show ?thesis unfolding flat_of_def flat_start_def l
    by (auto simp: vm_init_def initial_def contents_def disk_def fun_eq_iff)
qed

lemma machine_start: "2 \<le> M \<Longrightarrow> M \<le> 65536 \<Longrightarrow> machine_ok io S (vm_init M S (initial mem fs))"
  by (simp add: machine_ok_def vm_init_ok(1)) (simp add: idle_ok_def vm_init_def initial_def)

lemma cur_registered: "machine_ok io S s \<Longrightarrow> cur_table s = Some a \<Longrightarrow> tables s (cur_pid s) = Some a"
  using machine_okD(3) by (fastforce simp: tables_ok_def)

lemma vps_length: "machine_ok io S s \<Longrightarrow> tables s pid = Some a \<Longrightarrow> length (vps (the_table s a)) = cnt (the_table s a)"
  using machine_okD(3) by (fastforce simp: tables_ok_def table_ok_def)

lemma flat_space:
  assumes "machine_ok io S s" "cur_table s = Some a"
  shows "space (flat_of io S s) = Some (map (id_of s) (vps (the_table s a)))"
  using cur_registered [OF assms] assms(2) by (simp add: space_def flat_of_def)

lemma flat_next:
  assumes "machine_ok io S s" "cur_table s = Some a"
  shows "next_page (flat_of io S s) = cnt (the_table s a)"
  using flat_space [OF assms] vps_length [OF assms(1) cur_registered [OF assms]] by (simp add: next_page_def)

lemma flat_memory: "swap_ok S s \<Longrightarrow> v \<in> live s \<Longrightarrow> memory (flat_of io S s) (id_of s v) = contents io s (id_of s v)"
  using live_id(1) [of S s v] by (auto simp: flat_of_def)

lemma flat_page:
  assumes "machine_ok io S s" "cur_table s = Some a" "n < cnt (the_table s a)"
  shows "the (space (flat_of io S s)) ! n = id_of s (vps (the_table s a) ! n)" "vps (the_table s a) ! n \<in> live s"
proof -
  note len = vps_length [OF assms(1) cur_registered [OF assms(1,2)]]
  show "the (space (flat_of io S s)) ! n = id_of s (vps (the_table s a) ! n)"
    using flat_space [OF assms(1,2)] len assms(3) by simp
  show "vps (the_table s a) ! n \<in> live s" by (rule page_live [OF machine_okD(1) [OF assms(1)] assms(2,3)])
qed

lemma flat_byte_of:
  assumes ok: "machine_ok io S s" and a: "cur_table s = Some a"
  shows "flat_byte (flat_of io S s) = arena_byte io s a"
proof
  fix addr
  note len = vps_length [OF ok cur_registered [OF ok a]]
  show "flat_byte (flat_of io S s) addr = arena_byte io s a addr"
  proof (cases "vpn_of addr < cnt (the_table s a)")
    case True
    from flat_memory [OF machine_okD(5) [OF ok] flat_page(2) [OF ok a True], of io] True
    show ?thesis by (simp add: flat_byte_def arena_byte_def flat_space [OF ok a] len)
  next
    case False
    then show ?thesis by (simp add: flat_byte_def arena_byte_def flat_space [OF ok a] len)
  qed
qed

lemma flat_same:
  assumes sh: "shape_of t = shape_of s" and c: "\<And>i. id_ok S i \<Longrightarrow> contents io t i = contents io s i"
  shows "flat_of io S t = flat_of io S s"
proof -
  have "tables t = tables s" "the_table t = the_table s" "num_swap_blocks t = num_swap_blocks s" "cur_pid t = cur_pid s"
    "cur_table t = cur_table s" using sh by (simp_all add: shape_of_def)
  then show ?thesis using c by (simp add: flat_of_def id_of_shape [OF sh] live_shape [OF sh] cong: if_cong)
qed

section \<open>Creation and switches\<close>

lemma vm_create_refines:
  assumes ok: "machine_ok io S s" and ch: "tables s child = None" and c: "vm_create parent child s = (r, s')"
  shows "machine_ok io S s'" "flat_step (New_process parent child) (if r = 0 then Granted else Refused) (flat_of io S s) (flat_of io S s')"
proof -
  note vc = vm_create_ok [OF machine_okD(1) [OF ok] ch c] and ic = idle_create [OF machine_okD(2,3) [OF ok] c]
  show "machine_ok io S s'" using vc(1) ic(1) by (simp add: machine_ok_def)
  let ?n = "case tables s parent of None \<Rightarrow> 0 | Some a \<Rightarrow> occupied_swap_blocks (the_table s a)"
  have n: "swap_count (spaces (flat_of io S s) parent) = ?n"
    using machine_okD(3) [OF ok]
    by (cases "tables s parent") (auto simp: swap_count_def flat_of_def tables_ok_def table_ok_def filter_map comp_def)
  have r: "r \<noteq> 0 \<longleftrightarrow> ?n > num_swap_blocks s" "r = 0 \<Longrightarrow> num_swap_blocks s' = num_swap_blocks s - ?n"
    using c by (auto simp: vm_create_def new_table_def Let_def split: if_splits)
  show "flat_step (New_process parent child) (if r = 0 then Granted else Refused) (flat_of io S s) (flat_of io S s')"
  proof (cases "r = 0")
    case False
    with r(1) vc(6) n show ?thesis by (simp add: flat_of_def)
  next
    case True
    then obtain b where b: "tables s' = (tables s)(child \<mapsto> b)" "vps (the_table s' b) = []"
      "\<And>pid a. tables s pid = Some a \<Longrightarrow> the_table s' a = the_table s a" using ic(2) by blast
    have "spaces (flat_of io S s') = (spaces (flat_of io S s))(child \<mapsto> [])"
    proof
      fix pid
      show "spaces (flat_of io S s') pid = ((spaces (flat_of io S s))(child \<mapsto> [])) pid"
        using b(2) b(3) [of pid] by (cases "tables s pid") (simp_all add: flat_of_def b(1) vc(4))
    qed
    moreover have "memory (flat_of io S s') = memory (flat_of io S s)" by (simp add: flat_of_def vc(2-4) cong: if_cong)
    ultimately have "flat_of io S s' = (flat_of io S s)\<lparr>spaces := (spaces (flat_of io S s))(child \<mapsto> []), swap_left := num_swap_blocks s - ?n\<rparr>"
      using r(2) [OF True] by (simp add: flat_of_def ic(3,4))
    moreover have "\<not> ?n > swap_left (flat_of io S s)" "swap_left (flat_of io S s) = num_swap_blocks s"
      using r(1) True by (simp_all add: flat_of_def)
    ultimately show ?thesis using True n by simp
  qed
qed

lemma vm_switch_refines:
  assumes ok: "machine_ok io S s" and p: "flat_allowed (Run_process pid) (flat_of io S s)"
  shows "\<exists>s'. vm_switch pid s = Some s' \<and> machine_ok io S s' \<and> flat_step (Run_process pid) Granted (flat_of io S s) (flat_of io S s')"
proof -
  obtain a where a: "tables s pid = Some a" "cur_pid s = pid \<Longrightarrow> cur_table s \<noteq> None" using p by (auto simp: flat_of_def)
  obtain s' where s': "vm_switch pid s = Some s'" "pager_ok io S s'" "cur_table s' = Some a" "cur_pid s' = pid"
    "contents io s' = contents io s" "live s' = live s" "id_of s' = id_of s" "tables s' = tables s"
    using vm_switch_ok [OF machine_okD(1) [OF ok] a] by blast
  note f = vm_switch_fields [OF s'(1)]
  have "idle_ok s'" using machine_okD(2) [OF ok] by (simp add: idle_ok_def f)
  moreover have "num_swap_blocks s' = num_swap_blocks s" using s'(1) by (auto simp: vm_switch_def split: if_splits option.splits)
  then have "flat_of io S s' = (flat_of io S s)\<lparr>current := pid, alive := True\<rparr>" by (simp add: flat_of_def s' f cong: if_cong)
  ultimately show ?thesis using s'(1,2) by (simp add: machine_ok_def)
qed

section \<open>Loads and stores\<close>

lemma cpu_load_refines:
  assumes laws: "file_laws io S" and ok: "machine_ok io S s" and p: "flat_allowed (Load addr) (flat_of io S s)"
  shows "\<exists>r s'. process_exec io (Load addr) s = Some (r, s') \<and> machine_ok io S s' \<and>
    flat_step (Load addr) r (flat_of io S s) (flat_of io S s')"
proof -
  obtain a where a: "cur_table s = Some a" "in_arena addr" using p by (auto simp: flat_of_def)
  obtain s' where l: "cpu_load io addr s = Some (arena_byte io s a addr, s')" "machine_ok io S s'" "shape_of s' = shape_of s"
    "\<And>i. id_ok S i \<Longrightarrow> contents io s' i = contents io s i" using cpu_load_ok [OF laws ok a] by blast
  then show ?thesis using flat_same [OF l(3,4)] by (simp add: flat_byte_of [OF ok a(1)])
qed

lemma cpu_store_refines:
  assumes laws: "file_laws io S" and ok: "machine_ok io S s" and p: "flat_allowed (Store addr ch) (flat_of io S s)"
  shows "\<exists>r s'. process_exec io (Store addr ch) s = Some (r, s') \<and> machine_ok io S s' \<and>
    flat_step (Store addr ch) r (flat_of io S s) (flat_of io S s')"
proof -
  obtain a where a: "cur_table s = Some a" "in_arena addr" using p by (auto simp: flat_of_def)
  let ?j = "id_of s (vps (the_table s a) ! vpn_of addr)"
  obtain s' where l: "cpu_store io addr ch s = Some (arena_byte io s a addr \<noteq> None, s')" "machine_ok io S s'" "shape_of s' = shape_of s"
    "\<And>i. id_ok S i \<Longrightarrow> contents io s' i = (if arena_byte io s a addr = None then contents io s i
       else byte_stored io s ?j (offset_of addr) ch i)" using cpu_store_ok [OF laws ok a, of ch] by blast
  show ?thesis
  proof (cases "arena_byte io s a addr = None")
    case True
    then have "flat_of io S s' = flat_of io S s" using l(4) by (intro flat_same [OF l(3)]) simp
    with l True show ?thesis by (simp add: flat_byte_of [OF ok a(1)])
  next
    case False
    then have n: "vpn_of addr < cnt (the_table s a)" by (auto simp: arena_byte_def split: if_splits)
    note pg = flat_page [OF ok a(1) n]
    let ?m = "flat_of io S s"
    have "memory (flat_of io S s') = (memory ?m)(?j := map_option (\<lambda>x. x(offset_of addr := ch)) (memory ?m ?j))"
    proof
      fix i
      have lv: "live s' = live s" "id_of s' = id_of s" by (rule live_shape [OF l(3)], rule id_of_shape [OF l(3)])
      show "memory (flat_of io S s') i = ((memory ?m)(?j := map_option (\<lambda>x. x(offset_of addr := ch)) (memory ?m ?j))) i"
      proof (cases "id_ok S i \<and> (swap_backed i \<longrightarrow> i \<in> id_of s ` live s)")
        case True
        then have "memory (flat_of io S s') i = byte_stored io s ?j (offset_of addr) ch i" "memory ?m i = contents io s i"
          using l(4) False by (simp_all add: flat_of_def lv)
        then show ?thesis by (auto simp: byte_stored_def)
      next
        case no: False
        have "?j \<noteq> i" using no pg(2) live_id(1) [OF machine_okD(5) [OF ok] pg(2)] by blast
        with no show ?thesis by (auto simp: flat_of_def lv)
      qed
    qed
    moreover have "spaces (flat_of io S s') = spaces ?m" "swap_left (flat_of io S s') = swap_left ?m"
      "current (flat_of io S s') = current ?m" "alive (flat_of io S s') = alive ?m"
      using l(3) by (simp_all add: flat_of_def id_of_shape [OF l(3)] shape_of_def)
    ultimately have "flat_of io S s' = ?m\<lparr>memory := (memory ?m)(?j := map_option (\<lambda>x. x(offset_of addr := ch)) (memory ?m ?j))\<rparr>" by simp
    with l(1,2) False show ?thesis unfolding flat_step.simps flat_byte_of [OF ok a(1)] by (simp add: Let_def pg(1))
  qed
qed

section \<open>Mapping\<close>

lemma flat_grown:
  assumes ok: "machine_ok io S s" and a: "cur_table s = Some a" and ok': "pager_ok io S s'" and g: "tables s' = tables s"
    "cur_table s' = cur_table s" "cur_pid s' = cur_pid s" "\<And>b. b \<noteq> a \<Longrightarrow> the_table s' b = the_table s b"
    and v: "live s' = insert v (live s)" "vps (the_table s' a) = vps (the_table s a) @ [v]"
      "\<And>w. w \<in> live s \<Longrightarrow> id_of s' w = id_of s w"
      "\<And>i. id_ok S i \<Longrightarrow> i \<noteq> id_of s' v \<Longrightarrow> contents io s' i = contents io s i"
  shows "flat_of io S s' = (flat_map (id_of s' v) (contents io s' (id_of s' v)) (flat_of io S s))\<lparr>swap_left := num_swap_blocks s'\<rparr>"
proof -
  let ?i = "id_of s' v" and ?m = "flat_of io S s"
  note ta = cur_registered [OF ok a]
  have ids: "map (id_of s') (vps (the_table s b)) = map (id_of s) (vps (the_table s b))" if "tables s pid = Some b" for pid b
    by (rule map_cong [OF refl]) (use that v(3) in \<open>auto simp: live_def\<close>)
  have sp: "spaces (flat_of io S s') = (spaces ?m)(cur_pid s := map_option (\<lambda>ids. ids @ [?i]) (spaces ?m (cur_pid s)))"
  proof
    fix pid
    show "spaces (flat_of io S s') pid = ((spaces ?m)(cur_pid s := map_option (\<lambda>ids. ids @ [?i]) (spaces ?m (cur_pid s)))) pid"
    proof (cases "pid = cur_pid s")
      case True
      then show ?thesis using ids [OF ta] by (simp add: flat_of_def g(1) ta v(2))
    next
      case False
      have "b \<noteq> a" if "tables s pid = Some b" for b
        using machine_okD(3) [OF ok] that ta False unfolding tables_ok_def by blast
      with False show ?thesis using ids [of pid] g(4) by (cases "tables s pid") (simp_all add: flat_of_def g(1))
    qed
  qed
  have img: "id_of s' ` live s' = insert ?i (id_of s ` live s)"
    unfolding v(1) image_insert using v(3) by (metis image_cong)
  have i: "id_ok S ?i" by (rule live_id(1) [OF pager_okD(5) [OF ok']]) (simp add: v(1))
  have mem: "memory (flat_of io S s') = (memory ?m)(?i := contents io s' ?i)"
  proof
    fix j
    show "memory (flat_of io S s') j = ((memory ?m)(?i := contents io s' ?i)) j"
    proof (cases "j = ?i")
      case True
      then show ?thesis using i by (simp add: flat_of_def img)
    next
      case False
      then show ?thesis using v(4) [of j] by (auto simp: flat_of_def img)
    qed
  qed
  show ?thesis using sp mem by (simp add: flat_map_def) (simp add: flat_of_def g(2,3))
qed

lemma vm_map_refines:
  assumes laws: "file_laws io S" and ok: "machine_ok io S s" and p: "flat_allowed (Map_page name b) (flat_of io S s)"
  shows "\<exists>r s'. process_exec io (Map_page name b) s = Some (r, s') \<and> machine_ok io S s' \<and>
    flat_step (Map_page name b) r (flat_of io S s) (flat_of io S s')"
proof -
  obtain a where a: "cur_table s = Some a" using p by (auto simp: flat_of_def)
  let ?m = "flat_of io S s" and ?addr = "VM_ARENA_BASEADDR + of_nat (cnt (the_table s a) * VM_PAGESIZE)"
  let ?new = "\<lambda>s' v. case name of
          None \<Rightarrow> swap_backed (id_of s' v) \<and> contents io s' (id_of s' v) = Some (\<lambda>_. nul) \<and>
            (\<forall>w \<in> live s. id_of s w \<noteq> id_of s' v)
        | Some p \<Rightarrow> \<exists>n. spells (arena_byte io s a) p n \<and>
            id_of s' v = \<lparr>filename = n @ [nul], block = b, swap_backed = False\<rparr> \<and>
            contents io s' (id_of s' v) = contents io s (id_of s' v)"
  obtain r s' where m: "vm_map io name b s = Some (r, s')" "pager_ok io S s'"
    "if r = 0 then shape_of s' = shape_of s \<and> (\<forall>i. id_ok S i \<longrightarrow> contents io s' i = contents io s i)
     else r = ?addr \<and> cnt (the_table s a) < MAX_PAGE_NUM \<and>
       (\<exists>v. v \<notin> live s \<and> live s' = insert v (live s) \<and> vps (the_table s' a) = vps (the_table s a) @ [v] \<and>
       (\<forall>w \<in> live s. id_of s' w = id_of s w \<and> contents io s' (id_of s w) = contents io s (id_of s w)) \<and>
       (\<forall>i. id_ok S i \<longrightarrow> i \<noteq> id_of s' v \<longrightarrow> contents io s' i = contents io s i) \<and> ?new s' v)"
    "r \<noteq> 0 \<longleftrightarrow> cnt (the_table s a) < MAX_PAGE_NUM \<and>
       (case name of None \<Rightarrow> num_swap_blocks s \<noteq> 0 | Some p \<Rightarrow> \<exists>n. spells (arena_byte io s a) p n)"
    using vm_map_ok [OF laws machine_okD(1) [OF ok] a, of name b] by (elim exE conjE) (rule that)
  obtain t where t: "touches s t" "s' = t \<or> grows a t s'"
    "num_swap_blocks s' = (if name = None \<and> r \<noteq> 0 then num_swap_blocks s - 1 else num_swap_blocks s)"
    using vm_map_grows [OF m(1) machine_okD(3,4) [OF ok] a] by blast
  have tb: "tables_ok t" using machine_okD(3) [OF ok] tables_ok_shape [OF touches_shape [OF t(1)]] by simp
  have "idle_ok t" by (rule idle_touches [OF machine_okD(2,3) [OF ok] t(1)])
  then have ok': "machine_ok io S s'" using m(2) t(2) idle_grows by (auto simp: machine_ok_def)
  have run: "process_exec io (Map_page name b) s = Some (if r = 0 then Refused else Address r, s')" by (simp add: m(1))
  have left: "swap_left ?m = num_swap_blocks s" by (simp add: flat_of_def)
  note fb = flat_byte_of [OF ok a] and nx = flat_next [OF ok a]
  have "flat_step (Map_page name b) (if r = 0 then Refused else Address r) ?m (flat_of io S s')"
  proof (cases "r = 0")
    case True
    then have "flat_of io S s' = ?m" using m(3) by (intro flat_same) simp_all
    with True m(4) show ?thesis by (cases name) (simp_all add: fb nx left)
  next
    case False
    then obtain v where v: "live s' = insert v (live s)" "vps (the_table s' a) = vps (the_table s a) @ [v]"
      "\<forall>w \<in> live s. id_of s' w = id_of s w" "\<forall>i. id_ok S i \<longrightarrow> i \<noteq> id_of s' v \<longrightarrow> contents io s' i = contents io s i" "?new s' v"
      and r: "r = ?addr" using m(3) by auto
    have fields: "tables t = tables s" "cur_table t = cur_table s" "cur_pid t = cur_pid s" "the_table t = the_table s"
      using touches_shape [OF t(1)] by (simp_all add: shape_of_def)
    have "s' \<noteq> t" using v(2) fields(4) by auto
    with t(2) have g: "tables s' = tables s" "cur_table s' = cur_table s" "cur_pid s' = cur_pid s" "\<And>b. b \<noteq> a \<Longrightarrow> the_table s' b = the_table s b"
      by (simp_all add: grows_def fields)
    note fl = flat_grown [OF ok a m(2) g v(1,2) bspec [OF v(3)] v(4) [rule_format]]
    show ?thesis
    proof (cases name)
      case None
      have "i \<notin> set ids" if sp: "spaces ?m pid = Some ids" and i: "i = id_of s' v" for pid ids i
      proof
        assume "i \<in> set ids"
        then obtain w where "w \<in> live s" "i = id_of s w" using sp by (fastforce simp: flat_of_def live_def)
        with i v(5) None show False by simp
      qed
      then show ?thesis using False m(4) None v(5) r fl t(3) by (auto simp: nx left)
    next
      case (Some q)
      with v(5) obtain n where n: "spells (arena_byte io s a) q n" "id_of s' v = \<lparr>filename = n @ [nul], block = b, swap_backed = False\<rparr>"
        "contents io s' (id_of s' v) = contents io s (id_of s' v)" by auto
      have "id_ok S (id_of s' v)" by (rule live_id(1) [OF pager_okD(5) [OF m(2)]]) (simp add: v(1))
      then have "memory ?m (id_of s' v) = contents io s' (id_of s' v)" using n by (simp add: flat_of_def)
      then have "flat_of io S s' = flat_map (id_of s' v) (memory ?m (id_of s' v)) ?m"
        using fl t(3) Some by (simp add: flat_map_def left)
      then show ?thesis using False m(4) Some r n(1,2) by (auto simp: fb nx Let_def)
    qed
  qed
  with run ok' show ?thesis by blast
qed

section \<open>The end of a process\<close>

lemma destroy_keeps:
  assumes ok: "pager_ok io S s" and a: "cur_table s = Some a" and d: "vm_destroy s = Some s'"
  shows "the_table s' = the_table s" "the_pte s' = the_pte s" "cur_pid s' = cur_pid s"
    "\<not> swap_backed i \<or> i \<notin> id_of s ` set (vps (the_table s a)) \<Longrightarrow> contents io s' i = contents io s i"
proof -
  have t: "tables s (cur_pid s) = Some a" "table_ok s a" using pager_okD(3) [OF ok] a by (auto simp: tables_ok_def)
  have sub: "set (vps (the_table s a)) \<subseteq> live s" using t(1) by (auto simp: live_def)
  obtain s1 where loop: "destroy_pages (vps (the_table s a)) s = Some s1" "heap_of s1 = heap_of s"
    "\<forall>i. \<not> swap_backed i \<or> i \<notin> id_of s ` set (vps (the_table s a)) \<longrightarrow> contents io s1 i = contents io s i"
    using destroy_pages_ok [OF ok_left [OF ok] sub vps_distinct [OF t(2)]] by (elim exE conjE) (rule that)
  let ?t = "s1\<lparr>num_swap_blocks := num_swap_blocks s1 + occupied_swap_blocks (the_table s1 a),
     tables := (tables s1)(cur_pid s1 := None), cur_table := None\<rparr>"
  have s': "s' = ?t" using a d loop(1) by (simp add: vm_destroy_def)
  show "the_table s' = the_table s" "the_pte s' = the_pte s" "cur_pid s' = cur_pid s" using loop(2) by (simp_all add: s' heap_of_def)
  have "contents io s' i = contents io s1 i" by (simp add: s' contents_def disk_def split: option.split)
  then show "\<not> swap_backed i \<or> i \<notin> id_of s ` set (vps (the_table s a)) \<Longrightarrow> contents io s' i = contents io s i" using loop(3) by simp
qed

lemma vm_destroy_refines:
  assumes ok: "machine_ok io S s" and p: "flat_allowed End_process (flat_of io S s)"
  shows "\<exists>s'. vm_destroy s = Some s' \<and> machine_ok io S s' \<and> flat_step End_process Granted (flat_of io S s) (flat_of io S s')"
proof -
  obtain a where a: "cur_table s = Some a" using p by (auto simp: flat_of_def)
  note ta = cur_registered [OF ok a] and pok = machine_okD(1) [OF ok]
  let ?vs = "vps (the_table s a)" and ?m = "flat_of io S s"
  obtain s' where d: "vm_destroy s = Some s'" "pager_ok io S s'" "live s' = live s - set ?vs"
    "tables s' = (tables s)(cur_pid s := None)" "cur_table s' = None" "id_of s' = id_of s"
    "num_swap_blocks s' = num_swap_blocks s + occupied_swap_blocks (the_table s a)"
    using vm_destroy_ok [OF pok a] by (elim exE conjE) (rule that)
  note k = destroy_keeps [OF pok a d(1)]
  have "tables s pid = Some b" if "tables s' pid = Some b" for pid b using that by (simp add: d(4) split: if_splits)
  then have "idle_ok s'" using machine_okD(2) [OF ok] unfolding idle_ok_def k by blast
  then have ok': "machine_ok io S s'" using d(2) by (simp add: machine_ok_def)
  have sub: "set ?vs \<subseteq> live s" using ta by (auto simp: live_def)
  have gone: "swap_backed i \<Longrightarrow> i \<in> id_of s ` live s' \<longleftrightarrow> i \<in> id_of s ` live s \<and> i \<notin> id_of s ` set ?vs" for i
  proof -
    assume b: "swap_backed i"
    have inj: "inj_on (\<lambda>v. block (id_of s v)) (swap_pages s)" using machine_okD(5) [OF ok] by (simp add: swap_ok_def)
    have "v = w" if "v \<in> live s" "w \<in> live s" "i = id_of s v" "i = id_of s w" for v w
      using inj_onD [OF inj, of v w] that b unfolding swap_pages_def by simp
    then show ?thesis unfolding d(3) using sub by auto
  qed
  have mem: "memory (flat_of io S s') = (\<lambda>i. if swap_backed i \<and> i \<in> set (the (space ?m)) then None else memory ?m i)"
  proof
    fix i
    show "memory (flat_of io S s') i = (if swap_backed i \<and> i \<in> set (the (space ?m)) then None else memory ?m i)"
    proof (cases "swap_backed i \<and> i \<in> id_of s ` set ?vs")
      case True
      then show ?thesis using gone [of i] flat_space [OF ok a] by (simp add: flat_of_def d(6))
    next
      case False
      then have "contents io s' i = contents io s i" using k(4) by blast
      with False show ?thesis using gone [of i] flat_space [OF ok a] by (auto simp: flat_of_def d(6))
    qed
  qed
  have "occupied_swap_blocks (the_table s a) = swap_count (space ?m)"
    using machine_okD(3) [OF ok] ta flat_space [OF ok a]
    by (auto simp: swap_count_def tables_ok_def table_ok_def filter_map comp_def)
  moreover have "spaces (flat_of io S s') = (spaces ?m)(cur_pid s := None)" by (auto simp: flat_of_def d(4,6) k(1))
  ultimately have "flat_of io S s' = ?m\<lparr>spaces := (spaces ?m)(current ?m := None), alive := False,
      swap_left := swap_left ?m + swap_count (space ?m),
      memory := (\<lambda>i. if swap_backed i \<and> i \<in> set (the (space ?m)) then None else memory ?m i)\<rparr>"
    using mem d(5,7) k(3) by simp (simp add: flat_of_def)
  with d(1) ok' show ?thesis by simp
qed

section \<open>Runs\<close>

lemma exec_refines:
  assumes laws: "file_laws io S" and ok: "machine_ok io S s" and p: "flat_allowed c (flat_of io S s)"
  shows "\<exists>r s'. process_exec io c s = Some (r, s') \<and> machine_ok io S s' \<and> flat_step c r (flat_of io S s) (flat_of io S s')"
proof (cases c)
  case (New_process parent child)
  obtain r s' where c: "vm_create parent child s = (r, s')" by fastforce
  have "tables s child = None" using p New_process by (simp add: flat_of_def)
  from vm_create_refines [OF ok this c] show ?thesis unfolding New_process by (auto simp: c)
next
  case (Run_process pid)
  from vm_switch_refines [OF ok p [unfolded Run_process]] show ?thesis unfolding Run_process by auto
next
  case (Load addr)
  from cpu_load_refines [OF laws ok p [unfolded Load]] show ?thesis unfolding Load .
next
  case (Store addr ch)
  from cpu_store_refines [OF laws ok p [unfolded Store]] show ?thesis unfolding Store .
next
  case (Map_page name b)
  from vm_map_refines [OF laws ok p [unfolded Map_page]] show ?thesis unfolding Map_page .
next
  case End_process
  from vm_destroy_refines [OF ok p [unfolded End_process]] show ?thesis unfolding End_process by auto
qed

lemma run_refines:
  assumes laws: "file_laws io S"
  shows "machine_ok io S s \<Longrightarrow> protocol io S cs s \<Longrightarrow>
    \<exists>rs s'. process_run io cs s = Some (rs, s') \<and> flat_steps cs rs (flat_of io S s) (flat_of io S s') \<and>
      (childless_run io S cs s \<longrightarrow> documented_steps cs rs (flat_of io S s) (flat_of io S s'))"
proof (induction cs arbitrary: s)
  case (Cons c cs)
  have p: "flat_allowed c (flat_of io S s)" using Cons.prems(2) by simp
  obtain r s1 where one: "process_exec io c s = Some (r, s1)" "machine_ok io S s1" "flat_step c r (flat_of io S s) (flat_of io S s1)"
    using exec_refines [OF laws Cons.prems(1) p] by blast
  have "protocol io S cs s1" using Cons.prems(2) one(1) by simp
  from Cons.IH [OF one(2) this] obtain rs s' where r: "process_run io cs s1 = Some (rs, s')"
    "flat_steps cs rs (flat_of io S s1) (flat_of io S s')"
    "childless_run io S cs s1 \<longrightarrow> documented_steps cs rs (flat_of io S s1) (flat_of io S s')" by blast
  have "documented_steps (c # cs) (r # rs) (flat_of io S s) (flat_of io S s')" if "childless_run io S (c # cs) s"
    using that one(1) r(3) flat_documented [OF one(3)] by auto
  with one r(1,2) show ?case by auto
qed simp

section \<open>The property\<close>

text \<open>A process of a machine with a single frame writes to two pages and reads the first again.\<close>

definition swap_calls :: "process_call list" where
  "swap_calls = [New_process 0 1, Run_process 1, Map_page None 0, Map_page None 0, Store (page_address 0) (CHR ''x''),
     Store (page_address (Suc 0)) (CHR ''y''), Load (page_address 0)]"

lemmas process_eval = cpu_load.simps cpu_store.simps mmu_entry_def in_arena_def flat_of_def evict_def write_back_def pager_eval

lemma swap_protocol: "protocol map_io 4 swap_calls (vm_init 2 4 (initial (\<lambda>_ _. CHR ''?'') demo_files))"
  by (simp add: swap_calls_def process_eval)

lemma swap_childless: "childless_run map_io 4 swap_calls (vm_init 2 4 (initial (\<lambda>_ _. CHR ''?'') demo_files))"
  by (simp add: swap_calls_def childless_def parent_pages_def process_eval)

text \<open>What the reference machine answers when one process, 1, runs.\<close>

definition alone :: "file_id list \<Rightarrow> (file_id \<Rightarrow> page option) \<Rightarrow> nat \<Rightarrow> flat" where
  "alone ids f n = \<lparr>spaces = [1 \<mapsto> ids], memory = f, swap_left = n, current = 1, alive = True\<rparr>"

lemma page_address_at: "vpn_of (page_address 0) = 0" "offset_of (page_address 0) = 0" "vpn_of (page_address (Suc 0)) = 1"
  "offset_of (page_address (Suc 0)) = 0"
  by (simp_all add: vpn_of_def offset_of_def page_address_def VM_ARENA_BASEADDR_def VM_PAGESIZE_def)

lemma alone_start:
  "flat_steps (New_process 0 1 # Run_process 1 # cs) rs (flat_start io S fs) m \<Longrightarrow>
   \<exists>rs'. rs = Granted # Granted # rs' \<and> flat_steps cs rs' (alone [] (memory (flat_start io S fs)) S) m"
  by (auto simp: flat_start_def alone_def swap_count_def)

lemma alone_map:
  assumes "flat_steps (Map_page None 0 # cs) rs (alone ids f n) m" "length ids < MAX_PAGE_NUM" "n \<noteq> 0"
  shows "\<exists>i rs'. i \<notin> set ids \<and> rs = Address (page_address (length ids)) # rs' \<and>
     flat_steps cs rs' (alone (ids @ [i]) (f(i := Some (\<lambda>_. nul))) (n - 1)) m"
proof -
  obtain i rs' where "\<forall>pid ids'. spaces (alone ids f n) pid = Some ids' \<longrightarrow> i \<notin> set ids'"
    "rs = Address (page_address (length ids)) # rs'" "flat_steps cs rs' (alone (ids @ [i]) (f(i := Some (\<lambda>_. nul))) (n - 1)) m"
    using assms by (auto simp: alone_def next_page_def space_def flat_map_def page_address_def)
  moreover have "spaces (alone ids f n) 1 = Some ids" by (simp add: alone_def)
  ultimately show ?thesis by blast
qed

lemma alone_store:
  "flat_steps (Store addr ch # cs) rs (alone ids f n) m \<Longrightarrow> vpn_of addr < length ids \<Longrightarrow> f (ids ! vpn_of addr) = Some x \<Longrightarrow>
   \<exists>rs'. rs = Granted # rs' \<and> flat_steps cs rs' (alone ids (f(ids ! vpn_of addr := Some (x(offset_of addr := ch)))) n) m"
  by (auto simp: alone_def space_def flat_byte_def Let_def)

lemma alone_load:
  "flat_steps (Load addr # cs) rs (alone ids f n) m \<Longrightarrow> vpn_of addr < length ids \<Longrightarrow> f (ids ! vpn_of addr) = Some x \<Longrightarrow>
   \<exists>rs'. rs = Byte (x (offset_of addr)) # rs' \<and> flat_steps cs rs' (alone ids f n) m"
  by (auto simp: alone_def space_def flat_byte_def)

lemma swap_answers:
  assumes "flat_steps swap_calls rs (flat_start io 4 fs) m"
  shows "rs = [Granted, Granted, Address (page_address 0), Address (page_address (Suc 0)), Granted, Granted, Byte (CHR ''x'')]"
proof -
  let ?z = "\<lambda>_. nul"
  let ?x = "?z(0 := CHR ''x'')" and ?y = "?z(0 := CHR ''y'')"
  note [simp del] = flat_steps.simps
  have room: "k < MAX_PAGE_NUM" if "k < 2" for k using that by (simp add: MAX_PAGE_NUM_def VM_ARENA_SIZE_def VM_PAGESIZE_def)
  obtain rs1 where r1: "rs = Granted # Granted # rs1" and s1: "flat_steps [Map_page None 0, Map_page None 0, Store (page_address 0) (CHR ''x''),
     Store (page_address (Suc 0)) (CHR ''y''), Load (page_address 0)] rs1 (alone [] (memory (flat_start io 4 fs)) 4) m"
    using alone_start [OF assms [unfolded swap_calls_def]] by blast
  define f0 where "f0 = memory (flat_start io 4 fs)"
  let ?f = "\<lambda>i. f0(i := Some ?z)"
  obtain i rs2 where r2: "rs1 = Address (page_address 0) # rs2" and s2: "flat_steps [Map_page None 0,
     Store (page_address 0) (CHR ''x''), Store (page_address (Suc 0)) (CHR ''y''), Load (page_address 0)] rs2 (alone [i] (?f i) 3) m"
    using alone_map [OF s1 [folded f0_def] room, simplified] by (elim exE conjE) (rule that)
  obtain j rs3 where j: "j \<noteq> i" and r3: "rs2 = Address (page_address (Suc 0)) # rs3" and s3: "flat_steps [Store (page_address 0) (CHR ''x''),
     Store (page_address (Suc 0)) (CHR ''y''), Load (page_address 0)] rs3 (alone [i, j] ((?f i)(j := Some ?z)) 2) m"
    using alone_map [OF s2 room, simplified] by (elim exE conjE) (rule that)
  obtain rs4 where r4: "rs3 = Granted # rs4" and s4: "flat_steps [Store (page_address (Suc 0)) (CHR ''y''), Load (page_address 0)] rs4
     (alone [i, j] ((?f i)(j := Some ?z, i := Some ?x)) 2) m"
    using alone_store [OF s3, of ?z] j by (auto simp: page_address_at)
  obtain rs5 where r5: "rs4 = Granted # rs5" and s5: "flat_steps [Load (page_address 0)] rs5
     (alone [i, j] ((?f i)(j := Some ?z, i := Some ?x, j := Some ?y)) 2) m"
    using alone_store [OF s4, of ?z] j by (auto simp: page_address_at)
  obtain rs6 where "rs5 = Byte (CHR ''x'') # rs6" "flat_steps [] rs6 (alone [i, j] ((?f i)(j := Some ?z, i := Some ?x, j := Some ?y)) 2) m"
    using alone_load [OF s5, of ?x] j by (auto simp: page_address_at)
  with r1 r2 r3 r4 r5 show ?thesis by (simp add: flat_steps.simps)
qed

text \<open>C29. The pager implements memory without paging, but for the inheritance of arenas. Take any run of calls, loads and stores by any
  processes, from \<open>vm_init\<close> on, with any number of frames from 2 to 65536 and any files that behave as documented, in which new
  processes have identifiers that no other has, processes that exist are switched to, but none with the identifier of the
  process that was switched to last and has ended (vm_pager.h does not exclude this; the code crashes), and the others are calls of
  the process that runs. The run returns, no fault or search for a frame going on for ever. Its answers are those of a
  machine with no frames, page tables or faults, whose processes have lists of pages, and whose pages are shared when they stand for
  one block of one file. In this machine a new process has an empty arena, as in the code. vm_pager.h has it inherit the arena of
  a managed parent, with copies of the parent's data: when no process that has pages makes another, the answers are also those of the
  machine that does this (\<open>documented_step\<close>), and otherwise the code departs from it.\<close>

theorem paging_refines_flat_memory:
  assumes "file_laws io S" "2 \<le> M" "M \<le> 65536" "protocol io S cs (vm_init M S (initial mem fs))"
  shows "\<exists>rs s'. process_run io cs (vm_init M S (initial mem fs)) = Some (rs, s') \<and>
    flat_steps cs rs (flat_start io S fs) (flat_of io S s') \<and>
    (childless_run io S cs (vm_init M S (initial mem fs)) \<longrightarrow> documented_steps cs rs (flat_start io S fs) (flat_of io S s'))"
  using run_refines [OF assms(1) machine_start [OF assms(2,3)] assms(4)] unfolding flat_of_start .

theorem paging_refines_flat_memory_witness:
  "\<exists>rs s'. process_run map_io swap_calls (vm_init 2 4 (initial (\<lambda>_ _. CHR ''?'') demo_files)) = Some (rs, s') \<and>
     rs = [Granted, Granted, Address (page_address 0), Address (page_address (Suc 0)), Granted, Granted, Byte (CHR ''x'')] \<and>
     documented_steps swap_calls rs (flat_start map_io 4 demo_files) (flat_of map_io 4 s')"
proof -
  obtain rs s' where "process_run map_io swap_calls (vm_init 2 4 (initial (\<lambda>_ _. CHR ''?'') demo_files)) = Some (rs, s')"
    "flat_steps swap_calls rs (flat_start map_io 4 demo_files) (flat_of map_io 4 s')"
    "documented_steps swap_calls rs (flat_start map_io 4 demo_files) (flat_of map_io 4 s')"
    using paging_refines_flat_memory [OF map_io_laws _ _ swap_protocol] swap_childless by auto
  with swap_answers [OF this(2)] show ?thesis by blast
qed

text \<open>A process with pages makes another: what the code does is no step of the machine of vm_pager.h.\<close>

theorem fork_not_documented:
  assumes "machine_ok io S s" "tables s child = None" "vm_create parent child s = (0, s')" "parent_pages parent (flat_of io S s) \<noteq> []"
  shows "\<not> documented_step (New_process parent child) r (flat_of io S s) (flat_of io S s')"
  using flat_not_documented [OF _ assms(4)] vm_create_refines(2) [OF assms(1-3)] by simp

end
