(* ===== verification/App_Programs.thy ===== *)
theory App_Programs imports Pager_Refine begin

text \<open>
  Applications of the pager (Project3/test*.4.cpp): programs that map pages, read and write bytes, print, fork and yield.
  A program is what it does next and, as a function of the result, what it does then, so that the variables of the
  code are variables of the logic. The system of processes and the scheduler of the infrastructure are stated over any
  machine that answers the calls: the pager behind the memory management unit, or the reference machine.
\<close>

section \<open>Programs\<close>

text \<open>
  A result of \<open>vm_map\<close> is a pointer, 0 when it is null. \<open>fork\<close> returns 0 in the child, the child's identifier or -1 in the
  parent. What is printed is recorded in the order in which it is handed to the output stream.
\<close>

datatype app = App_exit
  | App_map "64 word" nat "64 word \<Rightarrow> app"
  | App_load "64 word" "char \<Rightarrow> app"
  | App_store "64 word" char app
  | App_fork "int \<Rightarrow> app"
  | App_yield app
  | App_print string app

text \<open>Statements of the applications: \<open>strcpy\<close> of a literal, \<open>*dst = *src\<close>, \<open>cout\<close> of a byte, \<open>for\<close> loops.\<close>

fun copy_string :: "64 word \<Rightarrow> string \<Rightarrow> app \<Rightarrow> app" where
  "copy_string dst [] k = App_store dst nul k"
| "copy_string dst (c # cs) k = App_store dst c (copy_string (dst + 1) cs k)"

declare copy_string.simps [simp del]

definition copy_byte :: "64 word \<Rightarrow> 64 word \<Rightarrow> app \<Rightarrow> app" where
  "copy_byte dst src k = App_load src (\<lambda>c. App_store dst c k)"

definition print_byte :: "64 word \<Rightarrow> app \<Rightarrow> app" where
  "print_byte p k = App_load p (\<lambda>c. App_print [c] k)"

definition newline :: string where
  "newline = [char_of (10 :: nat)]"

definition for_each :: "nat list \<Rightarrow> (nat \<Rightarrow> app \<Rightarrow> app) \<Rightarrow> app \<Rightarrow> app" where
  "for_each xs body k = foldr body xs k"

text \<open>\<open>cout\<close> of a string that starts at an address: no string of the arena is longer than the arena.\<close>

fun print_chars :: "nat \<Rightarrow> 64 word \<Rightarrow> app \<Rightarrow> app" where
  "print_chars 0 p k = k"
| "print_chars (Suc n) p k = App_load p (\<lambda>c. if c = nul then k else App_print [c] (print_chars n (p + 1) k))"

definition print_string :: "64 word \<Rightarrow> app \<Rightarrow> app" where
  "print_string p k = print_chars VM_ARENA_SIZE p k"

text \<open>The address of an element of an array of bytes.\<close>

definition elem :: "64 word \<Rightarrow> nat \<Rightarrow> 64 word" where
  "elem p i = p + of_nat i"

section \<open>Processes\<close>

record 'm apps =
  mach :: 'm
  on_cpu :: "(int \<times> app) option"
  ready :: "(int \<times> app) list"
  pids :: "int list"
  printed :: string

text \<open>
  The scheduler is not preemptive: a process runs until it yields or ends. Which process runs next, and which fresh
  identifier a new one gets, is left open: it is the number \<open>n\<close>. A process that accesses memory it may not access is ended;
  an access outside the arena does not reach the pager.
\<close>

definition choice_ok :: "int \<Rightarrow> 'm apps \<Rightarrow> bool" where
  "choice_ok n y = (case on_cpu y of
      None \<Rightarrow> n \<in> fst ` set (ready y)
    | Some (pid, App_fork k) \<Rightarrow> 0 < n \<and> n \<notin> set (pids y)
    | Some _ \<Rightarrow> True)"

definition next_call :: "int \<Rightarrow> 'm apps \<Rightarrow> process_call option" where
  "next_call n y = (case on_cpu y of
      None \<Rightarrow> Some (Run_process n)
    | Some (pid, p) \<Rightarrow> (case p of
        App_exit \<Rightarrow> Some End_process
      | App_map q b k \<Rightarrow> Some (Map_page (if q = 0 then None else Some q) b)
      | App_load a k \<Rightarrow> if in_arena a then Some (Load a) else None
      | App_store a c k \<Rightarrow> if in_arena a then Some (Store a c) else None
      | App_fork k \<Rightarrow> Some (New_process pid n)
      | App_yield k \<Rightarrow> None
      | App_print s k \<Rightarrow> None))"

text \<open>What the process does after an access or a mapping, with the answer to it.\<close>

fun resume :: "answer \<Rightarrow> app \<Rightarrow> app" where
  "resume (Address a) (App_map q b k) = k a"
| "resume r (App_map q b k) = k 0"
| "resume (Byte c) (App_load a k) = k c"
| "resume Granted (App_store a c k) = k"
| "resume r p = App_exit"

definition after :: "int \<Rightarrow> answer \<Rightarrow> 'm apps \<Rightarrow> 'm apps" where
  "after n r y = (case on_cpu y of
      None \<Rightarrow> y\<lparr>on_cpu := map_option (Pair n) (map_of (ready y) n), ready := filter (\<lambda>q. fst q \<noteq> n) (ready y)\<rparr>
    | Some (pid, p) \<Rightarrow> (case p of
        App_exit \<Rightarrow> y\<lparr>on_cpu := None\<rparr>
      | App_fork k \<Rightarrow>
          if r = Granted then y\<lparr>on_cpu := Some (pid, k n), ready := ready y @ [(n, k 0)], pids := n # pids y\<rparr>
          else y\<lparr>on_cpu := Some (pid, k (- 1))\<rparr>
      | App_yield k \<Rightarrow> y\<lparr>on_cpu := None, ready := ready y @ [(pid, k)]\<rparr>
      | App_print s k \<Rightarrow> y\<lparr>on_cpu := Some (pid, k), printed := printed y @ s\<rparr>
      | _ \<Rightarrow> y\<lparr>on_cpu := Some (pid, resume r p)\<rparr>))"

text \<open>A machine is a relation: the call, the answer, the machine before and after.\<close>

type_synonym 'm machine = "process_call \<Rightarrow> answer \<Rightarrow> 'm \<Rightarrow> 'm \<Rightarrow> bool"

inductive app_step :: "'m machine \<Rightarrow> 'm apps \<Rightarrow> 'm apps \<Rightarrow> bool" for exec :: "'m machine" where
  app_call: "choice_ok n y \<Longrightarrow> next_call n y = Some c \<Longrightarrow> exec c r (mach y) m \<Longrightarrow> app_step exec y (after n r (y\<lparr>mach := m\<rparr>))"
| app_alone: "choice_ok n y \<Longrightarrow> next_call n y = None \<Longrightarrow> app_step exec y (after n Refused y)"

text \<open>The infrastructure makes the first process; its parent is not managed by the pager.\<close>

inductive app_boot :: "'m machine \<Rightarrow> 'm \<Rightarrow> app \<Rightarrow> 'm apps \<Rightarrow> bool" for exec :: "'m machine" and m0 :: 'm and p :: app where
  app_booted: "0 < pid \<Longrightarrow> exec (New_process 0 pid) Granted m0 m \<Longrightarrow>
    app_boot exec m0 p \<lparr>mach = m, on_cpu = None, ready = [(pid, p)], pids = [pid], printed = []\<rparr>"

definition ended :: "'m apps \<Rightarrow> bool" where
  "ended y \<longleftrightarrow> on_cpu y = None \<and> ready y = []"

text \<open>Whatever is chosen, the processes come to an end, and this is printed.\<close>

inductive always_prints :: "'m machine \<Rightarrow> 'm apps \<Rightarrow> string \<Rightarrow> bool" for exec :: "'m machine" where
  at_the_end: "ended y \<Longrightarrow> always_prints exec y (printed y)"
| on_the_way: "app_step exec y y0 \<Longrightarrow> (\<And>y'. app_step exec y y' \<Longrightarrow> always_prints exec y' s) \<Longrightarrow> always_prints exec y s"

section \<open>What the applications keep\<close>

text \<open>The processes have address spaces, one each; the one on the CPU is the current one.\<close>

definition owners :: "'m apps \<Rightarrow> int set" where
  "owners z = fst ` set (ready z) \<union> fst ` set_option (on_cpu z)"

definition apps_wf :: "flat apps \<Rightarrow> bool" where
  "apps_wf z \<longleftrightarrow> (\<forall>pid. spaces (mach z) pid \<noteq> None \<longleftrightarrow> pid \<in> owners z) \<and>
     distinct (map fst (ready z)) \<and> owners z \<subseteq> set (pids z) \<and>
     (\<forall>q. on_cpu z = Some q \<longrightarrow> fst q \<notin> fst ` set (ready z) \<and> current (mach z) = fst q) \<and>
     (alive (mach z) \<longleftrightarrow> spaces (mach z) (current (mach z)) \<noteq> None)"

lemma apps_wfD:
  assumes "apps_wf z"
  shows "spaces (mach z) pid \<noteq> None \<longleftrightarrow> pid \<in> owners z" "distinct (map fst (ready z))"
    "pid \<in> owners z \<Longrightarrow> pid \<in> set (pids z)"
    "on_cpu z = Some q \<Longrightarrow> fst q \<notin> fst ` set (ready z) \<and> current (mach z) = fst q"
    "alive (mach z) \<longleftrightarrow> spaces (mach z) (current (mach z)) \<noteq> None"
proof -
  have w: "(\<forall>pid. spaces (mach z) pid \<noteq> None \<longleftrightarrow> pid \<in> owners z)"
     "distinct (map fst (ready z))" "owners z \<subseteq> set (pids z)"
     "\<forall>q. on_cpu z = Some q \<longrightarrow> fst q \<notin> fst ` set (ready z) \<and> current (mach z) = fst q"
     "alive (mach z) \<longleftrightarrow> spaces (mach z) (current (mach z)) \<noteq> None"
    using assms unfolding apps_wf_def by - (elim conjE, assumption)+
  show "spaces (mach z) pid \<noteq> None \<longleftrightarrow> pid \<in> owners z" by (rule spec [OF w(1)])
  show "distinct (map fst (ready z))" by (rule w(2))
  show "pid \<in> owners z \<Longrightarrow> pid \<in> set (pids z)" by (rule subsetD [OF w(3)])
  show "on_cpu z = Some q \<Longrightarrow> fst q \<notin> fst ` set (ready z) \<and> current (mach z) = fst q" using w(4) by simp
  show "alive (mach z) \<longleftrightarrow> spaces (mach z) (current (mach z)) \<noteq> None" by (rule w(5))
qed

lemma wf_allowed:
  assumes wf: "apps_wf z" and n: "choice_ok n z" "next_call n z = Some c"
  shows "flat_allowed c (mach z)"
proof (cases "on_cpu z")
  case None
  then have c: "c = Run_process n" "n \<in> fst ` set (ready z)" using n by (simp_all add: next_call_def choice_ok_def)
  then have "n \<in> owners z" by (simp add: owners_def)
  then have "spaces (mach z) n \<noteq> None" by (simp only: apps_wfD(1) [OF wf])
  with c(1) apps_wfD(5) [OF wf] show ?thesis by (cases "current (mach z) = n") simp_all
next
  case (Some q)
  note cur = apps_wfD(4) [OF wf Some]
  have "fst q \<in> owners z" using Some by (simp add: owners_def)
  then have "spaces (mach z) (fst q) \<noteq> None" by (simp only: apps_wfD(1) [OF wf])
  then have al: "alive (mach z)" using apps_wfD(5) [OF wf] cur by simp
  have fresh: "n \<notin> set (pids z) \<Longrightarrow> spaces (mach z) n = None"
    using apps_wfD(1,3) [OF wf, of n] by blast
  obtain pid p where q: "q = (pid, p)" by (cases q)
  note nc = n [unfolded next_call_def choice_ok_def Some q, simplified]
  show ?thesis
  proof (cases p)
    case (App_fork k)
    then have "c = New_process pid n" "n \<notin> set (pids z)" using nc by simp_all
    then show ?thesis using fresh by simp
  next
    case App_exit
    then have "c = End_process" using nc by simp
    then show ?thesis using al by simp
  next
    case (App_map a b k)
    then have "\<exists>nm. c = Map_page nm b" using nc by auto
    then obtain nm where "c = Map_page nm b" by blast
    then show ?thesis using al by simp
  qed (use nc al in \<open>auto split: if_splits\<close>)
qed

text \<open>How a call changes who has a space: the reference machine adds and removes the current process and the new one only.\<close>

lemma flat_step_spaces:
  assumes "flat_step c r m m'" "flat_allowed c m"
  shows "spaces m' pid \<noteq> None \<longleftrightarrow> (case c of
      New_process p n \<Rightarrow> spaces m pid \<noteq> None \<or> r = Granted \<and> pid = n
    | End_process \<Rightarrow> spaces m pid \<noteq> None \<and> pid \<noteq> current m
    | _ \<Rightarrow> spaces m pid \<noteq> None)"
    "current m' = (case c of Run_process n \<Rightarrow> n | _ \<Rightarrow> current m)"
    "alive m' = (case c of Run_process n \<Rightarrow> True | End_process \<Rightarrow> False | _ \<Rightarrow> alive m)"
proof -
  have "(spaces m' pid \<noteq> None \<longleftrightarrow> (case c of
      New_process p n \<Rightarrow> spaces m pid \<noteq> None \<or> r = Granted \<and> pid = n
    | End_process \<Rightarrow> spaces m pid \<noteq> None \<and> pid \<noteq> current m
    | _ \<Rightarrow> spaces m pid \<noteq> None)) \<and>
    current m' = (case c of Run_process n \<Rightarrow> n | _ \<Rightarrow> current m) \<and>
    alive m' = (case c of Run_process n \<Rightarrow> True | End_process \<Rightarrow> False | _ \<Rightarrow> alive m)"
  proof (cases c)
    case (Map_page name b)
    with assms show ?thesis by (cases name) (auto simp: flat_map_def Let_def split: if_splits)
  qed (use assms in \<open>auto simp: Let_def split: if_splits\<close>)
  then show "spaces m' pid \<noteq> None \<longleftrightarrow> (case c of
      New_process p n \<Rightarrow> spaces m pid \<noteq> None \<or> r = Granted \<and> pid = n
    | End_process \<Rightarrow> spaces m pid \<noteq> None \<and> pid \<noteq> current m
    | _ \<Rightarrow> spaces m pid \<noteq> None)"
    "current m' = (case c of Run_process n \<Rightarrow> n | _ \<Rightarrow> current m)"
    "alive m' = (case c of Run_process n \<Rightarrow> True | End_process \<Rightarrow> False | _ \<Rightarrow> alive m)" by blast+
qed

lemma apps_wfI:
  assumes "\<And>pid. spaces (mach z) pid \<noteq> None \<longleftrightarrow> pid \<in> owners z" "distinct (map fst (ready z))" "owners z \<subseteq> set (pids z)"
    "\<And>q. on_cpu z = Some q \<Longrightarrow> fst q \<notin> fst ` set (ready z) \<and> current (mach z) = fst q"
    "alive (mach z) \<longleftrightarrow> spaces (mach z) (current (mach z)) \<noteq> None"
  shows "apps_wf z"
  unfolding apps_wf_def using assms by blast

text \<open>A process goes on with another program; nothing else changes but what is printed and what the machine holds.\<close>

lemma wf_goes_on:
  assumes wf: "apps_wf z" and on: "on_cpu z = Some (pid, p)" and m: "\<And>q. spaces m q \<noteq> None \<longleftrightarrow> spaces (mach z) q \<noteq> None"
    "current m = current (mach z)" "alive m = alive (mach z)"
  shows "apps_wf (z\<lparr>mach := m, on_cpu := Some (pid, p'), printed := s\<rparr>)"
proof (rule apps_wfI)
  have o: "owners (z\<lparr>mach := m, on_cpu := Some (pid, p'), printed := s\<rparr>) = owners z" by (simp add: owners_def on)
  note w = apps_wfD [OF wf]
  show "spaces (mach (z\<lparr>mach := m, on_cpu := Some (pid, p'), printed := s\<rparr>)) q \<noteq> None \<longleftrightarrow>
      q \<in> owners (z\<lparr>mach := m, on_cpu := Some (pid, p'), printed := s\<rparr>)" for q
    using m(1) [of q] w(1) [of q] unfolding o by simp
  show "owners (z\<lparr>mach := m, on_cpu := Some (pid, p'), printed := s\<rparr>) \<subseteq> set (pids (z\<lparr>mach := m, on_cpu := Some (pid, p'), printed := s\<rparr>))"
    using w(3) unfolding o by auto
  show "fst q \<notin> fst ` set (ready (z\<lparr>mach := m, on_cpu := Some (pid, p'), printed := s\<rparr>)) \<and>
      current (mach (z\<lparr>mach := m, on_cpu := Some (pid, p'), printed := s\<rparr>)) = fst q"
    if "on_cpu (z\<lparr>mach := m, on_cpu := Some (pid, p'), printed := s\<rparr>) = Some q" for q
    using that w(4) [OF on] m(2) by (cases q) simp
qed (use apps_wfD(2,5) [OF wf] m in simp_all)

lemma wf_step:
  assumes wf: "apps_wf z" and st: "app_step flat_step z z'"
  shows "apps_wf z'"
  using st
proof cases
  case (app_call n c r m)
  note fs = flat_step_spaces [OF app_call(4) wf_allowed [OF wf app_call(2,3)]]
  note w = apps_wfD [OF wf]
  show ?thesis
  proof (cases "on_cpu z")
    case None
    then have c: "c = Run_process n" "n \<in> fst ` set (ready z)" using app_call(2,3) by (simp_all add: next_call_def choice_ok_def)
    then obtain p where p: "map_of (ready z) n = Some p" using map_of_eq_None_iff [of "ready z" n] by (cases "map_of (ready z) n") auto
    let ?z = "z\<lparr>mach := m, on_cpu := Some (n, p), ready := filter (\<lambda>q. fst q \<noteq> n) (ready z)\<rparr>"
    have z': "z' = ?z" using None p by (simp add: app_call(1) after_def)
    have o: "owners ?z = owners z" using c(2) None by (auto simp: owners_def)
    show ?thesis unfolding z'
    proof (rule apps_wfI)
      show "spaces (mach ?z) pid \<noteq> None \<longleftrightarrow> pid \<in> owners ?z" for pid using fs(1) [of pid] w(1) [of pid] c(1) unfolding o by simp
      show "distinct (map fst (ready ?z))" using w(2) by (simp add: distinct_map_filter)
      show "owners ?z \<subseteq> set (pids ?z)" using w(3) unfolding o by auto
      have "spaces m n \<noteq> None" using fs(1) [of n] w(1) [of n] c by (simp add: owners_def)
      then show "alive (mach ?z) \<longleftrightarrow> spaces (mach ?z) (current (mach ?z)) \<noteq> None" using fs(2,3) c(1) by simp
    qed (use fs(2) c(1) in auto)
  next
    case (Some q)
    obtain pid p where q: "q = (pid, p)" by (cases q)
    note on = Some [unfolded q]
    have cur: "current (mach z) = pid" "pid \<notin> fst ` set (ready z)" using w(4) [OF on] by simp_all
    note nc = app_call(2,3) [unfolded next_call_def choice_ok_def on, simplified]
    have go: ?thesis if "z' = z\<lparr>mach := m, on_cpu := Some (pid, p'), printed := s\<rparr>"
        "\<And>q. spaces m q \<noteq> None \<longleftrightarrow> spaces (mach z) q \<noteq> None" "current m = current (mach z)" "alive m = alive (mach z)" for p' s
      unfolding that(1) by (rule wf_goes_on [OF wf on that(2-4)])
    show ?thesis
    proof (cases p)
      case App_exit
      then have c: "c = End_process" using nc by simp
      let ?z = "z\<lparr>mach := m, on_cpu := None\<rparr>"
      have z': "z' = ?z" using on App_exit by (simp add: app_call(1) after_def)
      have o: "owners ?z = owners z - {pid}" using cur(2) on by (auto simp: owners_def)
      show ?thesis unfolding z'
      proof (rule apps_wfI)
        show "spaces (mach ?z) q \<noteq> None \<longleftrightarrow> q \<in> owners ?z" for q
          using fs(1) [of q] w(1) [of q] c cur(1) unfolding o by auto
        show "owners ?z \<subseteq> set (pids ?z)" using w(3) unfolding o by auto
        show "alive (mach ?z) \<longleftrightarrow> spaces (mach ?z) (current (mach ?z)) \<noteq> None" using fs(1) [of pid] fs(2,3) c cur(1) by simp
      qed (use w(2) in simp_all)
    next
      case (App_fork k)
      then have c: "c = New_process pid n" "n \<notin> set (pids z)" using nc by simp_all
      show ?thesis
      proof (cases "r = Granted")
        case False
        then have "z' = z\<lparr>mach := m, on_cpu := Some (pid, k (- 1)), printed := printed z\<rparr>"
          using on App_fork by (simp add: app_call(1) after_def)
        then show ?thesis using fs c False by (intro go [where p' = "k (- 1)" and s = "printed z"]) auto
      next
        case True
        let ?z = "z\<lparr>mach := m, on_cpu := Some (pid, k n), ready := ready z @ [(n, k 0)], pids := n # pids z\<rparr>"
        have z': "z' = ?z" using on App_fork True by (simp add: app_call(1) after_def)
        have o: "owners ?z = insert n (owners z)" using on by (auto simp: owners_def)
        have n: "n \<notin> owners z" using w(3) c(2) by blast
        show ?thesis unfolding z'
        proof (rule apps_wfI)
          show "spaces (mach ?z) q \<noteq> None \<longleftrightarrow> q \<in> owners ?z" for q
            using fs(1) [of q] w(1) [of q] c True unfolding o by auto
          show "owners ?z \<subseteq> set (pids ?z)" using w(3) unfolding o by auto
          show "distinct (map fst (ready ?z))" using w(2) n by (auto simp: owners_def)
          show "fst q \<notin> fst ` set (ready ?z) \<and> current (mach ?z) = fst q" if "on_cpu ?z = Some q" for q
          proof -
            have "q = (pid, k n)" "n \<noteq> pid" using that n on by (auto simp: owners_def)
            then show ?thesis using cur fs(2) c by (simp add: image_Un)
          qed
          have "pid \<noteq> n" using n on by (auto simp: owners_def)
          then show "alive (mach ?z) \<longleftrightarrow> spaces (mach ?z) (current (mach ?z)) \<noteq> None"
            using fs(1) [of pid] fs(2,3) c cur(1) w(5) by simp
        qed
      qed
    next
      case (App_map a b k)
      then have "\<exists>nm. c = Map_page nm b" using nc by auto
    then obtain nm where "c = Map_page nm b" by blast
      then show ?thesis using fs on App_map by (intro go [where s = "printed z"]) (auto simp: app_call(1) after_def)
    next
      case (App_load a k)
      then have "c = Load a" using nc by (simp split: if_splits)
      then show ?thesis using fs on App_load by (intro go [where s = "printed z"]) (auto simp: app_call(1) after_def)
    next
      case (App_store a x k)
      then have "c = Store a x" using nc by (simp split: if_splits)
      then show ?thesis using fs on App_store by (intro go [where s = "printed z"]) (auto simp: app_call(1) after_def)
    qed (use nc in simp_all)
  qed
next
  case (app_alone n)
  note w = apps_wfD [OF wf]
  from app_alone(3) obtain pid p where on: "on_cpu z = Some (pid, p)" by (auto simp: next_call_def split: option.splits)
  have go: "apps_wf (z\<lparr>mach := mach z, on_cpu := Some (pid, p'), printed := s\<rparr>)" for p' s
    by (rule wf_goes_on [OF wf on]) simp_all
  show ?thesis
  proof (cases p)
    case (App_yield k)
    let ?z = "z\<lparr>on_cpu := None, ready := ready z @ [(pid, k)]\<rparr>"
    have z': "z' = ?z" using on App_yield by (simp add: app_alone(1) after_def)
    have o: "owners ?z = owners z" using on by (auto simp: owners_def)
    show ?thesis unfolding z'
    proof (rule apps_wfI)
      show "spaces (mach ?z) q \<noteq> None \<longleftrightarrow> q \<in> owners ?z" for q using w(1) [of q] unfolding o by simp
      show "owners ?z \<subseteq> set (pids ?z)" using w(3) unfolding o by auto
      show "distinct (map fst (ready ?z))" using w(2) w(4) [OF on] by auto
    qed (use w(5) in simp_all)
  next
    case (App_print s k)
    then show ?thesis using go on by (simp add: app_alone(1) after_def)
  next
    case (App_load a k)
    then show ?thesis using go [where p' = App_exit and s = "printed z"] on by (simp add: app_alone(1) after_def)
  next
    case (App_store a x k)
    then show ?thesis using go [where p' = App_exit and s = "printed z"] on by (simp add: app_alone(1) after_def)
  qed (use app_alone(3) on in \<open>simp_all add: next_call_def\<close>)
qed

lemma app_boot_wf: "app_boot flat_step (flat_start io S fs) p z \<Longrightarrow> apps_wf z"
proof (induction rule: app_boot.induct)
  case (app_booted pid m)
  then have m: "m = (flat_start io S fs)\<lparr>spaces := [pid \<mapsto> []]\<rparr>" by (auto simp: flat_start_def swap_count_def split: if_splits)
  then show ?case using app_booted(1) by (intro apps_wfI) (auto simp: owners_def flat_start_def)
qed

section \<open>The applications on another machine\<close>

text \<open>
  The contract of a machine for the applications: it has states that stand for states of the reference machine, and
  a call that is allowed there is answered, as the reference machine may answer it. Then no application
  can tell it from the reference machine, and none is ever stuck.
\<close>

definition apps_map :: "('m \<Rightarrow> 'n) \<Rightarrow> 'm apps \<Rightarrow> 'n apps" where
  "apps_map f y = \<lparr>mach = f (mach y), on_cpu = on_cpu y, ready = ready y, pids = pids y, printed = printed y\<rparr>"

lemma apps_map_fields [simp]:
  "mach (apps_map f y) = f (mach y)" "on_cpu (apps_map f y) = on_cpu y" "ready (apps_map f y) = ready y"
  "pids (apps_map f y) = pids y" "printed (apps_map f y) = printed y" "choice_ok n (apps_map f y) = choice_ok n y"
  "next_call n (apps_map f y) = next_call n y" "ended (apps_map f y) = ended y"
  by (simp_all add: apps_map_def choice_ok_def next_call_def ended_def split: option.split app.split)

lemma after_map: "apps_map f (after n r y) = after n r (apps_map f y)"
  by (cases "on_cpu y") (auto simp: after_def apps_map_def split: app.splits)

lemma after_mach: "mach (after n r y) = mach y"
  by (auto simp: after_def split: option.splits app.splits)

definition apps_ok :: "('m \<Rightarrow> bool) \<Rightarrow> ('m \<Rightarrow> flat) \<Rightarrow> 'm apps \<Rightarrow> bool" where
  "apps_ok ok view y \<longleftrightarrow> ok (mach y) \<and> apps_wf (apps_map view y)"

text \<open>The calls of a machine in which no process with pages makes another.\<close>

definition childless_part :: "('m \<Rightarrow> flat) \<Rightarrow> 'm machine \<Rightarrow> 'm machine" where
  "childless_part view exec = (\<lambda>c r m m'. exec c r m m' \<and> childless c (view m))"

lemma app_step_mono:
  assumes "app_step exec y y'" "\<And>c r m m'. exec c r m m' \<Longrightarrow> exec' c r m m'"
  shows "app_step exec' y y'"
  using assms(1) by cases (auto intro: app_step.intros assms(2))

locale flat_memory =
  fixes exec :: "'m machine" and view :: "'m \<Rightarrow> flat" and ok :: "'m \<Rightarrow> bool"
  assumes answered: "ok m \<Longrightarrow> flat_allowed c (view m) \<Longrightarrow> \<exists>r m'. exec c r m m'"
    and as_flat: "ok m \<Longrightarrow> flat_allowed c (view m) \<Longrightarrow> exec c r m m' \<Longrightarrow> ok m' \<and> flat_step c r (view m) (view m')"
begin

lemma app_sim:
  assumes "apps_ok ok view y" "app_step exec y y'"
  shows "apps_ok ok view y'" "app_step flat_step (apps_map view y) (apps_map view y')"
proof -
  have ok: "ok (mach y)" and wf: "apps_wf (apps_map view y)" using assms(1) by (simp_all add: apps_ok_def)
  have "ok (mach y') \<and> app_step flat_step (apps_map view y) (apps_map view y')"
    using assms(2)
  proof cases
    case (app_call n c r m)
    have "flat_allowed c (view (mach y))" using wf_allowed [OF wf, of n c] app_call(2,3) by simp
    note st = as_flat [OF ok this app_call(4)]
    have "app_step flat_step (apps_map view y) (after n r ((apps_map view y)\<lparr>mach := view m\<rparr>))"
      by (rule app_step.app_call [of _ _ c]) (use st app_call(2,3) in simp_all)
    moreover have "(apps_map view y)\<lparr>mach := view m\<rparr> = apps_map view (y\<lparr>mach := m\<rparr>)" by (simp add: apps_map_def)
    ultimately show ?thesis using st by (simp add: app_call(1) after_map after_mach)
  next
    case (app_alone n)
    have "app_step flat_step (apps_map view y) (after n Refused (apps_map view y))"
      by (rule app_step.app_alone) (use app_alone(2,3) in simp_all)
    then show ?thesis using ok by (simp add: app_alone(1) after_map after_mach)
  qed
  then show "apps_ok ok view y'" "app_step flat_step (apps_map view y) (apps_map view y')"
    using wf_step [OF wf] by (simp_all add: apps_ok_def)
qed

lemma app_documented:
  assumes "apps_ok ok view y" "app_step (childless_part view exec) y y'"
  shows "apps_ok ok view y'" "app_step documented_step (apps_map view y) (apps_map view y')"
proof -
  have "app_step exec y y'" using app_step_mono [OF assms(2)] by (simp add: childless_part_def)
  then show "apps_ok ok view y'" by (rule app_sim(1) [OF assms(1)])
  have ok: "ok (mach y)" and wf: "apps_wf (apps_map view y)" using assms(1) by (simp_all add: apps_ok_def)
  show "app_step documented_step (apps_map view y) (apps_map view y')"
    using assms(2)
  proof cases
    case (app_call n c r m)
    then have e: "exec c r (mach y) m" "childless c (view (mach y))" by (simp_all add: childless_part_def)
    have "flat_allowed c (view (mach y))" using wf_allowed [OF wf, of n c] app_call(2,3) by simp
    from flat_documented [OF conjunct2 [OF as_flat [OF ok this e(1)]] e(2)]
    have "app_step documented_step (apps_map view y) (after n r ((apps_map view y)\<lparr>mach := view m\<rparr>))"
      by (intro app_step.app_call [of _ _ c]) (use app_call(2,3) in simp_all)
    moreover have "(apps_map view y)\<lparr>mach := view m\<rparr> = apps_map view (y\<lparr>mach := m\<rparr>)" by (simp add: apps_map_def)
    ultimately show ?thesis by (simp add: app_call(1) after_map)
  next
    case (app_alone n)
    have "app_step documented_step (apps_map view y) (after n Refused (apps_map view y))"
      by (rule app_step.app_alone) (use app_alone(2,3) in simp_all)
    then show ?thesis by (simp add: app_alone(1) after_map)
  qed
qed

lemma app_progress:
  assumes "apps_ok ok view y" "app_step flat_step (apps_map view y) z"
  shows "\<exists>y'. app_step exec y y'"
  using assms(2)
proof cases
  case (app_call n c r m)
  have "ok (mach y)" "flat_allowed c (view (mach y))"
    using assms(1) wf_allowed [of "apps_map view y" n c] app_call(2,3) by (simp_all add: apps_ok_def)
  then obtain r m where "exec c r (mach y) m" using answered by blast
  with app_call(2,3) show ?thesis by (auto intro: app_step.app_call)
next
  case (app_alone n)
  then show ?thesis by (auto intro: app_step.app_alone)
qed

lemma app_not_stuck:
  assumes ok: "apps_ok ok view y" and e: "\<not> ended y"
  shows "\<exists>y'. app_step exec y y'"
proof -
  obtain n where n: "choice_ok n y"
  proof (cases "on_cpu y")
    case None
    with e obtain q where "q \<in> set (ready y)" by (cases "ready y") (auto simp: ended_def)
    with None show ?thesis by (intro that [of "fst q"]) (simp add: choice_ok_def)
  next
    case (Some q)
    have "\<exists>n. n \<notin> set (pids y) \<union> {..0}" using infinite_Ioi [of "0 :: int"] finite_subset [of "{0 <..}" "set (pids y)"] by fastforce
    then obtain n where "0 < n" "n \<notin> set (pids y)" by (auto simp: linorder_not_le)
    with Some show ?thesis by (intro that [of n]) (auto simp: choice_ok_def split: app.split)
  qed
  show ?thesis
  proof (cases "next_call n y")
    case None
    with n show ?thesis by (blast intro: app_step.app_alone)
  next
    case (Some c)
    have "ok (mach y)" "flat_allowed c (view (mach y))"
      using ok n Some wf_allowed [of "apps_map view y" n c] by (simp_all add: apps_ok_def)
    then obtain r m where "exec c r (mach y) m" using answered by blast
    with n Some show ?thesis by (blast intro: app_step.app_call)
  qed
qed

lemma app_runs: "apps_ok ok view y \<Longrightarrow> steps_in (app_step exec) n y y' \<Longrightarrow>
  apps_ok ok view y' \<and> steps_in (app_step flat_step) n (apps_map view y) (apps_map view y')"
proof (induction n arbitrary: y)
  case 0
  then show ?case by (auto elim: steps_in.cases intro: steps_in.intros)
next
  case (Suc n)
  from Suc.prems(2) obtain t where t: "app_step exec y t" "steps_in (app_step exec) n t y'" by (auto elim: steps_in.cases)
  note s = app_sim [OF Suc.prems(1) t(1)]
  from Suc.IH [OF s(1) t(2)] s(2) show ?case by (blast intro: steps_in.intros)
qed

lemma documented_runs: "apps_ok ok view y \<Longrightarrow> steps_in (app_step (childless_part view exec)) n y y' \<Longrightarrow>
  steps_in (app_step documented_step) n (apps_map view y) (apps_map view y')"
proof (induction n arbitrary: y)
  case 0
  then show ?case by (auto elim: steps_in.cases intro: steps_in.intros)
next
  case (Suc n)
  from Suc.prems(2) obtain t where t: "app_step (childless_part view exec) y t" "steps_in (app_step (childless_part view exec)) n t y'"
    by (auto elim: steps_in.cases)
  note s = app_documented [OF Suc.prems(1) t(1)]
  from Suc.IH [OF s(1) t(2)] s(2) show ?case by (blast intro: steps_in.intros)
qed

lemma same_output: "always_prints flat_step z s \<Longrightarrow> z = apps_map view y \<Longrightarrow> apps_ok ok view y \<Longrightarrow> always_prints exec y s"
proof (induction arbitrary: y rule: always_prints.induct)
  case (at_the_end z)
  then show ?case using always_prints.at_the_end [of y exec] by simp
next
  case (on_the_way z z0 s)
  obtain y0 where "app_step exec y y0" using app_progress [OF on_the_way.prems(2)] on_the_way.hyps(1) on_the_way.prems(1) by blast
  then show ?case
  proof (rule always_prints.on_the_way)
    fix y' assume "app_step exec y y'"
    note s = app_sim [OF on_the_way.prems(2) this]
    show "always_prints exec y' s" by (rule on_the_way.IH [OF s(2) [folded on_the_way.prems(1)] refl s(1)])
  qed
qed

end

end
