(* ===== verification/App_Rules.thy ===== *)
theory App_Rules imports App_Programs begin

text \<open>
  Rules by which the runs of applications on the reference machine are followed: what a statement does, for the
  process on the CPU, to its pages, and to what is printed in the end.
\<close>

section \<open>Addresses\<close>

lemma arena_offset:
  assumes "k < VM_ARENA_SIZE"
  shows "in_arena (VM_ARENA_BASEADDR + of_nat k)" "vpn_of (VM_ARENA_BASEADDR + of_nat k) = k div VM_PAGESIZE"
    "offset_of (VM_ARENA_BASEADDR + of_nat k) = k mod VM_PAGESIZE"
proof -
  have k: "k < 2 ^ 24" using assms by (simp add: VM_ARENA_SIZE_def)
  then have u: "unat (of_nat k :: 64 word) = k" by (simp add: unat_of_nat)
  then show "in_arena (VM_ARENA_BASEADDR + of_nat k)" using assms by (simp add: in_arena_def)
  let ?p = "VM_ARENA_BASEADDR + of_nat k" and ?v = "ucast (drop_bit 16 (of_nat k :: 64 word)) :: 32 word"
  have w: "window ?p = k" using u k by (simp add: window_def)
  then show n: "vpn_of ?p = k div VM_PAGESIZE" by (simp add: vpn_window VM_PAGESIZE_def)
  then have v: "unat ?v = k div 65536" by (simp add: vpn_of_def VM_PAGESIZE_def)
  have "unat (push_bit 16 ?v) = k div 65536 * 65536"
    using v k by (simp add: unat_word_ariths push_bit_eq_mult unsigned_push_bit_eq take_bit_eq_mod)
  then have q: "unat (ucast (push_bit 16 ?v) :: 64 word) = k div 65536 * 65536"
    using k by (simp add: unsigned_ucast_eq take_bit_eq_mod)
  have "unat (of_nat k - ucast (push_bit 16 ?v) :: 64 word) = k - k div 65536 * 65536"
    using q u by (simp add: unat_sub word_le_nat_alt)
  then show "offset_of ?p = k mod VM_PAGESIZE"
    using k by (simp add: offset_of_def VM_PAGESIZE_def unsigned_ucast_eq take_bit_eq_mod minus_div_mult_eq_mod)
qed

lemma elem_zero [simp]: "elem p 0 = p"
  by (simp add: elem_def)

lemma elem_elem [simp]: "elem (elem p i) j = elem p (i + j)"
  by (simp add: elem_def)

lemma elem_next: "elem p k + 1 = elem p (Suc k)"
  by (simp add: elem_def)

lemma elem_page [simp]: "elem (page_address n) VM_PAGESIZE = page_address (Suc n)"
  by (simp add: elem_def page_address_def algebra_simps)

lemma elem_over: "VM_PAGESIZE \<le> i \<Longrightarrow> elem (page_address n) i = elem (page_address (Suc n)) (i - VM_PAGESIZE)"
  using elem_elem [of "page_address n" VM_PAGESIZE "i - VM_PAGESIZE"] by simp

lemma at_page:
  assumes "n < MAX_PAGE_NUM" "k < VM_PAGESIZE"
  shows "in_arena (elem (page_address n) k)" "vpn_of (elem (page_address n) k) = n" "offset_of (elem (page_address n) k) = k"
proof -
  have e: "elem (page_address n) k = VM_ARENA_BASEADDR + of_nat (n * VM_PAGESIZE + k)"
    by (simp add: elem_def page_address_def)
  have "n * VM_PAGESIZE + k < VM_ARENA_SIZE" using assms by (simp add: MAX_PAGE_NUM_def VM_ARENA_SIZE_def VM_PAGESIZE_def)
  note a = arena_offset [OF this]
  show "in_arena (elem (page_address n) k)" unfolding e by (rule a(1))
  show "vpn_of (elem (page_address n) k) = n" "offset_of (elem (page_address n) k) = k" unfolding e a(2,3) using assms(2) by simp_all
qed

lemma page_not_null: "n < MAX_PAGE_NUM \<Longrightarrow> k < VM_PAGESIZE \<Longrightarrow> elem (page_address n) k \<noteq> 0"
proof
  assume h: "n < MAX_PAGE_NUM" "k < VM_PAGESIZE" "elem (page_address n) k = 0"
  have "\<not> in_arena 0" by (simp add: in_arena_def VM_ARENA_BASEADDR_def VM_ARENA_SIZE_def)
  with at_page(1) [OF h(1,2)] h(3) show False by simp
qed

section \<open>One step\<close>

definition space_of :: "(int \<Rightarrow> file_id list option) \<Rightarrow> (file_id \<Rightarrow> page option) \<Rightarrow> nat \<Rightarrow> int \<Rightarrow> flat" where
  "space_of sp f n pid = \<lparr>spaces = sp, memory = f, swap_left = n, current = pid, alive = True\<rparr>"

text \<open>The process \<open>pid\<close> is on the CPU with the program \<open>p\<close>, among others that are ready.\<close>

definition run where
  "run sp f n pid rd ps out p =
     \<lparr>mach = space_of sp f n pid, on_cpu = Some (pid, p), ready = rd, pids = ps, printed = out\<rparr>"

lemma space_of_fields [simp]:
  "spaces (space_of sp f n pid) = sp" "memory (space_of sp f n pid) = f" "swap_left (space_of sp f n pid) = n"
  "current (space_of sp f n pid) = pid" "alive (space_of sp f n pid)" "space (space_of sp f n pid) = sp pid"
  by (simp_all add: space_of_def space_def)

lemma space_of_upd [simp]:
  "(space_of sp f n pid)\<lparr>spaces := sp'\<rparr> = space_of sp' f n pid" "(space_of sp f n pid)\<lparr>memory := f'\<rparr> = space_of sp f' n pid"
  "(space_of sp f n pid)\<lparr>swap_left := n'\<rparr> = space_of sp f n' pid"
  "(space_of sp f n pid)\<lparr>current := q, alive := True\<rparr> = space_of sp f n q"
  by (simp_all add: space_of_def)

lemma one_step:
  assumes "\<exists>n. choice_ok n y" and a: "\<And>n. choice_ok n y \<Longrightarrow> next_call n y = c n"
    and c: "\<And>n k. choice_ok n y \<Longrightarrow> c n = Some k \<Longrightarrow> (\<exists>r m. exec k r (mach y) m) \<and>
      (\<forall>r m. exec k r (mach y) m \<longrightarrow> always_prints exec (after n r (y\<lparr>mach := m\<rparr>)) s)"
    and d: "\<And>n. choice_ok n y \<Longrightarrow> c n = None \<Longrightarrow> always_prints exec (after n Refused y) s"
  shows "always_prints exec y s"
proof -
  obtain n where n: "choice_ok n y" using assms(1) by blast
  have "\<exists>y0. app_step exec y y0"
  proof (cases "c n")
    case None
    then show ?thesis using app_alone [OF n, of exec] a [OF n] by auto
  next
    case (Some k)
    with c [OF n] obtain r m where "exec k r (mach y) m" by blast
    then show ?thesis using app_call [OF n, of k exec r m] a [OF n] Some by auto
  qed
  then obtain y0 where "app_step exec y y0" by blast
  then show ?thesis
  proof (rule on_the_way)
    fix y' assume "app_step exec y y'"
    then show "always_prints exec y' s"
      by cases (use a c d in \<open>simp_all\<close>)
  qed
qed

lemma run_goes_on:
  assumes "next_call 0 (run sp f n pid rd ps out p) = Some c" "\<forall>k. p \<noteq> App_fork k"
    and "\<exists>r m. flat_step c r (space_of sp f n pid) m"
    "\<And>r m. flat_step c r (space_of sp f n pid) m \<Longrightarrow>
       always_prints flat_step (after 0 r \<lparr>mach = m, on_cpu = Some (pid, p), ready = rd, pids = ps, printed = out\<rparr>) s"
  shows "always_prints flat_step (run sp f n pid rd ps out p) s"
proof (rule one_step [where c = "\<lambda>_. Some c"])
  have same: "next_call i (run sp f n pid rd ps out p) = next_call 0 (run sp f n pid rd ps out p)"
    "after i r \<lparr>mach = m, on_cpu = Some (pid, p), ready = rd, pids = ps, printed = out\<rparr> =
     after 0 r \<lparr>mach = m, on_cpu = Some (pid, p), ready = rd, pids = ps, printed = out\<rparr>" for i r and m :: flat
    using assms(2) by (cases p; auto simp: next_call_def after_def run_def)+
  show "\<exists>i. choice_ok i (run sp f n pid rd ps out p)"
    using assms(2) by (cases p) (auto simp: choice_ok_def run_def)
  show "next_call i (run sp f n pid rd ps out p) = Some c" for i using assms(1) same(1) by simp
  show "(\<exists>r m. flat_step k r (mach (run sp f n pid rd ps out p)) m) \<and>
      (\<forall>r m. flat_step k r (mach (run sp f n pid rd ps out p)) m \<longrightarrow>
        always_prints flat_step (after i r ((run sp f n pid rd ps out p)\<lparr>mach := m\<rparr>)) s)" if "Some c = Some k" for i k
    using that assms(3,4) by (simp add: run_def same(2) [of i])
qed simp

lemma run_print: "always_prints flat_step (run sp f n pid rd ps (out @ t) k) s \<Longrightarrow>
  always_prints flat_step (run sp f n pid rd ps out (App_print t k)) s"
  by (rule one_step [where c = "\<lambda>_. None"]) (simp_all add: run_def choice_ok_def next_call_def after_def)

lemma run_load:
  assumes "sp pid = Some ids" "j < length ids" "j < MAX_PAGE_NUM" "i < VM_PAGESIZE" "f (ids ! j) = Some x"
    and k: "always_prints flat_step (run sp f n pid rd ps out (k (x i))) s"
  shows "always_prints flat_step (run sp f n pid rd ps out (App_load (elem (page_address j) i) k)) s"
proof (rule run_goes_on)
  note a = at_page [OF assms(3,4)]
  show "next_call 0 (run sp f n pid rd ps out (App_load (elem (page_address j) i) k)) = Some (Load (elem (page_address j) i))"
    by (simp add: next_call_def run_def a)
  have b: "flat_byte (space_of sp f n pid) (elem (page_address j) i) = Some (x i)" using assms(1,2,5) by (simp add: flat_byte_def a)
  then show "\<exists>r m. flat_step (Load (elem (page_address j) i)) r (space_of sp f n pid) m" by simp
  show "always_prints flat_step (after 0 r \<lparr>mach = m, on_cpu = Some (pid, App_load (elem (page_address j) i) k), ready = rd, pids = ps, printed = out\<rparr>) s"
    if "flat_step (Load (elem (page_address j) i)) r (space_of sp f n pid) m" for r m
    using that b k by (simp add: after_def run_def)
qed simp

lemma run_store:
  assumes "sp pid = Some ids" "j < length ids" "j < MAX_PAGE_NUM" "i < VM_PAGESIZE" "f (ids ! j) = Some x"
    and k: "always_prints flat_step (run sp (f(ids ! j := Some (x(i := c)))) n pid rd ps out k) s"
  shows "always_prints flat_step (run sp f n pid rd ps out (App_store (elem (page_address j) i) c k)) s"
proof (rule run_goes_on)
  note a = at_page [OF assms(3,4)]
  show "next_call 0 (run sp f n pid rd ps out (App_store (elem (page_address j) i) c k)) = Some (Store (elem (page_address j) i) c)"
    by (simp add: next_call_def run_def a)
  have b: "flat_byte (space_of sp f n pid) (elem (page_address j) i) = Some (x i)" using assms(1,2,5) by (simp add: flat_byte_def a)
  then show "\<exists>r m. flat_step (Store (elem (page_address j) i) c) r (space_of sp f n pid) m" by simp
  show "always_prints flat_step (after 0 r \<lparr>mach = m, on_cpu = Some (pid, App_store (elem (page_address j) i) c k), ready = rd, pids = ps, printed = out\<rparr>) s"
    if "flat_step (Store (elem (page_address j) i) c) r (space_of sp f n pid) m" for r m
    using that b k assms(1,5) by (simp add: after_def run_def a Let_def)
qed simp

lemma run_load_fault:
  assumes "sp pid = Some ids" "length ids \<le> j" "j < MAX_PAGE_NUM" "i < VM_PAGESIZE"
    and k: "always_prints flat_step (run sp f n pid rd ps out App_exit) s"
  shows "always_prints flat_step (run sp f n pid rd ps out (App_load (elem (page_address j) i) k')) s"
proof (rule run_goes_on)
  note a = at_page [OF assms(3,4)]
  show "next_call 0 (run sp f n pid rd ps out (App_load (elem (page_address j) i) k')) = Some (Load (elem (page_address j) i))"
    by (simp add: next_call_def run_def a)
  have b: "flat_byte (space_of sp f n pid) (elem (page_address j) i) = None" using assms(1,2) by (simp add: flat_byte_def a)
  then show "\<exists>r m. flat_step (Load (elem (page_address j) i)) r (space_of sp f n pid) m" by simp
  show "always_prints flat_step (after 0 r \<lparr>mach = m, on_cpu = Some (pid, App_load (elem (page_address j) i) k'), ready = rd, pids = ps, printed = out\<rparr>) s"
    if "flat_step (Load (elem (page_address j) i)) r (space_of sp f n pid) m" for r m
    using that b k by (simp add: after_def run_def)
qed simp

lemma run_swap:
  assumes sp: "sp pid = Some ids" "length ids < MAX_PAGE_NUM" "n \<noteq> 0" and fin: "finite (dom sp)"
    and k: "\<And>i. swap_backed i \<Longrightarrow> (\<And>q js. sp q = Some js \<Longrightarrow> i \<notin> set js) \<Longrightarrow>
      always_prints flat_step (run (sp(pid := Some (ids @ [i]))) (f(i := Some (\<lambda>_. nul))) (n - 1) pid rd ps out (k (page_address (length ids)))) s"
  shows "always_prints flat_step (run sp f n pid rd ps out (App_map 0 b k)) s"
proof (rule run_goes_on)
  show "next_call 0 (run sp f n pid rd ps out (App_map 0 b k)) = Some (Map_page None b)" by (simp add: next_call_def run_def)
  let ?m = "space_of sp f n pid"
  have room: "next_page ?m = length ids" using sp(1) by (simp add: next_page_def)
  have "\<exists>i. swap_backed i \<and> (\<forall>q js. sp q = Some js \<longrightarrow> i \<notin> set js)"
  proof -
    let ?g = "\<lambda>n :: nat. \<lparr>filename = [], block = n, swap_backed = True\<rparr>"
    have "finite (\<Union>js \<in> ran sp. set js)" using fin by (simp add: finite_ran)
    moreover have "infinite (range ?g)" using finite_imageD [of ?g UNIV] by (auto intro: injI)
    ultimately obtain i where "i \<in> range ?g" "i \<notin> (\<Union>js \<in> ran sp. set js)" using finite_subset [of "range ?g"] by blast
    then have "swap_backed i" "i \<notin> set js" if "sp q = Some js" for q js using that by (auto simp: ran_def)
    moreover have "swap_backed i" using \<open>i \<in> range ?g\<close> by auto
    ultimately show ?thesis by blast
  qed
  with room sp show "\<exists>r m. flat_step (Map_page None b) r ?m m" by auto
  show "always_prints flat_step (after 0 r \<lparr>mach = m, on_cpu = Some (pid, App_map 0 b k), ready = rd, pids = ps, printed = out\<rparr>) s"
    if st: "flat_step (Map_page None b) r ?m m" for r m
  proof -
    obtain i where i: "swap_backed i" "\<forall>q js. sp q = Some js \<longrightarrow> i \<notin> set js"
      and r: "r = Address (page_address (length ids))" "m = (flat_map i (Some (\<lambda>_. nul)) ?m)\<lparr>swap_left := n - 1\<rparr>"
      using st room sp by (auto simp: page_address_def)
    have "m = space_of (sp(pid := Some (ids @ [i]))) (f(i := Some (\<lambda>_. nul))) (n - 1) pid"
      using sp(1) by (simp add: r(2) flat_map_def space_of_def)
    with r(1) k [OF i(1)] i(2) show ?thesis by (simp add: after_def run_def)
  qed
qed simp

lemma spells_same: "spells g p m \<Longrightarrow> spells g p n \<Longrightarrow> m = n"
proof (induction m arbitrary: p n)
  case Nil
  then show ?case by (cases n) auto
next
  case (Cons c m)
  then obtain n' where "n = c # n'" "spells g (p + 1) n'" by (cases n) auto
  with Cons show ?case by auto
qed

lemma run_file:
  assumes sp: "sp pid = Some ids" "length ids < MAX_PAGE_NUM" and q: "q \<noteq> 0" "spells (flat_byte (space_of sp f n pid)) q nm"
    and k: "always_prints flat_step (run (sp(pid := Some (ids @ [\<lparr>filename = nm @ [nul], block = b, swap_backed = False\<rparr>]))) f n pid rd ps out
      (k (page_address (length ids)))) s"
  shows "always_prints flat_step (run sp f n pid rd ps out (App_map q b k)) s"
proof (rule run_goes_on)
  show "next_call 0 (run sp f n pid rd ps out (App_map q b k)) = Some (Map_page (Some q) b)" using q(1) by (simp add: next_call_def run_def)
  let ?m = "space_of sp f n pid" and ?i = "\<lparr>filename = nm @ [nul], block = b, swap_backed = False\<rparr>"
  have room: "next_page ?m = length ids" using sp(1) by (simp add: next_page_def)
  have cond: "next_page ?m < MAX_PAGE_NUM \<and> (\<exists>n. spells (flat_byte ?m) q n)" using room sp(2) q(2) by auto
  let ?id = "\<lambda>n. \<lparr>filename = n @ [nul], block = b, swap_backed = False\<rparr>"
  have step: "flat_step (Map_page (Some q) b) r ?m m \<longleftrightarrow> r = Address (page_address (length ids)) \<and>
      (\<exists>n. spells (flat_byte ?m) q n \<and> m = flat_map (?id n) (memory ?m (?id n)) ?m)" for r m
    using cond by (simp add: page_address_def Let_def room)
  show "\<exists>r m. flat_step (Map_page (Some q) b) r ?m m" unfolding step using q(2) by blast
  show "always_prints flat_step (after 0 r \<lparr>mach = m, on_cpu = Some (pid, App_map q b k), ready = rd, pids = ps, printed = out\<rparr>) s"
    if st: "flat_step (Map_page (Some q) b) r ?m m" for r m
  proof -
    obtain nm' where "spells (flat_byte ?m) q nm'" and m': "m = flat_map (?id nm') (memory ?m (?id nm')) ?m"
      using st unfolding step by blast
    then have "nm' = nm" using spells_same [OF q(2)] by blast
    then have r: "r = Address (page_address (length ids))" "m = flat_map ?i (f ?i) ?m"
      using st m' unfolding step by simp_all
    have "m = space_of (sp(pid := Some (ids @ [?i]))) f n pid" using sp(1) by (simp add: r(2) flat_map_def space_of_def)
    with r(1) k show ?thesis by (simp add: after_def run_def)
  qed
qed simp

section \<open>Processes\<close>

definition idle where
  "idle sp f n cur al rd ps out =
     \<lparr>mach = \<lparr>spaces = sp, memory = f, swap_left = n, current = cur, alive = al\<rparr>, on_cpu = None, ready = rd, pids = ps, printed = out\<rparr>"

lemma idle_end: "always_prints flat_step (idle sp f n cur al [] ps out) out"
  using at_the_end [of "idle sp f n cur al [] ps out" flat_step] by (simp add: idle_def ended_def)

lemma idle_next:
  assumes "rd \<noteq> []"
    and "\<And>q p. map_of rd q = Some p \<Longrightarrow> always_prints flat_step (run sp f n q (filter (\<lambda>x. fst x \<noteq> q) rd) ps out p) s"
  shows "always_prints flat_step (idle sp f n cur al rd ps out) s"
proof (rule one_step [where c = "\<lambda>q. Some (Run_process q)"])
  show "\<exists>q. choice_ok q (idle sp f n cur al rd ps out)" using assms(1) by (cases rd) (auto simp: choice_ok_def idle_def)
  show "(\<exists>r m. flat_step k r (mach (idle sp f n cur al rd ps out)) m) \<and>
      (\<forall>r m. flat_step k r (mach (idle sp f n cur al rd ps out)) m \<longrightarrow>
        always_prints flat_step (after q r ((idle sp f n cur al rd ps out)\<lparr>mach := m\<rparr>)) s)"
    if q: "choice_ok q (idle sp f n cur al rd ps out)" and k: "Some (Run_process q) = Some k" for q k
  proof -
    obtain p where "map_of rd q = Some p" using q map_of_eq_None_iff [of rd q] by (cases "map_of rd q") (auto simp: choice_ok_def idle_def)
    with assms(2) [OF this] k show ?thesis by (auto simp: idle_def after_def run_def space_of_def)
  qed
qed (simp_all add: idle_def next_call_def)

lemma run_yield: "always_prints flat_step (idle sp f n pid True (rd @ [(pid, k)]) ps out) s \<Longrightarrow>
  always_prints flat_step (run sp f n pid rd ps out (App_yield k)) s"
  by (rule one_step [where c = "\<lambda>_. None"]) (simp_all add: run_def choice_ok_def next_call_def after_def idle_def space_of_def)

lemma run_exit:
  assumes "sp pid = Some ids"
    and "always_prints flat_step (idle (sp(pid := None)) (\<lambda>i. if swap_backed i \<and> i \<in> set ids then None else f i)
      (n + swap_count (Some ids)) pid False rd ps out) s"
  shows "always_prints flat_step (run sp f n pid rd ps out App_exit) s"
proof (rule run_goes_on)
  show "next_call 0 (run sp f n pid rd ps out App_exit) = Some End_process" by (simp add: next_call_def run_def)
  show "always_prints flat_step (after 0 r \<lparr>mach = m, on_cpu = Some (pid, App_exit), ready = rd, pids = ps, printed = out\<rparr>) s"
    if "flat_step End_process r (space_of sp f n pid) m" for r m
    using that assms by (simp add: after_def idle_def space_of_def space_def cong: if_cong)
qed simp_all

lemma run_fork:
  assumes sp: "sp pid = Some ids" and no: "swap_count (Some ids) > n \<Longrightarrow> always_prints flat_step (run sp f n pid rd ps out (k (- 1))) s"
    and yes: "\<And>c. swap_count (Some ids) \<le> n \<Longrightarrow> 0 < c \<Longrightarrow> c \<notin> set ps \<Longrightarrow>
      always_prints flat_step (run (sp(c := Some [])) f (n - swap_count (Some ids)) pid (rd @ [(c, k 0)]) (c # ps) out (k c)) s"
  shows "always_prints flat_step (run sp f n pid rd ps out (App_fork k)) s"
proof (rule one_step [where c = "\<lambda>c. Some (New_process pid c)"])
  have "infinite ({0 <..} :: int set)" by (rule infinite_Ioi)
  then have "\<exists>c. (0 :: int) < c \<and> c \<notin> set ps" using finite_subset [of "{0 <..}" "set ps"] by blast
  then show "\<exists>c. choice_ok c (run sp f n pid rd ps out (App_fork k))" by (simp add: choice_ok_def run_def)
  show "(\<exists>r m. flat_step t r (mach (run sp f n pid rd ps out (App_fork k))) m) \<and>
      (\<forall>r m. flat_step t r (mach (run sp f n pid rd ps out (App_fork k))) m \<longrightarrow>
        always_prints flat_step (after c r ((run sp f n pid rd ps out (App_fork k))\<lparr>mach := m\<rparr>)) s)"
    if c: "choice_ok c (run sp f n pid rd ps out (App_fork k))" and t: "Some (New_process pid c) = Some t" for c t
  proof -
    have c: "0 < c" "c \<notin> set ps" using c by (simp_all add: choice_ok_def run_def)
    show ?thesis
    proof (cases "swap_count (Some ids) > n")
      case True
      with no [OF True] t sp show ?thesis by (auto simp: run_def after_def Let_def)
    next
      case False
      with yes [OF _ c] t sp show ?thesis by (auto simp: run_def after_def Let_def)
    qed
  qed
qed (simp_all add: run_def next_call_def)

lemma boot_prints:
  assumes "app_boot flat_step (flat_start io S fs) p z" "\<And>pid. 0 < pid \<Longrightarrow>
      always_prints flat_step (run [pid \<mapsto> []] (memory (flat_start io S fs)) S pid [] [pid] [] p) s"
  shows "always_prints flat_step z s"
  using assms(1)
proof cases
  case (app_booted pid m)
  then have m: "m = (flat_start io S fs)\<lparr>spaces := [pid \<mapsto> []]\<rparr>" by (auto simp: flat_start_def swap_count_def split: if_splits)
  have "z = idle [pid \<mapsto> []] (memory (flat_start io S fs)) S (- 1) False [(pid, p)] [pid] []"
    by (simp add: app_booted(1) m flat_start_def idle_def)
  also have "always_prints flat_step \<dots> s"
    by (rule idle_next) (use assms(2) [OF app_booted(2)] in \<open>auto split: if_splits\<close>)
  finally show ?thesis .
qed

section \<open>Statements\<close>

fun put_chars :: "page \<Rightarrow> nat \<Rightarrow> string \<Rightarrow> page" where
  "put_chars x i [] = x"
| "put_chars x i (c # cs) = put_chars (x(i := c)) (Suc i) cs"

fun text_at :: "page \<Rightarrow> nat \<Rightarrow> string \<Rightarrow> bool" where
  "text_at x i [] \<longleftrightarrow> x i = nul"
| "text_at x i (c # cs) \<longleftrightarrow> x i = c \<and> c \<noteq> nul \<and> text_at x (Suc i) cs"

lemma run_copy:
  assumes "sp pid = Some ids" "j < length ids" "j < MAX_PAGE_NUM"
  shows "i + length cs < VM_PAGESIZE \<Longrightarrow> f (ids ! j) = Some x \<Longrightarrow>
    always_prints flat_step (run sp (f(ids ! j := Some (put_chars x i (cs @ [nul])))) n pid rd ps out k) s \<Longrightarrow>
    always_prints flat_step (run sp f n pid rd ps out (copy_string (elem (page_address j) i) cs k)) s"
proof (induction cs arbitrary: i f x)
  case Nil
  show ?case unfolding copy_string.simps
    by (rule run_store [where sp = sp and pid = pid and f = f, OF assms]) (use Nil in \<open>simp_all del: fun_upd_apply\<close>)
next
  case (Cons c cs)
  show ?case unfolding copy_string.simps append_Cons elem_next
  proof (rule run_store [where sp = sp and pid = pid and f = f, OF assms])
    show "i < VM_PAGESIZE" "f (ids ! j) = Some x" using Cons.prems by simp_all
    show "always_prints flat_step (run sp (f(ids ! j := Some (x(i := c)))) n pid rd ps out
        (copy_string (elem (page_address j) (Suc i)) cs k)) s"
    proof (rule Cons.IH)
      show "always_prints flat_step (run sp ((f(ids ! j := Some (x(i := c))))(ids ! j := Some (put_chars (x(i := c)) (Suc i) (cs @ [nul]))))
          n pid rd ps out k) s" using Cons.prems(3) by (simp only: fun_upd_upd append_Cons put_chars.simps)
      show "Suc i + length cs < VM_PAGESIZE" using Cons.prems(1) by simp
      show "(f(ids ! j := Some (x(i := c)))) (ids ! j) = Some (x(i := c))" by simp
    qed
  qed
qed

text \<open>The part of a string that fits into a page; the copy goes on behind it.\<close>

lemma run_copy_part:
  assumes "sp pid = Some ids" "j < length ids" "j < MAX_PAGE_NUM"
  shows "i + length cs \<le> VM_PAGESIZE \<Longrightarrow> f (ids ! j) = Some x \<Longrightarrow>
    always_prints flat_step (run sp (f(ids ! j := Some (put_chars x i cs))) n pid rd ps out (copy_string (elem (page_address j) (i + length cs)) ds k)) s \<Longrightarrow>
    always_prints flat_step (run sp f n pid rd ps out (copy_string (elem (page_address j) i) (cs @ ds) k)) s"
proof (induction cs arbitrary: i f x)
  case Nil
  then show ?case by (simp add: fun_upd_idem)
next
  case (Cons c cs)
  show ?case unfolding copy_string.simps append_Cons elem_next
  proof (rule run_store [where sp = sp and pid = pid and f = f, OF assms])
    show "i < VM_PAGESIZE" "f (ids ! j) = Some x" using Cons.prems by simp_all
    show "always_prints flat_step (run sp (f(ids ! j := Some (x(i := c)))) n pid rd ps out
        (copy_string (elem (page_address j) (Suc i)) (cs @ ds) k)) s"
    proof (rule Cons.IH)
      show "always_prints flat_step (run sp ((f(ids ! j := Some (x(i := c))))(ids ! j := Some (put_chars (x(i := c)) (Suc i) cs)))
          n pid rd ps out (copy_string (elem (page_address j) (Suc i + length cs)) ds k)) s"
        using Cons.prems(3) by (simp only: fun_upd_upd put_chars.simps list.size add_Suc_right add_Suc add_0_right)
      show "Suc i + length cs \<le> VM_PAGESIZE" using Cons.prems(1) by simp
      show "(f(ids ! j := Some (x(i := c)))) (ids ! j) = Some (x(i := c))" by simp
    qed
  qed
qed

lemma run_print_byte:
  assumes "sp pid = Some ids" "j < length ids" "j < MAX_PAGE_NUM" "i < VM_PAGESIZE" "f (ids ! j) = Some x"
    and "always_prints flat_step (run sp f n pid rd ps (out @ [x i]) k) s"
  shows "always_prints flat_step (run sp f n pid rd ps out (print_byte (elem (page_address j) i) k)) s"
  unfolding print_byte_def by (rule run_load [where sp = sp and pid = pid and f = f, OF assms(1-5)], rule run_print, rule assms(6))

text \<open>A loop that only prints.\<close>

lemma run_each:
  assumes "\<And>i out k. i \<in> set xs \<Longrightarrow> always_prints flat_step (run sp f n pid rd ps (out @ g i) k) s \<Longrightarrow>
      always_prints flat_step (run sp f n pid rd ps out (body i k)) s"
    and "always_prints flat_step (run sp f n pid rd ps (out @ concat (map g xs)) k) s"
  shows "always_prints flat_step (run sp f n pid rd ps out (for_each xs body k)) s"
  using assms
proof (induction xs arbitrary: out)
  case Nil
  then show ?case by (simp add: for_each_def)
next
  case (Cons i xs)
  have "always_prints flat_step (run sp f n pid rd ps (out @ g i) (for_each xs body k)) s"
    by (rule Cons.IH) (use Cons.prems in simp_all)
  then show ?case using Cons.prems(1) [of i] by (simp add: for_each_def)
qed

lemma spells_text:
  assumes sp: "sp pid = Some ids" "j < length ids" "j < MAX_PAGE_NUM" and x: "f (ids ! j) = Some x"
  shows "text_at x i nm \<Longrightarrow> i + length nm < VM_PAGESIZE \<Longrightarrow> spells (flat_byte (space_of sp f n pid)) (elem (page_address j) i) nm"
proof (induction nm arbitrary: i)
  case Nil
  then show ?case using sp x at_page [OF sp(3), of i] by (simp add: flat_byte_def)
next
  case (Cons c nm)
  then show ?case using sp x at_page [OF sp(3), of i] by (simp add: flat_byte_def elem_next)
qed

text \<open>A file whose name stands in a page of the process.\<close>

lemma run_map_file:
  assumes sp: "sp pid = Some ids" "length ids < MAX_PAGE_NUM" "j < length ids" and x: "f (ids ! j) = Some x" "text_at x i nm"
    "i + length nm < VM_PAGESIZE"
    and k: "always_prints flat_step (run (sp(pid := Some (ids @ [\<lparr>filename = nm @ [nul], block = b, swap_backed = False\<rparr>]))) f n pid rd ps out
      (k (page_address (length ids)))) s"
  shows "always_prints flat_step (run sp f n pid rd ps out (App_map (elem (page_address j) i) b k)) s"
proof (rule run_file [where sp = sp and pid = pid and nm = nm, OF sp(1,2)])
  have j: "j < MAX_PAGE_NUM" using sp(2,3) by simp
  show "elem (page_address j) i \<noteq> 0" by (rule page_not_null [OF j]) (use x(3) in simp)
  show "spells (flat_byte (space_of sp f n pid)) (elem (page_address j) i) nm" by (rule spells_text [where sp = sp and pid = pid and f = f, OF sp(1,3) j x])
qed (rule k)

lemma start_file: "nul \<notin> set nm \<Longrightarrow>
  memory (flat_start io S fs) \<lparr>filename = nm @ [nul], block = b, swap_backed = False\<rparr> = file_read io fs (Some nm) b"
  by (simp add: flat_start_def id_ok_def file_of_def c_string_nul)

lemma small [simp]: "n < 256 \<Longrightarrow> n < MAX_PAGE_NUM" "n < 65536 \<Longrightarrow> n < VM_PAGESIZE" "n \<le> 256 \<Longrightarrow> n \<le> MAX_PAGE_NUM"
    "n \<le> 65536 \<Longrightarrow> n \<le> VM_PAGESIZE"
  by (simp_all add: MAX_PAGE_NUM_def VM_ARENA_SIZE_def VM_PAGESIZE_def)

lemmas run_load0 = run_load [where i = 0, unfolded elem_zero]
lemmas run_store0 = run_store [where i = 0, unfolded elem_zero]
lemmas run_copy0 = run_copy [where i = 0, unfolded elem_zero]
lemmas run_print_byte0 = run_print_byte [where i = 0, unfolded elem_zero]

section \<open>A process alone\<close>

abbreviation solo where
  "solo pid ids f n out p \<equiv> run [pid \<mapsto> ids] f n pid [] [pid] out p"

lemma solo_swap:
  assumes "length ids < MAX_PAGE_NUM" "n \<noteq> 0"
    and "\<And>i. swap_backed i \<Longrightarrow> i \<notin> set ids \<Longrightarrow> 
      always_prints flat_step (solo pid (ids @ [i]) (f(i := Some (\<lambda>_. nul))) (n - 1) out (k (page_address (length ids)))) s"
  shows "always_prints flat_step (solo pid ids f n out (App_map 0 b k)) s"
proof (rule run_swap [OF _ assms(1,2)])
  fix i assume i: "swap_backed i" "\<And>q js. [pid \<mapsto> ids] q = Some js \<Longrightarrow> i \<notin> set js"
  have "i \<notin> set ids" by (rule i(2) [of pid]) simp
  from assms(3) [OF i(1) this]
  show "always_prints flat_step (run ([pid \<mapsto> ids](pid := Some (ids @ [i]))) (f(i := Some (\<lambda>_. nul))) (n - 1) pid [] [pid] out
      (k (page_address (length ids)))) s" by simp
qed simp_all

lemma solo_file:
  assumes "length ids < MAX_PAGE_NUM" "j < length ids" "f (ids ! j) = Some x" "text_at x i nm" "i + length nm < VM_PAGESIZE"
    and "always_prints flat_step (solo pid (ids @ [\<lparr>filename = nm @ [nul], block = b, swap_backed = False\<rparr>]) f n out
      (k (page_address (length ids)))) s"
  shows "always_prints flat_step (solo pid ids f n out (App_map (elem (page_address j) i) b k)) s"
  by (rule run_map_file [where ids = ids and x = x and nm = nm]) (use assms in simp_all)

lemmas solo_file0 = solo_file [where i = 0, unfolded elem_zero]

lemma solo_exit: "out = s \<Longrightarrow> always_prints flat_step (solo pid ids f n out App_exit) s"
  by (rule run_exit) (simp_all add: idle_end)

lemma boot_solo:
  assumes "app_boot flat_step (flat_start io S fs) p z" "\<And>pid. always_prints flat_step (solo pid [] (memory (flat_start io S fs)) S [] p) s"
  shows "always_prints flat_step z s"
  using boot_prints [OF assms(1)] assms(2) by blast

lemma file_not_swap: "swap_backed i \<Longrightarrow> \<lparr>filename = n, block = b, swap_backed = False\<rparr> \<noteq> i"
  by auto

end
