(* ===== verification/App_Tests.thy ===== *)
theory App_Tests imports App_Programs begin

text \<open>
  The applications of Project3, test*.4.cpp and test19.5.cpp, as programs: a definition for the main function of
  each file, with definitions of their own for its \<open>while\<close> loops and loops that stop early. A continuation of \<open>if\<close> is shared by the branches.
  A loop that maps a page in each round and stops when none is left is given one round more than the arena has pages.
\<close>

section \<open>One process\<close>

definition app3 :: "app" where
  "app3 =
     App_map 0 0 (\<lambda>page0.
     App_map 0 0 (\<lambda>page1.
     let filename = (elem page0 VM_PAGESIZE) in
     copy_string filename ''lampson83.txt'' (
     App_map filename 0 (\<lambda>page2.
     for_each [0..<23] (\<lambda>i rest.
         print_byte (elem page2 i) (
         rest)) (
     App_print newline (
     App_exit))))))"

fun app4_maps :: "nat list \<Rightarrow> app \<Rightarrow> app" where
  "app4_maps [] k = k"
| "app4_maps (i # is) k =
     App_print (show_nat i @ newline) (
     App_map 0 0 (\<lambda>filename.
     if filename = 0 then App_print (''reach capacity'' @ newline) k
     else copy_string filename ''data1.bin'' (app4_maps is k)))"

definition app4 :: "app" where
  "app4 =
     App_map 0 0 (\<lambda>filename.
     copy_string filename ''lampson83.txt'' (
     app4_maps [0..<16] (
     App_map filename 0 (\<lambda>p.
     for_each [0..<1930] (\<lambda>i rest.
         print_byte (elem p i) (
         rest)) (
     App_exit)))))"

definition app6 :: "app" where
  "app6 =
     App_map 0 0 (\<lambda>filename.
     copy_string filename ''data1.bin'' (
     App_map filename 0 (\<lambda>p1.
     App_map filename 0 (\<lambda>p2.
     App_map filename 0 (\<lambda>p3.
     App_map filename 1 (\<lambda>p15.
     App_map filename 2 (\<lambda>p16.
     App_map filename 3 (\<lambda>p17.
     App_store p1 (CHR ''a'') (
     App_store p2 (CHR ''b'') (
     App_store p15 (CHR ''c'') (
     App_store p16 (CHR ''d'') (
     App_store (elem p17 1) (CHR ''d'') (
     for_each [0..<10] (\<lambda>i rest.
         print_byte (elem p1 i) (
         print_byte (elem p2 i) (
         print_byte (elem p3 i) (
         print_byte (elem p15 i) (
         print_byte (elem p16 i) (
         print_byte (elem p17 i) (
         App_print newline (
         rest)))))))) (
     App_exit))))))))))))))"

fun swap_loop :: "nat \<Rightarrow> nat \<Rightarrow> (nat \<Rightarrow> app) \<Rightarrow> app" where
  "swap_loop 0 glb k = k glb"
| "swap_loop (Suc n) glb k =
     App_map 0 0 (\<lambda>filename.
     if filename = 0 then k glb
     else copy_string filename ''lampson83.txt'' (
       App_print (show_nat glb @ newline) (
       let glb = glb + 1 in
       for_each [0..<5] (\<lambda>i rest. print_byte (elem filename i) (App_store (elem filename i) (CHR ''a'') rest)) (
       for_each [2..<7] (\<lambda>i rest. print_byte (elem filename i) (App_store (elem filename i) (CHR ''b'') rest)) (
       swap_loop n glb k)))))"

definition app14 :: "app" where
  "app14 =
    (let glb = (0 :: nat) in
     App_map 0 0 (\<lambda>filename.
     for_each [0..<5] (\<lambda>i rest.
         print_byte (elem filename i) (
         App_store (elem filename i) (CHR ''a'') (
         print_byte (elem filename i) (
         rest)))) (
     copy_string filename ''lampson83.txt'' (
     App_map 0 0 (\<lambda>evict.
     App_store evict (CHR ''a'') (
     print_byte filename (
     App_store filename (CHR ''b'') (
     App_map 0 0 (\<lambda>evict.
     App_store evict (CHR ''a'') (
     App_map 0 0 (\<lambda>evict.
     App_store evict (CHR ''a'') (
     App_map 0 0 (\<lambda>evict.
     App_store evict (CHR ''a'') (
     App_map 0 0 (\<lambda>evict.
     App_store evict (CHR ''a'') (
     print_byte filename (
     App_map 0 0 (\<lambda>evict.
     App_store evict (CHR ''a'') (
     App_map 0 0 (\<lambda>evict.
     App_store evict (CHR ''a'') (
     App_map 0 0 (\<lambda>evict.
     App_store evict (CHR ''a'') (
     App_map 0 0 (\<lambda>evict.
     App_store evict (CHR ''a'') (
     print_byte filename (
     App_map 0 0 (\<lambda>evict.
     App_store evict (CHR ''a'') (
     App_map 0 0 (\<lambda>evict.
     App_store evict (CHR ''a'') (
     App_map 0 0 (\<lambda>evict.
     App_store evict (CHR ''a'') (
     App_map 0 0 (\<lambda>evict.
     App_store evict (CHR ''a'') (
     App_store filename (CHR ''b'') (
     App_print (show_nat glb @ newline) (
     let glb = glb + 1 in
     App_map 0 0 (\<lambda>filename_real.
     copy_string filename_real ''lampson83.txt'' (
     App_map filename_real 0 (\<lambda>p.
     App_map 0 0 (\<lambda>evict.
     App_store evict (CHR ''a'') (
     App_map 0 0 (\<lambda>evict.
     App_store evict (CHR ''a'') (
     App_map 0 0 (\<lambda>evict.
     App_store evict (CHR ''a'') (
     App_map 0 0 (\<lambda>evict.
     App_store evict (CHR ''a'') (
     swap_loop (MAX_PAGE_NUM + 1) glb (\<lambda>glb.
     App_fork (\<lambda>child.
     let k =
         App_yield (
         App_exit)
     in
     (if child \<noteq> 0 then
         for_each [0..<30] (\<lambda>i rest.
             print_byte (elem p i) (
             App_store (elem p i) (CHR ''a'') (
             rest))) (
         App_map 0 0 (\<lambda>evict.
         App_store evict (CHR ''a'') (
         k)))
      else
         for_each [0..<30] (\<lambda>i rest.
             print_byte (elem p i) (
             App_store (elem p i) (CHR ''b'') (
             rest))) (
         k)))))))))))))))))))))))))))))))))))))))))))))))))))"

definition app18 :: "app" where
  "app18 =
     App_map 0 0 (\<lambda>filename.
     copy_string filename ''lampson83.txt'' (
     App_map 0 0 (\<lambda>p1.
     copy_string p1 ''data1.bin'' (
     copy_string p1 ''null.bin'' (
     App_map 0 0 (\<lambda>p2.
     copy_string p2 ''data2.bin'' (
     App_map 0 0 (\<lambda>p3.
     copy_string p3 ''data3.bin'' (
     App_map 0 1 (\<lambda>p15.
     copy_string p15 ''data4.bin'' (
     App_map 0 2 (\<lambda>p16.
     copy_string p16 ''data1.bin'' (
     App_map 0 3 (\<lambda>p17.
     copy_string p17 ''data1.bin'' (
     print_byte filename (
     App_print newline (
     copy_string filename ''lampson.txt'' (
     print_byte p1 (
     App_print newline (
     App_map 0 0 (\<lambda>p4.
     copy_string p4 ''data1.bin'' (
     copy_string p4 ''null.bin'' (
     App_map 0 0 (\<lambda>p5.
     copy_string p5 ''data2.bin'' (
     print_byte (elem p1 1) (
     App_print newline (
     copy_string p2 ''null'' (
     copy_string p5 ''nothing'' (
     App_exit)))))))))))))))))))))))))))))"

definition app19 :: "app" where
  "app19 =
     App_map 0 0 (\<lambda>filename1.
     copy_string filename1 ''lampson83.txt'' (
     App_map filename1 0 (\<lambda>p1.
     print_byte p1 (
     print_byte (elem p1 1) (
     App_print newline (
     App_map 0 1 (\<lambda>filename2.
     copy_string filename2 ''data1.bin'' (
     App_map filename2 1 (\<lambda>p2.
     copy_byte p2 (elem p2 1) (
     App_map 0 1 (\<lambda>filename3.
     copy_string filename3 ''data4.bin'' (
     App_map 0 2 (\<lambda>p16.
     copy_string p16 ''data1.bin'' (
     print_byte p2 (
     App_print newline (
     App_map 0 3 (\<lambda>p17.
     copy_string p17 ''data1.bin'' (
     App_map 0 3 (\<lambda>p18.
     copy_string p18 ''data1.bin'' (
     copy_byte p1 (elem p1 2) (
     print_byte (elem p2 1) (
     App_print newline (
     App_map 0 3 (\<lambda>p19.
     copy_string p19 ''data1.bin'' (
     print_byte (elem p2 3) (
     App_print newline (
     copy_byte (elem p1 1) (elem p1 4) (
     copy_string filename3 ''lampson83.txt'' (
     App_map filename3 0 (\<lambda>p3.
     print_byte (elem p3 1) (
     App_print newline (
     App_exit))))))))))))))))))))))))))))))))"

definition app20 :: "app" where
  "app20 =
     App_map 0 0 (\<lambda>filename1.
     copy_string filename1 ''lampson83.txt'' (
     App_map 0 0 (\<lambda>filename2.
     copy_string filename2 ''lampson84.txt'' (
     App_map 0 0 (\<lambda>filename3.
     copy_string filename3 ''lampson85.txt'' (
     App_map 0 0 (\<lambda>filename4.
     copy_string filename4 ''lampson86.txt'' (
     App_map 0 0 (\<lambda>filename5.
     copy_string filename5 ''lampson87.txt'' (
     App_map 0 0 (\<lambda>filename6.
     copy_string filename6 ''lampson87.txt'' (
     let filename = (elem filename1 (VM_PAGESIZE - 3)) in
     copy_string filename ''hhhhhhh'' (
     for_each [0..<10] (\<lambda>i rest.
         print_byte (elem filename2 i) (
         rest)) (
     App_print newline (
     App_exit)))))))))))))))"

fun app24_maps :: "nat list \<Rightarrow> app \<Rightarrow> app" where
  "app24_maps [] k = k"
| "app24_maps (i # is) k =
     App_print (show_nat i @ newline) (
     App_map 0 0 (\<lambda>filename.
     if filename = 0 then App_print (''reach capacity'' @ newline) k
     else copy_string filename ''lampson83.txt'' (app24_maps is k)))"

definition app24 :: "app" where
  "app24 =
     App_map 0 0 (\<lambda>filename.
     for_each [0..<30] (\<lambda>i rest.
         print_byte (elem filename i) (
         rest)) (
     App_print newline (
     copy_string filename ''lampson83.txt'' (
     app24_maps [0..<1930] (
     App_exit)))))"

definition app25 :: "app" where
  "app25 =
     App_map 0 0 (\<lambda>filename.
     copy_string filename ''lampson83.txt'' (
     App_map filename 0 (\<lambda>p1.
     App_map filename 0 (\<lambda>p2.
     App_map filename 0 (\<lambda>p3.
     App_map filename 0 (\<lambda>p15.
     App_map filename 0 (\<lambda>p16.
     App_map filename 0 (\<lambda>p17.
     App_store p1 (CHR ''a'') (
     App_store p2 (CHR ''b'') (
     App_store p15 (CHR ''c'') (
     App_store p16 (CHR ''d'') (
     App_store (elem p17 1) (CHR ''d'') (
     for_each [0..<10] (\<lambda>i rest.
         print_byte (elem p1 i) (
         print_byte (elem p2 i) (
         print_byte (elem p3 i) (
         print_byte (elem p15 i) (
         print_byte (elem p16 i) (
         print_byte (elem p17 i) (
         App_print newline (
         rest)))))))) (
     App_exit))))))))))))))"

section \<open>Processes that start from an empty arena\<close>

definition app2 :: "app" where
  "app2 =
     App_fork (\<lambda>child.
     let k =
         App_print (''end of the process'' @ newline) (
         App_exit)
     in
     (if child = 0 then
         App_map 0 0 (\<lambda>filename.
         App_yield (
         copy_string filename ''lampson83.txt'' (
         App_map filename 0 (\<lambda>p.
         App_yield (
         for_each [0..<3] (\<lambda>i rest.
             print_byte (elem p i) (
             rest)) (
         k))))))
      else
         App_map 0 0 (\<lambda>filename.
         copy_string filename ''data1.bin'' (
         App_yield (
         App_map filename 0 (\<lambda>p.
         for_each [0..<3] (\<lambda>i rest.
             print_byte (elem p i) (
             rest)) (
         k)))))))"

definition app5 :: "app" where
  "app5 =
     App_fork (\<lambda>child.
     (if child = 0 then
         App_map 0 0 (\<lambda>page0.
         App_map 0 0 (\<lambda>page1.
         let filename = (elem page0 VM_PAGESIZE) in
         copy_string filename ''data1.bin'' (
         App_map filename 0 (\<lambda>page2.
         App_store (elem filename 4) (CHR ''2'') (
         App_yield (
         App_map filename 0 (\<lambda>page3.
         for_each [0..<19] (\<lambda>i rest.
             print_byte (elem page3 i) (
             App_print newline (
             App_yield (
             print_byte (elem page2 i) (
             App_print newline (
             copy_byte (elem page3 i) (elem page2 i) (
             App_yield (
             rest)))))))) (
         App_exit))))))))
      else
         App_map 0 0 (\<lambda>page0.
         App_map 0 0 (\<lambda>page1.
         let filename = (elem page0 VM_PAGESIZE) in
         copy_string filename ''data2.bin'' (
         App_map filename 0 (\<lambda>page2.
         App_store (elem filename 4) (CHR ''1'') (
         App_yield (
         App_map filename 0 (\<lambda>page3.
         for_each [0..<19] (\<lambda>i rest.
             print_byte (elem page3 i) (
             App_print newline (
             App_yield (
             print_byte (elem page2 i) (
             App_print newline (
             copy_byte (elem page3 i) (elem page2 i) (
             App_yield (
             rest)))))))) (
         App_exit))))))))))"

definition app7 :: "app" where
  "app7 =
     App_fork (\<lambda>child.
     (if child = 0 then
         App_map 0 0 (\<lambda>filename.
         copy_string filename ''lampson83.txt'' (
         App_yield (
         App_map filename 0 (\<lambda>p.
         App_store (elem p 4) (CHR ''x'') (
         App_store (elem p 1) (CHR ''y'') (
         App_store (elem p 2) (CHR ''z'') (
         for_each [0..<19] (\<lambda>i rest.
             print_byte (elem p i) (
             App_print newline (
             rest))) (
         App_exit))))))))
      else
         App_map 0 0 (\<lambda>filename.
         copy_string filename ''lampson83.txt'' (
         App_map filename 0 (\<lambda>p.
         App_store p (CHR ''a'') (
         App_store (elem p 1) (CHR ''b'') (
         App_store (elem p 2) (CHR ''c'') (
         for_each [0..<19] (\<lambda>i rest.
             print_byte (elem p i) (
             App_print newline (
             rest))) (
         App_exit)))))))))"

definition app8 :: "app" where
  "app8 =
     App_fork (\<lambda>child.
     (if child = 0 then
         App_map 0 0 (\<lambda>filename.
         copy_string filename ''lampson83.txt'' (
         App_yield (
         App_map filename 0 (\<lambda>p.
         App_store (elem p 4) (CHR ''x'') (
         App_store (elem p 1) (CHR ''y'') (
         App_store (elem p 2) (CHR ''z'') (
         for_each [0..<19] (\<lambda>i rest.
             print_byte (elem p i) (
             App_print newline (
             rest))) (
         App_exit))))))))
      else
         App_map 0 0 (\<lambda>filename.
         copy_string filename ''lampson83.txt'' (
         App_map filename 0 (\<lambda>p.
         App_store p (CHR ''a'') (
         App_store (elem p 1) (CHR ''b'') (
         App_store (elem p 2) (CHR ''c'') (
         for_each [0..<19] (\<lambda>i rest.
             print_byte (elem p i) (
             App_print newline (
             rest))) (
         App_yield (
         copy_string filename ''data1.bin'' (
         App_map filename 0 (\<lambda>p1.
         for_each [0..<19] (\<lambda>i rest.
             print_byte (elem p1 i) (
             App_print newline (
             rest))) (
         App_yield (
         copy_string filename ''lampson83.txt'' (
         App_map filename 0 (\<lambda>p2.
         for_each [0..<19] (\<lambda>i rest.
             print_byte (elem p2 i) (
             App_print newline (
             rest))) (
         App_exit)))))))))))))))))"

definition app9 :: "app" where
  "app9 =
     App_fork (\<lambda>child.
     (if child = 0 then
         App_map 0 0 (\<lambda>page0.
         App_map 0 0 (\<lambda>page1.
         let filename = (elem page0 VM_PAGESIZE) in
         copy_string filename ''data1.bin'' (
         App_map page1 0 (\<lambda>page2.
         App_store (elem filename 4) (CHR ''2'') (
         App_yield (
         App_map page1 0 (\<lambda>page3.
         for_each [0..<39] (\<lambda>i rest.
             print_byte (elem page3 i) (
             App_print newline (
             App_yield (
             print_byte (elem page2 i) (
             App_print newline (
             copy_byte (elem page3 i) (elem page2 i) (
             App_yield (
             rest)))))))) (
         App_exit))))))))
      else
         App_map 0 0 (\<lambda>page0.
         App_map 0 0 (\<lambda>page1.
         let filename = (elem page0 VM_PAGESIZE) in
         copy_string filename ''data2.bin'' (
         App_map filename 0 (\<lambda>page2.
         App_store (elem filename 4) (CHR ''1'') (
         App_yield (
         App_map filename 0 (\<lambda>page3.
         for_each [0..<39] (\<lambda>i rest.
             print_byte (elem page3 i) (
             App_print newline (
             App_yield (
             print_byte (elem page2 i) (
             App_print newline (
             copy_byte (elem page3 i) (elem page2 i) (
             App_yield (
             rest)))))))) (
         App_exit))))))))))"

definition app12 :: "app" where
  "app12 =
    (let glb = (0 :: nat) in
     App_fork (\<lambda>_.
     swap_loop (MAX_PAGE_NUM + 1) glb (\<lambda>glb.
     App_print (show_nat glb @ newline) (
     App_yield (
     App_exit)))))"

definition app13 :: "app" where
  "app13 =
    (let glb = (0 :: nat) in
     App_fork (\<lambda>_.
     App_map 0 0 (\<lambda>evict.
     App_store evict (CHR ''a'') (
     App_fork (\<lambda>child.
     let k = (\<lambda>glb.
         App_print (show_nat glb @ newline) (
         App_yield (
         App_exit)))
     in
     (if child \<noteq> 0 then
         App_map 0 0 (\<lambda>filename.
         copy_string filename ''lampson83.txt'' (
         App_print (show_nat glb @ newline) (
         let glb = glb + 1 in
         for_each [0..<5] (\<lambda>i rest.
             print_byte (elem filename i) (
             App_store (elem filename i) (CHR ''a'') (
             rest))) (
         for_each [2..<7] (\<lambda>i rest.
             print_byte (elem filename i) (
             App_store (elem filename i) (CHR ''b'') (
             rest))) (
         App_print (''process 1'' @ newline) (
         k glb))))))
      else
         swap_loop (MAX_PAGE_NUM + 1) glb (\<lambda>glb.
         k glb)))))))"

definition app15 :: "app" where
  "app15 =
     App_fork (\<lambda>child.
     (if child = 0 then
         App_fork (\<lambda>child.
         (if child = 0 then
             App_yield (
             App_map 0 0 (\<lambda>filename.
             copy_string filename ''data1.bin'' (
             App_map filename 0 (\<lambda>p.
             for_each [0..<VM_PAGESIZE] (\<lambda>i rest.
                 print_byte (elem p i) (
                 rest)) (
             App_exit)))))
          else
             App_map 0 0 (\<lambda>filename.
             copy_string filename ''data1.bin'' (
             App_map filename 0 (\<lambda>p.
             for_each [0..<1930] (\<lambda>i rest.
                 print_byte (elem p i) (
                 rest)) (
             App_exit))))))
      else
         App_map 0 0 (\<lambda>filename.
         copy_string filename ''data1.bin'' (
         App_map filename 0 (\<lambda>p.
         for_each [0..<1930] (\<lambda>i rest.
             print_byte (elem p i) (
             rest)) (
         App_yield (
         App_map filename 1 (\<lambda>p1.
         for_each [0..<VM_PAGESIZE - 1] (\<lambda>i rest.
             copy_byte (elem p i) (elem p (i + 1)) (
             rest)) (
         copy_byte (elem p (VM_PAGESIZE - 1)) p1 (
         App_exit))))))))))"

definition app21 :: "app" where
  "app21 =
     App_fork (\<lambda>child.
     (if child = 0 then
         App_map 0 0 (\<lambda>filename1.
         copy_string filename1 ''lampson83.txt'' (
         App_map 0 0 (\<lambda>filename2.
         copy_string filename2 ''lampson84.txt'' (
         let filename = (elem filename1 (VM_PAGESIZE - 3)) in
         copy_string filename ''hhhhhhh'' (
         App_print (''nn'' @ newline) (
         App_yield (
         for_each [0..<13] (\<lambda>i rest.
             print_byte (elem filename i) (
             rest)) (
         App_print newline (
         App_exit)))))))))
      else
         App_map 0 0 (\<lambda>filename1.
         copy_string filename1 ''lampson87.txt'' (
         App_map 0 0 (\<lambda>filename2.
         copy_string filename2 ''lampson88.txt'' (
         let filename = (elem filename1 (VM_PAGESIZE - 3)) in
         copy_string filename ''bbbbbbb'' (
         App_print (''mm'' @ newline) (
         App_yield (
         for_each [0..<13] (\<lambda>i rest.
             print_byte (elem filename i) (
             rest)) (
         App_print newline (
         App_exit)))))))))))"

definition app22 :: "app" where
  "app22 =
     App_fork (\<lambda>child.
     (if child = 0 then
         App_map 0 0 (\<lambda>filename1.
         copy_string filename1 ''lampson83.txt'' (
         App_map 0 0 (\<lambda>filename2.
         copy_string filename2 ''lampson84.txt'' (
         let filename = (elem filename1 (VM_PAGESIZE - 3)) in
         copy_string filename ''hhhhhhh'' (
         App_print (''nn'' @ newline) (
         App_yield (
         for_each [0..<13] (\<lambda>i rest.
             print_byte (elem filename i) (
             rest)) (
         App_print newline (
         App_exit)))))))))
      else
         App_map 0 0 (\<lambda>filename1.
         copy_string filename1 ''lampson87.txt'' (
         App_map 0 0 (\<lambda>filename2.
         copy_string filename2 ''lampson88.txt'' (
         let filename = (elem filename1 (VM_PAGESIZE - 3)) in
         copy_string filename ''bbbbbbb'' (
         App_print (''mm'' @ newline) (
         App_yield (
         for_each [0..<13] (\<lambda>i rest.
             print_byte (elem filename i) (
             rest)) (
         App_print newline (
         App_exit)))))))))))"

section \<open>Processes that use what their parent has mapped\<close>

definition app1 :: "app" where
  "app1 =
     App_map 0 0 (\<lambda>page00.
     App_map 0 0 (\<lambda>page01.
     let filename0 = (elem page00 VM_PAGESIZE) in
     copy_string filename0 ''data1.bin'' (
     App_map filename0 0 (\<lambda>page02.
     App_store (elem filename0 4) (CHR ''2'') (
     App_map filename0 1 (\<lambda>page03.
     App_fork (\<lambda>_.
     for_each [18..<29] (\<lambda>i rest.
         print_byte (elem page03 i) (
         App_print newline (
         print_byte (elem page02 i) (
         App_print newline (
         copy_byte (elem page03 i) (elem page02 i) (
         App_yield (
         copy_byte (elem page02 i) (elem page03 (i + 10)) (
         rest)))))))) (
     App_fork (\<lambda>child.
     (if child = 0 then
         App_map 0 0 (\<lambda>page0.
         App_map 0 0 (\<lambda>page1.
         copy_string page0 ''data1.bin'' (
         App_map page0 0 (\<lambda>page41.
         App_map page0 0 (\<lambda>page42.
         let filename = (elem page41 (VM_PAGESIZE - 3)) in
         copy_string filename ''data1.bin'' (
         App_map filename 0 (\<lambda>page2.
         copy_string page2 ''data1.bin'' (
         App_map 0 0 (\<lambda>page80.
         App_map 0 0 (\<lambda>page81.
         App_map 0 0 (\<lambda>page880.
         App_map 0 0 (\<lambda>page881.
         App_map page2 0 (\<lambda>page4.
         App_yield (
         App_store (elem filename 4) (CHR ''2'') (
         App_map filename 0 (\<lambda>page3.
         for_each [0..<19] (\<lambda>i rest.
             print_byte (elem page3 i) (
             App_print newline (
             print_byte (elem page4 i) (
             App_print newline (
             App_yield (
             print_byte (elem page2 i) (
             App_print newline (
             copy_byte (elem page3 i) (elem page2 i) (
             App_yield (
             rest)))))))))) (
         App_exit)))))))))))))))))
      else
         App_map 0 0 (\<lambda>page0.
         App_map 0 0 (\<lambda>page1.
         let filename = (elem page0 VM_PAGESIZE) in
         copy_string filename ''data2.bin'' (
         App_map filename 0 (\<lambda>page2.
         App_store (elem filename 4) (CHR ''1'') (
         App_yield (
         App_map filename 0 (\<lambda>page3.
         for_each [0..<19] (\<lambda>i rest.
             print_byte (elem page3 i) (
             App_print newline (
             App_yield (
             print_byte (elem page2 i) (
             App_print newline (
             copy_byte (elem page3 i) (elem page2 i) (
             App_yield (
             rest)))))))) (
         App_exit))))))))))))))))))"

definition app10 :: "app" where
  "app10 =
     App_map 0 0 (\<lambda>page00.
     let filename0 = page00 in
     copy_string filename0 ''data1.bin'' (
     App_map filename0 0 (\<lambda>page01.
     App_store (elem filename0 4) (CHR ''2'') (
     App_map filename0 0 (\<lambda>page02.
     App_store (elem filename0 4) (CHR ''3'') (
     App_map filename0 0 (\<lambda>page03.
     App_store (elem filename0 4) (CHR ''4'') (
     App_map filename0 0 (\<lambda>page04.
     App_fork (\<lambda>_.
     for_each [18..<29] (\<lambda>i rest.
         copy_byte (elem page01 (i + 5)) (elem page02 i) (
         copy_byte (elem page02 i) (elem page03 (i + 3)) (
         copy_byte (elem page01 (i + 10)) (elem page03 i) (
         copy_byte (elem page03 i) (elem page04 (i + 7)) (
         copy_byte (elem page01 (i + 15)) (elem page04 i) (
         copy_byte (elem page04 i) (elem page02 (i + 17)) (
         App_yield (
         for_each [1..<50] (\<lambda>j rest.
             print_byte (elem page01 j) (
             rest)) (
         App_print newline (
         rest)))))))))) (
     App_exit)))))))))))"

definition app23 :: "app" where
  "app23 =
     App_map 0 0 (\<lambda>page00.
     let filename0 = page00 in
     copy_string filename0 ''data1.bin'' (
     App_map filename0 0 (\<lambda>page01.
     App_store (elem filename0 4) (CHR ''2'') (
     App_map filename0 0 (\<lambda>page02.
     App_store (elem filename0 4) (CHR ''3'') (
     App_map filename0 0 (\<lambda>page03.
     App_store (elem filename0 4) (CHR ''4'') (
     App_map filename0 0 (\<lambda>page04.
     App_fork (\<lambda>_.
     for_each [18..<29] (\<lambda>i rest.
         copy_byte (elem page01 (i + 5)) (elem page02 i) (
         copy_byte (elem page02 i) (elem page03 (i + 3)) (
         copy_byte (elem page01 (i + 10)) (elem page03 i) (
         copy_byte (elem page03 i) (elem page04 (i + 7)) (
         copy_byte (elem page01 (i + 15)) (elem page04 i) (
         copy_byte (elem page04 i) (elem page02 (i + 17)) (
         App_yield (
         for_each [1..<50] (\<lambda>j rest.
             print_byte (elem page01 j) (
             rest)) (
         App_print newline (
         rest)))))))))) (
     App_exit)))))))))))"

definition app11 :: "app" where
  "app11 =
    (let glb = (0 :: nat) in
     App_map 0 0 (\<lambda>filename.
     copy_string filename ''lampson83.txt'' (
     App_print (show_nat glb @ newline) (
     let glb = glb + 1 in
     App_fork (\<lambda>id.
     App_map filename 0 (\<lambda>p.
     let k =
         App_yield (
         App_exit)
     in
     (if id = 0 then
         for_each [0..<30 * glb] (\<lambda>i rest.
             print_byte (elem p i) (
             App_store (elem p i) (CHR ''a'') (
             rest))) (
         k)
      else
         for_each [0..<30 * glb] (\<lambda>i rest.
             print_byte (elem p i) (
             App_store (elem p i) (CHR ''b'') (
             rest))) (
         k))))))))"

definition app16 :: "app" where
  "app16 =
     App_map 0 0 (\<lambda>filename.
     copy_string filename ''data1.bin'' (
     App_map filename 0 (\<lambda>p_parent.
     for_each [0..<1930] (\<lambda>i rest.
         print_byte (elem p_parent i) (
         rest)) (
     App_fork (\<lambda>child.
     (if child = 0 then
         App_map filename 1 (\<lambda>p_child.
         for_each [0..<1930] (\<lambda>i rest.
             print_byte (elem p_child i) (
             rest)) (
         App_yield (
         App_fork (\<lambda>child.
         (if child = 0 then
             for_each [0..<1930] (\<lambda>i rest.
                 print_byte (elem p_parent i) (
                 rest)) (
             App_exit)
          else
             App_yield (
             App_map 0 0 (\<lambda>filename1.
             copy_string filename1 ''data3.bin'' (
             App_map 0 0 (\<lambda>filename2.
             copy_string filename2 ''data2.bin'' (
             App_exit))))))))))
      else
         App_yield (
         App_map filename 1 (\<lambda>p1.
         for_each [0..<VM_PAGESIZE - 1] (\<lambda>i rest.
             copy_byte (elem p_parent i) (elem p_parent (i + 1)) (
             rest)) (
         copy_byte (elem p_parent (VM_PAGESIZE - 1)) p1 (
         App_exit))))))))))"

fun app17_fill :: "nat \<Rightarrow> 64 word list \<Rightarrow> (64 word list \<Rightarrow> app) \<Rightarrow> app" where
  "app17_fill 0 filenames k = k filenames"
| "app17_fill (Suc n) filenames k =
     App_map 0 0 (\<lambda>p.
     let filenames = filenames @ [p] in
     copy_string (last filenames) ''data1.bin'' (app17_fill n filenames k))"

definition app17 :: "app" where
  "app17 =
     app17_fill 127 [] (\<lambda>filenames.
     App_fork (\<lambda>child.
     (if child = 0 then
         for_each (rev [120..<127]) (\<lambda>i rest.
             print_string (filenames ! i) (
             App_print newline (
             rest))) (
         for_each [1, 2, 4, 8, 16, 32, 64] (\<lambda>i rest.
             copy_string (filenames ! i) ''data2.bin'' (
             rest)) (
         App_fork (\<lambda>child.
         (if child = 0 then
             for_each [1, 2, 4, 8, 16, 32, 64] (\<lambda>i rest.
                 print_string (filenames ! i) (
                 App_print newline (
                 rest))) (
             App_print (''process 3 end'' @ newline) (
             App_exit))
          else
             App_yield (
             App_print (''process 2 end'' @ newline) (
             App_exit))))))
      else
         App_yield (
         App_print (''process 1 end'' @ newline) (
         App_exit)))))"

definition app26 :: "app" where
  "app26 =
     App_map 0 0 (\<lambda>page00.
     App_map 0 0 (\<lambda>page01.
     let filename0 = (elem page00 VM_PAGESIZE) in
     copy_string filename0 ''data1.bin'' (
     App_map filename0 0 (\<lambda>page02.
     App_store (elem filename0 4) (CHR ''2'') (
     App_map filename0 1 (\<lambda>page03.
     App_fork (\<lambda>_.
     for_each [18..<29] (\<lambda>i rest.
         print_byte (elem page03 i) (
         App_print newline (
         print_byte (elem page02 i) (
         App_print newline (
         copy_byte (elem page03 i) (elem page02 i) (
         App_yield (
         copy_byte (elem page02 i) (elem page03 (i + 10)) (
         rest)))))))) (
     App_fork (\<lambda>child.
     let k =
         App_fork (\<lambda>child.
         (if child = 0 then
             App_map 0 0 (\<lambda>page0.
             App_map 0 0 (\<lambda>page1.
             let filename = (elem page0 VM_PAGESIZE) in
             copy_string filename ''data1.bin'' (
             App_map filename 0 (\<lambda>page2.
             App_store (elem filename 4) (CHR ''2'') (
             App_yield (
             App_map filename 0 (\<lambda>page3.
             for_each [0..<19] (\<lambda>i rest.
                 print_byte (elem page3 i) (
                 App_print newline (
                 App_yield (
                 print_byte (elem page2 i) (
                 App_print newline (
                 copy_byte (elem page3 i) (elem page2 (i + 2)) (
                 App_yield (
                 rest)))))))) (
             App_exit))))))))
          else
             App_map 0 0 (\<lambda>page0.
             App_map 0 0 (\<lambda>page1.
             let filename = (elem page0 VM_PAGESIZE) in
             copy_string filename ''data2.bin'' (
             App_map filename 0 (\<lambda>page2.
             App_store (elem filename 4) (CHR ''1'') (
             App_yield (
             App_map filename 0 (\<lambda>page3.
             for_each [0..<19] (\<lambda>i rest.
                 print_byte (elem page3 i) (
                 App_print newline (
                 App_yield (
                 print_byte (elem page2 i) (
                 App_print newline (
                 copy_byte (elem page3 i) (elem page2 (i + 2)) (
                 App_yield (
                 rest)))))))) (
             App_exit))))))))))
     in
     (if child = 0 then
         App_map 0 0 (\<lambda>page0.
         App_map 0 0 (\<lambda>page1.
         let filename = (elem page0 VM_PAGESIZE) in
         copy_string filename ''data1.bin'' (
         App_map filename 0 (\<lambda>page2.
         App_fork (\<lambda>_.
         App_store (elem filename 4) (CHR ''2'') (
         App_yield (
         App_map filename 0 (\<lambda>page3.
         for_each [0..<19] (\<lambda>i rest.
             print_byte (elem page3 i) (
             App_print newline (
             App_yield (
             print_byte (elem page2 i) (
             App_print newline (
             copy_byte (elem page3 i) (elem page2 i) (
             App_yield (
             rest)))))))) (
         k)))))))))
      else
         App_map 0 0 (\<lambda>page0.
         App_map 0 0 (\<lambda>page1.
         let filename = (elem page0 VM_PAGESIZE) in
         copy_string filename ''data2.bin'' (
         App_map filename 0 (\<lambda>page2.
         App_fork (\<lambda>_.
         App_store (elem filename 4) (CHR ''1'') (
         App_yield (
         App_map filename 0 (\<lambda>page3.
         for_each [0..<19] (\<lambda>i rest.
             print_byte (elem page3 i) (
             App_print newline (
             App_yield (
             print_byte (elem page2 i) (
             App_print newline (
             copy_byte (elem page3 i) (elem page2 i) (
             App_yield (
             rest)))))))) (
         k)))))))))))))))))))"

definition app27 :: "app" where
  "app27 =
     App_map 0 0 (\<lambda>page00.
     App_map 0 0 (\<lambda>page01.
     let filename0 = (elem page00 VM_PAGESIZE) in
     copy_string filename0 ''data1.bin'' (
     App_map filename0 0 (\<lambda>page02.
     App_store (elem filename0 4) (CHR ''2'') (
     App_map filename0 1 (\<lambda>page03.
     App_fork (\<lambda>_.
     for_each [18..<29] (\<lambda>i rest.
         print_byte (elem page03 i) (
         App_print newline (
         print_byte (elem page02 i) (
         App_print newline (
         copy_byte (elem page03 i) (elem page02 i) (
         App_yield (
         copy_byte (elem page02 i) (elem page03 (i + 10)) (
         rest)))))))) (
     App_fork (\<lambda>child.
     let k =
         App_fork (\<lambda>child.
         (if child = 0 then
             App_map 0 0 (\<lambda>page0.
             App_map 0 0 (\<lambda>page1.
             let filename = (elem page0 VM_PAGESIZE) in
             copy_string filename ''data1.bin'' (
             App_map filename 0 (\<lambda>page2.
             App_store (elem filename 4) (CHR ''2'') (
             App_yield (
             App_map filename 0 (\<lambda>page3.
             for_each [0..<19] (\<lambda>i rest.
                 print_byte (elem page3 i) (
                 App_print newline (
                 App_yield (
                 print_byte (elem page2 i) (
                 App_print newline (
                 copy_byte (elem page3 i) (elem page2 i) (
                 App_yield (
                 rest)))))))) (
             App_exit))))))))
          else
             App_map 0 0 (\<lambda>page0.
             App_map 0 0 (\<lambda>page1.
             let filename = (elem page0 VM_PAGESIZE) in
             copy_string filename ''data2.bin'' (
             App_map filename 0 (\<lambda>page2.
             App_store (elem filename 4) (CHR ''1'') (
             App_yield (
             App_map filename 0 (\<lambda>page3.
             for_each [0..<19] (\<lambda>i rest.
                 print_byte (elem page3 i) (
                 App_print newline (
                 App_yield (
                 print_byte (elem page2 i) (
                 App_print newline (
                 copy_byte (elem page3 i) (elem page2 i) (
                 App_yield (
                 rest)))))))) (
             App_exit))))))))))
     in
     (if child = 0 then
         App_map 0 0 (\<lambda>page0.
         App_map 0 0 (\<lambda>page1.
         let filename = (elem page0 VM_PAGESIZE) in
         copy_string filename ''data1.bin'' (
         App_map filename 0 (\<lambda>page2.
         App_store (elem filename 4) (CHR ''2'') (
         App_yield (
         App_map filename 0 (\<lambda>page3.
         for_each [0..<19] (\<lambda>i rest.
             print_byte (elem page3 i) (
             App_print newline (
             App_yield (
             print_byte (elem page2 i) (
             App_print newline (
             copy_byte (elem page3 i) (elem page2 i) (
             App_yield (
             rest)))))))) (
         k))))))))
      else
         App_map 0 0 (\<lambda>page0.
         App_map 0 0 (\<lambda>page1.
         let filename = (elem page0 VM_PAGESIZE) in
         copy_string filename ''data2.bin'' (
         App_map filename 0 (\<lambda>page2.
         App_store (elem filename 4) (CHR ''1'') (
         App_yield (
         App_map filename 0 (\<lambda>page3.
         for_each [0..<19] (\<lambda>i rest.
             print_byte (elem page3 i) (
             App_print newline (
             App_yield (
             print_byte (elem page2 i) (
             App_print newline (
             copy_byte (elem page3 i) (elem page2 i) (
             App_yield (
             rest)))))))) (
         k))))))))))))))))))"

definition app28 :: "app" where
  "app28 =
     App_map 0 0 (\<lambda>page00.
     App_map 0 0 (\<lambda>page01.
     let filename0 = (elem page00 VM_PAGESIZE) in
     copy_string filename0 ''data1.bin'' (
     App_map filename0 0 (\<lambda>page02.
     App_store (elem filename0 4) (CHR ''2'') (
     App_map filename0 1 (\<lambda>page03.
     App_fork (\<lambda>_.
     for_each [18..<29] (\<lambda>i rest.
         print_byte (elem page03 i) (
         App_print newline (
         print_byte (elem page02 i) (
         App_print newline (
         copy_byte (elem page03 i) (elem page02 i) (
         App_yield (
         copy_byte (elem page02 i) (elem page03 (i + 10)) (
         rest)))))))) (
     App_fork (\<lambda>child.
     (if child = 0 then
         App_map 0 0 (\<lambda>page0.
         App_map 0 0 (\<lambda>page1.
         let filename = (elem page0 VM_PAGESIZE) in
         copy_string filename ''data1.bin'' (
         App_map filename 0 (\<lambda>page2.
         copy_string page2 ''data1.bin'' (
         App_map 0 0 (\<lambda>page80.
         App_map 0 0 (\<lambda>page81.
         App_map 0 0 (\<lambda>page880.
         App_map 0 0 (\<lambda>page881.
         App_map page2 0 (\<lambda>page4.
         App_store (elem filename 4) (CHR ''2'') (
         App_yield (
         App_map filename 0 (\<lambda>page3.
         for_each [0..<19] (\<lambda>i rest.
             print_byte (elem page3 i) (
             App_print newline (
             print_byte (elem page4 i) (
             App_print newline (
             App_yield (
             print_byte (elem page2 i) (
             App_print newline (
             copy_byte (elem page3 i) (elem page2 i) (
             App_yield (
             rest)))))))))) (
         App_exit))))))))))))))
      else
         App_map 0 0 (\<lambda>page0.
         App_map 0 0 (\<lambda>page1.
         let filename = (elem page0 VM_PAGESIZE) in
         copy_string filename ''data2.bin'' (
         App_map filename 0 (\<lambda>page2.
         App_store (elem filename 4) (CHR ''1'') (
         App_yield (
         App_map filename 0 (\<lambda>page3.
         for_each [0..<19] (\<lambda>i rest.
             print_byte (elem page3 i) (
             App_print newline (
             App_yield (
             print_byte (elem page2 i) (
             App_print newline (
             copy_byte (elem page3 i) (elem page2 i) (
             App_yield (
             rest)))))))) (
         App_exit))))))))))))))))))"

end
