(* ===== verification/App_Props.thy ===== *)
theory App_Props imports App_Rules App_Tests begin

text \<open>
  The applications on the pager: each call of a process is executed by the functions of the pager, with the memory
  management unit in front of it. Their runs are those of the reference machine, so what is shown of an application there
  holds on the pager, with any number of frames and whatever is evicted in between.
\<close>

section \<open>The pager is a flat memory\<close>

definition pager_machine :: "'f file_io \<Rightarrow> 'f pager machine" where
  "pager_machine io c r s s' \<longleftrightarrow> process_exec io c s = Some (r, s')"

lemma pager_flat_memory:
  assumes "file_laws io S"
  shows "flat_memory (pager_machine io) (flat_of io S) (machine_ok io S)"
proof
  fix m c
  assume ok: "machine_ok io S m" "flat_allowed c (flat_of io S m)"
  note e = exec_refines [OF assms ok]
  then show "\<exists>r m'. pager_machine io c r m m'" unfolding pager_machine_def by blast
  show "machine_ok io S m' \<and> flat_step c r (flat_of io S m) (flat_of io S m')" if "pager_machine io c r m m'" for r m'
    using e that by (auto simp: pager_machine_def)
qed

interpretation map_apps: flat_memory "pager_machine map_io" "flat_of map_io S" "machine_ok map_io S" for S
  by (rule pager_flat_memory [OF map_io_laws])

text \<open>The first process.\<close>

lemma boot_refines:
  assumes laws: "file_laws io S" and M: "2 \<le> M" "M \<le> 65536" and b: "app_boot (pager_machine io) (vm_init M S (initial mem fs)) p y"
  shows "apps_ok (machine_ok io S) (flat_of io S) y" "app_boot flat_step (flat_start io S fs) p (apps_map (flat_of io S) y)"
proof -
  have "app_boot flat_step (flat_start io S fs) p (apps_map (flat_of io S) y) \<and> machine_ok io S (mach y)"
    using b
  proof cases
    case (app_booted pid m)
    let ?s = "vm_init M S (initial mem fs)"
    have a: "flat_allowed (New_process 0 pid) (flat_of io S ?s)" by (simp add: flat_of_start flat_start_def)
    have "machine_ok io S m \<and> flat_step (New_process 0 pid) Granted (flat_of io S ?s) (flat_of io S m)"
      using exec_refines [OF laws machine_start [OF M] a] app_booted(3) by (auto simp: pager_machine_def)
    then show ?thesis
      using app_boot.intros [OF app_booted(2), of flat_step "flat_start io S fs" "flat_of io S m" p] by (simp add: app_booted(1) apps_map_def flat_of_start)
  qed
  then show "apps_ok (machine_ok io S) (flat_of io S) y" "app_boot flat_step (flat_start io S fs) p (apps_map (flat_of io S) y)"
    using app_boot_wf by (auto simp: apps_ok_def)
qed

lemma boot_documented: "app_boot flat_step (flat_start io S fs) p z \<Longrightarrow> app_boot documented_step (flat_start io S fs) p z"
proof (erule app_boot.cases)
  fix pid m
  assume p: "z = \<lparr>mach = m, on_cpu = None, ready = [(pid, p)], pids = [pid], printed = []\<rparr>" "(0 :: int) < pid"
    "flat_step (New_process 0 pid) Granted (flat_start io S fs) m"
  have "childless (New_process 0 pid) (flat_start io S fs)" by (simp add: childless_def parent_pages_def flat_start_def)
  from app_boot.intros [of pid documented_step, OF p(2) flat_documented [OF p(3) this]] show ?thesis by (simp add: p(1))
qed

lemma boots:
  assumes laws: "file_laws io S" and M: "2 \<le> M" "M \<le> 65536"
  obtains y where "app_boot (pager_machine io) (vm_init M S (initial mem fs)) p y"
proof -
  let ?s = "vm_init M S (initial mem fs)"
  have a: "flat_allowed (New_process 0 1) (flat_of io S ?s)" by (simp add: flat_of_start flat_start_def)
  obtain r m where e: "process_exec io (New_process 0 1) ?s = Some (r, m)" "flat_step (New_process 0 1) r (flat_of io S ?s) (flat_of io S m)"
    using exec_refines [OF laws machine_start [OF M] a] by blast
  have "r = Granted" using e(2) by (simp add: flat_of_start flat_start_def swap_count_def)
  then show ?thesis using that app_boot.intros [of 1 "pager_machine io" ?s m p] e(1) by (simp add: pager_machine_def)
qed

text \<open>What is printed on the reference machine is printed on the pager.\<close>

lemma printed_on_pager:
  assumes "file_laws io S" "2 \<le> M" "M \<le> 65536" "app_boot (pager_machine io) (vm_init M S (initial mem fs)) p y"
    and "\<And>z. app_boot flat_step (flat_start io S fs) p z \<Longrightarrow> always_prints flat_step z s"
  shows "always_prints (pager_machine io) y s"
  using boot_refines [OF assms(1-4)] assms(5) flat_memory.same_output [OF pager_flat_memory [OF assms(1)]] by blast

text \<open>C30. Applications cannot tell the pager from memory without paging, but for the inheritance of arenas. Take any application, any
  choices of the scheduler, any number of frames from 2 to 65536 and any files that behave as documented. However far it has run on the
  pager, the same steps are a run of the application on a machine that has no frames, page tables or faults, with the same programs
  going on, the same output and the same contents of memory; and unless every process has ended, it goes on. In this machine a child
  has an empty arena, as in the code, and not its parent's, as vm_pager.h has it: but when no process that has pages forks, the steps are also a
  run on the machine of vm_pager.h.\<close>

theorem applications_see_flat_memory:
  assumes "file_laws io S" "2 \<le> M" "M \<le> 65536" "app_boot (pager_machine io) (vm_init M S (initial mem fs)) p y0"
    and "steps_in (app_step (pager_machine io)) n y0 y"
  shows "app_boot flat_step (flat_start io S fs) p (apps_map (flat_of io S) y0) \<and>
    app_boot documented_step (flat_start io S fs) p (apps_map (flat_of io S) y0) \<and>
    steps_in (app_step flat_step) n (apps_map (flat_of io S) y0) (apps_map (flat_of io S) y) \<and>
    (steps_in (app_step (childless_part (flat_of io S) (pager_machine io))) n y0 y \<longrightarrow>
       steps_in (app_step documented_step) n (apps_map (flat_of io S) y0) (apps_map (flat_of io S) y)) \<and>
    (\<not> ended y \<longrightarrow> (\<exists>y'. app_step (pager_machine io) y y'))"
proof -
  note b = boot_refines [OF assms(1-4)] and m = pager_flat_memory [OF assms(1)]
  note r = flat_memory.app_runs [OF m b(1) assms(5)]
  show ?thesis using b(2) boot_documented [OF b(2)] r flat_memory.documented_runs [OF m b(1)] flat_memory.app_not_stuck [OF m, of y] by blast
qed

theorem applications_see_flat_memory_witness:
  "\<exists>y0 y. app_boot (pager_machine map_io) (vm_init 2 4 (initial (\<lambda>_ _. CHR ''?'') demo_files)) app3 y0 \<and>
     app_step (pager_machine map_io) y0 y \<and> app_step documented_step (apps_map (flat_of map_io 4) y0) (apps_map (flat_of map_io 4) y)"
proof -
  let ?mem = "\<lambda>_ _. CHR ''?''"
  obtain y0 where b: "app_boot (pager_machine map_io) (vm_init 2 4 (initial ?mem demo_files)) app3 y0"
    using boots [OF map_io_laws, where M = 2 and S = 4 and p = app3 and mem = ?mem and fs = demo_files] by auto
  have "\<not> ended y0" using b by cases (simp add: ended_def)
  then obtain y where y: "app_step (pager_machine map_io) y0 y"
    using applications_see_flat_memory [OF map_io_laws _ _ b steps_in.intros(1)] by auto
  have "on_cpu y0 = None" using b by cases simp
  then have c: "app_step (childless_part (flat_of map_io 4) (pager_machine map_io)) y0 y" using y
    by (auto elim!: app_step.cases intro!: app_step.intros simp: childless_part_def childless_def next_call_def)
  have "steps_in (app_step (pager_machine map_io)) (Suc 0) y0 y" using y by (blast intro: steps_in.intros)
  moreover have "steps_in (app_step (childless_part (flat_of map_io 4) (pager_machine map_io))) (Suc 0) y0 y"
    using c by (blast intro: steps_in.intros)
  ultimately have "steps_in (app_step documented_step) (Suc 0) (apps_map (flat_of map_io 4) y0) (apps_map (flat_of map_io 4) y)"
    using applications_see_flat_memory [OF map_io_laws _ _ b] by simp
  then have "app_step documented_step (apps_map (flat_of map_io 4) y0) (apps_map (flat_of map_io 4) y)"
    by (auto elim!: steps_in.cases)
  with b y show ?thesis by blast
qed

section \<open>Private pages\<close>

text \<open>A page of swap belongs to one process: the reference machine gives a page that nobody has, to the current process.\<close>

definition private_of :: "flat \<Rightarrow> int \<Rightarrow> file_id set" where
  "private_of m p = {i. swap_backed i \<and> (\<exists>ids. spaces m p = Some ids \<and> i \<in> set ids)}"

lemma private_step:
  assumes "flat_step c r m m'" "flat_allowed c m"
  shows "\<exists>N. (\<forall>p. private_of m' p \<subseteq> private_of m p \<union> (if p = current m then N else {})) \<and> (\<forall>i \<in> N. \<forall>p. i \<notin> private_of m p)"
proof (cases c)
  case (Map_page name b)
  show ?thesis
  proof (cases "m' = m")
    case True
    then show ?thesis by (intro exI [of _ "{}"]) simp
  next
    case False
    have keep: "flat_map i x m = (flat_map i x m)\<lparr>swap_left := swap_left m\<rparr>" for i x by (simp add: flat_map_def)
    have "\<exists>i x n. m' = (flat_map i x m)\<lparr>swap_left := n\<rparr> \<and> (swap_backed i \<longrightarrow> (\<forall>pid ids. spaces m pid = Some ids \<longrightarrow> i \<notin> set ids))"
    proof (cases name)
      case None
      then show ?thesis using False assms(1) Map_page by (auto split: if_splits)
    next
      case (Some a)
      then obtain n where "m' = flat_map \<lparr>filename = n @ [nul], block = b, swap_backed = False\<rparr>
          (memory m \<lparr>filename = n @ [nul], block = b, swap_backed = False\<rparr>) m"
        using False assms(1) Map_page by (auto simp: Let_def split: if_splits)
      then show ?thesis by (subst (asm) keep) fastforce
    qed
    then obtain i x n where m': "m' = (flat_map i x m)\<lparr>swap_left := n\<rparr>" and
        i: "swap_backed i \<longrightarrow> (\<forall>pid ids. spaces m pid = Some ids \<longrightarrow> i \<notin> set ids)" by blast
    show ?thesis
      by (intro exI [of _ "{j. j = i \<and> swap_backed i}"]) (use i in \<open>auto simp: m' private_of_def flat_map_def split: if_splits\<close>)
  qed
qed (use assms in \<open>auto simp: private_of_def Let_def split: if_splits intro!: exI [of _ "{}"]\<close>)

text \<open>What a call leaves as it is: the pages of the other processes and the bytes of those that are private.\<close>

lemma others_keep:
  assumes "flat_step c r m m'" "flat_allowed c m" and al: "alive m \<Longrightarrow> spaces m (current m) \<noteq> None" and p: "p \<noteq> current m \<or> c = Run_process n" "spaces m p = Some ids"
    and i: "i \<in> private_of m p" "c \<noteq> Run_process n \<Longrightarrow> i \<notin> private_of m (current m)"
  shows "spaces m' p = Some ids \<and> memory m' i = memory m i"
proof (cases c)
  case (Map_page name b)
  have "\<exists>ids. spaces m p = Some ids \<and> i \<in> set ids" "swap_backed i" using i(1) by (auto simp: private_of_def)
  then show ?thesis using assms(1) p Map_page by (cases name) (auto simp: Let_def flat_map_def split: if_splits)
next
  case (Store addr ch)
  then have n: "i \<notin> private_of m (current m)" using i(2) by simp
  show ?thesis using assms(1) p i(1) n Store
    by (auto simp: private_of_def flat_byte_def space_def Let_def split: if_splits option.splits)
next
  case End_process
  then have n: "i \<notin> private_of m (current m)" using i(2) by simp
  show ?thesis using assms(1,2) al p i(1) n End_process by (auto simp: private_of_def space_def)
qed (use assms in \<open>auto simp: Let_def split: if_splits\<close>)

definition swap_private :: "flat \<Rightarrow> bool" where
  "swap_private m \<longleftrightarrow> (\<forall>p q. p \<noteq> q \<longrightarrow> private_of m p \<inter> private_of m q = {})"

lemma swap_private_step:
  assumes "swap_private m" "flat_step c r m m'" "flat_allowed c m"
  shows "swap_private m'"
proof -
  obtain N where N: "\<And>p. private_of m' p \<subseteq> private_of m p \<union> (if p = current m then N else {})" "\<And>i p. i \<in> N \<Longrightarrow> i \<notin> private_of m p"
    using private_step [OF assms(2,3)] by blast
  show ?thesis unfolding swap_private_def
  proof (intro allI impI)
    fix p q :: int assume pq: "p \<noteq> q"
    show "private_of m' p \<inter> private_of m' q = {}"
      using N(1) [of p] N(1) [of q] N(2) assms(1) pq unfolding swap_private_def by (fastforce split: if_splits)
  qed
qed

text \<open>What holds in every state of the applications on the reference machine.\<close>

interpretation private_pages: invariant_system "app_boot flat_step (flat_start io S fs) p" "app_step flat_step"
  "\<lambda>z. apps_wf z \<and> swap_private (mach z)" for io :: "'f file_io" and S fs p
proof
  show "apps_wf z \<and> swap_private (mach z)" if "app_boot flat_step (flat_start io S fs) p z" for z
  proof
    show "apps_wf z" by (rule app_boot_wf [OF that])
    show "swap_private (mach z)" using that
      by cases (auto simp: flat_start_def swap_private_def private_of_def swap_count_def split: if_splits)
  qed
  show "apps_wf z' \<and> swap_private (mach z')" if z: "apps_wf z \<and> swap_private (mach z)" and st: "app_step flat_step z z'" for z z'
  proof
    show "apps_wf z'" by (rule wf_step [OF _ st]) (use z in simp)
    show "swap_private (mach z')" using st
    proof cases
      case (app_call n c r m)
      from swap_private_step [OF _ app_call(4) wf_allowed [OF _ app_call(2,3)]] z show ?thesis
        by (simp add: app_call(1) after_mach)
    qed (use z in \<open>simp add: after_mach\<close>)
  qed
qed

lemma flat_isolated:
  assumes wf: "apps_wf z" "swap_private (mach z)" and st: "app_step flat_step z z'" and p: "p \<notin> fst ` set_option (on_cpu z)"
    and i: "spaces (mach z) p = Some ids" "i \<in> set ids" "swap_backed i"
  shows "spaces (mach z') p = Some ids \<and> memory (mach z') i = memory (mach z) i"
  using st
proof cases
  case (app_call n c r m)
  note al = wf_allowed [OF wf(1) app_call(2,3)]
  have pi: "i \<in> private_of (mach z) p" using i by (auto simp: private_of_def)
  have k: "c = Run_process n \<or> p \<noteq> current (mach z)"
  proof (cases "on_cpu z")
    case None
    then show ?thesis using app_call(3) by (simp add: next_call_def)
  next
    case (Some q)
    then show ?thesis using p apps_wfD(4) [OF wf(1)] by auto
  qed
  have "i \<notin> private_of (mach z) (current (mach z))" if "c \<noteq> Run_process n"
    using that k pi wf(2) by (auto simp: swap_private_def)
  from others_keep [OF app_call(4) al _ _ i(1) pi this] apps_wfD(5) [OF wf(1)] k show ?thesis by (auto simp: app_call(1) after_mach)
qed (use i in \<open>simp add: after_mach\<close>)

text \<open>A process with a page forks and waits; its child is on the CPU.\<close>

definition iso_app :: app where
  "iso_app = App_map 0 0 (\<lambda>_. App_fork (\<lambda>_. App_yield App_exit))"

definition iso_calls :: "process_call list" where
  "iso_calls = [New_process 0 1, Run_process 1, Map_page None 0, New_process 1 2, Run_process 2]"

abbreviation iso_start where
  "iso_start \<equiv> vm_init 2 4 (initial (\<lambda>_ _. CHR ''?'') demo_files)"

lemma iso_protocol: "protocol map_io 4 iso_calls iso_start"
  by (simp add: iso_calls_def process_eval)

lemma iso_answers:
  assumes "flat_steps iso_calls rs (flat_start map_io 4 demo_files) m"
  shows "rs = [Granted, Granted, Address (page_address 0), Granted, Granted]" "\<exists>i. spaces m 1 = Some [i] \<and> swap_backed i"
proof -
  have "0 < MAX_PAGE_NUM" by simp
  then show "rs = [Granted, Granted, Address (page_address 0), Granted, Granted]" "\<exists>i. spaces m 1 = Some [i] \<and> swap_backed i"
    using assms by (auto simp: iso_calls_def flat_start_def swap_count_def Let_def next_page_def space_def flat_map_def page_address_def)
qed

lemma pager_call_step:
  "choice_ok n y \<Longrightarrow> next_call n y = Some c \<Longrightarrow> process_exec io c s = Some (r, m) \<Longrightarrow> mach y = s \<Longrightarrow>
   y' = after n r (y\<lparr>mach := m\<rparr>) \<Longrightarrow> app_step (pager_machine io) y y'"
  using app_step.app_call [of n y c "pager_machine io" r m] by (simp add: pager_machine_def)

lemma alone_step: "choice_ok n y \<Longrightarrow> next_call n y = None \<Longrightarrow> y' = after n Refused y \<Longrightarrow> app_step exec y y'"
  using app_step.app_alone [of n y exec] by simp

lemma iso_run:
  "\<exists>y0 y i. app_boot (pager_machine map_io) iso_start iso_app y0 \<and> steps_in (app_step (pager_machine map_io)) 5 y0 y \<and>
     on_cpu y = Some (2, App_yield App_exit) \<and> spaces (flat_of map_io 4 (mach y)) 1 = Some [i] \<and> swap_backed i"
proof -
  obtain rs s where run: "process_run map_io iso_calls iso_start = Some (rs, s)"
    and fl: "flat_steps iso_calls rs (flat_start map_io 4 demo_files) (flat_of map_io 4 s)"
    using run_refines [OF map_io_laws machine_start iso_protocol] by (auto simp: flat_of_start)
  note a = iso_answers [OF fl]
  obtain s1 s2 s3 s4 where e: "process_exec map_io (New_process 0 1) iso_start = Some (Granted, s1)"
    "process_exec map_io (Run_process 1) s1 = Some (Granted, s2)" "process_exec map_io (Map_page None 0) s2 = Some (Address (page_address 0), s3)"
    "process_exec map_io (New_process 1 2) s3 = Some (Granted, s4)" "process_exec map_io (Run_process 2) s4 = Some (Granted, s)"
    using run unfolding iso_calls_def a(1) by (auto simp del: process_exec.simps split: bind_splits)
  let ?e = "pager_machine map_io" and ?w = "App_yield App_exit"
  let ?y = "\<lambda>s c r ps. \<lparr>mach = s, on_cpu = c, ready = r, pids = ps, printed = []\<rparr>"
  have b: "app_boot ?e iso_start iso_app (?y s1 None [(1, iso_app)] [1])"
    by (rule app_boot.intros) (use e(1) in \<open>simp_all add: pager_machine_def\<close>)
  have s: "app_step ?e (?y s1 None [(1, iso_app)] [1]) (?y s2 (Some (1, iso_app)) [] [1])"
    "app_step ?e (?y s2 (Some (1, iso_app)) [] [1]) (?y s3 (Some (1, App_fork (\<lambda>_. ?w))) [] [1])"
    "app_step ?e (?y s3 (Some (1, App_fork (\<lambda>_. ?w))) [] [1]) (?y s4 (Some (1, ?w)) [(2, ?w)] [2, 1])"
    "app_step ?e (?y s4 (Some (1, ?w)) [(2, ?w)] [2, 1]) (?y s4 None [(2, ?w), (1, App_exit)] [2, 1])"
    "app_step ?e (?y s4 None [(2, ?w), (1, App_exit)] [2, 1]) (?y s (Some (2, ?w)) [(1, App_exit)] [2, 1])"
    by (rule pager_call_step [where n = 1, OF _ _ e(2)] pager_call_step [where n = 1, OF _ _ e(3)]
      pager_call_step [where n = 2, OF _ _ e(4)] pager_call_step [where n = 2, OF _ _ e(5)] alone_step [of 1];
      simp add: choice_ok_def next_call_def after_def iso_app_def)+
  have "steps_in (app_step ?e) (Suc (Suc (Suc (Suc (Suc 0))))) (?y s1 None [(1, iso_app)] [1]) (?y s (Some (2, ?w)) [(1, App_exit)] [2, 1])"
    using s by (blast intro: steps_in.intros)
  then have "steps_in (app_step ?e) 5 (?y s1 None [(1, iso_app)] [1]) (?y s (Some (2, ?w)) [(1, App_exit)] [2, 1])"
    by (simp add: eval_nat_numeral)
  with b a(2) show ?thesis by fastforce
qed

text \<open>C31. The pages of swap of a process are its own. Whatever the applications do, in every state that they reach on the
  pager, a step of another process, or of the scheduler, leaves the pages of a process as they are, and every byte of those
  that are not blocks of files.\<close>

theorem private_pages_isolated:
  assumes "file_laws io S" "2 \<le> M" "M \<le> 65536" "app_boot (pager_machine io) (vm_init M S (initial mem fs)) p y0"
    and "steps_in (app_step (pager_machine io)) n y0 y" "app_step (pager_machine io) y y'" "pid \<notin> fst ` set_option (on_cpu y)"
    and "spaces (flat_of io S (mach y)) pid = Some ids" "i \<in> set ids" "swap_backed i"
  shows "spaces (flat_of io S (mach y')) pid = Some ids \<and> memory (flat_of io S (mach y')) i = memory (flat_of io S (mach y)) i"
proof -
  note b = boot_refines [OF assms(1-4)] and m = pager_flat_memory [OF assms(1)]
  note r = flat_memory.app_runs [OF m b(1) assms(5)]
  have inv: "apps_wf (apps_map (flat_of io S) y) \<and> swap_private (mach (apps_map (flat_of io S) y))"
    using private_pages.inv_steps [OF conjunct2 [OF r] private_pages.inv_init [OF b(2)]] .
  from flat_isolated [OF conjunct1 [OF inv] conjunct2 [OF inv] flat_memory.app_sim(2) [OF m conjunct1 [OF r] assms(6)], of pid ids i]
  show ?thesis using assms(7-10) by simp
qed

theorem private_pages_isolated_witness:
  "\<exists>y y' i. on_cpu y = Some (2, App_yield App_exit) \<and> app_step (pager_machine map_io) y y' \<and>
     spaces (flat_of map_io 4 (mach y')) 1 = Some [i] \<and> memory (flat_of map_io 4 (mach y')) i = memory (flat_of map_io 4 (mach y)) i"
proof -
  obtain y0 y i where y: "app_boot (pager_machine map_io) iso_start iso_app y0" "steps_in (app_step (pager_machine map_io)) 5 y0 y"
    "on_cpu y = Some (2, App_yield App_exit)" "spaces (flat_of map_io 4 (mach y)) 1 = Some [i]" "swap_backed i"
    using iso_run by blast
  have b: "apps_ok (machine_ok map_io 4) (flat_of map_io 4) y0" by (rule boot_refines [OF map_io_laws _ _ y(1)]) simp_all
  have "\<not> ended y" using y(3) by (simp add: ended_def)
  then obtain y' where y': "app_step (pager_machine map_io) y y'"
    using map_apps.app_not_stuck conjunct1 [OF map_apps.app_runs [OF b y(2)]] by blast
  have "spaces (flat_of map_io 4 (mach y')) 1 = Some [i] \<and> memory (flat_of map_io 4 (mach y')) i = memory (flat_of map_io 4 (mach y)) i"
    by (rule private_pages_isolated [OF map_io_laws _ _ y(1,2) y']) (use y(3-5) in simp_all)
  with y(3) y' show ?thesis by blast
qed

section \<open>What applications print\<close>

lemma app3_flat:
  assumes "2 \<le> S" "file_read io fs (Some ''lampson83.txt'') 0 = Some x" "app_boot flat_step (flat_start io S fs) app3 z"
  shows "always_prints flat_step z (map x [0..<23] @ newline)"
  using assms(3)
proof (rule boot_solo)
  fix pid :: int
  let ?f = "memory (flat_start io S fs)" and ?name = "''lampson83.txt''"
  have f: "?f \<lparr>filename = ?name @ [nul], block = 0, swap_backed = False\<rparr> = Some x" using assms(2) start_file [of ?name io S fs 0] by simp
  show "always_prints flat_step (solo pid [] ?f S [] app3) (map x [0..<23] @ newline)"
    unfolding app3_def Let_def
    apply (rule solo_swap, simp, use assms(1) in simp, simp)+
    apply (rule run_copy0, (simp; fail)+, simp)
    apply (rule solo_file0 [where nm = ?name], (simp; fail)+, simp)
    apply (rule run_each, rule run_print_byte, (simp; fail)+, simp add: file_not_swap f [simplified], simp)
    apply (rule run_print, rule solo_exit, simp)
    done
qed

text \<open>The loop that prints a byte of each of six pages in a line.\<close>

lemma columns:
  assumes len: "length ids \<le> MAX_PAGE_NUM" "b \<le> VM_PAGESIZE"
    and p: "j1 < length ids" "f (ids ! j1) = Some y1" "j2 < length ids" "f (ids ! j2) = Some y2" "j3 < length ids" "f (ids ! j3) = Some y3"
      "j4 < length ids" "f (ids ! j4) = Some y4" "j5 < length ids" "f (ids ! j5) = Some y5" "j6 < length ids" "f (ids ! j6) = Some y6"
    and k: "always_prints flat_step (solo pid ids f n (out @ concat (map (\<lambda>i. [y1 i, y2 i, y3 i, y4 i, y5 i, y6 i] @ newline) [0..<b])) k) s"
  shows "always_prints flat_step (solo pid ids f n out (for_each [0..<b] (\<lambda>i rest.
    print_byte (elem (page_address j1) i) (print_byte (elem (page_address j2) i) (print_byte (elem (page_address j3) i) (
    print_byte (elem (page_address j4) i) (print_byte (elem (page_address j5) i) (print_byte (elem (page_address j6) i) (
    App_print newline rest))))))) k)) s"
proof (rule run_each [OF _ k])
  fix i out k
  assume i: "i \<in> set [0..<b]"
    and k: "always_prints flat_step (solo pid ids f n (out @ [y1 i, y2 i, y3 i, y4 i, y5 i, y6 i] @ newline) k) s"
  have "i < VM_PAGESIZE" "j < MAX_PAGE_NUM" if "j < length ids" for j using i len that by simp_all
  note r = run_print_byte [where sp = "[pid \<mapsto> ids]" and f = f, OF _ _ this(2,1)]
  show "always_prints flat_step (solo pid ids f n out
    (print_byte (elem (page_address j1) i) (print_byte (elem (page_address j2) i) (print_byte (elem (page_address j3) i) (
    print_byte (elem (page_address j4) i) (print_byte (elem (page_address j5) i) (print_byte (elem (page_address j6) i) (
    App_print newline k)))))))) s"
    by (intro r run_print) (use p k in simp_all)
qed

lemma app6_flat:
  assumes "1 \<le> S" "\<And>b. b < 4 \<Longrightarrow> file_read io fs (Some ''data1.bin'') b = Some (x b)" "app_boot flat_step (flat_start io S fs) app6 z"
  shows "always_prints flat_step z (concat (map (\<lambda>i. [((x 0)(0 := CHR ''b'')) i, ((x 0)(0 := CHR ''b'')) i, ((x 0)(0 := CHR ''b'')) i,
    ((x 1)(0 := CHR ''c'')) i, ((x 2)(0 := CHR ''d'')) i, ((x 3)(1 := CHR ''d'')) i] @ newline) [0..<10]))"
  using assms(3)
proof (rule boot_solo)
  fix pid :: int
  let ?f = "memory (flat_start io S fs)" and ?name = "''data1.bin''"
  have f: "?f \<lparr>filename = ?name @ [nul], block = b, swap_backed = False\<rparr> = Some (x b)" if "b < 4" for b
    using assms(2) [OF that] start_file [of ?name io S fs b] by simp
  note f' = f [of 0] f [of 1] f [of 2] f [of 3]
  let ?out = "concat (map (\<lambda>i. [((x 0)(0 := CHR ''b'')) i, ((x 0)(0 := CHR ''b'')) i, ((x 0)(0 := CHR ''b'')) i,
    ((x 1)(0 := CHR ''c'')) i, ((x 2)(0 := CHR ''d'')) i, ((x 3)(1 := CHR ''d'')) i] @ newline) [0..<10])"
  show "always_prints flat_step (solo pid [] ?f S [] app6) ?out"
    unfolding app6_def Let_def
    apply (rule solo_swap, simp, use assms(1) in simp, simp)
    apply (rule run_copy0, (simp; fail)+, simp)
    apply (rule solo_file0 [where nm = ?name], (simp; fail)+, simp)+
    apply (rule run_store0 run_store, (simp add: file_not_swap f' [simplified]; fail)+, simp?)+
    apply (rule columns, (simp add: file_not_swap f' [simplified]; fail)+)
    apply (rule solo_exit, simp)
    done
qed

lemma app20_flat:
  assumes "6 \<le> S" "app_boot flat_step (flat_start io S fs) app20 z"
  shows "always_prints flat_step z (''hhhh'' @ [nul] @ ''on84.'' @ newline)"
  using assms(2)
proof (rule boot_solo)
  fix pid :: int
  let ?f = "memory (flat_start io S fs)"
  have hs: "''hhhhhhh'' = ''hhh'' @ ''hhhh''" by simp
  have over: "Suc (Suc (Suc (VM_PAGESIZE - 3))) = VM_PAGESIZE" by (simp add: VM_PAGESIZE_def)
  show "always_prints flat_step (solo pid [] ?f S [] app20) (''hhhh'' @ [nul] @ ''on84.'' @ newline)"
    unfolding app20_def Let_def
    apply (rule solo_swap, simp, use assms(1) in simp, simp)
    apply (rule run_copy0, (simp; fail)+, simp)
    apply (rule solo_swap, simp, use assms(1) in simp, simp)
    apply (rule run_copy0, (simp; fail)+, simp)
    apply (rule solo_swap, simp, use assms(1) in simp, simp)
    apply (rule run_copy0, (simp; fail)+, simp)
    apply (rule solo_swap, simp, use assms(1) in simp, simp)
    apply (rule run_copy0, (simp; fail)+, simp)
    apply (rule solo_swap, simp, use assms(1) in simp, simp)
    apply (rule run_copy0, (simp; fail)+, simp)
    apply (rule solo_swap, simp, use assms(1) in simp, simp)
    apply (rule run_copy0, (simp; fail)+, simp)
    apply (subst hs, rule run_copy_part, (simp add: VM_PAGESIZE_def; fail)+)
    apply (elim conjE, simp)
    apply (elim conjE, simp add: over)
    apply (rule run_copy0, (simp; fail)+, simp)
    apply (rule run_each, rule run_print_byte, (simp; fail)+)
    apply (rule run_print, rule solo_exit, simp add: upt_conv_Cons)
    done
qed

text \<open>The loop that maps the pages of test17: the process has them all.\<close>

lemma fill_pages:
  assumes "length ids + m \<le> MAX_PAGE_NUM" "m \<le> n"
    and k: "\<And>ids' f' n'. length ids' = length ids + m \<Longrightarrow>
      always_prints flat_step (solo pid ids' f' n' out (k (map page_address [0..<length ids']))) s"
  shows "always_prints flat_step (solo pid ids f n out (app17_fill m (map page_address [0..<length ids]) k)) s"
  using assms
proof (induction m arbitrary: ids f n)
  case 0
  then show ?case by simp
next
  case (Suc m)
  let ?ps = "map page_address [0..<length ids] @ [page_address (length ids)]"
  have ps: "?ps = map page_address [0..<Suc (length ids)]" by simp
  have room: "length ids < MAX_PAGE_NUM" using Suc.prems(1) by simp
  show ?case unfolding app17_fill.simps Let_def
  proof (rule solo_swap [OF room])
    show "n \<noteq> 0" using Suc.prems(2) by simp
    fix i :: file_id assume "swap_backed i"
    let ?f = "f(i := Some (\<lambda>_. nul))" and ?ids = "ids @ [i]"
    let ?g = "?f(?ids ! length ids := Some (put_chars (\<lambda>_. nul) 0 (''data1.bin'' @ [nul])))"
    have next_page: "always_prints flat_step (solo pid ?ids ?g (n - 1) out (app17_fill m ?ps k)) s"
      unfolding ps length_append_singleton [symmetric, of ids i]
    proof (rule Suc.IH)
      show "length ?ids + m \<le> MAX_PAGE_NUM" "m \<le> n - 1" using Suc.prems(1,2) by simp_all
      show "always_prints flat_step (solo pid ids' f' n' out (k (map page_address [0..<length ids']))) s"
        if "length ids' = length ?ids + m" for ids' f' n'
        by (rule Suc.prems(3)) (use that in simp)
    qed
    show "always_prints flat_step (solo pid ?ids ?f (n - 1) out (copy_string (last ?ps) ''data1.bin'' (app17_fill m ?ps k))) s"
      unfolding last_snoc
      by (rule run_copy0 [where ids = ?ids and x = "\<lambda>_. nul", OF _ _ room]) (use next_page in simp_all)
  qed
qed

text \<open>A process with an empty arena is ended by the first string that it prints.\<close>

lemma empty_arena_faults:
  assumes "sp pid = Some []" "j < MAX_PAGE_NUM"
    and "always_prints flat_step (idle (sp(pid := None)) f n pid False rd ps out) s"
  shows "always_prints flat_step (run sp f n pid rd ps out (print_string (page_address j) k)) s"
proof -
  have "VM_ARENA_SIZE \<noteq> 0" by (simp add: VM_ARENA_SIZE_def)
  then obtain m where m: "VM_ARENA_SIZE = Suc m" by (cases VM_ARENA_SIZE) simp_all
  show ?thesis unfolding print_string_def m print_chars.simps
    by (rule run_load_fault [where j = j and i = 0, unfolded elem_zero], rule assms(1), simp, rule assms(2), simp, rule run_exit, rule assms(1))
      (use assms(3) in \<open>simp add: swap_count_def\<close>)
qed

lemma run_end:
  assumes "sp pid = Some ids" "\<And>f n. always_prints flat_step (idle (sp(pid := None)) f n pid False rd ps out) s"
  shows "always_prints flat_step (run sp f n pid rd ps out App_exit) s"
  by (rule run_exit [where sp = sp and pid = pid, OF assms(1)]) (rule assms(2))

text \<open>The process \<open>pid\<close> has a last line to print; a child with an empty arena may run before or after it.\<close>

lemma last_words:
  assumes "sp pid = Some ids" "\<And>f n. always_prints flat_step (idle (sp(pid := None)) f n pid False rd ps (out @ t)) s"
  shows "always_prints flat_step (run sp f n pid rd ps out (App_print t App_exit)) s"
  by (rule run_print, rule run_end, rule assms(1), rule assms(2))

lemma last_process:
  assumes "sp pid = Some ids"
  shows "always_prints flat_step (idle sp f n q b [(pid, App_print t App_exit)] ps out) (out @ t)"
  by (rule idle_next) (use assms in \<open>auto split: if_splits intro!: last_words idle_end\<close>)

lemma empty_child:
  assumes c: "sp c = Some []" "c \<noteq> pid" "j < MAX_PAGE_NUM" and p: "sp pid = Some ids"
  shows "always_prints flat_step (idle sp f n q b [(c, print_string (page_address j) k), (pid, App_print t App_exit)] ps out) (out @ t)"
proof (rule idle_next)
  fix q' p'
  assume "map_of [(c, print_string (page_address j) k), (pid, App_print t App_exit)] q' = Some p'"
  then consider "q' = c" "p' = print_string (page_address j) k" | "q' = pid" "p' = App_print t App_exit"
    by (auto split: if_splits)
  then show "always_prints flat_step (run sp f n q' (filter (\<lambda>x. fst x \<noteq> q')
      [(c, print_string (page_address j) k), (pid, App_print t App_exit)]) ps out p') (out @ t)"
  proof cases
    case 1
    have "always_prints flat_step (idle (sp(c := None)) f n c False [(pid, App_print t App_exit)] ps out) (out @ t)"
      by (rule last_process) (use c(2) p in simp)
    then show ?thesis unfolding 1 using c by (simp add: empty_arena_faults)
  next
    case 2
    have "always_prints flat_step (idle (sp(pid := None)) f n pid False [(c, print_string (page_address j) k)] ps (out @ t)) (out @ t)" for f n
    proof (rule idle_next)
      fix q' p'
      assume "map_of [(c, print_string (page_address j) k)] q' = Some p'"
      then have q': "q' = c" "p' = print_string (page_address j) k" by (auto split: if_splits)
      show "always_prints flat_step (run (sp(pid := None)) f n q' (filter (\<lambda>x. fst x \<noteq> q') [(c, print_string (page_address j) k)]) ps (out @ t) p') (out @ t)"
        unfolding q' by (rule empty_arena_faults) (use c in \<open>auto intro: idle_end\<close>)
    qed simp
    then show ?thesis unfolding 2 using last_words [of sp pid ids "[(c, print_string (page_address j) k)]"] c(2) p by simp
  qed
qed simp

lemma app17_flat:
  assumes "127 \<le> S" "app_boot flat_step (flat_start io S fs) app17 z"
  shows "always_prints flat_step z (''process 1 end'' @ newline)"
  using assms(2)
proof (rule boot_solo)
  fix pid :: int
  define s where "s = ''process 1 end'' @ newline"
  let ?k = "App_yield (App_print s App_exit)" and ?at = "map page_address [0..<127]"
  have forked: "always_prints flat_step (solo pid ids f n [] (App_fork (\<lambda>child. if child = 0 then print_string (page_address 126) p else ?k))) s" for ids f n p
  proof (rule run_fork)
    show "always_prints flat_step (solo pid ids f n [] (if (- 1 :: int) = 0 then print_string (page_address 126) p else ?k)) s"
      by (simp, rule run_yield) (use last_process [where out = "[]" and t = s] in simp)
    fix c :: int assume c: "0 < c" "c \<notin> set [pid]"
    show "always_prints flat_step (run ([pid \<mapsto> ids](c := Some [])) f (n - swap_count (Some ids)) pid
        ([] @ [(c, if (0 :: int) = 0 then print_string (page_address 126) p else ?k)]) [c, pid] []
        (if c = 0 then print_string (page_address 126) p else ?k)) s"
      using c by (simp, intro run_yield, simp, intro empty_child [where out = "[]", simplified]) simp_all
  qed simp
  have r: "rev [120..<127] = 126 # rev [120..<126]" using upt_Suc_append [of 120 126] by simp
  have first: "for_each (x # xs) body k = body x (for_each xs body k)" for x xs body k by (simp add: for_each_def)
  have at: "map page_address [0..<127] ! 126 = page_address 126" by simp
  show "always_prints flat_step (solo pid [] (memory (flat_start io S fs)) S [] app17) (''process 1 end'' @ newline)"
    unfolding app17_def s_def [symmetric] r first
  proof (rule fill_pages [where ids = "[]", simplified])
    fix ids :: "file_id list" and f n
    assume l: "length ids = 127"
    show "always_prints flat_step (solo pid ids f n [] (App_fork (\<lambda>child.
        if child = 0 then print_string (map page_address [0..<length ids] ! 126) (p (map page_address [0..<length ids])) else ?k))) s" for p
      unfolding l at by (rule forked)
  qed (use assms(1) in simp_all)
qed

text \<open>C37. What applications print, whatever is evicted. test3 prints the start of the file whose name it has written into
  a page. In test6 the pages of one block of a file are one: a byte written through the second shows in the first and the third, and
  the other blocks have their own. In test20 a string that runs over the end of a page goes on in the next one and leaves the
  rest of it. Each comes to its end on the pager, with any number of frames from 2 to 65536.\<close>

theorem application_outputs:
  assumes "file_laws io S" "2 \<le> M" "M \<le> 65536" "6 \<le> S" "file_read io fs (Some ''lampson83.txt'') 0 = Some x"
    and "\<And>b. b < 4 \<Longrightarrow> file_read io fs (Some ''data1.bin'') b = Some (d b)"
    and "app_boot (pager_machine io) (vm_init M S (initial mem fs)) app3 y3" "app_boot (pager_machine io) (vm_init M S (initial mem fs)) app6 y6"
      "app_boot (pager_machine io) (vm_init M S (initial mem fs)) app20 y20"
  shows "always_prints (pager_machine io) y3 (map x [0..<23] @ newline) \<and>
    always_prints (pager_machine io) y6 (concat (map (\<lambda>i. [((d 0)(0 := CHR ''b'')) i, ((d 0)(0 := CHR ''b'')) i, ((d 0)(0 := CHR ''b'')) i,
      ((d 1)(0 := CHR ''c'')) i, ((d 2)(0 := CHR ''d'')) i, ((d 3)(1 := CHR ''d'')) i] @ newline) [0..<10])) \<and>
    always_prints (pager_machine io) y20 (''hhhh'' @ [nul] @ ''on84.'' @ newline)"
proof (intro conjI)
  note on = printed_on_pager [OF assms(1-3)]
  show "always_prints (pager_machine io) y3 (map x [0..<23] @ newline)"
    by (rule on [OF assms(7)], rule app3_flat [where x = x]) (use assms(4,5) in simp_all)
  show "always_prints (pager_machine io) y6 (concat (map (\<lambda>i. [((d 0)(0 := CHR ''b'')) i, ((d 0)(0 := CHR ''b'')) i, ((d 0)(0 := CHR ''b'')) i,
      ((d 1)(0 := CHR ''c'')) i, ((d 2)(0 := CHR ''d'')) i, ((d 3)(1 := CHR ''d'')) i] @ newline) [0..<10]))"
    by (rule on [OF assms(8)], rule app6_flat [where x = d]) (use assms(4,6) in simp_all)
  show "always_prints (pager_machine io) y20 (''hhhh'' @ [nul] @ ''on84.'' @ newline)"
    by (rule on [OF assms(9)], rule app20_flat) (use assms(4) in simp_all)
qed

definition app_files :: "string option \<Rightarrow> nat \<Rightarrow> page option" where
  "app_files n b = (if n = Some ''lampson83.txt'' \<or> n = Some ''data1.bin'' then Some (\<lambda>_. char_of (65 + b)) else None)"

theorem application_outputs_witness:
  "\<exists>y. app_boot (pager_machine map_io) (vm_init 2 6 (initial (\<lambda>_ _. CHR ''?'') app_files)) app20 y \<and>
     always_prints (pager_machine map_io) y (''hhhh'' @ [nul] @ ''on84.'' @ newline)"
proof -
  let ?s = "vm_init 2 6 (initial (\<lambda>_ _. CHR ''?'') app_files)"
  have b: "\<exists>y. app_boot (pager_machine map_io) ?s p y" for p
    using boots [OF map_io_laws, where M = 2 and S = 6 and p = p and mem = "\<lambda>_ _. CHR ''?''" and fs = app_files] by auto
  obtain y3 y6 y20 where y: "app_boot (pager_machine map_io) ?s app3 y3" "app_boot (pager_machine map_io) ?s app6 y6"
    "app_boot (pager_machine map_io) ?s app20 y20" using b by blast
  have "file_read map_io app_files (Some ''lampson83.txt'') 0 = Some (\<lambda>_. char_of (65 + (0 :: nat)))"
    "file_read map_io app_files (Some ''data1.bin'') c = Some (\<lambda>_. char_of (65 + c))" for c
    by (simp_all add: map_io_def app_files_def)
  from application_outputs [OF map_io_laws _ _ _ this y] y(3) show ?thesis by auto
qed

text \<open>A child does not get its parent's arena. In test17 a process fills 127 pages and forks, and the child is meant to
  read them. As \<open>vm_create\<close> gives the child an empty arena, the child is ended by its first access, or is not made at all: whatever the
  choices of the scheduler, whatever the number of frames, and with as much swap as there may be, all that is printed is the parent's line.\<close>

theorem child_has_empty_arena:
  assumes "file_laws io S" "2 \<le> M" "M \<le> 65536" "127 \<le> S" "app_boot (pager_machine io) (vm_init M S (initial mem fs)) app17 y"
  shows "always_prints (pager_machine io) y (''process 1 end'' @ newline)"
  by (rule printed_on_pager [OF assms(1-3,5)], rule app17_flat) (use assms(4) in simp_all)

theorem child_has_empty_arena_witness:
  "\<exists>y. app_boot (pager_machine map_io) (vm_init 2 300 (initial (\<lambda>_ _. CHR ''?'') app_files)) app17 y \<and>
     always_prints (pager_machine map_io) y (''process 1 end'' @ newline)"
proof -
  obtain y where y: "app_boot (pager_machine map_io) (vm_init 2 300 (initial (\<lambda>_ _. CHR ''?'') app_files)) app17 y"
    using boots [OF map_io_laws, where M = 2 and S = 300 and p = app17 and mem = "\<lambda>_ _. CHR ''?''" and fs = app_files] by auto
  then show ?thesis using child_has_empty_arena [OF map_io_laws _ _ _ y] by auto
qed

end
