(* ===== verification/Spec2Isabelle.thy ===== *)
theory Spec2Isabelle imports Thread_Props Thread_Runs Disk_Props FS_Client_Props FS_Threads_Props FS_Socket Pager_Props Pager_Refine App_Props begin

text \<open>
  A model of the four projects of EECS482 and what is proved of it.

  \<^bold>\<open>The programs.\<close> Project1/scheduler.cpp is a disk scheduler: requester threads and a server thread around a bounded
  queue. Project2 is a user-level thread library for one CPU: thread_lib.cpp, mutex.cpp, cv.cpp, with test programs that
  use it. Project3 is an external pager: my_vm_pager.cpp, my_utils.h, my_utils.cpp, with applications that use it. Project4 is a
  multi-threaded file server: file_server.cpp, file_server.h, utils.cpp. The projects do not call each other;
  the scheduler and the file server are written against the interface that Project2 implements.

  \<^bold>\<open>Shared theories.\<close> \<^theory_text>\<open>Prelude\<close> has reachability, the contract of an inductive invariant
  (locale \<open>invariant_system\<close>), that of a system whose steps decrease a rank (\<open>ranked_system\<close>), and that of a pool of free
  numbers (\<open>resource_pool\<close>, interpreted on the code's queues). \<^theory_text>\<open>Text_Input\<close> has what the
  programs use of the C and C++ libraries to read text.

  \<^bold>\<open>Thread library.\<close> \<^theory_text>\<open>Thread_Lib\<close>: the record \<open>tlib\<close> is the state of the globals (running thread,
  ready queue, TCBs, mutexes, condition variables), each function of the library is a function of it under the source's name
  (\<open>thread_ctor\<close>, \<open>yield\<close>, \<open>join\<close>, \<open>starter_exit\<close>, \<open>mutex_lock\<close>, \<open>mutex_unlock\<close>, \<open>cv_wait\<close>, \<open>cv_signal\<close>, \<open>cv_broadcast\<close>, \<open>cpu_ctor\<close>),
  and an exception is a value. A blocked thread has a saved point of continuation, and \<open>swap_in\<close> runs the
  interrupted call of the thread that gets the CPU. \<^theory_text>\<open>Thread_Inv\<close> has the invariant: no thread is in two
  queues, every queued thread is where its saved point says, a mutex with waiters is held.
  \<^theory_text>\<open>Thread_Props\<close>: mutual exclusion, mutexes that are given to the first waiter and make it ready, no thread lost, the CPU suspended
  only when every live thread waits, \<open>join\<close> waits for live threads, misuse of a mutex throws. The client is arbitrary.
  \<^theory_text>\<open>Thread_Programs\<close> adds a language for client programs, threads with call stacks on the library's model, which
  timer interrupts may preempt before any statement; \<^theory_text>\<open>Thread_Tests\<close> has the test programs of Project2
  in it and \<^theory_text>\<open>Thread_Runs\<close> proves that the runs of any program under any interrupts are runs of the library.
  A check of a program's text, which follows the set of mutexes that a function holds through its statements and calls (\<open>code_locks\<close>), is proved sound:
  no run of a program that passes it, under any interrupts, releases a mutex or waits with one that the thread does not hold. All test
  programs but 13, 14 and 15 pass it (\<open>tests_under_interrupts\<close>). \<open>test_endings\<close> computes how each of the test programs ends: no run without
  interrupts needs more than 400 steps, and none with the four patterns of them that it has more than 200 interrupts, which is the fuel given; a run
  that needed more would be reported as \<open>Goes_on\<close>.

  \<^bold>\<open>Disk scheduler.\<close> \<^theory_text>\<open>Disk_Scheduler\<close>: the record \<open>sched\<close> and a step per critical section, in any
  order the mutex allows. \<^theory_text>\<open>Disk_Inv\<close>: the invariant and the rank. \<^theory_text>\<open>Disk_Props\<close>: every
  request is served once, nearest first from a full queue, if no request file is empty; every run ends; with an empty file among them
  the scheduler always hangs.

  \<^bold>\<open>File server.\<close> \<^theory_text>\<open>FS_Layout\<close>: blocks as the bytes of \<open>fs_inode\<close> and \<open>fs_direntry\<close>.
  \<^theory_text>\<open>FS_Server\<close>: the handlers of the four requests, the search of a path with coupled locks, the start of
  the server, the messages; disk, sockets and the memory behind a short string are parameters, an aborted server is
  \<open>None\<close>. \<^theory_text>\<open>FS_Locks\<close>: the order of locking. \<^theory_text>\<open>FS_Text\<close>: parsing.
  \<^theory_text>\<open>FS_View\<close>: the abstract file system, a map from paths to directories and files with owners and contents, and
  when a disk is well formed. \<^theory_text>\<open>FS_Ops\<close>, \<^theory_text>\<open>FS_Change\<close>, \<^theory_text>\<open>FS_Create\<close>,
  \<^theory_text>\<open>FS_Delete\<close>, \<^theory_text>\<open>FS_File\<close>, \<^theory_text>\<open>FS_Refine\<close>: each handler refines its
  abstract operation and keeps the disk well formed. \<^theory_text>\<open>FS_Requests\<close>, \<^theory_text>\<open>FS_Start\<close>: sequences of
  connections, and the restart. \<^theory_text>\<open>FS_Props\<close> states the results. A well-formed disk has no block of a
  directory without a name in it (\<open>packed\<close>), so that whatever may be deleted is, and \<^theory_text>\<open>FS_Room\<close> can bound the
  blocks in use by what the users see. \<^theory_text>\<open>FS_Socket\<close>: the set-up of the socket, with the operating system as a
  parameter, and the loop of \<open>main\<close>; it is also proved what becomes of a server without a socket.

  \<^bold>\<open>Several handlers at once.\<close> \<^theory_text>\<open>FS_Threads\<close>: \<open>main\<close> gives each connection a thread. The record \<open>handler\<close>
  has the local variables of one and the \<open>place\<close> where it stands; \<open>act\<close> is its next step, from one lock of \<open>disk_locks\<close> to the next, made of
  the same operations as the handlers of \<open>FS_Server\<close>; \<open>thread_step\<close> lets any handler make its step when the lock that it
  wants is granted: no thread holds it in a way that excludes this. A section of \<open>free_block_lock\<close> outside these locks is a step, one
  inside is part of its step. \<^theory_text>\<open>FS_Threads_Inv\<close> has the invariant of a handler at its place (where its path leads, which blocks are its own)
  and what a step guarantees the others; \<^theory_text>\<open>FS_Threads_Steps\<close> proves it step by step, \<^theory_text>\<open>FS_Threads_Sys\<close> for the system,
  with the order in which requests are decided (\<open>explains\<close>) and the rank of a handler, two for each name of its path and seven more at most, which every step
  lowers. \<^theory_text>\<open>FS_Threads_Alone\<close> follows a handler that runs alone. \<^theory_text>\<open>FS_Threads_Props\<close>: alone a handler does
  what \<open>dispatch\<close> does (\<open>handler_alone\<close>); together they do what they do in some order, one after the other
  (\<open>handlers_linearizable\<close>); and they never stop before all are done (\<open>handlers_finish\<close>), whether the locks prefer readers or writers.
  A request may be refused for want of room only when a directory is full or the blocks in use are all there are; for the latter
  each handler under way counts with the 125 blocks that it may keep for a while.

  \<^bold>\<open>Clients of the file server.\<close> \<^theory_text>\<open>FS_Client\<close>: the calls of fs_client.h, a function \<open>fs_do\<close> that gives what each of them
  does to the abstract file system or that it fails, and the client library as a parameter: it may refuse what cannot
  succeed, it sends the request that the server reads, it returns 0 exactly for an answer that repeats it (\<open>client_laws\<close>).
  \<^theory_text>\<open>FS_Calls\<close>: a call, through the library, the connection, the header and the handler, comes to what
  \<open>fs_do\<close> gives, or fails for want of room. \<^theory_text>\<open>FS_Runs\<close> follows a client through the abstract file system,
  with a count of files and blocks that shows when there is room: with fewer than 124 names no directory is full, and
  two blocks for each name and one for each write bound the disk. \<^theory_text>\<open>FS_Client_Tests\<close> has test1.cpp to
  test17.cpp of Project4 as sequences of calls with their assertions. \<^theory_text>\<open>FS_Client_Props\<close>: server and library are
  equivalent to \<open>fs_do\<close>, and every test client ends with its assertions true. The equivalence is for calls whose names the server
  can read back from the request (\<open>plain_call\<close>): fs_client.h allows any path name, but white space other than a blank ends one
  in the server (\<open>tab_splits_path\<close>).

  \<^bold>\<open>Pager.\<close> \<^theory_text>\<open>Pager\<close>: the record \<open>pager\<close> has the globals and a heap of page tables, virtual pages and
  entries; \<open>vm_init\<close>, \<open>vm_create\<close>, \<open>vm_switch\<close>, \<open>vm_fault\<close>, \<open>vm_map\<close>, \<open>vm_destroy\<close> are functions on it, \<open>None\<close> being a crash, and the
  file calls are a parameter with the documented laws \<open>file_laws\<close>. \<^theory_text>\<open>Pager_Inv\<close>: the invariant \<open>pager_ok\<close> and
  \<open>contents\<close>, what a page holds wherever it is. \<^theory_text>\<open>Pager_Fault\<close>, \<^theory_text>\<open>Pager_Ops\<close>,
  \<^theory_text>\<open>Pager_Map\<close>, \<^theory_text>\<open>Pager_Destroy\<close>: one theory per group of calls.
  \<^theory_text>\<open>Pager_Props\<close>: for 2 to 65536 physical pages and any swap size, no call that the infrastructure may make, by its own account of the
  processes (\<open>kernel\<close>), crashes or runs for ever, unless the identifier of the process that ended last is reused at once; paging is invisible, new pages are private or shared as documented, and the end of a process gives back what it held.
  The bound of 65536 is that of the code's 32-bit product \<open>ppage * VM_PAGESIZE\<close> (\<open>frame_wraps\<close>). Where the code departs from
  its interface is proved too: \<open>create_reserves_for_ever\<close>, \<open>reused_identifier_crashes\<close>.
  \<^theory_text>\<open>Pager_Entries\<close>: the entries of pages that nobody has mapped give no access. \<^theory_text>\<open>Pager_Flat\<close> adds the memory
  management unit as vm_pager.h documents it (a load or a store faults until the bit of its entry is set) and a reference
  machine without paging, \<open>flat_step\<close>, in which a new process has an empty arena, as in the code, besides \<open>documented_step\<close>, in which it inherits the
  arena of a parent that the pager manages, as vm_pager.h has it. \<^theory_text>\<open>Pager_Refine\<close> proves that every run of calls, loads and stores returns
  and answers as the first machine does, and as the second does when no process that has pages makes another; \<open>fork_not_documented\<close> has
  a run that the second does not allow.

  \<^bold>\<open>Applications of the pager.\<close> \<^theory_text>\<open>App_Programs\<close>: a language for processes (map, load, store, fork, yield,
  print), the system of processes over any machine that answers their calls, and the contract of such a machine
  (locale \<open>flat_memory\<close>). \<^theory_text>\<open>App_Tests\<close> has the 28 test programs of Project3 in it. Their loops are lists of indices; where
  a loop may only end by a failing \<open>vm_map\<close> (\<open>swap_loop\<close>), \<open>MAX_PAGE_NUM + 1\<close> rounds are given, and the arena has room for
  \<open>MAX_PAGE_NUM\<close> pages; a string that is printed is at most as long as the arena. \<^theory_text>\<open>App_Rules\<close> follows a program on the reference
  machine. \<^theory_text>\<open>App_Props\<close> interprets the contract on the pager: every run of applications is a run on the reference
  machine, private pages are isolated, and some outputs are computed.

  \<^bold>\<open>Not modelled.\<close> The libraries that are object files only, and the declarations of their headers. A thread of the file
  server begins in the model of several handlers when its request is parsed, and a write when its data are there. Objects that the pager deletes stay in the model's heap: the invariant shows that none is reached from a live
  table. The result of \<open>file_write\<close>, which the pager ignores, is not in the model: a write is taken to do what is documented. Timer interrupts come
  between the statements of a program, not within a line of output or the increment of a counter. Of the clients of Project4, the arguments of \<open>main\<close> and
  \<open>fs_clientinit\<close> are left out; what their data buffers receive is the answer of \<open>FS_READBLOCK\<close>, which they do not look at. What applications print is recorded in the order in
  which it is handed to the output stream, whose buffers, one per process, are not modelled.
\<close>

end
